(* ===== verification/Prelude.thy ===== *)
theory Prelude
  imports Complex_Main "HOL-Library.Word"
begin

text \<open>
  What every component of the model shares: JavaScript numbers and strings, results that may
  be errors, the small list operations of the source language, the library's collections of
  hints, and the notion of a machine whose steps keep an invariant.

  A JavaScript string is its list of UTF-16 code units (\<open>jsstr\<close>), so \<open>length\<close> and \<open>jsSlice\<close>
  count what the source counts. A JavaScript number that the model looks at before it is known
  to be an integer is a \<open>jsnum\<close>; everywhere else it is an \<open>int\<close> (it may be negative) or a
  \<open>nat\<close> (a position or a count).
\<close>

named_theorems invariant_rules \<open>one preservation lemma per operation of a machine\<close>

section \<open>Results\<close>

text \<open>A thrown error or an error object is the left of a sum, a returned value the right.\<close>

definition andThen :: "'e + 'a \<Rightarrow> ('a \<Rightarrow> 'e + 'b) \<Rightarrow> 'e + 'b" where
  "andThen r f = (case r of Inl e \<Rightarrow> Inl e | Inr x \<Rightarrow> f x)"

lemma andThen_simps [simp]:
  "andThen (Inl e) f = Inl e"
  "andThen (Inr x) f = f x"
  by (simp_all add: andThen_def)

lemma andThen_Inr_iff: "andThen r f = Inr y \<longleftrightarrow> (\<exists>x. r = Inr x \<and> f x = Inr y)"
  by (cases r) auto

lemma andThen_InrE:
  assumes "andThen r f = Inr y"
  obtains x where "r = Inr x" and "f x = Inr y"
  using assms by (auto simp: andThen_Inr_iff)

text \<open>A list of results is a result: the first error, or all the values.\<close>

primrec mapResult :: "('a \<Rightarrow> 'e + 'b) \<Rightarrow> 'a list \<Rightarrow> 'e + 'b list" where
  "mapResult f [] = Inr []"
| "mapResult f (x # xs) = andThen (f x) (\<lambda>y. andThen (mapResult f xs) (\<lambda>ys. Inr (y # ys)))"

lemma mapResult_Inr: "mapResult f xs = Inr ys \<longleftrightarrow> list_all2 (\<lambda>x y. f x = Inr y) xs ys"
  by (induction xs arbitrary: ys) (auto simp: andThen_Inr_iff list_all2_Cons1)

lemma mapResult_nth:
  assumes "mapResult f xs = Inr ys"
  shows "length ys = length xs \<and> (\<forall>i < length xs. f (xs ! i) = Inr (ys ! i))"
  using assms
proof (induction xs arbitrary: ys)
  case (Cons x xs)
  then obtain z zs where *: "f x = Inr z" "mapResult f xs = Inr zs" "ys = z # zs"
    by (auto simp: andThen_Inr_iff)
  then show ?case using Cons.IH [of zs] by (auto simp: nth_Cons split: nat.splits)
qed simp

lemma mapResult_id:
  assumes "\<And>x y. f x = Inr y \<Longrightarrow> y = x" "mapResult f xs = Inr ys"
  shows "ys = xs"
  using mapResult_nth [OF assms(2)] assms(1) by (metis nth_equalityI)

section \<open>Numbers\<close>

text \<open>
  A finite double: \<open>Whole n\<close> for an integral value, \<open>Fraction q\<close> for one that is not.
\<close>

datatype jsnum = Whole int | Fraction rat

definition MAX_SAFE_INTEGER :: int where
  "MAX_SAFE_INTEGER = 9007199254740991"

definition safeInt :: "int \<Rightarrow> bool" where
  "safeInt n \<longleftrightarrow> - MAX_SAFE_INTEGER \<le> n \<and> n \<le> MAX_SAFE_INTEGER"

fun isInteger :: "jsnum \<Rightarrow> bool" where
  "isInteger (Whole n) = True"
| "isInteger (Fraction q) = False"

fun isSafeInteger :: "jsnum \<Rightarrow> bool" where
  "isSafeInteger (Whole n) = safeInt n"
| "isSafeInteger (Fraction q) = False"

text \<open>The integer a mark stands for, where \<open>isInteger\<close> has been checked.\<close>

fun wholeOf :: "jsnum \<Rightarrow> int" where
  "wholeOf (Whole n) = n"
| "wholeOf (Fraction q) = \<lfloor>q\<rfloor>"

lemma isSafeInteger_isInteger: "isSafeInteger x \<Longrightarrow> isInteger x"
  by (cases x) auto

section \<open>Lists\<close>

text \<open>\<open>s.jsSlice(a, b)\<close> for non-negative \<open>a\<close> and \<open>b\<close>.\<close>

definition jsSlice :: "'a list \<Rightarrow> nat \<Rightarrow> nat \<Rightarrow> 'a list" where
  "jsSlice s a b = take (b - a) (drop a s)"

lemma length_slice: "b \<le> length s \<Longrightarrow> length (jsSlice s a b) = b - a"
  by (simp add: jsSlice_def)

lemma slice_empty [simp]: "jsSlice s a a = []" "jsSlice [] a b = []"
  by (simp_all add: jsSlice_def)

lemma slice_whole [simp]: "jsSlice s 0 (length s) = s"
  by (simp add: jsSlice_def)

lemma slice_zero: "jsSlice s 0 b = take b s"
  by (simp add: jsSlice_def)

lemma slice_to_end: "jsSlice s a (length s) = drop a s"
  by (simp add: jsSlice_def)

lemma slice_append_slice:
  assumes "a \<le> b" "b \<le> c"
  shows "jsSlice s a b @ jsSlice s b c = jsSlice s a c"
proof -
  have "drop b s = drop (b - a) (drop a s)" using assms(1) by simp
  moreover have "c - a = (b - a) + (c - b)" using assms by simp
  ultimately show ?thesis by (simp only: jsSlice_def take_add)
qed

lemma take_append_slice:
  assumes "a \<le> b"
  shows "take a s @ jsSlice s a b = take b s"
  using slice_append_slice [of 0 a b s] assms by (simp add: slice_zero)

lemma nth_slice: "i < b - a \<Longrightarrow> b \<le> length s \<Longrightarrow> jsSlice s a b ! i = s ! (a + i)"
  by (simp add: jsSlice_def)

lemma slice_append_left:
  "b \<le> length xs \<Longrightarrow> jsSlice (xs @ ys) a b = jsSlice xs a b"
  by (simp add: jsSlice_def)

lemma slice_append_right:
  "length xs \<le> a \<Longrightarrow> jsSlice (xs @ ys) a b = jsSlice ys (a - length xs) (b - length xs)"
  by (simp add: jsSlice_def)

text \<open>The element at an index, \<open>undefined\<close> as \<open>None\<close>.\<close>

definition atIndex :: "'a list \<Rightarrow> nat \<Rightarrow> 'a option" where
  "atIndex xs i = (if i < length xs then Some (xs ! i) else None)"

lemma atIndex_Some_iff: "atIndex xs i = Some x \<longleftrightarrow> i < length xs \<and> xs ! i = x"
  by (auto simp: atIndex_def)

lemma atIndex_None_iff: "atIndex xs i = None \<longleftrightarrow> length xs \<le> i"
  by (auto simp: atIndex_def)

text \<open>\<open>xs[n - 1]\<close> for a one-based position that may be any integer.\<close>

definition atLine :: "'a list \<Rightarrow> int \<Rightarrow> 'a option" where
  "atLine xs n = (if 1 \<le> n then atIndex xs (nat (n - 1)) else None)"

lemma atLine_Some_iff:
  "atLine xs n = Some x \<longleftrightarrow> 1 \<le> n \<and> n \<le> int (length xs) \<and> xs ! nat (n - 1) = x"
  by (auto simp: atLine_def atIndex_def)

text \<open>\<open>join(sep)\<close>.\<close>

fun joinWith :: "'a list \<Rightarrow> 'a list list \<Rightarrow> 'a list" where
  "joinWith sep [] = []"
| "joinWith sep [x] = x"
| "joinWith sep (x # y # ys) = x @ sep @ joinWith sep (y # ys)"

text \<open>The indices at which a list satisfies a predicate, ascending.\<close>

definition indicesWhere :: "('a \<Rightarrow> bool) \<Rightarrow> 'a list \<Rightarrow> nat list" where
  "indicesWhere P xs = filter (\<lambda>i. P (xs ! i)) [0..<length xs]"

lemma set_indicesWhere: "set (indicesWhere P xs) = {i. i < length xs \<and> P (xs ! i)}"
  by (auto simp: indicesWhere_def)

lemma distinct_indicesWhere: "distinct (indicesWhere P xs)"
  by (simp add: indicesWhere_def)

text \<open>
  \<open>toSorted(compare)\<close>, stable: \<open>before x y\<close> is \<open>compare(x, y) <= 0\<close>.
\<close>

fun insertBy :: "('a \<Rightarrow> 'a \<Rightarrow> bool) \<Rightarrow> 'a \<Rightarrow> 'a list \<Rightarrow> 'a list" where
  "insertBy before x [] = [x]"
| "insertBy before x (y # ys) = (if before x y then x # y # ys else y # insertBy before x ys)"

definition sortBy :: "('a \<Rightarrow> 'a \<Rightarrow> bool) \<Rightarrow> 'a list \<Rightarrow> 'a list" where
  "sortBy before xs = foldr (insertBy before) xs []"

lemma set_insertBy [simp]: "set (insertBy before x ys) = insert x (set ys)"
  by (induction ys) auto

lemma length_insertBy [simp]: "length (insertBy before x ys) = Suc (length ys)"
  by (induction ys) auto

lemma set_sortBy [simp]: "set (sortBy before xs) = set xs"
  by (induction xs) (auto simp: sortBy_def)

lemma length_sortBy [simp]: "length (sortBy before xs) = length xs"
  by (induction xs) (auto simp: sortBy_def)

lemma distinct_insertBy [simp]: "distinct (insertBy before x ys) \<longleftrightarrow> x \<notin> set ys \<and> distinct ys"
  by (induction ys) auto

lemma distinct_sortBy [simp]: "distinct (sortBy before xs) = distinct xs"
  by (induction xs) (use set_sortBy [of before] in \<open>auto simp: sortBy_def\<close>)

locale comparison =
  fixes before :: "'a \<Rightarrow> 'a \<Rightarrow> bool"
  assumes total_order: "before x y \<or> before y x"
    and order_trans: "before x y \<Longrightarrow> before y z \<Longrightarrow> before x z"
begin

lemma sorted_insertBy: "sorted_wrt before ys \<Longrightarrow> sorted_wrt before (insertBy before x ys)"
proof (induction ys)
  case (Cons y ys)
  then show ?case using total_order [of x y] order_trans [of x y] by auto
qed simp

lemma sorted_sortBy: "sorted_wrt before (sortBy before xs)"
  by (induction xs) (auto simp: sortBy_def intro: sorted_insertBy)

lemma sortBy_sorted: "sorted_wrt before xs \<Longrightarrow> sortBy before xs = xs"
proof (induction xs)
  case (Cons x xs)
  then have "sortBy before (x # xs) = insertBy before x xs" by (simp add: sortBy_def)
  then show ?case using Cons.prems by (cases xs) auto
qed (simp add: sortBy_def)

end

section \<open>Binary search\<close>

text \<open>
  The loop \<open>while (low < high) { mid; if (P(mid)) low = mid + 1; else high = mid; }\<close>, which two
  routines of the text coordinates share.
\<close>

function bisect :: "(nat \<Rightarrow> bool) \<Rightarrow> nat \<Rightarrow> nat \<Rightarrow> nat" where
  "bisect P low high =
     (if low < high
      then let middle = (low + high) div 2
           in if P middle then bisect P (Suc middle) high else bisect P low middle
      else low)"
  by pat_completeness auto
termination
  by (relation "measure (\<lambda>(P, low, high). high - low)") auto

declare bisect.simps [simp del]

lemma bisect_bounds: "low \<le> high \<Longrightarrow> low \<le> bisect P low high \<and> bisect P low high \<le> high"
proof (induction P low high rule: bisect.induct)
  case (1 P low high)
  show ?case
  proof (cases "low < high")
    case True
    let ?m = "(low + high) div 2"
    have m: "low \<le> ?m" "?m < high" using True by auto
    show ?thesis
      using "1.IH"(1) [OF True refl] "1.IH"(2) [OF True refl] m True
      by (cases "P ?m") (auto simp: bisect.simps [of P low high] Let_def)
  next
    case False
    then have "bisect P low high = low" by (subst bisect.simps) simp
    then show ?thesis using "1.prems" by simp
  qed
qed

text \<open>
  On a predicate that is true up to a point and false from it on, the search finds the point.
\<close>

lemma bisect_eq:
  assumes "low \<le> k" "k \<le> high" "\<And>i. low \<le> i \<Longrightarrow> i < k \<Longrightarrow> P i"
    "\<And>i. k \<le> i \<Longrightarrow> i < high \<Longrightarrow> \<not> P i"
  shows "bisect P low high = k"
  using assms
proof (induction P low high rule: bisect.induct)
  case (1 P low high)
  show ?case
  proof (cases "low < high")
    case True
    let ?m = "(low + high) div 2"
    have m: "low \<le> ?m" "?m < high" using True by auto
    show ?thesis
    proof (cases "P ?m")
      case T: True
      then have "Suc ?m \<le> k" using "1.prems"(4) [of ?m] m by force
      then have "bisect P (Suc ?m) high = k"
        using "1.IH"(1) [OF True refl T] "1.prems" m by auto
      then show ?thesis using True T by (simp add: bisect.simps [of P low high] Let_def)
    next
      case F: False
      then have "k \<le> ?m" using "1.prems"(3) [of ?m] m by force
      then have "bisect P low ?m = k"
        using "1.IH"(2) [OF True refl F] "1.prems" m by auto
      then show ?thesis using True F by (simp add: bisect.simps [of P low high] Let_def)
    qed
  next
    case False
    then show ?thesis using "1.prems" by (simp add: bisect.simps [of P low high])
  qed
qed

section \<open>Maps in the order of insertion\<close>

text \<open>A \<open>Map\<close> keeps the order of insertion; setting a key that is present keeps its place.\<close>

definition mapDelete :: "'k \<Rightarrow> ('k \<times> 'v) list \<Rightarrow> ('k \<times> 'v) list" where
  "mapDelete k m = filter (\<lambda>e. fst e \<noteq> k) m"

definition mapSet :: "'k \<Rightarrow> 'v \<Rightarrow> ('k \<times> 'v) list \<Rightarrow> ('k \<times> 'v) list" where
  "mapSet k v m =
     (if k \<in> fst ` set m then map (\<lambda>e. if fst e = k then (k, v) else e) m else m @ [(k, v)])"

lemma mapDelete_keys: "fst ` set (mapDelete k m) = fst ` set m - {k}"
  by (auto simp: mapDelete_def)

lemma mapDelete_ok:
  "distinct (map fst m) \<Longrightarrow> distinct (map fst (mapDelete k m))"
  "\<forall>e \<in> set m. snd e < n \<Longrightarrow> \<forall>e \<in> set (mapDelete k m). snd e < n"
  by (auto simp: mapDelete_def distinct_map_filter)

lemma mapSet_keys:
  "map fst (mapSet k v m) = (if k \<in> fst ` set m then map fst m else map fst m @ [k])"
  by (auto simp: mapSet_def comp_def intro: map_cong)

lemma mapSet_ok:
  "distinct (map fst m) \<Longrightarrow> distinct (map fst (mapSet k v m))"
  "\<lbrakk>\<forall>e \<in> set m. snd e < n; v < n\<rbrakk> \<Longrightarrow> \<forall>e \<in> set (mapSet k v m). snd e < n"
  unfolding mapSet_keys by (auto simp: mapSet_def)

lemma map_of_replace:
  "map_of (map (\<lambda>e. if fst e = k then (k, v) else e) m) x =
     (if x = k then (if map_of m k = None then None else Some v) else map_of m x)"
  by (induction m) auto

lemma mapSet_lookup: "map_of (mapSet k v m) = (map_of m)(k \<mapsto> v)"
proof
  fix x
  have "k \<in> fst ` set m \<longleftrightarrow> map_of m k \<noteq> None" by (simp add: map_of_eq_None_iff)
  then show "map_of (mapSet k v m) x = ((map_of m)(k \<mapsto> v)) x"
    by (auto simp: mapSet_def map_of_replace map_add_def split: option.splits)
qed

lemma mapDelete_lookup: "map_of (mapDelete k m) = (map_of m)(k := None)"
  by (induction m) (auto simp: mapDelete_def)

lemma mapDelete_length:
  assumes "distinct (map fst m)" "k \<in> fst ` set m"
  shows "Suc (length (mapDelete k m)) = length m"
  using assms
proof (induction m)
  case (Cons e m)
  show ?case
  proof (cases "fst e = k")
    case True
    then have "k \<notin> fst ` set m" using Cons.prems(1) by simp
    then have "mapDelete k m = m" by (auto simp: mapDelete_def filter_id_conv intro: rev_image_eqI)
    then show ?thesis using True by (simp add: mapDelete_def)
  next
    case False
    then show ?thesis using Cons by (simp add: mapDelete_def)
  qed
qed simp

section \<open>Machines\<close>

text \<open>
  A component with state is a step function over events. What a step keeps, a run keeps: the
  stateful components interpret this locale on their own step function and invariant.
\<close>

primrec runFrom :: "('s \<Rightarrow> 'e \<Rightarrow> 's) \<Rightarrow> 's \<Rightarrow> 'e list \<Rightarrow> 's" where
  "runFrom step s [] = s"
| "runFrom step s (e # es) = runFrom step (step s e) es"

lemma runFrom_append [simp]: "runFrom step s (es @ fs) = runFrom step (runFrom step s es) fs"
  by (induction es arbitrary: s) simp_all

locale machine =
  fixes step :: "'s \<Rightarrow> 'e \<Rightarrow> 's"
    and start :: 's
    and holds :: "'s \<Rightarrow> bool"
  assumes start_holds: "holds start"
    and step_holds: "holds s \<Longrightarrow> holds (step s e)"
begin

lemma run_holds_from: "holds s \<Longrightarrow> holds (runFrom step s es)"
  by (induction es arbitrary: s) (auto intro: step_holds)

lemma run_holds: "holds (runFrom step start es)"
  by (rule run_holds_from) (rule start_holds)

end

end
