(* ===== verification/JsText.thy ===== *)
theory JsText
  imports Prelude
begin

text \<open>
  JavaScript strings as the source uses them: UTF-16 code units, the two line terminators the
  text routines know, code points (\<open>Array.from\<close>, string iteration), white space trimming and
  splitting at line feeds.
\<close>

type_synonym jschar = "16 word"
type_synonym jsstr = "jschar list"

definition CR :: jschar where "CR = 13"
definition LF :: jschar where "LF = 10"

lemma CR_neq_LF [simp]: "CR \<noteq> LF" "LF \<noteq> CR"
  by (simp_all add: CR_def LF_def)

definition isNewline :: "jschar \<Rightarrow> bool" where
  "isNewline c \<longleftrightarrow> c = CR \<or> c = LF"

lemma isNewline_simps [simp]: "isNewline CR" "isNewline LF"
  by (simp_all add: isNewline_def)

text \<open>\<open>/[\r\n]$/.test(s)\<close>.\<close>

definition endsWithNewline :: "jsstr \<Rightarrow> bool" where
  "endsWithNewline s \<longleftrightarrow> s \<noteq> [] \<and> isNewline (last s)"

text \<open>\<open>s.replace(/(?:\r\n|\r|\n)$/, "")\<close>.\<close>

definition stripFinalNewline :: "jsstr \<Rightarrow> jsstr" where
  "stripFinalNewline s =
     (if 2 \<le> length s \<and> last s = LF \<and> last (butlast s) = CR then butlast (butlast s)
      else if endsWithNewline s then butlast s
      else s)"

text \<open>\<open>s.includes("\r\n")\<close>.\<close>

fun includesCRLF :: "jsstr \<Rightarrow> bool" where
  "includesCRLF (c # d # s) \<longleftrightarrow> c = CR \<and> d = LF \<or> includesCRLF (d # s)"
| "includesCRLF s \<longleftrightarrow> False"

text \<open>\<open>s.split("\n")\<close>.\<close>

fun splitLF :: "jsstr \<Rightarrow> jsstr list" where
  "splitLF [] = [[]]"
| "splitLF (c # s) =
     (if c = LF then [] # splitLF s
      else case splitLF s of [] \<Rightarrow> [[c]] | l # ls \<Rightarrow> (c # l) # ls)"

lemma splitLF_nonempty [simp]: "splitLF s \<noteq> []"
  by (induction s) (auto split: list.splits)

lemma joinWith_Cons_Cons: "xs \<noteq> [] \<Longrightarrow> joinWith sep (x # xs) = x @ sep @ joinWith sep xs"
  by (cases xs) simp_all

lemma join_splitLF [simp]: "joinWith [LF] (splitLF s) = s"
proof (induction s)
  case Nil
  show ?case by simp
next
  case (Cons c s)
  obtain l ls where s: "splitLF s = l # ls" by (cases "splitLF s") auto
  then have "joinWith [LF] ((c # l) # ls) = c # s"
    using Cons.IH by (cases ls) auto
  then show ?case using s Cons.IH by (simp add: joinWith_Cons_Cons)
qed

lemma splitLF_lines: "l \<in> set (splitLF s) \<Longrightarrow> LF \<notin> set l \<and> set l \<subseteq> set s"
proof (induction s arbitrary: l)
  case (Cons c s)
  then show ?case by (cases "splitLF s") (fastforce split: if_splits)+
qed simp

section \<open>White space\<close>

definition isWhite :: "jschar \<Rightarrow> bool" where
  "isWhite c \<longleftrightarrow> (9 \<le> c \<and> c \<le> 13) \<or> c = 32 \<or> c = 160 \<or> c = 5760 \<or> (8192 \<le> c \<and> c \<le> 8202)
     \<or> c = 8232 \<or> c = 8233 \<or> c = 8239 \<or> c = 8287 \<or> c = 12288 \<or> c = 65279"

definition trimStart :: "jsstr \<Rightarrow> jsstr" where
  "trimStart s = dropWhile isWhite s"

definition trimEnd :: "jsstr \<Rightarrow> jsstr" where
  "trimEnd s = rev (dropWhile isWhite (rev s))"

definition trim :: "jsstr \<Rightarrow> jsstr" where
  "trim s = trimEnd (trimStart s)"

section \<open>Code points\<close>

definition highSurrogate :: "jschar \<Rightarrow> bool" where
  "highSurrogate c \<longleftrightarrow> 0xD800 \<le> c \<and> c \<le> 0xDBFF"

definition lowSurrogate :: "jschar \<Rightarrow> bool" where
  "lowSurrogate c \<longleftrightarrow> 0xDC00 \<le> c \<and> c \<le> 0xDFFF"

text \<open>
  \<open>Array.from(s)\<close>: a high surrogate followed by a low one is one element of two units, any
  other unit is an element of its own.
\<close>

fun codePoints :: "jsstr \<Rightarrow> jsstr list" where
  "codePoints [] = []"
| "codePoints [c] = [[c]]"
| "codePoints (c # d # s) =
     (if highSurrogate c \<and> lowSurrogate d then [c, d] # codePoints s
      else [c] # codePoints (d # s))"

lemma concat_codePoints [simp]: "concat (codePoints s) = s"
  by (induction s rule: codePoints.induct) auto

lemma codePoints_nonempty: "p \<in> set (codePoints s) \<Longrightarrow> p \<noteq> []"
  by (induction s rule: codePoints.induct) (auto split: if_splits)

lemma length_codePoints: "length (codePoints s) \<le> length s"
  by (induction s rule: codePoints.induct) auto

definition codePointCount :: "jsstr \<Rightarrow> nat" where
  "codePointCount s = length (codePoints s)"

text \<open>
  The offsets at which the elements of a list of code points start, and the offset after the
  last, counted from \<open>offset\<close>.
\<close>

fun offsetsFrom :: "nat \<Rightarrow> jsstr list \<Rightarrow> nat list" where
  "offsetsFrom offset [] = [offset]"
| "offsetsFrom offset (p # ps) = offset # offsetsFrom (offset + length p) ps"

lemma length_offsetsFrom [simp]: "length (offsetsFrom n ps) = Suc (length ps)"
  by (induction ps arbitrary: n) simp_all

lemma offsetsFrom_nth:
  "i \<le> length ps \<Longrightarrow> offsetsFrom n ps ! i = n + length (concat (take i ps))"
  by (induction ps arbitrary: n i) (auto simp: nth_Cons split: nat.split)

lemma offsetsFrom_hd: "offsetsFrom n ps ! 0 = n"
  by (cases ps) simp_all

lemma offsetsFrom_last: "offsetsFrom n ps ! length ps = n + length (concat ps)"
  by (simp add: offsetsFrom_nth)

lemma offsetsFrom_less:
  assumes "\<And>p. p \<in> set ps \<Longrightarrow> p \<noteq> []" "i < j" "j \<le> length ps"
  shows "offsetsFrom n ps ! i < offsetsFrom n ps ! j"
proof -
  have "take j ps = take i ps @ take (j - i) (drop i ps)"
    using assms(2) by (metis less_imp_le_nat take_add le_add_diff_inverse)
  moreover have "drop i ps = ps ! i # drop (Suc i) ps"
    using assms by (simp add: Cons_nth_drop_Suc)
  moreover have "length (ps ! i) > 0" using assms by simp
  ultimately have "length (concat (take i ps)) < length (concat (take j ps))"
    using assms(2) by (cases "j - i") auto
  then show ?thesis using assms by (simp add: offsetsFrom_nth)
qed

lemma offsetsFrom_mono:
  "i \<le> j \<Longrightarrow> j \<le> length ps \<Longrightarrow> offsetsFrom n ps ! i \<le> offsetsFrom n ps ! j"
proof (induction ps arbitrary: n i j)
  case Nil
  then show ?case by simp
next
  case (Cons p ps)
  have ge: "m \<le> offsetsFrom m ps ! k" if "k \<le> length ps" for m k
    using that by (simp add: offsetsFrom_nth)
  show ?case
    using Cons ge [of "j - 1" "n + length p"] by (cases i; cases j) (auto intro: order_trans)
qed

section \<open>Decimal numerals\<close>

text \<open>\<open>String(n)\<close> of a non-negative integer, and \<open>padStart(width)\<close> with spaces.\<close>

fun decimal :: "nat \<Rightarrow> jsstr" where
  "decimal n = (if n < 10 then [of_nat (48 + n)] else decimal (n div 10) @ [of_nat (48 + n mod 10)])"

declare decimal.simps [simp del]

definition isDigit :: "jschar \<Rightarrow> bool" where
  "isDigit c \<longleftrightarrow> 48 \<le> c \<and> c \<le> 57"

lemma unat_digit: "k < 10 \<Longrightarrow> unat (of_nat (48 + k) :: jschar) = 48 + k"
  by (rule of_nat_inverse [OF refl]) simp

lemma isDigit_of_nat: "k < 10 \<Longrightarrow> isDigit (of_nat (48 + k))"
  using unat_digit [of k] by (simp add: isDigit_def word_le_nat_alt)

lemma decimal_digits: "\<forall>c \<in> set (decimal n). isDigit c"
proof (induction n rule: decimal.induct)
  case (1 n)
  then show ?case
    using isDigit_of_nat [of n] isDigit_of_nat [of "n mod 10"]
    by (subst decimal.simps) (simp del: of_nat_add)
qed

lemma decimal_nonempty [simp]: "decimal n \<noteq> []"
  by (subst decimal.simps) simp

lemma decimal_head: "0 < n \<Longrightarrow> hd (decimal n) \<noteq> 48"
proof (induction n rule: decimal.induct)
  case (1 n)
  show ?case
  proof (cases "n < 10")
    case True
    have "unat (of_nat (48 + n) :: jschar) \<noteq> unat (48 :: jschar)" using unat_digit [OF True] "1.prems" by simp
    then have "(of_nat (48 + n) :: jschar) \<noteq> 48" by metis
    then show ?thesis using True by (subst decimal.simps) (simp del: of_nat_add)
  next
    case False
    with "1.IH" have "hd (decimal (n div 10)) \<noteq> 48" by simp
    then show ?thesis using False by (subst decimal.simps) simp
  qed
qed

text \<open>The value of a numeral, and that \<open>decimal\<close> writes the numeral of a number.\<close>

definition digitsValue :: "jsstr \<Rightarrow> int" where
  "digitsValue ds = foldl (\<lambda>v c. 10 * v + (uint c - 48)) 0 ds"

lemma foldl_digits:
  "foldl (\<lambda>v c. 10 * v + (uint (c :: jschar) - 48)) a ds = a * 10 ^ length ds + digitsValue ds"
proof (induction ds arbitrary: a)
  case Nil
  show ?case by (simp add: digitsValue_def)
next
  case (Cons c ds)
  have "digitsValue (c # ds) = (uint c - 48) * 10 ^ length ds + digitsValue ds"
    using Cons.IH [of "uint c - 48"] by (simp add: digitsValue_def)
  then show ?case using Cons.IH [of "10 * a + (uint c - 48)"] by (simp add: algebra_simps)
qed

lemma digitsValue_simps [simp]:
  "digitsValue [] = 0"
  "digitsValue (c # ds) = (uint c - 48) * 10 ^ length ds + digitsValue ds"
  "digitsValue (as @ bs) = digitsValue as * 10 ^ length bs + digitsValue bs"
proof -
  show "digitsValue [] = 0" by (simp add: digitsValue_def)
  show "digitsValue (c # ds) = (uint c - 48) * 10 ^ length ds + digitsValue ds"
    using foldl_digits [of "uint c - 48" ds] by (simp add: digitsValue_def)
  show "digitsValue (as @ bs) = digitsValue as * 10 ^ length bs + digitsValue bs"
    using foldl_digits [of "digitsValue as" bs] by (simp add: digitsValue_def)
qed

lemma uint_digit: "k < 10 \<Longrightarrow> uint (of_nat (48 + k) :: jschar) = 48 + int k"
  using unat_digit [of k] by (simp only: uint_nat of_nat_add of_nat_numeral)

lemma digitsValue_decimal: "digitsValue (decimal n) = int n"
proof (induction n rule: decimal.induct)
  case (1 n)
  show ?case
  proof (cases "n < 10")
    case True
    then have "decimal n = [of_nat (48 + n)]" by (subst decimal.simps) simp
    then show ?thesis using uint_digit [OF True] by (simp del: of_nat_add)
  next
    case False
    then have "decimal n = decimal (n div 10) @ [of_nat (48 + n mod 10)]" by (subst decimal.simps) simp
    then have "digitsValue (decimal n) = int (n div 10) * 10 + int (n mod 10)"
      using "1.IH" [OF False] uint_digit [of "n mod 10"] by (simp del: of_nat_add)
    then show ?thesis by (simp add: zdiv_int zmod_int)
  qed
qed

lemma digitsValue_replicate_zero [simp]: "digitsValue (replicate k 48) = 0"
  by (induction k) simp_all

lemma digitsValue_nonneg: "list_all isDigit ds \<Longrightarrow> 0 \<le> digitsValue ds"
  by (induction ds) (auto simp: isDigit_def word_le_def)

definition SPACE :: jschar where "SPACE = 32"

definition padStart :: "jsstr \<Rightarrow> nat \<Rightarrow> jsstr" where
  "padStart s width = replicate (width - length s) SPACE @ s"

lemma length_padStart: "length s \<le> width \<Longrightarrow> length (padStart s width) = width"
  by (simp add: padStart_def)

section \<open>Order of strings\<close>

text \<open>The default order of \<open>toSorted()\<close>, by UTF-16 code units.\<close>

fun codeUnitLe :: "jsstr \<Rightarrow> jsstr \<Rightarrow> bool" where
  "codeUnitLe [] t \<longleftrightarrow> True"
| "codeUnitLe (c # s) [] \<longleftrightarrow> False"
| "codeUnitLe (c # s) (d # t) \<longleftrightarrow> c < d \<or> c = d \<and> codeUnitLe s t"

interpretation codeUnits: comparison codeUnitLe
proof
  show "codeUnitLe s t \<or> codeUnitLe t s" for s t
    by (induction s t rule: codeUnitLe.induct) auto
  show "codeUnitLe s t \<Longrightarrow> codeUnitLe t u \<Longrightarrow> codeUnitLe s u" for s t u
  proof (induction s arbitrary: t u)
    case (Cons c s)
    then show ?case by (cases t; cases u) (auto intro: order.strict_trans)
  qed simp
qed

lemma codeUnitLe_antisym: "codeUnitLe s t \<Longrightarrow> codeUnitLe t s \<Longrightarrow> s = t"
  by (induction s t rule: codeUnitLe.induct) (auto elim: codeUnitLe.elims)

text \<open>A literal of the source as a string: its characters are ASCII.\<close>

definition js :: "string \<Rightarrow> jsstr" where
  "js s = map (\<lambda>c. of_nat (of_char c)) s"

end
