(* ===== verification/TextCoordinates.thy ===== *)
theory TextCoordinates
  imports JsText
begin

text \<open>
  \<^verbatim>\<open>plurnk-mimetypes/src/TextCoordinates.ts\<close>: the physical lines of a text, and the translation
  between offsets (UTF-16 code units) and positions (one-based line, one-based column counted in
  code points) that every reading and editing operation goes through. The class caches the
  lines and the column offsets of one content; the model recomputes them, so a static method
  and the instance method it calls are one definition over the content.

  The lemmas show that the lines tile the content, that both binary searches find the line and
  the column, that offsets and positions are inverse to each other and monotone, and that the
  enclosing region of any span exists and encloses it.
\<close>

record TextLine =
  lineStart :: nat
  contentEnd :: nat
  lineEnd :: nat
  separator :: jsstr

datatype TextPosition = TextPosition (posLine: nat) (posColumn: nat)

record TextRegion =
  startLine :: nat
  startColumn :: nat
  endLine :: nat
  endColumn :: nat

section \<open>Lines\<close>

definition mkLine :: "nat \<Rightarrow> nat \<Rightarrow> jsstr \<Rightarrow> TextLine" where
  "mkLine start index sep =
     \<lparr>lineStart = start, contentEnd = index, lineEnd = index + length sep, separator = sep\<rparr>"

text \<open>
  The scan of \<open>/\r\n|\r|\n/g\<close>: \<open>start\<close> is the offset after the last match, \<open>index\<close> the offset of
  the first character not yet looked at.
\<close>

fun scanFrom :: "nat \<Rightarrow> nat \<Rightarrow> jsstr \<Rightarrow> TextLine list" where
  "scanFrom start index [] = [mkLine start index []]"
| "scanFrom start index [c] =
     (if isNewline c then mkLine start index [c] # scanFrom (index + 1) (index + 1) []
      else scanFrom start (index + 1) [])"
| "scanFrom start index (c # d # cs) =
     (if c = CR \<and> d = LF
      then mkLine start index [CR, LF] # scanFrom (index + 2) (index + 2) cs
      else if isNewline c
      then mkLine start index [c] # scanFrom (index + 1) (index + 1) (d # cs)
      else scanFrom start (index + 1) (d # cs))"

definition scanLines :: "jsstr \<Rightarrow> TextLine list" where
  "scanLines content = scanFrom 0 0 content"

definition logicalLines :: "jsstr \<Rightarrow> TextLine list" where
  "logicalLines content =
     (let lines = scanLines content
      in if length content = 0 then []
         else if 1 < length lines \<and> lineStart (last lines) = length content then butlast lines
         else lines)"

definition lineCount :: "jsstr \<Rightarrow> nat" where
  "lineCount content = length (logicalLines content)"

definition lineBody :: "jsstr \<Rightarrow> TextLine \<Rightarrow> jsstr" where
  "lineBody content l = jsSlice content (lineStart l) (contentEnd l)"

section \<open>Offsets of a line's columns\<close>

definition offsetsForLine :: "jsstr \<Rightarrow> TextLine \<Rightarrow> nat list" where
  "offsetsForLine content l = offsetsFrom (lineStart l) (codePoints (lineBody content l))"

section \<open>From a position to an offset\<close>

datatype RangeError =
    LineNotPositive int
  | ColumnNotPositive int int
  | LineOutside int nat
  | ColumnOutside int int nat jsstr

definition LINE_PREVIEW_CODEPOINTS :: nat where
  "LINE_PREVIEW_CODEPOINTS = 96"

definition ELLIPSIS :: jschar where "ELLIPSIS = 0x2026"

definition linePreview :: "jsstr list \<Rightarrow> jsstr" where
  "linePreview ps =
     (if LINE_PREVIEW_CODEPOINTS < length ps
      then concat (take (LINE_PREVIEW_CODEPOINTS - 1) ps) @ [ELLIPSIS]
      else concat ps)"

definition offsetAtPosition :: "jsstr \<Rightarrow> int \<Rightarrow> int \<Rightarrow> RangeError + nat" where
  "offsetAtPosition content lineNumber column =
     (if \<not> safeInt lineNumber \<or> lineNumber < 1 then Inl (LineNotPositive lineNumber)
      else if \<not> safeInt column \<or> column < 1 then Inl (ColumnNotPositive column lineNumber)
      else let lines = scanLines content in
      case atLine lines lineNumber of
        None \<Rightarrow> Inl (LineOutside lineNumber (length lines))
      | Some l \<Rightarrow>
          let offsets = offsetsForLine content l in
          (case atLine offsets column of
             Some offset \<Rightarrow> Inr offset
           | None \<Rightarrow> Inl (ColumnOutside column lineNumber (length offsets)
                            (linePreview (codePoints (lineBody content l))))))"

section \<open>From an offset to a position\<close>

definition lineIndexAtOffset :: "TextLine list \<Rightarrow> nat \<Rightarrow> nat" where
  "lineIndexAtOffset lines offset =
     bisect (\<lambda>middle. lineStart (lines ! middle) \<le> offset) 0 (length lines) - 1"

definition positionAtOffset :: "jsstr \<Rightarrow> int \<Rightarrow> TextPosition option" where
  "positionAtOffset content offset =
     (if \<not> safeInt offset \<or> offset < 0 \<or> int (length content) < offset then None
      else let n = nat offset; lines = scanLines content; index = lineIndexAtOffset lines n;
               l = lines ! index in
        if contentEnd l < n then None
        else let offsets = offsetsForLine content l;
                 low = bisect (\<lambda>middle. offsets ! middle < n) 0 (length offsets) in
          if atIndex offsets low \<noteq> Some n then None
          else Some (TextPosition (index + 1) (low + 1)))"

definition regionOf :: "TextPosition \<Rightarrow> TextPosition \<Rightarrow> TextRegion" where
  "regionOf first final =
     \<lparr>startLine = posLine first, startColumn = posColumn first,
      endLine = posLine final, endColumn = posColumn final\<rparr>"

definition regionFromOffsets :: "jsstr \<Rightarrow> int \<Rightarrow> int \<Rightarrow> TextRegion option" where
  "regionFromOffsets content start end' =
     (if end' < start then None
      else case positionAtOffset content start of
        None \<Rightarrow> None
      | Some first \<Rightarrow>
          (case positionAtOffset content end' of
             None \<Rightarrow> None
           | Some final \<Rightarrow> Some (regionOf first final)))"

text \<open>The scan from the last offset down: the last index whose offset is at most \<open>offset\<close>.\<close>

fun lastAtMost :: "nat list \<Rightarrow> nat \<Rightarrow> nat \<Rightarrow> nat option" where
  "lastAtMost offsets offset 0 = None"
| "lastAtMost offsets offset (Suc i) =
     (if offsets ! i \<le> offset then Some i else lastAtMost offsets offset i)"

definition positionAtOrBeforeOffset :: "jsstr \<Rightarrow> nat \<Rightarrow> TextPosition option" where
  "positionAtOrBeforeOffset content offset =
     (let lines = scanLines content; index = lineIndexAtOffset lines offset in
      case atIndex lines index of
        None \<Rightarrow> None
      | Some l \<Rightarrow>
          let offsets = offsetsForLine content l in
          map_option (\<lambda>i. TextPosition (index + 1) (i + 1))
            (lastAtMost offsets offset (length offsets)))"

fun findIndexFrom :: "('a \<Rightarrow> bool) \<Rightarrow> nat \<Rightarrow> 'a list \<Rightarrow> nat option" where
  "findIndexFrom P i [] = None"
| "findIndexFrom P i (x # xs) = (if P x then Some i else findIndexFrom P (Suc i) xs)"

definition positionAtOrAfterOffset :: "jsstr \<Rightarrow> nat \<Rightarrow> TextPosition option" where
  "positionAtOrAfterOffset content offset =
     (let lines = scanLines content; index = lineIndexAtOffset lines offset in
      case atIndex lines index of
        None \<Rightarrow> None
      | Some l \<Rightarrow>
          (case findIndexFrom (\<lambda>candidate. offset \<le> candidate) 0 (offsetsForLine content l) of
             Some columnIndex \<Rightarrow> Some (TextPosition (index + 1) (columnIndex + 1))
           | None \<Rightarrow>
               (case atIndex lines (index + 1) of
                  None \<Rightarrow> None
                | Some next \<Rightarrow> Some (TextPosition (index + 2) 1))))"

definition enclosingRegionFromOffsets :: "jsstr \<Rightarrow> int \<Rightarrow> int \<Rightarrow> TextRegion option" where
  "enclosingRegionFromOffsets content start end' =
     (if \<not> safeInt start \<or> \<not> safeInt end' \<or> start < 0 \<or> end' < start
         \<or> int (length content) < end' then None
      else case regionFromOffsets content start end' of
        Some exact \<Rightarrow> Some exact
      | None \<Rightarrow>
          (case positionAtOrBeforeOffset content (nat start) of
             None \<Rightarrow> None
           | Some first \<Rightarrow>
               (case positionAtOrAfterOffset content (nat end') of
                  None \<Rightarrow> None
                | Some final \<Rightarrow> Some (regionOf first final))))"

definition lineRegion :: "jsstr \<Rightarrow> int \<Rightarrow> int \<Rightarrow> TextRegion option" where
  "lineRegion content firstLine lastLine =
     (if \<not> safeInt firstLine \<or> \<not> safeInt lastLine \<or> firstLine < 1 \<or> lastLine < firstLine
      then None
      else let lines = scanLines content;
               addressableCount =
                 (if length content = 0 then 1
                  else if lineStart (last lines) = length content then length lines - 1
                  else length lines) in
        if int addressableCount < lastLine then None
        else case (atLine lines firstLine, atLine lines lastLine) of
          (Some first, Some final) \<Rightarrow>
            regionFromOffsets content (int (lineStart first)) (int (contentEnd final))
        | _ \<Rightarrow> None)"


section \<open>The lines tile the content\<close>

definition newlineFree :: "jsstr \<Rightarrow> bool" where
  "newlineFree s \<longleftrightarrow> (\<forall>c \<in> set s. \<not> isNewline c)"

lemma newlineFree_simps [simp]:
  "newlineFree []"
  "newlineFree (c # s) \<longleftrightarrow> \<not> isNewline c \<and> newlineFree s"
  "newlineFree (s @ t) \<longleftrightarrow> newlineFree s \<and> newlineFree t"
  by (auto simp: newlineFree_def)

text \<open>
  A list of lines tiles the content from an offset on: each line starts where the one before it
  ended, its body holds no terminator, its separator is the terminator that follows the body,
  and only the last line has none.
\<close>

fun tiles :: "jsstr \<Rightarrow> nat \<Rightarrow> TextLine list \<Rightarrow> bool" where
  "tiles content a [] \<longleftrightarrow> False"
| "tiles content a [l] \<longleftrightarrow>
     lineStart l = a \<and> a \<le> contentEnd l \<and> contentEnd l = length content
     \<and> lineEnd l = length content \<and> separator l = [] \<and> newlineFree (lineBody content l)"
| "tiles content a (l # m # ls) \<longleftrightarrow>
     lineStart l = a \<and> a \<le> contentEnd l \<and> lineEnd l \<le> length content
     \<and> lineEnd l = contentEnd l + length (separator l)
     \<and> separator l \<in> {[CR, LF], [CR], [LF]}
     \<and> jsSlice content (contentEnd l) (lineEnd l) = separator l
     \<and> newlineFree (lineBody content l) \<and> tiles content (lineEnd l) (m # ls)"

lemma scanFrom_nonempty [simp]: "scanFrom start index cs \<noteq> []"
  by (induction start index cs rule: scanFrom.induct) (auto simp: Let_def)

lemma tiles_Cons:
  assumes "ls \<noteq> []" "lineStart l = a" "a \<le> contentEnd l" "lineEnd l \<le> length content"
    "lineEnd l = contentEnd l + length (separator l)" "separator l \<in> {[CR, LF], [CR], [LF]}"
    "jsSlice content (contentEnd l) (lineEnd l) = separator l" "newlineFree (lineBody content l)"
    "tiles content (lineEnd l) ls"
  shows "tiles content a (l # ls)"
  using assms by (cases ls) auto

lemma slice_between: "jsSlice (p @ m @ t) (length p) (length p + length m) = m"
  by (simp add: jsSlice_def)

lemma scan_body:
  assumes "start \<le> length pre" "newlineFree (drop start pre)" "content = pre @ rest"
  shows "newlineFree (lineBody content (mkLine start (length pre) sep))"
  using assms by (simp add: lineBody_def mkLine_def jsSlice_def)

lemma scanFrom_tiles:
  assumes "content = pre @ rest" "start \<le> length pre" "newlineFree (drop start pre)"
  shows "tiles content start (scanFrom start (length pre) rest)"
  using assms
proof (induction start "length pre" rest arbitrary: pre rule: scanFrom.induct)
  case (1 start)
  then show ?case by (auto simp: mkLine_def lineBody_def jsSlice_def)
next
  case (2 start c)
  show ?case
  proof (cases "isNewline c")
    case True
    have "tiles content (length (pre @ [c]))
            (scanFrom (length (pre @ [c])) (length (pre @ [c])) [])"
      using "2.hyps"(1) [of "pre @ [c]"] True 2(3) by simp
    with True 2(3-) show ?thesis
      using scan_body [OF 2(4) 2(5) 2(3), of "[c]"]
      by (auto simp: mkLine_def isNewline_def jsSlice_def lineBody_def)
  next
    case False
    then show ?thesis using "2.hyps"(2) [of "pre @ [c]"] 2(3-) by simp
  qed
next
  case (3 start c d cs)
  show ?case
  proof (cases "c = CR \<and> d = LF")
    case True
    have "tiles content (length (pre @ [c, d]))
            (scanFrom (length (pre @ [c, d])) (length (pre @ [c, d])) cs)"
      using "3.hyps"(1) [of "pre @ [c, d]"] True 3(4) by simp
    with True show ?thesis
      using scan_body [OF 3(5) 3(6) 3(4), of "[CR, LF]"] 3(4,5)
      by (auto intro!: tiles_Cons simp: mkLine_def jsSlice_def)
  next
    case notCRLF: False
    show ?thesis
    proof (cases "isNewline c")
      case True
      have "tiles content (length (pre @ [c]))
              (scanFrom (length (pre @ [c])) (length (pre @ [c])) (d # cs))"
        using "3.hyps"(2) [of "pre @ [c]"] notCRLF True 3(4) by simp
      with True notCRLF show ?thesis
        using scan_body [OF 3(5) 3(6) 3(4), of "[c]"] 3(4,5)
        by (auto intro!: tiles_Cons simp: mkLine_def jsSlice_def isNewline_def)
    next
      case False
      then show ?thesis using "3.hyps"(3) [of "pre @ [c]"] 3(4-) notCRLF by auto
    qed
  qed
qed

lemma scanLines_tiles: "tiles content 0 (scanLines content)"
  using scanFrom_tiles [of content "[]" content 0] by (simp add: scanLines_def)

lemma scanLines_nonempty [simp]: "scanLines content \<noteq> []"
  by (simp add: scanLines_def)

lemma length_scanLines_pos [simp]: "0 < length (scanLines content)"
  by simp

section \<open>What tiling gives by index\<close>

lemma tiles_head: "tiles content a ls \<Longrightarrow> lineStart (ls ! 0) = a \<and> ls \<noteq> []"
  by (induction content a ls rule: tiles.induct) auto

lemma tiles_bounds:
  "tiles content a ls \<Longrightarrow> i < length ls \<Longrightarrow>
     a \<le> lineStart (ls ! i) \<and> lineStart (ls ! i) \<le> contentEnd (ls ! i)
     \<and> contentEnd (ls ! i) \<le> lineEnd (ls ! i) \<and> lineEnd (ls ! i) \<le> length content
     \<and> lineEnd (ls ! i) = contentEnd (ls ! i) + length (separator (ls ! i))
     \<and> newlineFree (lineBody content (ls ! i))
     \<and> jsSlice content (contentEnd (ls ! i)) (lineEnd (ls ! i)) = separator (ls ! i)"
proof (induction content a ls arbitrary: i rule: tiles.induct)
  case (3 content a l m ls)
  then show ?case by (cases i) force+
qed (auto simp: nth_Cons')

lemma tiles_step:
  "tiles content a ls \<Longrightarrow> Suc i < length ls \<Longrightarrow>
     lineEnd (ls ! i) = lineStart (ls ! Suc i) \<and> contentEnd (ls ! i) < lineEnd (ls ! i)
     \<and> separator (ls ! i) \<in> {[CR, LF], [CR], [LF]}"
proof (induction content a ls arbitrary: i rule: tiles.induct)
  case (3 content a l m ls)
  show ?case
  proof (cases i)
    case 0
    then show ?thesis using 3(2,3) tiles_head [of content "lineEnd l" "m # ls"] by auto
  next
    case (Suc j)
    from 3 Suc have "tiles content (lineEnd l) (m # ls)" "Suc j < length (m # ls)" by auto
    from 3(1) [OF this] show ?thesis by (simp add: Suc)
  qed
qed auto

lemma tiles_last:
  "tiles content a ls \<Longrightarrow> lineEnd (last ls) = length content \<and> contentEnd (last ls) = length content
     \<and> separator (last ls) = []"
  by (induction content a ls rule: tiles.induct) auto

lemma tiles_after:
  assumes "tiles content a ls" "i < j" "j < length ls"
  shows "lineEnd (ls ! i) \<le> lineStart (ls ! j)"
  using assms(2,3)
proof (induction j)
  case (Suc j)
  have step: "lineEnd (ls ! j) = lineStart (ls ! Suc j)" using tiles_step [OF assms(1), of j] Suc by simp
  have "lineStart (ls ! j) \<le> lineEnd (ls ! j)" using tiles_bounds [OF assms(1), of j] Suc by simp
  then show ?case using Suc step by (cases "i = j") auto
qed simp

lemmas line_facts =
  tiles_bounds [OF scanLines_tiles] tiles_step [OF scanLines_tiles]
  tiles_last [OF scanLines_tiles] tiles_after [OF scanLines_tiles]

lemma line_bounds:
  assumes "i < length (scanLines content)" "l = scanLines content ! i"
  shows "lineStart l \<le> contentEnd l" "contentEnd l \<le> lineEnd l" "lineEnd l \<le> length content"
    "newlineFree (lineBody content l)" "lineEnd l = contentEnd l + length (separator l)"
    "jsSlice content (contentEnd l) (lineEnd l) = separator l"
  using tiles_bounds [OF scanLines_tiles assms(1)] assms(2) by auto

lemma line_start_zero: "lineStart (scanLines content ! 0) = 0"
  using tiles_head [OF scanLines_tiles] by simp

lemma scanLines_strict:
  assumes "i < j" "j < length (scanLines content)"
  shows "contentEnd (scanLines content ! i) < lineStart (scanLines content ! j)"
proof -
  have "contentEnd (scanLines content ! i) < lineEnd (scanLines content ! i)"
    using tiles_step [OF scanLines_tiles [of content], of i] assms by simp
  also have "\<dots> \<le> lineStart (scanLines content ! j)"
    by (rule tiles_after [OF scanLines_tiles assms])
  finally show ?thesis .
qed

lemma tiles_concat:
  "tiles content a ls \<Longrightarrow> concat (map (\<lambda>l. jsSlice content (lineStart l) (lineEnd l)) ls) = drop a content"
proof (induction content a ls rule: tiles.induct)
  case (3 content a l m ls)
  have "jsSlice content a (lineEnd l) @ drop (lineEnd l) content = drop a content"
  proof -
    have "a \<le> lineEnd l" "lineEnd l \<le> length content" using 3(2) by auto
    then show ?thesis
      using slice_append_slice [of a "lineEnd l" "length content" content]
      by (simp add: slice_to_end)
  qed
  then show ?case using 3 by auto
qed (auto simp: slice_to_end)


lemma line_text:
  assumes "l \<in> set (scanLines content)"
  shows "lineBody content l @ separator l = jsSlice content (lineStart l) (lineEnd l)"
proof -
  from assms obtain i where i: "i < length (scanLines content)" "l = scanLines content ! i"
    by (auto simp: in_set_conv_nth)
  note b = line_bounds [OF i]
  show ?thesis
    unfolding b(6) [symmetric] lineBody_def by (rule slice_append_slice) (use b in auto)
qed

lemma scanLines_concat:
  "concat (map (\<lambda>l. lineBody content l @ separator l) (scanLines content)) = content"
proof -
  have "map (\<lambda>l. lineBody content l @ separator l) (scanLines content)
      = map (\<lambda>l. jsSlice content (lineStart l) (lineEnd l)) (scanLines content)"
    by (simp add: line_text)
  then show ?thesis using tiles_concat [OF scanLines_tiles [of content]] by (simp only: drop_0)
qed

section \<open>The searches find the line and the column\<close>

lemma lineIndexAtOffset_eq:
  assumes i: "i < length (scanLines content)" and lo: "lineStart (scanLines content ! i) \<le> offset"
    and hi: "\<And>j. i < j \<Longrightarrow> j < length (scanLines content) \<Longrightarrow> offset < lineStart (scanLines content ! j)"
  shows "lineIndexAtOffset (scanLines content) offset = i"
proof -
  let ?ls = "scanLines content"
  have "bisect (\<lambda>m. lineStart (?ls ! m) \<le> offset) 0 (length ?ls) = Suc i"
  proof (rule bisect_eq)
    fix j assume j: "j < Suc i"
    show "lineStart (?ls ! j) \<le> offset"
    proof (cases "j = i")
      case False
      then have "j < i" using j by simp
      then show ?thesis
        using scanLines_strict [of j i content] line_bounds(1) [of j content] i lo by force
    qed (use lo in simp)
  next
    fix j assume "Suc i \<le> j" "j < length ?ls"
    then show "\<not> lineStart (?ls ! j) \<le> offset" using hi [of j] by simp
  qed (use i in auto)
  then show ?thesis by (simp add: lineIndexAtOffset_def)
qed

text \<open>Every offset has a line: the last that starts at or before it.\<close>

lemma line_of_offset:
  obtains i where "i < length (scanLines content)" "lineStart (scanLines content ! i) \<le> offset"
    "\<And>j. i < j \<Longrightarrow> j < length (scanLines content) \<Longrightarrow> offset < lineStart (scanLines content ! j)"
    "lineIndexAtOffset (scanLines content) offset = i"
proof -
  let ?ls = "scanLines content"
  let ?S = "{i. i < length ?ls \<and> lineStart (?ls ! i) \<le> offset}"
  have fin: "finite ?S" by simp
  have "0 \<in> ?S" by (simp add: line_start_zero)
  then have max: "Max ?S \<in> ?S" using Max_in [OF fin] by blast
  have above: "offset < lineStart (?ls ! j)" if "Max ?S < j" "j < length ?ls" for j
  proof (rule ccontr)
    assume "\<not> offset < lineStart (?ls ! j)"
    then have "j \<in> ?S" using that by simp
    then have "j \<le> Max ?S" by (rule Max_ge [OF fin])
    with that show False by simp
  qed
  show thesis
  proof (rule that)
    show "Max ?S < length ?ls" "lineStart (?ls ! Max ?S) \<le> offset" using max by auto
    then show "lineIndexAtOffset ?ls offset = Max ?S"
      by (rule lineIndexAtOffset_eq) (rule above)
  qed (rule above)
qed

lemma offsetsForLine_nth_bounds:
  assumes "i < length (scanLines content)" "l = scanLines content ! i"
    "k < length (offsetsForLine content l)"
  shows "lineStart l \<le> offsetsForLine content l ! k" "offsetsForLine content l ! k \<le> contentEnd l"
proof -
  let ?ps = "codePoints (lineBody content l)"
  have len: "length (lineBody content l) = contentEnd l - lineStart l"
    using line_bounds [OF assms(1,2)] by (simp add: lineBody_def length_slice)
  have k: "k \<le> length ?ps" using assms(3) by (simp add: offsetsForLine_def)
  then show "lineStart l \<le> offsetsForLine content l ! k"
    by (simp add: offsetsForLine_def offsetsFrom_nth)
  have "offsetsForLine content l ! k \<le> offsetsFrom (lineStart l) ?ps ! length ?ps"
    using offsetsFrom_mono [OF k] by (simp add: offsetsForLine_def)
  also have "\<dots> = contentEnd l"
    using len line_bounds(1) [OF assms(1,2)] by (simp add: offsetsFrom_last)
  finally show "offsetsForLine content l ! k \<le> contentEnd l" .
qed

lemma offsetsForLine_strict:
  "j < k \<Longrightarrow> k < length (offsetsForLine content l) \<Longrightarrow>
     offsetsForLine content l ! j < offsetsForLine content l ! k"
  using offsetsFrom_less [of "codePoints (lineBody content l)" j k "lineStart l"]
  by (auto simp: offsetsForLine_def dest: codePoints_nonempty)

lemma column_search:
  assumes "k < length (offsetsForLine content l)"
  shows "bisect (\<lambda>m. offsetsForLine content l ! m < offsetsForLine content l ! k) 0
           (length (offsetsForLine content l)) = k"
proof (rule bisect_eq)
  fix j assume "k \<le> j" "j < length (offsetsForLine content l)"
  then show "\<not> offsetsForLine content l ! j < offsetsForLine content l ! k"
    using offsetsForLine_strict [of k j content l] by (cases "j = k") auto
qed (use assms offsetsForLine_strict in auto)

text \<open>The line that holds an offset between its start and its content end.\<close>

lemma lineIndex_within:
  assumes "i < length (scanLines content)" "lineStart (scanLines content ! i) \<le> offset"
    "offset \<le> contentEnd (scanLines content ! i)"
  shows "lineIndexAtOffset (scanLines content) offset = i"
proof (rule lineIndexAtOffset_eq [OF assms(1,2)])
  fix j assume "i < j" "j < length (scanLines content)"
  then show "offset < lineStart (scanLines content ! j)"
    using scanLines_strict [of i j content] assms(3) by simp
qed

section \<open>Positions and offsets are inverse\<close>

text \<open>Every string the engine can hold is far shorter than the largest safe integer.\<close>

definition fits :: "jsstr \<Rightarrow> bool" where
  "fits content \<longleftrightarrow> int (length content) < MAX_SAFE_INTEGER"

lemma offsetAtPosition_InrE:
  assumes "offsetAtPosition content lineNumber column = Inr offset"
  obtains i k where "lineNumber = int i + 1" "column = int k + 1"
    "i < length (scanLines content)"
    "k < length (offsetsForLine content (scanLines content ! i))"
    "offset = offsetsForLine content (scanLines content ! i) ! k"
    "safeInt lineNumber" "safeInt column"
proof -
  from assms have pos: "1 \<le> lineNumber" "1 \<le> column" "safeInt lineNumber" "safeInt column"
    by (auto simp: offsetAtPosition_def split: if_splits)
  from assms pos obtain l where l: "atLine (scanLines content) lineNumber = Some l"
    and off: "atLine (offsetsForLine content l) column = Some offset"
    by (auto simp: offsetAtPosition_def Let_def split: option.splits if_splits)
  show thesis
    using that [of "nat (lineNumber - 1)" "nat (column - 1)"] l off pos
    by (auto simp: atLine_Some_iff)
qed

lemma offsetAtPosition_Inr:
  assumes "safeInt (int i + 1)" "safeInt (int k + 1)" "i < length (scanLines content)"
    "k < length (offsetsForLine content (scanLines content ! i))"
  shows "offsetAtPosition content (int i + 1) (int k + 1)
           = Inr (offsetsForLine content (scanLines content ! i) ! k)"
  using assms by (auto simp: offsetAtPosition_def Let_def atLine_def atIndex_def)

lemma positionAtOffset_SomeE:
  assumes "positionAtOffset content offset = Some p"
  obtains i k where "p = TextPosition (i + 1) (k + 1)" "0 \<le> offset"
    "offset \<le> int (length content)"
    "i < length (scanLines content)" "lineIndexAtOffset (scanLines content) (nat offset) = i"
    "k < length (offsetsForLine content (scanLines content ! i))"
    "offsetsForLine content (scanLines content ! i) ! k = nat offset"
    "nat offset \<le> contentEnd (scanLines content ! i)"
proof -
  let ?i = "lineIndexAtOffset (scanLines content) (nat offset)"
  have "?i < length (scanLines content)"
    by (rule line_of_offset [of content "nat offset"]) simp
  with assms that [of ?i] show thesis
    by (auto simp: positionAtOffset_def Let_def atIndex_def split: if_splits)
qed

lemma positionAtOffset_at_column:
  assumes "i < length (scanLines content)" "safeInt (int o')" "o' \<le> length content"
    "k < length (offsetsForLine content (scanLines content ! i))"
    "o' = offsetsForLine content (scanLines content ! i) ! k"
  shows "positionAtOffset content (int o') = Some (TextPosition (i + 1) (k + 1))"
proof -
  note b = offsetsForLine_nth_bounds [OF assms(1) refl assms(4)]
  have idx: "lineIndexAtOffset (scanLines content) o' = i"
    using lineIndex_within [OF assms(1), of o'] b assms(5) by simp
  show ?thesis
    using assms b idx column_search [OF assms(4)]
    by (simp add: positionAtOffset_def Let_def atIndex_def)
qed

lemma fits_safe: "fits content \<Longrightarrow> n \<le> length content + 1 \<Longrightarrow> safeInt (int n)"
  by (auto simp: fits_def safeInt_def MAX_SAFE_INTEGER_def)

lemma tiles_length: "tiles content a ls \<Longrightarrow> length ls + a \<le> length content + 1"
proof (induction content a ls rule: tiles.induct)
  case (3 content a l m ls)
  then have "length (separator l) \<ge> 1" by auto
  with 3 show ?case by auto
qed auto

lemma length_scanLines: "length (scanLines content) \<le> length content + 1"
  using tiles_length [OF scanLines_tiles [of content]] by simp

lemma length_offsetsForLine:
  "i < length (scanLines content) \<Longrightarrow>
     length (offsetsForLine content (scanLines content ! i)) \<le> length content + 1"
  using length_codePoints [of "lineBody content (scanLines content ! i)"]
    line_bounds [of i content]
  by (simp add: offsetsForLine_def lineBody_def length_slice)

lemma position_of_offset_of_position:
  assumes "fits content" "offsetAtPosition content lineNumber column = Inr offset"
  shows "positionAtOffset content (int offset)
           = Some (TextPosition (nat lineNumber) (nat column))"
proof -
  from assms(2) obtain i k where ik: "lineNumber = int i + 1" "column = int k + 1"
    "i < length (scanLines content)"
    "k < length (offsetsForLine content (scanLines content ! i))"
    "offset = offsetsForLine content (scanLines content ! i) ! k"
    by (rule offsetAtPosition_InrE)
  have "offset \<le> length content"
    using offsetsForLine_nth_bounds(2) [OF ik(3) refl ik(4)] line_bounds [OF ik(3) refl] ik(5)
    by simp
  then show ?thesis
    using positionAtOffset_at_column [OF ik(3) _ _ ik(4,5)] fits_safe [OF assms(1)] ik(1,2)
    by (simp add: nat_add_distrib)
qed

lemma offset_of_position_of_offset:
  assumes "fits content" "positionAtOffset content offset = Some p"
  shows "offsetAtPosition content (int (posLine p)) (int (posColumn p)) = Inr (nat offset)"
proof -
  from assms(2) obtain i k where p: "p = TextPosition (i + 1) (k + 1)"
    and ik: "i < length (scanLines content)"
    "k < length (offsetsForLine content (scanLines content ! i))"
    "offsetsForLine content (scanLines content ! i) ! k = nat offset"
    by (rule positionAtOffset_SomeE)
  have "i + 1 \<le> length content + 1" "k + 1 \<le> length content + 1"
    using length_scanLines [of content] length_offsetsForLine [OF ik(1)] ik by simp_all
  then have "safeInt (int (i + 1))" "safeInt (int (k + 1))"
    by (blast intro: fits_safe [OF assms(1)])+
  then show ?thesis
    using offsetAtPosition_Inr [of i k content] ik p by (simp add: add.commute)
qed


section \<open>Positions in reading order\<close>

text \<open>Positions are ordered by line, then by column.\<close>

instantiation TextPosition :: linorder
begin

definition less_eq_TextPosition :: "TextPosition \<Rightarrow> TextPosition \<Rightarrow> bool" where
  "p \<le> q \<longleftrightarrow> posLine p < posLine q \<or> posLine p = posLine q \<and> posColumn p \<le> posColumn q"

definition less_TextPosition :: "TextPosition \<Rightarrow> TextPosition \<Rightarrow> bool" where
  "p < q \<longleftrightarrow> posLine p < posLine q \<or> posLine p = posLine q \<and> posColumn p < posColumn q"

instance
  by standard
    (auto simp: less_eq_TextPosition_def less_TextPosition_def intro: TextPosition.expand)

end

lemma positionAtOffset_strict_mono:
  assumes "positionAtOffset content a = Some p" "positionAtOffset content b = Some q" "a < b"
  shows "p < q"
proof -
  let ?ls = "scanLines content"
  from assms(1) obtain i k where p: "p = TextPosition (i + 1) (k + 1)" "0 \<le> a"
    "i < length ?ls" "k < length (offsetsForLine content (?ls ! i))"
    "offsetsForLine content (?ls ! i) ! k = nat a" by (rule positionAtOffset_SomeE)
  from assms(2) obtain j m where q: "q = TextPosition (j + 1) (m + 1)" "0 \<le> b"
    "j < length ?ls" "m < length (offsetsForLine content (?ls ! j))"
    "offsetsForLine content (?ls ! j) ! m = nat b" by (rule positionAtOffset_SomeE)
  have ab: "nat a < nat b" using assms(3) p(2) by simp
  note pb = offsetsForLine_nth_bounds [OF p(3) refl p(4), unfolded p(5)]
  note qb = offsetsForLine_nth_bounds [OF q(3) refl q(4), unfolded q(5)]
  have "\<not> j < i" using scanLines_strict [of j i content] p(3) pb qb ab by auto
  moreover have "k < m" if "i = j"
  proof (rule ccontr)
    assume "\<not> k < m"
    then have "nat b \<le> nat a"
      using offsetsForLine_strict [of m k content "?ls ! i"] p q that by (cases "m = k") auto
    with ab show False by linarith
  qed
  ultimately show ?thesis by (auto simp: p q less_TextPosition_def)
qed

section \<open>Enclosing regions\<close>

lemma lastAtMost_Some:
  "lastAtMost offsets offset n = Some i \<Longrightarrow> n \<le> length offsets \<Longrightarrow> i < n \<and> offsets ! i \<le> offset"
  by (induction offsets offset n rule: lastAtMost.induct) (auto split: if_splits)

lemma lastAtMost_None:
  "lastAtMost offsets offset n = None \<longleftrightarrow> (\<forall>i < n. offset < offsets ! i)"
  by (induction offsets offset n rule: lastAtMost.induct) (auto simp: less_Suc_eq)

lemma findIndexFrom_Some:
  "findIndexFrom P i xs = Some j \<Longrightarrow> i \<le> j \<and> j - i < length xs \<and> P (xs ! (j - i))"
proof (induction P i xs rule: findIndexFrom.induct)
  case (2 P i x xs)
  show ?case
  proof (cases "P x")
    case False
    then have "Suc i \<le> j \<and> j - Suc i < length xs \<and> P (xs ! (j - Suc i))" using 2 by simp
    moreover from this have "j - i = Suc (j - Suc i)" by (simp add: Suc_diff_Suc)
    ultimately show ?thesis by simp
  qed (use 2(2) in auto)
qed simp

lemma findIndexFrom_None: "findIndexFrom P i xs = None \<longleftrightarrow> (\<forall>x \<in> set xs. \<not> P x)"
  by (induction P i xs rule: findIndexFrom.induct) auto

text \<open>The offset a position names, for one that the searches return.\<close>

definition offsetOf :: "jsstr \<Rightarrow> TextPosition \<Rightarrow> nat option" where
  "offsetOf content p =
     (case offsetAtPosition content (int (posLine p)) (int (posColumn p)) of
        Inl e \<Rightarrow> None | Inr offset \<Rightarrow> Some offset)"

lemma offsetOf_column:
  assumes "fits content" "i < length (scanLines content)"
    "k < length (offsetsForLine content (scanLines content ! i))"
  shows "offsetOf content (TextPosition (i + 1) (k + 1))
           = Some (offsetsForLine content (scanLines content ! i) ! k)"
proof -
  have "i + 1 \<le> length content + 1" "k + 1 \<le> length content + 1"
    using length_scanLines [of content] length_offsetsForLine [OF assms(2)] assms by simp_all
  then have "safeInt (int (i + 1))" "safeInt (int (k + 1))"
    by (blast intro: fits_safe [OF assms(1)])+
  then show ?thesis
    using offsetAtPosition_Inr [of i k content] assms by (simp add: offsetOf_def add.commute)
qed

lemma positionAtOrBeforeOffset_sound:
  assumes "fits content"
  obtains p o' where "positionAtOrBeforeOffset content offset = Some p"
    "offsetOf content p = Some o'" "o' \<le> offset"
proof -
  let ?ls = "scanLines content"
  obtain i where i: "i < length ?ls" "lineStart (?ls ! i) \<le> offset"
    "lineIndexAtOffset ?ls offset = i" by (rule line_of_offset [of content offset]) simp
  let ?os = "offsetsForLine content (?ls ! i)"
  have "?os ! 0 \<le> offset" "0 < length ?os"
    using i(2) by (simp_all add: offsetsForLine_def offsetsFrom_hd)
  then obtain k where k: "lastAtMost ?os offset (length ?os) = Some k"
    using lastAtMost_None [of ?os offset "length ?os"] by (cases "lastAtMost ?os offset (length ?os)") force+
  then have "k < length ?os" "?os ! k \<le> offset" using lastAtMost_Some by blast+
  then show thesis
    using that [of "TextPosition (i + 1) (k + 1)" "?os ! k"] k i offsetOf_column [OF assms i(1)]
    by (simp add: positionAtOrBeforeOffset_def Let_def atIndex_def)
qed

lemma positionAtOrAfterOffset_sound:
  assumes "fits content" "offset \<le> length content"
  obtains p o' where "positionAtOrAfterOffset content offset = Some p"
    "offsetOf content p = Some o'" "offset \<le> o'"
proof -
  let ?ls = "scanLines content"
  obtain i where i: "i < length ?ls" "lineIndexAtOffset ?ls offset = i"
    and above: "\<And>j. i < j \<Longrightarrow> j < length ?ls \<Longrightarrow> offset < lineStart (?ls ! j)"
    by (rule line_of_offset [of content offset]) simp
  let ?os = "offsetsForLine content (?ls ! i)"
  show thesis
  proof (cases "findIndexFrom (\<lambda>c. offset \<le> c) 0 ?os")
    case (Some k)
    then have "k < length ?os" "offset \<le> ?os ! k" using findIndexFrom_Some [OF Some] by simp_all
    then show thesis
      using that [of "TextPosition (i + 1) (k + 1)" "?os ! k"] Some i offsetOf_column [OF assms(1) i(1)]
      by (simp add: positionAtOrAfterOffset_def Let_def atIndex_def)
  next
    case None
    have len: "length ?os = Suc (length (codePoints (lineBody content (?ls ! i))))"
      by (simp add: offsetsForLine_def)
    have "?os ! (length ?os - 1) = contentEnd (?ls ! i)"
      using line_bounds [OF i(1) refl]
      by (simp add: offsetsForLine_def offsetsFrom_last lineBody_def length_slice)
    moreover have "?os ! (length ?os - 1) \<in> set ?os" using len by simp
    ultimately have "contentEnd (?ls ! i) < offset" using None by (auto simp: findIndexFrom_None)
    then have "?ls ! i \<noteq> last ?ls" using tiles_last [OF scanLines_tiles [of content]] assms(2) by auto
    then have next': "Suc i < length ?ls"
      using i(1) by (metis Suc_lessI last_conv_nth diff_Suc_1 scanLines_nonempty)
    have "0 < length (offsetsForLine content (?ls ! Suc i))" by (simp add: offsetsForLine_def)
    then have "offsetOf content (TextPosition (Suc i + 1) (0 + 1))
        = Some (offsetsForLine content (?ls ! Suc i) ! 0)"
      by (rule offsetOf_column [OF assms(1) next'])
    moreover have "offsetsForLine content (?ls ! Suc i) ! 0 = lineStart (?ls ! Suc i)"
      by (simp add: offsetsForLine_def offsetsFrom_hd)
    ultimately show thesis
      using that [of "TextPosition (i + 2) 1"] None i next' above [of "Suc i"]
      by (simp add: positionAtOrAfterOffset_def Let_def atIndex_def)
  qed
qed

lemma offsetOf_positionAtOffset:
  "fits content \<Longrightarrow> positionAtOffset content offset = Some p \<Longrightarrow> offsetOf content p = Some (nat offset)"
  using offset_of_position_of_offset by (simp add: offsetOf_def)


section \<open>Properties\<close>

text \<open>C1. An offset and a position name the same place in both directions: looking up a line and a
  column gives an offset exactly when that offset's position is that line and column, over every
  mix of terminators and of one- and two-unit code points. Both binary searches are in it.\<close>

theorem offset_position_inverse:
  assumes "fits content"
  shows "offsetAtPosition content lineNumber column = Inr offset \<longleftrightarrow>
     1 \<le> lineNumber \<and> 1 \<le> column
     \<and> positionAtOffset content (int offset) = Some (TextPosition (nat lineNumber) (nat column))"
proof
  assume l: "offsetAtPosition content lineNumber column = Inr offset"
  then show "1 \<le> lineNumber \<and> 1 \<le> column
     \<and> positionAtOffset content (int offset) = Some (TextPosition (nat lineNumber) (nat column))"
    using position_of_offset_of_position [OF assms l] by (auto elim: offsetAtPosition_InrE)
next
  assume r: "1 \<le> lineNumber \<and> 1 \<le> column
     \<and> positionAtOffset content (int offset) = Some (TextPosition (nat lineNumber) (nat column))"
  then show "offsetAtPosition content lineNumber column = Inr offset"
    using offset_of_position_of_offset [OF assms, of "int offset"] by simp
qed

text \<open>\<open>a\<close>, a surrogate pair, CR LF, \<open>b\<close>: column 3 of line 1 is offset 3, past the pair.\<close>

theorem offset_position_inverse_witness:
  "offsetAtPosition [97, 0xD83D, 0xDE00, 13, 10, 98] 1 3 = Inr 3
   \<and> positionAtOffset [97, 0xD83D, 0xDE00, 13, 10, 98] 3 = Some (TextPosition 1 3)"
proof -
  let ?c = "[97, 0xD83D, 0xDE00, 13, 10, 98] :: jsstr"
  have fits: "fits ?c" by (simp add: fits_def MAX_SAFE_INTEGER_def)
  have "offsetAtPosition ?c 1 3 = Inr 3" by code_simp
  with offset_position_inverse [OF fits, of 1 3 3] show ?thesis by simp
qed

text \<open>The scanned lines tile the content: bodies and separators put back together are the
  content, no body holds a terminator, every line but the last ends in CR LF, CR or LF, and the
  last has no separator.\<close>

lemma scanLines_partition:
  "concat (map (\<lambda>l. lineBody content l @ separator l) (scanLines content)) = content
   \<and> (\<forall>i < length (scanLines content). newlineFree (lineBody content (scanLines content ! i)))
   \<and> (\<forall>i. Suc i < length (scanLines content) \<longrightarrow>
        separator (scanLines content ! i) \<in> {[CR, LF], [CR], [LF]})
   \<and> separator (last (scanLines content)) = []"
  using scanLines_concat [of content] line_bounds(4) [of _ content]
    tiles_step [OF scanLines_tiles [of content]] tiles_last [OF scanLines_tiles [of content]]
  by blast

text \<open>Two lines, one ended by CR LF; the statement's implications hold of it.\<close>

lemma scanLines_partition_witness:
  "length (scanLines [97, 13, 10, 98]) = 2
   \<and> separator (scanLines [97, 13, 10, 98] ! 0) \<in> {[CR, LF], [CR], [LF]}
   \<and> newlineFree (lineBody [97, 13, 10, 98] (scanLines [97, 13, 10, 98] ! 0))"
proof -
  let ?c = "[97, 13, 10, 98] :: jsstr"
  have len: "length (scanLines ?c) = 2" by code_simp
  then show ?thesis using scanLines_partition [of ?c] by simp
qed

text \<open>Every span of a text has an enclosing region, even one whose ends fall inside a
  surrogate pair or a CR LF, and the offsets its two positions name bracket the span.\<close>

lemma enclosingRegion_encloses:
  assumes "fits content" "a \<le> b" "b \<le> length content"
  shows "\<exists>r p q. enclosingRegionFromOffsets content (int a) (int b) = Some r \<and> r = regionOf p q
     \<and> (\<exists>x y. offsetOf content p = Some x \<and> offsetOf content q = Some y \<and> x \<le> a \<and> b \<le> y)"
proof -
  have safe: "safeInt (int a)" "safeInt (int b)" using assms by (auto intro: fits_safe)
  show ?thesis
  proof (cases "regionFromOffsets content (int a) (int b)")
    case (Some r)
    then obtain p q where pq: "positionAtOffset content (int a) = Some p"
      "positionAtOffset content (int b) = Some q" "r = regionOf p q"
      by (auto simp: regionFromOffsets_def split: if_splits option.splits)
    then have "enclosingRegionFromOffsets content (int a) (int b) = Some r"
      using Some safe assms by (simp add: enclosingRegionFromOffsets_def)
    then show ?thesis using offsetOf_positionAtOffset [OF assms(1)] pq by fastforce
  next
    case None
    obtain p x where p: "positionAtOrBeforeOffset content a = Some p"
      "offsetOf content p = Some x" "x \<le> a" by (rule positionAtOrBeforeOffset_sound [OF assms(1)])
    obtain q y where q: "positionAtOrAfterOffset content b = Some q"
      "offsetOf content q = Some y" "b \<le> y" by (rule positionAtOrAfterOffset_sound [OF assms(1,3)])
    show ?thesis using None p q safe assms by (auto simp: enclosingRegionFromOffsets_def)
  qed
qed

text \<open>A span that cuts a surrogate pair: the region takes the whole pair.\<close>

lemma enclosingRegion_encloses_witness:
  "\<exists>r p q. enclosingRegionFromOffsets [97, 0xD83D, 0xDE00, 98] (int 2) (int 3) = Some r
     \<and> r = regionOf p q
     \<and> (\<exists>x y. offsetOf [97, 0xD83D, 0xDE00, 98] p = Some x
              \<and> offsetOf [97, 0xD83D, 0xDE00, 98] q = Some y \<and> x \<le> 2 \<and> 3 \<le> y)"
  by (rule enclosingRegion_encloses) (simp_all add: fits_def MAX_SAFE_INTEGER_def)

text \<open>Positions follow offsets in reading order: of two offsets that have positions, the
  earlier one's comes strictly first, by line and then by column.\<close>

lemma positions_in_reading_order:
  assumes "positionAtOffset content a = Some p" "positionAtOffset content b = Some q"
  shows "a < b \<longleftrightarrow> p < q"
  using positionAtOffset_strict_mono [OF assms] positionAtOffset_strict_mono [OF assms(2,1)]
    assms by (cases a b rule: linorder_cases) auto

lemma positions_in_reading_order_witness:
  "positionAtOffset [97, 10, 98] 0 = Some (TextPosition 1 1)
   \<and> positionAtOffset [97, 10, 98] 2 = Some (TextPosition 2 1)
   \<and> TextPosition 1 1 < TextPosition 2 1"
proof -
  have p: "positionAtOffset [97, 10, 98] 0 = Some (TextPosition 1 1)" by code_simp
  have q: "positionAtOffset [97, 10, 98] 2 = Some (TextPosition 2 1)" by code_simp
  from positions_in_reading_order [OF p q] p q show ?thesis by simp
qed

end
