(* ===== verification/Slicer.thy ===== *)
theory Slicer
  imports TextCoordinates
begin

text \<open>
  \<^verbatim>\<open>plurnk-schemes/src/Slicer.ts\<close>, the text algebra: what a line marker selects in a text, in an
  ordered result set or in a resource of any unit, and the replacement it stands for when it is
  the scope of an edit. A marker is its list of marks; a mark is any number, so the checks for
  integers are part of the model.

  Every error message of the source is a constructor of \<open>ScopeError\<close> that holds what the message
  interpolates; the recovery text goes with the message. A failure result is a \<open>SliceFailure\<close>
  with the extent or the coordinates it reports; \<open>Defect\<close> is an exception thrown for a state the
  source believes impossible, and a theorem below shows that it is.
\<close>

type_synonym marks = "jsnum list"

datatype RangeUnit = LineUnit | ByteUnit | ResultUnit | ResourceUnit | MatchLocationUnit

datatype ScopeError =
    ExactNeedsFourIntegers
  | RegionNamesFourMarks
  | StartLineOutside int nat
  | EndLineOutside int nat
  | EndColumnNotPositive int
  | CoordinateError RangeError
  | EndsBeforeStart int int int int
  | CountFromOne ScopeError
  | LineRangeUnresolved int int
  | RegionArity nat
  | RegionThreeNeedsIntegers
  | EndLineOfEmpty int
  | ZeroStart int RangeUnit
  | RangeArity nat
  | ScopeNeedsIntegers RangeUnit
  | PositionOfEmpty int RangeUnit
  | PositionOutside int nat RangeUnit
  | RangeOfEmpty int int
  | TailStart int nat RangeUnit
  | RangeStartOutside int nat RangeUnit
  | RangeEndOutside int nat RangeUnit
  | RangeStartExceedsEnd int int
  | ResultNeedsIntegers nat
  | ResultOutside int nat RangeUnit
  | ResultInverted int int
  | ResultStartOutside int nat RangeUnit
  | ResultEndOutside int nat
  | ResultStartExceedsEnd int int

datatype ScopeNormalization =
    ExpandedRegion "int \<times> int \<times> int" "int \<times> int \<times> int \<times> int"
  | ZeroRange int

datatype MarkerKind = RangeKind | BeforeFirst | AfterLast

record NormalizedMarker =
  normKind :: MarkerKind
  normStart :: int
  normEnd :: int

record TextReplacement =
  repStart :: nat
  repEnd :: nat
  repBody :: jsstr
  repStartLine :: int
  repEndLine :: int
  normalization :: "ScopeNormalization option"

record RangeExtent =
  extentUnit :: RangeUnit
  extentTotal :: nat
  extentRequested :: "jsnum \<times> jsnum"
  extentReturned :: "(int \<times> int) option"

datatype SliceFailure =
    RangeFailure ScopeError RangeExtent
  | RegionFailure ScopeError marks
  | PageArity marks
  | Defect

record SliceResult =
  sliceText :: jsstr
  sliceStartLine :: "int option"
  sliceRegion :: "TextRegion option"
  sliceRange :: "RangeExtent option"
  sliceNormalizations :: "ScopeNormalization list"

record WindowResult =
  windowStart :: "int option"
  windowEnd :: "int option"
  windowRange :: RangeExtent

record 'a PageResult =
  pageItems :: "'a list"
  pageRange :: RangeExtent

section \<open>Extents\<close>

definition readScope :: "marks \<Rightarrow> ScopeNormalization option" where
  "readScope marks =
     (case marks of
        [Whole first, Whole final] \<Rightarrow>
          if first = 0 \<and> safeInt final \<and> (final = -1 \<or> 0 < final) then Some (ZeroRange final) else None
      | _ \<Rightarrow> None)"

text \<open>\<open>marks\<close> is never empty: the marker's tuple type has a first mark.\<close>

definition extent :: "marks \<Rightarrow> nat \<Rightarrow> RangeUnit \<Rightarrow> RangeExtent" where
  "extent marks n u =
     \<lparr>extentUnit = u, extentTotal = n,
      extentRequested = (hd marks, case tl marks of [] \<Rightarrow> hd marks | second # _ \<Rightarrow> second),
      extentReturned = None\<rparr>"

definition projectedExtent :: "RangeExtent \<Rightarrow> (int \<times> int) option \<Rightarrow> RangeExtent" where
  "projectedExtent e r = (case r of None \<Rightarrow> e | Some (first, final) \<Rightarrow> e\<lparr>extentReturned := Some (first, final)\<rparr>)"

definition coversAvailable :: "RangeExtent \<Rightarrow> bool" where
  "coversAvailable e \<longleftrightarrow>
     extentTotal e = 0 \<or> (case extentReturned e of None \<Rightarrow> False | Some (a, b) \<Rightarrow> a = 1 \<and> b = int (extentTotal e))"

section \<open>Positions and ranges\<close>

definition zeroStart :: "int \<Rightarrow> RangeUnit \<Rightarrow> ScopeError" where
  "zeroStart final u = ZeroStart final u"

definition normalizePosition :: "int \<Rightarrow> nat \<Rightarrow> RangeUnit \<Rightarrow> ScopeError + NormalizedMarker" where
  "normalizePosition first n u =
     (if first = 0 then Inr \<lparr>normKind = BeforeFirst, normStart = 0, normEnd = 0\<rparr>
      else if first = -1 then Inr \<lparr>normKind = AfterLast, normStart = int n, normEnd = int n\<rparr>
      else if 0 < first \<and> first \<le> int n
      then Inr \<lparr>normKind = RangeKind, normStart = first, normEnd = first\<rparr>
      else Inl (if n = 0 then PositionOfEmpty first u else PositionOutside first n u))"

definition normalizeRange :: "int \<Rightarrow> int \<Rightarrow> nat \<Rightarrow> RangeUnit \<Rightarrow> ScopeError + NormalizedMarker" where
  "normalizeRange first final n u =
     (if first = 0 then Inl (zeroStart final u)
      else if n = 0
      then (if first = 1 \<and> (final = -1 \<or> 0 < final)
            then Inr \<lparr>normKind = RangeKind, normStart = 1, normEnd = 0\<rparr>
            else Inl (RangeOfEmpty first final))
      else let m = (if final = -1 \<or> int n < final then int n else final) in
        if first < -1 \<and> final = -1 then Inl (TailStart first n u)
        else if first < 1 \<or> int n < first then Inl (RangeStartOutside first n u)
        else if m < 1 then Inl (RangeEndOutside final n u)
        else if m < first then Inl (RangeStartExceedsEnd first final)
        else Inr \<lparr>normKind = RangeKind, normStart = first, normEnd = m\<rparr>)"

definition normalize :: "marks \<Rightarrow> nat \<Rightarrow> RangeUnit \<Rightarrow> ScopeError + NormalizedMarker" where
  "normalize marks n u =
     (if length marks \<noteq> 1 \<and> length marks \<noteq> 2 then Inl (RangeArity (length marks))
      else if \<not> list_all isInteger marks then Inl (ScopeNeedsIntegers u)
      else if length marks = 1 then normalizePosition (wholeOf (marks ! 0)) n u
      else normalizeRange (wholeOf (marks ! 0)) (wholeOf (marks ! 1)) n u)"

definition window :: "marks \<Rightarrow> nat \<Rightarrow> RangeUnit \<Rightarrow> SliceFailure + WindowResult" where
  "window marks n u =
     (if length marks \<noteq> 1 \<and> length marks \<noteq> 2 then Inl (RegionFailure (RangeArity (length marks)) marks)
      else let e = extent marks n u in
      case normalize marks n u of
        Inl err \<Rightarrow> Inl (RangeFailure err e)
      | Inr nm \<Rightarrow>
          if normKind nm \<noteq> RangeKind \<or> normEnd nm < normStart nm
          then Inr \<lparr>windowStart = None, windowEnd = None, windowRange = projectedExtent e None\<rparr>
          else Inr \<lparr>windowStart = Some (normStart nm), windowEnd = Some (normEnd nm),
                    windowRange = projectedExtent e (Some (normStart nm, normEnd nm))\<rparr>)"

section \<open>Exact regions\<close>

definition endOfLine :: "jsstr \<Rightarrow> TextLine list \<Rightarrow> int \<Rightarrow> int" where
  "endOfLine content lines line =
     (let data = lines ! nat (min (max line 1) (int (length lines)) - 1)
      in int (codePointCount (lineBody content data)) + 1)"

definition finalEndpoint ::
    "jsstr \<Rightarrow> TextLine list \<Rightarrow> int \<times> int \<times> int \<times> int \<Rightarrow> int \<times> int \<times> int \<times> int" where
  "finalEndpoint content lines marks =
     (case marks of (sl, sc, el, ec) \<Rightarrow>
        let resolvedStart = (if sl = -1 then int (length lines) else sl);
            resolvedEnd = (if el = -1 then int (length lines) else el)
        in (resolvedStart,
            if sl = -1 \<or> sc = -1 then endOfLine content lines resolvedStart else sc,
            resolvedEnd,
            if el = -1 \<or> ec = -1 then endOfLine content lines resolvedEnd else ec))"

definition exactRegion ::
    "jsstr \<Rightarrow> int \<times> int \<times> int \<times> int \<Rightarrow> jsstr \<Rightarrow> ScopeError + TextReplacement" where
  "exactRegion content marks body =
     (let lines = scanLines content in
      case finalEndpoint content lines marks of (sl, sc, el, rawEnd) \<Rightarrow>
        if sl < 1 \<or> int (length lines) < sl then Inl (StartLineOutside sl (length lines))
        else if el < 1 then Inl (EndLineOutside el (length lines))
        else if rawEnd < 1 then Inl (EndColumnNotPositive rawEnd)
        else
          let pastEof = int (length lines) < el;
              resolvedEnd = (if pastEof then int (length lines) else el);
              endData = lines ! nat (resolvedEnd - 1);
              maxEnd = int (codePointCount (lineBody content endData)) + 1;
              endCol = (if pastEof then maxEnd else min rawEnd maxEnd)
          in (case offsetAtPosition content sl sc of
                Inl cause \<Rightarrow> Inl (CoordinateError cause)
              | Inr s \<Rightarrow>
                  (case offsetAtPosition content resolvedEnd endCol of
                     Inl cause \<Rightarrow> Inl (CoordinateError cause)
                   | Inr e \<Rightarrow>
                       if e < s then Inl (EndsBeforeStart sl sc el rawEnd)
                       else Inr \<lparr>repStart = s, repEnd = e, repBody = body, repStartLine = sl,
                                 repEndLine = resolvedEnd, normalization = None\<rparr>)))"

definition exactTextReplacement :: "jsstr \<Rightarrow> marks \<Rightarrow> jsstr \<Rightarrow> ScopeError + TextReplacement" where
  "exactTextReplacement content marks body =
     (if length marks \<noteq> 4 \<or> \<not> list_all isSafeInteger marks then Inl ExactNeedsFourIntegers
      else case exactRegion content
          (wholeOf (marks ! 0), wholeOf (marks ! 1), wholeOf (marks ! 2), wholeOf (marks ! 3)) body of
        Inr r \<Rightarrow> Inr r
      | Inl err \<Rightarrow> if Whole 0 \<in> set marks then Inl (CountFromOne err) else Inl err)"

definition expandRegion3 :: "jsstr \<Rightarrow> marks \<Rightarrow> ScopeError + marks \<times> ScopeNormalization" where
  "expandRegion3 content marks =
     (if \<not> list_all isSafeInteger (take 3 marks) then Inl RegionThreeNeedsIntegers
      else let sl = wholeOf (marks ! 0); sc = wholeOf (marks ! 1); req = wholeOf (marks ! 2);
               lines = scanLines content;
               el = (if req = -1 then int (length lines) else req) in
        if el < 1 then Inl (EndLineOutside el (length lines))
        else let resolvedEnd = min el (int (length lines)) in
          (case atLine lines resolvedEnd of
             None \<Rightarrow> Inl (EndLineOfEmpty el)
           | Some l \<Rightarrow>
               let endCol = int (codePointCount (lineBody content l)) + 1 in
               Inr ([Whole sl, Whole sc, Whole resolvedEnd, Whole endCol],
                    ExpandedRegion (sl, sc, req) (sl, sc, resolvedEnd, endCol))))"

section \<open>Whole lines\<close>

definition preferredSeparator :: "jsstr \<Rightarrow> TextLine list \<Rightarrow> jsstr" where
  "preferredSeparator content lines =
     (case find (\<lambda>l. separator l \<noteq> []) lines of
        Some l \<Rightarrow> separator l
      | None \<Rightarrow> if includesCRLF content then [CR, LF] else if CR \<in> set content then [CR] else [LF])"

definition wholeLineBody :: "jsstr \<Rightarrow> marks \<Rightarrow> jsstr \<Rightarrow> jsstr" where
  "wholeLineBody content marks body =
     (let zeroWidthAtColumnOne =
            length marks = 4 \<and> marks ! 0 = marks ! 2 \<and> marks ! 1 = Whole 1 \<and> marks ! 3 = Whole 1
      in if \<not> zeroWidthAtColumnOne \<or> body = [] \<or> endsWithNewline body then body
         else body @ preferredSeparator content (scanLines content))"

definition lineTextReplacement :: "jsstr \<Rightarrow> marks \<Rightarrow> jsstr \<Rightarrow> ScopeError + TextReplacement" where
  "lineTextReplacement content marks body =
     (let lines = logicalLines content in
      if lines = [] \<and> marks = [Whole 1]
      then Inr \<lparr>repStart = 0, repEnd = 0, repBody = body, repStartLine = 1, repEndLine = 1,
                normalization = None\<rparr>
      else case normalize marks (length lines) LineUnit of
        Inl err \<Rightarrow> Inl err
      | Inr nm \<Rightarrow>
        let sep = preferredSeparator content lines in
        (case normKind nm of
           BeforeFirst \<Rightarrow>
             let inserted = (if body \<noteq> [] \<and> content \<noteq> [] \<and> \<not> endsWithNewline body
                             then body @ sep else body)
             in Inr \<lparr>repStart = 0, repEnd = 0, repBody = inserted, repStartLine = 1, repEndLine = 1,
                     normalization = None\<rparr>
         | AfterLast \<Rightarrow>
             let stripped = (if content \<noteq> [] \<and> \<not> endsWithNewline content
                             then stripFinalNewline body else body);
                 prefix = (if stripped \<noteq> [] \<and> content \<noteq> [] \<and> \<not> endsWithNewline content
                           then sep else []);
                 suffix = (if stripped \<noteq> [] \<and> endsWithNewline content \<and> \<not> endsWithNewline stripped
                           then sep else []);
                 lastLine = max (int (length lines)) 1
             in Inr \<lparr>repStart = length content, repEnd = length content,
                     repBody = prefix @ stripped @ suffix, repStartLine = lastLine,
                     repEndLine = lastLine, normalization = None\<rparr>
         | RangeKind \<Rightarrow>
             (case (atLine lines (normStart nm), atLine lines (normEnd nm)) of
                (Some first, Some final) \<Rightarrow>
                  let inserted = (if body \<noteq> [] \<and> separator final \<noteq> [] \<and> \<not> endsWithNewline body
                                  then body @ separator final else body)
                  in Inr \<lparr>repStart = lineStart first, repEnd = lineEnd final, repBody = inserted,
                          repStartLine = normStart nm, repEndLine = normEnd nm,
                          normalization = None\<rparr>
              | _ \<Rightarrow>
                  if lines = [] \<and> normStart nm = 1 \<and> normEnd nm = 0
                  then Inr \<lparr>repStart = 0, repEnd = 0, repBody = body, repStartLine = 1,
                            repEndLine = 1, normalization = None\<rparr>
                  else Inl (LineRangeUnresolved (normStart nm) (normEnd nm)))))"

definition textReplacement :: "jsstr \<Rightarrow> marks \<Rightarrow> jsstr \<Rightarrow> ScopeError + TextReplacement" where
  "textReplacement content marks body =
     (if length marks = 3
      then (case expandRegion3 content marks of
              Inl err \<Rightarrow> Inl err
            | Inr (expanded, nm) \<Rightarrow>
                (case exactTextReplacement content expanded body of
                   Inl err \<Rightarrow> Inl err
                 | Inr r \<Rightarrow> Inr (r\<lparr>normalization := Some nm\<rparr>)))
      else if length marks = 4 then exactTextReplacement content marks body
      else if length marks = 1 \<or> length marks = 2 then lineTextReplacement content marks body
      else Inl (RegionArity (length marks)))"

section \<open>Reading\<close>

definition linesOfRegion ::
    "jsstr \<Rightarrow> marks \<Rightarrow> marks \<Rightarrow> ScopeNormalization list \<Rightarrow> SliceFailure + SliceResult" where
  "linesOfRegion content asked marks norms =
     (case exactTextReplacement content marks [] of
        Inl err \<Rightarrow> Inl (RegionFailure err asked)
      | Inr selected \<Rightarrow>
          (case regionFromOffsets content (int (repStart selected)) (int (repEnd selected)) of
             None \<Rightarrow> Inl Defect
           | Some region \<Rightarrow>
               Inr \<lparr>sliceText = jsSlice content (repStart selected) (repEnd selected),
                    sliceStartLine = Some (repStartLine selected), sliceRegion = Some region,
                    sliceRange = None, sliceNormalizations = norms\<rparr>))"

definition linesOfRange :: "jsstr \<Rightarrow> marks \<Rightarrow> SliceFailure + SliceResult" where
  "linesOfRange content marks =
     (let lines = logicalLines content; e = extent marks (length lines) LineUnit in
      case normalize marks (length lines) LineUnit of
        Inl err \<Rightarrow> Inl (RangeFailure err e)
      | Inr nm \<Rightarrow>
          if normKind nm \<noteq> RangeKind
          then Inr \<lparr>sliceText = [], sliceStartLine = None, sliceRegion = None,
                    sliceRange = Some (projectedExtent e None), sliceNormalizations = []\<rparr>
          else if lines = []
          then (case regionFromOffsets content 0 0 of
                  None \<Rightarrow> Inl Defect
                | Some region \<Rightarrow>
                    Inr \<lparr>sliceText = [], sliceStartLine = Some 1, sliceRegion = Some region,
                         sliceRange = Some (projectedExtent e None), sliceNormalizations = []\<rparr>)
          else
            let selected = map (lineBody content)
                  (jsSlice lines (nat (normStart nm - 1)) (nat (normEnd nm)))
            in (case lineRegion content (normStart nm) (normEnd nm) of
                  None \<Rightarrow> Inl Defect
                | Some region \<Rightarrow>
                    Inr \<lparr>sliceText = joinWith [LF] selected,
                         sliceStartLine = Some (normStart nm), sliceRegion = Some region,
                         sliceRange = Some (projectedExtent e (Some (normStart nm, normEnd nm))),
                         sliceNormalizations = []\<rparr>))"

definition readLines :: "jsstr \<Rightarrow> marks \<Rightarrow> SliceFailure + SliceResult" where
  "readLines content marks =
     (if length marks = 3
      then (case expandRegion3 content marks of
              Inl err \<Rightarrow> Inl (RegionFailure err marks)
            | Inr (expanded, nm) \<Rightarrow> linesOfRegion content marks expanded [nm])
      else if length marks = 4 then linesOfRegion content marks marks []
      else if length marks \<noteq> 1 \<and> length marks \<noteq> 2
      then Inl (RegionFailure (RegionArity (length marks)) marks)
      else linesOfRange content marks)"

text \<open>The failure of a selection that is about to be cut or replaced.\<close>

definition replacementFailure :: "jsstr \<Rightarrow> marks \<Rightarrow> ScopeError \<Rightarrow> SliceFailure" where
  "replacementFailure content marks err =
     (if length marks \<noteq> 1 \<and> length marks \<noteq> 2 then RegionFailure err marks
      else RangeFailure err (extent marks (length (logicalLines content)) LineUnit))"

definition linesRaw :: "jsstr \<Rightarrow> marks \<Rightarrow> SliceFailure + SliceResult" where
  "linesRaw content marks =
     (case textReplacement content marks [] of
        Inl err \<Rightarrow> Inl (replacementFailure content marks err)
      | Inr selected \<Rightarrow>
          Inr \<lparr>sliceText = jsSlice content (repStart selected) (repEnd selected),
               sliceStartLine = Some (repStartLine selected), sliceRegion = None, sliceRange = None,
               sliceNormalizations = (case normalization selected of None \<Rightarrow> [] | Some nm \<Rightarrow> [nm])\<rparr>)"

section \<open>Pages of results\<close>

definition emptyPage :: "RangeExtent \<Rightarrow> SliceFailure + 'a PageResult" where
  "emptyPage e = Inr \<lparr>pageItems = [], pageRange = projectedExtent e None\<rparr>"

definition pagePosition :: "'a list \<Rightarrow> int \<Rightarrow> RangeExtent \<Rightarrow> SliceFailure + 'a PageResult" where
  "pagePosition items first e =
     (let n = length items in
      if first = 0 \<or> first = -1 then emptyPage e
      else if n = 0 \<and> 0 < first then emptyPage e
      else if 0 < first \<and> first \<le> int n
      then Inr \<lparr>pageItems = [items ! nat (first - 1)], pageRange = projectedExtent e (Some (first, first))\<rparr>
      else Inl (RangeFailure (ResultOutside first n (extentUnit e)) e))"

definition pageSpan :: "'a list \<Rightarrow> int \<Rightarrow> int \<Rightarrow> RangeExtent \<Rightarrow> SliceFailure + 'a PageResult" where
  "pageSpan items first final e =
     (let n = length items in
      if first = 0 then Inl (RangeFailure (zeroStart final (extentUnit e)) e)
      else if n = 0
      then (if 1 \<le> first \<and> (final = -1 \<or> first \<le> final) then emptyPage e
            else Inl (RangeFailure (ResultInverted first final) e))
      else let m = (if final = -1 then int n else min final (int n)) in
        if first < 1 \<or> int n < first
        then Inl (RangeFailure (ResultStartOutside first n (extentUnit e)) e)
        else if m < 1 then Inl (RangeFailure (ResultEndOutside final n) e)
        else if m < first then Inl (RangeFailure (ResultStartExceedsEnd first final) e)
        else Inr \<lparr>pageItems = jsSlice items (nat (first - 1)) (nat m),
                  pageRange = projectedExtent e (Some (first, m))\<rparr>)"

definition page :: "'a list \<Rightarrow> marks \<Rightarrow> RangeUnit \<Rightarrow> SliceFailure + 'a PageResult" where
  "page items marks u =
     (if length marks \<noteq> 1 \<and> length marks \<noteq> 2 then Inl (PageArity marks)
      else let e = extent marks (length items) u in
      if \<not> list_all isInteger marks then Inl (RangeFailure (ResultNeedsIntegers (length items)) e)
      else if length marks = 1 then pagePosition items (wholeOf (marks ! 0)) e
      else pageSpan items (wholeOf (marks ! 0)) (wholeOf (marks ! 1)) e)"

text \<open>The status of a failure's result.\<close>

fun failureStatus :: "SliceFailure \<Rightarrow> nat" where
  "failureStatus (RangeFailure err e) = 416"
| "failureStatus (RegionFailure err marks) = 416"
| "failureStatus (PageArity marks) = 416"
| "failureStatus Defect = 500"

section \<open>Logical lines\<close>

lemma logicalLines_nth:
  assumes "i < length (logicalLines content)"
  shows "i < length (scanLines content)" "logicalLines content ! i = scanLines content ! i"
  using assms by (auto simp: logicalLines_def Let_def nth_butlast split: if_splits)

lemma logicalLines_empty [simp]: "logicalLines [] = []"
  by (simp add: logicalLines_def)

lemma logicalLines_cases:
  assumes "content \<noteq> []"
  obtains (all) "logicalLines content = scanLines content"
    | (ended) i where "Suc i < length (scanLines content)" "length (logicalLines content) = Suc i"
      "lineStart (scanLines content ! Suc i) = length content"
      "length (scanLines content) = Suc (Suc i)" "logicalLines content = butlast (scanLines content)"
proof (cases "1 < length (scanLines content) \<and> lineStart (last (scanLines content)) = length content")
  case True
  define i where "i = length (scanLines content) - 2"
  have i: "length (scanLines content) = Suc (Suc i)" using True unfolding i_def by linarith
  then have "last (scanLines content) = scanLines content ! Suc i" by (simp add: last_conv_nth)
  with True i assms show thesis
    by (intro ended [of i]) (auto simp: logicalLines_def Let_def)
next
  case False
  with assms show thesis by (intro all) (auto simp: logicalLines_def Let_def)
qed

lemma logicalLines_Nil_iff [simp]: "logicalLines content = [] \<longleftrightarrow> content = []"
proof
  assume l: "logicalLines content = []"
  show "content = []"
  proof (rule ccontr)
    assume "content \<noteq> []"
    then show False
    proof (cases rule: logicalLines_cases)
      case all
      then show False using l scanLines_nonempty [of content] by metis
    next
      case (ended i)
      from ended(2) l show False by simp
    qed
  qed
qed (simp add: logicalLines_def)

lemma logicalLines_last_end:
  assumes "content \<noteq> []"
  shows "lineEnd (logicalLines content ! (length (logicalLines content) - 1)) = length content"
  using assms
proof (cases rule: logicalLines_cases)
  case all
  then show ?thesis
    using tiles_last [OF scanLines_tiles [of content]] by (simp add: last_conv_nth)
next
  case (ended i)
  then show ?thesis
    using tiles_step [OF scanLines_tiles [of content], of i] logicalLines_nth(2) [of i content] by simp
qed

lemma logicalLines_bounds:
  assumes "i < length (logicalLines content)" "l = logicalLines content ! i"
  shows "lineStart l \<le> contentEnd l" "contentEnd l \<le> lineEnd l" "lineEnd l \<le> length content"
    "lineEnd l = contentEnd l + length (separator l)"
    "jsSlice content (contentEnd l) (lineEnd l) = separator l"
    "newlineFree (lineBody content l)"
  using line_bounds [of i content l] logicalLines_nth [OF assms(1)] assms(2) by auto

lemma logicalLines_order:
  assumes "i \<le> j" "j < length (logicalLines content)"
  shows "lineStart (logicalLines content ! i) \<le> lineStart (logicalLines content ! j)"
    "lineEnd (logicalLines content ! i) \<le> lineEnd (logicalLines content ! j)"
    "lineStart (logicalLines content ! i) \<le> lineEnd (logicalLines content ! j)"
proof -
  note n = logicalLines_nth [of i content] logicalLines_nth [OF assms(2)]
  have i: "i < length (logicalLines content)" using assms by simp
  note b = line_bounds [OF n(1) [OF i] refl] line_bounds [OF n(3) refl]
  have "lineEnd (scanLines content ! i) \<le> lineStart (scanLines content ! j)" if "i < j"
    using tiles_after [OF scanLines_tiles that n(3)] .
  then show "lineStart (logicalLines content ! i) \<le> lineStart (logicalLines content ! j)"
    "lineEnd (logicalLines content ! i) \<le> lineEnd (logicalLines content ! j)"
    "lineStart (logicalLines content ! i) \<le> lineEnd (logicalLines content ! j)"
    using b n assms i by (cases "i = j"; force)+
qed

lemma logicalLines_separator:
  assumes "i < length (logicalLines content)" "l = logicalLines content ! i"
  shows "separator l \<in> {[CR, LF], [CR], [LF], []}"
proof (cases "Suc i < length (scanLines content)")
  case True
  then show ?thesis
    using tiles_step [OF scanLines_tiles [of content], of i] logicalLines_nth [OF assms(1)] assms(2)
    by auto
next
  case False
  then have "i = length (scanLines content) - 1" using logicalLines_nth(1) [OF assms(1)] by simp
  then show ?thesis
    using tiles_last [OF scanLines_tiles [of content]] logicalLines_nth [OF assms(1)] assms(2)
    by (simp add: last_conv_nth)
qed

section \<open>Normal forms\<close>

lemma normalize_cases:
  assumes "normalize marks n u = Inr nm"
  obtains (before) "normKind nm = BeforeFirst" "marks = [Whole 0]"
    | (after) "normKind nm = AfterLast" "marks = [Whole (-1)]"
    | (range) "normKind nm = RangeKind" "1 \<le> normStart nm" "normStart nm \<le> normEnd nm"
        "normEnd nm \<le> int n"
    | (empty) "normKind nm = RangeKind" "n = 0" "normStart nm = 1" "normEnd nm = 0" "length marks = 2"
proof -
  from assms have len: "length marks = 1 \<or> length marks = 2" and ints: "list_all isInteger marks"
    by (auto simp: normalize_def split: if_splits)
  from len show thesis
  proof
    assume "length marks = 1"
    then obtain x where x: "marks = [x]" by (cases marks) auto
    with ints obtain k where "x = Whole k" by (cases x) auto
    with x assms that show thesis
      by (auto simp: normalize_def normalizePosition_def split: if_splits)
  next
    assume "length marks = 2"
    then obtain x y where xy: "marks = [x, y]" by (auto simp: numeral_2_eq_2 length_Suc_conv)
    with ints obtain k m where "x = Whole k" "y = Whole m" by (cases x; cases y) auto
    with xy assms that show thesis
      by (auto simp: normalize_def normalizeRange_def Let_def split: if_splits)
  qed
qed

lemma normalize_range_bounds:
  assumes "normalize marks n u = Inr nm" "normKind nm = RangeKind" "0 < n"
  shows "1 \<le> normStart nm" "normStart nm \<le> normEnd nm" "normEnd nm \<le> int n"
  using assms by (auto elim: normalize_cases)


section \<open>Bounds of replacements\<close>

definition inBounds :: "jsstr \<Rightarrow> TextReplacement \<Rightarrow> bool" where
  "inBounds content r \<longleftrightarrow> repStart r \<le> repEnd r \<and> repEnd r \<le> length content"

lemma offsetAtPosition_le:
  assumes "offsetAtPosition content l c = Inr offset"
  shows "offset \<le> length content"
proof -
  from assms obtain i k where ik: "i < length (scanLines content)"
    "k < length (offsetsForLine content (scanLines content ! i))"
    "offset = offsetsForLine content (scanLines content ! i) ! k"
    by (rule offsetAtPosition_InrE)
  then show ?thesis
    using offsetsForLine_nth_bounds(2) [OF ik(1) refl ik(2)] line_bounds [OF ik(1) refl] by simp
qed

lemma exactRegion_facts:
  assumes "exactRegion content ms body = Inr r"
  obtains l c l' c' where "offsetAtPosition content l c = Inr (repStart r)"
    "offsetAtPosition content l' c' = Inr (repEnd r)" "repStart r \<le> repEnd r" "repBody r = body"
    "repStartLine r = l" "repEndLine r = l'"
  using assms
  by (auto simp: exactRegion_def Let_def split: prod.splits if_splits sum.splits)

lemma exactTextReplacement_Inr:
  assumes "exactTextReplacement content marks body = Inr r"
  shows "exactRegion content
     (wholeOf (marks ! 0), wholeOf (marks ! 1), wholeOf (marks ! 2), wholeOf (marks ! 3)) body = Inr r"
  using assms by (auto simp: exactTextReplacement_def split: if_splits sum.splits)

lemma exactTextReplacement_facts:
  assumes "exactTextReplacement content marks body = Inr r"
  obtains l c l' c' where "offsetAtPosition content l c = Inr (repStart r)"
    "offsetAtPosition content l' c' = Inr (repEnd r)" "repStart r \<le> repEnd r" "repBody r = body"
    "repStartLine r = l" "repEndLine r = l'"
  using exactRegion_facts [OF exactTextReplacement_Inr [OF assms]] by blast

lemma exactTextReplacement_bounds:
  "exactTextReplacement content marks body = Inr r \<Longrightarrow> inBounds content r \<and> repBody r = body"
  by (erule exactTextReplacement_facts) (auto simp: inBounds_def dest: offsetAtPosition_le)

text \<open>What a line marker resolves to, by the kind of its normal form.\<close>

lemma lineTextReplacement_cases:
  assumes "lineTextReplacement content marks body = Inr r"
  obtains (emptyText) "content = []" "repStart r = 0" "repEnd r = 0" "repBody r = body"
    | (before) "repStart r = 0" "repEnd r = 0" "marks = [Whole 0]"
        "repBody r = (if body \<noteq> [] \<and> content \<noteq> [] \<and> \<not> endsWithNewline body
           then body @ preferredSeparator content (logicalLines content) else body)"
    | (after) "repStart r = length content" "repEnd r = length content" "marks = [Whole (-1)]"
        "body = [] \<Longrightarrow> repBody r = []"
    | (range) i j where "i \<le> j" "j < length (logicalLines content)"
        "repStart r = lineStart (logicalLines content ! i)"
        "repEnd r = lineEnd (logicalLines content ! j)"
        "repBody r = (if body \<noteq> [] \<and> separator (logicalLines content ! j) \<noteq> []
             \<and> \<not> endsWithNewline body
           then body @ separator (logicalLines content ! j) else body)"
        "repStartLine r = int i + 1" "repEndLine r = int j + 1"
proof (cases "content = [] \<and> marks = [Whole 1]")
  case True
  then show thesis using assms emptyText by (auto simp: lineTextReplacement_def Let_def)
next
  case False
  with assms obtain nm where nm: "normalize marks (length (logicalLines content)) LineUnit = Inr nm"
    by (auto simp: lineTextReplacement_def Let_def split: sum.splits)
  from nm show thesis
  proof (cases rule: normalize_cases)
    case b: before
    then show thesis
      using assms nm False by (intro before) (auto simp: lineTextReplacement_def Let_def)
  next
    case a: after
    have "r = \<lparr>repStart = length content, repEnd = length content, repBody = repBody r,
        repStartLine = repStartLine r, repEndLine = repEndLine r, normalization = None\<rparr>"
      using assms nm False a by (auto simp: lineTextReplacement_def Let_def)
    moreover have "repBody r = []" if "body = []"
      using assms nm False a that
      by (auto simp: lineTextReplacement_def Let_def stripFinalNewline_def endsWithNewline_def)
    ultimately show thesis using a by (intro after) (auto dest: arg_cong [where f = repStart] arg_cong [where f = repEnd])
  next
    case rg: range
    let ?i = "nat (normStart nm - 1)" and ?j = "nat (normEnd nm - 1)"
    have "atLine (logicalLines content) (normStart nm) = Some (logicalLines content ! ?i)"
      "atLine (logicalLines content) (normEnd nm) = Some (logicalLines content ! ?j)"
      using rg by (auto simp: atLine_Some_iff)
    with assms nm False rg show thesis
      by (intro range [of ?i ?j]) (auto simp: lineTextReplacement_def Let_def)
  next
    case e: empty
    then have "content = []" by simp
    with assms nm False e show thesis
      by (intro emptyText) (auto simp: lineTextReplacement_def Let_def atLine_def atIndex_def)
  qed
qed

lemma lineTextReplacement_bounds:
  assumes "lineTextReplacement content marks body = Inr r"
  shows "inBounds content r"
  using assms
proof (cases rule: lineTextReplacement_cases)
  case (range i j)
  then show ?thesis
    using logicalLines_order(3) [OF range(1,2)] logicalLines_bounds(3) [OF range(2) refl]
    by (simp add: inBounds_def)
qed (auto simp: inBounds_def)

lemma textReplacement_bounds:
  assumes "textReplacement content marks body = Inr r"
  shows "inBounds content r"
  using assms lineTextReplacement_bounds exactTextReplacement_bounds
  by (fastforce simp: textReplacement_def inBounds_def split: if_splits sum.splits prod.splits)


section \<open>Cutting a selection out and putting it back\<close>

text \<open>\<open>`${text.slice(0, start)}${body}${text.slice(end)}`\<close>.\<close>

definition splice :: "jsstr \<Rightarrow> nat \<Rightarrow> nat \<Rightarrow> jsstr \<Rightarrow> jsstr" where
  "splice s a b body = jsSlice s 0 a @ body @ drop b s"

lemma splice_same: "a \<le> b \<Longrightarrow> splice s a b (jsSlice s a b) = s"
  by (simp add: splice_def slice_zero take_append_slice flip: append_assoc)

lemma exactRegion_body:
  "exactRegion content ms body = map_sum id (\<lambda>r. r\<lparr>repBody := body\<rparr>) (exactRegion content ms [])"
  by (auto simp: exactRegion_def Let_def split: prod.splits sum.splits)

lemma exactTextReplacement_body:
  "exactTextReplacement content marks body
     = map_sum id (\<lambda>r. r\<lparr>repBody := body\<rparr>) (exactTextReplacement content marks [])"
  by (subst exactTextReplacement_def, subst exactRegion_body)
    (auto simp: exactTextReplacement_def split: sum.splits)

lemma lineTextReplacement_place:
  assumes "lineTextReplacement content marks body = Inr r"
  shows "\<exists>q. lineTextReplacement content marks body' = Inr q \<and> repStart q = repStart r
           \<and> repEnd q = repEnd r \<and> repStartLine q = repStartLine r \<and> repEndLine q = repEndLine r"
proof (cases "logicalLines content = [] \<and> marks = [Whole 1]")
  case True
  then show ?thesis using assms by (auto simp: lineTextReplacement_def Let_def)
next
  case False
  with assms obtain nm where nm: "normalize marks (length (logicalLines content)) LineUnit = Inr nm"
    by (auto simp: lineTextReplacement_def Let_def split: sum.splits)
  show ?thesis
  proof (cases "normKind nm")
    case RangeKind
    then show ?thesis
      using assms nm False
      by (cases "atLine (logicalLines content) (normStart nm)";
          cases "atLine (logicalLines content) (normEnd nm)";
          cases "logicalLines content = [] \<and> normStart nm = 1 \<and> normEnd nm = 0")
        (auto simp: lineTextReplacement_def Let_def)
  next
    case BeforeFirst
    then show ?thesis using assms nm False by (auto simp: lineTextReplacement_def Let_def)
  next
    case AfterLast
    then have *: "repStart q = length content \<and> repEnd q = length content
        \<and> repStartLine q = max (int (length (logicalLines content))) 1
        \<and> repEndLine q = max (int (length (logicalLines content))) 1"
      if "lineTextReplacement content marks b = Inr q" for b q
      using that nm False by (auto simp: lineTextReplacement_def Let_def simp del: if_split)
    have "\<exists>q. lineTextReplacement content marks body' = Inr q"
      using nm False AfterLast by (simp add: lineTextReplacement_def Let_def)
    then show ?thesis using * assms by metis
  qed
qed

text \<open>Where a marker points does not depend on what is put there.\<close>

lemma textReplacement_place:
  assumes "textReplacement content marks body = Inr r"
  shows "\<exists>q. textReplacement content marks body' = Inr q \<and> repStart q = repStart r
           \<and> repEnd q = repEnd r \<and> repStartLine q = repStartLine r \<and> repEndLine q = repEndLine r"
proof -
  have exact: "\<exists>q. exactTextReplacement content ms body' = Inr q \<and> repStart q = repStart r
      \<and> repEnd q = repEnd r \<and> repStartLine q = repStartLine r \<and> repEndLine q = repEndLine r"
    if "exactTextReplacement content ms body = Inr r" for ms r
    using that exactTextReplacement_body [of content ms body] exactTextReplacement_body [of content ms body']
    by (cases "exactTextReplacement content ms []") auto
  consider (three) "length marks = 3" | (four) "length marks = 4"
    | (line) "length marks = 1 \<or> length marks = 2"
    using assms by (auto simp: textReplacement_def split: if_splits)
  then show ?thesis
  proof cases
    case three
    then obtain ms nm r0 where "expandRegion3 content marks = Inr (ms, nm)"
      "exactTextReplacement content ms body = Inr r0" "r = r0\<lparr>normalization := Some nm\<rparr>"
      using assms by (auto simp: textReplacement_def split: sum.splits)
    with three exact [of ms r0] show ?thesis by (auto simp: textReplacement_def)
  next
    case four
    with assms exact [of marks r] show ?thesis by (auto simp: textReplacement_def)
  next
    case line
    with assms have "lineTextReplacement content marks body = Inr r"
      by (auto simp: textReplacement_def)
    from lineTextReplacement_place [OF this, of body'] line show ?thesis
      by (auto simp: textReplacement_def)
  qed
qed

lemma newline_separator: "sep \<in> {[CR, LF], [CR], [LF]} \<Longrightarrow> endsWithNewline (s @ sep)"
  by (auto simp: endsWithNewline_def)

lemma line_range_text_ends:
  assumes "i \<le> j" "j < length (logicalLines content)" "l = logicalLines content ! j"
    "separator l \<noteq> []"
  shows "endsWithNewline (jsSlice content (lineStart (logicalLines content ! i)) (lineEnd l))"
proof -
  note b = logicalLines_bounds [OF assms(2,3)]
  have "lineStart (logicalLines content ! i) \<le> contentEnd l"
    using logicalLines_order(1) [OF assms(1,2)] b(1) assms(3) by simp
  then have "jsSlice content (lineStart (logicalLines content ! i)) (lineEnd l)
      = jsSlice content (lineStart (logicalLines content ! i)) (contentEnd l) @ separator l"
    using slice_append_slice [of "lineStart (logicalLines content ! i)" "contentEnd l" "lineEnd l" content] b
    by simp
  then show ?thesis
    using newline_separator logicalLines_separator [OF assms(2,3)] assms(4) by auto
qed

lemma lineTextReplacement_raw:
  assumes "lineTextReplacement content marks (jsSlice content a b) = Inr r"
    "a = repStart r" "b = repEnd r"
  shows "repBody r = jsSlice content a b"
  using assms(1)
proof (cases rule: lineTextReplacement_cases)
  case (range i j)
  then show ?thesis
    using line_range_text_ends [OF range(1,2) refl] assms(2,3) by auto
qed (use assms(2,3) in auto)

lemma textReplacement_raw:
  assumes "textReplacement content marks [] = Inr r0"
    and sel: "raw = jsSlice content (repStart r0) (repEnd r0)"
  shows "\<exists>r. textReplacement content marks raw = Inr r \<and> repStart r = repStart r0
           \<and> repEnd r = repEnd r0 \<and> repBody r = raw"
proof -
  from textReplacement_place [OF assms(1), of raw] obtain r
    where r: "textReplacement content marks raw = Inr r" "repStart r = repStart r0" "repEnd r = repEnd r0"
    by auto
  have "repBody r = raw"
  proof (cases "length marks = 1 \<or> length marks = 2")
    case True
    then have "lineTextReplacement content marks raw = Inr r"
      using r(1) by (auto simp: textReplacement_def)
    then show ?thesis using lineTextReplacement_raw r sel by auto
  next
    case False
    then show ?thesis
      using r(1) exactTextReplacement_bounds
      by (fastforce simp: textReplacement_def split: if_splits sum.splits prod.splits)
  qed
  with r show ?thesis by blast
qed

section \<open>Reading never meets an impossible state\<close>

lemma positionAtOffset_exact:
  assumes "fits content" "offsetAtPosition content l c = Inr offset"
  shows "\<exists>p. positionAtOffset content (int offset) = Some p"
  using position_of_offset_of_position [OF assms] by blast

lemma linesOfRegion_no_defect:
  assumes "fits content"
  shows "linesOfRegion content asked marks norms \<noteq> Inl Defect"
proof (cases "exactTextReplacement content marks []")
  case (Inr r)
  then obtain l c l' c' where o': "offsetAtPosition content l c = Inr (repStart r)"
    "offsetAtPosition content l' c' = Inr (repEnd r)" "repStart r \<le> repEnd r"
    by (rule exactTextReplacement_facts) blast
  then show ?thesis
    using Inr positionAtOffset_exact [OF assms o'(1)] positionAtOffset_exact [OF assms o'(2)]
    by (auto simp: linesOfRegion_def regionFromOffsets_def)
qed (simp add: linesOfRegion_def)

lemma positionAtOffset_line_ends:
  assumes "fits content" "i < length (scanLines content)"
  shows "\<exists>p. positionAtOffset content (int (lineStart (scanLines content ! i))) = Some p"
    "\<exists>p. positionAtOffset content (int (contentEnd (scanLines content ! i))) = Some p"
proof -
  let ?l = "scanLines content ! i"
  let ?os = "offsetsForLine content ?l"
  have len: "length ?os = Suc (length (codePoints (lineBody content ?l)))"
    by (simp add: offsetsForLine_def)
  note b = line_bounds [OF assms(2) refl]
  have safe: "safeInt (int (lineStart ?l))" "safeInt (int (contentEnd ?l))"
    using b by (auto intro!: fits_safe [OF assms(1)])
  have le: "lineStart ?l \<le> length content" "contentEnd ?l \<le> length content" using b by auto
  have "positionAtOffset content (int (lineStart ?l)) = Some (TextPosition (i + 1) (0 + 1))"
    by (rule positionAtOffset_at_column [OF assms(2) safe(1) le(1)])
      (simp_all add: offsetsForLine_def offsetsFrom_hd)
  then show "\<exists>p. positionAtOffset content (int (lineStart ?l)) = Some p" ..
  let ?k = "length (codePoints (lineBody content ?l))"
  have "positionAtOffset content (int (contentEnd ?l)) = Some (TextPosition (i + 1) (?k + 1))"
    by (rule positionAtOffset_at_column [OF assms(2) safe(2) le(2)])
      (use b in \<open>simp_all add: offsetsForLine_def offsetsFrom_last lineBody_def length_slice\<close>)
  then show "\<exists>p. positionAtOffset content (int (contentEnd ?l)) = Some p" ..
qed

lemma addressableCount:
  assumes "content \<noteq> []"
  shows "(if lineStart (last (scanLines content)) = length content
          then length (scanLines content) - 1 else length (scanLines content))
         = length (logicalLines content)"
proof -
  have "1 < length (scanLines content)" if "lineStart (last (scanLines content)) = length content"
  proof (rule ccontr)
    assume "\<not> 1 < length (scanLines content)"
    then have "length (scanLines content) = 1" using length_scanLines_pos [of content] by linarith
    then have "last (scanLines content) = scanLines content ! 0" by (simp add: last_conv_nth)
    with that line_start_zero [of content] assms show False by simp
  qed
  then show ?thesis using assms by (auto simp: logicalLines_def Let_def)
qed

lemma lineRegion_Some:
  assumes "fits content" "1 \<le> a" "a \<le> b" "b \<le> int (length (logicalLines content))"
  shows "\<exists>region. lineRegion content a b = Some region"
proof -
  let ?ls = "scanLines content"
  have ne: "content \<noteq> []" using assms by (cases "content = []") (auto simp: logicalLines_def)
  have n: "length (logicalLines content) \<le> length ?ls" by (auto simp: logicalLines_def Let_def)
  have "safeInt a" "safeInt b"
    using assms n length_scanLines [of content] fits_safe [OF assms(1), of "nat a"]
      fits_safe [OF assms(1), of "nat b"] by auto
  moreover have at: "nat (a - 1) < length ?ls" "nat (b - 1) < length ?ls" using assms n by auto
  moreover have "regionFromOffsets content (int (lineStart (?ls ! nat (a - 1))))
      (int (contentEnd (?ls ! nat (b - 1)))) \<noteq> None"
  proof -
    have "lineStart (?ls ! nat (a - 1)) \<le> contentEnd (?ls ! nat (b - 1))"
    proof (cases "a = b")
      case False
      then have "nat (a - 1) < nat (b - 1)" using assms by simp
      then show ?thesis
        using scanLines_strict [of "nat (a - 1)" "nat (b - 1)" content] at
          line_bounds(1) [OF at(1) refl] line_bounds(1) [OF at(2) refl]
        by linarith
    qed (use line_bounds(1) [OF at(1) refl] in simp)
    then show ?thesis
      using positionAtOffset_line_ends(1) [OF assms(1) at(1)] positionAtOffset_line_ends(2) [OF assms(1) at(2)]
      by (auto simp: regionFromOffsets_def)
  qed
  ultimately show ?thesis
    using assms ne addressableCount [OF ne] by (auto simp: lineRegion_def Let_def atLine_def atIndex_def)
qed


section \<open>Properties\<close>

text \<open>What a marker asks for, and which markers are admitted, independently of the code: a position asks for itself, a range
  for everything between its marks, \<open>-1\<close> leaving it open; a range starts in the extent, or at 1 of an empty one.\<close>

fun asksFor :: "marks \<Rightarrow> int \<Rightarrow> bool" where
  "asksFor [a] k \<longleftrightarrow> a = Whole k"
| "asksFor [Whole a, Whole b] k \<longleftrightarrow> a \<le> k \<and> (b = -1 \<or> k \<le> b)"
| "asksFor marks k \<longleftrightarrow> False"

fun admissible :: "marks \<Rightarrow> nat \<Rightarrow> bool" where
  "admissible [Whole k] n \<longleftrightarrow> -1 \<le> k \<and> k \<le> int n"
| "admissible [Whole a, Whole b] n \<longleftrightarrow> 1 \<le> a \<and> (a \<le> int n \<or> a = 1) \<and> (b = -1 \<or> a \<le> b)"
| "admissible marks n \<longleftrightarrow> False"

lemma marks_cases:
  obtains (one) k where "marks = [Whole k]" | (two) a b where "marks = [Whole a, Whole b]"
    | (other) "length marks \<noteq> 1 \<and> length marks \<noteq> 2 \<or> \<not> list_all isInteger marks"
proof -
  consider "marks = []" | x where "marks = [x]" | x y where "marks = [x, y]" | x y z zs where "marks = x # y # z # zs"
    by (metis list.exhaust)
  then show thesis
  proof cases
    case (2 x)
    then show thesis using that by (cases x) auto
  next
    case (3 x y)
    then show thesis using that by (cases x; cases y) auto
  qed (use that in auto)
qed

lemma normalize_accepts: "(\<exists>nm. normalize marks n u = Inr nm) \<longleftrightarrow> admissible marks n"
proof (cases rule: marks_cases [of marks])
  case (one k)
  then show ?thesis by (auto simp: normalize_def normalizePosition_def)
next
  case (two a b)
  then show ?thesis by (auto simp: normalize_def normalizeRange_def Let_def)
next
  case other
  then have "\<not> admissible marks n" by (cases "(marks, n)" rule: admissible.cases) auto
  then show ?thesis using other by (auto simp: normalize_def)
qed

lemma normalize_selects:
  assumes "normalize marks n u = Inr nm"
  shows "(\<forall>k. normKind nm = RangeKind \<and> normStart nm \<le> k \<and> k \<le> normEnd nm \<longleftrightarrow> 1 \<le> k \<and> k \<le> int n \<and> asksFor marks k)
     \<and> (normKind nm = BeforeFirst \<longleftrightarrow> marks = [Whole 0]) \<and> (normKind nm = AfterLast \<longleftrightarrow> marks = [Whole (-1)])"
proof (cases rule: marks_cases [of marks])
  case (one k)
  then show ?thesis using assms by (auto simp: normalize_def normalizePosition_def split: if_splits)
next
  case (two a b)
  then show ?thesis using assms by (auto simp: normalize_def normalizeRange_def Let_def split: if_splits)
next
  case other
  then show ?thesis using assms by (auto simp: normalize_def split: if_splits)
qed

text \<open>C2. Normalisation selects exactly what the marker asks for. A marker is accepted just when it is a position of the extent or
  before or behind it, or a range that starts in the extent (or at 1 when it is empty) and does not end before its start; and
  then the range selects those and only those members of the extent that the marks ask for, with \<open>-1\<close> as an open end, while 0
  and \<open>-1\<close> alone are the positions before the first and behind the last.\<close>

theorem normalize_exact:
  "((\<exists>nm. normalize marks n u = Inr nm) \<longleftrightarrow> admissible marks n)
   \<and> (\<forall>nm. normalize marks n u = Inr nm \<longrightarrow>
        (\<forall>k. normKind nm = RangeKind \<and> normStart nm \<le> k \<and> k \<le> normEnd nm \<longleftrightarrow> 1 \<le> k \<and> k \<le> int n \<and> asksFor marks k)
        \<and> (normKind nm = BeforeFirst \<longleftrightarrow> marks = [Whole 0]) \<and> (normKind nm = AfterLast \<longleftrightarrow> marks = [Whole (-1)]))"
  using normalize_accepts normalize_selects by blast

theorem normalize_exact_witness:
  "\<exists>nm. normalize [Whole 2, Whole 3] 5 LineUnit = Inr nm
     \<and> (\<forall>k. normKind nm = RangeKind \<and> normStart nm \<le> k \<and> k \<le> normEnd nm \<longleftrightarrow> 1 \<le> k \<and> k \<le> int 5 \<and> 2 \<le> k \<and> k \<le> 3)"
proof -
  have "admissible [Whole 2, Whole 3] 5" by simp
  then show ?thesis using normalize_exact [of "[Whole 2, Whole 3]" 5 LineUnit] by auto
qed

text \<open>Every marker the slicer resolves, in any of its forms, denotes a span of the content:
  it starts at or before its end and ends inside the content.\<close>

lemma textReplacement_in_content:
  assumes "textReplacement content marks body = Inr r"
  shows "repStart r \<le> repEnd r \<and> repEnd r \<le> length content"
  using textReplacement_bounds [OF assms] by (simp add: inBounds_def)

lemma textReplacement_in_content_witness:
  "\<exists>r. textReplacement [97, 10, 98, 98] [Whole 2, Whole 2, Whole 9] [] = Inr r
     \<and> repStart r \<le> repEnd r \<and> repEnd r \<le> 4"
proof -
  obtain r where r: "textReplacement [97, 10, 98, 98] [Whole 2, Whole 2, Whole 9] [] = Inr r"
  proof -
    have "isl (textReplacement [97, 10, 98, 98] [Whole 2, Whole 2, Whole 9] []) = False" by code_simp
    then show thesis using that by (cases "textReplacement [97, 10, 98, 98] [Whole 2, Whole 2, Whole 9] []") auto
  qed
  from textReplacement_in_content [OF r] r show ?thesis by auto
qed

text \<open>C3. What a raw slice cuts out can be put back: editing the same marker with exactly the text
  \<open>linesRaw\<close> returned leaves the content as it was, for positions, ranges, sentinels and regions,
  so the separators the line form adds never double one that is there.\<close>

theorem linesRaw_edit_identity:
  assumes "linesRaw content marks = Inr s"
  shows "\<exists>r. textReplacement content marks (sliceText s) = Inr r
     \<and> splice content (repStart r) (repEnd r) (repBody r) = content"
proof -
  from assms obtain r0 where r0: "textReplacement content marks [] = Inr r0"
    and sel: "sliceText s = jsSlice content (repStart r0) (repEnd r0)"
    by (auto simp: linesRaw_def split: sum.splits)
  from textReplacement_raw [OF r0 sel] obtain r
    where "textReplacement content marks (sliceText s) = Inr r" "repStart r = repStart r0"
      "repEnd r = repEnd r0" "repBody r = sliceText s" by blast
  moreover have "repStart r0 \<le> repEnd r0" using textReplacement_bounds [OF r0] by (simp add: inBounds_def)
  ultimately show ?thesis using sel by (auto simp: splice_same)
qed

theorem linesRaw_edit_identity_witness:
  "\<exists>r. textReplacement [97, 13, 10, 98] [Whole 1] [97, 13, 10] = Inr r
     \<and> splice [97, 13, 10, 98] (repStart r) (repEnd r) (repBody r) = [97, 13, 10, 98]"
proof -
  have raw: "linesRaw [97, 13, 10, 98] [Whole 1]
     = Inr \<lparr>sliceText = [97, 13, 10], sliceStartLine = Some 1, sliceRegion = None,
            sliceRange = None, sliceNormalizations = []\<rparr>" by code_simp
  from linesRaw_edit_identity [OF raw] show ?thesis by simp
qed

text \<open>Reading a scope never reaches either of the states the source throws for (a resolved
  selection with no addressable region); and a whole-line range inside the text reads exactly
  those lines' bodies, joined by line feeds, with the range it returned.\<close>

lemma readLines_total:
  assumes "fits content"
  shows "readLines content marks \<noteq> Inl Defect
     \<and> (\<forall>a b. marks = [Whole a, Whole b] \<and> 1 \<le> a \<and> a \<le> b \<and> b \<le> int (length (logicalLines content))
        \<longrightarrow> (\<exists>s. readLines content marks = Inr s
              \<and> sliceText s = joinWith [LF] (map (lineBody content)
                    (jsSlice (logicalLines content) (nat (a - 1)) (nat b)))
              \<and> sliceStartLine s = Some a
              \<and> map_option extentReturned (sliceRange s) = Some (Some (a, b))))"
proof -
  have range: "linesOfRange content ms \<noteq> Inl Defect" for ms
  proof (cases "normalize ms (length (logicalLines content)) LineUnit")
    case (Inr nm)
    show ?thesis
    proof (cases "normKind nm = RangeKind \<and> logicalLines content \<noteq> []")
      case True
      then have "0 < length (logicalLines content)" by simp
      from normalize_range_bounds [OF Inr conjunct1 [OF True] this]
      obtain region where "lineRegion content (normStart nm) (normEnd nm) = Some region"
        using lineRegion_Some [OF assms] by blast
      with Inr True show ?thesis by (simp add: linesOfRange_def Let_def)
    next
      case False
      moreover have "regionFromOffsets [] 0 0 \<noteq> None" by code_simp
      ultimately show ?thesis using Inr by (auto simp: linesOfRange_def Let_def)
    qed
  qed (simp add: linesOfRange_def Let_def)
  have "readLines content marks \<noteq> Inl Defect"
    using range [of marks] linesOfRegion_no_defect [OF assms]
    by (auto simp: readLines_def split: sum.splits)
  moreover have "\<exists>s. readLines content marks = Inr s
      \<and> sliceText s = joinWith [LF] (map (lineBody content)
            (jsSlice (logicalLines content) (nat (a - 1)) (nat b)))
      \<and> sliceStartLine s = Some a
      \<and> map_option extentReturned (sliceRange s) = Some (Some (a, b))"
    if m: "marks = [Whole a, Whole b]" "1 \<le> a" "a \<le> b" "b \<le> int (length (logicalLines content))" for a b
  proof -
    from lineRegion_Some [OF assms m(2-4)] obtain region
      where region: "lineRegion content a b = Some region" by blast
    have "content \<noteq> []" using m by auto
    with m region show ?thesis
      by (auto simp: readLines_def linesOfRange_def normalize_def normalizeRange_def Let_def projectedExtent_def)
  qed
  ultimately show ?thesis by blast
qed

lemma readLines_total_witness:
  "\<exists>s. readLines [97, 13, 10, 98, 10] [Whole 1, Whole 2] = Inr s \<and> sliceText s = [97, 10, 98]"
proof -
  have fits: "fits [97, 13, 10, 98, 10]" by (simp add: fits_def MAX_SAFE_INTEGER_def)
  have n: "length (logicalLines [97, 13, 10, 98, 10]) = 2" by code_simp
  have t: "joinWith [LF] (map (lineBody [97, 13, 10, 98, 10])
      (jsSlice (logicalLines [97, 13, 10, 98, 10]) (nat (1 - 1)) (nat 2))) = [97, 10, 98]" by code_simp
  show ?thesis
    using readLines_total [OF fits, of "[Whole 1, Whole 2]"] n t by fastforce
qed

text \<open>The page of an ordered result set and the window of a resource obey one positional
  contract: over a non-empty extent they accept exactly the same markers, return the same
  positions, and the page holds exactly the items at those positions.\<close>

lemma page_window_agree:
  assumes "items \<noteq> []" "length marks = 1 \<or> length marks = 2"
  shows "(case (page items marks u, window marks (length items) u) of
      (Inr p, Inr w) \<Rightarrow>
        (case (windowStart w, windowEnd w) of
           (Some a, Some b) \<Rightarrow> pageItems p = jsSlice items (nat (a - 1)) (nat b)
             \<and> extentReturned (pageRange p) = Some (a, b)
         | _ \<Rightarrow> pageItems p = [] \<and> extentReturned (pageRange p) = None)
        \<and> pageRange p = windowRange w
    | (Inl _, Inl _) \<Rightarrow> True
    | _ \<Rightarrow> False)"
proof (cases "list_all isInteger marks")
  case False
  then show ?thesis using assms(2)
    by (auto simp: page_def window_def normalize_def Let_def)
next
  case True
  have n: "0 < length items" using assms(1) by simp
  from assms(2) show ?thesis
  proof
    assume "length marks = 1"
    then obtain x where x: "marks = [x]" by (cases marks) auto
    with True obtain k where k: "x = Whole k" by (cases x) auto
    have one: "jsSlice items (nat (k - 1)) (nat k) = [items ! nat (k - 1)]"
      if "0 < k" "k \<le> int (length items)"
    proof -
      have i: "nat (k - 1) < length items" "nat k = Suc (nat (k - 1))" using that by auto
      then show ?thesis by (simp add: jsSlice_def take_Suc_conv_app_nth Cons_nth_drop_Suc [symmetric])
    qed
    show ?thesis using one n
      by (auto simp: x k page_def window_def normalize_def normalizePosition_def pagePosition_def
        emptyPage_def projectedExtent_def extent_def Let_def)
  next
    assume "length marks = 2"
    then obtain x y where xy: "marks = [x, y]" by (auto simp: numeral_2_eq_2 length_Suc_conv)
    with True obtain k m where km: "x = Whole k" "y = Whole m" by (cases x; cases y) auto
    show ?thesis using n
      by (auto simp: xy km page_def window_def normalize_def normalizeRange_def pageSpan_def
        projectedExtent_def extent_def Let_def)
  qed
qed

lemma page_window_agree_witness:
  "page [10, 20, 30 :: nat] [Whole 2, Whole 7] ResultUnit
     = Inr \<lparr>pageItems = [20, 30], pageRange = \<lparr>extentUnit = ResultUnit, extentTotal = 3,
          extentRequested = (Whole 2, Whole 7), extentReturned = Some (2, 3)\<rparr>\<rparr>"
  using page_window_agree [of "[10, 20, 30 :: nat]" "[Whole 2, Whole 7]" ResultUnit]
  by (simp add: page_def pageSpan_def window_def normalize_def normalizeRange_def extent_def
    projectedExtent_def jsSlice_def Let_def)

end
