(* ===== verification/SlicerBatch.thy ===== *)
theory SlicerBatch
  imports Slicer "HOL-Library.Multiset"
begin

text \<open>
  \<^verbatim>\<open>plurnk-schemes/src/Slicer.ts\<close>, \<open>lineMarkerEdit\<close> and \<open>lineMarkerEditBatch\<close>: several edits
  authored against one text, resolved together. Each marker becomes a span of the original text;
  pairs of spans that mean the same thing, contain one another or share one line are resolved
  where the text shows which was meant; what still overlaps refuses the whole batch; the rest is
  applied from the last span up, so that no edit moves another's span.

  The abstract contract is \<open>simultaneous\<close>: all spans replaced at once in the original text. The
  main theorem is that the loop over a mutating string meets it.
\<close>

record BatchEdit =
  editMarker :: marks
  editBody :: jsstr

record EditRow = TextReplacement +
  rowMarker :: marks
  rowIndex :: nat

datatype EditMerge =
    DuplicateOf nat nat bool
  | SharedEndpoint nat int jsstr marks "int \<times> int" nat
  | SameInsertionPoint nat nat
  | ContainedRelocated nat nat nat marks nat
  | ContainedAlreadyApplied nat nat

datatype Relation = DuplicateRegions | SharedEndpointRegions | OneContainsOther | OverlappingRegions

record Conflict =
  conflictRegions :: "marks \<times> marks"
  conflictRelation :: Relation
  conflictLine :: "(int \<times> jsstr) option"

datatype EditFailure =
    UnresolvedEdit SliceFailure
  | WholeResourceConflict nat
  | OverlappingEdits "Conflict list" "marks list" nat

record EditResult =
  editedText :: jsstr
  editNormalizations :: "ScopeNormalization list"
  editMerges :: "EditMerge list"
  editApplied :: "BatchEdit list option"

section \<open>Resolving the markers\<close>

definition mkRow :: "TextReplacement \<Rightarrow> marks \<Rightarrow> nat \<Rightarrow> EditRow" where
  "mkRow r m i =
     \<lparr>repStart = repStart r, repEnd = repEnd r, repBody = repBody r, repStartLine = repStartLine r,
      repEndLine = repEndLine r, normalization = normalization r, rowMarker = m, rowIndex = i\<rparr>"

fun resolveEdits :: "jsstr \<Rightarrow> nat \<Rightarrow> BatchEdit list \<Rightarrow> SliceFailure + EditRow list" where
  "resolveEdits content i [] = Inr []"
| "resolveEdits content i (edit # edits) =
     (case textReplacement content (editMarker edit) (editBody edit) of
        Inl err \<Rightarrow> Inl (replacementFailure content (editMarker edit) err)
      | Inr r \<Rightarrow>
          (case resolveEdits content (Suc i) edits of
             Inl failure \<Rightarrow> Inl failure
           | Inr rows \<Rightarrow> Inr (mkRow r (editMarker edit) i # rows)))"

definition isInsertion :: "EditRow \<Rightarrow> bool" where
  "isInsertion r \<longleftrightarrow> repStart r = repEnd r"

definition coversWhole :: "jsstr \<Rightarrow> EditRow \<Rightarrow> bool" where
  "coversWhole content r \<longleftrightarrow> repStart r = 0 \<and> repEnd r = length content \<and> \<not> isInsertion r"

section \<open>Evidence about two regions\<close>

definition lineText :: "jsstr \<Rightarrow> TextLine list \<Rightarrow> int \<Rightarrow> jsstr" where
  "lineText content ls line = (case atLine ls line of None \<Rightarrow> [] | Some l \<Rightarrow> lineBody content l)"

definition bodyLines :: "jsstr \<Rightarrow> jsstr list" where
  "bodyLines body = filter (\<lambda>l. l \<noteq> []) (map trim (splitLF body))"

definition shape :: "jsstr \<Rightarrow> jsstr" where
  "shape body = rev (dropWhile (\<lambda>c. c = LF) (rev (joinWith [LF] (map trimEnd (splitLF body)))))"

definition containsLines :: "EditRow \<Rightarrow> EditRow \<Rightarrow> bool" where
  "containsLines outer inner \<longleftrightarrow>
     repStartLine outer \<le> repStartLine inner \<and> repEndLine inner \<le> repEndLine outer
     \<and> \<not> (repStartLine outer = repStartLine inner \<and> repEndLine outer = repEndLine inner)"

definition splitRows :: "jsstr \<Rightarrow> jsstr list" where
  "splitRows body =
     (let raw = splitLF body
      in map trimEnd (if 1 < length raw \<and> last raw = [] then butlast raw else raw))"

definition occurrences :: "jsstr list \<Rightarrow> jsstr list \<Rightarrow> nat list" where
  "occurrences outerRows block =
     (if block = [] then []
      else filter (\<lambda>k. k + length block \<le> length outerRows
                       \<and> jsSlice outerRows k (k + length block) = block) [0..<Suc (length outerRows)])"

section \<open>Resolving pairs\<close>

record MergeState =
  rows :: "EditRow list"
  merges :: "EditMerge list"
  dropped :: "nat list"

definition mergeContained ::
    "jsstr \<Rightarrow> TextLine list \<Rightarrow> MergeState \<Rightarrow> EditRow \<Rightarrow> EditRow \<Rightarrow> MergeState" where
  "mergeContained content ls st outer inner =
     (let outerRows = splitRows (repBody outer);
          innerOriginal = map (\<lambda>l. trimEnd (lineText content ls l))
                            [repStartLine inner..repEndLine inner];
          originalAt = occurrences outerRows innerOriginal
      in case originalAt of
           [k] \<Rightarrow>
             let innerRows = (if repBody inner = [] then [] else splitRows (repBody inner));
                 composed = joinWith [LF] (take k outerRows @ innerRows
                              @ drop (k + length innerOriginal) outerRows)
                            @ (if repBody outer \<noteq> [] \<and> last (repBody outer) = LF then [LF] else [])
             in st\<lparr>rows := (rows st)[rowIndex outer := (rows st ! rowIndex outer)\<lparr>repBody := composed\<rparr>],
                   dropped := dropped st @ [rowIndex inner],
                   merges := merges st @ [ContainedRelocated (rowIndex inner) (rowIndex outer) (k + 1)
                                            (rowMarker inner) (length innerOriginal)]\<rparr>
         | _ \<Rightarrow>
             if originalAt = [] \<and> repBody inner \<noteq> []
                \<and> length (occurrences outerRows (splitRows (repBody inner))) = 1
             then st\<lparr>dropped := dropped st @ [rowIndex inner],
                     merges := merges st @ [ContainedAlreadyApplied (rowIndex inner) (rowIndex outer)]\<rparr>
             else st)"

definition mergeShared ::
    "jsstr \<Rightarrow> TextLine list \<Rightarrow> MergeState \<Rightarrow> EditRow \<Rightarrow> EditRow \<Rightarrow> MergeState" where
  "mergeShared content ls st a b =
     (let aFirst = repStartLine a \<le> repStartLine b;
          lo = (if aFirst then a else b);
          hi = (if aFirst then b else a)
      in if repEndLine lo \<noteq> repStartLine hi \<or> repStartLine lo = repEndLine lo
            \<or> repStartLine hi = repEndLine hi then st
         else let line = repEndLine lo; txt = trim (lineText content ls line) in
         if txt = [] then st
         else let loHas = txt \<in> set (bodyLines (repBody lo));
                  hiHas = txt \<in> set (bodyLines (repBody hi)) in
         if loHas = hiHas then st
         else let keeper = (if loHas then lo else hi);
                  shrunk = (if loHas then hi else lo);
                  s = (if loHas then repStartLine shrunk + 1 else repStartLine shrunk);
                  e = (if loHas then repEndLine shrunk else repEndLine shrunk - 1) in
         (case textReplacement content [Whole s, Whole e] (repBody shrunk) of
            Inl err \<Rightarrow> st
          | Inr narrowed \<Rightarrow>
              st\<lparr>rows := (rows st)[rowIndex shrunk := (rows st ! rowIndex shrunk)
                    \<lparr>repStart := repStart narrowed, repEnd := repEnd narrowed,
                     repStartLine := repStartLine narrowed, repEndLine := repEndLine narrowed,
                     rowMarker := [Whole s, Whole e]\<rparr>],
                 merges := merges st @ [SharedEndpoint (rowIndex shrunk) line txt (rowMarker shrunk)
                                          (s, e) (rowIndex keeper)]\<rparr>))"

definition mergePair :: "jsstr \<Rightarrow> TextLine list \<Rightarrow> MergeState \<Rightarrow> nat \<times> nat \<Rightarrow> MergeState" where
  "mergePair content ls st ij =
     (case ij of (i, j) \<Rightarrow>
      if i \<in> set (dropped st) \<or> j \<in> set (dropped st) then st
      else let a = rows st ! i; b = rows st ! j in
      if repStart a = repStart b \<and> repEnd a = repEnd b \<and> shape (repBody a) = shape (repBody b)
      then st\<lparr>dropped := dropped st @ [j],
              merges := merges st @ [DuplicateOf j i (repBody a \<noteq> repBody b)]\<rparr>
      else if isInsertion a \<and> isInsertion b \<and> repStart a = repStart b
      then st\<lparr>merges := merges st @ [SameInsertionPoint j i]\<rparr>
      else if isInsertion a \<or> isInsertion b \<or> 2 < length (rowMarker a) \<or> 2 < length (rowMarker b)
      then st
      else if containsLines a b then mergeContained content ls st a b
      else if containsLines b a then mergeContained content ls st b a
      else mergeShared content ls st a b)"

text \<open>\<open>for (i) for (j = i + 1; ...)\<close>.\<close>

definition pairsBelow :: "nat \<Rightarrow> (nat \<times> nat) list" where
  "pairsBelow n = concat (map (\<lambda>i. map (\<lambda>j. (i, j)) [Suc i..<n]) [0..<n])"

definition mergeAll :: "jsstr \<Rightarrow> EditRow list \<Rightarrow> MergeState" where
  "mergeAll content rs =
     foldl (mergePair content (logicalLines content))
       \<lparr>rows = rs, merges = [], dropped = []\<rparr> (pairsBelow (length rs))"

definition liveRows :: "MergeState \<Rightarrow> EditRow list" where
  "liveRows st = filter (\<lambda>r. rowIndex r \<notin> set (dropped st)) (rows st)"

section \<open>Conflicts\<close>

definition overlaps :: "EditRow \<Rightarrow> EditRow \<Rightarrow> bool" where
  "overlaps a b \<longleftrightarrow>
     (if isInsertion a \<and> isInsertion b then False
      else if isInsertion a then repStart b < repStart a \<and> repStart a < repEnd b
      else if isInsertion b then repStart a < repStart b \<and> repStart b < repEnd a
      else repStart a < repEnd b \<and> repStart b < repEnd a)"

definition conflictOf :: "jsstr \<Rightarrow> EditRow \<Rightarrow> EditRow \<Rightarrow> Conflict" where
  "conflictOf content a b =
     (let aFirst = repStartLine a \<le> repStartLine b;
          lo = (if aFirst then a else b);
          hi = (if aFirst then b else a);
          sharedEndpoint = (\<not> isInsertion a \<and> \<not> isInsertion b \<and> repEndLine lo = repStartLine hi
            \<and> repStartLine lo \<noteq> repEndLine lo \<and> repStartLine hi \<noteq> repEndLine hi)
      in \<lparr>conflictRegions = (rowMarker a, rowMarker b),
          conflictRelation =
            (if repStart a = repStart b \<and> repEnd a = repEnd b then DuplicateRegions
             else if sharedEndpoint then SharedEndpointRegions
             else if repStart a \<le> repStart b \<and> repEnd b \<le> repEnd a
                  \<or> repStart b \<le> repStart a \<and> repEnd a \<le> repEnd b then OneContainsOther
             else OverlappingRegions),
          conflictLine =
            (if sharedEndpoint
             then Some (repEndLine lo, lineText content (logicalLines content) (repEndLine lo))
             else None)\<rparr>)"

definition conflictPairs :: "EditRow list \<Rightarrow> (nat \<times> nat) list" where
  "conflictPairs live = filter (\<lambda>(i, j). overlaps (live ! i) (live ! j)) (pairsBelow (length live))"

definition cleanRegions :: "EditRow list \<Rightarrow> marks list" where
  "cleanRegions live =
     map (\<lambda>i. rowMarker (live ! i))
       (filter (\<lambda>i. i \<notin> fst ` set (conflictPairs live) \<and> i \<notin> snd ` set (conflictPairs live))
          [0..<length live])"

section \<open>Applying\<close>

text \<open>\<open>b.start - a.start || b.end - a.end || b.index - a.index\<close> is at most 0.\<close>

definition lastFirst :: "EditRow \<Rightarrow> EditRow \<Rightarrow> bool" where
  "lastFirst a b \<longleftrightarrow> repStart b < repStart a
     \<or> repStart b = repStart a \<and> (repEnd b < repEnd a
         \<or> repEnd b = repEnd a \<and> rowIndex b \<le> rowIndex a)"

definition applyRow :: "jsstr \<Rightarrow> EditRow \<Rightarrow> jsstr" where
  "applyRow s r = splice s (repStart r) (repEnd r) (repBody r)"

definition applyRows :: "jsstr \<Rightarrow> EditRow list \<Rightarrow> jsstr" where
  "applyRows content live = foldl applyRow content (sortBy lastFirst live)"

definition lineMarkerEditBatch :: "jsstr \<Rightarrow> BatchEdit list \<Rightarrow> EditFailure + EditResult" where
  "lineMarkerEditBatch content edits =
     (case resolveEdits content 0 edits of
        Inl failure \<Rightarrow> Inl (UnresolvedEdit failure)
      | Inr rs \<Rightarrow>
          if 1 < length rs \<and> list_ex (coversWhole content) rs
          then Inl (WholeResourceConflict (length rs))
          else let st = mergeAll content rs; live = liveRows st; cs = conflictPairs live in
          if cs \<noteq> []
          then Inl (OverlappingEdits (map (\<lambda>(i, j). conflictOf content (live ! i) (live ! j)) cs)
                      (cleanRegions live) (length rs))
          else Inr \<lparr>editedText = applyRows content live,
                    editNormalizations = List.map_filter normalization live,
                    editMerges = merges st,
                    editApplied = (if merges st = [] then None
                       else Some (map (\<lambda>r. \<lparr>editMarker = rowMarker r, editBody = repBody r\<rparr>) live))\<rparr>)"

definition lineMarkerEdit :: "jsstr \<Rightarrow> marks \<Rightarrow> jsstr \<Rightarrow> EditFailure + EditResult" where
  "lineMarkerEdit content m body = lineMarkerEditBatch content [\<lparr>editMarker = m, editBody = body\<rparr>]"

section \<open>The abstract contract: all spans at once\<close>

fun simultaneous :: "jsstr \<Rightarrow> nat \<Rightarrow> EditRow list \<Rightarrow> jsstr" where
  "simultaneous s pos [] = drop pos s"
| "simultaneous s pos (r # rs) = jsSlice s pos (repStart r) @ repBody r @ simultaneous s (repEnd r) rs"

text \<open>Rows in ascending order whose spans do not overlap.\<close>

fun ascending :: "jsstr \<Rightarrow> nat \<Rightarrow> EditRow list \<Rightarrow> bool" where
  "ascending s pos [] \<longleftrightarrow> pos \<le> length s"
| "ascending s pos (r # rs) \<longleftrightarrow> pos \<le> repStart r \<and> repStart r \<le> repEnd r \<and> ascending s (repEnd r) rs"

lemma ascending_length: "ascending s pos rs \<Longrightarrow> pos \<le> length s"
  by (induction s pos rs rule: ascending.induct) auto

lemma foldl_rev_simultaneous:
  "ascending s pos rs \<Longrightarrow> foldl applyRow s (rev rs) = take pos s @ simultaneous s pos rs"
proof (induction rs arbitrary: pos)
  case (Cons r rs)
  then have pos: "pos \<le> repStart r" "repStart r \<le> repEnd r" and asc: "ascending s (repEnd r) rs"
    by auto
  have le: "repEnd r \<le> length s" using ascending_length [OF asc] .
  have "foldl applyRow s (rev (r # rs)) = applyRow (take (repEnd r) s @ simultaneous s (repEnd r) rs) r"
    using Cons.IH [OF asc] by simp
  also have "\<dots> = take (repStart r) s @ repBody r @ simultaneous s (repEnd r) rs"
    using pos le by (simp add: applyRow_def splice_def slice_zero min_def)
  also have "take (repStart r) s = take pos s @ jsSlice s pos (repStart r)"
    using take_append_slice [OF pos(1), of s] by simp
  finally show ?case by simp
qed simp

section \<open>Sorting and overlap\<close>

interpretation lastFirst: comparison lastFirst
  by unfold_locales (auto simp: lastFirst_def)

definition spanOk :: "jsstr \<Rightarrow> EditRow \<Rightarrow> bool" where
  "spanOk content r \<longleftrightarrow> repStart r \<le> repEnd r \<and> repEnd r \<le> length content"

lemma overlaps_sym: "overlaps a b \<longleftrightarrow> overlaps b a"
  by (auto simp: overlaps_def)

lemma apart_in_order:
  assumes "lastFirst y x" "\<not> overlaps x y" "repStart x \<le> repEnd x" "repStart y \<le> repEnd y"
  shows "repEnd x \<le> repStart y"
  using assms by (auto simp: lastFirst_def overlaps_def isInsertion_def split: if_splits)

lemma ascending_of_sorted:
  assumes "sorted_wrt (\<lambda>x y. lastFirst y x \<and> \<not> overlaps x y) rs" "\<forall>r \<in> set rs. spanOk content r"
    "\<forall>r \<in> set rs. pos \<le> repStart r" "pos \<le> length content"
  shows "ascending content pos rs"
  using assms
proof (induction rs arbitrary: pos)
  case (Cons r rs)
  have "ascending content (repEnd r) rs"
    using Cons.prems by (intro Cons.IH) (auto simp: spanOk_def intro: apart_in_order)
  then show ?case using Cons.prems by (auto simp: spanOk_def)
qed simp

lemma pairsBelow_set: "set (pairsBelow n) = {(i, j). i < j \<and> j < n}"
  by (auto simp: pairsBelow_def image_iff)

lemma no_conflicts:
  assumes "conflictPairs live = []" "distinct live" "x \<in> set live" "y \<in> set live" "x \<noteq> y"
  shows "\<not> overlaps x y"
proof -
  from assms obtain i j where ij: "i < length live" "j < length live" "live ! i = x" "live ! j = y" "i \<noteq> j"
    by (auto simp: in_set_conv_nth)
  have none: "\<not> overlaps (live ! k) (live ! m)" if "k < m" "m < length live" for k m
    using assms(1) that pairsBelow_set [of "length live"]
    by (auto simp: conflictPairs_def filter_empty_conv)
  show ?thesis
    using none [of i j] none [of j i] ij overlaps_sym by (cases "i < j") auto
qed

lemma sorted_wrt_strengthen:
  assumes "sorted_wrt P xs" "distinct xs" "\<And>x y. x \<in> set xs \<Longrightarrow> y \<in> set xs \<Longrightarrow> x \<noteq> y \<Longrightarrow> Q x y"
  shows "sorted_wrt (\<lambda>x y. P x y \<and> Q x y) xs"
  using assms by (induction xs) auto

lemma applyRows_simultaneous:
  assumes "conflictPairs live = []" "distinct live" "\<forall>r \<in> set live. spanOk content r"
  shows "applyRows content live = simultaneous content 0 (rev (sortBy lastFirst live))
     \<and> ascending content 0 (rev (sortBy lastFirst live))"
proof -
  let ?up = "rev (sortBy lastFirst live)"
  have "sorted_wrt (\<lambda>x y. lastFirst y x) ?up"
    using lastFirst.sorted_sortBy [of live] by (simp add: sorted_wrt_rev)
  then have "sorted_wrt (\<lambda>x y. lastFirst y x \<and> \<not> overlaps x y) ?up"
    by (rule sorted_wrt_strengthen) (use assms no_conflicts in auto)
  then have asc: "ascending content 0 ?up"
    using assms(3) by (intro ascending_of_sorted) auto
  have "applyRows content live = foldl applyRow content (rev ?up)"
    by (simp add: applyRows_def)
  with foldl_rev_simultaneous [OF asc] asc show ?thesis by simp
qed

section \<open>Rows stay well-formed while pairs are resolved\<close>

text \<open>Row \<open>i\<close> has index \<open>i\<close> and a span inside the content.\<close>

definition rowsOk :: "jsstr \<Rightarrow> EditRow list \<Rightarrow> bool" where
  "rowsOk content rs \<longleftrightarrow> (\<forall>i < length rs. rowIndex (rs ! i) = i \<and> spanOk content (rs ! i))"

lemma rowsOk_update:
  assumes "rowsOk content rs" "rowIndex r = i" "spanOk content r"
  shows "rowsOk content (rs[i := r])"
  unfolding rowsOk_def
proof (intro allI impI)
  fix k assume "k < length (rs[i := r])"
  then show "rowIndex (rs[i := r] ! k) = k \<and> spanOk content (rs[i := r] ! k)"
    using assms by (cases "k = i") (auto simp: rowsOk_def)
qed

lemma mergeContained_ok:
  assumes "rowsOk content (rows st)" "rowIndex outer < length (rows st)"
  shows "rowsOk content (rows (mergeContained content ls st outer inner))"
    "length (rows (mergeContained content ls st outer inner)) = length (rows st)"
  using assms
  by (auto simp: mergeContained_def Let_def spanOk_def rowsOk_def nth_list_update split: list.splits)

lemma mergeShared_ok:
  assumes "rowsOk content (rows st)"
    "rowIndex a < length (rows st)" "rowIndex b < length (rows st)"
  shows "rowsOk content (rows (mergeShared content ls st a b))"
    "length (rows (mergeShared content ls st a b)) = length (rows st)"
proof -
  have keep: "rowsOk content ((rows st)[k := (rows st ! k)\<lparr>repStart := repStart n, repEnd := repEnd n,
      repStartLine := x, repEndLine := y, rowMarker := m\<rparr>])"
    if "textReplacement content ms body = Inr n" "k < length (rows st)" for k n x y m ms body
    using that textReplacement_bounds [OF that(1)] assms(1)
    by (intro rowsOk_update) (auto simp: rowsOk_def spanOk_def inBounds_def)
  show "rowsOk content (rows (mergeShared content ls st a b))"
    using assms keep by (simp add: mergeShared_def Let_def split: sum.split)
  show "length (rows (mergeShared content ls st a b)) = length (rows st)"
    by (simp add: mergeShared_def Let_def split: sum.split)
qed

lemma mergePair_ok:
  assumes "rowsOk content (rows st)" "i < length (rows st)" "j < length (rows st)"
  shows "rowsOk content (rows (mergePair content ls st (i, j)))
     \<and> length (rows (mergePair content ls st (i, j))) = length (rows st)"
proof -
  have idx: "rowIndex (rows st ! i) = i" "rowIndex (rows st ! j) = j"
    using assms by (auto simp: rowsOk_def)
  note ok = mergeContained_ok [OF assms(1)] mergeShared_ok [OF assms(1)]
  show ?thesis
    unfolding mergePair_def prod.case Let_def
    using assms ok idx by (simp split: if_split)
qed

lemma foldl_mergePair_ok:
  assumes "rowsOk content (rows st)" "\<forall>(i, j) \<in> set ps. i < length (rows st) \<and> j < length (rows st)"
  shows "rowsOk content (rows (foldl (mergePair content ls) st ps))
     \<and> length (rows (foldl (mergePair content ls) st ps)) = length (rows st)"
  using assms
proof (induction ps arbitrary: st)
  case (Cons p ps)
  obtain i j where p: "p = (i, j)" by (cases p)
  have "rowsOk content (rows (mergePair content ls st p))"
    "length (rows (mergePair content ls st p)) = length (rows st)"
    using mergePair_ok [OF Cons.prems(1), of i j ls] Cons.prems(2) p by auto
  with Cons.IH [of "mergePair content ls st p"] Cons.prems(2) show ?case by auto
qed simp

lemma mergeAll_ok: "rowsOk content rs \<Longrightarrow> rowsOk content (rows (mergeAll content rs))"
  using foldl_mergePair_ok [of content "\<lparr>rows = rs, merges = [], dropped = []\<rparr>"
      "pairsBelow (length rs)" "logicalLines content"]
  by (auto simp: mergeAll_def pairsBelow_set)

lemma rowsOk_distinct: "rowsOk content rs \<Longrightarrow> distinct rs"
  by (auto simp: rowsOk_def distinct_conv_nth) metis

lemma liveRows_ok:
  assumes "rowsOk content (rows st)"
  shows "distinct (liveRows st)" "\<forall>r \<in> set (liveRows st). spanOk content r"
  using rowsOk_distinct [OF assms] assms
  by (auto simp: liveRows_def rowsOk_def in_set_conv_nth)

lemma resolveEdits_rows:
  "resolveEdits content i edits = Inr rs \<Longrightarrow>
     length rs = length edits \<and> (\<forall>k < length rs. rowIndex (rs ! k) = i + k \<and> spanOk content (rs ! k)
       \<and> textReplacement content (editMarker (edits ! k)) (editBody (edits ! k))
            = Inr (TextReplacement.truncate (rs ! k))
       \<and> rowMarker (rs ! k) = editMarker (edits ! k))"
proof (induction edits arbitrary: i rs)
  case (Cons e es)
  then obtain r rs' where r: "textReplacement content (editMarker e) (editBody e) = Inr r"
    "resolveEdits content (Suc i) es = Inr rs'" "rs = mkRow r (editMarker e) i # rs'"
    by (auto split: sum.splits)
  have "spanOk content (mkRow r (editMarker e) i)"
    using textReplacement_bounds [OF r(1)] by (simp add: spanOk_def inBounds_def mkRow_def)
  with Cons.IH [OF r(2)] r show ?case
    by (auto simp: nth_Cons mkRow_def TextReplacement.truncate_def split: nat.splits)
qed simp

lemma resolveEdits_ok: "resolveEdits content 0 edits = Inr rs \<Longrightarrow> rowsOk content rs"
  using resolveEdits_rows [of content 0 edits rs] by (auto simp: rowsOk_def)


section \<open>Rows that no rule concerns\<close>

text \<open>
  Two rows are apart when text lies between their spans and, where both are whole-line regions,
  their lines do not meet.
\<close>

definition apart :: "EditRow \<Rightarrow> EditRow \<Rightarrow> bool" where
  "apart a b \<longleftrightarrow>
     (repEnd a < repStart b \<or> repEnd b < repStart a)
     \<and> (isInsertion a \<or> isInsertion b \<or> 2 < length (rowMarker a) \<or> 2 < length (rowMarker b)
        \<or> repStartLine a \<le> repEndLine a \<and> repStartLine b \<le> repEndLine b
          \<and> (repEndLine a < repStartLine b \<or> repEndLine b < repStartLine a))"

lemma mergeShared_apart:
  assumes "repStartLine a \<le> repEndLine a" "repStartLine b \<le> repEndLine b"
    "repEndLine a < repStartLine b \<or> repEndLine b < repStartLine a"
  shows "mergeShared content ls st a b = st"
proof -
  have "repEndLine (if repStartLine a \<le> repStartLine b then a else b)
      \<noteq> repStartLine (if repStartLine a \<le> repStartLine b then b else a)" using assms by auto
  then show ?thesis by (simp only: mergeShared_def Let_def simp_thms if_True)
qed

lemma mergePair_apart:
  assumes "apart (rows st ! i) (rows st ! j)"
    "repStart (rows st ! i) \<le> repEnd (rows st ! i)" "repStart (rows st ! j) \<le> repEnd (rows st ! j)"
  shows "mergePair content ls st (i, j) = st"
proof -
  let ?a = "rows st ! i" and ?b = "rows st ! j"
  have spans: "\<not> (repStart ?a = repStart ?b \<and> repEnd ?a = repEnd ?b \<and> shape (repBody ?a) = shape (repBody ?b))"
    "\<not> (isInsertion ?a \<and> isInsertion ?b \<and> repStart ?a = repStart ?b)"
    using assms by (auto simp: apart_def isInsertion_def)
  show ?thesis
  proof (cases "isInsertion ?a \<or> isInsertion ?b \<or> 2 < length (rowMarker ?a) \<or> 2 < length (rowMarker ?b)")
    case True
    then show ?thesis by (simp only: mergePair_def prod.case Let_def spans if_False if_True if_cancel)
  next
    case False
    then have lines: "repStartLine ?a \<le> repEndLine ?a" "repStartLine ?b \<le> repEndLine ?b"
      "repEndLine ?a < repStartLine ?b \<or> repEndLine ?b < repStartLine ?a"
      using assms(1) by (auto simp: apart_def)
    then have "\<not> containsLines ?a ?b" "\<not> containsLines ?b ?a" by (auto simp: containsLines_def)
    then show ?thesis
      by (simp only: mergePair_def prod.case Let_def spans False mergeShared_apart [OF lines]
          if_False if_cancel)
  qed
qed

lemma foldl_fixed: "(\<And>p. p \<in> set ps \<Longrightarrow> f st p = st) \<Longrightarrow> foldl f st ps = st"
  by (induction ps) auto

lemma mergeAll_apart:
  assumes "\<And>i j. i < j \<Longrightarrow> j < length rs \<Longrightarrow> apart (rs ! i) (rs ! j)" "rowsOk content rs"
  shows "mergeAll content rs = \<lparr>rows = rs, merges = [], dropped = []\<rparr>"
  unfolding mergeAll_def
proof (rule foldl_fixed)
  fix p assume "p \<in> set (pairsBelow (length rs))"
  then obtain i j where p: "p = (i, j)" "i < j" "j < length rs" by (auto simp: pairsBelow_set)
  then show "mergePair content (logicalLines content) \<lparr>rows = rs, merges = [], dropped = []\<rparr> p
      = \<lparr>rows = rs, merges = [], dropped = []\<rparr>"
    using assms by (simp add: mergePair_apart rowsOk_def spanOk_def)
qed

lemma apart_no_conflict:
  assumes "\<And>i j. i < j \<Longrightarrow> j < length rs \<Longrightarrow> apart (rs ! i) (rs ! j)" "rowsOk content rs"
  shows "conflictPairs rs = []"
proof -
  have "\<not> overlaps (rs ! i) (rs ! j)" if "i < j" "j < length rs" for i j
  proof -
    have "apart (rs ! i) (rs ! j)" using assms(1) that by blast
    moreover have "spanOk content (rs ! i)" "spanOk content (rs ! j)"
      using assms(2) that by (auto simp: rowsOk_def)
    ultimately show ?thesis by (auto simp: apart_def overlaps_def isInsertion_def spanOk_def)
  qed
  then show ?thesis by (auto simp: conflictPairs_def filter_empty_conv pairsBelow_set)
qed

lemma apart_not_whole:
  assumes "\<And>i j. i < j \<Longrightarrow> j < length rs \<Longrightarrow> apart (rs ! i) (rs ! j)" "rowsOk content rs" "1 < length rs"
  shows "\<not> list_ex (coversWhole content) rs"
proof
  assume "list_ex (coversWhole content) rs"
  then obtain i where i: "i < length rs" "coversWhole content (rs ! i)" by (auto simp: list_ex_length)
  define j where "j = (if i = 0 then 1 else 0 :: nat)"
  have j: "j < length rs" "i < j \<or> j < i" using assms(3) by (auto simp: j_def)
  then have "apart (rs ! i) (rs ! j) \<or> apart (rs ! j) (rs ! i)" using assms(1) i(1) by blast
  moreover have "spanOk content (rs ! j)" using assms(2) j by (auto simp: rowsOk_def)
  ultimately show False using i(2) by (auto simp: apart_def coversWhole_def spanOk_def)
qed

lemma liveRows_none_dropped: "dropped st = [] \<Longrightarrow> liveRows st = rows st"
  by (simp add: liveRows_def)

section \<open>Properties\<close>

lemma sortBy_mset: "mset (sortBy before xs) = mset xs"
proof -
  have "mset (insertBy before x ys) = add_mset x (mset ys)" for x ys
    by (induction ys) (auto simp: add_mset_commute)
  then show ?thesis by (induction xs) (simp_all add: sortBy_def)
qed

text \<open>Reading order, and the order of authorship for what happens at one place.\<close>

definition readingOrder :: "EditRow \<Rightarrow> EditRow \<Rightarrow> bool" where
  "readingOrder a b \<longleftrightarrow> repStart a \<le> repStart b
     \<and> (repStart a = repStart b \<and> repEnd a = repEnd b \<longrightarrow> rowIndex a \<le> rowIndex b)"

lemma sorted_readingOrder: "sorted_wrt readingOrder (rev (sortBy lastFirst rs))"
proof -
  have "sorted_wrt (\<lambda>x y. lastFirst y x) (rev (sortBy lastFirst rs))"
    using lastFirst.sorted_sortBy [of rs] by (simp add: sorted_wrt_rev)
  then show ?thesis by (rule sorted_wrt_mono_rel [rotated]) (auto simp: lastFirst_def readingOrder_def)
qed

text \<open>What an accepted batch did, on the rows it applied.\<close>

lemma batch_applied:
  assumes "lineMarkerEditBatch content edits = Inr res"
  obtains rs where "resolveEdits content 0 edits = Inr rs" "editMerges res = merges (mergeAll content rs)"
    "editedText res = simultaneous content 0 (rev (sortBy lastFirst (liveRows (mergeAll content rs))))"
    "ascending content 0 (rev (sortBy lastFirst (liveRows (mergeAll content rs))))"
proof -
  from assms obtain rs where rs: "resolveEdits content 0 edits = Inr rs"
    by (auto simp: lineMarkerEditBatch_def split: sum.splits)
  let ?live = "liveRows (mergeAll content rs)"
  have none: "conflictPairs ?live = []" and res: "editedText res = applyRows content ?live"
    "editMerges res = merges (mergeAll content rs)"
    using assms rs by (auto simp: lineMarkerEditBatch_def Let_def split: if_splits)
  note ok = liveRows_ok [OF mergeAll_ok [OF resolveEdits_ok [OF rs]]]
  note a = applyRows_simultaneous [OF none ok]
  show thesis by (rule that [OF rs res(2) _ conjunct2 [OF a]]) (rule trans [OF res(1) conjunct1 [OF a]])
qed

text \<open>A rule that changes anything says so.\<close>

definition silentOr :: "MergeState \<Rightarrow> MergeState \<Rightarrow> bool" where
  "silentOr st st' \<longleftrightarrow> st' = st \<or> (\<exists>m. merges st' = merges st @ [m])"

lemma silentOr_simps: "silentOr st st" "merges st' = merges st @ [m] \<Longrightarrow> silentOr st st'"
  by (auto simp: silentOr_def)

lemma mergeContained_silent: "silentOr st (mergeContained content ls st outer inner)"
  by (auto simp: mergeContained_def Let_def silentOr_def split: list.splits)

lemma mergeShared_silent: "silentOr st (mergeShared content ls st a b)"
  by (simp add: mergeShared_def Let_def silentOr_def split: sum.split)

lemma mergePair_silent: "silentOr st (mergePair content ls st (i, j))"
  unfolding mergePair_def prod.case Let_def
  by (simp add: mergeContained_silent mergeShared_silent silentOr_simps)

lemma foldl_mergePair_silent:
  "merges (foldl (mergePair content ls) st ps) = merges st \<Longrightarrow> foldl (mergePair content ls) st ps = st"
proof -
  have step: "mergePair content ls st p = st \<or> (\<exists>m. merges (mergePair content ls st p) = merges st @ [m])" for st p
    using mergePair_silent [of st content ls "fst p" "snd p"] by (simp add: silentOr_def)
  have grows: "\<exists>ms. merges (foldl (mergePair content ls) st ps) = merges st @ ms" for st ps
  proof (induction ps arbitrary: st)
    case (Cons p ps)
    then show ?case using step [of st p] by (metis append.assoc foldl_Cons)
  qed simp
  show "merges (foldl (mergePair content ls) st ps) = merges st \<Longrightarrow> foldl (mergePair content ls) st ps = st"
  proof (induction ps arbitrary: st)
    case (Cons p ps)
    have "mergePair content ls st p = st"
    proof (rule ccontr)
      assume "mergePair content ls st p \<noteq> st"
      then obtain m where "merges (mergePair content ls st p) = merges st @ [m]" using step by blast
      then show False using grows [of "mergePair content ls st p" ps] Cons.prems by auto
    qed
    then show ?case using Cons by simp
  qed simp
qed

lemma mergeAll_silent: "merges (mergeAll content rs) = [] \<Longrightarrow> liveRows (mergeAll content rs) = rs"
  using foldl_mergePair_silent [of content "logicalLines content" "\<lparr>rows = rs, merges = [], dropped = []\<rparr>" "pairsBelow (length rs)"]
  by (simp add: mergeAll_def liveRows_def)

text \<open>C4. An accepted batch of edits is one simultaneous replacement in the original text: the loop
  that rewrites the string from its last span up produces exactly the text in which every live
  span is replaced by its body and everything between the spans is kept. The live spans, each
  once and in reading order, are inside the text and do not overlap, and insertions at one point
  land in the order they were authored.\<close>

theorem editBatch_simultaneous:
  assumes "lineMarkerEditBatch content edits = Inr res"
  shows "\<exists>rs up. resolveEdits content 0 edits = Inr rs
     \<and> mset up = mset (liveRows (mergeAll content rs)) \<and> sorted_wrt readingOrder up
     \<and> editedText res = simultaneous content 0 up \<and> ascending content 0 up"
proof -
  from batch_applied [OF assms] obtain rs where rs: "resolveEdits content 0 edits = Inr rs"
    "editedText res = simultaneous content 0 (rev (sortBy lastFirst (liveRows (mergeAll content rs))))"
    "ascending content 0 (rev (sortBy lastFirst (liveRows (mergeAll content rs))))" by blast
  then show ?thesis
    using sorted_readingOrder [of "liveRows (mergeAll content rs)"] sortBy_mset [of lastFirst "liveRows (mergeAll content rs)"]
    by (metis mset_rev)
qed

text \<open>Lines 1 and 3 of four are replaced in one batch, authored last line first.\<close>

theorem editBatch_simultaneous_witness:
  "\<exists>res rs up. lineMarkerEditBatch [97, 10, 98, 10, 99, 10, 100]
       [\<lparr>editMarker = [Whole 3], editBody = [120]\<rparr>, \<lparr>editMarker = [Whole 1], editBody = [121]\<rparr>] = Inr res
     \<and> resolveEdits [97, 10, 98, 10, 99, 10, 100] 0
       [\<lparr>editMarker = [Whole 3], editBody = [120]\<rparr>, \<lparr>editMarker = [Whole 1], editBody = [121]\<rparr>] = Inr rs
     \<and> editedText res = [121, 10, 98, 10, 120, 10, 100]
     \<and> editedText res = simultaneous [97, 10, 98, 10, 99, 10, 100] 0 up"
proof -
  let ?c = "[97, 10, 98, 10, 99, 10, 100] :: jsstr"
  let ?es = "[\<lparr>editMarker = [Whole 3], editBody = [120]\<rparr>, \<lparr>editMarker = [Whole 1], editBody = [121]\<rparr>]"
  have e: "lineMarkerEditBatch ?c ?es = Inr \<lparr>editedText = [121, 10, 98, 10, 120, 10, 100],
      editNormalizations = [], editMerges = [], editApplied = None\<rparr>" by code_simp
  from editBatch_simultaneous [OF e] e show ?thesis by auto
qed

text \<open>C5. Edits that do not touch one another all land: when their spans have text between them
  (and whole-line regions share no line), the batch succeeds, no resolution is reported, and the
  result replaces every authored span, in whatever order the edits were authored.\<close>

theorem editBatch_disjoint:
  assumes "resolveEdits content 0 edits = Inr rs"
    "\<forall>j < length rs. \<forall>i < j. apart (rs ! i) (rs ! j)"
  shows "\<exists>res. lineMarkerEditBatch content edits = Inr res \<and> editMerges res = []
     \<and> editedText res = simultaneous content 0 (rev (sortBy lastFirst rs))"
proof -
  note ok = resolveEdits_ok [OF assms(1)]
  have ap: "apart (rs ! i) (rs ! j)" if "i < j" "j < length rs" for i j using assms(2) that by blast
  have st: "mergeAll content rs = \<lparr>rows = rs, merges = [], dropped = []\<rparr>"
    by (rule mergeAll_apart [OF ap ok])
  have none: "conflictPairs rs = []" by (rule apart_no_conflict [OF ap ok])
  have whole: "\<not> (1 < length rs \<and> list_ex (coversWhole content) rs)"
    using apart_not_whole [OF ap ok] by blast
  have "\<forall>r \<in> set rs. spanOk content r" using ok by (auto simp: rowsOk_def in_set_conv_nth)
  then have "applyRows content rs = simultaneous content 0 (rev (sortBy lastFirst rs))"
    using applyRows_simultaneous [OF none rowsOk_distinct [OF ok]] by blast
  then show ?thesis
    using assms(1) whole none
    by (simp add: lineMarkerEditBatch_def st liveRows_none_dropped Let_def)
qed

theorem editBatch_disjoint_witness:
  "\<exists>rs res. resolveEdits [97, 10, 98, 10, 99] 0
       [\<lparr>editMarker = [Whole 3], editBody = []\<rparr>, \<lparr>editMarker = [Whole 1], editBody = [121]\<rparr>] = Inr rs
     \<and> lineMarkerEditBatch [97, 10, 98, 10, 99]
       [\<lparr>editMarker = [Whole 3], editBody = []\<rparr>, \<lparr>editMarker = [Whole 1], editBody = [121]\<rparr>] = Inr res
     \<and> editMerges res = []"
proof -
  let ?c = "[97, 10, 98, 10, 99] :: jsstr"
  let ?es = "[\<lparr>editMarker = [Whole 3], editBody = []\<rparr>, \<lparr>editMarker = [Whole 1], editBody = [121]\<rparr>]"
  let ?rs = "[\<lparr>repStart = 4, repEnd = 5, repBody = [], repStartLine = 3, repEndLine = 3,
      normalization = None, rowMarker = [Whole 3], rowIndex = 0\<rparr>,
    \<lparr>repStart = 0, repEnd = 2, repBody = [121, 10], repStartLine = 1, repEndLine = 1,
      normalization = None, rowMarker = [Whole 1], rowIndex = 1\<rparr>]"
  have rs: "resolveEdits ?c 0 ?es = Inr ?rs" by code_simp
  have "\<forall>j < length ?rs. \<forall>i < j. apart (?rs ! i) (?rs ! j)"
    by (auto simp: apart_def less_Suc_eq)
  from editBatch_disjoint [OF rs this] rs show ?thesis by blast
qed

text \<open>An identical twin is applied once: submitting the same edit twice gives the text of
  submitting it alone and reports the second as a duplicate of the first; only a replacement of
  the whole resource, which must stand alone, is refused.\<close>

lemma editBatch_twin:
  assumes "lineMarkerEdit content m body = Inr res"
  shows "\<exists>r. textReplacement content m body = Inr r
     \<and> (if coversWhole content (mkRow r m 0)
        then lineMarkerEditBatch content [\<lparr>editMarker = m, editBody = body\<rparr>, \<lparr>editMarker = m, editBody = body\<rparr>]
               = Inl (WholeResourceConflict 2)
        else \<exists>res'. lineMarkerEditBatch content
                 [\<lparr>editMarker = m, editBody = body\<rparr>, \<lparr>editMarker = m, editBody = body\<rparr>] = Inr res'
               \<and> editedText res' = editedText res \<and> editMerges res' = [DuplicateOf 1 0 False])"
proof -
  from assms obtain r where r: "textReplacement content m body = Inr r"
    by (auto simp: lineMarkerEdit_def lineMarkerEditBatch_def split: sum.splits)
  let ?e = "\<lparr>editMarker = m, editBody = body\<rparr>"
  have rs1: "resolveEdits content 0 [?e] = Inr [mkRow r m 0]" using r by simp
  have rs2: "resolveEdits content 0 [?e, ?e] = Inr [mkRow r m 0, mkRow r m (Suc 0)]" using r by simp
  have p: "pairsBelow (Suc 0) = []" "pairsBelow (Suc (Suc 0)) = [(0, 1)]" by code_simp+
  have st1: "mergeAll content [mkRow r m 0] = \<lparr>rows = [mkRow r m 0], merges = [], dropped = []\<rparr>"
    by (simp add: mergeAll_def p)
  have st2: "mergeAll content [mkRow r m 0, mkRow r m (Suc 0)]
      = \<lparr>rows = [mkRow r m 0, mkRow r m (Suc 0)], merges = [DuplicateOf (Suc 0) 0 False], dropped = [Suc 0]\<rparr>"
    by (simp add: mergeAll_def p mergePair_def mkRow_def Let_def)
  have live: "liveRows \<lparr>rows = [mkRow r m 0, mkRow r m (Suc 0)], merges = [DuplicateOf (Suc 0) 0 False], dropped = [Suc 0]\<rparr>
      = [mkRow r m 0]" by (simp add: liveRows_def mkRow_def)
  have none: "conflictPairs [mkRow r m 0] = []" by (simp add: conflictPairs_def p)
  have one: "editedText res = applyRows content [mkRow r m 0]"
    using assms rs1 by (simp add: lineMarkerEdit_def lineMarkerEditBatch_def st1 liveRows_none_dropped none
        Let_def del: resolveEdits.simps) auto
  have same: "coversWhole content (mkRow r m (Suc 0)) = coversWhole content (mkRow r m 0)"
    by (simp add: coversWhole_def isInsertion_def mkRow_def)
  show ?thesis
    using r one same
    by (auto simp: lineMarkerEditBatch_def rs2 st2 live none Let_def simp del: resolveEdits.simps)
qed

lemma editBatch_twin_witness:
  "\<exists>res'. lineMarkerEditBatch [97, 10, 98]
       [\<lparr>editMarker = [Whole (-1)], editBody = [120]\<rparr>, \<lparr>editMarker = [Whole (-1)], editBody = [120]\<rparr>] = Inr res'
     \<and> editedText res' = [97, 10, 98, 10, 120]"
proof -
  have one: "lineMarkerEdit [97, 10, 98] [Whole (-1)] [120]
     = Inr \<lparr>editedText = [97, 10, 98, 10, 120], editNormalizations = [], editMerges = [],
            editApplied = None\<rparr>" by code_simp
  have r: "textReplacement [97, 10, 98] [Whole (-1)] [120]
     = Inr \<lparr>repStart = 3, repEnd = 3, repBody = [10, 120], repStartLine = 2, repEndLine = 2,
            normalization = None\<rparr>" by code_simp
  from editBatch_twin [OF one] r show ?thesis
    by (auto simp: coversWhole_def isInsertion_def mkRow_def)
qed

end
