(* ===== verification/TextRows.thy ===== *)
theory TextRows
  imports TextCoordinates
begin

text \<open>
  Texts put together from rows: a row is a body without a terminator and the terminator (none
  only for the last). The scanner reads the rows back, and every text is the text of its rows;
  renderings and receipts that decorate each line of a text are built on this.
\<close>

text \<open>The lines of a text put together from rows, each a body and a terminator.\<close>

fun layout :: "nat \<Rightarrow> (jsstr \<times> jsstr) list \<Rightarrow> TextLine list" where
  "layout a [] = []"
| "layout a ((b, s) # rs) = mkLine a (a + length b) s # layout (a + length b + length s) rs"

fun rowsWell :: "(jsstr \<times> jsstr) list \<Rightarrow> bool" where
  "rowsWell [] \<longleftrightarrow> True"
| "rowsWell [(b, s)] \<longleftrightarrow> b \<noteq> [] \<and> newlineFree b \<and> s \<in> {[], [CR, LF], [CR], [LF]}"
| "rowsWell ((b, s) # r # rs) \<longleftrightarrow>
     b \<noteq> [] \<and> newlineFree b \<and> s \<in> {[CR, LF], [CR], [LF]} \<and> rowsWell (r # rs)"

definition rowsText :: "(jsstr \<times> jsstr) list \<Rightarrow> jsstr" where
  "rowsText rs = concat (map (\<lambda>(b, s). b @ s) rs)"

lemma rowsText_simps [simp]:
  "rowsText [] = []" "rowsText ((b, s) # rs) = b @ s @ rowsText rs"
  by (simp_all add: rowsText_def)

lemma scanFrom_body:
  "newlineFree m \<Longrightarrow> scanFrom start index (m @ t) = scanFrom start (index + length m) t"
proof (induction m arbitrary: index)
  case (Cons c m)
  then have c: "\<not> isNewline c" "newlineFree m" by auto
  have "c \<noteq> CR" using c by auto
  then have "scanFrom start index (c # (m @ t)) = scanFrom start (index + 1) (m @ t)"
    using c by (cases "m @ t") auto
  then show ?case using Cons.IH [OF c(2), of "index + 1"] by simp
qed simp

lemma rowsText_head:
  "rowsWell rs \<Longrightarrow> rs \<noteq> [] \<Longrightarrow> \<exists>c cs. rowsText rs = c # cs \<and> c \<noteq> LF"
proof (cases rs)
  case (Cons r rs')
  assume "rowsWell rs"
  moreover obtain b s where r: "r = (b, s)" by (cases r)
  ultimately have b: "b \<noteq> []" "newlineFree b" using Cons by (cases rs'; simp)+
  then obtain c cs where "b = c # cs" "\<not> isNewline c" by (cases b) auto
  then show ?thesis using Cons r by auto
qed simp

lemma scanFrom_separator:
  assumes "s \<in> {[CR, LF], [CR], [LF]}" "t = [] \<or> (\<exists>c cs. t = c # cs \<and> c \<noteq> LF)"
  shows "scanFrom start index (s @ t)
    = mkLine start index s # scanFrom (index + length s) (index + length s) t"
  using assms by (cases t) auto

lemma scanFrom_layout:
  "rowsWell rs \<Longrightarrow> rs \<noteq> [] \<Longrightarrow>
   scanFrom a a (rowsText rs)
     = layout a rs @ (if snd (last rs) = [] then []
                      else [mkLine (a + length (rowsText rs)) (a + length (rowsText rs)) []])"
proof (induction rs arbitrary: a rule: rowsWell.induct)
  case (2 b s)
  then have ok: "newlineFree b" "s = [] \<or> s \<in> {[CR, LF], [CR], [LF]}" by auto
  show ?case
  proof (cases "s = []")
    case True
    then show ?thesis using scanFrom_body [OF ok(1), of a a "[]"] by (simp add: mkLine_def)
  next
    case False
    then have "s \<in> {[CR, LF], [CR], [LF]}" using ok by simp
    from scanFrom_separator [OF this, of "[]" a "a + length b"] show ?thesis
      using scanFrom_body [OF ok(1), of a a s] False by (simp add: add.assoc)
  qed
next
  case (3 b s r rs)
  then have ok: "newlineFree b" "s \<in> {[CR, LF], [CR], [LF]}" "rowsWell (r # rs)" by auto
  from scanFrom_separator [OF ok(2), of "rowsText (r # rs)" a "a + length b"] rowsText_head [OF ok(3)]
  have "scanFrom a (a + length b) (s @ rowsText (r # rs))
      = mkLine a (a + length b) s
        # scanFrom (a + length b + length s) (a + length b + length s) (rowsText (r # rs))" by auto
  moreover have "scanFrom a a (rowsText ((b, s) # r # rs))
      = scanFrom a (a + length b) (s @ rowsText (r # rs))"
    using scanFrom_body [OF ok(1), of a a "s @ rowsText (r # rs)"] by simp
  moreover have "last ((b, s) # r # rs) = last (r # rs)" by simp
  ultimately show ?case
    using "3.IH" [OF ok(3), of "a + length b + length s"]
    by (cases r) (simp add: add.assoc)
qed auto

lemma layout_starts: "l \<in> set (layout a rs) \<Longrightarrow> rowsWell rs \<Longrightarrow> lineStart l < a + length (rowsText rs)"
proof (induction rs arbitrary: a rule: rowsWell.induct)
  case (3 b s r rs)
  have "rowsWell (r # rs)" "b \<noteq> []" using "3.prems" by auto
  from "3.IH" [OF _ this(1), of "a + length b + length s"] this(2) "3.prems"(1)
  show ?case by (cases r) (auto simp: mkLine_def)
qed (auto simp: mkLine_def)

lemma logicalLines_layout:
  assumes "rowsWell rs" "rs \<noteq> []"
  shows "logicalLines (rowsText rs) = layout 0 rs"
proof -
  let ?n = "length (rowsText rs)"
  have full: "rowsText rs \<noteq> []" using rowsText_head [OF assms] by auto
  have ne: "layout 0 rs \<noteq> []" using assms(2) by (cases rs) auto
  have last: "lineStart (last (layout 0 rs)) \<noteq> ?n"
    using layout_starts [OF last_in_set [OF ne] assms(1)] by simp
  have scan: "scanLines (rowsText rs)
      = layout 0 rs @ (if snd (last rs) = [] then [] else [mkLine ?n ?n []])"
    using scanFrom_layout [OF assms, of 0] by (simp add: scanLines_def)
  show ?thesis
  proof (cases "snd (last rs) = []")
    case True
    then show ?thesis using full last scan by (simp add: logicalLines_def Let_def)
  next
    case False
    then have "scanLines (rowsText rs) = layout 0 rs @ [mkLine ?n ?n []]" using scan by simp
    moreover have "1 < length (layout 0 rs @ [mkLine ?n ?n []])" using ne by (cases "layout 0 rs") auto
    moreover have "lineStart (mkLine ?n ?n []) = ?n" by (simp add: mkLine_def)
    ultimately show ?thesis using full by (simp add: logicalLines_def Let_def)
  qed
qed

text \<open>The rows of a text: its logical lines, put back together, are the text.\<close>

definition rowsOf :: "jsstr \<Rightarrow> (jsstr \<times> jsstr) list" where
  "rowsOf content = map (\<lambda>l. (lineBody content l, separator l)) (logicalLines content)"

lemma length_rowsOf [simp]: "length (rowsOf content) = length (logicalLines content)"
  by (simp add: rowsOf_def)

lemma logicalLines_split:
  assumes "content \<noteq> []"
  obtains "logicalLines content = scanLines content"
    | l where "scanLines content = logicalLines content @ [l]" "lineStart l = length content"
        "logicalLines content \<noteq> []"
proof (cases "1 < length (scanLines content) \<and> lineStart (last (scanLines content)) = length content")
  case True
  then have lines: "logicalLines content = butlast (scanLines content)"
    using assms by (simp add: logicalLines_def Let_def)
  have "scanLines content = logicalLines content @ [last (scanLines content)]"
    using True lines by simp
  moreover have "logicalLines content \<noteq> []"
    unfolding lines using True by (cases "scanLines content") auto
  ultimately show ?thesis using True that(2) by blast
next
  case False
  then show ?thesis using assms that(1) by (auto simp: logicalLines_def Let_def)
qed

lemma logicalLines_nonempty: "content \<noteq> [] \<Longrightarrow> logicalLines content \<noteq> []"
  by (rule logicalLines_split [of content]) auto

lemma rowsText_rowsOf: "rowsText (rowsOf content) = content"
proof (cases "content = []")
  case True
  then show ?thesis by (simp add: rowsOf_def logicalLines_def)
next
  case False
  have rows: "rowsText (rowsOf content)
      = concat (map (\<lambda>l. lineBody content l @ separator l) (logicalLines content))"
    by (simp add: rowsText_def rowsOf_def comp_def)
  show ?thesis
  proof (rule logicalLines_split [OF False])
    assume "logicalLines content = scanLines content"
    then show ?thesis using rows scanLines_concat [of content] by simp
  next
    fix l
    assume l: "scanLines content = logicalLines content @ [l]" "lineStart l = length content"
    have "separator l = []" using tiles_last [OF scanLines_tiles [of content]] l(1) by simp
    moreover have "lineBody content l = []" using l(2) by (simp add: lineBody_def jsSlice_def)
    ultimately show ?thesis using rows scanLines_concat [of content] l(1) by simp
  qed
qed

lemma rowsOf_nth:
  assumes "i < length (logicalLines content)"
  shows "newlineFree (fst (rowsOf content ! i))"
    "snd (rowsOf content ! i) \<in> {[], [CR, LF], [CR], [LF]}"
    "Suc i < length (logicalLines content) \<Longrightarrow> snd (rowsOf content ! i) \<in> {[CR, LF], [CR], [LF]}"
proof -
  have ne: "content \<noteq> []" using assms by (auto simp: logicalLines_def)
  have prefix: "length (logicalLines content) \<le> length (scanLines content)
    \<and> (\<forall>j < length (logicalLines content). logicalLines content ! j = scanLines content ! j)"
    by (rule logicalLines_split [OF ne]) (auto simp: nth_append)
  then have i: "logicalLines content ! i = scanLines content ! i" "i < length (scanLines content)"
    using assms by auto
  note step = tiles_step [OF scanLines_tiles [of content]]
  show "newlineFree (fst (rowsOf content ! i))"
    using line_bounds(4) [OF i(2) refl] i(1) assms by (simp add: rowsOf_def)
  show "Suc i < length (logicalLines content) \<Longrightarrow> snd (rowsOf content ! i) \<in> {[CR, LF], [CR], [LF]}"
    using step [of i] prefix i(1) assms by (simp add: rowsOf_def)
  show "snd (rowsOf content ! i) \<in> {[], [CR, LF], [CR], [LF]}"
  proof (cases "Suc i < length (scanLines content)")
    case True
    then show ?thesis using step [OF True] i(1) assms by (simp add: rowsOf_def)
  next
    case False
    then have "length (scanLines content) - 1 = i" using i(2) by arith
    then have "scanLines content ! i = last (scanLines content)"
      using last_conv_nth [of "scanLines content"] by simp
    then show ?thesis
      using tiles_last [OF scanLines_tiles [of content]] i(1) assms by (simp add: rowsOf_def)
  qed
qed

lemma rowsWellI:
  assumes "\<And>i. i < length rs \<Longrightarrow> fst (rs ! i) \<noteq> [] \<and> newlineFree (fst (rs ! i))
      \<and> snd (rs ! i) \<in> {[], [CR, LF], [CR], [LF]}"
    "\<And>i. Suc i < length rs \<Longrightarrow> snd (rs ! i) \<in> {[CR, LF], [CR], [LF]}"
  shows "rowsWell rs"
  using assms
proof (induction rs rule: rowsWell.induct)
  case (2 b s)
  then show ?case by force
next
  case (3 b s r rs)
  have "rowsWell (r # rs)"
  proof (rule "3.IH")
    show "fst ((r # rs) ! i) \<noteq> [] \<and> newlineFree (fst ((r # rs) ! i))
      \<and> snd ((r # rs) ! i) \<in> {[], [CR, LF], [CR], [LF]}" if "i < length (r # rs)" for i
      using "3.prems"(1) [of "Suc i"] that by simp
    show "snd ((r # rs) ! i) \<in> {[CR, LF], [CR], [LF]}" if "Suc i < length (r # rs)" for i
      using "3.prems"(2) [of "Suc i"] that by simp
  qed
  then show ?case using "3.prems"(1) [of 0] "3.prems"(2) [of 0] by simp
qed simp

lemma layout_slices:
  "map (\<lambda>l. (lineBody (pre @ rowsText rs) l, separator l)) (layout (length pre) rs) = rs"
proof (induction rs arbitrary: pre)
  case (Cons r rs)
  obtain b s where r: "r = (b, s)" by (cases r)
  show ?case
    using Cons.IH [of "pre @ b @ s"]
    by (simp add: r mkLine_def lineBody_def jsSlice_def add.assoc)
qed simp

lemma rowsOf_rowsText: "rowsWell rs \<Longrightarrow> rs \<noteq> [] \<Longrightarrow> rowsOf (rowsText rs) = rs"
  using layout_slices [of "[]" rs] by (simp add: rowsOf_def logicalLines_layout)

end
