(* ===== verification/LineAnchors.thy ===== *)
theory LineAnchors
  imports TextRows
begin

text \<open>
  \<^verbatim>\<open>plurnk-core/src/content/line-anchors.ts\<close>: the short handles (\<open>@\<close> and five base-62 digits)
  under which a reading publishes its lines, the numbered rows it renders, the resolution of a
  marker whose marks name lines by anchor, and the check that the anchors still name the lines
  they named.

  SHA-256 over \<open>JSON.stringify\<close> is node's: it is the parameter \<open>digest\<close>, a function from the
  digested value to the hexadecimal text. The configured number of context lines
  (\<open>PLURNK_SERVICE_LINE_ANCHOR_CONTEXT_LINES\<close>, not negative) is the parameter \<open>contextLines\<close>.
  The numeral of an offset mark is read exactly; the source reads it as a double, which is the
  same up to 2^53.

  The lemmas show that an encoding is always an anchor, that two digests share one only when
  they agree modulo 62^5, that every line gets an anchor and widening stops only when all are
  distinct or the whole text is in view, that a rendering can be undone, that resolution binds an
  anchor to the one line that carries it and refuses otherwise, and that the checks a resolution
  leaves behind hold of the content it was resolved against.
\<close>

section \<open>Values that are digested\<close>

datatype Json = JText jsstr | JNum int | JNull | JArray "Json list"

type_synonym digester = "Json \<Rightarrow> jsstr"

datatype AnchorError =
    UnresolvedCrossed
  | PreconditionIncomplete
  | InvalidCheck
  | IdentityRequired
  | OutsideLines int
  | StartLineInvalid int
  | BeyondRepresentation
  | AnchorsMisaligned
  | EmptyWithAnchors
  | WidthInsufficient int
  | SuppliedInvalid nat
  | LeftUnresolved
  | ArityChanged
  | NotLowered

section \<open>Tokens\<close>

definition AT :: jschar where "AT = 64"
definition LESS :: jschar where "LESS = 60"
definition GREATER :: jschar where "GREATER = 62"
definition PLUS :: jschar where "PLUS = 43"
definition MINUS :: jschar where "MINUS = 45"

definition ALPHABET :: jsstr where
  "ALPHABET = map of_nat ([48..<58] @ [65..<91] @ [97..<123])"

definition ANCHOR_LENGTH :: nat where "ANCHOR_LENGTH = 5"

definition MODULUS :: int where "MODULUS = int (length ALPHABET) ^ ANCHOR_LENGTH"

definition MAX_LINE_NUMBER_WIDTH :: nat where
  "MAX_LINE_NUMBER_WIDTH = length (decimal (nat MAX_SAFE_INTEGER))"

definition alphanumeric :: "jschar \<Rightarrow> bool" where
  "alphanumeric c \<longleftrightarrow> 48 \<le> c \<and> c \<le> 57 \<or> 65 \<le> c \<and> c \<le> 90 \<or> 97 \<le> c \<and> c \<le> 122"

text \<open>\<open>/^@[0-9A-Za-z]{5}$/\<close>.\<close>

definition isAnchor :: "jsstr \<Rightarrow> bool" where
  "isAnchor s \<longleftrightarrow> length s = 6 \<and> hd s = AT \<and> list_all alphanumeric (tl s)"

text \<open>\<open>/^ *[1-9]\d*<@[0-9A-Za-z]{5}>/\<close>: the classes are disjoint, so matching never backtracks.\<close>

definition isAnchoredLine :: "jsstr \<Rightarrow> bool" where
  "isAnchoredLine s \<longleftrightarrow>
     (let r = dropWhile (\<lambda>c. c = SPACE) s
      in r \<noteq> [] \<and> 49 \<le> hd r \<and> hd r \<le> 57
         \<and> (let d = dropWhile isDigit (tl r)
            in 8 \<le> length d \<and> hd d = LESS \<and> isAnchor (jsSlice d 1 7) \<and> d ! 7 = GREATER))"

definition isLineNumberWidth :: "int \<Rightarrow> bool" where
  "isLineNumberWidth w \<longleftrightarrow> safeInt w \<and> 1 \<le> w \<and> w \<le> int MAX_LINE_NUMBER_WIDTH"

text \<open>\<open>/^(@[0-9A-Za-z]{5})([+-][0-9]+)?$/\<close>, the anchor and the offset.\<close>

definition markParts :: "jsstr \<Rightarrow> (jsstr \<times> int) option" where
  "markParts mark =
     (if \<not> isAnchor (take 6 mark) then None
      else case drop 6 mark of
        [] \<Rightarrow> Some (take 6 mark, 0)
      | sign # ds \<Rightarrow>
          if ds \<noteq> [] \<and> list_all isDigit ds \<and> (sign = PLUS \<or> sign = MINUS)
          then Some (take 6 mark, (if sign = PLUS then 1 else - 1) * digitsValue ds)
          else None)"

text \<open>\<open>BigInt("0x" + digest)\<close> and the base-62 digits of the remainder, most significant first.\<close>

definition hexDigit :: "jschar \<Rightarrow> int" where
  "hexDigit c = (if isDigit c then uint c - 48
                 else if 97 \<le> c \<and> c \<le> 102 then uint c - 87 else uint c - 55)"

definition hexValue :: "jsstr \<Rightarrow> int" where
  "hexValue h = foldl (\<lambda>v c. 16 * v + hexDigit c) 0 h"

primrec encodeDigits :: "nat \<Rightarrow> int \<Rightarrow> jsstr \<Rightarrow> jsstr" where
  "encodeDigits 0 v encoded = encoded"
| "encodeDigits (Suc k) v encoded =
     encodeDigits k (v div int (length ALPHABET))
       (ALPHABET ! nat (v mod int (length ALPHABET)) # encoded)"

definition encode :: "jsstr \<Rightarrow> jsstr" where
  "encode h = AT # encodeDigits ANCHOR_LENGTH (hexValue h mod MODULUS) []"

definition repeated :: "jsstr list \<Rightarrow> nat list" where
  "repeated anchors = indicesWhere (\<lambda>a. 1 < count_list anchors a) anchors"

definition bodiesJson :: "jsstr list \<Rightarrow> Json" where
  "bodiesJson bodies = JArray (map JText bodies)"

definition tagV2 :: jsstr where
  "tagV2 = js ''plurnk-line-anchor-v2''"

definition tagContextV1 :: jsstr where
  "tagContextV1 = js ''plurnk-line-anchor-context-v1''"

definition bodiesOf :: "jsstr \<Rightarrow> jsstr list" where
  "bodiesOf content = map (lineBody content) (logicalLines content)"

text \<open>The first anchors: each line with its configured context.\<close>

definition contextAnchor :: "digester \<Rightarrow> nat \<Rightarrow> jsstr \<Rightarrow> jsstr list \<Rightarrow> nat \<Rightarrow> jsstr" where
  "contextAnchor digest contextLines identity bodies index =
     (let start = index - contextLines
      in encode (digest (JArray [JText tagV2, JText identity, JNum (int contextLines),
           JNum (int (index - start)), bodiesJson (jsSlice bodies start (index + contextLines + 1))])))"

record Widening =
  leftPrints :: "jsstr list"
  rightPrints :: "jsstr list"
  wideRadius :: nat
  wideAnchors :: "jsstr list"
  wideRepeated :: "nat list"

text \<open>One pass of the loop: the fingerprints double their reach, the repeated lines are renamed.\<close>

definition printAt :: "jsstr option \<Rightarrow> Json" where
  "printAt p = (case p of None \<Rightarrow> JNull | Some h \<Rightarrow> JText h)"

definition doubleLeft :: "digester \<Rightarrow> nat \<Rightarrow> jsstr list \<Rightarrow> jsstr list" where
  "doubleLeft digest radius left =
     map (\<lambda>index. digest (JArray [printAt (if radius \<le> index then atIndex left (index - radius) else None),
                                  JText (left ! index)])) [0..<length left]"

definition doubleRight :: "digester \<Rightarrow> nat \<Rightarrow> jsstr list \<Rightarrow> jsstr list" where
  "doubleRight digest radius right =
     map (\<lambda>index. digest (JArray [JText (right ! index), printAt (atIndex right (index + radius))]))
       [0..<length right]"

definition widenOnce :: "digester \<Rightarrow> nat \<Rightarrow> jsstr \<Rightarrow> jsstr list \<Rightarrow> Widening \<Rightarrow> Widening" where
  "widenOnce digest contextLines identity center w =
     (let r = wideRadius w;
          left = (if 0 < r then doubleLeft digest r (leftPrints w) else leftPrints w);
          right = (if 0 < r then doubleRight digest r (rightPrints w) else rightPrints w);
          radius = (if r = 0 then 1 else r * 2);
          anchors = foldl (\<lambda>as index. as[index :=
              encode (digest (JArray [JText tagContextV1, JText identity, JNum (int contextLines),
                JNum (int radius), JText (left ! index), JText (center ! index), JText (right ! index)]))])
            (wideAnchors w) (wideRepeated w)
      in \<lparr>leftPrints = left, rightPrints = right, wideRadius = radius, wideAnchors = anchors,
          wideRepeated = repeated anchors\<rparr>)"

function widen :: "digester \<Rightarrow> nat \<Rightarrow> jsstr \<Rightarrow> jsstr list \<Rightarrow> Widening \<Rightarrow> Widening" where
  "widen digest contextLines identity center w =
     (if wideRepeated w \<noteq> [] \<and> wideRadius w < length center - 1
      then widen digest contextLines identity center (widenOnce digest contextLines identity center w)
      else w)"
  by pat_completeness auto
termination
  by (relation "measure (\<lambda>(d, c, i, center, w). length center - 1 - wideRadius w)")
    (auto simp: widenOnce_def Let_def)

declare widen.simps [simp del]

definition disambiguate ::
  "digester \<Rightarrow> nat \<Rightarrow> jsstr \<Rightarrow> jsstr list \<Rightarrow> jsstr list \<Rightarrow> jsstr list" where
  "disambiguate digest contextLines identity bodies anchors =
     (if repeated anchors = [] \<or> int (length bodies) - 1 \<le> int contextLines then anchors
      else let leaf = max contextLines 1;
               center = map (\<lambda>body. digest (JText body)) bodies;
               left = map (\<lambda>index. digest (bodiesJson (jsSlice bodies (index - leaf) index)))
                        [0..<length bodies];
               right = map (\<lambda>index. digest (bodiesJson (jsSlice bodies (index + 1) (index + leaf + 1))))
                         [0..<length bodies]
           in wideAnchors (widen digest contextLines identity center
                \<lparr>leftPrints = left, rightPrints = right, wideRadius = contextLines,
                 wideAnchors = anchors, wideRepeated = repeated anchors\<rparr>))"

definition tokens :: "digester \<Rightarrow> nat \<Rightarrow> jsstr \<Rightarrow> jsstr \<Rightarrow> AnchorError + jsstr list" where
  "tokens digest contextLines identity content =
     (if identity = [] then Inl IdentityRequired
      else let bodies = bodiesOf content;
               anchors = map (contextAnchor digest contextLines identity bodies) [0..<length bodies]
           in Inr (disambiguate digest contextLines identity bodies anchors))"

definition token :: "digester \<Rightarrow> nat \<Rightarrow> jsstr \<Rightarrow> int \<Rightarrow> jsstr \<Rightarrow> AnchorError + jsstr" where
  "token digest contextLines identity lineNumber content =
     andThen (tokens digest contextLines identity content) (\<lambda>ts.
       case atLine ts lineNumber of None \<Rightarrow> Inl (OutsideLines lineNumber) | Some t \<Rightarrow> Inr t)"

definition lineNumberWidth :: "jsstr \<Rightarrow> nat" where
  "lineNumberWidth content = length (decimal (max (length (logicalLines content)) 1))"

section \<open>Projection and rendering\<close>

definition project ::
  "digester \<Rightarrow> nat \<Rightarrow> jsstr \<Rightarrow> jsstr \<Rightarrow> jsstr \<Rightarrow> int \<Rightarrow> AnchorError + jsstr list" where
  "project digest contextLines identity completeContent projectedContent firstLine =
     (if projectedContent = [] then Inr []
      else if \<not> safeInt firstLine \<or> firstLine < 1 then Inl (StartLineInvalid firstLine)
      else let count = length (logicalLines projectedContent) in
        andThen (tokens digest contextLines identity completeContent) (\<lambda>ts.
          let projected = jsSlice ts (nat (firstLine - 1)) (nat (firstLine - 1) + count)
          in if length projected \<noteq> count then Inl BeyondRepresentation else Inr projected))"

definition assertProjection :: "jsstr \<Rightarrow> jsstr list \<Rightarrow> AnchorError + unit" where
  "assertProjection content anchors =
     (if length anchors \<noteq> length (logicalLines content) \<or> \<not> list_all isAnchor anchors
      then Inl AnchorsMisaligned else Inr ())"

text \<open>A row: the number right-aligned, the anchor between angle brackets, the body, the terminator.\<close>

definition rowPrefix :: "nat \<Rightarrow> nat \<Rightarrow> jsstr \<Rightarrow> jsstr" where
  "rowPrefix width lineNumber anchor = padStart (decimal lineNumber) width @ [LESS] @ anchor @ [GREATER]"

definition render :: "jsstr \<Rightarrow> int \<Rightarrow> jsstr list \<Rightarrow> int \<Rightarrow> AnchorError + jsstr" where
  "render content firstLine anchors width =
     (if content = [] then (if anchors \<noteq> [] then Inl EmptyWithAnchors else Inr [])
      else if \<not> safeInt firstLine \<or> firstLine < 1 then Inl (StartLineInvalid firstLine)
      else andThen (assertProjection content anchors) (\<lambda>_.
        let lines = logicalLines content;
            finalLine = firstLine + int (length lines) - 1
        in if \<not> isLineNumberWidth width \<or> width < int (length (decimal (nat finalLine)))
           then Inl (WidthInsufficient finalLine)
           else Inr (concat (map (\<lambda>index.
             rowPrefix (nat width) (nat firstLine + index) (anchors ! index)
               @ lineBody content (lines ! index) @ separator (lines ! index)) [0..<length lines]))))"

section \<open>Markers whose marks may be anchors\<close>

datatype TextMark = NumberMark jsnum | AnchorMark jsstr

definition isNumberMark :: "TextMark \<Rightarrow> bool" where
  "isNumberMark m = (case m of NumberMark n \<Rightarrow> True | AnchorMark s \<Rightarrow> False)"

definition numericMarks :: "TextMark list \<Rightarrow> jsnum list" where
  "numericMarks ms = concat (map (\<lambda>m. case m of NumberMark n \<Rightarrow> [n] | AnchorMark s \<Rightarrow> []) ms)"

definition numeric :: "TextMark list \<Rightarrow> bool" where
  "numeric marks \<longleftrightarrow> 1 \<le> length marks \<and> list_all isNumberMark marks"

definition hasAnchor :: "TextMark list option \<Rightarrow> bool" where
  "hasAnchor marker =
     (case marker of None \<Rightarrow> False | Some marks \<Rightarrow> list_ex (\<lambda>m. \<not> isNumberMark m) marks)"

definition isResolvedMarker :: "TextMark list option \<Rightarrow> bool" where
  "isResolvedMarker marker =
     (case marker of None \<Rightarrow> True | Some marks \<Rightarrow> list_all isNumberMark marks)"

text \<open>The statement a scheme receives, by its marker: \<open>resolved\<close> and \<open>assertResolved\<close>.\<close>

definition resolved :: "TextMark list option \<Rightarrow> AnchorError + jsnum list option" where
  "resolved marker =
     (if isResolvedMarker marker then Inr (map_option numericMarks marker) else Inl UnresolvedCrossed)"

definition assertResolved :: "TextMark list option list \<Rightarrow> AnchorError + unit" where
  "assertResolved markers = (if list_ex hasAnchor markers then Inl UnresolvedCrossed else Inr ())"

datatype AnchorFailure =
    AnchorInvalid jsstr
  | AnchorMissing jsstr
  | AnchorAmbiguous jsstr "nat list"

datatype AnchorResolution = AnchorsResolved "jsnum list" | AnchorsRefused AnchorFailure

definition anchoredMarks :: "TextMark list \<Rightarrow> (nat \<times> jsstr) list" where
  "anchoredMarks marks =
     concat (map (\<lambda>(index, m). case m of NumberMark n \<Rightarrow> [] | AnchorMark s \<Rightarrow> [(index, s)])
       (enumerate 0 marks))"

text \<open>The positions of a scope that name a line rather than a column.\<close>

definition permitted :: "nat \<Rightarrow> nat list" where
  "permitted arity =
     (if arity = 1 then [0] else if arity = 2 then [0, 1]
      else if arity = 3 \<or> arity = 4 then [0, 2] else [])"

primrec recordMatches ::
  "nat \<Rightarrow> jsstr list \<Rightarrow> (jsstr \<rightharpoonup> nat list) \<Rightarrow> AnchorError + (jsstr \<rightharpoonup> nat list)" where
  "recordMatches index [] matches = Inr matches"
| "recordMatches index (a # as) matches =
     (if \<not> isAnchor a then Inl (SuppliedInvalid (index + 1))
      else recordMatches (Suc index) as
        (matches(a \<mapsto> (case matches a of None \<Rightarrow> [index + 1] | Some found \<Rightarrow> found @ [index + 1]))))"

text \<open>
  The loop over the anchored marks. \<open>None\<close> for the parts of a mark does not occur here: the marks
  were checked before.
\<close>

fun resolveMarks ::
  "(jsstr \<rightharpoonup> nat list) \<Rightarrow> (jsstr \<rightharpoonup> nat list) \<Rightarrow> (nat \<times> jsstr) list \<Rightarrow> TextMark list
     \<Rightarrow> AnchorFailure + TextMark list" where
  "resolveMarks retained matches [] marks = Inr marks"
| "resolveMarks retained matches ((index, mark) # rest) marks =
     (case markParts mark of
        None \<Rightarrow> Inl (AnchorInvalid mark)
      | Some (anchor, offset) \<Rightarrow>
          let found = (case retained anchor of Some carried \<Rightarrow> carried
                       | None \<Rightarrow> (case matches anchor of Some f \<Rightarrow> f | None \<Rightarrow> []))
          in if found = [] then Inl (AnchorMissing anchor)
             else if 1 < length found then Inl (AnchorAmbiguous anchor found)
             else if int (found ! 0) + offset < 1 then Inl (AnchorInvalid mark)
             else resolveMarks retained matches rest
                    (marks[index := NumberMark (Whole (int (found ! 0) + offset))]))"

definition resolve ::
  "jsstr list \<Rightarrow> TextMark list \<Rightarrow> (jsstr \<rightharpoonup> nat list) \<Rightarrow> AnchorError + AnchorResolution" where
  "resolve anchors marks retained =
     (if numeric marks then Inr (AnchorsResolved (numericMarks marks))
      else let anchored = anchoredMarks marks in
      case find (\<lambda>(index, mark). markParts mark = None \<or> index \<notin> set (permitted (length marks)))
             anchored of
        Some (index, mark) \<Rightarrow> Inr (AnchorsRefused (AnchorInvalid mark))
      | None \<Rightarrow>
          andThen (recordMatches 0 anchors (\<lambda>_. None)) (\<lambda>matches.
            case resolveMarks retained matches anchored marks of
              Inl failure \<Rightarrow> Inr (AnchorsRefused failure)
            | Inr out \<Rightarrow>
                if numeric out then Inr (AnchorsResolved (numericMarks out)) else Inl LeftUnresolved))"

section \<open>Preconditions\<close>

record AnchorCheck =
  checkAnchor :: jsstr
  checkLine :: jsnum

definition minusOffset :: "jsnum \<Rightarrow> int \<Rightarrow> jsnum" where
  "minusOffset x offset =
     (case x of Whole n \<Rightarrow> Whole (n - offset) | Fraction q \<Rightarrow> Fraction (q - of_int offset))"

fun checksFrom :: "TextMark list \<Rightarrow> jsnum list \<Rightarrow> AnchorError + AnchorCheck list" where
  "checksFrom (NumberMark n # ms) (r # rs) = checksFrom ms rs"
| "checksFrom (AnchorMark mark # ms) (r # rs) =
     (case markParts mark of
        None \<Rightarrow> Inl NotLowered
      | Some (anchor, offset) \<Rightarrow>
          andThen (checksFrom ms rs) (\<lambda>cs.
            Inr (\<lparr>checkAnchor = anchor, checkLine = minusOffset r offset\<rparr> # cs)))"
| "checksFrom ms rs = Inr []"

definition checks :: "TextMark list \<Rightarrow> jsnum list \<Rightarrow> AnchorError + AnchorCheck list" where
  "checks authored lowered =
     (if length authored \<noteq> length lowered then Inl ArityChanged else checksFrom authored lowered)"

text \<open>\<open>every\<close> stops at the first check that fails, so a later invalid check is not looked at.\<close>

primrec everyCheck :: "jsstr list \<Rightarrow> AnchorCheck list \<Rightarrow> AnchorError + bool" where
  "everyCheck current [] = Inr True"
| "everyCheck current (c # cs) =
     (if \<not> isAnchor (checkAnchor c) \<or> \<not> isSafeInteger (checkLine c) \<or> wholeOf (checkLine c) < 1
      then Inl InvalidCheck
      else if atLine current (wholeOf (checkLine c)) = Some (checkAnchor c) then everyCheck current cs
      else Inr False)"

definition satisfies ::
  "digester \<Rightarrow> nat \<Rightarrow> jsstr \<Rightarrow> AnchorCheck list \<Rightarrow> jsstr \<Rightarrow> AnchorError + bool" where
  "satisfies digest contextLines identity cs content =
     (if identity = [] \<or> cs = [] then Inl PreconditionIncomplete
      else andThen (tokens digest contextLines identity content) (\<lambda>current. everyCheck current cs))"

section \<open>Encoding\<close>

lemma length_ALPHABET [simp]: "length ALPHABET = 62"
  by (simp add: ALPHABET_def)

lemma MODULUS_value: "MODULUS = 62 ^ 5"
  by (simp add: MODULUS_def ANCHOR_LENGTH_def)

lemma MAX_LINE_NUMBER_WIDTH_code [code]: "MAX_LINE_NUMBER_WIDTH = 16"
  by (simp add: MAX_LINE_NUMBER_WIDTH_def MAX_SAFE_INTEGER_def decimal.simps)

lemma ALPHABET_alphanumeric: "list_all alphanumeric ALPHABET"
  by code_simp

lemma ALPHABET_distinct: "distinct ALPHABET"
  by code_simp

lemma encodeDigits_append: "encodeDigits k v acc = encodeDigits k v [] @ acc"
proof (induction k arbitrary: v acc)
  case (Suc k)
  show ?case
    by (simp add: Suc.IH [of _ "_ # _"])
qed simp

lemma length_encodeDigits: "length (encodeDigits k v acc) = k + length acc"
  by (induction k arbitrary: v acc) simp_all

lemma encodeDigits_alphanumeric:
  "list_all alphanumeric acc \<Longrightarrow> list_all alphanumeric (encodeDigits k v acc)"
proof (induction k arbitrary: v acc)
  case (Suc k)
  have "nat (v mod 62) < 62" by simp
  then have "alphanumeric (ALPHABET ! nat (v mod 62))"
    using ALPHABET_alphanumeric by (simp add: list_all_length)
  then show ?case using Suc by simp
qed simp

lemma encodeDigits_inject:
  "encodeDigits k v [] = encodeDigits k w [] \<Longrightarrow> 0 \<le> v \<Longrightarrow> v < 62 ^ k \<Longrightarrow> 0 \<le> w \<Longrightarrow> w < 62 ^ k
   \<Longrightarrow> v = w"
proof (induction k arbitrary: v w)
  case (Suc k)
  have "encodeDigits k (v div 62) [] @ [ALPHABET ! nat (v mod 62)]
      = encodeDigits k (w div 62) [] @ [ALPHABET ! nat (w mod 62)]"
    using Suc.prems(1) by (simp add: encodeDigits_append [of k _ "[_]"])
  then have digits: "encodeDigits k (v div 62) [] = encodeDigits k (w div 62) []"
    and digit: "ALPHABET ! nat (v mod 62) = ALPHABET ! nat (w mod 62)" by auto
  have below: "x div 62 < m" if "x < 62 * m" for x m :: int using that by linarith
  have "v div 62 = w div 62"
    by (rule Suc.IH [OF digits]) (use Suc.prems in \<open>auto intro: below simp: pos_imp_zdiv_nonneg_iff\<close>)
  moreover have "nat (v mod 62) < 62" "nat (w mod 62) < 62" by auto
  then have "nat (v mod 62) = nat (w mod 62)"
    using digit nth_eq_iff_index_eq [OF ALPHABET_distinct, of "nat (v mod 62)" "nat (w mod 62)"] by simp
  then have "v mod 62 = w mod 62" by simp
  ultimately show ?case by (metis div_mult_mod_eq)
qed simp

lemma isAnchor_encode: "isAnchor (encode h)"
  using encodeDigits_alphanumeric [of "[]" ANCHOR_LENGTH "hexValue h mod MODULUS"]
  by (simp add: isAnchor_def encode_def length_encodeDigits ANCHOR_LENGTH_def)

lemma encode_eq_iff: "encode h = encode k \<longleftrightarrow> hexValue h mod MODULUS = hexValue k mod MODULUS"
proof
  assume "encode h = encode k"
  then have "encodeDigits 5 (hexValue h mod MODULUS) [] = encodeDigits 5 (hexValue k mod MODULUS) []"
    by (simp add: encode_def ANCHOR_LENGTH_def)
  then show "hexValue h mod MODULUS = hexValue k mod MODULUS"
    by (rule encodeDigits_inject) (simp_all add: MODULUS_value pos_mod_bound)
qed (simp add: encode_def)

section \<open>Widening\<close>

lemma repeated_Nil_iff: "repeated anchors = [] \<longleftrightarrow> distinct anchors"
proof -
  have "repeated anchors = [] \<longleftrightarrow> (\<forall>a \<in> set anchors. \<not> 1 < count_list anchors a)"
    by (auto simp: repeated_def indicesWhere_def filter_empty_conv in_set_conv_nth)
  also have "\<dots> \<longleftrightarrow> (\<forall>a \<in> set anchors. count_list anchors a = 1)"
    by (metis count_list_0_iff less_one linorder_neqE_nat)
  also have "\<dots> \<longleftrightarrow> distinct anchors"
  proof
    show "\<forall>a \<in> set anchors. count_list anchors a = 1 \<Longrightarrow> distinct anchors"
    proof (induction anchors)
      case (Cons b bs)
      then have b: "b \<notin> set bs" by (simp add: count_list_0_iff)
      have "count_list bs a = 1" if "a \<in> set bs" for a
      proof -
        have "a \<noteq> b" using that b by auto
        then show ?thesis using Cons.prems that by auto
      qed
      then show ?case using Cons.IH b by simp
    qed simp
    show "distinct anchors \<Longrightarrow> \<forall>a \<in> set anchors. count_list anchors a = 1"
    proof (induction anchors)
      case (Cons b bs)
      then show ?case by (auto simp: count_list_0_iff)
    qed simp
  qed
  finally show ?thesis .
qed

text \<open>What a pass and the loop keep: one anchor per line, and the record of the repeated ones.\<close>

definition widening :: "nat \<Rightarrow> Widening \<Rightarrow> bool" where
  "widening n w \<longleftrightarrow> length (wideAnchors w) = n \<and> list_all isAnchor (wideAnchors w)
     \<and> wideRepeated w = repeated (wideAnchors w)"

lemma renamed_anchors:
  "list_all isAnchor as \<Longrightarrow>
   length (foldl (\<lambda>as i. as[i := encode (f i)]) as is) = length as
   \<and> list_all isAnchor (foldl (\<lambda>as i. as[i := encode (f i)]) as is)"
proof (induction "is" arbitrary: as)
  case (Cons i ks)
  have "list_all isAnchor (as[i := encode (f i)])"
    using Cons.prems isAnchor_encode by (cases "i < length as") (auto simp: list_all_length nth_list_update)
  then show ?case using Cons.IH [of "as[i := encode (f i)]"] by simp
qed simp

lemma widenOnce_widening [invariant_rules]:
  "widening n w \<Longrightarrow> widening n (widenOnce digest contextLines identity center w)"
  using renamed_anchors [of "wideAnchors w"] by (simp add: widening_def widenOnce_def Let_def)

lemma widen_result:
  "widening n w \<Longrightarrow>
   widening n (widen digest contextLines identity center w)
   \<and> (distinct (wideAnchors (widen digest contextLines identity center w))
      \<or> length center - 1 \<le> wideRadius (widen digest contextLines identity center w))"
proof (induction digest contextLines identity center w rule: widen.induct)
  case (1 digest contextLines identity center w)
  show ?case
  proof (cases "wideRepeated w \<noteq> [] \<and> wideRadius w < length center - 1")
    case True
    then show ?thesis
      using "1.IH" [OF True widenOnce_widening [OF "1.prems"]]
      by (subst (1 2 3) widen.simps) (simp only: True if_True simp_thms)
  next
    case False
    then have "widen digest contextLines identity center w = w" by (subst widen.simps) (simp only: if_False)
    then show ?thesis using False "1.prems" by (auto simp: widening_def repeated_Nil_iff)
  qed
qed

lemma disambiguate_anchors:
  assumes "list_all isAnchor anchors"
  shows "length (disambiguate digest contextLines identity bodies anchors) = length anchors
    \<and> list_all isAnchor (disambiguate digest contextLines identity bodies anchors)"
proof -
  have "widening (length anchors) \<lparr>leftPrints = l, rightPrints = r, wideRadius = contextLines,
          wideAnchors = anchors, wideRepeated = repeated anchors\<rparr>" for l r
    using assms by (simp add: widening_def)
  from widen_result [OF this] show ?thesis
    using assms by (auto simp: disambiguate_def Let_def widening_def)
qed

lemma length_bodiesOf: "length (bodiesOf content) = lineCount content"
  by (simp add: bodiesOf_def lineCount_def)

lemma tokens_anchors:
  assumes "tokens digest contextLines identity content = Inr ts"
  shows "length ts = lineCount content" "list_all isAnchor ts" "identity \<noteq> []"
proof -
  let ?as = "map (contextAnchor digest contextLines identity (bodiesOf content)) [0..<lineCount content]"
  have "list_all isAnchor ?as" by (simp add: list_all_length contextAnchor_def isAnchor_encode Let_def)
  moreover have "ts = disambiguate digest contextLines identity (bodiesOf content) ?as" "identity \<noteq> []"
    using assms by (auto simp: tokens_def Let_def length_bodiesOf split: if_splits)
  ultimately show "length ts = lineCount content" "list_all isAnchor ts" "identity \<noteq> []"
    using disambiguate_anchors [of ?as] by auto
qed

section \<open>Rendering and taking the rendering apart\<close>

lemma length_decimal_mono: "m \<le> n \<Longrightarrow> length (decimal m) \<le> length (decimal n)"
proof (induction n arbitrary: m rule: decimal.induct)
  case (1 n)
  show ?case
  proof (cases "n < 10")
    case True
    then have "length (decimal m) = 1" using "1.prems" by (subst decimal.simps) simp
    then show ?thesis using True by (subst (2) decimal.simps) simp
  next
    case False
    have len: "length (decimal n) = Suc (length (decimal (n div 10)))"
      using False by (subst decimal.simps) simp
    show ?thesis
    proof (cases "m < 10")
      case True
      then have "length (decimal m) = 1" by (subst decimal.simps) simp
      then show ?thesis using len by simp
    next
      case m: False
      then have "length (decimal m) = Suc (length (decimal (m div 10)))" by (subst decimal.simps) simp
      moreover have "length (decimal (m div 10)) \<le> length (decimal (n div 10))"
        by (rule "1.IH" [OF False]) (rule div_le_mono [OF "1.prems"])
      ultimately show ?thesis using len by simp
    qed
  qed
qed

lemma alphanumeric_not_newline: "alphanumeric c \<Longrightarrow> \<not> isNewline c"
  by (auto simp: alphanumeric_def isNewline_def CR_def LF_def)

lemma isDigit_not_newline: "isDigit c \<Longrightarrow> \<not> isNewline c"
  by (auto simp: isDigit_def isNewline_def CR_def LF_def)

lemma isAnchor_newlineFree: "isAnchor a \<Longrightarrow> newlineFree a"
proof (cases a)
  case (Cons c cs)
  assume "isAnchor a"
  then have "c = AT" "\<forall>d \<in> set cs. alphanumeric d" using Cons by (auto simp: isAnchor_def list_all_iff)
  then show ?thesis
    using Cons alphanumeric_not_newline by (auto simp: newlineFree_def isNewline_def CR_def LF_def AT_def)
qed simp

lemma rowPrefix_newlineFree: "isAnchor a \<Longrightarrow> newlineFree (rowPrefix width n a)"
  using isAnchor_newlineFree [of a] decimal_digits [of n] isDigit_not_newline
  by (auto simp: rowPrefix_def padStart_def newlineFree_def isNewline_def CR_def LF_def SPACE_def
      LESS_def GREATER_def)

lemma length_rowPrefix:
  "isAnchor a \<Longrightarrow> length (decimal n) \<le> width \<Longrightarrow> length (rowPrefix width n a) = width + 8"
  by (simp add: rowPrefix_def length_padStart isAnchor_def)

lemma rowPrefix_anchor:
  "isAnchor a \<Longrightarrow> length (decimal n) \<le> width \<Longrightarrow>
   jsSlice (rowPrefix width n a @ body) (Suc width) (width + 7) = a"
  by (simp add: rowPrefix_def length_padStart isAnchor_def jsSlice_def)

lemma rowPrefix_isAnchoredLine:
  assumes "isAnchor a" "0 < n"
  shows "isAnchoredLine (rowPrefix width n a @ body)"
proof -
  obtain c cs where d: "decimal n = c # cs" by (cases "decimal n") auto
  have digits: "isDigit c" "\<forall>x \<in> set cs. isDigit x" using decimal_digits [of n] d by auto
  have c: "c \<noteq> SPACE" "49 \<le> c" "c \<le> 57"
    using digits(1) decimal_head [OF assms(2)] d
    by (auto simp: isDigit_def SPACE_def word_le_nat_alt word_unat_eq_iff)
  let ?tail = "LESS # a @ GREATER # body"
  have "dropWhile (\<lambda>c. c = SPACE) (rowPrefix width n a @ body) = c # cs @ ?tail"
    using c(1) d by (simp add: rowPrefix_def padStart_def dropWhile_append3)
  moreover have "dropWhile isDigit (cs @ ?tail) = ?tail"
    using digits(2) by (simp add: LESS_def isDigit_def)
  moreover have "length a = 6" "jsSlice ?tail 1 7 = a" "?tail ! 7 = GREATER"
    using assms(1) by (auto simp: isAnchor_def jsSlice_def nth_append)
  ultimately show ?thesis using assms(1) c by (simp add: isAnchoredLine_def)
qed

text \<open>What the reader of a rendering does: drop the gutter of every row, or read the anchors off it.\<close>

definition unrender :: "nat \<Rightarrow> jsstr \<Rightarrow> jsstr" where
  "unrender width rendering =
     concat (map (\<lambda>(b, s). drop (width + 8) b @ s) (rowsOf rendering))"

definition publishedAnchors :: "nat \<Rightarrow> jsstr \<Rightarrow> jsstr list" where
  "publishedAnchors width rendering =
     map (\<lambda>(b, s). jsSlice b (width + 1) (width + 7)) (rowsOf rendering)"

lemma render_rows:
  assumes "render content firstLine anchors width = Inr rendering" "content \<noteq> []"
  shows "length anchors = lineCount content" "list_all isAnchor anchors" "1 \<le> firstLine"
    "rowsOf rendering = map (\<lambda>i. (rowPrefix (nat width) (nat firstLine + i) (anchors ! i)
        @ fst (rowsOf content ! i), snd (rowsOf content ! i))) [0..<lineCount content]"
    "\<And>i. i < lineCount content \<Longrightarrow> length (decimal (nat firstLine + i)) \<le> nat width"
proof -
  let ?rows = "map (\<lambda>i. (rowPrefix (nat width) (nat firstLine + i) (anchors ! i)
        @ fst (rowsOf content ! i), snd (rowsOf content ! i))) [0..<lineCount content]"
  have parts: "length anchors = lineCount content" "list_all isAnchor anchors" "1 \<le> firstLine"
      "int (length (decimal (nat (firstLine + int (lineCount content) - 1)))) \<le> width"
    and full: "rendering = concat (map (\<lambda>index. rowPrefix (nat width) (nat firstLine + index)
        (anchors ! index) @ lineBody content (logicalLines content ! index)
        @ separator (logicalLines content ! index)) [0..<lineCount content])"
    using assms by (auto simp: render_def assertProjection_def andThen_Inr_iff Let_def lineCount_def
        split: if_splits)
  have rendering: "rendering = rowsText ?rows"
    unfolding full rowsText_def by (rule arg_cong [where f = concat]) (simp add: rowsOf_def lineCount_def)
  have anchor: "isAnchor (anchors ! i)" if "i < lineCount content" for i
    using that parts(1,2) by (simp add: list_all_length)
  have "rowsWell ?rows"
  proof (rule rowsWellI)
    show "fst (?rows ! i) \<noteq> [] \<and> newlineFree (fst (?rows ! i))
        \<and> snd (?rows ! i) \<in> {[], [CR, LF], [CR], [LF]}" if "i < length ?rows" for i
      using that rowsOf_nth(1,2) [of i content] rowPrefix_newlineFree [OF anchor, of i]
      by (simp add: lineCount_def rowPrefix_def)
    show "snd (?rows ! i) \<in> {[CR, LF], [CR], [LF]}" if "Suc i < length ?rows" for i
      using that rowsOf_nth(3) [of i content] by (simp add: lineCount_def)
  qed
  moreover have "?rows \<noteq> []" using logicalLines_nonempty [OF assms(2)] by (simp add: lineCount_def)
  ultimately show "rowsOf rendering = ?rows" unfolding rendering by (rule rowsOf_rowsText)
  show "length (decimal (nat firstLine + i)) \<le> nat width" if "i < lineCount content" for i
  proof -
    have "nat firstLine + i \<le> nat (firstLine + int (lineCount content) - 1)" using that parts(3) by linarith
    from length_decimal_mono [OF this] parts(4) show ?thesis by linarith
  qed
  show "length anchors = lineCount content" "list_all isAnchor anchors" "1 \<le> firstLine" by fact+
qed

section \<open>Resolution\<close>

text \<open>The lines, from one, whose published anchor is the given one.\<close>

primrec linesCarrying :: "nat \<Rightarrow> jsstr list \<Rightarrow> jsstr \<Rightarrow> nat list" where
  "linesCarrying k [] a = []"
| "linesCarrying k (b # bs) a = (if b = a then [k + 1] else []) @ linesCarrying (Suc k) bs a"

lemma linesCarrying_eq:
  "linesCarrying k bs a = map (\<lambda>i. k + i + 1) (filter (\<lambda>i. bs ! i = a) [0..<length bs])"
proof (induction bs arbitrary: k)
  case (Cons b bs)
  have "[0..<length (b # bs)] = 0 # map Suc [0..<length bs]"
    by (simp only: length_Cons map_Suc_upt upt_conv_Cons [of 0 "Suc _"] zero_less_Suc)
  then show ?case using Cons.IH [of "Suc k"] by (simp add: filter_map comp_def del: upt_Suc)
qed simp

lemma set_linesCarrying: "set (linesCarrying k bs a) = (\<lambda>i. k + i + 1) ` {i. i < length bs \<and> bs ! i = a}"
  by (auto simp: linesCarrying_eq)

lemma recordMatches_Inr:
  "recordMatches k bs m = Inr m' \<Longrightarrow>
   list_all isAnchor bs
   \<and> (case m' a of None \<Rightarrow> [] | Some f \<Rightarrow> f) = (case m a of None \<Rightarrow> [] | Some f \<Rightarrow> f) @ linesCarrying k bs a"
proof (induction bs arbitrary: k m)
  case (Cons b bs)
  then have b: "isAnchor b" by (auto split: if_splits)
  with Cons.prems have "recordMatches (Suc k) bs
      (m(b \<mapsto> (case m b of None \<Rightarrow> [k + 1] | Some found \<Rightarrow> found @ [k + 1]))) = Inr m'" by simp
  from Cons.IH [OF this] b show ?case by (auto split: option.splits if_splits)
qed simp

text \<open>The line a mark is bound to.\<close>

definition bindsTo :: "jsstr list \<Rightarrow> (jsstr \<rightharpoonup> nat list) \<Rightarrow> jsstr \<Rightarrow> nat \<Rightarrow> bool" where
  "bindsTo anchors retained anchor line \<longleftrightarrow>
     (case retained anchor of
        Some carried \<Rightarrow> carried = [line]
      | None \<Rightarrow> 1 \<le> line \<and> {i. i < length anchors \<and> anchors ! i = anchor} = {line - 1})"

definition lowersTo :: "jsstr list \<Rightarrow> (jsstr \<rightharpoonup> nat list) \<Rightarrow> jsstr \<Rightarrow> jsnum \<Rightarrow> bool" where
  "lowersTo anchors retained mark x \<longleftrightarrow>
     (\<exists>anchor offset line. markParts mark = Some (anchor, offset) \<and> bindsTo anchors retained anchor line
        \<and> x = Whole (int line + offset) \<and> 1 \<le> int line + offset)"

lemma linesCarrying_single:
  assumes "linesCarrying 0 anchors a = [line]"
  shows "1 \<le> line \<and> {i. i < length anchors \<and> anchors ! i = a} = {line - 1}"
proof -
  have s: "Suc ` {i. i < length anchors \<and> anchors ! i = a} = {line}"
    using set_linesCarrying [of 0 anchors a] assms by simp
  then obtain i where i: "line = Suc i" by blast
  then have "Suc ` {i. i < length anchors \<and> anchors ! i = a} = Suc ` {i}" using s by simp
  then have "{i. i < length anchors \<and> anchors ! i = a} = {i}" by (simp only: inj_image_eq_iff [OF inj_Suc])
  then show ?thesis using i by simp
qed

lemma resolveMarks_Inr:
  assumes "recordMatches 0 anchors (\<lambda>_. None) = Inr matches"
    "resolveMarks retained matches anchored marks = Inr out"
    "distinct (map fst anchored)" "\<And>i s. (i, s) \<in> set anchored \<Longrightarrow> i < length marks"
  shows "length out = length marks
    \<and> (\<forall>(i, s) \<in> set anchored. \<exists>x. out ! i = NumberMark x \<and> lowersTo anchors retained s x)
    \<and> (\<forall>i. i \<notin> fst ` set anchored \<longrightarrow> out ! i = marks ! i)"
  using assms(2-)
proof (induction anchored arbitrary: marks)
  case Nil
  then show ?case by simp
next
  case (Cons r rest)
  obtain i s where r: "r = (i, s)" by (cases r)
  obtain anchor offset where parts: "markParts s = Some (anchor, offset)"
    using Cons.prems(1) r by (auto split: option.splits)
  let ?found = "case retained anchor of Some carried \<Rightarrow> carried
    | None \<Rightarrow> (case matches anchor of Some f \<Rightarrow> f | None \<Rightarrow> [])"
  obtain line where line: "?found = [line]" "1 \<le> int line + offset"
    and rest: "resolveMarks retained matches rest
      (marks[i := NumberMark (Whole (int line + offset))]) = Inr out"
    using Cons.prems(1) r parts by (cases ?found) (auto simp: Let_def split: if_splits)
  have "linesCarrying 0 anchors anchor = (case matches anchor of Some f \<Rightarrow> f | None \<Rightarrow> [])"
    using recordMatches_Inr [OF assms(1), of anchor] by (simp split: option.splits)
  then have "bindsTo anchors retained anchor line"
    using line(1) linesCarrying_single [of anchors anchor line]
    by (cases "retained anchor") (auto simp: bindsTo_def)
  then have lowers: "lowersTo anchors retained s (Whole (int line + offset))"
    using parts line(2) by (auto simp: lowersTo_def)
  have dist: "distinct (map fst rest)" "i \<notin> fst ` set rest" using Cons.prems(2) r by auto
  have "j < length (marks[i := NumberMark (Whole (int line + offset))])" if "(j, t) \<in> set rest" for j t
    using Cons.prems(3) [of j t] that by simp
  note ih = Cons.IH [OF rest dist(1) this]
  have "i < length marks" using Cons.prems(3) [of i s] r by simp
  then show ?case
    using ih dist(2) r lowers by (auto simp: nth_list_update)
qed

lemma anchoredMarks_fst:
  "map fst (anchoredMarks marks) = map fst (filter (\<lambda>(i, m). \<not> isNumberMark m) (enumerate 0 marks))"
proof -
  have "map fst (concat (map (\<lambda>(index, m). case m of NumberMark n \<Rightarrow> [] | AnchorMark s \<Rightarrow> [(index, s)]) es))
      = map fst (filter (\<lambda>(i, m). \<not> isNumberMark m) es)" for es :: "(nat \<times> TextMark) list"
    by (induction es) (auto simp: isNumberMark_def split: TextMark.splits)
  then show ?thesis by (simp add: anchoredMarks_def)
qed

lemma anchoredMarks_index:
  "distinct (map fst (anchoredMarks marks))
   \<and> set (anchoredMarks marks) = {(i, s). i < length marks \<and> marks ! i = AnchorMark s}"
proof
  show "distinct (map fst (anchoredMarks marks))"
    unfolding anchoredMarks_fst by (rule distinct_map_filter) (simp add: map_fst_enumerate)
  have "(i, s) \<in> set (anchoredMarks marks) \<longleftrightarrow> (i, AnchorMark s) \<in> set (enumerate 0 marks)" for i s
    by (force simp: anchoredMarks_def split: TextMark.splits)
  then show "set (anchoredMarks marks) = {(i, s). i < length marks \<and> marks ! i = AnchorMark s}"
    by (auto simp: in_set_enumerate_eq)
qed

lemma set_numericMarks_nth:
  "list_all isNumberMark ms \<Longrightarrow> map NumberMark (numericMarks ms) = ms"
  by (induction ms) (auto simp: numericMarks_def isNumberMark_def split: TextMark.splits)

lemma resolve_lowers:
  assumes "resolve anchors marks retained = Inr (AnchorsResolved out)"
  shows "length out = length marks" "i < length marks \<Longrightarrow> marks ! i = NumberMark x \<Longrightarrow> out ! i = x"
    "i < length marks \<Longrightarrow> marks ! i = AnchorMark s \<Longrightarrow> lowersTo anchors retained s (out ! i)"
    "i < length marks \<Longrightarrow> marks ! i = AnchorMark s \<Longrightarrow> i \<in> set (permitted (length marks))"
proof -
  have eq: "length ms' = length (numericMarks ms')
      \<and> (\<forall>i < length ms'. ms' ! i = NumberMark (numericMarks ms' ! i))"
    if "list_all isNumberMark ms'" for ms'
  proof -
    from set_numericMarks_nth [OF that] have "ms' = map NumberMark (numericMarks ms')" by simp
    then show ?thesis by (metis length_map nth_map)
  qed
  have main: "length out = length marks \<and> (i < length marks \<longrightarrow>
      (\<forall>x. marks ! i = NumberMark x \<longrightarrow> out ! i = x)
      \<and> (\<forall>s. marks ! i = AnchorMark s \<longrightarrow> lowersTo anchors retained s (out ! i)
             \<and> i \<in> set (permitted (length marks))))" for i
  proof (cases "numeric marks")
    case True
    then show ?thesis using assms eq [of marks] by (auto simp: resolve_def numeric_def)
  next
    case False
    let ?bad = "\<lambda>(index, mark). markParts mark = None \<or> index \<notin> set (permitted (length marks))"
    obtain matches out' where *: "find ?bad (anchoredMarks marks) = None"
      "recordMatches 0 anchors (\<lambda>_. None) = Inr matches"
      "resolveMarks retained matches (anchoredMarks marks) marks = Inr out'"
      "numeric out'" "out = numericMarks out'"
    proof -
      have ok: "find ?bad (anchoredMarks marks) = None"
        using assms False by (auto simp: resolve_def Let_def split: option.splits)
      then have "andThen (recordMatches 0 anchors (\<lambda>_. None)) (\<lambda>matches.
          case resolveMarks retained matches (anchoredMarks marks) marks of
            Inl failure \<Rightarrow> Inr (AnchorsRefused failure)
          | Inr out \<Rightarrow>
              if numeric out then Inr (AnchorsResolved (numericMarks out)) else Inl LeftUnresolved)
        = Inr (AnchorsResolved out)"
        using assms False by (simp add: resolve_def Let_def)
      then obtain matches where m: "recordMatches 0 anchors (\<lambda>_. None) = Inr matches"
        and k: "(case resolveMarks retained matches (anchoredMarks marks) marks of
            Inl failure \<Rightarrow> Inr (AnchorsRefused failure)
          | Inr out \<Rightarrow>
              if numeric out then Inr (AnchorsResolved (numericMarks out)) else Inl LeftUnresolved)
          = (Inr (AnchorsResolved out) :: AnchorError + AnchorResolution)"
        by (rule andThen_InrE)
      show ?thesis
      proof (cases "resolveMarks retained matches (anchoredMarks marks) marks")
        case (Inl f)
        then show ?thesis using k by simp
      next
        case (Inr out')
        then show ?thesis using k that [OF ok m Inr] by (simp split: if_splits)
      qed
    qed
    have index: "distinct (map fst (anchoredMarks marks))"
      "set (anchoredMarks marks) = {(i, s). i < length marks \<and> marks ! i = AnchorMark s}"
      using anchoredMarks_index [of marks] by auto
    have result: "length out' = length marks"
      "\<And>i s. (i, s) \<in> set (anchoredMarks marks) \<Longrightarrow>
         \<exists>x. out' ! i = NumberMark x \<and> lowersTo anchors retained s x"
      "\<And>i. i \<notin> fst ` set (anchoredMarks marks) \<Longrightarrow> out' ! i = marks ! i"
      using resolveMarks_Inr [OF *(2,3) index(1)] index(2) by auto
    have good: "i \<in> set (permitted (length marks))" if "(i, s) \<in> set (anchoredMarks marks)" for i s
      using *(1) that by (auto simp: find_None_iff)
    have out: "length out = length marks" "\<And>i. i < length marks \<Longrightarrow> out' ! i = NumberMark (out ! i)"
      using eq [of out'] *(4,5) result(1) by (auto simp: numeric_def)
    show ?thesis
    proof (intro conjI impI allI)
      show "length out = length marks" by (rule out)
    next
      fix x assume i: "i < length marks" "marks ! i = NumberMark x"
      then have "i \<notin> fst ` set (anchoredMarks marks)" using index(2) by auto
      then show "out ! i = x" using result(3) out(2) [OF i(1)] i(2) by simp
    next
      fix s assume i: "i < length marks" "marks ! i = AnchorMark s"
      then have "(i, s) \<in> set (anchoredMarks marks)" using index(2) by simp
      from result(2) [OF this] good [OF this] out(2) [OF i(1)]
      show "lowersTo anchors retained s (out ! i)" "i \<in> set (permitted (length marks))" by auto
    qed
  qed
  show "length out = length marks" using main by simp
  show "i < length marks \<Longrightarrow> marks ! i = NumberMark x \<Longrightarrow> out ! i = x" using main [of i] by blast
  show "i < length marks \<Longrightarrow> marks ! i = AnchorMark s \<Longrightarrow> lowersTo anchors retained s (out ! i)"
    using main [of i] by blast
  show "i < length marks \<Longrightarrow> marks ! i = AnchorMark s \<Longrightarrow> i \<in> set (permitted (length marks))"
    using main [of i] by blast
qed

section \<open>Checks\<close>

lemma markParts_isAnchor: "markParts mark = Some (anchor, offset) \<Longrightarrow> isAnchor anchor"
  by (auto simp: markParts_def split: if_splits list.splits)

lemma checksFrom_lowered:
  assumes "list_all2 (\<lambda>m x. case m of NumberMark n \<Rightarrow> True
             | AnchorMark s \<Rightarrow> lowersTo anchors retained s x) marks out"
  shows "\<exists>cs. checksFrom marks out = Inr cs \<and> (cs = [] \<longleftrightarrow> list_all isNumberMark marks)
    \<and> (\<forall>c \<in> set cs. isAnchor (checkAnchor c)
         \<and> (\<exists>line. checkLine c = Whole (int line) \<and> bindsTo anchors retained (checkAnchor c) line))"
  using assms
proof (induction marks out rule: list_all2_induct)
  case (Cons m ms x xs)
  from Cons.IH obtain cs where cs: "checksFrom ms xs = Inr cs" "cs = [] \<longleftrightarrow> list_all isNumberMark ms"
    "\<forall>c \<in> set cs. isAnchor (checkAnchor c)
       \<and> (\<exists>line. checkLine c = Whole (int line) \<and> bindsTo anchors retained (checkAnchor c) line)" by blast
  show ?case
  proof (cases m)
    case (NumberMark n)
    then have "isNumberMark m" by (simp add: isNumberMark_def)
    then show ?thesis using cs NumberMark by simp
  next
    case (AnchorMark s)
    then have "lowersTo anchors retained s x" using Cons.hyps by simp
    then obtain anchor offset line where "markParts s = Some (anchor, offset)"
      "bindsTo anchors retained anchor line" "x = Whole (int line + offset)"
      by (auto simp: lowersTo_def)
    then show ?thesis
      using AnchorMark cs markParts_isAnchor [of s anchor offset]
      by (simp add: isNumberMark_def minusOffset_def)
  qed
qed simp

lemma resolve_list_all2:
  assumes "resolve anchors marks retained = Inr (AnchorsResolved out)"
  shows "list_all2 (\<lambda>m x. case m of NumberMark n \<Rightarrow> True
             | AnchorMark s \<Rightarrow> lowersTo anchors retained s x) marks out"
  using resolve_lowers(1) [OF assms] resolve_lowers(3) [OF assms]
  by (auto simp: list_all2_conv_all_nth split: TextMark.splits)

lemma everyCheck_True:
  assumes "\<And>c. c \<in> set cs \<Longrightarrow> isAnchor (checkAnchor c) \<and> (\<exists>line. checkLine c = Whole (int line)
      \<and> bindsTo current (\<lambda>_. None) (checkAnchor c) line)"
    "int (length current) \<le> MAX_SAFE_INTEGER"
  shows "everyCheck current cs = Inr True"
  using assms(1)
proof (induction cs)
  case (Cons c cs)
  from Cons.prems [of c] obtain line where c: "isAnchor (checkAnchor c)" "checkLine c = Whole (int line)"
    "1 \<le> line" "{i. i < length current \<and> current ! i = checkAnchor c} = {line - 1}"
    by (auto simp: bindsTo_def)
  then have "line - 1 < length current" "current ! (line - 1) = checkAnchor c" by auto
  then have "atLine current (int line) = Some (checkAnchor c)" "safeInt (int line)"
    using c(3) assms(2) by (auto simp: atLine_Some_iff safeInt_def nat_diff_distrib)
  then show ?case using c Cons by simp
qed simp

section \<open>Properties\<close>

text \<open>Every logical line gets exactly one well-formed anchor, and two digests encode to the
  same anchor exactly when they agree modulo 62^5.\<close>

lemma tokens_one_per_line:
  assumes "identity \<noteq> []"
  shows "(\<exists>ts. tokens digest contextLines identity content = Inr ts
      \<and> length ts = lineCount content \<and> list_all isAnchor ts)
    \<and> (encode h = encode k \<longleftrightarrow> hexValue h mod 62 ^ 5 = hexValue k mod 62 ^ 5)"
proof -
  obtain ts where "tokens digest contextLines identity content = Inr ts"
    using assms by (auto simp: tokens_def Let_def)
  then show ?thesis
    using tokens_anchors [of digest contextLines identity content ts] encode_eq_iff [of h k]
    by (auto simp: MODULUS_value)
qed

lemma tokens_one_per_line_witness:
  "\<exists>ts. tokens (\<lambda>j. [49]) 2 [114] [97, 10, 98] = Inr ts \<and> length ts = lineCount [97, 10, 98]"
  using tokens_one_per_line [of "[114]" "\<lambda>j. [49]" 2 "[97, 10, 98]" "[]" "[]"] by auto

text \<open>The widening of repeated anchors always ends, and it ends for one of two reasons: the
  anchors are pairwise distinct, or every line has been told apart by as much context as the
  text has.\<close>

lemma widening_ends:
  assumes "list_all isAnchor (wideAnchors w)" "wideRepeated w = repeated (wideAnchors w)"
  shows "distinct (wideAnchors (widen digest contextLines identity center w))
     \<or> length center - 1 \<le> wideRadius (widen digest contextLines identity center w)"
  using widen_result [of "length (wideAnchors w)" w] assms by (simp add: widening_def)

definition widenExample :: Widening where
  "widenExample = \<lparr>leftPrints = [[49], [50]], rightPrints = [[51], [52]], wideRadius = 0,
     wideAnchors = [encode [49], encode [49]], wideRepeated = [0, 1]\<rparr>"

lemma widening_ends_witness:
  "distinct (wideAnchors (widen (\<lambda>j. [49]) 0 [114] [[49], [50]] widenExample))
     \<or> length [[49], [50] :: jsstr] - 1 \<le> wideRadius (widen (\<lambda>j. [49]) 0 [114] [[49], [50]] widenExample)"
proof -
  have "list_all isAnchor (wideAnchors widenExample)"
    "wideRepeated widenExample = repeated (wideAnchors widenExample)" by code_simp+
  then show ?thesis by (rule widening_ends)
qed

text \<open>C6. A rendering loses nothing: the reader who drops the gutter of every row has the content
  back, the anchors can be read off the rows, and every row is recognised as an anchored line.\<close>

theorem render_roundtrip:
  assumes "render content firstLine anchors width = Inr rendering" "content \<noteq> []"
  shows "unrender (nat width) rendering = content
    \<and> publishedAnchors (nat width) rendering = anchors
    \<and> list_all (\<lambda>(b, s). isAnchoredLine b) (rowsOf rendering)"
proof -
  note rows = render_rows [OF assms]
  have anchor: "isAnchor (anchors ! i)" if "i < lineCount content" for i
    using that rows(1,2) by (simp add: list_all_length)
  have "unrender (nat width) rendering = rowsText (map (\<lambda>i. rowsOf content ! i) [0..<lineCount content])"
    unfolding unrender_def rows(4) rowsText_def
    by (rule arg_cong [where f = concat])
      (auto simp: length_rowPrefix [OF anchor rows(5)] split: prod.splits)
  also have "\<dots> = content"
    using rowsText_rowsOf [of content] map_nth [of "rowsOf content"] by (simp add: lineCount_def)
  finally have "unrender (nat width) rendering = content" .
  moreover have "publishedAnchors (nat width) rendering = anchors"
    unfolding publishedAnchors_def rows(4)
    by (rule nth_equalityI) (auto simp: rows(1) rowPrefix_anchor [OF anchor rows(5)])
  moreover have "list_all (\<lambda>(b, s). isAnchoredLine b) (rowsOf rendering)"
    unfolding rows(4) using rows(3) by (auto simp: list_all_iff intro!: rowPrefix_isAnchoredLine anchor)
  ultimately show ?thesis by simp
qed

definition sampleAnchors :: "jsstr list" where
  "sampleAnchors = [encode [49], encode [50]]"

theorem render_roundtrip_witness:
  "\<exists>rendering. render [97, 13, 10, 98] 9 sampleAnchors 2 = Inr rendering
     \<and> unrender 2 rendering = [97, 13, 10, 98]"
proof -
  have "render [97, 13, 10, 98] 9 sampleAnchors 2
      = Inr ([32, 57, 60, 64, 48, 48, 48, 48, 49, 62, 97, 13, 10, 49, 48, 60, 64, 48, 48, 48, 48, 50, 62, 98])"
    by code_simp
  from render_roundtrip [OF this] this show ?thesis by simp
qed

text \<open>C7. Resolution is exact and fails closed. When it returns a marker, every numeric mark is
  unchanged, and every anchor stood in a line position and was bound to a single line: the line
  the program retained for it, or else the only line of the reading that carries it; the mark
  becomes that line plus its offset, and is at least one.\<close>

theorem resolve_binds_uniquely:
  assumes "resolve anchors marks retained = Inr (AnchorsResolved out)"
  shows "length out = length marks
    \<and> (\<forall>i < length marks. case marks ! i of
         NumberMark x \<Rightarrow> out ! i = x
       | AnchorMark s \<Rightarrow> i \<in> set (permitted (length marks)) \<and> lowersTo anchors retained s (out ! i))"
  using resolve_lowers [OF assms] by (auto split: TextMark.splits)

theorem resolve_binds_uniquely_witness:
  "lowersTo sampleAnchors (\<lambda>_. None) (encode [50] @ [45, 49]) (Whole 1)"
proof -
  have "resolve sampleAnchors [NumberMark (Whole 1), AnchorMark (encode [50] @ [45, 49])] (\<lambda>_. None)
      = Inr (AnchorsResolved [Whole 1, Whole 1])" by code_simp
  from resolve_binds_uniquely [OF this] show ?thesis by (auto dest: spec [of _ 1])
qed

text \<open>The checks taken from a resolution against a reading hold of the content the anchors
  were computed for: an edit guarded by them is applied as long as the content has not changed.\<close>

lemma resolution_satisfied:
  assumes "tokens digest contextLines identity content = Inr ts" "fits content"
    and "resolve ts marks (\<lambda>_. None) = Inr (AnchorsResolved out)" "hasAnchor (Some marks)"
  shows "\<exists>cs. checks marks out = Inr cs
    \<and> satisfies digest contextLines identity cs content = Inr True"
proof -
  from checksFrom_lowered [OF resolve_list_all2 [OF assms(3)]]
  obtain cs where cs: "checksFrom marks out = Inr cs" "cs = [] \<longleftrightarrow> list_all isNumberMark marks"
    "\<And>c. c \<in> set cs \<Longrightarrow> isAnchor (checkAnchor c) \<and> (\<exists>line. checkLine c = Whole (int line)
       \<and> bindsTo ts (\<lambda>_. None) (checkAnchor c) line)" by blast
  have "cs \<noteq> []" using cs(2) assms(4) by (auto simp: hasAnchor_def list_all_iff list_ex_iff)
  moreover have "lineCount content \<le> length content + 1"
    using length_scanLines [of content] by (auto simp: lineCount_def logicalLines_def Let_def)
  then have "int (length ts) \<le> MAX_SAFE_INTEGER"
    using tokens_anchors(1) [OF assms(1)] assms(2) by (simp add: fits_def)
  then have "everyCheck ts cs = Inr True" using everyCheck_True [OF cs(3)] by blast
  ultimately show ?thesis
    using cs(1) tokens_anchors(3) [OF assms(1)] assms(1) resolve_lowers(1) [OF assms(3)]
    by (simp add: checks_def satisfies_def)
qed

text \<open>A digest that tells the two lines of the example apart: the text of the line itself.\<close>

definition bodyDigest :: digester where
  "bodyDigest j = (case j of JArray [a, b, c, d, JArray [JText body]] \<Rightarrow> body | _ \<Rightarrow> [])"

lemma resolution_satisfied_witness:
  "\<exists>cs. checks [AnchorMark (encode [50])] [Whole 2] = Inr cs
     \<and> satisfies bodyDigest 0 [114] cs [49, 10, 50] = Inr True"
proof (rule resolution_satisfied)
  show "tokens bodyDigest 0 [114] [49, 10, 50] = Inr sampleAnchors" by code_simp
  show "fits [49, 10, 50]" by (simp add: fits_def MAX_SAFE_INTEGER_def)
  show "resolve sampleAnchors [AnchorMark (encode [50])] (\<lambda>_. None) = Inr (AnchorsResolved [Whole 2])"
    by code_simp
  show "hasAnchor (Some [AnchorMark (encode [50])])" by code_simp
qed

end
