(* ===== verification/EditReceipt.thy ===== *)
theory EditReceipt
  imports SlicerBatch LineAnchors
begin

text \<open>
  \<^verbatim>\<open>plurnk-core/src/content/edit-receipt.ts\<close>: what a settled edit reports back. A receipt names, for each authored
  edit, the lines or the region it asked for, where its text landed in the resulting text, how much it removed and
  inserted, and the landed lines with some context. \<^verbatim>\<open>plurnk-core/src/content/scope-format.ts\<close> writes the coordinates.

  SHA-256, the digest of the anchors, the numerals of fractions and the two configured line counts (both checked to be
  non-negative integers when they are read) are fields of \<open>ReceiptHost\<close>. The marks of a range are integers when a
  receipt is made, as the slicer refuses others; the model reads them with \<open>wholeOf\<close>.
\<close>

section \<open>Coordinates as text\<close>

definition COMMA :: jschar where "COMMA = 44"
definition COLON :: jschar where "COLON = 58"

definition intNumeral :: "int \<Rightarrow> jsstr" where
  "intNumeral n = (if n < 0 then MINUS # decimal (nat (- n)) else decimal (nat n))"

fun markNumeral :: "(rat \<Rightarrow> jsstr) \<Rightarrow> jsnum \<Rightarrow> jsstr" where
  "markNumeral fractionText (Whole n) = intNumeral n"
| "markNumeral fractionText (Fraction q) = fractionText q"

definition formatMarker :: "(rat \<Rightarrow> jsstr) \<Rightarrow> marks \<Rightarrow> jsstr" where
  "formatMarker fractionText ms = [LESS] @ joinWith [COMMA] (map (markNumeral fractionText) ms) @ [GREATER]"

definition formatInts :: "int list \<Rightarrow> jsstr" where
  "formatInts ns = [LESS] @ joinWith [COMMA] (map intNumeral ns) @ [GREATER]"

definition formatLines :: "int \<Rightarrow> int \<Rightarrow> jsstr" where
  "formatLines first final = formatInts (if first = final then [first] else [first, final])"

definition formatRegion :: "TextRegion \<Rightarrow> jsstr" where
  "formatRegion r = formatInts [startLine r, startColumn r, endLine r, endColumn r]"

fun unitName :: "RangeUnit \<Rightarrow> jsstr" where
  "unitName LineUnit = js ''line''"
| "unitName ByteUnit = js ''byte''"
| "unitName ResultUnit = js ''result''"
| "unitName ResourceUnit = js ''resource''"
| "unitName MatchLocationUnit = js ''match location''"

definition formatCount :: "RangeUnit \<Rightarrow> nat \<Rightarrow> jsstr" where
  "formatCount u n = decimal n @ js '' '' @ unitName u @ (if n = 1 then [] else js ''s'')"

definition formatRange :: "RangeExtent \<Rightarrow> bool \<Rightarrow> jsstr" where
  "formatRange e sparse =
     (let size = formatCount (extentUnit e) (extentTotal e)
      in if extentTotal e = 0 then size
         else case extentReturned e of
           None \<Rightarrow> js ''none of '' @ size
         | Some (first, final) \<Rightarrow>
             if \<not> sparse \<and> first = 1 \<and> final = int (extentTotal e) then size
             else formatLines first final @ js '' of '' @ size)"

section \<open>Receipts\<close>

record ReceiptHost =
  sha256 :: "jsstr \<Rightarrow> jsstr"
  anchorDigest :: digester
  anchorContext :: nat
  fractionNumeral :: "rat \<Rightarrow> jsstr"
  receiptContextLines :: nat
  receiptRemovedLines :: nat

text \<open>The messages of \<open>InvalidOperationResultError\<close>.\<close>

datatype ReceiptInvalid =
    NotAnObject jsstr
  | UnexpectedField jsstr jsstr
  | MissingField jsstr jsstr
  | ExtentInvalid jsstr
  | IssueCountInvalid jsstr
  | IssuesBothZero
  | RemovedTextNotString
  | EffectFieldNotString jsstr
  | RevisionInvalid jsstr
  | UnitInvalid jsstr
  | RequestedEmpty
  | SupersededInvalid
  | EffectsEmpty
  | AlreadyReplaced
  | ResourceEffectsEmpty
  | TargetEmpty
  | ActionInvalid
  | ReceiptOnDelete
  | CreatedFromSomething

datatype ReceiptError =
    RangeBelowOne int int
  | WholeLinesNeedIntegers
  | NoTextCoordinate
  | ReplacementUnresolved jsstr ScopeError
  | OmittedEffect nat
  | AnchorsFailed AnchorError
  | NoEffectAt nat
  | NoSupersededAt nat
  | ReplacementOmitted
  | InvalidReceipt ReceiptInvalid

datatype ReceiptUnit = LinesUnit | CodePointsUnit

record EffectReceipt =
  requested :: jsstr
  effectSource :: jsstr
  effectResult :: jsstr
  removed :: int
  inserted :: int
  effectContext :: jsstr
  removedText :: "jsstr option"

text \<open>\<open>EffectWithContextRange\<close>: an effect and the lines of the result it is shown with.\<close>

type_synonym RangedEffect = "EffectReceipt \<times> int \<times> int"

record ParseIssueTransition =
  issuesBefore :: int
  issuesAfter :: int

record ReceiptHead =
  revision :: jsstr
  receiptUnit :: ReceiptUnit
  extentBefore :: int
  extentAfter :: int
  parseIssues :: "ParseIssueTransition option"

record AppliedReceipt = ReceiptHead +
  effects :: "EffectReceipt list"

record ReplacedReceipt = ReceiptHead +
  superseded :: "jsstr list"
  replacement :: EffectReceipt

datatype EditBatchReceipt = Applied AppliedReceipt | ReviewerReplaced ReplacedReceipt

section \<open>The edited span\<close>

text \<open>A part of \<open>diffLines\<close>, which is the package's: its text and whether the change added or removed it.\<close>

record DiffPart =
  partText :: jsstr
  partAdded :: bool
  partRemoved :: bool

definition spanRows :: "DiffPart list \<Rightarrow> (jsstr \<times> bool) list" where
  "spanRows parts = concat (map (\<lambda>p. if partRemoved p then []
     else let ls = splitLF (partText p)
          in map (\<lambda>t. (t, partAdded p)) (if 1 < length ls \<and> last ls = [] then butlast ls else ls)) parts)"

definition editedBounds :: "(jsstr \<times> bool) list \<Rightarrow> nat \<Rightarrow> nat \<times> nat" where
  "editedBounds rs context =
     (let changed = indicesWhere snd rs
      in if changed = [] then (0, length rs)
         else (hd changed - context, min (length rs) (Suc (last changed + context))))"

definition editedSpan :: "DiffPart list \<Rightarrow> nat \<Rightarrow> jsstr" where
  "editedSpan parts context =
     (let rs = spanRows parts; (start, stop) = editedBounds rs context
      in joinWith [LF] (map (\<lambda>i. decimal (Suc i) @ [COLON] @ fst (rs ! i)) [start..<stop]))"

lemma editedSpan_shows_changes:
  assumes "i < length rs" "snd (rs ! i)" "editedBounds rs context = (start, stop)"
  shows "start \<le> i \<and> i < stop \<and> stop \<le> length rs"
proof -
  let ?changed = "indicesWhere snd rs"
  have i: "i \<in> set ?changed" using assms(1,2) by (simp add: set_indicesWhere)
  have "sorted ?changed" by (simp add: indicesWhere_def sorted_wrt_filter)
  then have "hd ?changed \<le> i" "i \<le> last ?changed"
    using i by (cases ?changed; auto simp: sorted_append)
      (cases ?changed rule: rev_cases; use i \<open>sorted ?changed\<close> in \<open>auto simp: sorted_append\<close>)
  moreover have "?changed \<noteq> []" using i by auto
  ultimately show ?thesis using assms(1,3) by (auto simp: editedBounds_def Let_def split: if_splits)
qed

section \<open>Lines\<close>

text \<open>\<open>split(/\r\n|\r|\n/)\<close>.\<close>

fun splitTerminators :: "jsstr \<Rightarrow> jsstr list" where
  "splitTerminators [] = [[]]"
| "splitTerminators [c] = (if isNewline c then [[], []] else [[c]])"
| "splitTerminators (c # d # s) =
     (if c = CR \<and> d = LF then [] # splitTerminators s
      else if isNewline c then [] # splitTerminators (d # s)
      else case splitTerminators (d # s) of [] \<Rightarrow> [[c]] | l # ls \<Rightarrow> (c # l) # ls)"

definition receiptLines :: "jsstr \<Rightarrow> jsstr list" where
  "receiptLines content =
     (if content = [] then []
      else if endsWithNewline content then butlast (splitTerminators content)
      else splitTerminators content)"

definition regionOfJoin :: "jsstr \<Rightarrow> nat \<Rightarrow> ReceiptError + jsstr" where
  "regionOfJoin content offset =
     (case regionFromOffsets content (int offset) (int offset) of
        None \<Rightarrow> Inl NoTextCoordinate
      | Some region \<Rightarrow> Inr (formatRegion region))"

definition emptyLineScope :: "jsstr \<Rightarrow> int \<Rightarrow> ReceiptError + jsstr" where
  "emptyLineScope content line =
     regionOfJoin content
       (case atLine (logicalLines content) line of Some l \<Rightarrow> lineStart l | None \<Rightarrow> length content)"

record SourceRange =
  sourceStart :: int
  sourceEnd :: int
  sourceRemoved :: int

definition sourceLineRange :: "marks \<Rightarrow> nat \<Rightarrow> ReceiptError + SourceRange" where
  "sourceLineRange ms n =
     (let first = wholeOf (ms ! 0)
      in if 1 < length ms
         then let final = wholeOf (ms ! 1);
                  stop = (if final = -1 then int n else final)
              in if first < 1 then Inl (RangeBelowOne first final)
                 else Inr \<lparr>sourceStart = first, sourceEnd = stop, sourceRemoved = max 0 (stop - first + 1)\<rparr>
         else if ms ! 0 = Whole 0 then Inr \<lparr>sourceStart = 1, sourceEnd = 0, sourceRemoved = 0\<rparr>
         else if ms ! 0 = Whole (-1)
         then Inr \<lparr>sourceStart = int n + 1, sourceEnd = int n, sourceRemoved = 0\<rparr>
         else if \<not> isInteger (ms ! 0) then Inl WholeLinesNeedIntegers
         else Inr \<lparr>sourceStart = first, sourceEnd = first, sourceRemoved = 1\<rparr>)"

definition removedTextOf :: "nat \<Rightarrow> jsstr list \<Rightarrow> jsstr" where
  "removedTextOf shown ls =
     (if length ls \<le> shown then joinWith [LF] ls
      else joinWith [LF] (take shown ls) @ [LF, 0x2026] @ js '' '' @ decimal (length ls - shown) @ js '' more lines'')"

record SourcedEdit =
  sourcedEdit :: BatchEdit
  sourcedIndex :: nat
  sourcedRange :: SourceRange

definition sourceEdits :: "jsstr \<Rightarrow> BatchEdit list \<Rightarrow> ReceiptError + SourcedEdit list" where
  "sourceEdits original edits =
     mapResult (\<lambda>(edit, i). andThen (sourceLineRange (editMarker edit) (length (receiptLines original)))
         (\<lambda>source. Inr \<lparr>sourcedEdit = edit, sourcedIndex = i, sourcedRange = source\<rparr>))
       (zip edits [0..<length edits])"

definition startsNoLater :: "SourcedEdit \<Rightarrow> SourcedEdit \<Rightarrow> bool" where
  "startsNoLater a b \<longleftrightarrow> sourceStart (sourcedRange a) \<le> sourceStart (sourcedRange b)"

text \<open>One pass of the loop: the effect of an edit, given how far the edits before it have moved the text.\<close>

definition lineEffect :: "ReceiptHost \<Rightarrow> jsstr \<Rightarrow> jsstr \<Rightarrow> int \<Rightarrow> SourcedEdit \<Rightarrow> ReceiptError + RangedEffect" where
  "lineEffect h original updated offset e =
     (let source = sourcedRange e; edit = sourcedEdit e;
          count = int (length (receiptLines (editBody edit)));
          resultStart = sourceStart source + offset;
          resultEnd = (if count = 0 then resultStart - 1 else resultStart + count - 1)
      in andThen (if sourceRemoved source = 0 then emptyLineScope original (sourceStart source)
                  else Inr (formatLines (sourceStart source) (sourceEnd source))) (\<lambda>sourceText.
         andThen (if resultEnd < resultStart then emptyLineScope updated resultStart
                  else Inr (formatLines resultStart resultEnd)) (\<lambda>resultText.
           Inr (\<lparr>requested = formatMarker (fractionNumeral h) (editMarker edit), effectSource = sourceText,
                 effectResult = resultText, removed = sourceRemoved source, inserted = count, effectContext = [],
                 removedText = (if count = 0 \<and> 0 < sourceRemoved source
                   then Some (removedTextOf (receiptRemovedLines h)
                     (jsSlice (receiptLines original) (nat (sourceStart source - 1)) (nat (sourceEnd source))))
                   else None)\<rparr>, resultStart, max resultStart resultEnd))))"

definition moves :: "SourcedEdit \<Rightarrow> int" where
  "moves e = int (length (receiptLines (editBody (sourcedEdit e)))) - sourceRemoved (sourcedRange e)"

fun placeLines ::
  "ReceiptHost \<Rightarrow> jsstr \<Rightarrow> jsstr \<Rightarrow> int \<Rightarrow> SourcedEdit list \<Rightarrow> ReceiptError + (nat \<times> RangedEffect) list" where
  "placeLines h original updated offset [] = Inr []"
| "placeLines h original updated offset (e # es) =
     andThen (lineEffect h original updated offset e) (\<lambda>effect.
     andThen (placeLines h original updated (offset + moves e) es) (\<lambda>rest.
       Inr ((sourcedIndex e, effect) # rest)))"

text \<open>\<open>effects.map(...)\<close> over the array that the loop has filled by index.\<close>

definition inOrder :: "nat \<Rightarrow> (nat \<times> RangedEffect) list \<Rightarrow> ReceiptError + RangedEffect list" where
  "inOrder n placed =
     mapResult (\<lambda>i. case map_of placed i of None \<Rightarrow> Inl (OmittedEffect i) | Some e \<Rightarrow> Inr e) [0..<n]"

definition lineEffects :: "ReceiptHost \<Rightarrow> jsstr \<Rightarrow> jsstr \<Rightarrow> BatchEdit list \<Rightarrow> ReceiptError + RangedEffect list" where
  "lineEffects h original updated edits =
     andThen (sourceEdits original edits) (\<lambda>sourced.
     andThen (placeLines h original updated 0 (sortBy startsNoLater sourced)) (\<lambda>placed.
       inOrder (length edits) placed))"

section \<open>Code points\<close>

definition codePointOffset :: "jsstr \<Rightarrow> nat \<Rightarrow> nat" where
  "codePointOffset content offset = codePointCount (take offset content)"

text \<open>An offset that the edits have moved is negative only where the receipt is made for a text the edits do not
give; \<open>slice(0, n)\<close> of a negative \<open>n\<close> then counts from the end.\<close>

definition takeFrom :: "'a list \<Rightarrow> int \<Rightarrow> 'a list" where
  "takeFrom xs n = (if 0 \<le> n then take (nat n) xs else take (length xs - nat (- n)) xs)"

definition jsOffsetFromCodePoints :: "jsstr \<Rightarrow> int \<Rightarrow> nat" where
  "jsOffsetFromCodePoints content offset = length (concat (takeFrom (codePoints content) offset))"

definition coordinateAt :: "jsstr \<Rightarrow> int \<Rightarrow> ReceiptError + TextPosition" where
  "coordinateAt content n =
     (case positionAtOffset content (int (jsOffsetFromCodePoints content n)) of
        None \<Rightarrow> Inl NoTextCoordinate
      | Some p \<Rightarrow> Inr p)"

record CodePointEdit =
  pointEdit :: BatchEdit
  pointIndex :: nat
  pointStart :: nat
  pointEnd :: nat
  pointInserted :: nat

definition pointEdits :: "ReceiptHost \<Rightarrow> jsstr \<Rightarrow> BatchEdit list \<Rightarrow> ReceiptError + CodePointEdit list" where
  "pointEdits h original edits =
     mapResult (\<lambda>(edit, i).
         case textReplacement original (editMarker edit) (editBody edit) of
           Inl err \<Rightarrow> Inl (ReplacementUnresolved (formatMarker (fractionNumeral h) (editMarker edit)) err)
         | Inr r \<Rightarrow> Inr \<lparr>pointEdit = edit, pointIndex = i, pointStart = codePointOffset original (repStart r),
             pointEnd = codePointOffset original (repEnd r), pointInserted = codePointCount (repBody r)\<rparr>)
       (zip edits [0..<length edits])"

definition pointsNoLater :: "CodePointEdit \<Rightarrow> CodePointEdit \<Rightarrow> bool" where
  "pointsNoLater a b \<longleftrightarrow> pointStart a \<le> pointStart b"

definition pointEffect :: "ReceiptHost \<Rightarrow> jsstr \<Rightarrow> jsstr \<Rightarrow> int \<Rightarrow> CodePointEdit \<Rightarrow> ReceiptError + RangedEffect" where
  "pointEffect h original updated offset e =
     (let gone = int (pointEnd e) - int (pointStart e);
          resultStart = int (pointStart e) + offset;
          resultEnd = resultStart + int (pointInserted e)
      in andThen (coordinateAt original (int (pointStart e))) (\<lambda>sourceFrom.
         andThen (coordinateAt original (int (pointEnd e))) (\<lambda>sourceTo.
         andThen (coordinateAt updated resultStart) (\<lambda>updatedFrom.
         andThen (coordinateAt updated resultEnd) (\<lambda>updatedTo.
           Inr (\<lparr>requested = formatMarker (fractionNumeral h) (editMarker (pointEdit e)),
                 effectSource = formatRegion (regionOf sourceFrom sourceTo),
                 effectResult = formatRegion (regionOf updatedFrom updatedTo),
                 removed = gone, inserted = int (pointInserted e), effectContext = [],
                 removedText = (if pointInserted e = 0 \<and> 0 < gone
                   then Some (removedTextOf (receiptRemovedLines h)
                     (splitLF (concat (jsSlice (codePoints original) (pointStart e) (pointEnd e)))))
                   else None)\<rparr>, posLine updatedFrom, posLine updatedTo))))))"

definition pointMoves :: "CodePointEdit \<Rightarrow> int" where
  "pointMoves e = int (pointInserted e) - (int (pointEnd e) - int (pointStart e))"

fun placePoints ::
  "ReceiptHost \<Rightarrow> jsstr \<Rightarrow> jsstr \<Rightarrow> int \<Rightarrow> CodePointEdit list \<Rightarrow> ReceiptError + (nat \<times> RangedEffect) list" where
  "placePoints h original updated offset [] = Inr []"
| "placePoints h original updated offset (e # es) =
     andThen (pointEffect h original updated offset e) (\<lambda>effect.
     andThen (placePoints h original updated (offset + pointMoves e) es) (\<lambda>rest.
       Inr ((pointIndex e, effect) # rest)))"

definition codePointEffects ::
  "ReceiptHost \<Rightarrow> jsstr \<Rightarrow> jsstr \<Rightarrow> BatchEdit list \<Rightarrow> ReceiptError + RangedEffect list" where
  "codePointEffects h original updated edits =
     andThen (pointEdits h original edits) (\<lambda>points.
     andThen (placePoints h original updated 0 (sortBy pointsNoLater points)) (\<lambda>placed.
       inOrder (length edits) placed))"

section \<open>The receipt\<close>

definition anchorsFor :: "ReceiptHost \<Rightarrow> jsstr option \<Rightarrow> jsstr \<Rightarrow> ReceiptError + jsstr list option" where
  "anchorsFor h identity updated =
     (case identity of None \<Rightarrow> Inr None
      | Some name \<Rightarrow> (case tokens (anchorDigest h) (anchorContext h) name updated of
            Inl e \<Rightarrow> Inl (AnchorsFailed e) | Inr anchors \<Rightarrow> Inr (Some anchors)))"

definition contextPrefix :: "jsstr list option \<Rightarrow> nat \<Rightarrow> nat \<Rightarrow> jsstr" where
  "contextPrefix anchors width line =
     (case anchors of None \<Rightarrow> decimal line @ [COLON]
      | Some a \<Rightarrow> padStart (decimal line) width @ [LESS] @ a ! (line - 1) @ [GREATER])"

text \<open>The ranges that \<open>addRange\<close> is called with; it keeps the lines that exist.\<close>

definition contextRanges :: "int \<Rightarrow> RangedEffect \<Rightarrow> (int \<times> int) list" where
  "contextRanges radius e =
     (case e of (effect, firstChanged, final) \<Rightarrow>
        let lastChanged = max firstChanged final
        in (firstChanged - radius, firstChanged - 1) #
           (if 0 < inserted effect
            then [(firstChanged, firstChanged + radius - 1), (lastChanged - radius + 1, lastChanged),
                  (lastChanged + 1, lastChanged + radius)]
            else [(firstChanged, firstChanged + radius - 1)]))"

definition selectedLines :: "nat \<Rightarrow> (int \<times> int) list \<Rightarrow> nat list" where
  "selectedLines n ranges =
     filter (\<lambda>line. list_ex (\<lambda>(first, final). first \<le> int line \<and> int line \<le> final) ranges) [1..<Suc n]"

definition addContext ::
  "ReceiptHost \<Rightarrow> RangedEffect list \<Rightarrow> jsstr \<Rightarrow> jsstr option \<Rightarrow> ReceiptError + EffectReceipt list" where
  "addContext h es updated identity =
     andThen (anchorsFor h identity updated) (\<lambda>anchors.
       let ls = receiptLines updated; width = lineNumberWidth updated
       in Inr (map (\<lambda>e. (fst e)\<lparr>effectContext := joinWith [LF]
            (map (\<lambda>line. contextPrefix anchors width line @ ls ! (line - 1))
              (selectedLines (length ls) (contextRanges (int (receiptContextLines h)) e)))\<rparr>) es))"

definition assertIssueCounts :: "ParseIssueTransition \<Rightarrow> ReceiptError + unit" where
  "assertIssueCounts t =
     (if \<not> safeInt (issuesBefore t) \<or> issuesBefore t < 0 then Inl (InvalidReceipt (IssueCountInvalid (js ''before'')))
      else if \<not> safeInt (issuesAfter t) \<or> issuesAfter t < 0 then Inl (InvalidReceipt (IssueCountInvalid (js ''after'')))
      else if issuesBefore t = 0 \<and> issuesAfter t = 0 then Inl (InvalidReceipt IssuesBothZero)
      else Inr ())"

definition assertIssues :: "ParseIssueTransition option \<Rightarrow> ReceiptError + unit" where
  "assertIssues issues = (case issues of None \<Rightarrow> Inr () | Some t \<Rightarrow> assertIssueCounts t)"

definition unitOf :: "BatchEdit list \<Rightarrow> ReceiptUnit" where
  "unitOf edits = (if list_ex (\<lambda>e. length (editMarker e) = 4) edits then CodePointsUnit else LinesUnit)"

definition extentIn :: "ReceiptUnit \<Rightarrow> jsstr \<Rightarrow> int" where
  "extentIn u content = int (if u = CodePointsUnit then codePointCount content else length (receiptLines content))"

definition editReceipt ::
  "ReceiptHost \<Rightarrow> jsstr \<Rightarrow> jsstr \<Rightarrow> BatchEdit list \<Rightarrow> ParseIssueTransition option \<Rightarrow> jsstr option
     \<Rightarrow> ReceiptError + AppliedReceipt" where
  "editReceipt h original updated edits issues identity =
     andThen (assertIssues issues) (\<lambda>_.
     andThen (if unitOf edits = CodePointsUnit then codePointEffects h original updated edits
              else lineEffects h original updated edits) (\<lambda>es.
     andThen (addContext h es updated identity) (\<lambda>shown.
       Inr \<lparr>revision = sha256 h updated, receiptUnit = unitOf edits, extentBefore = extentIn (unitOf edits) original,
            extentAfter = extentIn (unitOf edits) updated, parseIssues = issues, effects = shown\<rparr>)))"

section \<open>Texts of terminated lines\<close>

text \<open>Most resources are lines that each end with a line feed.\<close>

definition unlinesLF :: "jsstr list \<Rightarrow> jsstr" where
  "unlinesLF ls = concat (map (\<lambda>l. l @ [LF]) ls)"

definition plainLines :: "jsstr list \<Rightarrow> bool" where
  "plainLines ls \<longleftrightarrow> list_all newlineFree ls"

lemma unlinesLF_simps [simp]:
  "unlinesLF [] = []" "unlinesLF (l # ls) = l @ LF # unlinesLF ls" "unlinesLF (ls @ ms) = unlinesLF ls @ unlinesLF ms"
  by (simp_all add: unlinesLF_def)

lemma plainLines_simps [simp]:
  "plainLines []" "plainLines (l # ls) \<longleftrightarrow> newlineFree l \<and> plainLines ls"
  "plainLines (ls @ ms) \<longleftrightarrow> plainLines ls \<and> plainLines ms"
  by (auto simp: plainLines_def)

lemma joinWith_snoc: "joinWith [LF] (ls @ [b]) = unlinesLF ls @ b"
proof (induction ls)
  case (Cons l ls)
  then show ?case by (cases "ls @ [b]") simp_all
qed simp

lemma plainLines_take: "plainLines ls \<Longrightarrow> plainLines (take n ls)" "plainLines ls \<Longrightarrow> plainLines (drop n ls)"
  by (auto simp: plainLines_def list_all_iff dest: in_set_takeD in_set_dropD)

lemma newlineFree_LF: "newlineFree l \<Longrightarrow> LF \<notin> set l" "newlineFree l \<Longrightarrow> CR \<notin> set l"
  by (auto simp: newlineFree_def)

lemma length_unlinesLF_less: "a < b \<Longrightarrow> b \<le> length ls \<Longrightarrow> length (unlinesLF (take a ls)) < length (unlinesLF (take b ls))"
proof -
  assume ab: "a < b" "b \<le> length ls"
  have "take b ls = take a ls @ take (b - a) (drop a ls)" using ab by (metis less_imp_le_nat take_add le_add_diff_inverse)
  moreover have "take (b - a) (drop a ls) \<noteq> []" using ab by simp
  then have "unlinesLF (take (b - a) (drop a ls)) \<noteq> []" by (cases "take (b - a) (drop a ls)") auto
  ultimately show ?thesis by simp
qed

lemma length_unlinesLF_le_iff:
  "a \<le> length ls \<Longrightarrow> b \<le> length ls \<Longrightarrow> length (unlinesLF (take a ls)) \<le> length (unlinesLF (take b ls)) \<longleftrightarrow> a \<le> b"
  by (metis length_unlinesLF_less linorder_not_less nat_le_linear not_le_imp_less le_neq_implies_less less_imp_le_nat order_refl)

lemma slice_unlinesLF:
  assumes "a \<le> b" "b \<le> length ls"
  shows "jsSlice (unlinesLF ls) (length (unlinesLF (take a ls))) (length (unlinesLF (take b ls)))
    = unlinesLF (take (b - a) (drop a ls))"
proof -
  have b: "take b ls = take a ls @ take (b - a) (drop a ls)" using assms(1) by (metis take_add le_add_diff_inverse)
  have "unlinesLF ls = unlinesLF (take a ls) @ unlinesLF (take (b - a) (drop a ls)) @ unlinesLF (drop b ls)"
    using b by (metis append_assoc append_take_drop_id unlinesLF_simps(3))
  then show ?thesis unfolding b by (simp add: jsSlice_def)
qed

lemma drop_unlinesLF: "drop (length (unlinesLF (take a ls))) (unlinesLF ls) = unlinesLF (drop a ls)"
  by (metis append_eq_conv_conj append_take_drop_id unlinesLF_simps(3))

lemma splitTerminators_nonempty [simp]: "splitTerminators s \<noteq> []"
  by (induction s rule: splitTerminators.induct) (auto split: list.splits)

lemma splitTerminators_newlineFree: "newlineFree l \<Longrightarrow> splitTerminators l = [l]"
  by (induction l rule: splitTerminators.induct) auto

lemma splitTerminators_line: "newlineFree l \<Longrightarrow> splitTerminators (l @ LF # t) = l # splitTerminators t"
proof (induction l)
  case Nil
  show ?case by (cases t) simp_all
next
  case (Cons c l)
  then have c: "\<not> isNewline c" "c \<noteq> CR" "newlineFree l" by auto
  obtain d s where d: "l @ LF # t = d # s" by (cases l) auto
  then show ?case using Cons.IH [OF c(3)] c d by auto
qed

lemma splitTerminators_unlinesLF: "plainLines ls \<Longrightarrow> splitTerminators (unlinesLF ls) = ls @ [[]]"
  by (induction ls) (simp_all add: splitTerminators_line)

lemma unlinesLF_ends: "ls \<noteq> [] \<Longrightarrow> unlinesLF ls \<noteq> [] \<and> last (unlinesLF ls) = LF"
  by (induction ls rule: rev_induct) simp_all

lemma receiptLines_unlinesLF: "plainLines ls \<Longrightarrow> receiptLines (unlinesLF ls) = ls"
  using unlinesLF_ends [of ls]
  by (cases "ls = []") (auto simp: receiptLines_def endsWithNewline_def splitTerminators_unlinesLF)

lemma splitTerminators_join:
  "CR \<notin> set s \<Longrightarrow> plainLines (splitTerminators s) \<and> unlinesLF (splitTerminators s) = s @ [LF]"
proof (induction s rule: splitTerminators.induct)
  case (3 c d s)
  show ?case
  proof (cases "c = LF")
    case True
    then show ?thesis using 3 by simp
  next
    case False
    then have c: "\<not> isNewline c" "c \<noteq> CR" using "3.prems" by (auto simp: isNewline_def)
    have "plainLines (splitTerminators (d # s)) \<and> unlinesLF (splitTerminators (d # s)) = (d # s) @ [LF]"
      using "3.IH"(3) c "3.prems" by simp
    then show ?thesis using c by (cases "splitTerminators (d # s)") auto
  qed
qed (auto simp: isNewline_def)

text \<open>A text without carriage returns is its lines, terminated, when its last line is; else the terminator is added.\<close>

lemma receiptLines_plain:
  assumes "CR \<notin> set s"
  shows "plainLines (receiptLines s)"
    "unlinesLF (receiptLines s) = (if s = [] \<or> endsWithNewline s then s else s @ [LF])"
proof -
  note j = splitTerminators_join [OF assms]
  show "plainLines (receiptLines s)"
    using j by (auto simp: receiptLines_def plainLines_def list_all_iff dest: in_set_butlastD)
  show "unlinesLF (receiptLines s) = (if s = [] \<or> endsWithNewline s then s else s @ [LF])"
  proof (cases "s \<noteq> [] \<and> endsWithNewline s")
    case True
    then obtain t where t: "s = t @ [LF]"
      using assms by (cases s rule: rev_cases) (auto simp: endsWithNewline_def isNewline_def)
    have "CR \<notin> set t" using assms t by simp
    then have "unlinesLF (splitTerminators t) = s" "plainLines (splitTerminators t)" using splitTerminators_join t by auto
    then have "splitTerminators s = splitTerminators t @ [[]]" using splitTerminators_unlinesLF by metis
    then show ?thesis using True \<open>unlinesLF (splitTerminators t) = s\<close> by (simp add: receiptLines_def)
  next
    case False
    then show ?thesis using j by (auto simp: receiptLines_def)
  qed
qed

text \<open>Where the lines of such a text are.\<close>

lemma scanFrom_lines:
  "plainLines ls \<Longrightarrow> newlineFree b \<Longrightarrow> scanFrom a a (unlinesLF ls @ b)
     = layout a (map (\<lambda>l. (l, [LF])) ls) @ [mkLine (a + length (unlinesLF ls)) (a + length (unlinesLF ls) + length b) []]"
proof (induction ls arbitrary: a)
  case Nil
  then show ?case using scanFrom_body [of b a a "[]"] by simp
next
  case (Cons l ls)
  have "scanFrom a (a + length l) (LF # unlinesLF ls @ b) = mkLine a (a + length l) [LF]
      # scanFrom (a + length l + 1) (a + length l + 1) (unlinesLF ls @ b)"
    by (cases "unlinesLF ls @ b") simp_all
  then show ?case
    using Cons.IH [of "a + length l + 1"] Cons.prems scanFrom_body [of l a a "LF # unlinesLF ls @ b"]
    by (simp add: add.assoc add.commute add.left_commute)
qed

lemma scanFrom_unlinesLF:
  "plainLines ls \<Longrightarrow> scanFrom a a (unlinesLF ls)
     = layout a (map (\<lambda>l. (l, [LF])) ls) @ [mkLine (a + length (unlinesLF ls)) (a + length (unlinesLF ls)) []]"
  using scanFrom_lines [of ls "[]" a] by simp

lemma layout_nth:
  "i < length ls \<Longrightarrow> layout a (map (\<lambda>l. (l, [LF])) ls) ! i
     = mkLine (a + length (unlinesLF (take i ls))) (a + length (unlinesLF (take i ls)) + length (ls ! i)) [LF]"
proof (induction ls arbitrary: a i)
  case (Cons l ls)
  then show ?case by (cases i) (simp_all add: add.assoc)
qed simp

lemma length_layout [simp]: "length (layout a rs) = length rs"
  by (induction a rs rule: layout.induct) simp_all

lemma logicalLines_unlinesLF:
  assumes "plainLines ls"
  shows "logicalLines (unlinesLF ls) = layout 0 (map (\<lambda>l. (l, [LF])) ls)"
proof (cases "ls = []")
  case False
  have "scanLines (unlinesLF ls) = layout 0 (map (\<lambda>l. (l, [LF])) ls)
      @ [mkLine (length (unlinesLF ls)) (length (unlinesLF ls)) []]"
    using scanFrom_unlinesLF [OF assms, of 0] by (simp add: scanLines_def)
  then show ?thesis using False unlinesLF_ends [OF False] by (simp add: logicalLines_def Let_def mkLine_def)
qed simp

lemma lines_of_unlinesLF:
  assumes "plainLines ls" "i < length ls"
  shows "lineStart (logicalLines (unlinesLF ls) ! i) = length (unlinesLF (take i ls))"
    "lineEnd (logicalLines (unlinesLF ls) ! i) = length (unlinesLF (take (Suc i) ls))"
    "separator (logicalLines (unlinesLF ls) ! i) = [LF]"
  using layout_nth [OF assms(2), of 0] assms(2)
  by (simp_all add: logicalLines_unlinesLF [OF assms(1)] mkLine_def take_Suc_conv_app_nth)

lemma length_logicalLines_unlinesLF: "plainLines ls \<Longrightarrow> length (logicalLines (unlinesLF ls)) = length ls"
  by (simp add: logicalLines_unlinesLF)

text \<open>An edit of whole lines of such a text: the lines from \<open>s\<close> on, \<open>n\<close> of them, become the lines of its body.\<close>

definition lineEdit :: "jsstr list \<Rightarrow> BatchEdit \<Rightarrow> nat \<Rightarrow> nat \<Rightarrow> bool" where
  "lineEdit ls e s n \<longleftrightarrow> s + n \<le> length ls
     \<and> sourceLineRange (editMarker e) (length ls)
         = Inr \<lparr>sourceStart = int s + 1, sourceEnd = int s + int n, sourceRemoved = int n\<rparr>
     \<and> (if n = 0 then editMarker e = [Whole 0] \<and> s = 0 \<or> editMarker e = [Whole (-1)] \<and> s = length ls
        else hd (editMarker e) = Whole (int s + 1))"

definition lineRow :: "jsstr list \<Rightarrow> BatchEdit \<Rightarrow> TextReplacement \<Rightarrow> nat \<Rightarrow> nat \<Rightarrow> bool" where
  "lineRow ls e r s n \<longleftrightarrow> repStart r = length (unlinesLF (take s ls))
     \<and> repEnd r = length (unlinesLF (take (s + n) ls)) \<and> repBody r = unlinesLF (receiptLines (editBody e))"

lemma line_row:
  assumes "plainLines ls" "ls \<noteq> []" "textReplacement (unlinesLF ls) (editMarker e) (editBody e) = Inr r"
    and "length (editMarker e) \<le> 2" "CR \<notin> set (editBody e)"
    and "\<forall>m \<in> set (editMarker e). wholeOf m \<le> int (length ls)"
  obtains s n where "lineEdit ls e s n" "lineRow ls e r s n"
proof -
  let ?c = "unlinesLF ls" and ?ms = "editMarker e" and ?b = "editBody e"
  let ?lines = "logicalLines ?c"
  note len = length_logicalLines_unlinesLF [OF assms(1)]
  note at_line = lines_of_unlinesLF [OF assms(1)]
  have ends: "?c \<noteq> []" "endsWithNewline ?c" using unlinesLF_ends [OF assms(2)] by (auto simp: endsWithNewline_def)
  have lines: "?lines \<noteq> []" using len assms(2) by auto
  have sep: "preferredSeparator ?c ?lines = [LF]"
    using lines at_line(3) [of 0] assms(2) len by (cases ?lines) (auto simp: preferredSeparator_def)
  have body: "unlinesLF (receiptLines ?b) = (if ?b \<noteq> [] \<and> \<not> endsWithNewline ?b then ?b @ [LF] else ?b)"
    using receiptLines_plain(2) [OF assms(5)] by auto
  have ms: "length ?ms = 1 \<or> length ?ms = 2"
  proof -
    have "length ?ms \<noteq> 0" using assms(3) by (auto simp: textReplacement_def)
    then show ?thesis using assms(4) by linarith
  qed
  then have "lineTextReplacement ?c ?ms ?b = Inr r" using assms(3) by (auto simp: textReplacement_def)
  then obtain nm where nm: "normalize ?ms (length ls) LineUnit = Inr nm"
    and r: "(case normKind nm of
           BeforeFirst \<Rightarrow> repStart r = 0 \<and> repEnd r = 0 \<and> repBody r = unlinesLF (receiptLines ?b)
         | AfterLast \<Rightarrow> repStart r = length ?c \<and> repEnd r = length ?c \<and> repBody r = unlinesLF (receiptLines ?b)
         | RangeKind \<Rightarrow> (case (atLine ?lines (normStart nm), atLine ?lines (normEnd nm)) of
              (Some first, Some final) \<Rightarrow> repStart r = lineStart first \<and> repEnd r = lineEnd final
                \<and> repBody r = (if ?b \<noteq> [] \<and> separator final \<noteq> [] \<and> \<not> endsWithNewline ?b then ?b @ separator final else ?b)
            | _ \<Rightarrow> False))"
    using lines ends sep body len
    by (auto simp: lineTextReplacement_def Let_def split: sum.splits MarkerKind.splits option.splits if_splits)
  have range: "lineRow ls e r s n" if "normKind nm = RangeKind" "normStart nm = int s + 1" "normEnd nm = int s + int n"
      "1 \<le> n" "s + n \<le> length ls" for s n
  proof -
    have a: "atLine ?lines (normStart nm) = Some (?lines ! s)" "atLine ?lines (normEnd nm) = Some (?lines ! (s + n - 1))"
      using that len by (auto simp: atLine_Some_iff nat_diff_distrib intro: arg_cong [where f = "nth ?lines"])
    show ?thesis
      using r that a at_line [of s] at_line [of "s + n - 1"] body by (auto simp: lineRow_def)
  qed
  show thesis
  proof (cases "length ?ms = 1")
    case True
    then obtain x where x: "?ms = [x]" by (cases ?ms) auto
    then obtain k where k: "x = Whole k" using nm by (cases x) (auto simp: normalize_def)
    have nm': "normalizePosition k (length ls) LineUnit = Inr nm" using nm x k by (simp add: normalize_def)
    consider "k = 0" | "k = -1" | "1 \<le> k" "k \<le> int (length ls)"
      using nm' by (auto simp: normalizePosition_def split: if_splits)
    then show thesis
    proof cases
      case 1
      then have "normKind nm = BeforeFirst" using nm' by (auto simp: normalizePosition_def)
      then show thesis
        using r x k 1 by (intro that [of 0 0]) (auto simp: lineRow_def lineEdit_def sourceLineRange_def)
    next
      case 2
      then have "normKind nm = AfterLast" using nm' by (auto simp: normalizePosition_def)
      then show thesis
        using r x k 2 by (intro that [of "length ls" 0]) (auto simp: lineRow_def lineEdit_def sourceLineRange_def)
    next
      case 3
      define s where "s = nat (k - 1)"
      have s: "k = int s + 1" "s + 1 \<le> length ls" using 3 by (auto simp: s_def)
      have "nm = \<lparr>normKind = RangeKind, normStart = k, normEnd = k\<rparr>" using nm' 3 by (auto simp: normalizePosition_def split: if_splits)
      then have "lineRow ls e r s 1" using s by (intro range) auto
      moreover have "lineEdit ls e s 1" using x k s by (auto simp: lineEdit_def sourceLineRange_def Let_def)
      ultimately show thesis by (rule that [rotated])
    qed
  next
    case False
    then obtain x y where xy: "?ms = [x, y]" using ms by (auto simp: numeral_2_eq_2 length_Suc_conv)
    then obtain a b where ab: "x = Whole a" "y = Whole b" using nm by (cases x; cases y) (auto simp: normalize_def)
    have b: "b \<le> int (length ls)" using assms(6) xy ab by auto
    define m where "m = (if b = -1 then int (length ls) else b)"
    have nm': "normalizeRange a b (length ls) LineUnit = Inr nm" using nm xy ab by (simp add: normalize_def)
    then have "nm = \<lparr>normKind = RangeKind, normStart = a, normEnd = m\<rparr> \<and> 1 \<le> a \<and> a \<le> m \<and> m \<le> int (length ls)"
      using b assms(2) by (auto simp: normalizeRange_def m_def Let_def split: if_splits)
    then have nmv: "nm = \<lparr>normKind = RangeKind, normStart = a, normEnd = m\<rparr>" and am: "1 \<le> a" "a \<le> m" "m \<le> int (length ls)" by auto
    define s n where "s = nat (a - 1)" and "n = nat (m - a + 1)"
    have sn: "a = int s + 1" "m = int s + int n" "1 \<le> n" "s + n \<le> length ls" using am by (auto simp: s_def n_def)
    have "lineRow ls e r s n" using nmv sn by (intro range) auto
    moreover have "sourceLineRange ?ms (length ls) = Inr \<lparr>sourceStart = a, sourceEnd = m, sourceRemoved = max 0 (m - a + 1)\<rparr>"
      using xy ab am(1) by (simp add: sourceLineRange_def m_def Let_def)
    then have "lineEdit ls e s n" using sn xy ab by (simp add: lineEdit_def)
    ultimately show thesis by (rule that [rotated])
  qed
qed


section \<open>A batch on lines\<close>

type_synonym LineSpan = "nat \<times> nat \<times> jsstr list"

fun simLines :: "jsstr list \<Rightarrow> nat \<Rightarrow> LineSpan list \<Rightarrow> jsstr list" where
  "simLines ls pos [] = drop pos ls"
| "simLines ls pos ((s, n, b) # rest) = jsSlice ls pos s @ b @ simLines ls (s + n) rest"

fun inLines :: "nat \<Rightarrow> nat \<Rightarrow> LineSpan list \<Rightarrow> bool" where
  "inLines k pos [] \<longleftrightarrow> pos \<le> k"
| "inLines k pos ((s, n, b) # rest) \<longleftrightarrow> pos \<le> s \<and> inLines k (s + n) rest"

lemma inLines_le: "inLines k pos ts \<Longrightarrow> pos \<le> k"
  by (induction k pos ts rule: inLines.induct) auto

fun spansLines :: "jsstr list \<Rightarrow> LineSpan \<Rightarrow> EditRow \<Rightarrow> bool" where
  "spansLines ls (s, n, b) r \<longleftrightarrow> s + n \<le> length ls \<and> repStart r = length (unlinesLF (take s ls))
     \<and> repEnd r = length (unlinesLF (take (s + n) ls)) \<and> repBody r = unlinesLF b"

lemma simultaneous_lines:
  assumes "list_all2 (spansLines ls) ts rs" "pos \<le> length ls"
    and "ascending (unlinesLF ls) (length (unlinesLF (take pos ls))) rs"
  shows "inLines (length ls) pos ts
    \<and> simultaneous (unlinesLF ls) (length (unlinesLF (take pos ls))) rs = unlinesLF (simLines ls pos ts)"
  using assms
proof (induction ts rs arbitrary: pos rule: list_all2_induct)
  case Nil
  then show ?case by (simp add: drop_unlinesLF)
next
  case (Cons t ts r rs)
  obtain s n b where t: "t = (s, n, b)" by (cases t)
  then have r: "s + n \<le> length ls" "repStart r = length (unlinesLF (take s ls))"
    "repEnd r = length (unlinesLF (take (s + n) ls))" "repBody r = unlinesLF b" using Cons.hyps(1) by auto
  have "pos \<le> s" using Cons.prems r length_unlinesLF_le_iff [of pos ls s] by simp
  moreover have "jsSlice (unlinesLF ls) (length (unlinesLF (take pos ls))) (length (unlinesLF (take s ls)))
      = unlinesLF (jsSlice ls pos s)"
    using slice_unlinesLF [OF \<open>pos \<le> s\<close>, of ls] r(1) by (simp add: jsSlice_def)
  ultimately show ?case using Cons.IH [of "s + n"] Cons.prems r t by simp
qed

lemma plainLines_simLines:
  "plainLines ls \<Longrightarrow> \<forall>(s, n, b) \<in> set ts. plainLines b \<Longrightarrow> plainLines (simLines ls pos ts)"
  by (induction ls pos ts rule: simLines.induct) (auto simp: plainLines_take jsSlice_def)

lemma emptyLineScope_total:
  assumes "fits content"
  shows "\<exists>t. emptyLineScope content line = Inr t"
proof -
  have final: "\<exists>p. positionAtOffset content (int (length content)) = Some p"
  proof -
    let ?k = "length (scanLines content) - 1"
    have k: "?k < length (scanLines content)" by simp
    have "contentEnd (scanLines content ! ?k) = length content"
      using tiles_last [OF scanLines_tiles [of content]] last_conv_nth [of "scanLines content"] by simp
    then show ?thesis using positionAtOffset_line_ends(2) [OF assms k] by simp
  qed
  have "\<exists>p. positionAtOffset content (int (case atLine (logicalLines content) line of Some l \<Rightarrow> lineStart l
      | None \<Rightarrow> length content)) = Some p"
  proof (cases "atLine (logicalLines content) line")
    case None
    then show ?thesis using final by simp
  next
    case (Some l)
    then obtain i where i: "i < length (logicalLines content)" "logicalLines content ! i = l"
      unfolding atLine_Some_iff by (intro that [of "nat (line - 1)"]) auto
    show ?thesis using Some positionAtOffset_line_ends(1) [OF assms, of i] logicalLines_nth [OF i(1)] i(2) by auto
  qed
  then show ?thesis by (auto simp: emptyLineScope_def regionOfJoin_def regionFromOffsets_def)
qed

text \<open>What an effect says is so: the lines it names in the result are the lines of its body.\<close>

definition landedAsSaid :: "jsstr list \<Rightarrow> SourcedEdit \<Rightarrow> EffectReceipt \<Rightarrow> bool" where
  "landedAsSaid new e eff \<longleftrightarrow>
     (let b = receiptLines (editBody (sourcedEdit e))
      in inserted eff = int (length b) \<and> removed eff = sourceRemoved (sourcedRange e)
        \<and> (b \<noteq> [] \<longrightarrow> (\<exists>a. effectResult eff = formatLines (int a + 1) (int a + int (length b)) \<and> jsSlice new a (a + length b) = b))
        \<and> (sourceRemoved (sourcedRange e) \<noteq> 0 \<longrightarrow>
             effectSource eff = formatLines (sourceStart (sourcedRange e)) (sourceEnd (sourcedRange e))))"

definition lineSpanOf :: "SourcedEdit \<Rightarrow> LineSpan" where
  "lineSpanOf e = (nat (sourceStart (sourcedRange e) - 1), nat (sourceRemoved (sourcedRange e)),
     receiptLines (editBody (sourcedEdit e)))"

definition wellSourced :: "SourcedEdit \<Rightarrow> bool" where
  "wellSourced e \<longleftrightarrow> 1 \<le> sourceStart (sourcedRange e) \<and> 0 \<le> sourceRemoved (sourcedRange e)"

lemma lineEffect_landed:
  assumes "fits original" "fits updated" "sourceStart (sourcedRange e) + offset = int a + 1"
    and "b = receiptLines (editBody (sourcedEdit e))" "jsSlice new a (a + length b) = b"
  shows "\<exists>eff. lineEffect h original updated offset e
      = Inr (eff, int a + 1, max (int a + 1) (int a + int (length b))) \<and> landedAsSaid new e eff"
proof -
  obtain t1 where t1: "emptyLineScope original (sourceStart (sourcedRange e)) = Inr t1"
    using emptyLineScope_total [OF assms(1)] by blast
  obtain t2 where t2: "emptyLineScope updated (int a + 1) = Inr t2" using emptyLineScope_total [OF assms(2)] by blast
  note body = assms(4) [symmetric]
  show ?thesis
  proof (cases "b = []")
    case True
    then show ?thesis using t1 t2 body
      by (cases "sourceRemoved (sourcedRange e) = 0") (simp_all add: lineEffect_def landedAsSaid_def Let_def assms(3))
  next
    case False
    then have "\<not> int a + 1 + int (length b) - 1 < int a + 1"
      "max (int a + 1) (int a + int (length b)) = int a + int (length b)" by (cases b; simp)+
    then show ?thesis using t1 t2 body False assms(5)
      by (cases "sourceRemoved (sourcedRange e) = 0") (auto simp: lineEffect_def landedAsSaid_def Let_def assms(3))
  qed
qed

lemma placeLines_landed:
  assumes "list_all wellSourced es" "inLines (length ls) pos (map lineSpanOf es)" "fits original" "fits updated"
    and "new = done @ simLines ls pos (map lineSpanOf es)" "int (length done) = int pos + offset"
  shows "\<exists>placed. placeLines h original updated offset es = Inr placed
      \<and> list_all2 (\<lambda>e p. fst p = sourcedIndex e \<and> landedAsSaid new e (fst (snd p))) es placed
      \<and> int (length new) = int (length ls) + offset + sum_list (map moves es)"
  using assms
proof (induction es arbitrary: pos "done" offset)
  case Nil
  then show ?case by (simp add: of_nat_diff)
next
  case (Cons e es)
  obtain s n b where e: "lineSpanOf e = (s, n, b)" by (cases "lineSpanOf e")
  then have src: "sourceStart (sourcedRange e) = int s + 1" "sourceRemoved (sourcedRange e) = int n"
    "b = receiptLines (editBody (sourcedEdit e))" using Cons.prems(1) by (auto simp: lineSpanOf_def wellSourced_def)
  have le: "pos \<le> s" "inLines (length ls) (s + n) (map lineSpanOf es)" using Cons.prems(2) e by auto
  have s: "s + n \<le> length ls" using inLines_le [OF le(2)] .
  let ?d = "done @ jsSlice ls pos s"
  have d: "int (length ?d) = int s + offset" using le(1) s Cons.prems(6) by (simp add: length_slice)
  have new: "new = (?d @ b) @ simLines ls (s + n) (map lineSpanOf es)" using Cons.prems(5) e by simp
  have mv: "moves e = int (length b) - int n" by (simp add: moves_def src)
  have off: "int (length (?d @ b)) = int (s + n) + (offset + moves e)" using d mv by simp
  obtain placed where placed: "placeLines h original updated (offset + moves e) es = Inr placed"
    "list_all2 (\<lambda>e p. fst p = sourcedIndex e \<and> landedAsSaid new e (fst (snd p))) es placed"
    "int (length new) = int (length ls) + (offset + moves e) + sum_list (map moves es)"
    using Cons.IH [OF _ le(2) Cons.prems(3,4) new off] Cons.prems(1) by auto
  have "jsSlice new (length ?d) (length ?d + length b) = b" unfolding new by (simp add: jsSlice_def)
  moreover have "sourceStart (sourcedRange e) + offset = int (length ?d) + 1" using d src by simp
  ultimately obtain eff x y where "lineEffect h original updated offset e = Inr (eff, x, y)" "landedAsSaid new e eff"
    using lineEffect_landed [OF Cons.prems(3,4) _ src(3), of offset "length ?d" new] by blast
  then show ?case using placed by (auto simp: algebra_simps)
qed


section \<open>The order of the loop\<close>

context comparison
begin

text \<open>Sorting is stable: what the comparison does not tell apart stays in its order.\<close>

lemma stable_insertBy:
  assumes "sorted_wrt (\<lambda>x y. before x y \<and> (before y x \<longrightarrow> Q x y)) ys" "\<forall>y \<in> set ys. Q x y"
  shows "sorted_wrt (\<lambda>x y. before x y \<and> (before y x \<longrightarrow> Q x y)) (insertBy before x ys)"
  using assms
proof (induction ys)
  case (Cons y ys)
  then show ?case using total_order [of x y] order_trans [of x y] by auto
qed simp

lemma stable_sortBy:
  "sorted_wrt Q xs \<Longrightarrow> sorted_wrt (\<lambda>x y. before x y \<and> (before y x \<longrightarrow> Q x y)) (sortBy before xs)"
proof (induction xs)
  case (Cons x xs)
  then show ?case using stable_insertBy [of Q "sortBy before xs" x] by (simp add: sortBy_def [of before "x # xs"] flip: sortBy_def)
qed (simp add: sortBy_def)

end

interpretation startsNoLater: comparison startsNoLater
  by unfold_locales (auto simp: startsNoLater_def)

interpretation pointsNoLater: comparison pointsNoLater
  by unfold_locales (auto simp: pointsNoLater_def)

lemma sorted_unique:
  assumes "sorted_wrt R xs" "sorted_wrt R ys" "mset xs = mset ys"
    and "\<forall>x \<in> set xs. \<forall>y \<in> set xs. R x y \<and> R y x \<longrightarrow> x = y"
  shows "xs = ys"
  using assms
proof (induction xs arbitrary: ys)
  case (Cons x xs)
  obtain y zs where y: "ys = y # zs" using Cons.prems(3) by (cases ys) auto
  have "set (x # xs) = set (y # zs)" using Cons.prems(3) y by (metis mset_eq_setD)
  then have "x = y \<or> x \<in> set zs \<and> y \<in> set xs" by auto
  then have "x = y" using Cons.prems(1,2,4) y by auto
  then show ?case using Cons.IH [of zs] Cons.prems y by auto
qed simp

lemma sorted_wrt_either:
  "sorted_wrt R xs \<Longrightarrow> x \<in> set xs \<Longrightarrow> y \<in> set xs \<Longrightarrow> x \<noteq> y \<Longrightarrow> R x y \<or> R y x"
  by (induction xs) auto

lemma ascending_sorted: "ascending s pos rs \<Longrightarrow> sorted_wrt (\<lambda>x y. repEnd x \<le> repStart y) rs"
proof -
  have above: "ascending s pos rs \<Longrightarrow> \<forall>r \<in> set rs. pos \<le> repStart r" for s pos rs
    by (induction s pos rs rule: ascending.induct) (auto intro: order_trans)
  show "ascending s pos rs \<Longrightarrow> sorted_wrt (\<lambda>x y. repEnd x \<le> repStart y) rs"
  proof (induction s pos rs rule: ascending.induct)
    case (2 s pos r rs)
    then show ?case using above [of s "repEnd r" rs] by simp
  qed simp
qed

lemma inOrder_all:
  assumes "list_all2 (\<lambda>e p. fst p = ix e \<and> Q e (snd p)) so placed" "set so = set xs" "distinct (map ix so)"
    and "\<forall>i < length xs. ix (xs ! i) = i"
  shows "\<exists>es. inOrder (length xs) placed = Inr es \<and> length es = length xs \<and> (\<forall>i < length xs. Q (xs ! i) (es ! i))"
proof -
  have keys: "map fst placed = map ix so"
    using assms(1) by (auto simp: list_all2_conv_all_nth intro: nth_equalityI)
  have "\<exists>x. map_of placed i = Some x \<and> Q (xs ! i) x" if "i < length xs" for i
  proof -
    have "xs ! i \<in> set so" using assms(2) that by simp
    then obtain m where m: "m < length so" "so ! m = xs ! i" by (auto simp: in_set_conv_nth)
    then have p: "m < length placed" "fst (placed ! m) = i" "Q (xs ! i) (snd (placed ! m))"
      using assms(1,4) that by (auto simp: list_all2_conv_all_nth)
    have "map_of placed (fst (placed ! m)) = Some (snd (placed ! m))"
      by (rule map_of_is_SomeI) (use keys assms(3) p(1) in auto)
    then show ?thesis using p by auto
  qed
  then obtain f where f: "\<forall>i < length xs. map_of placed i = Some (f i) \<and> Q (xs ! i) (f i)" by metis
  then have "inOrder (length xs) placed = Inr (map f [0..<length xs])"
    by (auto simp: inOrder_def mapResult_Inr list_all2_conv_all_nth)
  then show ?thesis using f by (intro exI [of _ "map f [0..<length xs]"]) simp
qed


section \<open>The batch and its receipt\<close>

text \<open>What the receipt of whole lines is read for: edits of lines that exist, an insertion above the first line authored
before the edits of the first line.\<close>

definition plainLineEdits :: "nat \<Rightarrow> BatchEdit list \<Rightarrow> bool" where
  "plainLineEdits n edits \<longleftrightarrow>
     (\<forall>e \<in> set edits. length (editMarker e) \<le> 2 \<and> CR \<notin> set (editBody e)
        \<and> (\<forall>m \<in> set (editMarker e). wholeOf m \<le> int n))
     \<and> (\<forall>j < length edits. \<forall>i < j. editMarker (edits ! j) = [Whole 0] \<longrightarrow> hd (editMarker (edits ! i)) \<noteq> Whole 1)"

definition sourcedOf :: "BatchEdit list \<Rightarrow> (nat \<Rightarrow> nat) \<Rightarrow> (nat \<Rightarrow> nat) \<Rightarrow> SourcedEdit list" where
  "sourcedOf edits S N = map (\<lambda>k. \<lparr>sourcedEdit = edits ! k, sourcedIndex = k, sourcedRange =
     \<lparr>sourceStart = int (S k) + 1, sourceEnd = int (S k) + int (N k), sourceRemoved = int (N k)\<rparr>\<rparr>) [0..<length edits]"

lemma sourcedOf_simps [simp]:
  "length (sourcedOf edits S N) = length edits"
  "k < length edits \<Longrightarrow> sourcedOf edits S N ! k = \<lparr>sourcedEdit = edits ! k, sourcedIndex = k, sourcedRange =
     \<lparr>sourceStart = int (S k) + 1, sourceEnd = int (S k) + int (N k), sourceRemoved = int (N k)\<rparr>\<rparr>"
  by (simp_all add: sourcedOf_def)

lemma sourceEdits_sourcedOf:
  assumes "\<forall>k < length edits. lineEdit ls (edits ! k) (S k) (N k)" "receiptLines content = ls"
  shows "sourceEdits content edits = Inr (sourcedOf edits S N)"
  using assms by (auto simp: sourceEdits_def mapResult_Inr list_all2_conv_all_nth lineEdit_def)

text \<open>The loop meets the edits in the order of their rows in the text.\<close>

lemma loop_order:
  assumes edits: "\<forall>k < length edits. lineEdit ls (edits ! k) (S k) (N k) \<and> lineRow ls (edits ! k) (TextReplacement.truncate (rs ! k)) (S k) (N k)"
    and rs: "length rs = length edits" "\<forall>k < length rs. rowIndex (rs ! k) = k"
    and up: "ascending content 0 (rev (sortBy lastFirst rs))"
    and tops: "\<forall>j < length edits. \<forall>i < j. editMarker (edits ! j) = [Whole 0] \<longrightarrow> hd (editMarker (edits ! i)) \<noteq> Whole 1"
  shows "rev (sortBy lastFirst rs) = map (\<lambda>e. rs ! sourcedIndex e) (sortBy startsNoLater (sourcedOf edits S N))"
proof (rule sorted_unique [where R = "\<lambda>x y. lastFirst y x"])
  let ?up = "rev (sortBy lastFirst rs)" and ?so = "sortBy startsNoLater (sourcedOf edits S N)"
  show "sorted_wrt (\<lambda>x y. lastFirst y x) ?up" using lastFirst.sorted_sortBy [of rs] by (simp add: sorted_wrt_rev)
  have "map (\<lambda>e. rs ! sourcedIndex e) (sourcedOf edits S N) = rs" using rs(1) by (auto intro: nth_equalityI)
  then show "mset ?up = mset (map (\<lambda>e. rs ! sourcedIndex e) ?so)"
    by (metis mset_map mset_rev sortBy_mset)
  show "\<forall>x \<in> set ?up. \<forall>y \<in> set ?up. lastFirst y x \<and> lastFirst x y \<longrightarrow> x = y"
  proof (intro ballI impI)
    fix x y assume xy: "x \<in> set ?up" "y \<in> set ?up" "lastFirst y x \<and> lastFirst x y"
    then have "rowIndex x = rowIndex y" by (auto simp: lastFirst_def)
    then show "x = y" using xy(1,2) rs(2) by (auto simp: in_set_conv_nth)
  qed
  have pos: "repStart (rs ! k) = length (unlinesLF (take (S k) ls))" "repEnd (rs ! k) = length (unlinesLF (take (S k + N k) ls))"
    "S k + N k \<le> length ls" if "k < length edits" for k
    using edits that by (auto simp: lineRow_def lineEdit_def TextReplacement.truncate_def)
  have order: "lastFirst (rs ! j) (rs ! i)" if ij: "i < length edits" "j < length edits" "S i \<le> S j" "S j \<le> S i \<longrightarrow> i < j" for i j
  proof (cases "S i < S j")
    case True
    then have "repStart (rs ! i) < repStart (rs ! j)" using pos [OF ij(1)] pos [OF ij(2)] length_unlinesLF_less [of "S i" "S j" ls] by simp
    then show ?thesis by (simp add: lastFirst_def)
  next
    case False
    then have eq: "S i = S j" "i < j" using ij by auto
    have "N i \<le> N j"
    proof (rule ccontr)
      assume less: "\<not> N i \<le> N j"
      have "rs ! i \<in> set ?up" "rs ! j \<in> set ?up" "rs ! i \<noteq> rs ! j"
        using ij(1,2) rs eq(2) by (auto, metis less_irrefl)
      then have "repEnd (rs ! i) \<le> repStart (rs ! j) \<or> repEnd (rs ! j) \<le> repStart (rs ! i)"
        using sorted_wrt_either [OF ascending_sorted [OF up]] by blast
      then have "N j = 0"
        using pos [OF ij(1)] pos [OF ij(2)] eq(1) less length_unlinesLF_less [of "S i" "S i + N i" ls]
          length_unlinesLF_less [of "S j" "S j + N j" ls] by auto
      then have "editMarker (edits ! j) = [Whole 0] \<and> S j = 0"
        using edits ij(2) pos(3) [OF ij(1)] eq(1) less by (auto simp: lineEdit_def)
      moreover have "hd (editMarker (edits ! i)) = Whole (int (S i) + 1)" using edits ij(1) less by (auto simp: lineEdit_def)
      ultimately show False using tops ij(2) eq by auto
    qed
    then have "repEnd (rs ! i) < repEnd (rs ! j) \<or> repEnd (rs ! i) = repEnd (rs ! j)"
      using pos [OF ij(1)] pos [OF ij(2)] eq(1) length_unlinesLF_less [of "S i + N i" "S j + N j" ls] by (cases "N i < N j") auto
    then show ?thesis using pos ij(1,2) eq rs by (auto simp: lastFirst_def)
  qed
  have "sorted_wrt (\<lambda>a b. sourcedIndex a < sourcedIndex b) (sourcedOf edits S N)"
    by (auto simp: sorted_wrt_iff_nth_less)
  from startsNoLater.stable_sortBy [OF this]
  show "sorted_wrt (\<lambda>x y. lastFirst y x) (map (\<lambda>e. rs ! sourcedIndex e) ?so)"
    unfolding sorted_wrt_map
  proof (rule sorted_wrt_mono_rel [rotated])
    fix a b assume ab: "a \<in> set ?so" "b \<in> set ?so"
      "startsNoLater a b \<and> (startsNoLater b a \<longrightarrow> sourcedIndex a < sourcedIndex b)"
    then obtain i j where "i < length edits" "j < length edits" "a = sourcedOf edits S N ! i" "b = sourcedOf edits S N ! j"
      by (auto simp: in_set_conv_nth)
    then show "lastFirst (rs ! sourcedIndex b) (rs ! sourcedIndex a)"
      using order [of i j] ab(3) by (auto simp: startsNoLater_def)
  qed
qed


lemma lines_landed:
  assumes batch: "lineMarkerEditBatch (unlinesLF ls) edits = Inr res" "editMerges res = []"
    and ls: "ls \<noteq> []" "plainLines ls" and fits: "fits (unlinesLF ls)" "fits (editedText res)"
    and plain: "plainLineEdits (length ls) edits"
  obtains S N es where "\<forall>k < length edits. lineEdit ls (edits ! k) (S k) (N k)"
    "lineEffects h (unlinesLF ls) (editedText res) edits = Inr es" "length es = length edits"
    "\<forall>k < length edits. landedAsSaid (receiptLines (editedText res)) (sourcedOf edits S N ! k) (fst (es ! k))"
    "int (length (receiptLines (editedText res))) = int (length ls) + (\<Sum>e\<leftarrow>sourcedOf edits S N. moves e)"
proof -
  from batch_applied [OF batch(1)] obtain rs where rs: "resolveEdits (unlinesLF ls) 0 edits = Inr rs"
    "editMerges res = merges (mergeAll (unlinesLF ls) rs)"
    "editedText res = simultaneous (unlinesLF ls) 0 (rev (sortBy lastFirst (liveRows (mergeAll (unlinesLF ls) rs))))"
    "ascending (unlinesLF ls) 0 (rev (sortBy lastFirst (liveRows (mergeAll (unlinesLF ls) rs))))" by blast
  have live: "liveRows (mergeAll (unlinesLF ls) rs) = rs" using mergeAll_silent batch(2) rs(2) by metis
  let ?up = "rev (sortBy lastFirst rs)"
  have rows: "length rs = length edits" "\<forall>k < length rs. rowIndex (rs ! k) = k"
    "\<forall>k < length rs. textReplacement (unlinesLF ls) (editMarker (edits ! k)) (editBody (edits ! k))
       = Inr (TextReplacement.truncate (rs ! k))"
    using resolveEdits_rows [OF rs(1)] by auto
  have "\<exists>s n. lineEdit ls (edits ! k) s n \<and> lineRow ls (edits ! k) (TextReplacement.truncate (rs ! k)) s n"
    if "k < length edits" for k
  proof -
    have "edits ! k \<in> set edits" using that by simp
    then show ?thesis
      using line_row [OF ls(2,1), of "edits ! k" "TextReplacement.truncate (rs ! k)"] rows that plain
      by (metis plainLineEdits_def)
  qed
  then obtain S N where SN: "\<forall>k < length edits. lineEdit ls (edits ! k) (S k) (N k)
      \<and> lineRow ls (edits ! k) (TextReplacement.truncate (rs ! k)) (S k) (N k)" by metis
  let ?sourced = "sourcedOf edits S N"
  let ?so = "sortBy startsNoLater ?sourced"
  have lines: "receiptLines (unlinesLF ls) = ls" by (rule receiptLines_unlinesLF [OF ls(2)])
  have sourced: "sourceEdits (unlinesLF ls) edits = Inr ?sourced"
    by (rule sourceEdits_sourcedOf [OF _ lines]) (use SN in simp)
  have up: "?up = map (\<lambda>e. rs ! sourcedIndex e) ?so"
    by (rule loop_order [OF SN rows(1,2) rs(4) [unfolded live]]) (use plain in \<open>simp add: plainLineEdits_def\<close>)
  have member: "\<exists>k < length edits. e = ?sourced ! k" if "e \<in> set ?so" for e
    using that by (auto simp: in_set_conv_nth)
  have "spansLines ls (lineSpanOf e) (rs ! sourcedIndex e)" if "e \<in> set ?so" for e
    using member [OF that] SN by (auto simp: lineSpanOf_def lineEdit_def lineRow_def TextReplacement.truncate_def)
  then have spans: "list_all2 (spansLines ls) (map lineSpanOf ?so) ?up"
    unfolding up by (simp add: list_all2_conv_all_nth del: set_sortBy)
  have sim: "inLines (length ls) 0 (map lineSpanOf ?so)" "editedText res = unlinesLF (simLines ls 0 (map lineSpanOf ?so))"
    using simultaneous_lines [OF spans, of 0] rs(3,4) unfolding live by auto
  have "\<forall>(s, n, b) \<in> set (map lineSpanOf ?so). plainLines b"
    using member plain by (force simp: lineSpanOf_def plainLineEdits_def intro: receiptLines_plain(1) simp del: set_sortBy)
  then have new: "receiptLines (editedText res) = [] @ simLines ls 0 (map lineSpanOf ?so)"
    using sim(2) receiptLines_unlinesLF plainLines_simLines [OF ls(2)] by simp
  have "wellSourced e" if "e \<in> set ?so" for e using member [OF that] by (auto simp: wellSourced_def)
  then have well: "list_all wellSourced ?so" by (simp add: list_all_iff)
  from placeLines_landed [OF well sim(1) fits new, of 0 h] obtain placed where
    placed: "placeLines h (unlinesLF ls) (editedText res) 0 ?so = Inr placed"
    "list_all2 (\<lambda>e p. fst p = sourcedIndex e \<and> landedAsSaid (receiptLines (editedText res)) e (fst (snd p))) ?so placed"
    "int (length (receiptLines (editedText res))) = int (length ls) + sum_list (map moves ?so)" by auto
  have "distinct (map sourcedIndex ?sourced)" by (simp add: sourcedOf_def comp_def)
  then have dist: "distinct (map sourcedIndex ?so)"
    using sortBy_mset [of startsNoLater ?sourced] by (metis mset_map mset_eq_imp_distinct_iff)
  obtain es where es: "inOrder (length ?sourced) placed = Inr es" "length es = length ?sourced"
    "\<forall>k < length ?sourced. landedAsSaid (receiptLines (editedText res)) (?sourced ! k) (fst (es ! k))"
    using inOrder_all [where Q = "\<lambda>e p. landedAsSaid (receiptLines (editedText res)) e (fst p)",
        OF placed(2) set_sortBy dist] by auto
  have "sum_list (map moves ?so) = sum_list (map moves ?sourced)"
    using sortBy_mset [of startsNoLater ?sourced] by (metis mset_map sum_mset_sum_list)
  then show thesis
    using SN sourced placed es by (intro that [of S N es]) (simp_all add: lineEffects_def)
qed

section \<open>Properties\<close>

text \<open>C27. A receipt names the lines that landed. Let a batch of whole-line edits be applied to a text whose lines all end in a line
feed, with no carriage return in the text or in a body, no mark past the last line, no insertion before the first line authored
behind an edit that starts at line 1, and no edits merged; let the reported parse issues be valid ones, and the lines of the
result have anchors when anchors are kept. Then the receipt is made, says as many effects as there were edits,
and for each edit that inserts lines the lines it names in the resulting text are exactly the lines of its body; the lines
removed exist in the original, and the two extents differ by what the effects insert and remove.\<close>

theorem receipts_name_landed_lines:
  assumes "lineMarkerEditBatch content edits = Inr res" "editMerges res = []"
    and "endsWithNewline content" "CR \<notin> set content" "fits content" "fits (editedText res)"
    and "plainLineEdits (length (receiptLines content)) edits"
    and "assertIssues issues = Inr ()" "anchorsFor h identity (editedText res) = Inr anchors"
  shows "\<exists>q. editReceipt h content (editedText res) edits issues identity = Inr q
    \<and> length (effects q) = length edits
    \<and> extentAfter q = extentBefore q + (\<Sum>e\<leftarrow>effects q. inserted e - removed e)
    \<and> (\<forall>k < length edits.
         let e = effects q ! k; b = receiptLines (editBody (edits ! k))
         in inserted e = int (length b) \<and> 0 \<le> removed e
           \<and> (b \<noteq> [] \<longrightarrow> (\<exists>a. effectResult e = formatLines (int a + 1) (int a + int (length b))
                 \<and> jsSlice (receiptLines (editedText res)) a (a + length b) = b))
           \<and> (removed e \<noteq> 0 \<longrightarrow> (\<exists>s. effectSource e = formatLines (int s + 1) (int s + removed e)
                 \<and> int s + removed e \<le> extentBefore q)))"
proof -
  let ?ls = "receiptLines content"
  have c: "content = unlinesLF ?ls" "plainLines ?ls" using receiptLines_plain [OF assms(4)] assms(3) by auto
  then have ls: "?ls \<noteq> []" using assms(3) by (metis endsWithNewline_def unlinesLF_simps(1))
  have unit: "unitOf edits = LinesUnit" using assms(7) by (auto simp: unitOf_def plainLineEdits_def list_ex_iff)
  obtain S N es where es: "\<forall>k < length edits. lineEdit ?ls (edits ! k) (S k) (N k)"
    "lineEffects h content (editedText res) edits = Inr es" "length es = length edits"
    "\<forall>k < length edits. landedAsSaid (receiptLines (editedText res)) (sourcedOf edits S N ! k) (fst (es ! k))"
    "int (length (receiptLines (editedText res))) = int (length ?ls) + (\<Sum>e\<leftarrow>sourcedOf edits S N. moves e)"
    using lines_landed [of ?ls edits res h] assms(1,2,5,6,7) ls c by metis
  obtain shown where shown: "addContext h es (editedText res) identity = Inr shown" "length shown = length es"
    "\<forall>k < length es. \<exists>t. shown ! k = (fst (es ! k))\<lparr>effectContext := t\<rparr>"
    using assms(9) by (auto simp: addContext_def Let_def)
  define q where "q = \<lparr>revision = sha256 h (editedText res), receiptUnit = LinesUnit, extentBefore = extentIn LinesUnit content,
    extentAfter = extentIn LinesUnit (editedText res), parseIssues = issues, effects = shown\<rparr>"
  have made: "editReceipt h content (editedText res) edits issues identity = Inr q"
    using es(2) shown(1) assms(8) unit by (simp add: editReceipt_def q_def)
  have landed: "landedAsSaid (receiptLines (editedText res)) (sourcedOf edits S N ! k) (effects q ! k)"
    if "k < length edits" for k
    using es(3,4) shown that by (auto simp: q_def landedAsSaid_def Let_def)
  have sums: "(\<Sum>e\<leftarrow>sourcedOf edits S N. moves e) = (\<Sum>e\<leftarrow>effects q. inserted e - removed e)"
  proof -
    have "map moves (sourcedOf edits S N) = map (\<lambda>e. inserted e - removed e) (effects q)"
      using landed shown(2) es(3) by (auto simp: q_def landedAsSaid_def moves_def Let_def intro!: nth_equalityI)
    then show ?thesis by metis
  qed
  have said: "let e = effects q ! k; b = receiptLines (editBody (edits ! k))
         in inserted e = int (length b) \<and> 0 \<le> removed e
           \<and> (b \<noteq> [] \<longrightarrow> (\<exists>a. effectResult e = formatLines (int a + 1) (int a + int (length b))
                 \<and> jsSlice (receiptLines (editedText res)) a (a + length b) = b))
           \<and> (removed e \<noteq> 0 \<longrightarrow> (\<exists>s. effectSource e = formatLines (int s + 1) (int s + removed e)
                 \<and> int s + removed e \<le> extentBefore q))" if "k < length edits" for k
  proof -
    have "int (S k) + int (N k) \<le> extentBefore q" using es(1) that by (auto simp: lineEdit_def q_def extentIn_def)
    then show ?thesis using landed [OF that] that by (auto simp: landedAsSaid_def Let_def intro: exI [of _ "S k"])
  qed
  have "extentAfter q = extentBefore q + (\<Sum>e\<leftarrow>effects q. inserted e - removed e)"
    using es(5) unfolding sums by (simp add: q_def extentIn_def)
  moreover have "length (effects q) = length edits" using es(3) shown(2) by (simp add: q_def)
  ultimately show ?thesis using made said by blast
qed


definition exampleHost :: ReceiptHost where
  "exampleHost = \<lparr>sha256 = (\<lambda>s. replicate 64 48), anchorDigest = (\<lambda>v. []), anchorContext = 0,
     fractionNumeral = (\<lambda>q. []), receiptContextLines = 1, receiptRemovedLines = 2\<rparr>"

text \<open>Line 2 of three becomes two lines and a line is put above the first.\<close>

theorem receipts_name_landed_lines_witness:
  "\<exists>res q. lineMarkerEditBatch [97, 10, 98, 10, 99, 10]
       [\<lparr>editMarker = [Whole 2], editBody = [120, 10, 121]\<rparr>, \<lparr>editMarker = [Whole 0], editBody = [116]\<rparr>] = Inr res
     \<and> editReceipt exampleHost [97, 10, 98, 10, 99, 10] (editedText res)
         [\<lparr>editMarker = [Whole 2], editBody = [120, 10, 121]\<rparr>, \<lparr>editMarker = [Whole 0], editBody = [116]\<rparr>] None None = Inr q
     \<and> extentAfter q = extentBefore q + (\<Sum>e\<leftarrow>effects q. inserted e - removed e)
     \<and> (\<exists>a. effectResult (effects q ! 0) = formatLines (int a + 1) (int a + 2)
          \<and> jsSlice (receiptLines (editedText res)) a (a + 2) = [[120], [121]])"
proof -
  let ?c = "[97, 10, 98, 10, 99, 10] :: jsstr"
  let ?es = "[\<lparr>editMarker = [Whole 2], editBody = [120, 10, 121]\<rparr>, \<lparr>editMarker = [Whole 0], editBody = [116]\<rparr>]"
  let ?res = "\<lparr>editedText = [116, 10, 97, 10, 120, 10, 121, 10, 99, 10], editNormalizations = [], editMerges = [], editApplied = None\<rparr>"
  have e: "lineMarkerEditBatch ?c ?es = Inr ?res" by code_simp
  have c: "endsWithNewline ?c" "CR \<notin> set ?c" by code_simp+
  have f: "fits ?c" "fits (editedText ?res)" by (simp_all add: fits_def MAX_SAFE_INTEGER_def)
  have n: "length (receiptLines ?c) = 3" by code_simp
  have p: "plainLineEdits (length (receiptLines ?c)) ?es"
    unfolding n by (auto simp: plainLineEdits_def CR_def less_Suc_eq)
  have l: "receiptLines [120, 10, 121] = [[120], [121]]" by code_simp
  have "editMerges ?res = []" "assertIssues None = Inr ()" "anchorsFor exampleHost None (editedText ?res) = Inr None"
    by (simp_all add: assertIssues_def anchorsFor_def)
  from receipts_name_landed_lines [OF e this(1) c f p this(2,3)] obtain q where
    "editReceipt exampleHost ?c (editedText ?res) ?es None None = Inr q"
    "extentAfter q = extentBefore q + (\<Sum>e\<leftarrow>effects q. inserted e - removed e)"
    "\<forall>k < length ?es. let e = effects q ! k; b = receiptLines (editBody (?es ! k))
         in inserted e = int (length b) \<and> 0 \<le> removed e
           \<and> (b \<noteq> [] \<longrightarrow> (\<exists>a. effectResult e = formatLines (int a + 1) (int a + int (length b))
                 \<and> jsSlice (receiptLines (editedText ?res)) a (a + length b) = b))
           \<and> (removed e \<noteq> 0 \<longrightarrow> (\<exists>s. effectSource e = formatLines (int s + 1) (int s + removed e)
                 \<and> int s + removed e \<le> extentBefore q))" by blast
  moreover from this(3) [rule_format, of 0]
  have "\<exists>a. effectResult (effects q ! 0) = formatLines (int a + 1) (int a + 2)
      \<and> jsSlice (receiptLines (editedText ?res)) a (a + 2) = [[120], [121]]" by (simp add: Let_def l numeral_2_eq_2)
  ultimately show ?thesis using e by blast
qed

section \<open>Where receipts fall short\<close>

definition landings :: "ReceiptError + AppliedReceipt \<Rightarrow> (jsstr \<times> int \<times> int) list" where
  "landings r = (case r of Inl e \<Rightarrow> [] | Inr q \<Rightarrow> map (\<lambda>e. (effectResult e, removed e, inserted e)) (effects q))"

text \<open>An insertion at the top that is authored after the edit of the first line: both are said to have landed at line 1.\<close>

lemma late_insertion_is_misplaced:
  "map_sum id editedText (lineMarkerEditBatch [97, 10, 98, 10]
      [\<lparr>editMarker = [Whole 1], editBody = [120]\<rparr>, \<lparr>editMarker = [Whole 0], editBody = [116]\<rparr>]) = Inr [116, 10, 120, 10, 98, 10]"
  "landings (editReceipt exampleHost [97, 10, 98, 10] [116, 10, 120, 10, 98, 10]
      [\<lparr>editMarker = [Whole 1], editBody = [120]\<rparr>, \<lparr>editMarker = [Whole 0], editBody = [116]\<rparr>] None None)
    = [(formatLines 1 1, 1, 1), (formatLines 1 1, 0, 1)]"
  by code_simp+

text \<open>A range past the last line is clamped when it is applied, but counted as authored: one line is replaced and eight
are said to be removed, and the line that is appended is said to land at line -4.\<close>

lemma clamped_range_is_miscounted:
  "map_sum id editedText (lineMarkerEditBatch [97, 10, 98, 10]
      [\<lparr>editMarker = [Whole 2, Whole 9], editBody = [120]\<rparr>, \<lparr>editMarker = [Whole (-1)], editBody = [116]\<rparr>]) = Inr [97, 10, 120, 10, 116, 10]"
  "landings (editReceipt exampleHost [97, 10, 98, 10] [97, 10, 120, 10, 116, 10]
      [\<lparr>editMarker = [Whole 2, Whole 9], editBody = [120]\<rparr>, \<lparr>editMarker = [Whole (-1)], editBody = [116]\<rparr>] None None)
    = [(formatLines 2 2, 8, 1), (formatLines (-4) (-4), 0, 1)]"
  by code_simp+

text \<open>A region of three marks is a region when it is applied, but its receipt reads the start column as the last line.\<close>

lemma three_marks_are_read_as_lines:
  "map_sum id editedText (lineMarkerEditBatch [97, 98, 10, 99, 10]
      [\<lparr>editMarker = [Whole 1, Whole 2, Whole 1], editBody = [120]\<rparr>]) = Inr [97, 120, 10, 99, 10]"
  "landings (editReceipt exampleHost [97, 98, 10, 99, 10] [97, 120, 10, 99, 10]
      [\<lparr>editMarker = [Whole 1, Whole 2, Whole 1], editBody = [120]\<rparr>] None None) = [(formatLines 1 1, 2, 1)]"
  by code_simp+

text \<open>An edit inside a deletion, when the line it replaces is blank, becomes the text of the deletion without a terminator:
it runs into the next line.\<close>

lemma contained_edit_fuses_lines:
  "map_sum id editedText (lineMarkerEditBatch [97, 10, 10, 99, 10, 100, 10]
      [\<lparr>editMarker = [Whole 1, Whole 3], editBody = []\<rparr>, \<lparr>editMarker = [Whole 2], editBody = [120]\<rparr>]) = Inr [120, 100, 10]"
  by code_simp

end
