(* ===== verification/JsJson.thy ===== *)
theory JsJson
  imports JsText
begin

text \<open>
  The values JavaScript hands across module boundaries, and \<open>JSON.parse\<close> and \<open>JSON.stringify\<close> of texts. Numbers are read
  exactly, which the host does up to 2^53. An object keeps its properties in the order in which they were first named.
  The reader recurses on fuel; twice the length of the text is enough, since every value takes a character.
\<close>

section \<open>Values\<close>

datatype JsValue =
    VUndefined | VNull | VBool bool | VNumber jsnum | VString jsstr
  | VArray "JsValue list" | VObject "(jsstr \<times> JsValue) list" | VOther

type_synonym JsFields = "(jsstr \<times> JsValue) list"

definition property :: "JsFields \<Rightarrow> jsstr \<Rightarrow> JsValue" where
  "property r name = (case map_of r name of None \<Rightarrow> VUndefined | Some v \<Rightarrow> v)"

section \<open>Strings\<close>

definition DOUBLE :: jschar where "DOUBLE = 34"
definition BACKSLASH :: jschar where "BACKSLASH = 92"

definition jsonWhite :: "jschar \<Rightarrow> bool" where
  "jsonWhite c \<longleftrightarrow> c = 32 \<or> c = 9 \<or> c = 10 \<or> c = 13"

definition skipWhite :: "jsstr \<Rightarrow> jsstr" where
  "skipWhite = dropWhile jsonWhite"

definition isHex :: "jschar \<Rightarrow> bool" where
  "isHex c \<longleftrightarrow> 48 \<le> c \<and> c \<le> 57 \<or> 65 \<le> c \<and> c \<le> 70 \<or> 97 \<le> c \<and> c \<le> 102"

definition hexOf :: "jschar \<Rightarrow> jschar" where
  "hexOf c = (if c \<le> 57 then c - 48 else if c \<le> 70 then c - 55 else c - 87)"

definition hexUnit :: "jsstr \<Rightarrow> jschar" where
  "hexUnit ds = foldl (\<lambda>v c. 16 * v + hexOf c) 0 ds"

definition escapes :: "(jschar \<times> jschar) list" where
  "escapes = [(34, 34), (92, 92), (47, 47), (98, 8), (102, 12), (110, 10), (114, 13), (116, 9)]"

text \<open>What is left of a string literal after its opening quote: its characters, and the text behind it.\<close>

fun jsonChars :: "jsstr \<Rightarrow> (jsstr \<times> jsstr) option" where
  "jsonChars [] = None"
| "jsonChars (c # s) =
     (if c = DOUBLE then Some ([], s)
      else if c = BACKSLASH then
        (case s of
           [] \<Rightarrow> None
         | e # t \<Rightarrow>
             if e = 117 then
               (if 4 \<le> length t \<and> list_all isHex (take 4 t)
                then map_option (\<lambda>(x, r). (hexUnit (take 4 t) # x, r)) (jsonChars (drop 4 t)) else None)
             else (case map_of escapes e of
                     None \<Rightarrow> None
                   | Some x \<Rightarrow> map_option (\<lambda>(xs, r). (x # xs, r)) (jsonChars t)))
      else if c < 32 then None
      else map_option (\<lambda>(x, r). (c # x, r)) (jsonChars s))"

definition hexDigitOf :: "nat \<Rightarrow> jschar" where
  "hexDigitOf k = of_nat (if k < 10 then 48 + k else 87 + k)"

definition unicodeEscape :: "jschar \<Rightarrow> jsstr" where
  "unicodeEscape c = [BACKSLASH, 117] @ map (\<lambda>i. hexDigitOf (unat c div 16 ^ i mod 16)) [3, 2, 1, 0]"

text \<open>\<open>JSON.stringify\<close> of a string; a surrogate without its other half is written as an escape.\<close>

fun quoteChars :: "jsstr \<Rightarrow> jsstr" where
  "quoteChars [] = []"
| "quoteChars (c # s) =
     (if c = DOUBLE then [BACKSLASH, DOUBLE] @ quoteChars s
      else if c = BACKSLASH then [BACKSLASH, BACKSLASH] @ quoteChars s
      else if c = 8 then [BACKSLASH, 98] @ quoteChars s
      else if c = 9 then [BACKSLASH, 116] @ quoteChars s
      else if c = 10 then [BACKSLASH, 110] @ quoteChars s
      else if c = 12 then [BACKSLASH, 102] @ quoteChars s
      else if c = 13 then [BACKSLASH, 114] @ quoteChars s
      else if c < 32 then unicodeEscape c @ quoteChars s
      else if highSurrogate c then
        (case s of
           [] \<Rightarrow> unicodeEscape c
         | d # t \<Rightarrow> if lowSurrogate d then [c, d] @ quoteChars t else unicodeEscape c @ quoteChars s)
      else if lowSurrogate c then unicodeEscape c @ quoteChars s
      else c # quoteChars s)"

definition quoteJson :: "jsstr \<Rightarrow> jsstr" where
  "quoteJson s = [DOUBLE] @ quoteChars s @ [DOUBLE]"

section \<open>Numbers\<close>

definition ofRat :: "rat \<Rightarrow> jsnum" where
  "ofRat q = (case quotient_of q of (n, d) \<Rightarrow> if d = 1 then Whole n else Fraction q)"

definition exponentParts :: "jsstr \<Rightarrow> (int \<times> jsstr) option" where
  "exponentParts s =
     (case s of
        [] \<Rightarrow> Some (0, [])
      | e # t \<Rightarrow>
          if e = 101 \<or> e = 69 then
            (let negative = (t \<noteq> [] \<and> hd t = 45); r = (if t \<noteq> [] \<and> (hd t = 45 \<or> hd t = 43) then tl t else t);
                 ds = takeWhile isDigit r
             in if ds = [] then None
                else Some (if negative then - digitsValue ds else digitsValue ds, dropWhile isDigit r))
          else Some (0, s))"

definition scaled :: "int \<Rightarrow> nat \<Rightarrow> int \<Rightarrow> rat" where
  "scaled n places e =
     (let k = e - int places in if 0 \<le> k then of_int (n * 10 ^ nat k) else Fract n (10 ^ nat (- k)))"

definition integerDigits :: "jsstr \<Rightarrow> jsstr" where
  "integerDigits r = (if r \<noteq> [] \<and> hd r = 48 then [48] else takeWhile isDigit r)"

definition fractionDigits :: "jsstr \<Rightarrow> jsstr option" where
  "fractionDigits t = (if t \<noteq> [] \<and> hd t = 46 then Some (takeWhile isDigit (tl t)) else None)"

definition signedNumber :: "int \<Rightarrow> jsstr \<Rightarrow> jsstr \<Rightarrow> jsstr \<Rightarrow> (jsnum \<times> jsstr) option" where
  "signedNumber sign ds fs t =
     map_option (\<lambda>(e, r). (ofRat (scaled (sign * digitsValue (ds @ fs)) (length fs) e), r)) (exponentParts t)"

definition jsonNumber :: "jsstr \<Rightarrow> (jsnum \<times> jsstr) option" where
  "jsonNumber s =
     (let negative = (s \<noteq> [] \<and> hd s = 45); sign = (if negative then - 1 else 1); r = (if negative then tl s else s);
          ds = integerDigits r; t = drop (length ds) r
      in if ds = [] then None
         else case fractionDigits t of
           None \<Rightarrow> signedNumber sign ds [] t
         | Some fs \<Rightarrow> if fs = [] then None else signedNumber sign ds fs (drop (Suc (length fs)) t))"

section \<open>Texts\<close>

definition literalValue :: "jsstr \<Rightarrow> (JsValue \<times> jsstr) option" where
  "literalValue s =
     (if take 4 s = [116, 114, 117, 101] then Some (VBool True, drop 4 s)
      else if take 5 s = [102, 97, 108, 115, 101] then Some (VBool False, drop 5 s)
      else if take 4 s = [110, 117, 108, 108] then Some (VNull, drop 4 s)
      else map_option (map_prod VNumber id) (jsonNumber s))"

fun jsonValue :: "nat \<Rightarrow> jsstr \<Rightarrow> (JsValue \<times> jsstr) option"
  and jsonElements :: "nat \<Rightarrow> jsstr \<Rightarrow> (JsValue list \<times> jsstr) option"
  and jsonMembers :: "nat \<Rightarrow> JsFields \<Rightarrow> jsstr \<Rightarrow> (JsFields \<times> jsstr) option" where
  "jsonValue 0 s = None"
| "jsonValue (Suc n) s =
     (case skipWhite s of
        [] \<Rightarrow> None
      | c # r \<Rightarrow>
          if c = DOUBLE then map_option (map_prod VString id) (jsonChars r)
          else if c = 91 then
            (if skipWhite r \<noteq> [] \<and> hd (skipWhite r) = 93 then Some (VArray [], tl (skipWhite r))
             else map_option (map_prod VArray id) (jsonElements n r))
          else if c = 123 then
            (if skipWhite r \<noteq> [] \<and> hd (skipWhite r) = 125 then Some (VObject [], tl (skipWhite r))
             else map_option (map_prod VObject id) (jsonMembers n [] r))
          else literalValue (c # r))"
| "jsonElements 0 s = None"
| "jsonElements (Suc n) s =
     (case jsonValue n s of
        None \<Rightarrow> None
      | Some (v, r) \<Rightarrow>
          (case skipWhite r of
             [] \<Rightarrow> None
           | c # t \<Rightarrow>
               if c = 44 then map_option (map_prod (\<lambda>vs. v # vs) id) (jsonElements n t)
               else if c = 93 then Some ([v], t) else None))"
| "jsonMembers 0 known s = None"
| "jsonMembers (Suc n) known s =
     (case skipWhite s of
        [] \<Rightarrow> None
      | c # r \<Rightarrow>
          if c \<noteq> DOUBLE then None
          else case jsonChars r of
            None \<Rightarrow> None
          | Some (key, t) \<Rightarrow>
              if skipWhite t = [] \<or> hd (skipWhite t) \<noteq> 58 then None
              else case jsonValue n (tl (skipWhite t)) of
                None \<Rightarrow> None
              | Some (v, u) \<Rightarrow>
                  (case skipWhite u of
                     [] \<Rightarrow> None
                   | d # w \<Rightarrow>
                       if d = 44 then jsonMembers n (mapSet key v known) w
                       else if d = 125 then Some (mapSet key v known, w) else None))"

definition parseJson :: "jsstr \<Rightarrow> JsValue option" where
  "parseJson s =
     (case jsonValue (2 * length s + 1) s of
        None \<Rightarrow> None
      | Some (v, r) \<Rightarrow> if skipWhite r = [] then Some v else None)"

section \<open>Strings read back\<close>

lemma hex_digits: "\<forall>k \<in> set [0..<16]. isHex (hexDigitOf k) \<and> hexOf (hexDigitOf k) = of_nat k"
  by (simp add: upt_conv_Cons isHex_def hexOf_def hexDigitOf_def)

lemma hex_digit: "k < 16 \<Longrightarrow> isHex (hexDigitOf k)" "k < 16 \<Longrightarrow> hexOf (hexDigitOf k) = of_nat k"
  using hex_digits by auto

lemma nibbles: "(16 * (16 * (16 * (u div 4096 mod 16) + u div 256 mod 16) + u div 16 mod 16) + u mod 16 :: nat) = u mod 65536"
proof -
  have "u mod (16 * 4096) = 16 * (u div 16 mod 4096) + u mod 16" by (rule mod_mult2_eq)
  moreover have "u div 16 mod (16 * 256) = 16 * (u div 16 div 16 mod 256) + u div 16 mod 16" by (rule mod_mult2_eq)
  moreover have "u div 16 div 16 mod (16 * 16) = 16 * (u div 16 div 16 div 16 mod 16) + u div 16 div 16 mod 16" by (rule mod_mult2_eq)
  ultimately show ?thesis by (simp flip: div_mult2_eq)
qed

lemma hexUnit_escape:
  "hexUnit (map (\<lambda>i. hexDigitOf (unat c div 16 ^ i mod 16)) [3, 2, 1, 0]) = c"
proof -
  let ?u = "unat c"
  have "hexUnit (map (\<lambda>i. hexDigitOf (?u div 16 ^ i mod 16)) [3, 2, 1, 0]) =
    of_nat (16 * (16 * (16 * (?u div 4096 mod 16) + ?u div 256 mod 16) + ?u div 16 mod 16) + ?u mod 16)"
    by (simp add: hexUnit_def hex_digit(2))
  also have "\<dots> = c" unfolding nibbles using unsigned_less [of c, where ?'a = nat] by simp
  finally show ?thesis .
qed

lemma jsonChars_escape: "jsonChars (unicodeEscape c @ s) = map_option (\<lambda>(x, r). (c # x, r)) (jsonChars s)"
  using hexUnit_escape [of c] by (simp add: unicodeEscape_def DOUBLE_def BACKSLASH_def hex_digit(1))

lemma jsonChars_quoted: "jsonChars (quoteChars s @ DOUBLE # r) = Some (s, r)"
proof (induction s rule: quoteChars.induct)
  case (2 c s)
  note marks = DOUBLE_def BACKSLASH_def escapes_def
  show ?case
  proof (cases "c = DOUBLE \<or> c = BACKSLASH \<or> c = 8 \<or> c = 9 \<or> c = 10 \<or> c = 12 \<or> c = 13")
    case True
    then show ?thesis using 2(1-7) by (auto simp: marks)
  next
    case plain: False
    show ?thesis
    proof (cases "c < 32")
      case True
      then show ?thesis using plain 2(8) by (simp add: jsonChars_escape)
    next
      case False
      have high: "highSurrogate d \<or> lowSurrogate d \<Longrightarrow> d \<noteq> DOUBLE \<and> d \<noteq> BACKSLASH \<and> \<not> d < 32" for d
        by (auto simp: highSurrogate_def lowSurrogate_def DOUBLE_def BACKSLASH_def word_le_nat_alt word_less_nat_alt)
      show ?thesis
        using plain False 2(9-) high [of c] high [of "hd s"]
        by (cases s) (auto simp: jsonChars_escape)
    qed
  qed
qed simp

lemma jsonChars_quoteJson: "jsonChars (tl (quoteJson s) @ r) = Some (s, r)"
  using jsonChars_quoted [of s r] by (simp add: quoteJson_def)

section \<open>Values read back\<close>

text \<open>What may stand behind a value.\<close>

definition stops :: "jsstr \<Rightarrow> bool" where
  "stops r \<longleftrightarrow> r = [] \<or> hd r \<in> {44, 93, 125}"

definition reads :: "nat \<Rightarrow> jsstr \<Rightarrow> JsValue \<Rightarrow> bool" where
  "reads n s v \<longleftrightarrow> (\<forall>m \<ge> n. \<forall>r. stops r \<longrightarrow> jsonValue m (s @ r) = Some (v, r))"

lemma readsD: "reads n s v \<Longrightarrow> n \<le> m \<Longrightarrow> stops r \<Longrightarrow> jsonValue m (s @ r) = Some (v, r)"
  by (simp add: reads_def)

lemma reads_mono: "reads n s v \<Longrightarrow> n \<le> m \<Longrightarrow> reads m s v"
  by (simp add: reads_def)

lemma readsI: "(\<And>m r. n \<le> m \<Longrightarrow> stops r \<Longrightarrow> jsonValue (Suc m) (s @ r) = Some (v, r)) \<Longrightarrow> reads (Suc n) s v"
  by (metis Suc_le_D Suc_le_mono reads_def)

lemma ofRat_of_int [simp]: "ofRat (of_int n) = Whole n"
  by (simp add: ofRat_def)

lemma stops_digit: "stops r \<Longrightarrow> r = [] \<or> \<not> isDigit (hd r)"
  by (auto simp: stops_def isDigit_def)

lemma decimal_taken_stops:
  assumes "stops r"
  shows "takeWhile isDigit (decimal n @ r) = decimal n"
  using stops_digit [OF assms] decimal_digits [of n] by (cases r) (simp_all add: takeWhile_append2)

lemma decimal_hd: "isDigit (hd (decimal n))"
  using decimal_digits [of n] by (cases "decimal n") auto

lemma integerDigits_decimal: "stops r \<Longrightarrow> integerDigits (decimal n @ r) = decimal n"
proof (cases "n = 0")
  case True
  then show ?thesis by (simp add: decimal.simps integerDigits_def)
next
  case False
  assume "stops r"
  then show ?thesis using decimal_head [of n] decimal_taken_stops [of r n] False by (simp add: integerDigits_def)
qed

lemma jsonNumber_decimal:
  assumes "stops r"
  shows "jsonNumber (decimal n @ r) = Some (Whole (int n), r)"
proof -
  have "hd (decimal n) \<noteq> 45" using decimal_hd [of n] by (auto simp: isDigit_def)
  moreover have "fractionDigits r = None" using assms by (auto simp: stops_def fractionDigits_def)
  moreover have "exponentParts r = Some (0, r)" using assms by (cases r) (auto simp: stops_def exponentParts_def)
  moreover have "scaled (int n) 0 0 = of_int (int n)" by (simp add: scaled_def)
  ultimately show ?thesis
    using integerDigits_decimal [OF assms, of n]
    by (simp add: jsonNumber_def signedNumber_def Let_def digitsValue_decimal del: of_int_of_nat_eq)
qed

lemma skipWhite_spaces [simp]: "skipWhite (replicate k SPACE @ s) = skipWhite s"
  by (induction k) (simp_all add: skipWhite_def jsonWhite_def SPACE_def)

lemma skipWhite_here: "\<not> jsonWhite c \<Longrightarrow> skipWhite (c # s) = c # s"
  by (simp add: skipWhite_def)

lemma reads_number: "reads 1 (replicate k SPACE @ decimal n) (VNumber (Whole (int n)))"
proof -
  obtain c cs where c: "decimal n = c # cs" by (cases "decimal n") auto
  have d: "isDigit c" using decimal_hd [of n] c by simp
  then have ne: "\<not> jsonWhite c" "c \<noteq> DOUBLE" "c \<noteq> 91" "c \<noteq> 123" "c \<noteq> 116" "c \<noteq> 102" "c \<noteq> 110"
    by (auto simp: isDigit_def jsonWhite_def DOUBLE_def)
  show ?thesis
    unfolding One_nat_def
  proof (rule readsI)
    fix m r
    assume "stops r"
    then have "literalValue (decimal n @ r) = Some (VNumber (Whole (int n)), r)"
      using c ne jsonNumber_decimal [of r n] by (simp add: literalValue_def)
    then show "jsonValue (Suc m) ((replicate k SPACE @ decimal n) @ r) = Some (VNumber (Whole (int n)), r)"
      using c ne by (simp add: skipWhite_here)
  qed
qed

lemma reads_string: "reads 1 (quoteJson s) (VString s)"
  unfolding One_nat_def
proof (rule readsI)
  fix m r
  have q: "quoteJson s @ r = DOUBLE # tl (quoteJson s) @ r" by (simp add: quoteJson_def)
  have "\<not> jsonWhite DOUBLE" by (simp add: jsonWhite_def DOUBLE_def)
  then show "jsonValue (Suc m) (quoteJson s @ r) = Some (VString s, r)"
    unfolding q by (simp add: skipWhite_here jsonChars_quoteJson)
qed

section \<open>Objects and arrays read back\<close>

definition memberText :: "jsstr \<times> jsstr \<Rightarrow> jsstr" where
  "memberText m = quoteJson (fst m) @ [58] @ snd m"

definition objectText :: "(jsstr \<times> jsstr) list \<Rightarrow> jsstr" where
  "objectText ms = [123] @ joinWith [44] (map memberText ms) @ [125]"

definition arrayText :: "jsstr list \<Rightarrow> jsstr" where
  "arrayText ts = [91] @ joinWith [44] ts @ [93]"

lemma white_marks [simp]:
  "jsonWhite DOUBLE = False" "jsonWhite 44 = False" "jsonWhite 58 = False" "jsonWhite 91 = False" "jsonWhite 93 = False"
  "jsonWhite 123 = False" "jsonWhite 125 = False"
  by (simp_all add: jsonWhite_def DOUBLE_def)

lemma DOUBLE_marks [simp]: "DOUBLE \<noteq> 125" "DOUBLE \<noteq> 93" "91 \<noteq> DOUBLE" "123 \<noteq> DOUBLE"
  by (simp_all add: DOUBLE_def)

lemma stops_marks [simp]: "stops (44 # r)" "stops (93 # r)" "stops (125 # r)" "stops []"
  by (simp_all add: stops_def)

lemma mapSet_new: "k \<notin> fst ` set known \<Longrightarrow> mapSet k v known = known @ [(k, v)]"
  by (simp add: mapSet_def)

lemma jsonMembers_step:
  assumes "reads n t v" "n \<le> m" "stops r"
  shows "jsonMembers (Suc m) known (memberText (k, t) @ r) =
    (case skipWhite r of
       [] \<Rightarrow> None
     | d # w \<Rightarrow> if d = 44 then jsonMembers m (mapSet k v known) w
               else if d = 125 then Some (mapSet k v known, w) else None)"
proof -
  have q: "memberText (k, t) @ r = DOUBLE # tl (quoteJson k) @ 58 # t @ r" by (simp add: memberText_def quoteJson_def)
  show ?thesis
    unfolding q using readsD [OF assms]
    by (simp add: skipWhite_here jsonChars_quoteJson [of k "58 # t @ r"])
qed

lemma jsonMembers_text:
  assumes "list_all2 (\<lambda>m (k, v). fst m = k \<and> reads n (snd m) v) ms fs" "ms \<noteq> []"
    and "distinct (map fst known @ map fst fs)" "n + length ms \<le> N"
  shows "jsonMembers N known (joinWith [44] (map memberText ms) @ 125 # r) = Some (known @ fs, r)"
  using assms
proof (induction ms arbitrary: fs known N)
  case (Cons m ms)
  obtain k v gs where fs: "fs = (k, v) # gs" "fst m = k" "reads n (snd m) v"
    "list_all2 (\<lambda>m (k, v). fst m = k \<and> reads n (snd m) v) ms gs"
    using Cons.prems(1) by (auto simp: list_all2_Cons1)
  have m: "m = (k, snd m)" using fs(2) by (cases m) simp
  obtain M where N: "N = Suc M" "n \<le> M" "n + length ms \<le> M" using Cons.prems(4) by (cases N) auto
  have new: "mapSet k v known = known @ [(k, v)]" using Cons.prems(3) fs(1) by (intro mapSet_new) auto
  show ?case
  proof (cases ms)
    case Nil
    have "jsonMembers (Suc M) known (memberText (k, snd m) @ 125 # r) = Some (known @ [(k, v)], r)"
      using jsonMembers_step [OF fs(3) N(2), of "125 # r"] by (simp add: skipWhite_here new)
    then show ?thesis using Nil fs m N by simp
  next
    case (Cons m' ms')
    let ?rest = "joinWith [44] (map memberText ms) @ 125 # r"
    have "jsonMembers M (known @ [(k, v)]) ?rest = Some ((known @ [(k, v)]) @ gs, r)"
      by (rule Cons.IH [OF fs(4)]) (use Cons Cons.prems(3) fs(1) N in auto)
    moreover have "joinWith [44] (map memberText (m # ms)) @ 125 # r = memberText (k, snd m) @ 44 # ?rest"
      using Cons m by simp
    ultimately show ?thesis
      using jsonMembers_step [OF fs(3) N(2), of "44 # ?rest"] fs(1) N(1) by (simp add: skipWhite_here new)
  qed
qed simp

lemma reads_object:
  assumes "list_all2 (\<lambda>m (k, v). fst m = k \<and> reads n (snd m) v) ms fs" "ms \<noteq> []" "distinct (map fst fs)"
  shows "reads (Suc (n + length ms)) (objectText ms) (VObject fs)"
proof (rule readsI)
  fix N r
  assume N: "n + length ms \<le> N" and "stops r"
  have "jsonMembers N [] (joinWith [44] (map memberText ms) @ 125 # r) = Some (fs, r)"
    using jsonMembers_text [OF assms(1,2) _ N, of "[]" r] assms(3) by simp
  moreover obtain s where "joinWith [44] (map memberText ms) = DOUBLE # s"
    using assms(2) by (cases ms; cases "tl ms") (auto simp: memberText_def quoteJson_def)
  ultimately show "jsonValue (Suc N) (objectText ms @ r) = Some (VObject fs, r)"
    by (simp add: objectText_def skipWhite_here)
qed

lemma reads_not_close: "reads n t v \<Longrightarrow> stops r \<Longrightarrow> \<not> (skipWhite (t @ r) \<noteq> [] \<and> hd (skipWhite (t @ r)) = 93)"
proof
  assume "reads n t v" "stops r" "skipWhite (t @ r) \<noteq> [] \<and> hd (skipWhite (t @ r)) = 93"
  then obtain s where "skipWhite (t @ r) = 93 # s" "jsonValue (Suc n) (t @ r) = Some (v, r)"
    using readsD [of n t v "Suc n" r] by (cases "skipWhite (t @ r)") auto
  moreover have "literalValue (93 # s) = None"
    by (simp add: literalValue_def jsonNumber_def integerDigits_def Let_def isDigit_def)
  ultimately show False by simp
qed

lemma jsonElements_text:
  assumes "list_all2 (reads n) ts vs" "ts \<noteq> []" "n + length ts \<le> N"
  shows "jsonElements N (joinWith [44] ts @ 93 # r) = Some (vs, r)"
  using assms
proof (induction ts arbitrary: vs N)
  case (Cons t ts)
  obtain v ws where vs: "vs = v # ws" "reads n t v" "list_all2 (reads n) ts ws"
    using Cons.prems(1) by (auto simp: list_all2_Cons1)
  obtain M where N: "N = Suc M" "n \<le> M" "n + length ts \<le> M" using Cons.prems(3) by (cases N) auto
  show ?case
  proof (cases ts)
    case Nil
    then show ?thesis using readsD [OF vs(2) N(2), of "93 # r"] vs N by (simp add: skipWhite_here)
  next
    case (Cons t' ts')
    let ?rest = "joinWith [44] ts @ 93 # r"
    have "jsonElements M ?rest = Some (ws, r)" by (rule Cons.IH [OF vs(3)]) (use Cons N in auto)
    moreover have "joinWith [44] (t # ts) @ 93 # r = t @ 44 # ?rest" using Cons by simp
    ultimately show ?thesis
      using readsD [OF vs(2) N(2), of "44 # ?rest"] vs(1) N(1) by (simp add: skipWhite_here)
  qed
qed simp

lemma reads_array:
  assumes "list_all2 (reads n) ts vs"
  shows "reads (Suc (n + length ts)) (arrayText ts) (VArray vs)"
proof (rule readsI)
  fix N r
  assume N: "n + length ts \<le> N" and "stops r"
  show "jsonValue (Suc N) (arrayText ts @ r) = Some (VArray vs, r)"
  proof (cases ts)
    case Nil
    then show ?thesis using assms by (simp add: arrayText_def skipWhite_here)
  next
    case (Cons t us)
    let ?s = "joinWith [44] ts @ 93 # r"
    have e: "jsonElements N ?s = Some (vs, r)" using jsonElements_text [OF assms _ N] Cons by simp
    obtain v where v: "reads n t v" using assms Cons by (auto simp: list_all2_Cons1)
    have "\<exists>q. ?s = t @ q \<and> stops q" using Cons by (cases us) auto
    then obtain q where "?s = t @ q" "stops q" by blast
    then have "\<not> (skipWhite ?s \<noteq> [] \<and> hd (skipWhite ?s) = 93)" using reads_not_close [OF v, of q] by simp
    then show ?thesis using e by (auto simp: arrayText_def skipWhite_here)
  qed
qed

lemma parseJson_reads: "reads n s v \<Longrightarrow> n \<le> 2 * length s + 1 \<Longrightarrow> parseJson s = Some v"
  using readsD [of n s v "2 * length s + 1" "[]"] by (simp add: parseJson_def skipWhite_def)

end
