(* ===== verification/ReceiptChecks.thy ===== *)
theory ReceiptChecks
  imports EditReceipt JsJson
begin

text \<open>
  The second half of \<^verbatim>\<open>plurnk-core/src/content/edit-receipt.ts\<close>: the checks that a receipt crossing a module
  boundary passes, the projection of a batch receipt to the receipt of one edit, and the receipt of a batch that a
  reviewer replaced. The values are what JavaScript may hand over: an object is its own properties in order.
\<close>

section \<open>Values\<close>

definition hasOwn :: "JsFields \<Rightarrow> jsstr \<Rightarrow> bool" where
  "hasOwn r name \<longleftrightarrow> name \<in> fst ` set r"

definition invalid :: "ReceiptInvalid \<Rightarrow> ReceiptError + 'a" where
  "invalid e = Inl (InvalidReceipt e)"

fun receiptRecord :: "JsValue \<Rightarrow> jsstr \<Rightarrow> ReceiptError + JsFields" where
  "receiptRecord (VObject r) label = Inr r"
| "receiptRecord v label = invalid (NotAnObject label)"

definition exactFields :: "JsFields \<Rightarrow> jsstr list \<Rightarrow> jsstr \<Rightarrow> ReceiptError + unit" where
  "exactFields r names label =
     (case find (\<lambda>name. name \<notin> set names) (map fst r) of
        Some unexpected \<Rightarrow> invalid (UnexpectedField label unexpected)
      | None \<Rightarrow>
          (case find (\<lambda>name. \<not> hasOwn r name) names of
             Some missing \<Rightarrow> invalid (MissingField label missing)
           | None \<Rightarrow> Inr ()))"

fun isExtent :: "JsValue \<Rightarrow> bool" where
  "isExtent (VNumber (Whole n)) \<longleftrightarrow> safeInt n \<and> 0 \<le> n"
| "isExtent v \<longleftrightarrow> False"

fun isString :: "JsValue \<Rightarrow> bool" where
  "isString (VString s) = True"
| "isString v = False"

fun isText :: "JsValue \<Rightarrow> bool" where
  "isText (VString s) \<longleftrightarrow> s \<noteq> []"
| "isText v \<longleftrightarrow> False"

definition demand :: "bool \<Rightarrow> ReceiptInvalid \<Rightarrow> ReceiptError + unit" where
  "demand ok e = (if ok then Inr () else invalid e)"

lemma demand_Inr [simp]: "demand ok e = Inr u \<longleftrightarrow> ok"
  by (simp add: demand_def invalid_def)

section \<open>Checks\<close>

definition assertParseIssues :: "JsValue \<Rightarrow> ReceiptError + unit" where
  "assertParseIssues v =
     (let label = js ''EDIT receipt parseIssues''
      in andThen (receiptRecord v label) (\<lambda>r.
         andThen (exactFields r [js ''before'', js ''after''] label) (\<lambda>_.
         andThen (demand (isExtent (property r (js ''before''))) (IssueCountInvalid (js ''before''))) (\<lambda>_.
         andThen (demand (isExtent (property r (js ''after''))) (IssueCountInvalid (js ''after''))) (\<lambda>_.
           demand (\<not> (property r (js ''before'') = VNumber (Whole 0) \<and> property r (js ''after'') = VNumber (Whole 0)))
             IssuesBothZero)))))"

definition receiptFields :: "JsFields \<Rightarrow> jsstr list \<Rightarrow> jsstr list" where
  "receiptFields r tailFields =
     map js [''revision'', ''unit'', ''before'', ''after''] @
     (if hasOwn r (js ''parseIssues'') then [js ''parseIssues''] else []) @ tailFields"

definition effectStrings :: "jsstr list" where
  "effectStrings = map js [''requested'', ''source'', ''result'', ''context'']"

definition assertEffectReceipt :: "JsValue \<Rightarrow> ReceiptError + unit" where
  "assertEffectReceipt v =
     (let label = js ''EDIT effect receipt''
      in andThen (receiptRecord v label) (\<lambda>r.
         andThen (exactFields (filter (\<lambda>p. fst p \<noteq> js ''removedText'') r)
             (map js [''requested'', ''source'', ''result'', ''removed'', ''inserted'', ''context'']) label) (\<lambda>_.
         andThen (demand (property r (js ''removedText'') = VUndefined \<or> isString (property r (js ''removedText'')))
             RemovedTextNotString) (\<lambda>_.
         andThen (case find (\<lambda>name. \<not> isString (property r name)) effectStrings of
             Some name \<Rightarrow> invalid (EffectFieldNotString name) | None \<Rightarrow> Inr ()) (\<lambda>_.
         andThen (demand (isExtent (property r (js ''removed''))) (ExtentInvalid (js ''removed''))) (\<lambda>_.
           demand (isExtent (property r (js ''inserted''))) (ExtentInvalid (js ''inserted'')))))))) "

text \<open>\<open>/^[a-f0-9]{64}$/\<close>.\<close>

definition isDigest :: "jsstr \<Rightarrow> bool" where
  "isDigest s \<longleftrightarrow> length s = 64 \<and> list_all (\<lambda>c. 97 \<le> c \<and> c \<le> 102 \<or> isDigit c) s"

fun isRevision :: "JsValue \<Rightarrow> bool" where
  "isRevision (VString s) \<longleftrightarrow> isDigest s"
| "isRevision v \<longleftrightarrow> False"

definition assertReceiptHead :: "JsFields \<Rightarrow> jsstr \<Rightarrow> ReceiptError + unit" where
  "assertReceiptHead r label =
     andThen (demand (isRevision (property r (js ''revision''))) (RevisionInvalid label)) (\<lambda>_.
     andThen (demand (property r (js ''unit'') = VString (js ''lines'') \<or> property r (js ''unit'') = VString (js ''codePoints''))
         (UnitInvalid label)) (\<lambda>_.
     andThen (demand (isExtent (property r (js ''before''))) (ExtentInvalid (js ''before''))) (\<lambda>_.
     andThen (demand (isExtent (property r (js ''after''))) (ExtentInvalid (js ''after''))) (\<lambda>_.
       if hasOwn r (js ''parseIssues'') then assertParseIssues (property r (js ''parseIssues'')) else Inr ()))))"

definition assertEditReceipt :: "JsValue \<Rightarrow> ReceiptError + unit" where
  "assertEditReceipt v =
     (let label = js ''EDIT receipt''
      in andThen (receiptRecord v label) (\<lambda>r.
         if property r (js ''disposition'') = VString (js ''superseded'')
         then andThen (exactFields r (receiptFields r
                (if hasOwn r (js ''replacement'') then map js [''disposition'', ''requested'', ''replacement'']
                 else map js [''disposition'', ''requested''])) label) (\<lambda>_.
              andThen (assertReceiptHead r label) (\<lambda>_.
              andThen (demand (isText (property r (js ''requested''))) RequestedEmpty) (\<lambda>_.
                if hasOwn r (js ''replacement'') then assertEffectReceipt (property r (js ''replacement'')) else Inr ())))
         else andThen (exactFields r (receiptFields r [js ''effect'']) label) (\<lambda>_.
              andThen (assertReceiptHead r label) (\<lambda>_.
                assertEffectReceipt (property r (js ''effect''))))))"

fun arrayOf :: "JsValue \<Rightarrow> JsValue list" where
  "arrayOf (VArray vs) = vs"
| "arrayOf v = []"

definition assertEditBatchReceipt :: "JsValue \<Rightarrow> ReceiptError + JsFields" where
  "assertEditBatchReceipt v =
     (let label = js ''EDIT batch receipt''
      in andThen (receiptRecord v label) (\<lambda>r.
         if property r (js ''disposition'') = VString (js ''reviewer-replaced'')
         then andThen (exactFields r (receiptFields r (map js [''disposition'', ''superseded'', ''replacement''])) label) (\<lambda>_.
              andThen (assertReceiptHead r label) (\<lambda>_.
              andThen (demand (arrayOf (property r (js ''superseded'')) \<noteq> []
                  \<and> list_all isText (arrayOf (property r (js ''superseded'')))) SupersededInvalid) (\<lambda>_.
              andThen (assertEffectReceipt (property r (js ''replacement''))) (\<lambda>_. Inr r))))
         else andThen (exactFields r (receiptFields r [js ''effects'']) label) (\<lambda>_.
              andThen (assertReceiptHead r label) (\<lambda>_.
              andThen (demand (arrayOf (property r (js ''effects'')) \<noteq> []) EffectsEmpty) (\<lambda>_.
              andThen (mapResult assertEffectReceipt (arrayOf (property r (js ''effects'')))) (\<lambda>_. Inr r))))))"

section \<open>Projection\<close>

text \<open>The object literals that take the head of a receipt over.\<close>

definition headOf :: "JsFields \<Rightarrow> JsFields" where
  "headOf r = map (\<lambda>name. (name, property r name)) (map js [''revision'', ''unit'', ''before'', ''after''])
     @ (if property r (js ''parseIssues'') = VUndefined then []
        else [(js ''parseIssues'', property r (js ''parseIssues''))])"

definition projectEditReceipt :: "JsValue \<Rightarrow> nat \<Rightarrow> ReceiptError + JsValue" where
  "projectEditReceipt v i =
     andThen (assertEditBatchReceipt v) (\<lambda>r.
       if hasOwn r (js ''disposition'')
       then (case atIndex (arrayOf (property r (js ''superseded''))) i of
               None \<Rightarrow> Inl (NoSupersededAt i)
             | Some name \<Rightarrow> Inr (VObject (headOf r @ [(js ''disposition'', VString (js ''superseded'')), (js ''requested'', name)]
                 @ (if i = 0 then [(js ''replacement'', property r (js ''replacement''))] else []))))
       else (case atIndex (arrayOf (property r (js ''effects''))) i of
               None \<Rightarrow> Inl (NoEffectAt i)
             | Some effect \<Rightarrow> Inr (VObject (headOf r @ [(js ''effect'', effect)]))))"

definition withEditReceiptParseIssues :: "JsValue \<Rightarrow> JsValue option \<Rightarrow> ReceiptError + JsValue" where
  "withEditReceiptParseIssues v issues =
     andThen (case issues of None \<Rightarrow> Inr () | Some t \<Rightarrow> assertParseIssues t) (\<lambda>_.
     andThen (assertEditBatchReceipt v) (\<lambda>r.
       let next = filter (\<lambda>p. fst p \<noteq> js ''parseIssues'') r
                  @ (case issues of None \<Rightarrow> [] | Some t \<Rightarrow> [(js ''parseIssues'', t)])
       in andThen (assertEditBatchReceipt (VObject next)) (\<lambda>_. Inr (VObject next))))"

section \<open>Effects on resources\<close>

definition assertResourceEffect :: "JsValue \<Rightarrow> ReceiptError + unit" where
  "assertResourceEffect v =
     (let label = js ''Resource effect''
      in andThen (receiptRecord v label) (\<lambda>r.
         andThen (exactFields r (if hasOwn r (js ''receipt'') then map js [''target'', ''action'', ''receipt'']
             else map js [''target'', ''action'']) label) (\<lambda>_.
         andThen (demand (isText (property r (js ''target''))) TargetEmpty) (\<lambda>_.
         andThen (demand (property r (js ''action'') \<in> VString ` set (map js [''create'', ''update'', ''delete''])) ActionInvalid) (\<lambda>_.
           if hasOwn r (js ''receipt'')
           then andThen (demand (property r (js ''action'') \<noteq> VString (js ''delete'')) ReceiptOnDelete) (\<lambda>_.
                andThen (assertEditReceipt (property r (js ''receipt''))) (\<lambda>_.
                andThen (receiptRecord (property r (js ''receipt'')) label) (\<lambda>q.
                  demand (property r (js ''action'') = VString (js ''create'') \<longrightarrow> property q (js ''before'') = VNumber (Whole 0))
                    CreatedFromSomething)))
           else Inr ())))))"

definition assertResourceEffects :: "JsValue \<Rightarrow> ReceiptError + unit" where
  "assertResourceEffects v =
     andThen (demand (arrayOf v \<noteq> []) ResourceEffectsEmpty) (\<lambda>_.
     andThen (mapResult assertResourceEffect (arrayOf v)) (\<lambda>_. Inr ()))"

section \<open>Receipts as values\<close>

definition effectValue :: "EffectReceipt \<Rightarrow> JsValue" where
  "effectValue e = VObject ([(js ''requested'', VString (requested e)), (js ''source'', VString (effectSource e)),
     (js ''result'', VString (effectResult e)), (js ''removed'', VNumber (Whole (removed e))),
     (js ''inserted'', VNumber (Whole (inserted e))), (js ''context'', VString (effectContext e))]
     @ (case removedText e of None \<Rightarrow> [] | Some t \<Rightarrow> [(js ''removedText'', VString t)]))"

definition headValue :: "'a ReceiptHead_scheme \<Rightarrow> JsFields" where
  "headValue q = [(js ''revision'', VString (revision q)),
     (js ''unit'', VString (case receiptUnit q of LinesUnit \<Rightarrow> js ''lines'' | CodePointsUnit \<Rightarrow> js ''codePoints'')),
     (js ''before'', VNumber (Whole (extentBefore q))), (js ''after'', VNumber (Whole (extentAfter q)))]
     @ (case parseIssues q of None \<Rightarrow> []
        | Some t \<Rightarrow> [(js ''parseIssues'', VObject [(js ''before'', VNumber (Whole (issuesBefore t))),
             (js ''after'', VNumber (Whole (issuesAfter t)))])])"

definition appliedValue :: "AppliedReceipt \<Rightarrow> JsValue" where
  "appliedValue q = VObject (headValue q @ [(js ''effects'', VArray (map effectValue (effects q)))])"

definition replacedValue :: "ReplacedReceipt \<Rightarrow> JsValue" where
  "replacedValue q = VObject (headValue q @ [(js ''disposition'', VString (js ''reviewer-replaced'')),
     (js ''superseded'', VArray (map VString (superseded q))), (js ''replacement'', effectValue (replacement q))])"

fun stringOf :: "JsValue \<Rightarrow> jsstr" where
  "stringOf (VString s) = s"
| "stringOf v = []"

fun fieldsOf :: "JsValue \<Rightarrow> JsFields" where
  "fieldsOf (VObject r) = r"
| "fieldsOf v = []"

definition reviewerReplacementReceipt ::
  "ReceiptHost \<Rightarrow> jsstr \<Rightarrow> jsstr \<Rightarrow> JsValue \<Rightarrow> ParseIssueTransition option \<Rightarrow> jsstr option
     \<Rightarrow> ReceiptError + ReplacedReceipt" where
  "reviewerReplacementReceipt h original updated authored issues identity =
     andThen (assertEditBatchReceipt authored) (\<lambda>r.
       if hasOwn r (js ''disposition'') then invalid AlreadyReplaced
       else andThen (editReceipt h original updated
           [\<lparr>editMarker = [Whole 1, Whole (-1)], editBody = updated\<rparr>] issues identity) (\<lambda>landed.
         case effects landed of
           [] \<Rightarrow> Inl ReplacementOmitted
         | e # _ \<Rightarrow> Inr \<lparr>revision = revision landed, receiptUnit = receiptUnit landed,
             extentBefore = extentBefore landed, extentAfter = extentAfter landed, parseIssues = parseIssues landed,
             superseded = map (\<lambda>effect. stringOf (property (fieldsOf effect) (js ''requested'')))
               (arrayOf (property r (js ''effects''))),
             replacement = e\<rparr>))"


section \<open>Lemmas\<close>

lemma js_inject [simp]: "js s = js t \<longleftrightarrow> s = t"
proof -
  have "inj (\<lambda>c. of_nat (of_char c) :: jschar)"
  proof (rule injI)
    fix c d assume "(of_nat (of_char c) :: jschar) = of_nat (of_char d)"
    moreover have "unat (of_nat (of_char x) :: jschar) = of_char x" for x
      using nat_of_char_less_256 [of x] by (intro of_nat_inverse [OF refl]) (auto intro: less_trans [of _ 256])
    ultimately have "(of_char c :: nat) = of_char d" by metis
    then show "c = d" by simp
  qed
  then show ?thesis by (simp add: js_def inj_map_eq_map)
qed

lemma exactFields_Inr:
  "exactFields r names label = Inr u \<longleftrightarrow> fst ` set r = set names"
proof (cases "find (\<lambda>name. name \<notin> set names) (map fst r)")
  case (Some k)
  then have "k \<in> fst ` set r - set names" by (metis DiffI find_Some_iff list.set_map nth_mem)
  then show ?thesis using Some by (auto simp: exactFields_def invalid_def)
next
  case None
  then have sub: "fst ` set r \<subseteq> set names" by (auto simp: find_None_iff)
  show ?thesis
  proof (cases "find (\<lambda>name. \<not> hasOwn r name) names")
    case None': None
    then have "\<forall>k \<in> set names. hasOwn r k" by (auto simp: find_None_iff)
    moreover have "exactFields r names label = Inr ()" by (simp only: exactFields_def None None' option.case)
    ultimately show ?thesis using sub by (auto simp: hasOwn_def)
  next
    case (Some k)
    then have "k \<in> set names - fst ` set r" by (metis DiffI find_Some_iff hasOwn_def nth_mem)
    then show ?thesis using None Some by (auto simp: exactFields_def invalid_def)
  qed
qed

lemma hasOwn_map_of: "hasOwn r name \<longleftrightarrow> map_of r name \<noteq> None"
  by (simp add: hasOwn_def map_of_eq_None_iff)

lemma property_append:
  "property (r @ t) name = (if hasOwn r name then property r name else property t name)"
  by (cases "map_of r name") (simp_all add: property_def hasOwn_map_of map_add_def)

lemma hasOwn_append [simp]: "hasOwn (r @ t) name \<longleftrightarrow> hasOwn r name \<or> hasOwn t name"
  by (auto simp: hasOwn_def)

lemma property_simps [simp]:
  "property [] name = VUndefined"
  "property ((k, v) # r) name = (if name = k then v else property r name)"
  by (auto simp: property_def)

lemma hasOwn_simps [simp]:
  "\<not> hasOwn [] name" "hasOwn ((k, v) # r) name \<longleftrightarrow> name = k \<or> hasOwn r name"
  by (auto simp: hasOwn_def)

lemma property_absent: "\<not> hasOwn r name \<Longrightarrow> property r name = VUndefined"
  by (simp add: property_def hasOwn_map_of)

lemma receiptRecord_Inr: "receiptRecord v label = Inr r \<longleftrightarrow> v = VObject r"
  by (cases v) (auto simp: invalid_def)

lemma parseIssues_defined: "assertParseIssues v = Inr u \<Longrightarrow> v \<noteq> VUndefined"
  by (auto simp: assertParseIssues_def andThen_Inr_iff receiptRecord_Inr Let_def)

text \<open>A head that passes is taken over as it is.\<close>

lemma head_accepted:
  assumes "assertReceiptHead r label = Inr ()"
    and "\<forall>name \<in> fst ` set t. name \<notin> set (map js [''revision'', ''unit'', ''before'', ''after'', ''parseIssues''])"
  shows "assertReceiptHead (headOf r @ t) label' = Inr ()"
    "fst ` set (headOf r @ t) = set (receiptFields (headOf r @ t) (map fst t))"
proof -
  have issues: "hasOwn r (js ''parseIssues'') \<longleftrightarrow> property r (js ''parseIssues'') \<noteq> VUndefined"
    using assms(1) property_absent [of r] parseIssues_defined
    by (auto simp: assertReceiptHead_def andThen_Inr_iff split: if_splits)
  have t: "\<not> hasOwn t (js ''parseIssues'')" using assms(2) by (auto simp: hasOwn_def)
  have own: "hasOwn (headOf r @ t) (js ''parseIssues'') \<longleftrightarrow> property r (js ''parseIssues'') \<noteq> VUndefined"
    using t by (auto simp: headOf_def)
  have same: "property (headOf r @ t) name = property r name"
    if "name \<in> set (map js [''revision'', ''unit'', ''before'', ''after''])" for name
    using that by (auto simp: headOf_def property_append)
  have same_issues: "property r (js ''parseIssues'') \<noteq> VUndefined \<Longrightarrow>
      property (headOf r @ t) (js ''parseIssues'') = property r (js ''parseIssues'')"
    by (auto simp: headOf_def property_append)
  show "assertReceiptHead (headOf r @ t) label' = Inr ()"
    using assms(1) own issues same same_issues by (auto simp: assertReceiptHead_def andThen_Inr_iff split: if_splits)
  show "fst ` set (headOf r @ t) = set (receiptFields (headOf r @ t) (map fst t))"
    using own by (auto simp: receiptFields_def headOf_def)
qed


lemma effectValue_accepted:
  assumes "safeInt (removed e)" "0 \<le> removed e" "safeInt (inserted e)" "0 \<le> inserted e"
  shows "assertEffectReceipt (effectValue e) = Inr ()"
proof (cases "removedText e")
  case None
  then show ?thesis using assms
    by (simp add: assertEffectReceipt_def effectValue_def Let_def andThen_Inr_iff exactFields_Inr effectStrings_def)
next
  case (Some t)
  then show ?thesis using assms
    by (simp add: assertEffectReceipt_def effectValue_def Let_def andThen_Inr_iff exactFields_Inr effectStrings_def)
qed

lemma headValue_accepted:
  assumes "isDigest (revision q)" "isExtent (VNumber (Whole (extentBefore q)))" "isExtent (VNumber (Whole (extentAfter q)))"
    and "assertIssues (parseIssues q) = Inr ()" "\<not> hasOwn t (js ''parseIssues'')"
  shows "assertReceiptHead (headValue q @ t) label = Inr ()"
proof (cases "parseIssues q")
  case None
  then show ?thesis using assms
    by (simp add: headValue_def assertReceiptHead_def andThen_Inr_iff split: ReceiptUnit.split)
next
  case (Some i)
  then have "assertParseIssues (VObject [(js ''before'', VNumber (Whole (issuesBefore i))), (js ''after'', VNumber (Whole (issuesAfter i)))]) = Inr ()"
    using assms(4)
    by (auto simp: assertParseIssues_def assertIssues_def assertIssueCounts_def Let_def andThen_Inr_iff exactFields_Inr split: if_splits)
  then show ?thesis using assms Some
    by (simp add: headValue_def assertReceiptHead_def andThen_Inr_iff split: ReceiptUnit.split)
qed

lemma length_splitTerminators: "length (splitTerminators s) \<le> length s + 1"
  by (induction s rule: splitTerminators.induct) (auto split: list.splits)

lemma splitTerminators_two: "\<not> newlineFree s \<Longrightarrow> 2 \<le> length (splitTerminators s)"
proof (induction s rule: splitTerminators.induct)
  case (3 c d s)
  have "1 \<le> length (splitTerminators s)" "1 \<le> length (splitTerminators (d # s))" by (simp_all add: Suc_leI)
  then show ?case using 3 by (auto split: list.splits)
qed auto

lemma receiptLines_nonempty: "s \<noteq> [] \<Longrightarrow> receiptLines s \<noteq> []"
proof (cases "endsWithNewline s")
  case True
  then have "\<not> newlineFree s" by (auto simp: endsWithNewline_def newlineFree_def)
  then show ?thesis using splitTerminators_two [of s] by (cases "splitTerminators s") (auto simp: receiptLines_def)
qed (simp add: receiptLines_def)

lemma receiptLines_safe: "fits s \<Longrightarrow> safeInt (int (length (receiptLines s)))"
  using length_splitTerminators [of s] by (intro fits_safe) (auto simp: receiptLines_def)

lemma whole_edit_lands:
  assumes "fits original" "fits updated" "assertIssues issues = Inr ()" "anchorsFor h identity updated = Inr anchors"
  obtains e where "editReceipt h original updated [\<lparr>editMarker = [Whole 1, Whole (-1)], editBody = updated\<rparr>] issues identity
      = Inr \<lparr>revision = sha256 h updated, receiptUnit = LinesUnit, extentBefore = int (length (receiptLines original)),
          extentAfter = int (length (receiptLines updated)), parseIssues = issues, effects = [e]\<rparr>"
    "removed e = int (length (receiptLines original))" "inserted e = int (length (receiptLines updated))"
    "updated \<noteq> [] \<Longrightarrow> effectResult e = formatLines 1 (int (length (receiptLines updated)))"
proof -
  let ?n = "length (receiptLines original)" and ?m = "length (receiptLines updated)"
  let ?edit = "\<lparr>editMarker = [Whole 1, Whole (-1)], editBody = updated\<rparr>"
  define e where "e = \<lparr>sourcedEdit = ?edit, sourcedIndex = 0,
    sourcedRange = \<lparr>sourceStart = 1, sourceEnd = int ?n, sourceRemoved = int ?n\<rparr>\<rparr>"
  have src: "sourceEdits original [?edit] = Inr [e]"
    by (simp add: sourceEdits_def sourceLineRange_def Let_def e_def)
  obtain t1 where t1: "emptyLineScope original 1 = Inr t1" using emptyLineScope_total [OF assms(1)] by blast
  obtain t2 where t2: "emptyLineScope updated 1 = Inr t2" using emptyLineScope_total [OF assms(2)] by blast
  have nonempty: "receiptLines updated \<noteq> []" if "updated \<noteq> []"
    using that by (rule receiptLines_nonempty)
  obtain eff x y where eff: "lineEffect h original updated 0 e = Inr (eff, x, y)" "removed eff = int ?n" "inserted eff = int ?m"
    "?m \<noteq> 0 \<Longrightarrow> effectResult eff = formatLines 1 (int ?m)"
    using t1 t2 by (cases "?n = 0"; cases "?m = 0") (auto simp: lineEffect_def e_def Let_def)
  have "lineEffects h original updated [?edit] = Inr [(eff, x, y)]"
    using src eff(1) by (simp add: lineEffects_def sortBy_def inOrder_def) (simp add: e_def)
  moreover obtain t where "addContext h [(eff, x, y)] updated identity = Inr [eff\<lparr>effectContext := t\<rparr>]"
    using assms(4) by (auto simp: addContext_def Let_def)
  ultimately show thesis
    using assms(3) eff(2-4) nonempty
    by (intro that [of "eff\<lparr>effectContext := t\<rparr>"]) (simp_all add: editReceipt_def unitOf_def extentIn_def)
qed

section \<open>Properties\<close>

text \<open>What a batch receipt holds for each edit.\<close>

definition entriesOf :: "JsFields \<Rightarrow> JsValue list" where
  "entriesOf r = arrayOf (property r (if hasOwn r (js ''disposition'') then js ''superseded'' else js ''effects''))"

lemma andThen_unit: "andThen r f = Inr y \<longleftrightarrow> r = Inr () \<and> f () = Inr y"
  by (cases r) auto

lemma batch_Inr:
  assumes "assertEditBatchReceipt v = Inr r"
  obtains (applied) "v = VObject r" "\<not> hasOwn r (js ''disposition'')" "assertReceiptHead r (js ''EDIT batch receipt'') = Inr ()"
      "arrayOf (property r (js ''effects'')) \<noteq> []" "\<forall>e \<in> set (arrayOf (property r (js ''effects''))). assertEffectReceipt e = Inr ()"
    | (replaced) "v = VObject r" "hasOwn r (js ''disposition'')" "assertReceiptHead r (js ''EDIT batch receipt'') = Inr ()"
      "arrayOf (property r (js ''superseded'')) \<noteq> []" "list_all isText (arrayOf (property r (js ''superseded'')))"
      "assertEffectReceipt (property r (js ''replacement'')) = Inr ()"
proof -
  from assms have v: "v = VObject r"
    by (auto simp: assertEditBatchReceipt_def Let_def andThen_Inr_iff receiptRecord_Inr split: if_splits)
  have all: "mapResult assertEffectReceipt es = Inr us \<Longrightarrow> \<forall>e \<in> set es. assertEffectReceipt e = Inr ()" for es us
    by (auto simp: mapResult_Inr list_all2_conv_all_nth in_set_conv_nth)
  show thesis
  proof (cases "property r (js ''disposition'') = VString (js ''reviewer-replaced'')")
    case True
    then have own: "hasOwn r (js ''disposition'')" using property_absent by force
    have "assertReceiptHead r (js ''EDIT batch receipt'') = Inr ()"
      "arrayOf (property r (js ''superseded'')) \<noteq> []" "list_all isText (arrayOf (property r (js ''superseded'')))"
      "assertEffectReceipt (property r (js ''replacement'')) = Inr ()"
      using assms unfolding assertEditBatchReceipt_def Let_def v receiptRecord.simps andThen_simps if_P [OF True]
        andThen_unit demand_Inr by blast+
    then show thesis by (rule replaced [OF v own])
  next
    case False
    have f: "exactFields r (receiptFields r [js ''effects'']) (js ''EDIT batch receipt'') = Inr ()"
      "assertReceiptHead r (js ''EDIT batch receipt'') = Inr ()" "arrayOf (property r (js ''effects'')) \<noteq> []"
      "\<exists>us. mapResult assertEffectReceipt (arrayOf (property r (js ''effects''))) = Inr us"
      using assms unfolding assertEditBatchReceipt_def Let_def v receiptRecord.simps andThen_simps if_not_P [OF False]
        andThen_unit demand_Inr andThen_Inr_iff [of "mapResult f xs" for f xs] by blast+
    have "js ''disposition'' \<notin> set (receiptFields r [js ''effects''])" by (simp add: receiptFields_def)
    then have "\<not> hasOwn r (js ''disposition'')" using f(1) unfolding exactFields_Inr hasOwn_def by metis
    then show thesis using applied [OF v _ f(2,3)] f(4) all by blast
  qed
qed

text \<open>C28. Whatever batch receipt is accepted, its projections are: it has an entry for at least one edit, the receipt of
each of its entries is made and is itself accepted, and an index past them is refused.\<close>

theorem projections_are_accepted:
  assumes "assertEditBatchReceipt v = Inr r"
  shows "entriesOf r \<noteq> []
    \<and> (\<forall>i. if i < length (entriesOf r)
         then \<exists>w. projectEditReceipt v i = Inr w \<and> assertEditReceipt w = Inr ()
         else projectEditReceipt v i \<in> {Inl (NoEffectAt i), Inl (NoSupersededAt i)})"
  using assms
proof (cases rule: batch_Inr)
  case applied
  have "assertEditReceipt (VObject (headOf r @ [(js ''effect'', e)])) = Inr ()" if "assertEffectReceipt e = Inr ()" for e
    using head_accepted(1) [OF applied(3), of "[(js ''effect'', e)]" "js ''EDIT receipt''"]
      head_accepted(2) [OF applied(3), of "[(js ''effect'', e)]"] that
    by (simp add: assertEditReceipt_def Let_def andThen_Inr_iff exactFields_Inr property_append headOf_def)
  then show ?thesis
    using applied assms by (auto simp: projectEditReceipt_def entriesOf_def atIndex_def)
next
  case replaced
  have "assertEditReceipt (VObject (headOf r @ [(js ''disposition'', VString (js ''superseded'')), (js ''requested'', name)] @ t)) = Inr ()"
    if "isText name" "t = [] \<or> t = [(js ''replacement'', property r (js ''replacement''))]" for name t
    using head_accepted(1) [OF replaced(3), of "[(js ''disposition'', VString (js ''superseded'')), (js ''requested'', name)] @ t"
        "js ''EDIT receipt''"]
      head_accepted(2) [OF replaced(3), of "[(js ''disposition'', VString (js ''superseded'')), (js ''requested'', name)] @ t"]
      that replaced(6)
    by (auto simp: assertEditReceipt_def Let_def andThen_Inr_iff exactFields_Inr property_append headOf_def)
  then show ?thesis
    using replaced assms by (auto simp: projectEditReceipt_def entriesOf_def atIndex_def list_all_length)
qed


text \<open>A batch that a reviewer replaced gets a receipt that is accepted: from any accepted receipt of authored edits and any
two texts, the replacement is made, supersedes every authored edit, and counts the whole of both texts as removed and
inserted, landing from line 1 on.\<close>

lemma reviewer_receipt_is_accepted:
  assumes "assertEditBatchReceipt authored = Inr r" "\<not> hasOwn r (js ''disposition'')"
    and "\<forall>e \<in> set (entriesOf r). isText (property (fieldsOf e) (js ''requested''))"
    and "fits original" "fits updated" "isDigest (sha256 h updated)"
    and "assertIssues issues = Inr ()" "anchorsFor h identity updated = Inr anchors"
  shows "\<exists>q. reviewerReplacementReceipt h original updated authored issues identity = Inr q
    \<and> (\<exists>x. assertEditBatchReceipt (replacedValue q) = Inr x)
    \<and> length (superseded q) = length (entriesOf r)
    \<and> removed (replacement q) = int (length (receiptLines original))
    \<and> inserted (replacement q) = int (length (receiptLines updated))
    \<and> (updated \<noteq> [] \<longrightarrow> effectResult (replacement q) = formatLines 1 (int (length (receiptLines updated))))"
proof -
  obtain e where e: "editReceipt h original updated [\<lparr>editMarker = [Whole 1, Whole (-1)], editBody = updated\<rparr>] issues identity
      = Inr \<lparr>revision = sha256 h updated, receiptUnit = LinesUnit, extentBefore = int (length (receiptLines original)),
          extentAfter = int (length (receiptLines updated)), parseIssues = issues, effects = [e]\<rparr>"
    "removed e = int (length (receiptLines original))" "inserted e = int (length (receiptLines updated))"
    "updated \<noteq> [] \<Longrightarrow> effectResult e = formatLines 1 (int (length (receiptLines updated)))"
    by (rule whole_edit_lands [OF assms(4,5,7,8)]) blast
  define q where "q = \<lparr>revision = sha256 h updated, receiptUnit = LinesUnit, extentBefore = int (length (receiptLines original)),
    extentAfter = int (length (receiptLines updated)), parseIssues = issues,
    superseded = map (\<lambda>effect. stringOf (property (fieldsOf effect) (js ''requested''))) (entriesOf r), replacement = e\<rparr>"
  have made: "reviewerReplacementReceipt h original updated authored issues identity = Inr q"
    using assms(1,2) e(1) by (simp add: reviewerReplacementReceipt_def q_def entriesOf_def)
  have some: "entriesOf r \<noteq> []"
    using assms(1) by (cases rule: batch_Inr) (auto simp: entriesOf_def assms(2))
  have names: "list_all isText (map VString (superseded q))"
  proof -
    have "isText (VString (stringOf v))" if "isText v" for v using that by (cases v) auto
    then show ?thesis using assms(3) by (auto simp: q_def list_all_iff)
  qed
  have safe: "safeInt (int (length (receiptLines original)))" "safeInt (int (length (receiptLines updated)))"
    by (rule receiptLines_safe, fact)+
  have head: "assertReceiptHead (headValue q @ t) label = Inr ()" if "\<not> hasOwn t (js ''parseIssues'')" for t label
    by (rule headValue_accepted) (use assms(6,7) safe that in \<open>simp_all add: q_def\<close>)
  have effect: "assertEffectReceipt (effectValue (replacement q)) = Inr ()"
    by (rule effectValue_accepted) (use e safe in \<open>simp_all add: q_def\<close>)
  have "\<exists>x. assertEditBatchReceipt (replacedValue q) = Inr x"
  proof -
    let ?t = "[(js ''disposition'', VString (js ''reviewer-replaced'')), (js ''superseded'', VArray (map VString (superseded q))),
      (js ''replacement'', effectValue (replacement q))]"
    have "exactFields (headValue q @ ?t) (receiptFields (headValue q @ ?t) (map js [''disposition'', ''superseded'', ''replacement'']))
        (js ''EDIT batch receipt'') = Inr ()"
      unfolding exactFields_Inr by (cases "parseIssues q") (simp_all add: headValue_def receiptFields_def)
    moreover have "property (headValue q @ ?t) (js ''disposition'') = VString (js ''reviewer-replaced'')"
      "property (headValue q @ ?t) (js ''superseded'') = VArray (map VString (superseded q))"
      "property (headValue q @ ?t) (js ''replacement'') = effectValue (replacement q)"
      by (cases "parseIssues q"; simp add: headValue_def)+
    moreover have "superseded q \<noteq> []" using some by (simp add: q_def)
    ultimately show ?thesis
      using head [of ?t] effect names by (simp add: replacedValue_def assertEditBatchReceipt_def Let_def demand_def)
  qed
  moreover have "length (superseded q) = length (entriesOf r)" "replacement q = e" by (simp_all add: q_def)
  ultimately show ?thesis using made e(2-4) by blast
qed


section \<open>A receipt of one edit\<close>

definition exampleFields :: JsFields where
  "exampleFields = fieldsOf (appliedValue \<lparr>revision = replicate 64 48, receiptUnit = LinesUnit, extentBefore = 1,
     extentAfter = 1, parseIssues = Some \<lparr>issuesBefore = 1, issuesAfter = 0\<rparr>,
     effects = [\<lparr>requested = js ''<1>'', effectSource = js ''<1>'', effectResult = js ''<1>'', removed = 1, inserted = 1,
       effectContext = js ''1:b'', removedText = None\<rparr>]\<rparr>)"

lemma example_accepted: "assertEditBatchReceipt (VObject exampleFields) = Inr exampleFields"
  by code_simp

lemma example_entries:
  "length (entriesOf exampleFields) = 1" "\<not> hasOwn exampleFields (js ''disposition'')"
  "list_all (\<lambda>e. isText (property (fieldsOf e) (js ''requested''))) (entriesOf exampleFields)"
  by code_simp+

lemma projections_are_accepted_witness:
  "\<exists>w. projectEditReceipt (VObject exampleFields) 0 = Inr w \<and> assertEditReceipt w = Inr ()
     \<and> isl (projectEditReceipt (VObject exampleFields) 1)"
  using projections_are_accepted [OF example_accepted] example_entries(1) by (metis insert_iff isl_def less_numeral_extra(1,4) singletonD)

lemma reviewer_receipt_is_accepted_witness:
  "\<exists>q. reviewerReplacementReceipt exampleHost [97, 10] [98] (VObject exampleFields) None None = Inr q
     \<and> length (superseded q) = 1 \<and> (\<exists>x. assertEditBatchReceipt (replacedValue q) = Inr x)"
proof -
  have f: "fits [97, 10]" "fits [98]" by (simp_all add: fits_def MAX_SAFE_INTEGER_def)
  have d: "isDigest (sha256 exampleHost [98])" by code_simp
  have t: "\<forall>e \<in> set (entriesOf exampleFields). isText (property (fieldsOf e) (js ''requested''))"
    using example_entries(3) by (simp add: list_all_iff)
  have i: "assertIssues None = Inr ()" "anchorsFor exampleHost None [98] = Inr None"
    by (simp_all add: assertIssues_def anchorsFor_def)
  show ?thesis
    using reviewer_receipt_is_accepted [OF example_accepted example_entries(2) t f d i] example_entries(1) by auto
qed

end
