(* ===== verification/EditSequence.thy ===== *)
theory EditSequence
  imports LineAnchors ReceiptChecks
begin

text \<open>
  \<^verbatim>\<open>plurnk-core/src/core/EditSequence.ts\<close>: what the edits of one program remember of the lines that the model's anchors
  name. A resource is observed before an edit and settled after it; between the two the anchors of lines the edit left
  alone are carried to where those lines now are. The state is a map from identities to snapshots.
\<close>

section \<open>Snapshots\<close>

type_synonym Bindings = "(jsstr \<times> nat list) list"

record EditSnapshot =
  snapIdentity :: jsstr
  snapContent :: jsstr
  snapAnchors :: Bindings

type_synonym Snapshots = "(jsstr \<times> EditSnapshot) list"

datatype SequenceError =
    AnchorsFailed AnchorError
  | ReceiptRefused ReceiptError
  | NoTextReplacement ScopeError

text \<open>\<open>#lines\<close>: the line-normal form, and \<open>replace(/\r\n?/g, "\n")\<close>.\<close>

definition normalLines :: "jsstr \<Rightarrow> jsstr" where
  "normalLines content = joinWith [LF] (map (lineBody content) (logicalLines content))"

fun lineFeeds :: "jsstr \<Rightarrow> jsstr" where
  "lineFeeds [] = []"
| "lineFeeds [c] = (if c = CR then [LF] else [c])"
| "lineFeeds (c # d # s) =
     (if c = CR then (if d = LF then LF # lineFeeds s else LF # lineFeeds (d # s)) else c # lineFeeds (d # s))"

definition forget :: "jsstr \<Rightarrow> Snapshots \<Rightarrow> Snapshots" where
  "forget identity snapshots = mapDelete identity snapshots"

definition linesOf :: "Bindings \<Rightarrow> jsstr \<Rightarrow> nat list" where
  "linesOf m anchor = (case map_of m anchor of None \<Rightarrow> [] | Some ls \<Rightarrow> ls)"

text \<open>The first loop of \<open>observe\<close> and the second: the anchors of the content, added where none is carried.\<close>

definition currentBindings :: "jsstr list \<Rightarrow> Bindings" where
  "currentBindings ts = foldl (\<lambda>m (index, anchor). mapSet anchor (linesOf m anchor @ [index + 1]) m) [] (zip [0..<length ts] ts)"

definition addBindings :: "Bindings \<Rightarrow> Bindings \<Rightarrow> Bindings" where
  "addBindings carried current =
     foldl (\<lambda>m (anchor, ls). if map_of m anchor = None then mapSet anchor ls m else m) carried current"

definition observe ::
  "digester \<Rightarrow> nat \<Rightarrow> jsstr \<Rightarrow> jsstr \<Rightarrow> Snapshots \<Rightarrow> SequenceError + (EditSnapshot \<times> Snapshots)" where
  "observe digest contextLines identity given snapshots =
     (let content = normalLines given;
          carried = (case map_of snapshots identity of
                       None \<Rightarrow> []
                     | Some prior \<Rightarrow> if snapContent prior = content then snapAnchors prior else [])
      in case tokens digest contextLines identity content of
           Inl e \<Rightarrow> Inl (AnchorsFailed e)
         | Inr ts \<Rightarrow>
             let snapshot = \<lparr>snapIdentity = identity, snapContent = content,
                             snapAnchors = addBindings carried (currentBindings ts)\<rparr>
             in Inr (snapshot, mapSet identity snapshot snapshots))"

section \<open>Settling\<close>

text \<open>Where line \<open>l\<close> of the old content is in the new, if the edit of \<open>[start, end)\<close> left it alone.\<close>

definition nextOrdinal :: "TextLine list \<Rightarrow> int \<Rightarrow> nat option" where
  "nextOrdinal nextLines offset = map_of (rev (zip (map (\<lambda>l. int (lineStart l)) nextLines) [1..<Suc (length nextLines)])) offset"

definition shiftedLine :: "jsstr \<Rightarrow> jsstr \<Rightarrow> nat \<Rightarrow> nat \<Rightarrow> int \<Rightarrow> TextLine \<Rightarrow> nat option" where
  "shiftedLine content updated start stop delta l =
     (if start < lineEnd l \<and> lineStart l < stop then None
      else if start = stop \<and> lineStart l < start \<and> start < lineEnd l then None
      else case nextOrdinal (logicalLines updated) (int (lineStart l) + (if stop \<le> lineStart l then delta else 0)) of
        None \<Rightarrow> None
      | Some ordinal \<Rightarrow>
          if lineBody content l = lineBody updated (logicalLines updated ! (ordinal - 1)) then Some ordinal else None)"

definition updatedContent :: "EditSnapshot \<Rightarrow> TextReplacement \<Rightarrow> jsstr" where
  "updatedContent snapshot r =
     (let content = snapContent snapshot
      in normalLines (jsSlice content 0 (repStart r) @ repBody r @ drop (repEnd r) content))"

definition shifted :: "EditSnapshot \<Rightarrow> TextReplacement \<Rightarrow> nat \<Rightarrow> nat option" where
  "shifted snapshot r line =
     (case atLine (logicalLines (snapContent snapshot)) (int line) of
        None \<Rightarrow> None
      | Some l \<Rightarrow> shiftedLine (snapContent snapshot) (updatedContent snapshot r) (repStart r) (repEnd r)
          (int (length (repBody r)) - (int (repEnd r) - int (repStart r))) l)"

definition carry :: "EditSnapshot \<Rightarrow> TextReplacement \<Rightarrow> EditSnapshot" where
  "carry snapshot r =
     \<lparr>snapIdentity = snapIdentity snapshot, snapContent = updatedContent snapshot r,
      snapAnchors = map (\<lambda>(anchor, ordinals). (anchor, List.map_filter (shifted snapshot r) ordinals)) (snapAnchors snapshot)\<rparr>"

record SettledEdit =
  settledMarker :: "marks option"
  settledBody :: "jsstr option"
  settledStatus :: int
  settledReceipt :: "JsValue option"

definition isSuperseded :: "JsValue \<Rightarrow> bool" where
  "isSuperseded v = (case v of VObject r \<Rightarrow> hasOwn r (js ''disposition'') | _ \<Rightarrow> False)"

definition settleEdit :: "EditSnapshot \<Rightarrow> SettledEdit \<Rightarrow> Snapshots \<Rightarrow> SequenceError + Snapshots" where
  "settleEdit snapshot st snapshots =
     (if 300 \<le> settledStatus st then Inr snapshots
      else andThen (case settledReceipt st of
                      None \<Rightarrow> Inr ()
                    | Some v \<Rightarrow> (case assertEditReceipt v of Inl e \<Rightarrow> Inl (ReceiptRefused e) | Inr u \<Rightarrow> Inr ())) (\<lambda>_.
        case (settledReceipt st, settledMarker st) of
          (Some v, Some marks) \<Rightarrow>
            if isSuperseded v then Inr (forget (snapIdentity snapshot) snapshots)
            else (case textReplacement (snapContent snapshot) marks
                    (lineFeeds (case settledBody st of None \<Rightarrow> [] | Some b \<Rightarrow> b)) of
                    Inl e \<Rightarrow> Inl (NoTextReplacement e)
                  | Inr r \<Rightarrow> Inr (mapSet (snapIdentity snapshot) (carry snapshot r) snapshots))
        | _ \<Rightarrow> Inr (forget (snapIdentity snapshot) snapshots)))"

section \<open>Bindings\<close>

lemma map_of_addBindings:
  "map_of (addBindings carried current) a = (case map_of carried a of None \<Rightarrow> map_of current a | Some ls \<Rightarrow> Some ls)"
  unfolding addBindings_def
proof (induction current arbitrary: carried)
  case Nil
  show ?case by (simp split: option.splits)
next
  case (Cons p current)
  obtain k v where "p = (k, v)" by fastforce
  then show ?case using Cons [of "if map_of carried k = None then mapSet k v carried else carried"]
    by (auto simp: mapSet_lookup split: option.splits)
qed

lemma linesOf_addBindings:
  "line \<in> set (linesOf (addBindings carried current) a) \<Longrightarrow> line \<in> set (linesOf carried a) \<or> line \<in> set (linesOf current a)"
  by (auto simp: linesOf_def map_of_addBindings split: option.splits)

lemma zip_snoc: "zip [0..<length (ts @ [t])] (ts @ [t]) = zip [0..<length ts] ts @ [(length ts, t)]"
  by simp

lemma linesOf_currentBindings:
  "linesOf (currentBindings ts) a = map Suc (indicesWhere (\<lambda>t. t = a) ts)"
proof (induction ts rule: rev_induct)
  case Nil
  show ?case by (simp add: currentBindings_def linesOf_def indicesWhere_def)
next
  case (snoc t ts)
  have "linesOf (currentBindings (ts @ [t])) a = (if t = a then linesOf (currentBindings ts) a @ [Suc (length ts)] else linesOf (currentBindings ts) a)"
    unfolding currentBindings_def zip_snoc by (simp add: linesOf_def mapSet_lookup)
  moreover have "indicesWhere (\<lambda>u. u = a) (ts @ [t]) = indicesWhere (\<lambda>u. u = a) ts @ (if t = a then [length ts] else [])"
    by (auto simp: indicesWhere_def nth_append intro!: filter_cong)
  ultimately show ?case using snoc by simp
qed

lemma nextOrdinal_Some:
  assumes "nextOrdinal nextLines offset = Some k"
  shows "1 \<le> k" "k \<le> length nextLines" "int (lineStart (nextLines ! (k - 1))) = offset"
proof -
  have "(offset, k) \<in> set (zip (map (\<lambda>l. int (lineStart l)) nextLines) [1..<Suc (length nextLines)])"
    using map_of_SomeD [OF assms [unfolded nextOrdinal_def]] by simp
  then obtain i where "i < length nextLines" "offset = int (lineStart (nextLines ! i))" "k = Suc i"
    by (auto simp: set_zip simp del: upt_Suc)
  then show "1 \<le> k" "k \<le> length nextLines" "int (lineStart (nextLines ! (k - 1))) = offset" by simp_all
qed

text \<open>The text of a line, counted from one.\<close>

definition textAt :: "jsstr \<Rightarrow> nat \<Rightarrow> jsstr option" where
  "textAt content line = atLine (bodiesOf content) (int line)"

lemma textAt_Some: "1 \<le> line \<Longrightarrow> line \<le> length (logicalLines content) \<Longrightarrow> textAt content line = Some (lineBody content (logicalLines content ! (line - 1)))"
  by (auto simp: textAt_def atLine_def atIndex_def bodiesOf_def nat_diff_distrib)

lemma shiftedLine_text:
  assumes "shiftedLine content updated s e delta l = Some k"
  shows "textAt updated k = Some (lineBody content l)"
  using assms nextOrdinal_Some [of "logicalLines updated" _ k]
  by (auto simp: shiftedLine_def textAt_Some split: if_splits option.splits)

lemma atLine_Some: "atLine xs i = Some x \<longleftrightarrow> 1 \<le> i \<and> i \<le> int (length xs) \<and> x = xs ! nat (i - 1)"
  by (auto simp: atLine_def atIndex_def split: if_splits)

lemma carry_keeps_text:
  assumes "line \<in> set (linesOf (snapAnchors (carry S r)) a)"
  shows "\<exists>l \<in> set (linesOf (snapAnchors S) a). textAt (snapContent S) l \<noteq> None \<and> textAt (snapContent (carry S r)) line = textAt (snapContent S) l"
proof -
  have "linesOf (snapAnchors (carry S r)) a = List.map_filter (shifted S r) (linesOf (snapAnchors S) a)"
    by (simp add: carry_def linesOf_def map_of_map split: option.splits)
  then obtain l where l: "l \<in> set (linesOf (snapAnchors S) a)" "shifted S r l = Some line"
    using assms by (auto simp: map_filter_def)
  then obtain t where t: "atLine (logicalLines (snapContent S)) (int l) = Some t"
    "shiftedLine (snapContent S) (updatedContent S r) (repStart r) (repEnd r)
        (int (length (repBody r)) - (int (repEnd r) - int (repStart r))) t = Some line"
    by (auto simp: shifted_def split: option.splits)
  have "textAt (snapContent S) l = Some (lineBody (snapContent S) t)"
    using t(1) by (auto simp: atLine_Some textAt_def bodiesOf_def nat_diff_distrib)
  then show ?thesis using l(1) shiftedLine_text [OF t(2)] by (auto simp: carry_def)
qed

section \<open>The programs that use it\<close>

text \<open>
  One program of edits: resources are observed, edits settled with a snapshot that was handed out, resources forgotten, in
  any order; contents may change between any two steps. \<open>given\<close> are the snapshots handed out, \<open>seen\<close> the contents that were
  observed, in line-normal form.
\<close>

inductive run :: "digester \<Rightarrow> nat \<Rightarrow> Snapshots \<Rightarrow> EditSnapshot set \<Rightarrow> (jsstr \<times> jsstr) set \<Rightarrow> bool"
  for digest :: digester and contextLines :: nat where
  start: "run digest contextLines [] {} {}"
| observed: "run digest contextLines snaps given seen \<Longrightarrow> observe digest contextLines identity content snaps = Inr (S, snaps')
    \<Longrightarrow> run digest contextLines snaps' (insert S given) (insert (identity, normalLines content) seen)"
| settled: "run digest contextLines snaps given seen \<Longrightarrow> S \<in> given \<Longrightarrow> settleEdit S st snaps = Inr snaps'
    \<Longrightarrow> run digest contextLines snaps' given seen"
| forgotten: "run digest contextLines snaps given seen \<Longrightarrow> run digest contextLines (forget identity snaps) given seen"

text \<open>Every binding of a snapshot goes back to a line that had the anchor when the resource was observed.\<close>

definition rooted :: "digester \<Rightarrow> nat \<Rightarrow> (jsstr \<times> jsstr) set \<Rightarrow> EditSnapshot \<Rightarrow> bool" where
  "rooted digest contextLines seen S \<longleftrightarrow> (\<forall>a line. line \<in> set (linesOf (snapAnchors S) a) \<longrightarrow>
     (\<exists>content ts i. (snapIdentity S, content) \<in> seen \<and> tokens digest contextLines (snapIdentity S) content = Inr ts
        \<and> i < length ts \<and> ts ! i = a \<and> textAt content (Suc i) \<noteq> None
        \<and> textAt (snapContent S) line = textAt content (Suc i)))"

lemma rooted_mono: "rooted digest n seen S \<Longrightarrow> seen \<subseteq> seen' \<Longrightarrow> rooted digest n seen' S"
  unfolding rooted_def by (meson subsetD)

lemma rooted_carry: "rooted digest n seen S \<Longrightarrow> rooted digest n seen (carry S r)"
proof -
  assume S: "rooted digest n seen S"
  have i: "snapIdentity (carry S r) = snapIdentity S" by (simp add: carry_def)
  show ?thesis
    unfolding rooted_def i
  proof (intro allI impI)
    fix a line
    assume "line \<in> set (linesOf (snapAnchors (carry S r)) a)"
    then obtain l where l: "l \<in> set (linesOf (snapAnchors S) a)" "textAt (snapContent (carry S r)) line = textAt (snapContent S) l"
      using carry_keeps_text by blast
    then show "\<exists>content ts i. (snapIdentity S, content) \<in> seen \<and> tokens digest n (snapIdentity S) content = Inr ts
        \<and> i < length ts \<and> ts ! i = a \<and> textAt content (Suc i) \<noteq> None
        \<and> textAt (snapContent (carry S r)) line = textAt content (Suc i)"
      using S unfolding rooted_def l(2) by blast
  qed
qed

lemma tokens_length: "tokens digest n identity content = Inr ts \<Longrightarrow> length ts = length (logicalLines content)"
  using tokens_anchors(1) by (simp add: lineCount_def)

lemma observe_parts:
  assumes "observe digest n identity given snaps = Inr (S, snaps')"
  obtains ts carried where "tokens digest n identity (normalLines given) = Inr ts"
    "S = \<lparr>snapIdentity = identity, snapContent = normalLines given, snapAnchors = addBindings carried (currentBindings ts)\<rparr>"
    "snaps' = mapSet identity S snaps"
    "carried = [] \<or> (\<exists>prior. map_of snaps identity = Some prior \<and> snapContent prior = normalLines given \<and> carried = snapAnchors prior)"
  using assms by (fastforce simp: observe_def Let_def split: sum.splits option.splits if_splits)

lemma rooted_observe:
  assumes "observe digest n identity given snaps = Inr (S, snaps')"
    and "\<And>prior. map_of snaps identity = Some prior \<Longrightarrow> snapIdentity prior = identity \<and> rooted digest n seen prior"
  shows "rooted digest n (insert (identity, normalLines given) seen) S"
proof -
  obtain ts carried where o: "tokens digest n identity (normalLines given) = Inr ts"
    "S = \<lparr>snapIdentity = identity, snapContent = normalLines given, snapAnchors = addBindings carried (currentBindings ts)\<rparr>"
    "carried = [] \<or> (\<exists>prior. map_of snaps identity = Some prior \<and> snapContent prior = normalLines given \<and> carried = snapAnchors prior)"
    by (rule observe_parts [OF assms(1)])
  show ?thesis
    unfolding rooted_def
  proof (intro allI impI)
    fix a line
    assume "line \<in> set (linesOf (snapAnchors S) a)"
    then consider (carried) "line \<in> set (linesOf carried a)" | (current) "line \<in> set (linesOf (currentBindings ts) a)"
      using linesOf_addBindings o(2) by fastforce
    then show "\<exists>content ts i. (snapIdentity S, content) \<in> insert (identity, normalLines given) seen
        \<and> tokens digest n (snapIdentity S) content = Inr ts \<and> i < length ts \<and> ts ! i = a \<and> textAt content (Suc i) \<noteq> None
        \<and> textAt (snapContent S) line = textAt content (Suc i)"
    proof cases
      case carried
      then obtain prior where p: "map_of snaps identity = Some prior" "snapContent prior = normalLines given" "carried = snapAnchors prior"
        using o(3) by (auto simp: linesOf_def)
      then show ?thesis using assms(2) [OF p(1)] carried o(2) unfolding rooted_def by fastforce
    next
      case current
      then obtain i where i: "i < length ts" "ts ! i = a" "line = Suc i"
        unfolding linesOf_currentBindings by (auto simp: indicesWhere_def)
      then have "textAt (normalLines given) line \<noteq> None" using tokens_length [OF o(1)] by (simp add: textAt_Some)
      then show ?thesis using i o(1,2) by auto
    qed
  qed
qed

lemma settleEdit_cases:
  assumes "settleEdit S st snaps = Inr snaps'"
  obtains "snaps' = snaps" | "snaps' = forget (snapIdentity S) snaps" | r where "snaps' = mapSet (snapIdentity S) (carry S r) snaps"
  using assms by (fastforce simp: settleEdit_def andThen_Inr_iff split: if_splits option.splits sum.splits)

definition allRooted :: "digester \<Rightarrow> nat \<Rightarrow> Snapshots \<Rightarrow> EditSnapshot set \<Rightarrow> (jsstr \<times> jsstr) set \<Rightarrow> bool" where
  "allRooted digest n snaps given seen \<longleftrightarrow>
     (\<forall>identity S. map_of snaps identity = Some S \<longrightarrow> snapIdentity S = identity \<and> rooted digest n seen S)
     \<and> (\<forall>S \<in> given. rooted digest n seen S)"

lemma run_rooted: "run digest n snaps given seen \<Longrightarrow> allRooted digest n snaps given seen"
proof (induction rule: run.induct)
  case start
  show ?case by (simp add: allRooted_def)
next
  case (observed snaps given seen identity content S snaps')
  obtain ts carried where o: "S = \<lparr>snapIdentity = identity, snapContent = normalLines content, snapAnchors = addBindings carried (currentBindings ts)\<rparr>"
    "snaps' = mapSet identity S snaps"
    by (rule observe_parts [OF observed.hyps(2)])
  have "rooted digest n (insert (identity, normalLines content) seen) S"
    by (rule rooted_observe [OF observed.hyps(2)]) (use observed.IH in \<open>simp add: allRooted_def\<close>)
  moreover have "rooted digest n seen T \<Longrightarrow> rooted digest n (insert (identity, normalLines content) seen) T" for T
    by (rule rooted_mono) auto
  ultimately show ?case using observed.IH o by (auto simp: allRooted_def mapSet_lookup)
next
  case (settled snaps given seen S st snaps')
  have S: "rooted digest n seen S" using settled by (simp add: allRooted_def)
  from settled.hyps(3) show ?case
  proof (cases rule: settleEdit_cases)
    case (3 r)
    have "snapIdentity (carry S r) = snapIdentity S" by (simp add: carry_def)
    then show ?thesis using settled.IH rooted_carry [OF S] 3 by (auto simp: allRooted_def mapSet_lookup)
  qed (use settled.IH in \<open>auto simp: allRooted_def forget_def mapDelete_lookup\<close>)
next
  case (forgotten snaps given seen identity)
  then show ?case by (auto simp: allRooted_def forget_def mapDelete_lookup)
qed

section \<open>Properties\<close>

text \<open>C33. An anchor never comes to name another text: in every program of observations, edits and forgetting, however the
  resources change in between, each line a handed-out snapshot binds an anchor to reads the same as a line that had this very
  anchor when this resource was observed.\<close>

theorem anchors_follow_their_text:
  assumes "run digest contextLines snaps given seen" "S \<in> given" "line \<in> set (linesOf (snapAnchors S) a)"
  shows "\<exists>content ts i. (snapIdentity S, content) \<in> seen \<and> tokens digest contextLines (snapIdentity S) content = Inr ts
    \<and> i < length ts \<and> ts ! i = a \<and> textAt content (Suc i) \<noteq> None \<and> textAt (snapContent S) line = textAt content (Suc i)"
  using run_rooted [OF assms(1)] assms(2,3) by (auto simp: allRooted_def rooted_def)

text \<open>A resource of one line is observed, a line is inserted above it, and it is observed again.\<close>

definition exampleReceipt :: JsValue where
  "exampleReceipt = VObject [(js ''revision'', VString (replicate 64 97)), (js ''unit'', VString (js ''lines'')),
     (js ''before'', VNumber (Whole 1)), (js ''after'', VNumber (Whole 2)),
     (js ''effect'', VObject [(js ''requested'', VString [48]), (js ''source'', VString [48]), (js ''result'', VString [49]),
        (js ''removed'', VNumber (Whole 0)), (js ''inserted'', VNumber (Whole 1)), (js ''context'', VString [])])]"

definition exampleEdit :: "int \<Rightarrow> SettledEdit" where
  "exampleEdit mark = \<lparr>settledMarker = Some [Whole mark], settledBody = Some [98], settledStatus = 200, settledReceipt = Some exampleReceipt\<rparr>"

definition exampleSnapshot :: "jsstr \<Rightarrow> nat list \<Rightarrow> EditSnapshot" where
  "exampleSnapshot content ordinals = \<lparr>snapIdentity = [114], snapContent = content, snapAnchors = [([64, 48, 48, 48, 48, 49], ordinals)]\<rparr>"

lemma example_observed:
  "observe (\<lambda>j. [49]) 2 [114] [97] [] = Inr (exampleSnapshot [97] [1], [([114], exampleSnapshot [97] [1])])"
  by code_simp

lemma example_settled:
  "settleEdit (exampleSnapshot [97] [1]) (exampleEdit 0) [([114], exampleSnapshot [97] [1])] = Inr [([114], exampleSnapshot [98, 10, 97] [2])]"
  by code_simp

lemma example_observed_again:
  "observe (\<lambda>j. [49]) 2 [114] [98, 10, 97] [([114], exampleSnapshot [98, 10, 97] [2])]
     = Inr (exampleSnapshot [98, 10, 97] [2], [([114], exampleSnapshot [98, 10, 97] [2])])"
  by code_simp

lemma normalLines_examples: "normalLines [97] = [97]" "normalLines [98, 10, 97] = [98, 10, 97]"
  by code_simp+

lemma example_run:
  "run (\<lambda>j. [49]) 2 [([114], exampleSnapshot [98, 10, 97] [2])]
     {exampleSnapshot [98, 10, 97] [2], exampleSnapshot [97] [1]} {([114], [98, 10, 97]), ([114], [97])}"
proof -
  note start
  from observed [OF this example_observed]
  have "run (\<lambda>j. [49]) 2 [([114], exampleSnapshot [97] [1])] {exampleSnapshot [97] [1]} {([114], [97])}"
    by (simp add: normalLines_examples)
  from settled [OF this _ example_settled]
  have "run (\<lambda>j. [49]) 2 [([114], exampleSnapshot [98, 10, 97] [2])] {exampleSnapshot [97] [1]} {([114], [97])}" by simp
  from observed [OF this example_observed_again] show ?thesis by (simp add: normalLines_examples)
qed

theorem anchors_follow_their_text_witness:
  "\<exists>content ts i. ([114], content) \<in> {([114], [98, 10, 97]), ([114], [97])} \<and> tokens (\<lambda>j. [49]) 2 [114] content = Inr ts
    \<and> i < length ts \<and> ts ! i = [64, 48, 48, 48, 48, 49] \<and> textAt content (Suc i) \<noteq> None
    \<and> textAt [98, 10, 97] 2 = textAt content (Suc i)"
proof -
  have "2 \<in> set (linesOf (snapAnchors (exampleSnapshot [98, 10, 97] [2])) [64, 48, 48, 48, 48, 49])"
    by (simp add: exampleSnapshot_def linesOf_def)
  from anchors_follow_their_text [OF example_run _ this] show ?thesis by (simp add: exampleSnapshot_def)
qed

section \<open>The line-normal form\<close>

lemma bodies_of_lines:
  assumes "plainLines ls" "newlineFree b" "b \<noteq> []"
  shows "bodiesOf (unlinesLF ls @ b) = ls @ [b]"
proof -
  let ?s = "unlinesLF ls @ b" and ?rows = "map (\<lambda>l. (l, [LF])) ls @ [(b, [])]"
  have layout: "layout a (map (\<lambda>l. (l, [LF])) ks @ [(b, [])])
      = layout a (map (\<lambda>l. (l, [LF])) ks) @ [mkLine (a + length (unlinesLF ks)) (a + length (unlinesLF ks) + length b) []]" for a ks
    by (induction ks arbitrary: a) (simp_all add: add.assoc add.commute add.left_commute)
  have scan: "scanLines ?s = layout 0 ?rows"
    unfolding scanLines_def layout using scanFrom_lines [OF assms(1,2), of 0] by simp
  have "logicalLines ?s = layout 0 ?rows"
    unfolding logicalLines_def scan Let_def using assms(3) by (simp add: layout mkLine_def)
  moreover have "rowsText ?rows = ?s" by (simp add: rowsText_def unlinesLF_def comp_def)
  ultimately have "map (\<lambda>l. (lineBody ?s l, separator l)) (logicalLines ?s) = ?rows"
    using layout_slices [of "[]" ?rows] by simp
  from arg_cong [OF this, of "map fst"] show ?thesis by (simp add: bodiesOf_def comp_def)
qed

lemma bodiesOf_plain: "plainLines (bodiesOf content)"
proof -
  have "newlineFree (lineBody content l)" if l: "l \<in> set (logicalLines content)" for l
  proof -
    obtain i where "i < length (logicalLines content)" "l = logicalLines content ! i" using l by (metis in_set_conv_nth)
    then show ?thesis by (rule logicalLines_bounds(6))
  qed
  then show ?thesis by (simp add: plainLines_def bodiesOf_def list_all_iff)
qed

text \<open>The normal form has the lines, and so the anchors, of the resource, unless its last line is blank.\<close>

lemma bodiesOf_normalLines:
  assumes "content = [] \<or> last (bodiesOf content) \<noteq> []"
  shows "bodiesOf (normalLines content) = bodiesOf content"
proof (cases "bodiesOf content = []")
  case True
  then have "normalLines content = []" by (simp add: normalLines_def bodiesOf_def)
  then show ?thesis using True by (simp add: bodiesOf_def logicalLines_def)
next
  case False
  then have "content \<noteq> []" by (auto simp: bodiesOf_def logicalLines_def)
  then have b: "last (bodiesOf content) \<noteq> []" using assms by simp
  obtain ls x where s: "bodiesOf content = ls @ [x]" using False by (cases "bodiesOf content" rule: rev_cases) simp_all
  have "normalLines content = unlinesLF ls @ x" using s joinWith_snoc by (simp add: normalLines_def bodiesOf_def)
  then show ?thesis using bodies_of_lines [of ls x] bodiesOf_plain [of content] b s by simp
qed

lemma observed_tokens:
  "content = [] \<or> last (bodiesOf content) \<noteq> [] \<Longrightarrow>
     tokens digest n identity (normalLines content) = tokens digest n identity content"
  by (simp add: tokens_def bodiesOf_normalLines)

text \<open>A blank last line is lost in the normal form. The edit of that line lands, and settling it throws.\<close>

lemma blank_last_line_throws:
  "map_sum id editedText (lineMarkerEdit [97, 10, 10] [Whole 2] [98]) = Inr [97, 10, 98, 10]"
  "observe (\<lambda>j. [49]) 2 [114] [97, 10, 10] [] = Inr (exampleSnapshot [97, 10] [1], [([114], exampleSnapshot [97, 10] [1])])"
  "settleEdit (exampleSnapshot [97, 10] [1]) (exampleEdit 2) [([114], exampleSnapshot [97, 10] [1])]
     = Inl (NoTextReplacement (PositionOutside 2 1 LineUnit))"
  by code_simp+

end
