(* ===== verification/BodyPreview.thy ===== *)
theory BodyPreview
  imports Slicer
begin

text \<open>
  \<^verbatim>\<open>plurnk-core/src/content/body-preview.ts\<close>: the page of a text shown when nobody asked for a scope, and the last
  page of a text whose conclusions stand at its end. Both are cut at a number of lines and a number of characters,
  where a code point is one character and a CRLF is one character, and both come with the marker that names the page.
  The two environment settings \<open>PLURNK_SERVICE_PREVIEW_LINES\<close> and \<open>PLURNK_SERVICE_PREVIEW_CHARS\<close> are the arguments
  \<open>maxLines\<close> and \<open>maxChars\<close>, at least one each as \<open>Knob.integer\<close> demands.

  The lemmas show that counting CRLF as one character keeps every cut at an addressable position, so that neither
  function throws, and that the marker resolved by the slicer denotes exactly the page.
\<close>

section \<open>Characters as the preview counts them\<close>

text \<open>
  The \<open>/\r\n|[\s\S]/gu\<close> of a text: a code point each, a CRLF one separator.
\<close>

fun units :: "jsstr \<Rightarrow> jsstr list" where
  "units [] = []"
| "units [c] = [[c]]"
| "units (c # d # cs) =
     (if (c = CR \<and> d = LF) \<or> (highSurrogate c \<and> lowSurrogate d) then [c, d] # units cs
      else [c] # units (d # cs))"

text \<open>\<open>text.replaceAll("\r\n", "\n")\<close>\<close>

fun crlfToLf :: "jsstr \<Rightarrow> jsstr" where
  "crlfToLf [] = []"
| "crlfToLf [c] = [c]"
| "crlfToLf (c # d # cs) = (if c = CR \<and> d = LF then LF # crlfToLf cs else c # crlfToLf (d # cs))"

definition pointsFrom :: "jsstr \<Rightarrow> nat \<Rightarrow> nat" where
  "pointsFrom content from = length (codePoints (crlfToLf (drop from content)))"

text \<open>The loop over \<open>characterEnd\<close>; the second argument is what \<open>consumed\<close> has left.\<close>

definition unitLength :: "jsstr \<Rightarrow> nat \<Rightarrow> nat" where
  "unitLength content k =
     (if take 2 (drop k content) = [CR, LF] then 2
      else case drop k content of
        c # d # _ \<Rightarrow> if highSurrogate c \<and> lowSurrogate d then 2 else 1
      | _ \<Rightarrow> 1)"

fun characterEnd :: "jsstr \<Rightarrow> nat \<Rightarrow> nat \<Rightarrow> nat" where
  "characterEnd content 0 k = k"
| "characterEnd content (Suc left) k =
     (if k < length content then characterEnd content left (k + unitLength content k) else k)"

record Preview =
  previewEnd :: nat
  previewMarks :: marks

record TailPreview =
  tailStart :: nat
  tailMarks :: marks
  tailWhole :: bool

definition regionMarks :: "TextRegion \<Rightarrow> marks" where
  "regionMarks r = map (Whole \<circ> int) [startLine r, startColumn r, endLine r, endColumn r]"

text \<open>\<open>None\<close> is the error thrown for an unaddressable region.\<close>

definition select :: "nat \<Rightarrow> nat \<Rightarrow> jsstr \<Rightarrow> Preview option" where
  "select maxLines maxChars content =
     (let lns = logicalLines content;
          lineLimit = (if maxLines < length lns then lineEnd (lns ! (maxLines - 1)) else length content);
          reached = characterEnd content maxChars 0 in
      if reached < length content \<and> reached \<le> lineLimit
      then (case indicesWhere (\<lambda>l. 0 < length (separator l) \<and> lineEnd l \<le> reached) lns of
              [] \<Rightarrow> map_option (\<lambda>r. \<lparr>previewEnd = reached, previewMarks = regionMarks r\<rparr>)
                       (regionFromOffsets content 0 (int reached))
            | found \<Rightarrow> Some \<lparr>previewEnd = lineEnd (lns ! List.last found),
                                previewMarks = [Whole 1, Whole (int (List.last found) + 1)]\<rparr>)
      else Some \<lparr>previewEnd = lineLimit, previewMarks = [Whole 1, Whole (int maxLines)]\<rparr>)"

fun skipLong :: "(nat \<Rightarrow> bool) \<Rightarrow> nat \<Rightarrow> nat \<Rightarrow> nat" where
  "skipLong tooLong 0 first = first"
| "skipLong tooLong (Suc left) first = (if tooLong first then skipLong tooLong left (first + 1) else first)"

definition selectTail :: "nat \<Rightarrow> nat \<Rightarrow> jsstr \<Rightarrow> TailPreview option" where
  "selectTail maxLines maxChars content =
     (let lns = logicalLines content in
      if lns = [] then Some \<lparr>tailStart = 0, tailMarks = [Whole 1, Whole (-1)], tailWhole = True\<rparr>
      else
        let tooLong = (\<lambda>i. maxChars < pointsFrom content (lineStart (lns ! i)));
            first = skipLong tooLong (length lns - 1 - (length lns - maxLines)) (length lns - maxLines);
            from = lineStart (lns ! first) in
        if tooLong first
        then (let ending = units (drop from content);
                  suffix = concat (drop (length ending - maxChars) ending);
                  start = length content - length suffix in
              map_option (\<lambda>r. \<lparr>tailStart = start, tailMarks = regionMarks r, tailWhole = False\<rparr>)
                (regionFromOffsets content (int start) (int (length content))))
        else Some \<lparr>tailStart = from, tailMarks = [Whole (int first + 1), Whole (int (length lns))],
                   tailWhole = (first = 0 \<and> pointsFrom content 0 \<le> maxChars)\<rparr>)"

lemma units_nonempty: "u \<in> set (units s) \<Longrightarrow> u \<noteq> []"
  by (induction s rule: units.induct) (auto split: if_splits)

lemma concat_units [simp]: "concat (units s) = s"
  by (induction s rule: units.induct) auto

lemma surrogate_newline [simp]: "\<not> highSurrogate CR" "\<not> lowSurrogate CR" "\<not> highSurrogate LF" "\<not> lowSurrogate LF"
  by (simp_all add: highSurrogate_def lowSurrogate_def CR_def LF_def)

lemma crlfToLf_Cons_other: "c \<noteq> CR \<Longrightarrow> crlfToLf (c # cs) = c # crlfToLf cs"
  by (cases cs) auto

lemma crlfToLf_head_low: "\<exists>e es. crlfToLf (d # ds) = e # es \<and> (lowSurrogate e \<longleftrightarrow> lowSurrogate d)"
  by (cases ds) auto

lemma points_units: "length (codePoints (crlfToLf s)) = length (units s)"
proof (induction s rule: units.induct)
  case (3 c d cs)
  show ?case
  proof (cases "c = CR \<and> d = LF")
    case True
    have "length (codePoints (LF # crlfToLf cs)) = Suc (length (codePoints (crlfToLf cs)))"
      by (cases "crlfToLf cs") auto
    then show ?thesis using True 3 by simp
  next
    case False
    then show ?thesis
    proof (cases "highSurrogate c \<and> lowSurrogate d")
      case True
      then have "c \<noteq> CR" "d \<noteq> CR" by auto
      then have "crlfToLf (c # d # cs) = c # d # crlfToLf cs" by (simp add: crlfToLf_Cons_other)
      then show ?thesis using True 3(1) by auto
    next
      case other: False
      obtain e es where e: "crlfToLf (d # cs) = e # es" "lowSurrogate e \<longleftrightarrow> lowSurrogate d"
        using crlfToLf_head_low by blast
      have "crlfToLf (c # d # cs) = c # e # es" using False e by auto
      then show ?thesis using other False 3(2) e by auto
    qed
  qed
qed auto

lemma pointsFrom_units: "pointsFrom content from = length (units (drop from content))"
  by (simp add: pointsFrom_def points_units)

lemma unitLength_hd: "k < length content \<Longrightarrow> unitLength content k = length (hd (units (drop k content)))"
  by (cases "drop k content" rule: units.cases) (auto simp: unitLength_def numeral_2_eq_2)

lemma units_drop_hd: "s \<noteq> [] \<Longrightarrow> units (drop (length (hd (units s))) s) = tl (units s)"
  by (cases s rule: units.cases) auto

lemma characterEnd_units:
  "k \<le> length content \<Longrightarrow>
     characterEnd content m k = k + length (concat (take m (units (drop k content))))"
proof (induction m arbitrary: k)
  case (Suc m)
  show ?case
  proof (cases "k < length content")
    case True
    let ?us = "units (drop k content)"
    have ne: "?us \<noteq> []" using True by (cases "drop k content" rule: units.cases) auto
    let ?n = "length (hd ?us)"
    have "length (hd ?us @ concat (tl ?us)) = length (drop k content)"
      using ne concat_units [of "drop k content"] by (metis concat.simps(2) list.collapse)
    then have le: "k + ?n \<le> length content" using True by simp
    have "units (drop (k + ?n) content) = tl ?us"
      using units_drop_hd [of "drop k content"] True by (simp add: add.commute)
    then show ?thesis
      using Suc.IH [OF le] True ne
      by (simp add: unitLength_hd take_Suc)
  next
    case False
    then show ?thesis using Suc.prems by simp
  qed
qed simp

lemma lineRange_replacement:
  assumes "i \<le> j" "j < length (logicalLines content)"
    "final = int j + 1 \<or> j + 1 = length (logicalLines content) \<and> int j < final"
  shows "textReplacement content [Whole (int i + 1), Whole final] []
     = Inr \<lparr>repStart = lineStart (logicalLines content ! i), repEnd = lineEnd (logicalLines content ! j),
            repBody = [], repStartLine = int i + 1, repEndLine = int j + 1, normalization = None\<rparr>"
proof -
  have ne: "logicalLines content \<noteq> []" using assms(2) by auto
  have n: "normalize [Whole (int i + 1), Whole final] (length (logicalLines content)) LineUnit
      = Inr \<lparr>normKind = RangeKind, normStart = int i + 1, normEnd = int j + 1\<rparr>"
    using assms by (auto simp: normalize_def normalizeRange_def Let_def)
  have a: "atLine (logicalLines content) (int i + 1) = Some (logicalLines content ! i)"
    "atLine (logicalLines content) (int j + 1) = Some (logicalLines content ! j)"
    using assms by (auto simp: atLine_Some_iff)
  show ?thesis using n a ne by (simp add: textReplacement_def lineTextReplacement_def Let_def)
qed

lemma exact_of_positions:
  assumes "fits content" "positionAtOffset content start = Some p" "positionAtOffset content end' = Some q"
    "start \<le> end'"
  shows "textReplacement content (regionMarks (regionOf p q)) body
     = Inr \<lparr>repStart = nat start, repEnd = nat end', repBody = body, repStartLine = int (posLine p),
            repEndLine = int (posLine q), normalization = None\<rparr>"
proof -
  from assms(2) obtain i k where p: "p = TextPosition (i + 1) (k + 1)" "0 \<le> start"
    "i < length (scanLines content)" "k < length (offsetsForLine content (scanLines content ! i))"
    by (rule positionAtOffset_SomeE)
  from assms(3) obtain j m where q: "q = TextPosition (j + 1) (m + 1)"
    "j < length (scanLines content)" "m < length (offsetsForLine content (scanLines content ! j))"
    by (rule positionAtOffset_SomeE)
  have small: "i + 1 \<le> length content + 1" "k + 1 \<le> length content + 1"
    "j + 1 \<le> length content + 1" "m + 1 \<le> length content + 1"
    using length_scanLines [of content] length_offsetsForLine [OF p(3)] length_offsetsForLine [OF q(2)]
      p q by simp_all
  have safe: "safeInt (int (i + 1))" "safeInt (int (k + 1))" "safeInt (int (j + 1))" "safeInt (int (m + 1))"
    using small by (blast intro: fits_safe [OF assms(1)])+
  note o' = offset_of_position_of_offset [OF assms(1,2)] offset_of_position_of_offset [OF assms(1,3)]
  have col: "int m + 1 \<le> int (codePointCount (lineBody content (scanLines content ! j))) + 1"
    using q(3) by (simp add: offsetsForLine_def codePointCount_def)
  show ?thesis
    using safe o' p q col assms(4)
    by (simp add: regionMarks_def regionOf_def textReplacement_def exactTextReplacement_def exactRegion_def
        finalEndpoint_def Let_def min_def add.commute nat_add_distrib)
qed

lemma regionFromOffsets_Some:
  assumes "fits content" "regionFromOffsets content start end' = Some r"
  shows "textReplacement content (regionMarks r) body
     = Inr \<lparr>repStart = nat start, repEnd = nat end', repBody = body, repStartLine = int (startLine r),
            repEndLine = int (endLine r), normalization = None\<rparr>"
proof -
  from assms(2) obtain p q where "start \<le> end'" "positionAtOffset content start = Some p"
    "positionAtOffset content end' = Some q" "r = regionOf p q"
    by (auto simp: regionFromOffsets_def split: if_splits option.splits)
  then show ?thesis using exact_of_positions [OF assms(1)] by (simp add: regionOf_def)
qed

section \<open>Characters and lines\<close>

lemma codePoints_append:
  "newlineFree s \<Longrightarrow> t = [] \<or> isNewline (hd t) \<Longrightarrow> units (s @ t) = codePoints s @ units t"
proof (induction s rule: codePoints.induct)
  case (2 c)
  then have "c \<noteq> CR" by auto
  moreover have "\<not> lowSurrogate (hd t)" if "t \<noteq> []"
    using 2 that by (auto simp: isNewline_def)
  ultimately show ?case by (cases t) simp_all
next
  case (3 c d cs)
  then have "c \<noteq> CR" by auto
  with 3 show ?case by (cases "highSurrogate c"; cases "lowSurrogate d") simp_all
qed simp

lemma hd_units_separator:
  assumes "sep \<in> {[CR, LF], [CR], [LF]}"
  shows "units (sep @ t) \<noteq> []" "length sep \<le> length (hd (units (sep @ t)))"
proof -
  consider "sep = [CR, LF]" | "sep = [CR]" | "sep = [LF]" using assms by blast
  then have "units (sep @ t) \<noteq> [] \<and> length sep \<le> length (hd (units (sep @ t)))"
    by cases (cases t; simp)+
  then show "units (sep @ t) \<noteq> []" "length sep \<le> length (hd (units (sep @ t)))" by simp_all
qed

lemma units_single: "sep \<in> {[CR, LF], [CR], [LF]} \<Longrightarrow> units sep = [sep]"
  by auto

lemma length_units_take: "length (units (take n s)) \<le> length (units s)"
proof (induction s arbitrary: n rule: units.induct)
  case (2 c)
  then show ?case by (cases n) auto
next
  case (3 c d cs)
  show ?case
  proof (cases n)
    case (Suc m)
    then show ?thesis
      using 3 [of m] 3(1) [of "m - 1"] by (cases m) auto
  qed simp
qed simp

lemma units_Cons: "length (units t) \<le> length (units (c # t)) \<and> length (units (c # t)) \<le> Suc (length (units t))"
proof (induction t arbitrary: c)
  case (Cons d cs)
  then show ?case using Cons.IH [of d] by auto
qed simp

lemma units_take_units: "length (units (concat (take m (units s)))) \<le> m"
proof (induction s arbitrary: m rule: units.induct)
  case (2 c)
  then show ?case by (cases m) auto
next
  case (3 c d cs)
  show ?case
  proof (cases m)
    case (Suc k)
    show ?thesis
    proof (cases "(c = CR \<and> d = LF) \<or> (highSurrogate c \<and> lowSurrogate d)")
      case True
      then show ?thesis using Suc 3(1) [of k] by simp
    next
      case False
      then have "units (c # d # cs) = [c] # units (d # cs)" by simp
      then have "concat (take m (units (c # d # cs))) = c # concat (take k (units (d # cs)))"
        using Suc by simp
      then show ?thesis
        using 3(2) [OF False, of k] units_Cons [of "concat (take k (units (d # cs)))" c] Suc
        by simp
    qed
  qed simp
qed simp

lemma line_separator:
  assumes "i < length (scanLines content)" "l = scanLines content ! i"
  shows "separator l \<in> {[CR, LF], [CR], [LF]} \<or> separator l = [] \<and> lineEnd l = length content"
proof (cases "Suc i < length (scanLines content)")
  case True
  then show ?thesis using tiles_step [OF scanLines_tiles [of content], of i] assms by auto
next
  case False
  then have "i = length (scanLines content) - 1" using assms by simp
  then show ?thesis using tiles_last [OF scanLines_tiles [of content]] assms by (simp add: last_conv_nth)
qed

lemma units_of_line:
  assumes "i < length (scanLines content)" "l = scanLines content ! i"
  shows "units (drop (lineStart l) content) = codePoints (lineBody content l) @ units (drop (contentEnd l) content)"
    "drop (contentEnd l) content = separator l @ drop (lineEnd l) content"
proof -
  note b = line_bounds [OF assms]
  show sep: "drop (contentEnd l) content = separator l @ drop (lineEnd l) content"
    using b slice_append_slice [of "contentEnd l" "lineEnd l" "length content" content]
    by (simp add: slice_to_end)
  have d: "drop (lineStart l) content = lineBody content l @ drop (contentEnd l) content"
    using b slice_append_slice [of "lineStart l" "contentEnd l" "length content" content]
    by (simp add: slice_to_end lineBody_def)
  have "drop (contentEnd l) content = [] \<or> isNewline (hd (drop (contentEnd l) content))"
    using line_separator [OF assms] sep by auto
  then show "units (drop (lineStart l) content) = codePoints (lineBody content l) @ units (drop (contentEnd l) content)"
    using codePoints_append b(4) d by metis
qed

lemma units_offset:
  assumes "i < length (scanLines content)" "l = scanLines content ! i"
  shows "m \<le> length (codePoints (lineBody content l)) \<Longrightarrow>
      m < length (offsetsForLine content l) \<and>
      lineStart l + length (concat (take m (units (drop (lineStart l) content)))) = offsetsForLine content l ! m"
    "length (codePoints (lineBody content l)) < m \<Longrightarrow>
      lineEnd l \<le> lineStart l + length (concat (take m (units (drop (lineStart l) content))))"
proof -
  let ?n = "length (codePoints (lineBody content l))"
  note b = line_bounds [OF assms]
  have len: "length (concat (codePoints (lineBody content l))) = contentEnd l - lineStart l"
    using b by (simp add: lineBody_def length_slice)
  show "m < length (offsetsForLine content l) \<and>
      lineStart l + length (concat (take m (units (drop (lineStart l) content)))) = offsetsForLine content l ! m" if "m \<le> ?n"
    using that units_of_line [OF assms] by (simp add: offsetsForLine_def offsetsFrom_nth)
  show "lineEnd l \<le> lineStart l + length (concat (take m (units (drop (lineStart l) content))))" if "?n < m"
  proof (cases "separator l = []")
    case True
    have "length (concat (take m (units (drop (lineStart l) content))))
        = length (concat (codePoints (lineBody content l))) + length (concat (take (m - ?n) (units (drop (contentEnd l) content))))"
      using that by (simp add: units_of_line(1) [OF assms])
    then show ?thesis using b True len by simp
  next
    case False
    then have "separator l \<in> {[CR, LF], [CR], [LF]}" using line_separator [OF assms] by blast
    note h = hd_units_separator [OF this, of "drop (lineEnd l) content"]
    obtain u us where us: "units (drop (contentEnd l) content) = u # us" "length (separator l) \<le> length u"
      using h units_of_line(2) [OF assms] by (cases "units (drop (contentEnd l) content)") auto
    have "m = ?n + Suc (m - ?n - 1)" using that by simp
    then obtain k where "m = ?n + Suc k" ..
    then have "length (concat (take m (units (drop (lineStart l) content))))
        = length (concat (codePoints (lineBody content l))) + length (u @ concat (take k us))"
      using us(1) by (simp add: units_of_line(1) [OF assms])
    then show ?thesis using us(2) len b by simp
  qed
qed

text \<open>An offset a whole number of characters into a line is addressable, unless it is past the line.\<close>

lemma unit_position:
  assumes "fits content" "i < length (scanLines content)" "l = scanLines content ! i"
    "offset = lineStart l + length (concat (take m (units (drop (lineStart l) content))))"
    "offset < lineEnd l \<or> m \<le> length (codePoints (lineBody content l))"
  shows "\<exists>k. positionAtOffset content (int offset) = Some (TextPosition (i + 1) (k + 1))"
proof -
  from assms(4,5) units_offset(2) [OF assms(2,3), of m] have m: "m \<le> length (codePoints (lineBody content l))"
    by (meson not_le)
  note o' = units_offset(1) [OF assms(2,3) m]
  have "offset \<le> length content"
    using offsetsForLine_nth_bounds(2) [OF assms(2,3)] line_bounds [OF assms(2,3)] o' assms(4)
    by (metis le_trans)
  then have "safeInt (int offset)" by (intro fits_safe [OF assms(1)]) simp
  with \<open>offset \<le> length content\<close> positionAtOffset_at_column [OF assms(2)] o' assms(3,4) show ?thesis by blast
qed

lemma positionAtOffset_zero: "fits content \<Longrightarrow> positionAtOffset content 0 = Some (TextPosition 1 1)"
proof -
  assume f: "fits content"
  have "positionAtOffset content (int 0) = Some (TextPosition (0 + 1) (0 + 1))"
    by (rule positionAtOffset_at_column)
      (use fits_safe [OF f, of 0] line_start_zero [of content] in \<open>simp_all add: offsetsForLine_def offsetsFrom_hd\<close>)
  then show ?thesis by simp
qed

section \<open>The first page\<close>

lemma characterEnd_le: "characterEnd content m 0 \<le> length content"
proof -
  have "length (concat (take m (units content))) \<le> length (concat (take m (units content)) @ concat (drop m (units content)))"
    by simp
  also have "\<dots> = length content" by (simp flip: concat_append)
  finally show ?thesis by (simp add: characterEnd_units)
qed

lemma characterEnd_within: "n \<le> characterEnd content m 0 \<Longrightarrow> length (units (take n content)) \<le> m"
proof -
  assume n: "n \<le> characterEnd content m 0"
  let ?p = "concat (take m (units content))"
  have "content = ?p @ concat (drop m (units content))" by (simp flip: concat_append)
  then have p: "take (length ?p) content = ?p" by (metis append_eq_conv_conj)
  then have "take n content = take n ?p" using n by (metis characterEnd_units drop0 le0 min.absorb1 plus_nat.add_0 take_take)
  then show ?thesis using length_units_take [of n ?p] units_take_units [of m content] by simp
qed

lemma indicesWhere_last: "indicesWhere P xs = k # ks \<Longrightarrow> List.last (k # ks) < length xs \<and> P (xs ! List.last (k # ks))"
proof -
  assume e: "indicesWhere P xs = k # ks"
  have "List.last (k # ks) \<in> set (indicesWhere P xs)" unfolding e by (rule last_in_set) simp
  then show ?thesis by (simp add: set_indicesWhere)
qed

lemma indicesWhere_none: "indicesWhere P xs = [] \<Longrightarrow> i < length xs \<Longrightarrow> \<not> P (xs ! i)"
proof -
  assume "indicesWhere P xs = []" "i < length xs"
  then show ?thesis using set_indicesWhere [of P xs] by auto
qed

lemma first_line:
  assumes "content \<noteq> []"
  shows "0 < length (logicalLines content)" "logicalLines content ! 0 = scanLines content ! 0"
    "lineStart (logicalLines content ! 0) = 0"
proof -
  show l: "0 < length (logicalLines content)" using assms logicalLines_Nil_iff by blast
  show "logicalLines content ! 0 = scanLines content ! 0" by (rule logicalLines_nth(2) [OF l])
  then show "lineStart (logicalLines content ! 0) = 0" using line_start_zero by simp
qed

lemma last_lines_first_end:
  assumes "content \<noteq> []" "separator (scanLines content ! 0) = []"
  shows "lineEnd (scanLines content ! 0) = length content"
  using line_separator [of 0 content] assms by auto

text \<open>With no complete line within reach, the reach lies on the first line.\<close>

lemma reach_on_first_line:
  assumes "fits content" "content \<noteq> []" "characterEnd content m 0 < length content"
    "indicesWhere (\<lambda>l. 0 < length (separator l) \<and> lineEnd l \<le> characterEnd content m 0) (logicalLines content) = []"
  shows "\<exists>k. positionAtOffset content (int (characterEnd content m 0)) = Some (TextPosition 1 (k + 1))"
proof -
  let ?l = "scanLines content ! 0"
  note f = first_line [OF assms(2)]
  have "\<not> (0 < length (separator ?l) \<and> lineEnd ?l \<le> characterEnd content m 0)"
    using indicesWhere_none [OF assms(4) f(1)] f(2) by simp
  then have "characterEnd content m 0 < lineEnd ?l"
    using last_lines_first_end [OF assms(2)] assms(3) by auto
  then show ?thesis
    using unit_position [OF assms(1), of 0 ?l "characterEnd content m 0" m] line_start_zero [of content]
    by (simp add: characterEnd_units)
qed

lemma logical_line_nonempty:
  assumes "j < length (logicalLines content)"
  shows "lineStart (logicalLines content ! j) < lineEnd (logicalLines content ! j)"
proof (rule ccontr)
  assume c: "\<not> ?thesis"
  note n = logicalLines_nth [OF assms] and bounds = logicalLines_bounds [OF assms refl]
  have "length (separator (logicalLines content ! j)) = 0" using c bounds(1,2,4) by linarith
  then have sep: "separator (logicalLines content ! j) = []" by simp
  then have here: "lineStart (scanLines content ! j) = length content"
    using line_separator [OF n(1) refl] n(2) c bounds(1,2) by auto
  have ne: "content \<noteq> []" using assms by auto
  then show False
  proof (cases rule: logicalLines_cases)
    case all
    then have j: "j = length (scanLines content) - 1"
      using sep n tiles_step [OF scanLines_tiles [of content], of j]
      by (metis Suc_lessI diff_Suc_1 empty_iff insert_iff list.distinct(1))
    then have last: "List.last (scanLines content) = scanLines content ! j" by (simp add: last_conv_nth)
    show False
    proof (cases "1 < length (scanLines content)")
      case True
      then have "length (logicalLines content) = length (scanLines content) - 1"
        using here last ne by (simp add: logicalLines_def Let_def)
      then show False using all True by simp
    next
      case False
      then have "lineStart (scanLines content ! j) = 0" using j line_start_zero [of content] by simp
      then show False using here ne by simp
    qed
  next
    case (ended k)
    have "separator (scanLines content ! j) \<noteq> []"
      using tiles_step [OF scanLines_tiles [of content], of j] ended assms by auto
    then show False using sep n(2) by simp
  qed
qed

lemma lineEnd_strict:
  assumes "i < j" "j < length (logicalLines content)"
  shows "lineEnd (logicalLines content ! i) < lineEnd (logicalLines content ! j)"
proof -
  have i: "i < length (logicalLines content)" using assms by simp
  note n = logicalLines_nth [OF i] logicalLines_nth [OF assms(2)]
  have "lineEnd (scanLines content ! i) \<le> lineStart (scanLines content ! j)"
    by (rule tiles_after [OF scanLines_tiles assms(1) n(3)])
  then show ?thesis using logical_line_nonempty [OF assms(2)] n by simp
qed

lemma first_line_end: "content \<noteq> [] \<Longrightarrow> i < length (logicalLines content) \<Longrightarrow> 0 < lineEnd (logicalLines content ! i)"
  using logical_line_nonempty [of i content] by simp

lemma characterEnd_pos: "content \<noteq> [] \<Longrightarrow> 0 < m \<Longrightarrow> 0 < characterEnd content m 0"
proof -
  assume "content \<noteq> []" "0 < m"
  then obtain u us k where "units content = u # us" "m = Suc k"
    by (cases "units content"; cases m) (use concat_units [of content] in auto)
  then show ?thesis using units_nonempty [of u content] characterEnd_units [of 0 content m] by simp
qed

text \<open>The marker of lines one to \<open>n\<close>, of a text with any.\<close>

lemma first_lines:
  assumes "content \<noteq> []" "0 < n"
  defines "last_line \<equiv> min n (length (logicalLines content)) - 1"
  shows "textReplacement content [Whole 1, Whole (int n)] []
     = Inr \<lparr>repStart = 0, repEnd = lineEnd (logicalLines content ! last_line), repBody = [],
            repStartLine = 1, repEndLine = int last_line + 1, normalization = None\<rparr>"
proof -
  note f = first_line [OF assms(1)]
  have "textReplacement content [Whole (int 0 + 1), Whole (int n)] []
     = Inr \<lparr>repStart = lineStart (logicalLines content ! 0), repEnd = lineEnd (logicalLines content ! last_line),
            repBody = [], repStartLine = int 0 + 1, repEndLine = int last_line + 1, normalization = None\<rparr>"
  proof (rule lineRange_replacement)
    show "last_line < length (logicalLines content)" unfolding last_line_def using f(1) by linarith
    show "int n = int last_line + 1 \<or> last_line + 1 = length (logicalLines content) \<and> int last_line < int n"
      unfolding last_line_def using f(1) assms(2) by linarith
  qed simp
  then show ?thesis using f(3) by simp
qed

text \<open>A preview is a number of lines from the first or, when no line is complete, a part of the first line.\<close>

lemma select_cases:
  assumes "fits content" "content \<noteq> []" "0 < maxLines" "0 < maxChars"
  obtains (lns) n where "0 < n" "n \<le> maxLines"
      "lineEnd (logicalLines content ! (min n (length (logicalLines content)) - 1)) \<le> characterEnd content maxChars 0"
      "select maxLines maxChars content = Some \<lparr>previewEnd =
         lineEnd (logicalLines content ! (min n (length (logicalLines content)) - 1)), previewMarks = [Whole 1, Whole (int n)]\<rparr>"
    | (part) j where "positionAtOffset content (int (characterEnd content maxChars 0)) = Some (TextPosition 1 (j + 1))"
      "select maxLines maxChars content = Some \<lparr>previewEnd = characterEnd content maxChars 0,
         previewMarks = regionMarks (regionOf (TextPosition 1 1) (TextPosition 1 (j + 1)))\<rparr>"
proof -
  let ?lns = "logicalLines content" and ?reached = "characterEnd content maxChars 0"
  let ?limit = "if maxLines < length ?lns then lineEnd (?lns ! (maxLines - 1)) else length content"
  let ?P = "\<lambda>l. 0 < length (separator l) \<and> lineEnd l \<le> ?reached"
  note f = first_line [OF assms(2)]
  consider (whole) "\<not> (?reached < length content \<and> ?reached \<le> ?limit)"
    | (ended) k ks where "?reached < length content" "?reached \<le> ?limit" "indicesWhere ?P ?lns = k # ks"
    | (region) "?reached < length content" "?reached \<le> ?limit" "indicesWhere ?P ?lns = []"
    by (cases "indicesWhere ?P ?lns") blast+
  then show thesis
  proof cases
    case whole
    have limit: "?limit = lineEnd (?lns ! (min maxLines (length ?lns) - 1))"
      using logicalLines_last_end [OF assms(2)] by (simp add: min_def)
    have "?limit \<le> ?reached"
      using whole characterEnd_le [of content maxChars] logicalLines_bounds(3) [OF _ refl, of "maxLines - 1" content]
      by (auto split: if_splits)
    moreover have "select maxLines maxChars content = Some \<lparr>previewEnd = ?limit, previewMarks = [Whole 1, Whole (int maxLines)]\<rparr>"
      unfolding select_def Let_def by (rule if_not_P [OF whole])
    ultimately show thesis using lns [of maxLines] limit assms(3) by simp
  next
    case ended
    let ?i = "List.last (k # ks)"
    note i = indicesWhere_last [OF ended(3)]
    have "?i < maxLines"
    proof (rule ccontr)
      assume "\<not> ?thesis"
      then have "maxLines - 1 < ?i" using assms(3) by simp
      then show False using lineEnd_strict [of "maxLines - 1" ?i content] i ended(2) by (auto split: if_splits)
    qed
    then show thesis
      using lns [of "?i + 1"] ended i by (simp add: select_def Let_def add.commute min_def del: last.simps)
  next
    case region
    obtain j where j: "positionAtOffset content (int ?reached) = Some (TextPosition 1 (j + 1))"
      using reach_on_first_line [OF assms(1,2) region(1,3)] ..
    then have "regionFromOffsets content 0 (int ?reached) = Some (regionOf (TextPosition 1 1) (TextPosition 1 (j + 1)))"
      using positionAtOffset_zero [OF assms(1)] by (simp add: regionFromOffsets_def)
    then show thesis using part [OF j] region by (simp add: select_def Let_def)
  qed
qed

section \<open>The last page\<close>

lemma units_drop: "units (drop (length (concat (take k (units s)))) s) = drop k (units s)"
proof (induction k arbitrary: s)
  case (Suc k)
  show ?case
  proof (cases "s = []")
    case False
    then obtain u us where us: "units s = u # us" using concat_units [of s] by (cases "units s") (auto simp del: concat_units)
    have "units (drop (length (concat (take k us))) (drop (length u) s)) = drop k us"
      using Suc.IH [of "drop (length u) s"] units_drop_hd [OF False] us by simp
    then show ?thesis using us by (simp add: add.commute)
  qed simp
qed simp

lemma skipLong_facts:
  "first \<le> skipLong tooLong left first \<and> skipLong tooLong left first \<le> first + left
   \<and> (tooLong (skipLong tooLong left first) \<longrightarrow> skipLong tooLong left first = first + left)"
proof (induction left arbitrary: first)
  case (Suc left)
  have "first \<le> skipLong tooLong left (first + 1)" using Suc.IH [of "first + 1"] by linarith
  then show ?case using Suc.IH [of "first + 1"] by auto
qed simp

lemma skipLong_stays: "\<not> tooLong first \<Longrightarrow> skipLong tooLong left first = first"
  by (cases left) simp_all

lemma units_drop_le: "length (units (drop n s)) \<le> length (units s)"
proof (induction n arbitrary: s)
  case (Suc n)
  show ?case
  proof (cases s)
    case (Cons c t)
    then show ?thesis using Suc.IH [of t] units_Cons [of t c] by simp
  qed simp
qed simp

lemma end_position:
  assumes "fits content"
  shows "\<exists>q. positionAtOffset content (int (length content)) = Some q"
proof -
  have "length (scanLines content) - 1 < length (scanLines content)" by simp
  from positionAtOffset_line_ends(2) [OF assms this] show ?thesis
    using tiles_last [OF scanLines_tiles [of content]] by (simp add: last_conv_nth)
qed

lemma drop_to_offset:
  "length (concat (take k (units s))) + length (concat (drop k (units s))) = length s"
  by (metis append_take_drop_id concat_append concat_units length_append)

text \<open>The offset a bounded number of characters before the end, on the last line.\<close>

lemma tail_start_position:
  assumes "fits content" "content \<noteq> []" "Suc i = length (logicalLines content)" "0 < maxChars"
    "maxChars < length (units (drop (lineStart (logicalLines content ! i)) content))"
  defines "from \<equiv> lineStart (logicalLines content ! i)"
  defines "start \<equiv> length content
    - length (concat (drop (length (units (drop from content)) - maxChars) (units (drop from content))))"
  shows "from \<le> start" "start \<le> length content" "length (units (drop start content)) = maxChars"
    "\<exists>j. positionAtOffset content (int start) = Some (TextPosition (i + 1) (j + 1))"
proof -
  let ?us = "units (drop from content)" and ?k = "length (units (drop from content)) - maxChars"
  let ?l = "scanLines content ! i"
  have i: "i < length (logicalLines content)" using assms(3) by simp
  note n = logicalLines_nth [OF i] and b = logicalLines_bounds [OF i refl]
  have le: "from \<le> length content" using b by (simp add: from_def)
  have start: "start = from + length (concat (take ?k ?us))"
    using drop_to_offset [of ?k "drop from content"] le by (simp add: start_def)
  show "from \<le> start" using start by simp
  show "start \<le> length content" by (simp add: start_def)
  have "units (drop start content) = drop ?k ?us"
    using units_drop [of ?k "drop from content"] by (simp add: start add.commute)
  then show "length (units (drop start content)) = maxChars" using assms(5) by (simp add: from_def)
  have ended: "lineEnd ?l = length content" using logicalLines_last_end [OF assms(2)] assms(3) n by (metis diff_Suc_1)
  have "start < lineEnd ?l"
  proof -
    have "?us \<noteq> []" using assms(4,5) by (auto simp: from_def)
    then have "concat (drop ?k ?us) \<noteq> []"
      using assms(4,5) units_nonempty [of "?us ! ?k" "drop from content"]
      by (simp add: from_def flip: Cons_nth_drop_Suc)
    then show ?thesis using ended by (simp add: start_def assms(2))
  qed
  then show "\<exists>j. positionAtOffset content (int start) = Some (TextPosition (i + 1) (j + 1))"
    using unit_position [OF assms(1) n(1) refl, of start ?k] start n(2) by (simp add: from_def)
qed

section \<open>Properties\<close>

text \<open>C34. The first page is what its marker says: the selection of a preview never throws, the slicer resolves its marker to
  exactly the page, from the start of the text to the page's end, on at most \<open>maxLines\<close> lines and with at most \<open>maxChars\<close>
  characters, and the page of a text that is not empty is not empty.\<close>

theorem preview_is_its_marker:
  assumes "fits content" "0 < maxLines" "0 < maxChars"
  shows "\<exists>p r. select maxLines maxChars content = Some p \<and> textReplacement content (previewMarks p) [] = Inr r
     \<and> repStart r = 0 \<and> repEnd r = previewEnd p \<and> repEndLine r \<le> int maxLines
     \<and> length (units (take (previewEnd p) content)) \<le> maxChars \<and> (content \<noteq> [] \<longrightarrow> 0 < previewEnd p)"
proof (cases "content = []")
  case True
  then show ?thesis
    using assms(2) by (simp add: select_def textReplacement_def lineTextReplacement_def normalize_def
      normalizeRange_def atLine_def atIndex_def)
next
  case ne: False
  from assms(1) ne assms(2,3) show ?thesis
  proof (cases rule: select_cases)
    case (lns n)
    have "min n (length (logicalLines content)) - 1 < length (logicalLines content)"
      using first_line(1) [OF ne] by linarith
    from first_line_end [OF ne this] show ?thesis
      using lns first_lines [OF ne lns(1)] characterEnd_within by (simp del: units.simps)
  next
    case (part j)
    have r: "regionFromOffsets content 0 (int (characterEnd content maxChars 0))
        = Some (regionOf (TextPosition 1 1) (TextPosition 1 (j + 1)))"
      using positionAtOffset_zero [OF assms(1)] part(1) by (simp add: regionFromOffsets_def)
    show ?thesis
      using regionFromOffsets_Some [OF assms(1) r, of "[]"] part(2) assms(2) characterEnd_pos [OF ne assms(3)]
        characterEnd_within [of "characterEnd content maxChars 0" content maxChars]
      by (simp add: regionOf_def)
  qed
qed

theorem preview_is_its_marker_witness:
  "\<exists>p r. select 2 3 [97, 13, 10, 98, 98, 13, 10, 99] = Some p
     \<and> textReplacement [97, 13, 10, 98, 98, 13, 10, 99] (previewMarks p) [] = Inr r
     \<and> repStart r = 0 \<and> repEnd r = previewEnd p \<and> repEndLine r \<le> int 2
     \<and> length (units (take (previewEnd p) [97, 13, 10, 98, 98, 13, 10, 99])) \<le> 3
     \<and> ([97, 13, 10, 98, 98, 13, 10, 99 :: jschar] \<noteq> [] \<longrightarrow> 0 < previewEnd p)"
  by (rule preview_is_its_marker) (simp_all add: fits_def MAX_SAFE_INTEGER_def)

text \<open>The last page is what its marker says: its selection never throws, the slicer resolves its marker to the text from
  the page's start to the end, which starts within the last \<open>maxLines\<close> lines and holds at most \<open>maxChars\<close> characters, and the
  page is reported whole exactly when the text fits both limits.\<close>

lemma tail_is_its_marker:
  assumes "fits content" "0 < maxLines" "0 < maxChars"
  shows "\<exists>p r. selectTail maxLines maxChars content = Some p \<and> textReplacement content (tailMarks p) [] = Inr r
     \<and> repStart r = tailStart p \<and> repEnd r = length content
     \<and> int (length (logicalLines content)) - int maxLines < repStartLine r
     \<and> length (units (drop (tailStart p) content)) \<le> maxChars
     \<and> (tailWhole p \<longleftrightarrow> length (logicalLines content) \<le> maxLines \<and> length (units content) \<le> maxChars)"
proof (cases "content = []")
  case True
  then show ?thesis
    using assms(2) by (simp add: selectTail_def textReplacement_def lineTextReplacement_def normalize_def
      normalizeRange_def atLine_def atIndex_def)
next
  case ne: False
  let ?lns = "logicalLines content"
  let ?tooLong = "\<lambda>i. maxChars < pointsFrom content (lineStart (?lns ! i))"
  let ?low = "length ?lns - maxLines"
  define first where "first = skipLong ?tooLong (length ?lns - 1 - ?low) ?low"
  have pos: "0 < length ?lns" by (rule first_line(1) [OF ne])
  have fst: "?low \<le> first" "first \<le> length ?lns - 1" "?tooLong first \<longrightarrow> Suc first = length ?lns"
    using skipLong_facts [of ?low ?tooLong "length ?lns - 1 - ?low"] pos assms(2)
    unfolding first_def by auto
  have line: "int (length ?lns) - int maxLines < int first + 1" using fst(1) by linarith
  have flt: "first < length ?lns" using fst(2) pos by linarith
  have step: "selectTail maxLines maxChars content =
      (if ?tooLong first
        then (let ending = units (drop (lineStart (?lns ! first)) content);
                  start = length content - length (concat (drop (length ending - maxChars) ending)) in
              map_option (\<lambda>r. \<lparr>tailStart = start, tailMarks = regionMarks r, tailWhole = False\<rparr>)
                (regionFromOffsets content (int start) (int (length content))))
        else Some \<lparr>tailStart = lineStart (?lns ! first), tailMarks = [Whole (int first + 1), Whole (int (length ?lns))],
                   tailWhole = (first = 0 \<and> pointsFrom content 0 \<le> maxChars)\<rparr>)"
    using ne by (simp add: selectTail_def Let_def first_def)
  have shorter: "pointsFrom content (lineStart (?lns ! first)) \<le> pointsFrom content 0"
    by (simp add: pointsFrom_units units_drop_le)
  show ?thesis
  proof (cases "?tooLong first")
    case True
    then have last_one: "Suc first = length ?lns" using fst(3) by blast
    let ?ending = "units (drop (lineStart (?lns ! first)) content)"
    let ?start = "length content - length (concat (drop (length ?ending - maxChars) ?ending))"
    have long: "maxChars < length ?ending" using True by (simp add: pointsFrom_units)
    note t = tail_start_position [OF assms(1) ne last_one assms(3) long]
    obtain j where j: "positionAtOffset content (int ?start) = Some (TextPosition (first + 1) (j + 1))"
      using t(4) ..
    obtain q where q: "positionAtOffset content (int (length content)) = Some q"
      using end_position [OF assms(1)] ..
    let ?r = "regionOf (TextPosition (first + 1) (j + 1)) q"
    have r: "regionFromOffsets content (int ?start) (int (length content)) = Some ?r"
      using j q by (simp add: regionFromOffsets_def)
    have sel: "selectTail maxLines maxChars content = Some \<lparr>tailStart = ?start, tailMarks = regionMarks ?r, tailWhole = False\<rparr>"
      unfolding step Let_def if_P [OF True] r by simp
    have "\<not> length (units content) \<le> maxChars" using shorter True by (simp add: pointsFrom_units)
    then show ?thesis
      using sel regionFromOffsets_Some [OF assms(1) r, of "[]"] t(3) line by (simp add: regionOf_def)
  next
    case False
    have "textReplacement content [Whole (int first + 1), Whole (int (length ?lns))] []
      = Inr \<lparr>repStart = lineStart (?lns ! first), repEnd = lineEnd (?lns ! (length ?lns - 1)),
            repBody = [], repStartLine = int first + 1, repEndLine = int (length ?lns - 1) + 1, normalization = None\<rparr>"
      using fst(2) pos by (intro lineRange_replacement) auto
    moreover have "first = 0 \<and> length (units content) \<le> maxChars
        \<longleftrightarrow> length ?lns \<le> maxLines \<and> length (units content) \<le> maxChars"
    proof
      assume "length ?lns \<le> maxLines \<and> length (units content) \<le> maxChars"
      then have "?low = 0" "\<not> ?tooLong 0"
        by (simp_all add: pointsFrom_units) (meson leD le_less_trans units_drop_le)
      then show "first = 0 \<and> length (units content) \<le> maxChars"
        using skipLong_stays [of ?tooLong 0] \<open>_ \<and> _\<close> unfolding first_def by simp
    qed (use fst(1) in simp)
    ultimately show ?thesis
      using step False line logicalLines_last_end [OF ne] by (simp add: pointsFrom_units)
  qed
qed

lemma tail_is_its_marker_witness:
  "\<exists>p r. selectTail 2 2 [97, 13, 10, 98, 98, 98, 13, 10] = Some p
     \<and> textReplacement [97, 13, 10, 98, 98, 98, 13, 10] (tailMarks p) [] = Inr r
     \<and> repStart r = tailStart p \<and> repEnd r = length [97, 13, 10, 98, 98, 98, 13, 10 :: jschar]
     \<and> int (length (logicalLines [97, 13, 10, 98, 98, 98, 13, 10])) - int 2 < repStartLine r
     \<and> length (units (drop (tailStart p) [97, 13, 10, 98, 98, 98, 13, 10])) \<le> 2
     \<and> (tailWhole p \<longleftrightarrow> length (logicalLines [97, 13, 10, 98, 98, 98, 13, 10]) \<le> 2
          \<and> length (units [97, 13, 10, 98, 98, 98, 13, 10]) \<le> 2)"
  by (rule tail_is_its_marker) (simp_all add: fits_def MAX_SAFE_INTEGER_def)

lemma tail_example: "map_option tailMarks (selectTail 2 2 [97, 13, 10, 98, 98, 98, 13, 10])
   = Some [Whole 2, Whole 3, Whole 3, Whole 1]"
  by code_simp

end
