(* ===== verification/LineSelection.thy ===== *)
theory LineSelection
  imports EditReceipt
begin

text \<open>
  \<^verbatim>\<open>plurnk-core/src/content/line-selection.ts\<close>: a text reduced to some of its lines, and the way back: a region of the
  reduced text becomes the regions of the source it was put together from. A line number of the source is an ordinal;
  \<open>retain\<close> counts ordinals from \<open>startLine\<close>, so that a slice of a text can be reduced too.

  The lemmas give the lines of the reduced text, show that a run of kept lines that follow one another in the source is the
  same text in both, and conclude that the fragments of a region put together are the region's text. They need a text
  without carriage returns; the last section shows why.
\<close>

section \<open>Keeping lines\<close>

record Retained =
  retContent :: jsstr
  retOrdinals :: "nat list"

definition retain :: "jsstr \<Rightarrow> nat list \<Rightarrow> nat \<Rightarrow> Retained" where
  "retain content selected firstOrdinal =
     (let kept = filter (\<lambda>(l, ordinal). ordinal \<in> set selected)
            (zip (logicalLines content) (map (\<lambda>i. firstOrdinal + i) [0..<length (logicalLines content)]))
      in \<lparr>retContent = concat (map (\<lambda>(l, ordinal). jsSlice content (lineStart l) (lineEnd l)) kept),
          retOrdinals = map snd kept\<rparr>)"

text \<open>The source line of a line of the selection; the line after the last kept one is the one after it in the source.\<close>

definition sourceLine :: "nat list \<Rightarrow> nat \<Rightarrow> nat \<Rightarrow> nat option" where
  "sourceLine ordinals line column =
     (if line = length ordinals + 1 \<and> column = 1 \<and> ordinals \<noteq> [] then Some (last ordinals + 1)
      else atLine ordinals (int line))"

definition fragment :: "nat \<times> nat \<Rightarrow> nat \<Rightarrow> nat \<Rightarrow> TextRegion" where
  "fragment from finalLine column =
     \<lparr>startLine = fst from, startColumn = snd from, endLine = finalLine, endColumn = column\<rparr>"

text \<open>
  The loop over \<open>line\<close>, with \<open>left\<close> rounds to go before \<open>region.endLine\<close>. \<open>ordinals[line]\<close> is read past the end only in
  the round that returns.
\<close>

fun fragmentsFrom :: "nat list \<Rightarrow> nat \<Rightarrow> nat \<Rightarrow> nat \<times> nat \<Rightarrow> nat \<Rightarrow> nat \<Rightarrow> TextRegion list" where
  "fragmentsFrom ordinals finalLine finalColumn from line 0 = [fragment from finalLine finalColumn]"
| "fragmentsFrom ordinals finalLine finalColumn from line (Suc left) =
     (let following = atIndex ordinals line; after = ordinals ! (line - 1) + 1 in
      if left = 0 \<and> finalColumn = 1 then [fragment from after 1]
      else case following of
          Some o' \<Rightarrow> if o' \<noteq> after
            then fragment from after 1 # fragmentsFrom ordinals finalLine finalColumn (o', 1) (line + 1) left
            else fragmentsFrom ordinals finalLine finalColumn from (line + 1) left
        | None \<Rightarrow> [])"

text \<open>\<open>None\<close> is the \<open>RangeError\<close> of a region that is no region of the selection.\<close>

definition regions :: "TextRegion \<Rightarrow> nat list \<Rightarrow> TextRegion list option" where
  "regions r ordinals =
     (if ordinals = [] \<and> startLine r = 1 \<and> endLine r = 1 \<and> startColumn r = 1 \<and> endColumn r = 1 then Some []
      else case (sourceLine ordinals (startLine r) (startColumn r), sourceLine ordinals (endLine r) (endColumn r)) of
          (Some s, Some e) \<Rightarrow> Some (fragmentsFrom ordinals e (endColumn r) (s, startColumn r) (startLine r) (endLine r - startLine r))
        | _ \<Rightarrow> None)"


text \<open>A match with its region or, failing that, the region around it; \<open>'e\<close> is what else it carries.\<close>

record 'e MatchEvidence =
  matchRegion :: "TextRegion option"
  enclosingRegion :: "TextRegion option"
  matchDetail :: 'e

definition evidenceParts :: "'e MatchEvidence \<Rightarrow> nat list \<Rightarrow> 'e MatchEvidence list option" where
  "evidenceParts m ordinals =
     (case (matchRegion m, enclosingRegion m) of
        (Some r, _) \<Rightarrow> map_option (map (\<lambda>part. \<lparr>matchRegion = Some part, enclosingRegion = None, matchDetail = matchDetail m\<rparr>))
                        (regions r ordinals)
      | (None, Some r) \<Rightarrow> map_option (map (\<lambda>part. \<lparr>matchRegion = None, enclosingRegion = Some part, matchDetail = matchDetail m\<rparr>))
                            (regions r ordinals)
      | (None, None) \<Rightarrow> Some [m])"

definition evidence :: "'e MatchEvidence list \<Rightarrow> nat list \<Rightarrow> 'e MatchEvidence list option" where
  "evidence matches ordinals = map_option concat (those (map (\<lambda>m. evidenceParts m ordinals) matches))"

section \<open>Positions of a text of terminated lines\<close>

definition bodiesLF :: "jsstr \<Rightarrow> jsstr list" where "bodiesLF s = splitTerminators s"

definition offLF :: "jsstr list \<Rightarrow> nat \<Rightarrow> nat \<Rightarrow> nat" where
  "offLF bs i c = length (unlinesLF (take i bs)) + length (concat (take c (codePoints (bs ! i))))"

lemma bodiesLF_facts:
  assumes "CR \<notin> set s"
  shows "unlinesLF (bodiesLF s) = s @ [LF]" "plainLines (bodiesLF s)" "bodiesLF s \<noteq> []"
  using splitTerminators_join [OF assms] by (simp_all add: bodiesLF_def)

lemma bodiesLF_split:
  assumes "CR \<notin> set s"
  obtains ls b where "bodiesLF s = ls @ [b]" "s = unlinesLF ls @ b" "plainLines ls" "newlineFree b"
proof -
  obtain ls b where b: "bodiesLF s = ls @ [b]" using bodiesLF_facts(3) [OF assms] by (cases "bodiesLF s" rule: rev_cases) auto
  with bodiesLF_facts [OF assms] that show thesis by auto
qed

lemma scanLines_LF:
  assumes "CR \<notin> set s"
  shows "length (scanLines s) = length (bodiesLF s)"
    "i < length (bodiesLF s) \<Longrightarrow> lineStart (scanLines s ! i) = length (unlinesLF (take i (bodiesLF s)))"
    "i < length (bodiesLF s) \<Longrightarrow> lineBody s (scanLines s ! i) = bodiesLF s ! i"
    "i < length (bodiesLF s) \<Longrightarrow> separator (scanLines s ! i) = (if Suc i = length (bodiesLF s) then [] else [LF])"
proof -
  from assms obtain ls b where b: "bodiesLF s = ls @ [b]" "s = unlinesLF ls @ b" "plainLines ls" "newlineFree b"
    by (rule bodiesLF_split)
  have scan: "scanLines s = layout 0 (map (\<lambda>l. (l, [LF])) ls) @ [mkLine (length (unlinesLF ls)) (length (unlinesLF ls) + length b) []]"
    using scanFrom_lines [OF b(3,4), of 0] b(2) by (simp add: scanLines_def)
  show "length (scanLines s) = length (bodiesLF s)" using scan b(1) by simp
  assume i: "i < length (bodiesLF s)"
  consider "i < length ls" | "i = length ls" using i b(1) by fastforce
  then have "lineStart (scanLines s ! i) = length (unlinesLF (take i (bodiesLF s)))
    \<and> lineBody s (scanLines s ! i) = bodiesLF s ! i
    \<and> separator (scanLines s ! i) = (if Suc i = length (bodiesLF s) then [] else [LF])"
  proof cases
    case 1
    have "jsSlice (unlinesLF (take i ls) @ (ls ! i) @ LF # unlinesLF (drop (Suc i) ls) @ b) (length (unlinesLF (take i ls)))
        (length (unlinesLF (take i ls)) + length (ls ! i)) = ls ! i" by (rule slice_between)
    moreover have "s = unlinesLF (take i ls) @ (ls ! i) @ LF # unlinesLF (drop (Suc i) ls) @ b"
    proof -
      have "ls = take i ls @ ls ! i # drop (Suc i) ls" using 1 by (simp add: id_take_nth_drop)
      then have "unlinesLF ls = unlinesLF (take i ls @ ls ! i # drop (Suc i) ls)" by simp
      then show ?thesis using b(2) by simp
    qed
    ultimately have "lineBody s (mkLine (length (unlinesLF (take i ls))) (length (unlinesLF (take i ls)) + length (ls ! i)) [LF]) = ls ! i"
      by (simp add: lineBody_def mkLine_def)
    then show ?thesis using 1 scan b(1) layout_nth [OF 1, of 0] by (simp add: nth_append mkLine_def)
  next
    case 2
    have "jsSlice s (length (unlinesLF ls)) (length (unlinesLF ls) + length b) = b"
      using slice_between [of "unlinesLF ls" b "[]"] b(2) by simp
    then show ?thesis using 2 scan b(1) by (simp add: nth_append lineBody_def mkLine_def)
  qed
  then show "lineStart (scanLines s ! i) = length (unlinesLF (take i (bodiesLF s)))"
    "lineBody s (scanLines s ! i) = bodiesLF s ! i"
    "separator (scanLines s ! i) = (if Suc i = length (bodiesLF s) then [] else [LF])" by simp_all
qed

lemma offsetsForLine_LF:
  assumes "CR \<notin> set s" "i < length (bodiesLF s)"
  shows "length (offsetsForLine s (scanLines s ! i)) = Suc (length (codePoints (bodiesLF s ! i)))"
    "c \<le> length (codePoints (bodiesLF s ! i)) \<Longrightarrow> offsetsForLine s (scanLines s ! i) ! c = offLF (bodiesLF s) i c"
  using scanLines_LF(2,3) [OF assms] by (simp_all add: offsetsForLine_def offsetsFrom_nth offLF_def)

lemma offsetAtPosition_LF:
  assumes "CR \<notin> set s" "fits s" "i < length (bodiesLF s)" "c \<le> length (codePoints (bodiesLF s ! i))"
  shows "offsetAtPosition s (int i + 1) (int c + 1) = Inr (offLF (bodiesLF s) i c)"
proof -
  have i: "i < length (scanLines s)" using assms scanLines_LF(1) by simp
  note o' = offsetsForLine_LF [OF assms(1,3)]
  have "i + 1 \<le> length s + 1" "c + 1 \<le> length s + 1"
    using i assms(4) length_scanLines [of s] length_offsetsForLine [OF i] o'(1) by simp_all
  then have "safeInt (int (i + 1))" "safeInt (int (c + 1))" by (blast intro: fits_safe [OF assms(2)])+
  then show ?thesis
    using offsetAtPosition_Inr [of i c s] i o' assms(4) by (simp add: add.commute)
qed

lemma offsetAtPosition_LF_E:
  assumes "CR \<notin> set s" "offsetAtPosition s l k = Inr o'"
  obtains i c where "l = int i + 1" "k = int c + 1" "i < length (bodiesLF s)"
    "c \<le> length (codePoints (bodiesLF s ! i))" "o' = offLF (bodiesLF s) i c"
proof -
  from assms(2) obtain i c where ic: "l = int i + 1" "k = int c + 1" "i < length (scanLines s)"
    "c < length (offsetsForLine s (scanLines s ! i))" "o' = offsetsForLine s (scanLines s ! i) ! c"
    by (rule offsetAtPosition_InrE)
  then have i: "i < length (bodiesLF s)" using scanLines_LF(1) [OF assms(1)] by simp
  show thesis using that [of i c] ic i offsetsForLine_LF [OF assms(1) i] by simp
qed

lemma colLF: "c \<le> length (codePoints b) \<Longrightarrow> length (concat (take c (codePoints b))) \<le> length b"
proof -
  have "length (concat (take c (codePoints b))) \<le> length (concat (take c (codePoints b)) @ concat (drop c (codePoints b)))" by simp
  also have "\<dots> = length b" by (simp flip: concat_append)
  finally show ?thesis .
qed

lemma offLF_block:
  assumes "u + i < length bs"
  shows "offLF bs (u + i) c = length (unlinesLF (take u bs)) + offLF (drop u bs) i c"
proof -
  have "take (u + i) bs = take u bs @ take i (drop u bs)" by (simp add: take_add)
  then show ?thesis using assms by (simp add: offLF_def)
qed

lemma offLF_take: "i < m \<Longrightarrow> offLF (take m bs) i c = offLF bs i c"
  by (simp add: offLF_def min_def)

lemma offLF_zero: "offLF bs i 0 = length (unlinesLF (take i bs))"
  by (simp add: offLF_def)

lemma offLF_bound:
  assumes "i < length bs" "c \<le> length (codePoints (bs ! i))"
  shows "offLF bs i c + 1 \<le> length (unlinesLF (take (Suc i) bs))"
  using colLF [OF assms(2)] assms(1) by (simp add: offLF_def take_Suc_conv_app_nth)

lemma unlines_take_mono: "i \<le> j \<Longrightarrow> length (unlinesLF (take i bs)) \<le> length (unlinesLF (take j bs))"
proof -
  assume "i \<le> j"
  then have "take j bs = take i bs @ take (j - i) (drop i bs)" by (metis le_add_diff_inverse take_add)
  then show ?thesis by simp
qed

lemma offLF_le_length:
  assumes "CR \<notin> set s" "i < length (bodiesLF s)" "c \<le> length (codePoints (bodiesLF s ! i))"
  shows "offLF (bodiesLF s) i c \<le> length s"
  using offLF_bound [OF assms(2,3)] unlines_take_mono [of "Suc i" "length (bodiesLF s)" "bodiesLF s"] assms(2)
    bodiesLF_facts(1) [OF assms(1)] by (simp add: Suc_leI)

lemma slice_block:
  assumes "b \<le> length m"
  shows "jsSlice (p @ m @ t) (length p + a) (length p + b) = jsSlice m a b"
  using assms by (simp add: jsSlice_def)

text \<open>A block of the lines of a text, and the same block of another's.\<close>

lemma same_block:
  assumes "take m (drop u bs) = take m (drop v ks)" "u + m \<le> length bs" "v + m \<le> length ks"
    "b \<le> length (unlinesLF (take m (drop u bs)))"
  shows "jsSlice (unlinesLF bs) (length (unlinesLF (take u bs)) + a) (length (unlinesLF (take u bs)) + b)
    = jsSlice (unlinesLF ks) (length (unlinesLF (take v ks)) + a) (length (unlinesLF (take v ks)) + b)"
proof -
  have "xs = take w xs @ take m (drop w xs) @ drop (w + m) xs" for w and xs :: "jsstr list"
    by (metis append_assoc append_take_drop_id take_add)
  then have "unlinesLF xs = unlinesLF (take w xs) @ unlinesLF (take m (drop w xs)) @ unlinesLF (drop (w + m) xs)" for w xs
    by (metis unlinesLF_simps(3))
  then show ?thesis using slice_block assms(1,4) by metis
qed

section \<open>What is kept\<close>

lemma bodiesLF_unlines:
  assumes "plainLines ls" "newlineFree b"
  shows "bodiesLF (unlinesLF ls @ b) = ls @ [b]"
proof -
  let ?s = "unlinesLF ls @ b"
  have "CR \<notin> set ?s" using assms newlineFree_LF(2)
    by (auto simp: unlinesLF_def plainLines_def list_all_iff)
  from bodiesLF_facts(1,2) [OF this] have "unlinesLF (bodiesLF ?s) = unlinesLF (ls @ [b])" "plainLines (bodiesLF ?s)" by simp_all
  then have "bodiesLF ?s @ [[]] = (ls @ [b]) @ [[]]"
    using splitTerminators_unlinesLF [of "bodiesLF ?s"] splitTerminators_unlinesLF [of "ls @ [b]"] assms by simp
  then show ?thesis by simp
qed

definition keptIndices :: "jsstr \<Rightarrow> nat list \<Rightarrow> nat \<Rightarrow> nat list" where
  "keptIndices content selected firstOrdinal =
     filter (\<lambda>i. firstOrdinal + i \<in> set selected) [0..<length (logicalLines content)]"

lemma zip_filter_map:
  "filter (\<lambda>(x, y). P y) (zip xs (map f [0..<length xs])) = map (\<lambda>i. (xs ! i, f i)) (filter (\<lambda>i. P (f i)) [0..<length xs])"
proof -
  have "zip xs (map f [0..<length xs]) = map (\<lambda>i. (xs ! i, f i)) [0..<length xs]"
    by (rule nth_equalityI) simp_all
  then show ?thesis by (simp add: filter_map comp_def)
qed

lemma line_slice:
  assumes "i < length (logicalLines content)"
  shows "jsSlice content (lineStart (logicalLines content ! i)) (lineEnd (logicalLines content ! i))
    = lineBody content (logicalLines content ! i) @ separator (logicalLines content ! i)"
proof -
  note b = logicalLines_bounds [OF assms refl]
  show ?thesis using slice_append_slice [OF b(1,2), of content] b(5) by (simp add: lineBody_def)
qed

lemma logical_LF:
  assumes "CR \<notin> set content" "i < length (logicalLines content)"
  shows "i < length (bodiesLF content)"
    "jsSlice content (lineStart (logicalLines content ! i)) (lineEnd (logicalLines content ! i))
      = bodiesLF content ! i @ (if Suc i = length (bodiesLF content) then [] else [LF])"
proof -
  note n = logicalLines_nth [OF assms(2)]
  show i: "i < length (bodiesLF content)" using n scanLines_LF(1) [OF assms(1)] by simp
  show "jsSlice content (lineStart (logicalLines content ! i)) (lineEnd (logicalLines content ! i))
      = bodiesLF content ! i @ (if Suc i = length (bodiesLF content) then [] else [LF])"
    using line_slice [OF assms(2)] n scanLines_LF(3,4) [OF assms(1) i] by simp
qed

lemma retain_kept:
  fixes content :: jsstr and selected :: "nat list" and firstOrdinal :: nat
  assumes "CR \<notin> set content"
  defines "bs \<equiv> bodiesLF content" and "K \<equiv> keptIndices content selected firstOrdinal"
  shows "retOrdinals (retain content selected firstOrdinal) = map (\<lambda>i. firstOrdinal + i) K"
    "retContent (retain content selected firstOrdinal)
      = concat (map (\<lambda>i. bs ! i @ (if Suc i = length bs then [] else [LF])) K)"
    "sorted_wrt (<) K" "\<forall>i \<in> set K. i < length bs"
proof -
  have K: "filter (\<lambda>(l, ordinal). ordinal \<in> set selected)
      (zip (logicalLines content) (map (\<lambda>i. firstOrdinal + i) [0..<length (logicalLines content)]))
    = map (\<lambda>i. (logicalLines content ! i, firstOrdinal + i)) K"
    unfolding K_def keptIndices_def by (rule zip_filter_map)
  show "retOrdinals (retain content selected firstOrdinal) = map (\<lambda>i. firstOrdinal + i) K"
    unfolding retain_def K by (simp add: Let_def comp_def)
  have logical: "i < length (logicalLines content)" if "i \<in> set K" for i
    using that by (simp add: K_def keptIndices_def)
  show "retContent (retain content selected firstOrdinal)
      = concat (map (\<lambda>i. bs ! i @ (if Suc i = length bs then [] else [LF])) K)"
    unfolding retain_def K bs_def
    by (simp add: Let_def comp_def case_prod_beta logical_LF(2) [OF assms(1) logical] cong: map_cong)
  show "sorted_wrt (<) K" unfolding K_def keptIndices_def by (rule sorted_wrt_filter) simp
  show "\<forall>i \<in> set K. i < length bs" using logical logical_LF(1) [OF assms(1)] by (simp add: bs_def)
qed

text \<open>The lines of the selection are the kept lines, with an empty one after them when the last kept line is terminated.\<close>

lemma retain_bodies:
  fixes content :: jsstr and selected :: "nat list" and firstOrdinal :: nat
  assumes "CR \<notin> set content"
  defines "bs \<equiv> bodiesLF content" and "K \<equiv> keptIndices content selected firstOrdinal"
    and "R \<equiv> retContent (retain content selected firstOrdinal)"
  shows "CR \<notin> set R"
    "bodiesLF R = map ((!) bs) K @ (if K \<noteq> [] \<and> Suc (last K) = length bs then [] else [[]])"
proof -
  note kept = retain_kept [OF assms(1), of selected firstOrdinal, folded bs_def K_def R_def]
  have plain: "newlineFree (bs ! i)" if "i \<in> set K" for i
    using kept(4) that bodiesLF_facts(2) [OF assms(1)] by (simp add: bs_def plainLines_def list_all_iff)
  have open_lines: "concat (map (\<lambda>i. bs ! i @ (if Suc i = length bs then [] else [LF])) J) = unlinesLF (map ((!) bs) J)"
    if "\<forall>i \<in> set J. Suc i \<noteq> length bs" for J
    using that by (simp add: unlinesLF_def comp_def cong: map_cong)
  obtain J b where J: "R = unlinesLF (map ((!) bs) J) @ b" "newlineFree b" "set J \<subseteq> set K"
    "map ((!) bs) J @ [b] = map ((!) bs) K @ (if K \<noteq> [] \<and> Suc (last K) = length bs then [] else [[]])"
  proof (cases "K \<noteq> [] \<and> Suc (last K) = length bs")
    case True
    then obtain J k where K: "K = J @ [k]" "Suc k = length bs" by (cases K rule: rev_cases) auto
    have "\<forall>i \<in> set J. Suc i \<noteq> length bs" using kept(3) K by (auto simp: sorted_wrt_append)
    from open_lines [OF this] that [of J "bs ! k"] K kept(2) plain show thesis by auto
  next
    case False
    have "\<forall>i \<in> set K. Suc i \<noteq> length bs"
    proof
      fix i assume i: "i \<in> set K"
      show "Suc i \<noteq> length bs"
      proof
        assume e: "Suc i = length bs"
        obtain J k where K: "K = J @ [k]" using i by (cases K rule: rev_cases) auto
        have "i = k" using i K kept(3,4) e by (fastforce simp: sorted_wrt_append)
        then show False using False K e by simp
      qed
    qed
    from open_lines [OF this] False that [of K "[]"] kept(2) show thesis by auto
  qed
  have "plainLines (map ((!) bs) J)" using J(3) plain by (auto simp: plainLines_def list_all_iff)
  then show "bodiesLF R = map ((!) bs) K @ (if K \<noteq> [] \<and> Suc (last K) = length bs then [] else [[]])"
    using bodiesLF_unlines J by simp
  show "CR \<notin> set R"
    using J(1,2) \<open>plainLines _\<close> newlineFree_LF(2) by (auto simp: unlinesLF_def plainLines_def list_all_iff)
qed

section \<open>Fragments\<close>

definition textOf :: "jsstr \<Rightarrow> TextRegion \<Rightarrow> jsstr option" where
  "textOf content r =
     (case (offsetAtPosition content (int (startLine r)) (int (startColumn r)),
            offsetAtPosition content (int (endLine r)) (int (endColumn r))) of
        (Inr a, Inr b) \<Rightarrow> if a \<le> b then Some (jsSlice content a b) else None
      | _ \<Rightarrow> None)"

lemma textOf_LF:
  assumes "CR \<notin> set s" "fits s" "i < length (bodiesLF s)" "c \<le> length (codePoints (bodiesLF s ! i))"
    "j < length (bodiesLF s)" "d \<le> length (codePoints (bodiesLF s ! j))"
    "offLF (bodiesLF s) i c \<le> offLF (bodiesLF s) j d"
  shows "textOf s (fragment (Suc i, Suc c) (Suc j) (Suc d))
    = Some (jsSlice (unlinesLF (bodiesLF s)) (offLF (bodiesLF s) i c) (offLF (bodiesLF s) j d))"
  using offsetAtPosition_LF [OF assms(1-4)] offsetAtPosition_LF [OF assms(1,2,5,6)] assms(7)
    slice_append_left [OF offLF_le_length [OF assms(1,5,6)], of "[LF]" "offLF (bodiesLF s) i c"]
    bodiesLF_facts(1) [OF assms(1)]
  by (simp add: textOf_def fragment_def add.commute)

lemma offLF_mono:
  assumes "i < j" "i < length bs" "c \<le> length (codePoints (bs ! i))"
  shows "offLF bs i c \<le> offLF bs j d"
  using offLF_bound [OF assms(2,3)] unlines_take_mono [of "Suc i" j bs] assms(1) by (simp add: offLF_def)

text \<open>
  Lines \<open>u\<close> on of a source, \<open>m\<close> of them, are lines \<open>v\<close> on of a selection: a position in the block or at its end is as far into
  the block in one as in the other.
\<close>

lemma block_off:
  assumes "\<forall>q < m. bs ! (u + q) = ks ! (v + q)" "u + m \<le> length bs" "v + m \<le> length ks"
  shows "take m (drop u bs) = take m (drop v ks)"
    "q < m \<or> q = m \<and> c = 0 \<Longrightarrow>
       offLF bs (u + q) c = length (unlinesLF (take u bs)) + offLF (take m (drop u bs)) q c"
    "q < m \<or> q = m \<and> c = 0 \<Longrightarrow>
       offLF ks (v + q) c = length (unlinesLF (take v ks)) + offLF (take m (drop u bs)) q c"
proof -
  show e: "take m (drop u bs) = take m (drop v ks)"
    by (rule nth_equalityI) (use assms in auto)
  have shift: "offLF xs (w + q) c = length (unlinesLF (take w xs)) + offLF (take m (drop w xs)) q c"
    if "q < m \<or> q = m \<and> c = 0" "w + m \<le> length xs" for xs w q c
    using that by (auto simp: offLF_def take_add add.assoc)
  show "q < m \<or> q = m \<and> c = 0 \<Longrightarrow>
       offLF bs (u + q) c = length (unlinesLF (take u bs)) + offLF (take m (drop u bs)) q c"
    by (rule shift) (use assms(2) in auto)
  show "q < m \<or> q = m \<and> c = 0 \<Longrightarrow>
       offLF ks (v + q) c = length (unlinesLF (take v ks)) + offLF (take m (drop u bs)) q c"
    unfolding e by (rule shift) (use assms(3) in auto)
qed

lemma block_text:
  assumes "\<forall>q < m. bs ! (u + q) = ks ! (v + q)" "u + m \<le> length bs" "v + m \<le> length ks"
    "p < m" "c \<le> length (codePoints (ks ! (v + p)))"
    "q < m \<and> d \<le> length (codePoints (ks ! (v + q))) \<or> q = m \<and> d = 0"
  shows "jsSlice (unlinesLF bs) (offLF bs (u + p) c) (offLF bs (u + q) d)
    = jsSlice (unlinesLF ks) (offLF ks (v + p) c) (offLF ks (v + q) d)"
proof -
  note b = block_off [OF assms(1-3)]
  have "offLF (take m (drop u bs)) q d \<le> length (unlinesLF (take m (drop u bs)))"
  proof (cases "q < m")
    case True
    let ?m = "take m (drop u bs)"
    have "?m ! q = ks ! (v + q)" "q < length ?m" using assms(1-3) True by auto
    then have "offLF ?m q d + 1 \<le> length (unlinesLF (take (Suc q) ?m))"
      using assms(6) True by (intro offLF_bound) auto
    also have "\<dots> \<le> length (unlinesLF (take (length ?m) ?m))"
      using \<open>q < length ?m\<close> by (intro unlines_take_mono) simp
    finally show ?thesis by (simp only: take_all [OF order_refl])
  next
    case False
    then have "q = m" "d = 0" using assms(6) by auto
    then show ?thesis by (simp add: offLF_def min_def)
  qed
  from same_block [OF b(1) assms(2,3) this] b(2,3) [of q d] b(2,3) [of p c] assms(4,6) show ?thesis by auto
qed

text \<open>A block of kept lines that follow one another in the source, and the position a fragment of it ends at.\<close>

lemma piece_text:
  assumes "CR \<notin> set content" "fits content" "ks = map ((!) (bodiesLF content)) K @ ends"
    "\<forall>t < m. v + t < length K \<and> K ! (v + t) = u + t" "u + m \<le> length (bodiesLF content)" "0 < m"
    "c \<le> length (codePoints (ks ! v))"
    "q < m \<and> d \<le> length (codePoints (ks ! (v + q))) \<or> q = m \<and> d = 0 \<and> u + m < length (bodiesLF content)"
    "offLF ks v c \<le> offLF ks (v + q) d"
  shows "textOf content (fragment (Suc u, Suc c) (Suc (u + q)) (Suc d))
    = Some (jsSlice (unlinesLF ks) (offLF ks v c) (offLF ks (v + q) d))"
proof -
  let ?bs = "bodiesLF content"
  have same: "\<forall>t < m. ?bs ! (u + t) = ks ! (v + t)" using assms(3,4) by (auto simp: nth_append)
  have "v + (m - 1) < length K" using assms(4) [THEN spec, of "m - 1"] assms(6) by simp
  then have vm: "v + m \<le> length ks" using assms(3) by simp
  have c: "c \<le> length (codePoints (?bs ! (u + 0)))" using same [THEN spec, of 0] assms(6,7) by simp
  have uq: "u + q < length ?bs" using assms(5,8) by auto
  have d: "d \<le> length (codePoints (?bs ! (u + q)))" using assms(8) same by auto
  note b = block_off [OF same assms(5) vm]
  have q: "q < m \<or> q = m \<and> d = 0" using assms(8) by blast
  have order: "offLF ?bs (u + 0) c \<le> offLF ?bs (u + q) d"
    using b(2) [of 0 c] b(3) [of 0 c] b(2) [OF q] b(3) [OF q] assms(6,9) by simp
  have "textOf content (fragment (Suc (u + 0), Suc c) (Suc (u + q)) (Suc d))
    = Some (jsSlice (unlinesLF ?bs) (offLF ?bs (u + 0) c) (offLF ?bs (u + q) d))"
    by (rule textOf_LF [OF assms(1,2) _ c uq d order]) (use uq in simp)
  also have "jsSlice (unlinesLF ?bs) (offLF ?bs (u + 0) c) (offLF ?bs (u + q) d)
    = jsSlice (unlinesLF ks) (offLF ks (v + 0) c) (offLF ks (v + q) d)"
    by (rule block_text [OF same assms(5) vm]) (use assms(6,7,8) in auto)
  finally show ?thesis by simp
qed

lemma those_Cons: "f = Some t \<Longrightarrow> those fs = Some ts \<Longrightarrow> those (f # fs) = Some (t # ts)"
  by simp

lemma fragments_text:
  assumes "CR \<notin> set content" "fits content" "ks = map ((!) (bodiesLF content)) K @ ends"
    "sorted_wrt (<) K" "\<forall>i \<in> set K. i < length (bodiesLF content)"
  shows "v \<le> q \<Longrightarrow> q < length K \<Longrightarrow> \<forall>t \<le> q - v. K ! (v + t) = K ! v + t \<Longrightarrow>
    c \<le> length (codePoints (ks ! v)) \<Longrightarrow>
    (q + left < length K \<and> d \<le> length (codePoints (ks ! (q + left))) \<and> e = Suc (K ! (q + left)))
     \<or> (q + left = length K \<and> d = 0 \<and> e = Suc (Suc (last K)) \<and> Suc (last K) < length (bodiesLF content)) \<Longrightarrow>
    offLF ks v c \<le> offLF ks (q + left) d \<Longrightarrow>
    \<exists>ts. those (map (textOf content) (fragmentsFrom (map Suc K) e (Suc d) (Suc (K ! v), Suc c) (Suc q) left)) = Some ts
      \<and> concat ts = jsSlice (unlinesLF ks) (offLF ks v c) (offLF ks (q + left) d)"
proof (induction left arbitrary: v q c)
  case 0
  let ?m = "q - v + 1"
  have block: "\<forall>t < ?m. v + t < length K \<and> K ! (v + t) = K ! v + t" using 0 by auto
  have "K ! v + (q - v) = K ! q" using 0(1,3) by (metis le_add_diff_inverse order_refl)
  moreover have "K ! q < length (bodiesLF content)" using assms(5) 0(2) by simp
  ultimately have room: "K ! v + ?m \<le> length (bodiesLF content)" by simp
  have "textOf content (fragment (Suc (K ! v), Suc c) (Suc (K ! v + (q - v))) (Suc d))
    = Some (jsSlice (unlinesLF ks) (offLF ks v c) (offLF ks (v + (q - v)) d))"
    by (rule piece_text [OF assms(1-3) block room]) (use 0 in auto)
  then show ?case using 0 \<open>K ! v + (q - v) = K ! q\<close> by auto
next
  case (Suc left)
  let ?m = "q - v + 1"
  have block: "\<forall>t < ?m. v + t < length K \<and> K ! (v + t) = K ! v + t" using Suc.prems by auto
  have Kq: "K ! v + (q - v) = K ! q" using Suc.prems(1,3) by (metis le_add_diff_inverse order_refl)
  have "K ! q < length (bodiesLF content)" using assms(5) Suc.prems(2) by simp
  then have room: "K ! v + ?m \<le> length (bodiesLF content)" using Kq by simp
  have q0: "q \<le> length K - 1" using Suc.prems(2) by simp
  have more: "K ! v + ?m < length (bodiesLF content)"
  proof (cases "Suc q < length K")
    case True
    then have "K ! q < K ! Suc q" using assms(4) by (simp add: sorted_wrt_nth_less)
    moreover have "K ! Suc q < length (bodiesLF content)" using assms(5) True by simp
    ultimately show ?thesis using Kq by linarith
  next
    case False
    then have "length K = Suc q" using Suc.prems(2) by simp
    then have "last K = K ! q" by (cases K rule: rev_cases) (auto simp: nth_append)
    moreover have "Suc (last K) < length (bodiesLF content)" using False Suc.prems(5) by auto
    ultimately show ?thesis using Kq by linarith
  qed
  have vq: "v + ?m = Suc q" using Suc.prems(1) by simp
  have upto: "offLF ks v c \<le> offLF ks (v + ?m) 0"
    using offLF_mono [of v "v + ?m" ks c 0] Suc.prems assms(3) by simp
  have "textOf content (fragment (Suc (K ! v), Suc c) (Suc (K ! v + ?m)) (Suc 0))
    = Some (jsSlice (unlinesLF ks) (offLF ks v c) (offLF ks (v + ?m) 0))"
    by (rule piece_text [OF assms(1-3) block room _ Suc.prems(4) _ upto]) (use more in auto)
  then have piece: "textOf content (fragment (Suc (K ! v), Suc c) (Suc (Suc (K ! q))) 1)
    = Some (jsSlice (unlinesLF ks) (offLF ks v c) (offLF ks (Suc q) 0))"
    using vq Kq by (simp add: add.assoc [symmetric])
  show ?case
  proof (cases "left = 0 \<and> d = 0")
    case True
    then show ?thesis using piece Suc.prems(2) by (simp add: Let_def)
  next
    case False
    then have next_line: "Suc q < length K" using Suc.prems(5) by (cases "left = 0") auto
    have step: "K ! (Suc q) > K ! q" using assms(4) next_line by (simp add: sorted_wrt_nth_less)
    show ?thesis
    proof (cases "K ! Suc q = Suc (K ! q)")
      case True
      have frs: "fragmentsFrom (map Suc K) e (Suc d) (Suc (K ! v), Suc c) (Suc q) (Suc left)
        = fragmentsFrom (map Suc K) e (Suc d) (Suc (K ! v), Suc c) (Suc (Suc q)) left"
        using False True next_line Suc.prems(2) by (auto simp: atIndex_def)
      have contiguous: "\<forall>t \<le> Suc q - v. K ! (v + t) = K ! v + t"
      proof (intro allI impI)
        fix t assume t: "t \<le> Suc q - v"
        show "K ! (v + t) = K ! v + t"
        proof (cases "t \<le> q - v")
          case False
          then have "t = Suc (q - v)" "v + t = Suc q" using t Suc.prems(1) by auto
          then show ?thesis using True Kq by simp
        qed (use Suc.prems(3) in blast)
      qed
      from Suc.IH [of v "Suc q" c] Suc.prems contiguous next_line frs show ?thesis by auto
    next
      case gap: False
      have frs: "fragmentsFrom (map Suc K) e (Suc d) (Suc (K ! v), Suc c) (Suc q) (Suc left)
        = fragment (Suc (K ! v), Suc c) (Suc (Suc (K ! q))) 1
          # fragmentsFrom (map Suc K) e (Suc d) (Suc (K ! Suc q), Suc 0) (Suc (Suc q)) left"
        using False gap next_line Suc.prems(2) by (auto simp: atIndex_def)
      have rest_order: "offLF ks (Suc q) 0 \<le> offLF ks (Suc q + left) d"
        using unlines_take_mono [of "Suc q" "Suc q + left" ks] by (simp add: offLF_def)
      obtain ts where ts: "those (map (textOf content) (fragmentsFrom (map Suc K) e (Suc d) (Suc (K ! Suc q), Suc 0) (Suc (Suc q)) left)) = Some ts"
        "concat ts = jsSlice (unlinesLF ks) (offLF ks (Suc q) 0) (offLF ks (Suc q + left) d)"
        using Suc.IH [of "Suc q" "Suc q" 0] Suc.prems(5) next_line rest_order by auto
      have "jsSlice (unlinesLF ks) (offLF ks v c) (offLF ks (Suc q) 0) @ concat ts
        = jsSlice (unlinesLF ks) (offLF ks v c) (offLF ks (Suc q + left) d)"
        unfolding ts(2) using upto rest_order vq by (intro slice_append_slice) simp_all
      then show ?thesis unfolding frs using piece ts(1) by simp
    qed
  qed
qed

lemma offLF_order:
  assumes "offLF ks i c \<le> offLF ks j d" "j < length ks" "d \<le> length (codePoints (ks ! j))"
  shows "i \<le> j"
proof (rule ccontr)
  assume "\<not> i \<le> j"
  then have "length (unlinesLF (take (Suc j) ks)) \<le> offLF ks i c"
    using unlines_take_mono [of "Suc j" i ks] by (simp add: offLF_def)
  then show False using offLF_bound [OF assms(2,3)] assms(1) by simp
qed

section \<open>Properties\<close>

text \<open>C35. A region found in a selection of lines keeps its text on the way back to the source: when the region is one of the
  reduced text, its fragments exist, each is a region of the source, and their texts put together are the region's text. No
  line that was left out can slip into a match, and none that was kept is lost, in texts without carriage returns.\<close>

theorem fragments_keep_text:
  assumes "CR \<notin> set content" "fits content" "textOf (retContent (retain content selected 1)) r = Some t"
  shows "\<exists>frs ts. regions r (retOrdinals (retain content selected 1)) = Some frs
    \<and> those (map (textOf content) frs) = Some ts \<and> concat ts = t"
proof -
  let ?R = "retContent (retain content selected 1)" and ?bs = "bodiesLF content"
  define K where "K = keptIndices content selected 1"
  note kept = retain_kept [OF assms(1), of selected 1, folded K_def]
  have ords: "retOrdinals (retain content selected 1) = map Suc K" using kept(1) by simp
  note R = retain_bodies [OF assms(1), of selected 1, folded K_def]
  let ?ks = "bodiesLF ?R"
  from assms(3) obtain a b where ab: "offsetAtPosition ?R (int (startLine r)) (int (startColumn r)) = Inr a"
    "offsetAtPosition ?R (int (endLine r)) (int (endColumn r)) = Inr b" "a \<le> b" "t = jsSlice ?R a b"
    by (auto simp: textOf_def split: sum.splits if_splits)
  from R(1) ab(1) obtain i c where i: "int (startLine r) = int i + 1" "int (startColumn r) = int c + 1"
    "i < length ?ks" "c \<le> length (codePoints (?ks ! i))" "a = offLF ?ks i c" by (rule offsetAtPosition_LF_E)
  from R(1) ab(2) obtain j d where j: "int (endLine r) = int j + 1" "int (endColumn r) = int d + 1"
    "j < length ?ks" "d \<le> length (codePoints (?ks ! j))" "b = offLF ?ks j d" by (rule offsetAtPosition_LF_E)
  have r: "startLine r = Suc i" "startColumn r = Suc c" "endLine r = Suc j" "endColumn r = Suc d" using i j by linarith+
  have ij: "i \<le> j" using offLF_order ab(3) i(5) j(3-5) by blast
  have t: "t = jsSlice (unlinesLF ?ks) a b"
    using ab(4) slice_append_left [OF offLF_le_length [OF R(1) j(3,4)], of "[LF]" a] bodiesLF_facts(1) [OF R(1)] j(5) by simp
  have last_line: "j = length K \<Longrightarrow> d = 0 \<and> (K \<noteq> [] \<longrightarrow> Suc (last K) < length ?bs)"
  proof -
    assume e: "j = length K"
    have no: "\<not> (K \<noteq> [] \<and> Suc (last K) = length ?bs)" using j(3) e R(2) by auto
    have "?ks = map ((!) ?bs) K @ [[]]" unfolding R(2) using no by simp
    then have "?ks ! j = []" using e by (simp add: nth_append)
    moreover have "last K < length ?bs" if "K \<noteq> []" using kept(4) that by simp
    ultimately show ?thesis using no j(4) by force
  qed
  have jK: "j \<le> length K" using j(3) R(2) by (auto split: if_splits)
  show ?thesis
  proof (cases "i < length K")
    case True
    let ?e = "if j < length K then Suc (K ! j) else Suc (Suc (last K))"
    have ne: "K \<noteq> []" using True by auto
    have line: "sourceLine (map Suc K) (Suc i) (Suc c) = Some (Suc (K ! i))"
      "sourceLine (map Suc K) (Suc j) (Suc d) = Some ?e"
      using True ne jK last_line by (auto simp: sourceLine_def atLine_Some_iff last_map)
    have "\<exists>ts. those (map (textOf content) (fragmentsFrom (map Suc K) ?e (Suc d) (Suc (K ! i), Suc c) (Suc i) (j - i))) = Some ts
      \<and> concat ts = jsSlice (unlinesLF ?ks) (offLF ?ks i c) (offLF ?ks (i + (j - i)) d)"
      by (rule fragments_text [OF assms(1,2) R(2) kept(3,4)]) (use True ij jK i j ab(3) last_line ne in auto)
    then show ?thesis using r line ords t i(5) j(5) ij ne by (auto simp: regions_def)
  next
    case False
    then have e: "i = length K" "j = length K" using ij jK by auto
    then have d: "d = 0" "c = 0" using last_line i(4) j(4) R(2) by (auto simp: nth_append split: if_splits)
    then have empty: "t = []" using t i(5) j(5) e by simp
    show ?thesis
    proof (cases "K = []")
      case True
      then show ?thesis using r e d ords empty by (simp add: regions_def)
    next
      case ne: False
      then have "Suc (last K) < length ?bs" using last_line e by simp
      then have "textOf content (fragment (Suc (Suc (last K)), Suc 0) (Suc (Suc (last K))) (Suc 0)) = Some []"
        using textOf_LF [OF assms(1,2), of "Suc (last K)" 0 "Suc (last K)" 0] by simp
      moreover have "sourceLine (map Suc K) (Suc (length K)) (Suc 0) = Some (Suc (Suc (last K)))"
        using ne by (simp add: sourceLine_def last_map)
      ultimately show ?thesis using r e d ords empty ne by (simp add: regions_def)
    qed
  qed
qed

theorem fragments_keep_text_witness:
  "\<exists>frs ts. regions \<lparr>startLine = 1, startColumn = 2, endLine = 3, endColumn = 2\<rparr> (retOrdinals (retain [97, 98, 10, 99, 10, 100, 10, 101, 102] [1, 3, 4] 1)) = Some frs
    \<and> those (map (textOf [97, 98, 10, 99, 10, 100, 10, 101, 102]) frs) = Some ts \<and> concat ts = [98, 10, 100, 10, 101]"
proof (rule fragments_keep_text)
  show "textOf (retContent (retain [97, 98, 10, 99, 10, 100, 10, 101, 102] [1, 3, 4] 1))
      \<lparr>startLine = 1, startColumn = 2, endLine = 3, endColumn = 2\<rparr> = Some [98, 10, 100, 10, 101]"
    by code_simp
qed (simp_all add: CR_def fits_def MAX_SAFE_INTEGER_def)

section \<open>Carriage returns\<close>

text \<open>
  Where line ends are mixed, a kept line that ends in a carriage return and a kept line that is a line feed become one line
  of the reduced text, which then has fewer lines than ordinals.
\<close>

lemma terminators_fuse:
  "retOrdinals (retain [120, 13, 121, 10, 10] [1, 3] 1) = [1, 3]"
  "length (logicalLines (retContent (retain [120, 13, 121, 10, 10] [1, 3] 1))) = 1"
  by code_simp+

end
