(* ===== verification/ReadResolve.thy ===== *)
theory ReadResolve
  imports BodyPreview LineSelection
begin

text \<open>
  \<^verbatim>\<open>plurnk-core/src/content/read-resolve.ts\<close>: the READ of one text, which composes the slicer, the preview and the line
  selection. A read without a marker is a read of the first page, of the text or of its visible lines, and the page's marks
  are carried back to source lines before the text is sliced. The slice is then reduced to the visible lines it holds.

  Only the failures the slicer can give are values; \<open>Inl\<close> is an exception: the preview's unaddressable region, a slice with a
  status other than 200 and 416, and the line region of a line that the text does not have.
\<close>

datatype ReadError = Unaddressable | UnexpectedStatus nat | NoLineRegion

record ReadSliceResult =
  readStatus :: nat
  readContent :: "jsstr option"
  readMimetype :: jsstr
  readStartLine :: "nat option"
  readLineOrdinals :: "nat list option"
  readRegion :: "TextRegion option"
  readRange :: "RangeExtent option"
  readNormalizations :: "ScopeNormalization list"
  readFailure :: "SliceFailure option"

definition TEXT_PRIMITIVE_MIMETYPE :: jsstr where
  "TEXT_PRIMITIVE_MIMETYPE = js ''text/markdown''"

definition visibleMark :: "nat list \<Rightarrow> nat \<Rightarrow> jsnum \<Rightarrow> nat \<Rightarrow> jsnum" where
  "visibleMark visible arity mark i =
     (if arity = 4 \<and> i mod 2 = 1 then mark
      else Whole (int (visible ! nat (min (wholeOf mark) (int (length visible)) - 1))))"

definition previewMarker :: "nat \<Rightarrow> nat \<Rightarrow> jsstr \<Rightarrow> nat list option \<Rightarrow> marks option" where
  "previewMarker maxLines maxChars content visibleLines =
     (case select maxLines maxChars
         (case visibleLines of None \<Rightarrow> content | Some visible \<Rightarrow> retContent (retain content visible 1)) of
        None \<Rightarrow> None
      | Some preview \<Rightarrow>
          (case visibleLines of
             None \<Rightarrow> Some (previewMarks preview)
           | Some visible \<Rightarrow>
               if visible = [] then Some (previewMarks preview)
               else Some (map (\<lambda>(mark, i). visibleMark visible (length (previewMarks preview)) mark i)
                      (zip (previewMarks preview) [0..<length (previewMarks preview)]))))"

definition selectedRegion :: "jsstr \<Rightarrow> TextRegion \<Rightarrow> nat list option \<Rightarrow> ReadError + TextRegion" where
  "selectedRegion content sliced selection =
     (case selection of
        None \<Rightarrow> Inr sliced
      | Some ordinals \<Rightarrow>
          let r = sliced\<lparr>startLine := hd ordinals, endLine := last ordinals\<rparr>;
              r' = (if hd ordinals = startLine sliced then r else r\<lparr>startColumn := 1\<rparr>) in
          if last ordinals = endLine sliced then Inr r'
          else (case lineRegion content (int (last ordinals)) (int (last ordinals)) of
                  None \<Rightarrow> Inl NoLineRegion
                | Some line \<Rightarrow> Inr (r'\<lparr>endColumn := endColumn line\<rparr>)))"

definition selectedRange :: "RangeExtent \<Rightarrow> nat list \<Rightarrow> RangeExtent" where
  "selectedRange e ordinals =
     e\<lparr>extentReturned := if ordinals = [] then None else Some (int (hd ordinals), int (last ordinals))\<rparr>"

definition resolvedSlice ::
    "jsstr \<Rightarrow> jsstr \<Rightarrow> bool \<Rightarrow> nat list option \<Rightarrow> SliceResult \<Rightarrow> ReadError + ReadSliceResult" where
  "resolvedSlice content mimetype unmarked visibleLines sliced =
     (let unfiltered = (if unmarked \<and> (case sliceRange sliced of None \<Rightarrow> False | Some e \<Rightarrow> coversAvailable e)
                        then content else sliceText sliced);
          from = (case sliceStartLine sliced of None \<Rightarrow> 1 | Some l \<Rightarrow> nat l);
          selection = map_option (\<lambda>visible. retain unfiltered visible from) visibleLines;
          selected = (case selection of None \<Rightarrow> unfiltered | Some kept \<Rightarrow> retContent kept);
          ordinals = map_option retOrdinals selection;
          line = (case ordinals of
                    Some (o' # _) \<Rightarrow> Some o'
                  | _ \<Rightarrow> map_option nat (sliceStartLine sliced)) in
      case (case sliceRegion sliced of
              None \<Rightarrow> Inr None
            | Some r \<Rightarrow> if selected = [] then Inr None
                        else andThen (selectedRegion content r ordinals) (\<lambda>r'. Inr (Some r'))) of
        Inl err \<Rightarrow> Inl err
      | Inr region \<Rightarrow>
          Inr \<lparr>readStatus = (if selected = [] then 204 else 200), readContent = Some selected,
               readMimetype = (if unmarked then mimetype else TEXT_PRIMITIVE_MIMETYPE),
               readStartLine = (if selected = [] then None else line),
               readLineOrdinals = ordinals, readRegion = region,
               readRange = (case (sliceRange sliced, ordinals) of
                              (Some e, Some os) \<Rightarrow> Some (selectedRange e os)
                            | (e, _) \<Rightarrow> e),
               readNormalizations = sliceNormalizations sliced, readFailure = None\<rparr>)"

definition resolveRead ::
    "nat \<Rightarrow> nat \<Rightarrow> jsstr \<Rightarrow> jsstr \<Rightarrow> marks option \<Rightarrow> nat list option \<Rightarrow> ReadError + ReadSliceResult" where
  "resolveRead maxLines maxChars content mimetype lineMarker visibleLines =
     (case (case lineMarker of Some marks \<Rightarrow> Some marks | None \<Rightarrow> previewMarker maxLines maxChars content visibleLines) of
        None \<Rightarrow> Inl Unaddressable
      | Some marks \<Rightarrow>
          (case readLines content marks of
             Inl failure \<Rightarrow>
               if failureStatus failure = 416
               then Inr \<lparr>readStatus = 416, readContent = None, readMimetype = mimetype, readStartLine = None,
                         readLineOrdinals = None, readRegion = None,
                         readRange = (case failure of RangeFailure err e \<Rightarrow> Some e | _ \<Rightarrow> None),
                         readNormalizations = [], readFailure = Some failure\<rparr>
               else Inl (UnexpectedStatus (failureStatus failure))
           | Inr sliced \<Rightarrow> resolvedSlice content mimetype (lineMarker = None) visibleLines sliced))"


section \<open>A marker that resolves is read\<close>

lemmas readLines_no_defect = readLines_total [THEN conjunct1]

lemma readLines_answers:
  assumes "fits content" "textReplacement content marks [] = Inr r" "length marks = 2 \<or> length marks = 4"
  shows "\<exists>s. readLines content marks = Inr s"
proof (cases "length marks = 4")
  case True
  then have "exactTextReplacement content marks [] = Inr r" using assms(2) by (simp add: textReplacement_def)
  then have "readLines content marks \<noteq> Inl (RegionFailure err marks)" "\<exists>s. readLines content marks = Inr s \<or> readLines content marks = Inl Defect" for err
    using True by (auto simp: readLines_def linesOfRegion_def split: option.splits)
  then show ?thesis using readLines_no_defect [OF assms(1)] by auto
next
  case False
  then have two: "length marks = 2" using assms(3) by simp
  then have "lineTextReplacement content marks [] = Inr r" "marks \<noteq> [Whole 1]" using assms(2) by (auto simp: textReplacement_def)
  then obtain nm where "normalize marks (length (logicalLines content)) LineUnit = Inr nm"
    by (auto simp: lineTextReplacement_def Let_def split: sum.splits)
  then have "\<exists>s. readLines content marks = Inr s \<or> readLines content marks = Inl Defect"
    using two by (auto simp: readLines_def linesOfRange_def Let_def split: option.splits)
  then show ?thesis using readLines_no_defect [OF assms(1)] by auto
qed

section \<open>The page of the visible lines\<close>

lemma retain_ordinals: "set (retOrdinals (retain content selected from)) \<subseteq> set selected"
  by (auto simp: retain_def Let_def)

lemma length_retain: "length (retContent (retain content selected from)) \<le> length content"
proof -
  let ?lns = "logicalLines content" and ?f = "\<lambda>l. jsSlice content (lineStart l) (lineEnd l)"
  have part: "length (concat (map (\<lambda>(l, o'). ?f l) (filter P (zip xs os)))) \<le> length (concat (map ?f xs))" for P os xs
  proof (induction xs arbitrary: os)
    case (Cons x xs)
    show ?case
    proof (cases os)
      case (Cons o' os')
      then show ?thesis using Cons.IH [of os'] by auto
    qed simp
  qed simp
  have "concat (map ?f ?lns) = rowsText (rowsOf content)"
    unfolding rowsText_def rowsOf_def map_map
    by (rule arg_cong [where f = concat]) (auto simp: in_set_conv_nth line_slice)
  then have "length (concat (map ?f ?lns)) = length content" by (simp add: rowsText_rowsOf)
  then show ?thesis using part [of "\<lambda>(l, ordinal). ordinal \<in> set selected" ?lns] by (simp add: retain_def Let_def)
qed

lemma keptIndices_visible:
  assumes "sorted_wrt (<) visible" "\<forall>v \<in> set visible. 1 \<le> v \<and> v \<le> lineCount content"
  shows "map Suc (keptIndices content visible 1) = visible"
proof (rule strict_sorted_equal)
  show "sorted_wrt (<) visible" by (rule assms(1))
  show "sorted_wrt (<) (map Suc (keptIndices content visible 1))"
    unfolding keptIndices_def sorted_wrt_map by (simp add: sorted_wrt_filter)
  show "set (map Suc (keptIndices content visible 1)) = set visible"
  proof
    show "set visible \<subseteq> set (map Suc (keptIndices content visible 1))"
    proof
      fix v assume v: "v \<in> set visible"
      then have "v = Suc (v - 1)" "v - 1 \<in> set (keptIndices content visible 1)"
        using assms(2) by (auto simp: keptIndices_def lineCount_def Suc_le_eq)
      then show "v \<in> set (map Suc (keptIndices content visible 1))" by (metis image_eqI set_map)
    qed
  qed (auto simp: keptIndices_def)
qed

lemma visible_line:
  assumes "CR \<notin> set content" "fits content" "sorted_wrt (<) visible"
    "\<forall>v \<in> set visible. 1 \<le> v \<and> v \<le> lineCount content" "visible \<noteq> []"
  defines "R \<equiv> retContent (retain content visible 1)"
  shows "R \<noteq> []" "fits R"
    "positionAtOffset R x = Some (TextPosition 1 (j + 1)) \<Longrightarrow>
       \<exists>p q. positionAtOffset content (int p) = Some (TextPosition (visible ! 0) 1)
         \<and> positionAtOffset content (int q) = Some (TextPosition (visible ! 0) (j + 1)) \<and> p \<le> q"
proof -
  define K where "K = keptIndices content visible 1"
  have K: "map Suc K = visible" unfolding K_def by (rule keptIndices_visible [OF assms(3,4)])
  note kept = retain_kept [OF assms(1), of visible 1, folded K_def R_def]
    and bodies = retain_bodies [OF assms(1), of visible 1, folded K_def R_def]
  have K0: "K \<noteq> []" "visible ! 0 = Suc (K ! 0)" "K ! 0 \<in> set K"
    using K assms(5) by (cases K; auto)+
  show fR: "fits R" using length_retain [of content visible 1] assms(2) by (simp add: fits_def R_def)
  show "R \<noteq> []"
  proof
    assume "R = []"
    then have "bodiesLF R = [[]]" by (simp add: bodiesLF_def)
    then have one: "map ((!) (bodiesLF content)) K = [[]]" "Suc (last K) = length (bodiesLF content)"
      using bodies(2) K0(1) by (auto split: if_splits)
    then have "K ! 0 = length (bodiesLF content) - 1" "bodiesLF content ! (K ! 0) = []" by (auto simp: map_eq_Cons_conv)
    moreover have i: "K ! 0 < length (logicalLines content)" using K0(3) by (simp add: K_def keptIndices_def)
    ultimately have "separator (logicalLines content ! (K ! 0)) = []" "lineBody content (logicalLines content ! (K ! 0)) = []"
      using logicalLines_nth [OF i] scanLines_LF(3,4) [OF assms(1), of "K ! 0"] logical_LF(1) [OF assms(1) i] one(2) by auto
    then have "lineStart (logicalLines content ! (K ! 0)) = lineEnd (logicalLines content ! (K ! 0))"
      using logicalLines_bounds [OF i refl] by (auto simp: lineBody_def jsSlice_def)
    then show False using logical_line_nonempty [OF i] by simp
  qed
  assume x: "positionAtOffset R x = Some (TextPosition 1 (j + 1))"
  from offset_of_position_of_offset [OF fR x] have "offsetAtPosition R 1 (int (j + 1)) = Inr (nat x)" by simp
  from bodies(1) this obtain i c where ic: "1 = int i + 1" "int (j + 1) = int c + 1" "i < length (bodiesLF R)"
    "c \<le> length (codePoints (bodiesLF R ! i))" by (rule offsetAtPosition_LF_E)
  have "bodiesLF R ! 0 = bodiesLF content ! (K ! 0)" using bodies(2) K0(1) by (simp add: nth_append)
  then have j: "j \<le> length (codePoints (bodiesLF content ! (K ! 0)))" using ic by simp
  have k: "K ! 0 < length (bodiesLF content)" using kept(4) K0(3) by simp
  note o' = offsetAtPosition_LF [OF assms(1,2) k]
  from position_of_offset_of_position [OF assms(2) o'(1) [of 0]] position_of_offset_of_position [OF assms(2) o'(1) [OF j]]
  have "positionAtOffset content (int (offLF (bodiesLF content) (K ! 0) 0)) = Some (TextPosition (visible ! 0) 1)"
    "positionAtOffset content (int (offLF (bodiesLF content) (K ! 0) j)) = Some (TextPosition (visible ! 0) (j + 1))"
    using K0(2) by (simp_all add: nat_add_distrib)
  moreover have "offLF (bodiesLF content) (K ! 0) 0 \<le> offLF (bodiesLF content) (K ! 0) j" by (simp add: offLF_def)
  ultimately show "\<exists>p q. positionAtOffset content (int p) = Some (TextPosition (visible ! 0) 1)
         \<and> positionAtOffset content (int q) = Some (TextPosition (visible ! 0) (j + 1)) \<and> p \<le> q" by blast
qed

text \<open>What a filtered read may be asked for: lines of the text, in order.\<close>

definition visibleLinesOk :: "jsstr \<Rightarrow> nat list option \<Rightarrow> bool" where
  "visibleLinesOk content visibleLines \<longleftrightarrow>
     (case visibleLines of
        None \<Rightarrow> True
      | Some visible \<Rightarrow> CR \<notin> set content \<and> sorted_wrt (<) visible
          \<and> list_all (\<lambda>v. 1 \<le> v \<and> v \<le> lineCount content) visible)"

lemma preview_resolves:
  assumes "fits content" "0 < maxLines" "0 < maxChars"
  shows "\<exists>p r. select maxLines maxChars content = Some p \<and> textReplacement content (previewMarks p) [] = Inr r
    \<and> (length (previewMarks p) = 2 \<or> length (previewMarks p) = 4)"
proof (cases "content = []")
  case True
  then show ?thesis
    using assms(2) by (simp add: select_def textReplacement_def lineTextReplacement_def normalize_def
      normalizeRange_def atLine_def atIndex_def)
next
  case False
  from assms(1) False assms(2,3) show ?thesis
  proof (cases rule: select_cases)
    case (lns n)
    then show ?thesis using first_lines [OF False lns(1)] by simp
  next
    case (part j)
    then show ?thesis
      using exact_of_positions [OF assms(1) positionAtOffset_zero [OF assms(1)] part(1)]
      by (simp add: regionMarks_def)
  qed
qed

lemma previewMarker_resolves:
  assumes "fits content" "0 < maxLines" "0 < maxChars" "visibleLinesOk content visibleLines"
  shows "\<exists>marks r. previewMarker maxLines maxChars content visibleLines = Some marks
    \<and> textReplacement content marks [] = Inr r \<and> (length marks = 2 \<or> length marks = 4)"
proof (cases visibleLines)
  case None
  then show ?thesis using preview_resolves [OF assms(1-3)] by (auto simp: previewMarker_def)
next
  case (Some visible)
  then have ok: "CR \<notin> set content" "sorted_wrt (<) visible" "\<forall>v \<in> set visible. 1 \<le> v \<and> v \<le> lineCount content"
    using assms(4) by (auto simp: visibleLinesOk_def list_all_iff)
  show ?thesis
  proof (cases "visible = []")
    case True
    have "content = [] \<or> 0 < length (logicalLines content)" by auto
    moreover have "retContent (retain content [] 1) = []" by (simp add: retain_def case_prod_beta)
    moreover have "select maxLines maxChars [] = Some \<lparr>previewEnd = 0, previewMarks = [Whole 1, Whole (int maxLines)]\<rparr>"
      by (simp add: select_def)
    moreover have "\<exists>r. textReplacement content [Whole 1, Whole (int maxLines)] [] = Inr r"
    proof (cases "content = []")
      case True
      then show ?thesis
        using assms(2) by (simp add: textReplacement_def lineTextReplacement_def normalize_def normalizeRange_def atLine_def atIndex_def)
    qed (use first_lines assms(2) in blast)
    ultimately show ?thesis using Some True by (simp add: previewMarker_def)
  next
    case ne: False
    let ?R = "retContent (retain content visible 1)"
    note v = visible_line [OF ok(1) assms(1) ok(2,3) ne]
    from v(2,1) assms(2,3) show ?thesis
    proof (cases rule: select_cases)
      case (lns n)
      let ?k = "min n (length visible) - 1"
      have k: "?k < length visible" using ne lns(1) by (cases visible) auto
      have index: "nat (int (min n (length visible)) - 1) = ?k" by simp
      have marks: "previewMarker maxLines maxChars content visibleLines = Some [Whole (int (visible ! 0)), Whole (int (visible ! ?k))]"
        using Some ne lns(3-) by (simp add: previewMarker_def visibleMark_def index del: of_nat_min flip: of_nat_min)
      have "visible ! 0 \<le> visible ! ?k"
      proof (cases "?k = 0")
        case False
        then show ?thesis using sorted_wrt_nth_less [OF ok(2) _ k, of 0] by linarith
      qed (simp only: order_refl)
      moreover have "1 \<le> visible ! 0" "visible ! ?k \<le> length (logicalLines content)"
        using ok(3) k ne by (auto simp: lineCount_def)
      ultimately have "\<exists>r. textReplacement content [Whole (int (visible ! 0 - 1) + 1), Whole (int (visible ! ?k))] [] = Inr r"
        using lineRange_replacement [of "visible ! 0 - 1" "visible ! ?k - 1" content "int (visible ! ?k)"] by auto
      then show ?thesis using marks \<open>1 \<le> visible ! 0\<close> by (simp add: of_nat_diff)
    next
      case (part j)
      obtain p q where pq: "positionAtOffset content (int p) = Some (TextPosition (visible ! 0) 1)"
        "positionAtOffset content (int q) = Some (TextPosition (visible ! 0) (j + 1))" "p \<le> q" using v(3) part(1) by blast
      have "1 \<le> length visible" using ne by (cases visible) auto
      then have "previewMarker maxLines maxChars content visibleLines
          = Some (regionMarks (regionOf (TextPosition (visible ! 0) 1) (TextPosition (visible ! 0) (j + 1))))"
        using Some ne part(2) by (simp add: previewMarker_def visibleMark_def regionMarks_def regionOf_def)
      moreover have "int p \<le> int q" using pq(3) by simp
      ultimately show ?thesis
        using exact_of_positions [OF assms(1) pq(1,2)] by (simp add: regionMarks_def)
    qed
  qed
qed

lemma resolvedSlice_answers:
  assumes "fits content" "visibleLinesOk content visibleLines"
  shows "\<exists>res. resolvedSlice content mimetype unmarked visibleLines sliced = Inr res \<and> readStatus res \<in> {200, 204}
    \<and> (case (visibleLines, readLineOrdinals res) of (Some visible, Some os) \<Rightarrow> set os \<subseteq> set visible | _ \<Rightarrow> True)"
proof -
  have line: "\<exists>region. lineRegion content (int v) (int v) = Some region"
    if "visibleLines = Some visible" "v \<in> set visible" for visible v
    using lineRegion_Some [OF assms(1), of "int v" "int v"] that assms(2)
    by (auto simp: visibleLinesOk_def list_all_iff lineCount_def)
  have region: "\<exists>r'. selectedRegion content r (map_option retOrdinals (map_option (\<lambda>visible. retain u visible w) visibleLines)) = Inr r'"
    if "(case visibleLines of None \<Rightarrow> True | Some visible \<Rightarrow> retContent (retain u visible w) \<noteq> [])" for r u w
  proof (cases visibleLines)
    case (Some visible)
    let ?os = "retOrdinals (retain u visible w)"
    have "?os = [] \<Longrightarrow> retContent (retain u visible w) = []" by (simp add: retain_def Let_def)
    then have "?os \<noteq> []" using that Some by auto
    then have "last ?os \<in> set visible" using retain_ordinals last_in_set by fast
    from line [OF Some this] show ?thesis using Some by (auto simp: selectedRegion_def Let_def)
  qed (simp add: selectedRegion_def)
  let ?u = "if unmarked \<and> (case sliceRange sliced of None \<Rightarrow> False | Some e \<Rightarrow> coversAvailable e) then content else sliceText sliced"
    and ?w = "case sliceStartLine sliced of None \<Rightarrow> 1 | Some l \<Rightarrow> nat l"
  let ?kept = "map_option (\<lambda>visible. retain ?u visible ?w) visibleLines"
  let ?selected = "case ?kept of None \<Rightarrow> ?u | Some k \<Rightarrow> retContent k"
  have "\<exists>r'. (case sliceRegion sliced of None \<Rightarrow> Inr None
      | Some r \<Rightarrow> if ?selected = [] then Inr None
          else andThen (selectedRegion content r (map_option retOrdinals ?kept)) (\<lambda>r'. Inr (Some r'))) = Inr r'"
  proof (cases "sliceRegion sliced")
    case (Some r)
    show ?thesis
    proof (cases "?selected = []")
      case False
      then have "case visibleLines of None \<Rightarrow> True | Some visible \<Rightarrow> retContent (retain ?u visible ?w) \<noteq> []"
        by (cases visibleLines) auto
      from region [OF this, of r] obtain r' where "selectedRegion content r (map_option retOrdinals ?kept) = Inr r'" ..
      then show ?thesis using Some False by simp
    qed (use Some in simp)
  qed simp
  then obtain r' where r': "(case sliceRegion sliced of None \<Rightarrow> Inr None
      | Some r \<Rightarrow> if ?selected = [] then Inr None
          else andThen (selectedRegion content r (map_option retOrdinals ?kept)) (\<lambda>r'. Inr (Some r'))) = Inr r'" ..
  have os: "case (visibleLines, map_option retOrdinals ?kept) of (Some visible, Some os) \<Rightarrow> set os \<subseteq> set visible | _ \<Rightarrow> True"
    using retain_ordinals by (cases visibleLines) simp_all
  show ?thesis
    unfolding resolvedSlice_def Let_def r' sum.case
    by (rule exI, rule conjI [OF refl], unfold ReadSliceResult.select_convs, rule conjI [OF _ os]) simp
qed

lemma failure_is_416: "failure \<noteq> Defect \<Longrightarrow> failureStatus failure = 416"
  by (cases failure) auto

section \<open>Properties\<close>

text \<open>C36. Every read is answered: of any text that is read whole, and of a text without carriage returns that is read through visible
  lines, given in ascending order and among the lines it has, with positive limits of a page, the resolver never throws, neither for want of an addressable region
  nor on an unexpected status. Only a read with a marker of its own can be refused with 416; the page of an unmarked read always
  exists. And a filtered read reports visible lines only.\<close>

theorem read_is_answered:
  assumes "fits content" "0 < maxLines" "0 < maxChars" "visibleLinesOk content visibleLines"
  shows "\<exists>res. resolveRead maxLines maxChars content mimetype lineMarker visibleLines = Inr res
    \<and> readStatus res \<in> {200, 204} \<union> (if lineMarker = None then {} else {416})
    \<and> (case (visibleLines, readLineOrdinals res) of (Some visible, Some os) \<Rightarrow> set os \<subseteq> set visible | _ \<Rightarrow> True)"
proof (cases lineMarker)
  case None
  obtain marks r where m: "previewMarker maxLines maxChars content visibleLines = Some marks"
    "textReplacement content marks [] = Inr r" "length marks = 2 \<or> length marks = 4"
    using previewMarker_resolves [OF assms] by blast
  obtain s where "readLines content marks = Inr s" using readLines_answers [OF assms(1) m(2,3)] by blast
  then show ?thesis using None m(1) resolvedSlice_answers [OF assms(1,4)] by (simp add: resolveRead_def)
next
  case (Some marks)
  show ?thesis
  proof (cases "readLines content marks")
    case (Inl failure)
    then have "failure \<noteq> Defect" using readLines_no_defect [OF assms(1)] by auto
    then show ?thesis using Some Inl by (auto simp: resolveRead_def failure_is_416 split: option.splits)
  next
    case (Inr s)
    then show ?thesis using Some resolvedSlice_answers [OF assms(1,4), of mimetype False s] by (auto simp: resolveRead_def)
  qed
qed

theorem read_is_answered_witness:
  "\<exists>res. resolveRead 1 2 [97, 98, 99, 10, 100] [] None (Some [2]) = Inr res
    \<and> readStatus res \<in> {200, 204} \<union> (if (None :: marks option) = None then {} else {416})
    \<and> (case (Some [2], readLineOrdinals res) of (Some visible, Some os) \<Rightarrow> set os \<subseteq> set visible | _ \<Rightarrow> True)"
proof (rule read_is_answered)
  have "lineCount [97, 98, 99, 10, 100] = 2" by code_simp
  then show "visibleLinesOk [97, 98, 99, 10, 100] (Some [2])" by (simp add: visibleLinesOk_def CR_def)
qed (simp_all add: fits_def MAX_SAFE_INTEGER_def)

section \<open>Blank lines\<close>

text \<open>
  A text whose first line is blank and whose second is longer than the page reads as no content, and a blank line at the end
  of a page is not among the lines the read reports.
\<close>

lemma blank_page_is_no_content:
  "case resolveRead 20 3 [10, 97, 98, 99, 100] [] None None of
     Inr res \<Rightarrow> readStatus res = 204 \<and> readContent res = Some [] | Inl _ \<Rightarrow> False"
  by code_simp

lemma blank_end_is_unreported:
  "case resolveRead 20 300 [97, 10, 10, 98, 10] [] None (Some [1, 2]) of
     Inr res \<Rightarrow> readContent res = Some [97, 10] \<and> readLineOrdinals res = Some [1] | Inl _ \<Rightarrow> False"
  by code_simp

end
