(* ===== verification/ParserCoordinates.thy ===== *)
theory ParserCoordinates
  imports BodyPreview
begin

text \<open>
  \<^verbatim>\<open>plurnk-mimetypes/src/ParserCoordinates.ts\<close>: the offsets two parser families report, turned into regions of the text.
  Tree-sitter counts UTF-16 units, or rows and columns; ANTLR counts code points and names the last one of a token, not the
  one after it. Neither knows that a CRLF is one separator here, so an offset between its halves is moved to the
  side that keeps the separator whole.

  The values a parser hands over are unknown at the boundary: an offset is any number or missing, and a token may be missing.
  The lemmas say which offsets have a position at all, and so which spans are located.
\<close>

datatype Boundary = StartBoundary | EndBoundary

datatype ParserCoordinateError =
    IncompleteOffsetPair
  | InvalidOffsets
  | InvalidPoint Boundary
  | RowOutside Boundary int
  | ColumnOutsideRow Boundary int int
  | TokenOffsetInvalid Boundary
  | OffsetOutsideSource Boundary int
  | InvertedSpan int int
  | MisalignedSpan int int

record TreeSitterPoint =
  pointRow :: jsnum
  pointColumn :: jsnum

record TreeSitterSourceNode =
  startIndex :: "jsnum option"
  endIndex :: "jsnum option"
  startPosition :: TreeSitterPoint
  endPosition :: TreeSitterPoint

record TreeSitterSpan =
  spanStartNode :: TreeSitterSourceNode
  spanEndNode :: TreeSitterSourceNode
  endBoundary :: Boundary

record AntlrToken =
  tokenStart :: "jsnum option"
  tokenStop :: "jsnum option"

record AntlrContext =
  contextStart :: "AntlrToken option"
  contextStop :: "AntlrToken option"

definition isOffset :: "jsnum \<Rightarrow> bool" where
  "isOffset n \<longleftrightarrow> isSafeInteger n \<and> 0 \<le> wholeOf n"

definition insideCrlf :: "jsstr \<Rightarrow> int \<Rightarrow> bool" where
  "insideCrlf content offset \<longleftrightarrow>
     0 < offset \<and> atIndex content (nat (offset - 1)) = Some CR \<and> atIndex content (nat offset) = Some LF"

definition spanRegion :: "jsstr \<Rightarrow> int \<Rightarrow> int \<Rightarrow> ParserCoordinateError + TextRegion" where
  "spanRegion content start end' =
     (if end' < start then Inl (InvertedSpan start end')
      else let normalizedStart = (if insideCrlf content start then start - 1 else start);
               normalizedEnd = (if start = end' then normalizedStart
                                else if insideCrlf content end' then end' + 1 else end') in
        case regionFromOffsets content normalizedStart normalizedEnd of
          None \<Rightarrow> Inl (MisalignedSpan start end')
        | Some region \<Rightarrow> Inr region)"

section \<open>Tree-sitter\<close>

definition treeSitterIndexes :: "TreeSitterSourceNode \<Rightarrow> ParserCoordinateError + (int \<times> int) option" where
  "treeSitterIndexes node =
     (case (startIndex node, endIndex node) of
        (None, None) \<Rightarrow> Inr None
      | (Some s, Some e) \<Rightarrow> if isOffset s \<and> isOffset e then Inr (Some (wholeOf s, wholeOf e)) else Inl InvalidOffsets
      | _ \<Rightarrow> Inl IncompleteOffsetPair)"

definition offsetAtTreeSitterPoint :: "jsstr \<Rightarrow> TreeSitterPoint \<Rightarrow> Boundary \<Rightarrow> ParserCoordinateError + int" where
  "offsetAtTreeSitterPoint content point boundary =
     (if \<not> (isOffset (pointRow point) \<and> isOffset (pointColumn point)) then Inl (InvalidPoint boundary)
      else let row = wholeOf (pointRow point); column = wholeOf (pointColumn point) in
      case atIndex (scanLines content) (nat row) of
        None \<Rightarrow> Inl (RowOutside boundary row)
      | Some line \<Rightarrow>
          let offset = int (lineStart line) + column in
          if int (contentEnd line) < offset \<and> \<not> (separator line = [CR, LF] \<and> offset = int (contentEnd line) + 1)
          then Inl (ColumnOutsideRow boundary column row)
          else Inr offset)"

definition treeSitterBoundary ::
    "jsstr \<Rightarrow> TreeSitterSourceNode \<Rightarrow> Boundary \<Rightarrow> ParserCoordinateError + int" where
  "treeSitterBoundary content node boundary =
     andThen (treeSitterIndexes node) (\<lambda>indexed.
       case indexed of
         Some (s, e) \<Rightarrow> Inr (case boundary of StartBoundary \<Rightarrow> s | EndBoundary \<Rightarrow> e)
       | None \<Rightarrow> offsetAtTreeSitterPoint content
           (case boundary of StartBoundary \<Rightarrow> startPosition node | EndBoundary \<Rightarrow> endPosition node) boundary)"

definition treeSitterSpan :: "jsstr \<Rightarrow> TreeSitterSpan \<Rightarrow> ParserCoordinateError + TextRegion" where
  "treeSitterSpan content sp =
     andThen (treeSitterBoundary content (spanStartNode sp) StartBoundary) (\<lambda>start.
     andThen (treeSitterBoundary content (spanEndNode sp) (endBoundary sp)) (\<lambda>end'.
       spanRegion content start end'))"

definition treeSitterNode :: "jsstr \<Rightarrow> TreeSitterSourceNode \<Rightarrow> ParserCoordinateError + TextRegion" where
  "treeSitterNode content node =
     andThen (treeSitterIndexes node) (\<lambda>indexed.
       case indexed of
         Some (s, e) \<Rightarrow> spanRegion content s e
       | None \<Rightarrow>
           andThen (offsetAtTreeSitterPoint content (startPosition node) StartBoundary) (\<lambda>start.
           andThen (offsetAtTreeSitterPoint content (endPosition node) EndBoundary) (\<lambda>end'.
             spanRegion content start end')))"

text \<open>The symbols of a file: each projection has a span and, in \<open>'s\<close>, what else a symbol carries.\<close>

definition materializeTreeSitterSymbols ::
    "jsstr \<Rightarrow> (TreeSitterSpan \<times> 's) list \<Rightarrow> ParserCoordinateError + ('s \<times> TextRegion) list" where
  "materializeTreeSitterSymbols content projections =
     mapResult (\<lambda>(sp, symbol). andThen (treeSitterSpan content sp) (\<lambda>region. Inr (symbol, region))) projections"

section \<open>ANTLR\<close>

definition tokenSpan :: "AntlrToken option \<Rightarrow> AntlrToken" where
  "tokenSpan value = (case value of None \<Rightarrow> \<lparr>tokenStart = None, tokenStop = None\<rparr> | Some token \<Rightarrow> token)"

definition antlrCodePointBoundaries :: "jsstr \<Rightarrow> nat list" where
  "antlrCodePointBoundaries content = offsetsFrom 0 (codePoints content)"

fun plusOne :: "jsnum \<Rightarrow> jsnum" where
  "plusOne (Whole n) = Whole (n + 1)"
| "plusOne (Fraction q) = Fraction (q + 1)"

definition antlrTokenBoundary :: "jsstr \<Rightarrow> AntlrToken \<Rightarrow> Boundary \<Rightarrow> ParserCoordinateError + int" where
  "antlrTokenBoundary content token boundary =
     (case (case boundary of StartBoundary \<Rightarrow> tokenStart token | EndBoundary \<Rightarrow> map_option plusOne (tokenStop token)) of
        None \<Rightarrow> Inl (TokenOffsetInvalid boundary)
      | Some codePointOffset \<Rightarrow>
          if \<not> isOffset codePointOffset then Inl (TokenOffsetInvalid boundary)
          else (case atIndex (antlrCodePointBoundaries content) (nat (wholeOf codePointOffset)) of
                  None \<Rightarrow> Inl (OffsetOutsideSource boundary (wholeOf codePointOffset))
                | Some offset \<Rightarrow> Inr (int offset)))"

definition antlrToken :: "jsstr \<Rightarrow> AntlrToken option \<Rightarrow> ParserCoordinateError + TextRegion" where
  "antlrToken content token =
     (let tok = tokenSpan token in
      andThen (antlrTokenBoundary content tok StartBoundary) (\<lambda>start.
      andThen (antlrTokenBoundary content tok EndBoundary) (\<lambda>stop.
        spanRegion content start (max start stop))))"

definition antlrContext :: "jsstr \<Rightarrow> AntlrContext option \<Rightarrow> ParserCoordinateError + TextRegion" where
  "antlrContext content context =
     (let first = (case context of None \<Rightarrow> None | Some c \<Rightarrow> contextStart c);
          final = (case context of None \<Rightarrow> None
                   | Some c \<Rightarrow> (case contextStop c of None \<Rightarrow> contextStart c | Some t \<Rightarrow> Some t)) in
      andThen (antlrTokenBoundary content (tokenSpan first) StartBoundary) (\<lambda>start.
      andThen (antlrTokenBoundary content (tokenSpan final) EndBoundary) (\<lambda>stop.
        spanRegion content start (max start stop))))"

section \<open>Which offsets have a position\<close>

text \<open>The offset between the halves of a surrogate pair.\<close>

definition insidePair :: "jsstr \<Rightarrow> nat \<Rightarrow> bool" where
  "insidePair content offset \<longleftrightarrow>
     0 < offset \<and> offset < length content \<and> highSurrogate (content ! (offset - 1)) \<and> lowSurrogate (content ! offset)"

lemma surrogates_apart: "highSurrogate c \<Longrightarrow> \<not> lowSurrogate c"
proof -
  assume "highSurrogate c"
  then have "unat c \<le> 0xDBFF" by (simp add: highSurrogate_def word_le_nat_alt)
  then show ?thesis by (auto simp: lowSurrogate_def word_le_nat_alt)
qed

lemma boundary_shift:
  assumes "k \<noteq> 0" "length p \<le> k"
  shows "(\<exists>i \<le> length (p # ps). length (concat (take i (p # ps))) = k)
    \<longleftrightarrow> (\<exists>i \<le> length ps. length (concat (take i ps)) = k - length p)" (is "?L \<longleftrightarrow> ?R")
proof
  assume ?L
  then obtain i where i: "i \<le> length (p # ps)" "length (concat (take i (p # ps))) = k" by blast
  with assms(1) obtain j where "i = Suc j" by (cases i) auto
  then have "j \<le> length ps" "length (concat (take j ps)) = k - length p" using i by auto
  then show ?R by blast
next
  assume ?R
  then obtain i where "i \<le> length ps" "length (concat (take i ps)) = k - length p" by blast
  then have "Suc i \<le> length (p # ps)" "length (concat (take (Suc i) (p # ps))) = k" using assms(2) by auto
  then show ?L by blast
qed

text \<open>The boundaries of the code points of a text are the offsets that split no pair.\<close>

lemma codePoint_boundary:
  "k \<le> length s \<Longrightarrow> (\<exists>i \<le> length (codePoints s). length (concat (take i (codePoints s))) = k) \<longleftrightarrow> \<not> insidePair s k"
proof (induction s arbitrary: k rule: codePoints.induct)
  case 1
  then show ?case by (simp add: insidePair_def)
next
  case (2 c)
  then have "k = 0 \<or> k = 1" by auto
  then show ?case by (auto simp: insidePair_def intro: exI [of _ 0] exI [of _ 1])
next
  case (3 c d s)
  show ?case
  proof (cases "k = 0")
    case True
    then show ?thesis by (auto simp: insidePair_def intro: exI [of _ 0])
  next
    case k0: False
    show ?thesis
    proof (cases "highSurrogate c \<and> lowSurrogate d")
      case pair: True
      then have ps: "codePoints (c # d # s) = [c, d] # codePoints s" by simp
      show ?thesis
      proof (cases "k = 1")
        case True
        have "length (concat (take i ([c, d] # codePoints s))) \<noteq> 1" for i by (cases i) simp_all
        then show ?thesis unfolding ps using True pair by (simp add: insidePair_def)
      next
        case False
        then have k: "k = Suc (Suc (k - 2))" "k - 2 \<le> length s" "length [c, d] \<le> k" using k0 3(3) by auto
        have "insidePair (c # d # s) k \<longleftrightarrow> insidePair s (k - 2)"
          using k(1) pair surrogates_apart [of d] by (cases "k - 2") (auto simp: insidePair_def)
        then show ?thesis unfolding ps boundary_shift [OF k0 k(3)] using 3(1) [OF pair k(2)] by (simp add: numeral_2_eq_2)
      qed
    next
      case False
      then have ps: "codePoints (c # d # s) = [c] # codePoints (d # s)" by simp
      have k: "k = Suc (k - 1)" "k - 1 \<le> length (d # s)" "length [c] \<le> k" using k0 3(3) by auto
      have "insidePair (c # d # s) k \<longleftrightarrow> insidePair (d # s) (k - 1)"
        using k(1) False by (cases "k - 1") (auto simp: insidePair_def)
      then show ?thesis unfolding ps boundary_shift [OF k0 k(3)] using 3(2) [OF False k(2)] by simp
    qed
  qed
qed

text \<open>A line that ends in a carriage return alone is not followed by a line feed.\<close>

lemma scanFrom_bare_cr:
  "l \<in> set (scanFrom start (length p) cs) \<Longrightarrow> separator l = [CR] \<Longrightarrow> atIndex (p @ cs) (lineEnd l) \<noteq> Some LF"
proof (induction start "length p" cs arbitrary: p rule: scanFrom.induct)
  case (1 start)
  then show ?case by (simp add: mkLine_def)
next
  case (2 start c)
  show ?case
  proof (cases "isNewline c")
    case True
    then show ?thesis using 2(3,4) by (auto simp: mkLine_def atIndex_def)
  next
    case False
    then show ?thesis using 2(2) [of "p @ [c]"] 2(3,4) by simp
  qed
next
  case (3 start c d cs)
  consider "c = CR \<and> d = LF" | "\<not> (c = CR \<and> d = LF)" "isNewline c" | "\<not> (c = CR \<and> d = LF)" "\<not> isNewline c" by blast
  then show ?case
  proof cases
    case 1
    then show ?thesis using 3(1) [OF 1, of "p @ [c, d]"] 3(4,5) by (auto simp: mkLine_def)
  next
    case 2
    then show ?thesis using 3(2) [OF 2, of "p @ [c]"] 3(4,5) by (auto simp: mkLine_def atIndex_def nth_append)
  next
    case other: 3
    then have "scanFrom start (length p) (c # d # cs) = scanFrom start (length p + 1) (d # cs)" by auto
    then show ?thesis using 3(3) [OF other, of "p @ [c]"] 3(4,5) by simp
  qed
qed

lemma bare_cr:
  assumes "i < length (scanLines content)" "separator (scanLines content ! i) = [CR]"
  shows "atIndex content (lineEnd (scanLines content ! i)) \<noteq> Some LF"
  using scanFrom_bare_cr [of "scanLines content ! i" 0 "[]" content] assms by (simp add: scanLines_def)

lemma body_nth:
  assumes "i < length (scanLines content)" "l = scanLines content ! i" "lineStart l \<le> k" "k < contentEnd l"
  shows "content ! k = lineBody content l ! (k - lineStart l)" "\<not> isNewline (content ! k)"
proof -
  note b = line_bounds [OF assms(1,2)]
  show e: "content ! k = lineBody content l ! (k - lineStart l)"
    using assms(3,4) b(2,3) by (simp add: lineBody_def nth_slice)
  have "k - lineStart l < length (lineBody content l)" using assms(3,4) b(2,3) by (simp add: lineBody_def length_slice)
  then show "\<not> isNewline (content ! k)" using b(4) e by (simp add: newlineFree_def)
qed

text \<open>The character before a line's start ends a line, and the one at its content's end, if any, is a separator's first.\<close>

lemma line_neighbours:
  assumes "i < length (scanLines content)" "l = scanLines content ! i"
  shows "0 < lineStart l \<Longrightarrow> isNewline (content ! (lineStart l - 1))"
    "0 < lineStart l \<Longrightarrow> content ! (lineStart l - 1) = CR \<Longrightarrow> atIndex content (lineStart l) \<noteq> Some LF"
    "contentEnd l < length content \<Longrightarrow> isNewline (content ! contentEnd l)"
proof -
  note b = line_bounds [OF assms]
  show "isNewline (content ! contentEnd l)" if "contentEnd l < length content"
  proof -
    have "separator l \<in> {[CR, LF], [CR], [LF]}" using line_separator [OF assms] b(2,5) that by auto
    moreover have "content ! contentEnd l = separator l ! 0"
      using b(3,5,6) calculation nth_slice [of 0 "lineEnd l" "contentEnd l" content] by fastforce
    ultimately show ?thesis by auto
  qed
  assume pos: "0 < lineStart l"
  have "i \<noteq> 0"
  proof
    assume "i = 0"
    then show False using pos line_start_zero [of content] assms(2) by simp
  qed
  then obtain j where j: "i = Suc j" by (cases i) auto
  then have jl: "j < length (scanLines content)" using assms(1) by simp
  let ?m = "scanLines content ! j"
  note step = tiles_step [OF scanLines_tiles [of content], of j] and bm = line_bounds [OF jl refl]
  have m: "lineStart l = lineEnd ?m" "separator ?m \<in> {[CR, LF], [CR], [LF]}" using step j assms by auto
  have "content ! (lineEnd ?m - 1) = separator ?m ! (length (separator ?m) - 1)"
    using bm(3,5,6) m(2) nth_slice [of "length (separator ?m) - 1" "lineEnd ?m" "contentEnd ?m" content] by auto
  then have last: "content ! (lineStart l - 1) = last (separator ?m)" using m by (auto simp: last_conv_nth)
  then show "isNewline (content ! (lineStart l - 1))" using m(2) by auto
  show "atIndex content (lineStart l) \<noteq> Some LF" if "content ! (lineStart l - 1) = CR"
    using that last m bare_cr [OF jl] by auto
qed

text \<open>An offset has a position exactly when it splits neither a line separator nor a surrogate pair.\<close>

lemma newline_no_surrogate: "isNewline c \<Longrightarrow> \<not> highSurrogate c \<and> \<not> lowSurrogate c"
  by (auto simp: isNewline_def)

lemma insidePair_line:
  assumes "i < length (scanLines content)" "l = scanLines content ! i" "lineStart l \<le> k" "k \<le> contentEnd l"
  shows "insidePair content k \<longleftrightarrow> insidePair (lineBody content l) (k - lineStart l)"
proof -
  note b = line_bounds [OF assms(1,2)] and nb = line_neighbours [OF assms(1,2)]
  have len: "length (lineBody content l) = contentEnd l - lineStart l" using b by (simp add: lineBody_def length_slice)
  consider "k = lineStart l" | "k = contentEnd l" | "lineStart l < k" "k < contentEnd l" using assms(3,4) by linarith
  then show ?thesis
  proof cases
    case 1
    have "\<not> insidePair content k"
      using nb(1) newline_no_surrogate [of "content ! (k - 1)"] 1 by (auto simp: insidePair_def)
    then show ?thesis using 1 by (simp add: insidePair_def)
  next
    case 2
    have "\<not> insidePair content k"
      using nb(3) newline_no_surrogate [of "content ! k"] 2 by (auto simp: insidePair_def)
    then show ?thesis using 2 len by (simp add: insidePair_def)
  next
    case 3
    have "content ! k = lineBody content l ! (k - lineStart l)"
      "content ! (k - 1) = lineBody content l ! (k - lineStart l - 1)"
      using body_nth(1) [OF assms(1,2), of k] body_nth(1) [OF assms(1,2), of "k - 1"] 3 by (auto simp: diff_right_commute)
    then show ?thesis using 3 len b(2,3) by (auto simp: insidePair_def)
  qed
qed

lemma insideCrlf_line:
  assumes "i < length (scanLines content)" "l = scanLines content ! i" "lineStart l \<le> k" "k \<le> contentEnd l"
  shows "\<not> insideCrlf content (int k)"
proof
  assume c: "insideCrlf content (int k)"
  then have k: "0 < k" "k - 1 < length content" "content ! (k - 1) = CR" "atIndex content k = Some LF"
    by (auto simp: insideCrlf_def atIndex_Some_iff nat_diff_distrib)
  show False
  proof (cases "k = lineStart l")
    case True
    then show False using line_neighbours(2) [OF assms(1,2)] k by simp
  next
    case False
    then have "lineStart l \<le> k - 1" "k - 1 < contentEnd l" using assms(3,4) k(1) by linarith+
    then show False using body_nth(2) [OF assms(1,2), of "k - 1"] k(3) by simp
  qed
qed

lemma position_exists:
  assumes "fits content"
  shows "(\<exists>p. positionAtOffset content (int k) = Some p)
    \<longleftrightarrow> k \<le> length content \<and> \<not> insideCrlf content (int k) \<and> \<not> insidePair content k"
proof (cases "k \<le> length content")
  case False
  then show ?thesis by (simp add: positionAtOffset_def)
next
  case le: True
  obtain i where i: "i < length (scanLines content)" "lineStart (scanLines content ! i) \<le> k"
    "\<And>j. i < j \<Longrightarrow> j < length (scanLines content) \<Longrightarrow> k < lineStart (scanLines content ! j)"
    "lineIndexAtOffset (scanLines content) k = i" by (rule line_of_offset [of content k]) blast
  let ?l = "scanLines content ! i"
  note b = line_bounds [OF i(1) refl]
  have safe: "safeInt (int k)" using le by (intro fits_safe [OF assms]) simp
  show ?thesis
  proof (cases "k \<le> contentEnd ?l")
    case True
    let ?ps = "codePoints (lineBody content ?l)"
    have len: "length (lineBody content ?l) = contentEnd ?l - lineStart ?l" using b by (simp add: lineBody_def length_slice)
    have "(\<exists>p. positionAtOffset content (int k) = Some p)
        \<longleftrightarrow> (\<exists>c < length (offsetsForLine content ?l). offsetsForLine content ?l ! c = k)"
    proof
      assume "\<exists>p. positionAtOffset content (int k) = Some p"
      then show "\<exists>c < length (offsetsForLine content ?l). offsetsForLine content ?l ! c = k"
        using i(4) by (auto elim!: positionAtOffset_SomeE)
    next
      assume "\<exists>c < length (offsetsForLine content ?l). offsetsForLine content ?l ! c = k"
      then show "\<exists>p. positionAtOffset content (int k) = Some p"
        using positionAtOffset_at_column [OF i(1) safe le] by blast
    qed
    also have "\<dots> \<longleftrightarrow> (\<exists>c \<le> length ?ps. length (concat (take c ?ps)) = k - lineStart ?l)"
      using i(2) by (auto simp: offsetsForLine_def offsetsFrom_nth less_Suc_eq_le)
    also have "\<dots> \<longleftrightarrow> \<not> insidePair (lineBody content ?l) (k - lineStart ?l)"
      by (rule codePoint_boundary) (use True len in simp)
    finally show ?thesis
      using insidePair_line [OF i(1) refl i(2) True] insideCrlf_line [OF i(1) refl i(2) True] le by simp
  next
    case False
    have none: "positionAtOffset content (int k) = None"
      using False i(4) by (simp add: positionAtOffset_def Let_def)
    have sep: "separator ?l \<in> {[CR, LF], [CR], [LF]}" "k < lineEnd ?l"
    proof -
      show "separator ?l \<in> {[CR, LF], [CR], [LF]}" using line_separator [OF i(1) refl] False le b(5) by auto
      then have "Suc i < length (scanLines content)"
        using tiles_last [OF scanLines_tiles [of content]] i(1)
        by (metis Suc_lessI diff_Suc_1 empty_iff insert_iff last_conv_nth list.distinct(1) scanLines_nonempty)
      then have "lineStart (scanLines content ! Suc i) = lineEnd ?l" "k < lineStart (scanLines content ! Suc i)"
        using tiles_step [OF scanLines_tiles [of content], of i] i(3) [of "Suc i"] by auto
      then show "k < lineEnd ?l" by simp
    qed
    then have crlf: "separator ?l = [CR, LF]" "k = Suc (contentEnd ?l)" using False b(5) by auto
    have "content ! contentEnd ?l = CR" "content ! k = LF"
      using b(3,5,6) crlf nth_slice [of 0 "lineEnd ?l" "contentEnd ?l" content] nth_slice [of 1 "lineEnd ?l" "contentEnd ?l" content]
      by auto
    then have "insideCrlf content (int k)" using crlf b(3,5) by (simp add: insideCrlf_def atIndex_def nat_add_distrib)
    then show ?thesis using none by simp
  qed
qed

section \<open>The region of a span\<close>

text \<open>Where a span starts and ends once a separator it cuts is taken in whole.\<close>

definition outerStart :: "jsstr \<Rightarrow> nat \<Rightarrow> nat" where
  "outerStart content k = (if insideCrlf content (int k) then k - 1 else k)"

definition outerEnd :: "jsstr \<Rightarrow> nat \<Rightarrow> nat" where
  "outerEnd content k = (if insideCrlf content (int k) then k + 1 else k)"

lemma insideCrlf_nat: "insideCrlf content (int k) \<longleftrightarrow> 0 < k \<and> atIndex content (k - 1) = Some CR \<and> atIndex content k = Some LF"
  by (cases k) (auto simp: insideCrlf_def nat_add_distrib)

lemma outer_positions:
  assumes "fits content" "k \<le> length content" "\<not> insidePair content k"
  shows "\<exists>p. positionAtOffset content (int (outerStart content k)) = Some p"
    "\<exists>p. positionAtOffset content (int (outerEnd content k)) = Some p"
    "outerStart content k \<le> k" "k \<le> outerEnd content k" "outerEnd content k \<le> length content"
proof -
  have "\<exists>p. positionAtOffset content (int (k - 1)) = Some p" "\<exists>p. positionAtOffset content (int (k + 1)) = Some p"
    if c: "insideCrlf content (int k)"
  proof -
    from c have k: "0 < k" "k < length content" "content ! (k - 1) = CR" "content ! k = LF"
      by (auto simp: insideCrlf_nat atIndex_Some_iff)
    show "\<exists>p. positionAtOffset content (int (k - 1)) = Some p"
      unfolding position_exists [OF assms(1)] insideCrlf_nat using k
      by (auto simp: insidePair_def atIndex_Some_iff)
    show "\<exists>p. positionAtOffset content (int (k + 1)) = Some p"
      unfolding position_exists [OF assms(1)] insideCrlf_nat using k
      by (auto simp: insidePair_def atIndex_Some_iff)
  qed
  then show "\<exists>p. positionAtOffset content (int (outerStart content k)) = Some p"
    "\<exists>p. positionAtOffset content (int (outerEnd content k)) = Some p"
    using position_exists [OF assms(1), of k] assms(2,3) by (auto simp: outerStart_def outerEnd_def)
  show "outerStart content k \<le> k" "k \<le> outerEnd content k" "outerEnd content k \<le> length content"
    using assms(2) by (auto simp: outerStart_def outerEnd_def insideCrlf_nat atIndex_Some_iff)
qed

lemma spanRegion_located:
  assumes "fits content" "s \<le> e" "e \<le> length content" "\<not> insidePair content s" "\<not> insidePair content e"
  shows "\<exists>r. spanRegion content (int s) (int e) = Inr r
    \<and> textReplacement content (regionMarks r) body
      = Inr \<lparr>repStart = outerStart content s, repEnd = (if s = e then outerStart content s else outerEnd content e),
             repBody = body, repStartLine = int (startLine r), repEndLine = int (endLine r), normalization = None\<rparr>"
proof -
  let ?a = "outerStart content s" and ?b = "if s = e then outerStart content s else outerEnd content e"
  have s: "s \<le> length content" using assms(2,3) by simp
  note ps = outer_positions [OF assms(1) s assms(4)] and pe = outer_positions [OF assms(1,3,5)]
  obtain p q where pq: "positionAtOffset content (int ?a) = Some p" "positionAtOffset content (int ?b) = Some q"
    using ps(1) pe(2) by (cases "s = e") auto
  have le: "?a \<le> ?b" using ps(3) pe(4) assms(2) by simp
  have a: "(if insideCrlf content (int s) then int s - 1 else int s) = int ?a"
    by (auto simp: outerStart_def insideCrlf_nat of_nat_diff)
  have b: "(if int s = int e then int ?a else if insideCrlf content (int e) then int e + 1 else int e) = int ?b"
    by (simp add: outerEnd_def)
  have "spanRegion content (int s) (int e) = Inr (regionOf p q)"
    using assms(2) pq le unfolding spanRegion_def Let_def a b by (simp add: regionFromOffsets_def)
  then show ?thesis
    using exact_of_positions [OF assms(1) pq(1,2)] le by (auto simp: regionOf_def)
qed

lemma spanRegion_pair:
  assumes "fits content" "s \<le> e" "e \<le> length content" "insidePair content s \<or> insidePair content e"
  shows "spanRegion content (int s) (int e) = Inl (MisalignedSpan (int s) (int e))"
proof -
  have no: "\<not> insideCrlf content (int k) \<and> positionAtOffset content (int k) = None" if "insidePair content k" for k
  proof -
    have "\<not> insideCrlf content (int k)"
      using that newline_no_surrogate [of CR] by (auto simp: insideCrlf_nat insidePair_def atIndex_Some_iff)
    then show ?thesis using position_exists [OF assms(1), of k] that by auto
  qed
  show ?thesis
  proof (cases "insidePair content s")
    case True
    then show ?thesis using no [OF True] assms(2) by (simp add: spanRegion_def Let_def regionFromOffsets_def)
  next
    case False
    then have e: "insidePair content e" "s \<noteq> e" using assms(4) by auto
    then show ?thesis using no [OF e(1)] assms(2)
      by (auto simp: spanRegion_def Let_def regionFromOffsets_def split: option.splits)
  qed
qed

section \<open>Properties\<close>

text \<open>C37. A tree-sitter node with offsets inside the source is located exactly when neither offset splits a surrogate pair, and
  then its region, resolved by the slicer, is the node's text with any CRLF it cuts taken in whole.\<close>

theorem tree_sitter_nodes_are_located:
  assumes "fits content" "startIndex node = Some (Whole (int s))" "endIndex node = Some (Whole (int e))"
    "s \<le> e" "e \<le> length content"
  shows "(if insidePair content s \<or> insidePair content e
     then treeSitterNode content node = Inl (MisalignedSpan (int s) (int e))
     else \<exists>r. treeSitterNode content node = Inr r
       \<and> textReplacement content (regionMarks r) []
         = Inr \<lparr>repStart = outerStart content s, repEnd = (if s = e then outerStart content s else outerEnd content e),
                repBody = [], repStartLine = int (startLine r), repEndLine = int (endLine r), normalization = None\<rparr>)"
proof -
  have "safeInt (int s)" "safeInt (int e)" using assms(4,5) by (auto intro!: fits_safe [OF assms(1)])
  then have "treeSitterNode content node = spanRegion content (int s) (int e)"
    using assms(2,3) by (simp add: treeSitterNode_def treeSitterIndexes_def isOffset_def)
  then show ?thesis using spanRegion_located [OF assms(1,4,5)] spanRegion_pair [OF assms(1,4,5)] by auto
qed

theorem tree_sitter_nodes_are_located_witness:
  "\<exists>r. treeSitterNode [97, 13, 10, 98] \<lparr>startIndex = Some (Whole 0), endIndex = Some (Whole 2),
        startPosition = \<lparr>pointRow = Whole 0, pointColumn = Whole 0\<rparr>, endPosition = \<lparr>pointRow = Whole 0, pointColumn = Whole 2\<rparr>\<rparr> = Inr r
     \<and> map_sum id repEnd (textReplacement [97, 13, 10, 98] (regionMarks r) []) = Inr 3"
proof -
  let ?node = "\<lparr>startIndex = Some (Whole 0), endIndex = Some (Whole 2),
    startPosition = \<lparr>pointRow = Whole 0, pointColumn = Whole 0\<rparr>, endPosition = \<lparr>pointRow = Whole 0, pointColumn = Whole 2\<rparr>\<rparr>"
  have fits: "fits [97, 13, 10, 98]" by (simp add: fits_def MAX_SAFE_INTEGER_def)
  have pairs: "\<not> insidePair [97, 13, 10, 98] 0" "\<not> insidePair [97, 13, 10, 98] 2"
    and ends: "outerEnd [97, 13, 10, 98] 2 = 3" by code_simp+
  have idx: "startIndex ?node = Some (Whole (int 0))" "endIndex ?node = Some (Whole (int 2))" by simp_all
  from tree_sitter_nodes_are_located [OF fits idx] pairs ends show ?thesis by auto
qed

lemma codePoint_no_pair:
  assumes "i \<le> length (codePoints content)"
  shows "length (concat (take i (codePoints content))) \<le> length content"
    "\<not> insidePair content (length (concat (take i (codePoints content))))"
proof -
  have "length (concat (take i (codePoints content)) @ concat (drop i (codePoints content))) = length content"
    by (simp flip: concat_append)
  then show le: "length (concat (take i (codePoints content))) \<le> length content" by simp
  show "\<not> insidePair content (length (concat (take i (codePoints content))))"
    using codePoint_boundary [OF le] assms by blast
qed

text \<open>C38. No ANTLR token inside the source is rejected: with its first and last code point counted from zero, and an empty token
  written as one that stops before it starts, its region is the text of its code points with any CRLF it cuts taken in whole.\<close>

theorem antlr_tokens_are_located:
  fixes content :: jsstr and s e :: nat
  assumes "fits content" "tokenStart token = Some (Whole (int s))" "tokenStop token = Some (Whole (int e - 1))"
    "s \<le> length (codePoints content)" "e \<le> length (codePoints content)"
  defines "a \<equiv> length (concat (take s (codePoints content)))"
    and "b \<equiv> length (concat (take (max s e) (codePoints content)))"
  shows "\<exists>r. antlrToken content (Some token) = Inr r
    \<and> textReplacement content (regionMarks r) []
      = Inr \<lparr>repStart = outerStart content a, repEnd = (if a = b then outerStart content a else outerEnd content b),
             repBody = [], repStartLine = int (startLine r), repEndLine = int (endLine r), normalization = None\<rparr>"
proof -
  have small: "s \<le> length content + 1" "e \<le> length content + 1" using assms(4,5) length_codePoints [of content] by simp_all
  then have safe: "safeInt (int s)" "safeInt (int e)" by (blast intro: fits_safe [OF assms(1)])+
  have mono: "length (concat (take i (codePoints content))) \<le> length (concat (take j (codePoints content)))" if "i \<le> j" for i j
  proof -
    have "take j (codePoints content) = take i (codePoints content) @ take (j - i) (drop i (codePoints content))"
      using that by (metis le_add_diff_inverse take_add)
    then show ?thesis by simp
  qed
  have bounds: "antlrTokenBoundary content token StartBoundary = Inr (int a)"
    "antlrTokenBoundary content token EndBoundary = Inr (int (length (concat (take e (codePoints content)))))"
    using assms(2-5) safe
    by (simp_all add: antlrTokenBoundary_def isOffset_def antlrCodePointBoundaries_def atIndex_def offsetsFrom_nth a_def)
  have "max a (length (concat (take e (codePoints content)))) = b"
    using mono [of s e] mono [of e s] by (auto simp: a_def b_def max_def)
  then have token: "antlrToken content (Some token) = spanRegion content (int a) (int b)"
    using bounds by (simp add: antlrToken_def tokenSpan_def Let_def flip: of_nat_max)
  have "a \<le> b" using mono [of s "max s e"] by (simp add: a_def b_def)
  moreover have "b \<le> length content" "\<not> insidePair content b" "\<not> insidePair content a"
    using codePoint_no_pair [of "max s e" content] codePoint_no_pair [of s content] assms(4,5) by (simp_all add: a_def b_def)
  ultimately show ?thesis using spanRegion_located [OF assms(1), of a b "[]"] token by simp
qed

theorem antlr_tokens_are_located_witness:
  "\<exists>r. antlrToken [0xD83D, 0xDE00, 13, 10] (Some \<lparr>tokenStart = Some (Whole 0), tokenStop = Some (Whole 1)\<rparr>) = Inr r
     \<and> map_sum id repEnd (textReplacement [0xD83D, 0xDE00, 13, 10] (regionMarks r) []) = Inr 4"
proof -
  let ?c = "[0xD83D, 0xDE00, 13, 10] :: jsstr" and ?t = "\<lparr>tokenStart = Some (Whole 0), tokenStop = Some (Whole 1)\<rparr>"
  have fits: "fits ?c" by (simp add: fits_def MAX_SAFE_INTEGER_def)
  have cps: "codePoints ?c = [[0xD83D, 0xDE00], [13], [10]]" by code_simp
  have ends: "outerEnd ?c 3 = 4" by code_simp
  have t: "tokenStart ?t = Some (Whole (int 0))" "tokenStop ?t = Some (Whole (int 2 - 1))" by simp_all
  have n: "0 \<le> length (codePoints ?c)" "2 \<le> length (codePoints ?c)" using cps by simp_all
  from antlr_tokens_are_located [OF fits t n] cps ends show ?thesis by (auto simp: numeral_2_eq_2 numeral_3_eq_3)
qed

end
