(* ===== verification/LogVisibility.thy ===== *)
theory LogVisibility
  imports LineAnchors
begin

text \<open>
  \<^verbatim>\<open>plurnk-core/src/core/LogVisibility.ts\<close>: which lines of a log body are folded away. Stored ranges
  are sorted, disjoint, non-adjacent inclusive line intervals, \<open>-1\<close> for an end that stays open;
  a scoped KILL resolves its scope against the body and unions the range into them.

  \<open>JSON.parse\<close> is the parameter \<open>parseJson\<close> (\<open>None\<close> when it throws) and the digest of the anchors
  that of \<open>LineAnchors\<close>. Messages and recoveries are constructors.
\<close>

type_synonym LogFoldRange = "int \<times> int"

datatype FoldValue = FText jsstr | FNumber jsnum | FArray "FoldValue list" | FOther

datatype FoldError =
    MalformedRangeJson
  | RangesNotArray
  | RangeNotSafePair
  | RangeInvalid int int
  | RangesNotNormal
  | LineCountInvalid int

definition OPEN :: "LogFoldRange list" where "OPEN = []"

definition FOLDED :: "LogFoldRange list" where "FOLDED = [(1, -1)]"

section \<open>Reading stored ranges\<close>

definition checkPair :: "LogFoldRange \<Rightarrow> FoldError + LogFoldRange" where
  "checkPair r =
     (case r of (start, final) \<Rightarrow>
        if \<not> safeInt start \<or> \<not> safeInt final then Inl RangeNotSafePair
        else if start < 1 \<or> final \<noteq> -1 \<and> final < start then Inl (RangeInvalid start final)
        else Inr (start, final))"

fun decodePair :: "FoldValue \<Rightarrow> FoldError + LogFoldRange" where
  "decodePair (FArray [FNumber a, FNumber b]) =
     (if isSafeInteger a \<and> isSafeInteger b then checkPair (wholeOf a, wholeOf b) else Inl RangeNotSafePair)"
| "decodePair _ = Inl RangeNotSafePair"

fun separate :: "LogFoldRange list \<Rightarrow> bool" where
  "separate (p # c # rs) \<longleftrightarrow> \<not> (snd p = -1 \<or> fst c \<le> snd p + 1) \<and> separate (c # rs)"
| "separate _ \<longleftrightarrow> True"

definition whenSeparate :: "LogFoldRange list \<Rightarrow> FoldError + LogFoldRange list" where
  "whenSeparate rs = (if separate rs then Inr rs else Inl RangesNotNormal)"

definition parseValue :: "(jsstr \<Rightarrow> FoldValue option) \<Rightarrow> FoldValue \<Rightarrow> FoldError + LogFoldRange list" where
  "parseValue parseJson v =
     andThen (case v of FText s \<Rightarrow> (case parseJson s of None \<Rightarrow> Inl MalformedRangeJson | Some d \<Rightarrow> Inr d)
              | _ \<Rightarrow> Inr v) (\<lambda>decoded.
       case decoded of FArray items \<Rightarrow> andThen (mapResult decodePair items) whenSeparate
       | _ \<Rightarrow> Inl RangesNotArray)"

text \<open>\<open>parse\<close> of ranges that are already pairs of numbers.\<close>

definition parseRanges :: "LogFoldRange list \<Rightarrow> FoldError + LogFoldRange list" where
  "parseRanges rs = andThen (mapResult checkPair rs) whenSeparate"

definition sameRanges :: "LogFoldRange list \<Rightarrow> LogFoldRange list \<Rightarrow> FoldError + bool" where
  "sameRanges left right =
     andThen (parseRanges left) (\<lambda>l. andThen (parseRanges right) (\<lambda>r. Inr (l = r)))"

section \<open>Intervals\<close>

text \<open>An end, \<open>None\<close> for infinity.\<close>

definition endOf :: "int \<Rightarrow> int option" where
  "endOf final = (if final = -1 then None else Some final)"

definition storedEnd :: "int option \<Rightarrow> int" where
  "storedEnd final = (case final of None \<Rightarrow> -1 | Some n \<Rightarrow> n)"

fun endLe :: "int option \<Rightarrow> int option \<Rightarrow> bool" where
  "endLe _ None \<longleftrightarrow> True"
| "endLe None (Some b) \<longleftrightarrow> False"
| "endLe (Some a) (Some b) \<longleftrightarrow> a \<le> b"

definition maxEnd :: "int option \<Rightarrow> int option \<Rightarrow> int option" where
  "maxEnd a b = (if endLe a b then b else a)"

definition rangeBefore :: "int \<times> int option \<Rightarrow> int \<times> int option \<Rightarrow> bool" where
  "rangeBefore l r \<longleftrightarrow> fst l < fst r \<or> fst l = fst r \<and> endLe (snd l) (snd r)"

text \<open>The merge keeps the last interval first.\<close>

definition mergeRange :: "(int \<times> int option) list \<Rightarrow> int \<times> int option \<Rightarrow> (int \<times> int option) list" where
  "mergeRange merged r =
     (case merged of
        [] \<Rightarrow> [r]
      | (s, e) # earlier \<Rightarrow>
          (case e of
             Some k \<Rightarrow> if k + 1 < fst r then r # merged else (s, maxEnd e (snd r)) # earlier
           | None \<Rightarrow> (s, maxEnd e (snd r)) # earlier))"

definition normalizeRanges :: "LogFoldRange list \<Rightarrow> LogFoldRange list" where
  "normalizeRanges rs =
     (if rs = [] then OPEN
      else map (\<lambda>(s, e). (s, storedEnd e))
             (rev (foldl mergeRange [] (sortBy rangeBefore (map (\<lambda>(s, e). (s, endOf e)) rs)))))"

definition unionRanges :: "LogFoldRange list \<Rightarrow> LogFoldRange list \<Rightarrow> LogFoldRange list" where
  "unionRanges left right = normalizeRanges (left @ right)"

definition coversLines :: "LogFoldRange list \<Rightarrow> int \<Rightarrow> int \<Rightarrow> bool" where
  "coversLines rs start final = list_ex (\<lambda>(s, e). s \<le> start \<and> endLe (Some final) (endOf e)) rs"

definition applyFold :: "LogFoldRange list \<Rightarrow> LogFoldRange option \<Rightarrow> int \<Rightarrow> FoldError + LogFoldRange list" where
  "applyFold folded trimmed totalLines =
     andThen (parseRanges folded) (\<lambda>current.
       case trimmed of
         None \<Rightarrow> Inr current
       | Some r \<Rightarrow>
           if totalLines = 0 then Inr current
           else let after = unionRanges current [r]
                in Inr (if coversLines after 1 totalLines then FOLDED else after))"

definition clipRange :: "int \<Rightarrow> LogFoldRange \<Rightarrow> LogFoldRange list" where
  "clipRange totalLines r =
     (case r of (start, final) \<Rightarrow>
        if totalLines < start then []
        else let finiteEnd = (if final = -1 then totalLines else min final totalLines)
             in if finiteEnd < start then [] else [(start, if final = -1 then -1 else finiteEnd)])"

definition clipped :: "LogFoldRange list \<Rightarrow> int \<Rightarrow> FoldError + LogFoldRange list" where
  "clipped folded totalLines =
     (if \<not> safeInt totalLines \<or> totalLines < 0 then Inl (LineCountInvalid totalLines)
      else if totalLines = 0 then Inr OPEN
      else andThen (parseRanges folded) (\<lambda>rs. Inr (normalizeRanges (concat (map (clipRange totalLines) rs)))))"

definition fullyFolded :: "LogFoldRange list \<Rightarrow> int \<Rightarrow> FoldError + bool" where
  "fullyFolded folded totalLines =
     (if 0 < totalLines then andThen (clipped folded totalLines) (\<lambda>rs. Inr (coversLines rs 1 totalLines))
      else Inr False)"

text \<open>The loop over the lines from \<open>line\<close>; \<open>hidden\<close> are the ranges from \<open>rangeIndex\<close> on.\<close>

fun visibleFrom :: "LogFoldRange list \<Rightarrow> int \<Rightarrow> nat \<Rightarrow> int list" where
  "visibleFrom hidden line 0 = []"
| "visibleFrom hidden line (Suc k) =
     (let h = dropWhile (\<lambda>r. \<not> endLe (Some line) (endOf (snd r))) hidden
      in (if h = [] \<or> line < fst (hd h) then [line] else []) @ visibleFrom h (line + 1) k)"

definition visibleLineOrdinals :: "LogFoldRange list \<Rightarrow> int \<Rightarrow> FoldError + int list" where
  "visibleLineOrdinals folded totalLines =
     andThen (clipped folded totalLines) (\<lambda>hidden. Inr (visibleFrom hidden 1 (nat totalLines)))"

definition combine :: "LogFoldRange list \<Rightarrow> LogFoldRange list \<Rightarrow> FoldError + LogFoldRange list" where
  "combine initial trimmed =
     andThen (parseRanges initial) (\<lambda>a. andThen (parseRanges trimmed) (\<lambda>b. Inr (normalizeRanges (a @ b))))"

section \<open>The scope of a KILL\<close>

datatype ScopeRefusal =
    CoordinateCount nat
  | AnchorMalformed
  | NotIntegers
  | NotALine int
  | StartsBelowOne int int
  | EndsBelowOne int int
  | RunsBackward int int

datatype ScopeResolution = ScopeOk "LogFoldRange option" | ScopeRefused nat ScopeRefusal

definition linesNamed :: "jsstr list list \<Rightarrow> jsstr \<Rightarrow> nat list" where
  "linesNamed anchorSets mark =
     remdups (concat (map (\<lambda>as. map Suc (indicesWhere (\<lambda>a. a = mark) as)) anchorSets))"

text \<open>Every anchor as the line it names: a resolution when that ends the operation.\<close>

fun resolveLines :: "jsstr list list \<Rightarrow> TextMark list \<Rightarrow> ScopeResolution + jsnum list" where
  "resolveLines anchorSets [] = Inr []"
| "resolveLines anchorSets (NumberMark n # ms) = andThen (resolveLines anchorSets ms) (\<lambda>ns. Inr (n # ns))"
| "resolveLines anchorSets (AnchorMark mark # ms) =
     (if \<not> isAnchor mark then Inl (ScopeRefused 400 AnchorMalformed)
      else case linesNamed anchorSets mark of
          [l] \<Rightarrow> andThen (resolveLines anchorSets ms) (\<lambda>ns. Inr (Whole (int l) # ns))
        | _ \<Rightarrow> Inl (ScopeOk None))"

definition numericScope :: "int \<Rightarrow> jsnum list \<Rightarrow> ScopeResolution" where
  "numericScope count marks =
     (if \<not> list_all isSafeInteger marks then ScopeRefused 400 NotIntegers
      else case map wholeOf marks of
        [first] \<Rightarrow>
          if first < 1 then ScopeRefused 400 (NotALine first)
          else ScopeOk (if first \<le> count then Some (first, first) else None)
      | first # rawEnd # _ \<Rightarrow>
          if first < 1 then ScopeRefused 416 (StartsBelowOne first rawEnd)
          else if rawEnd \<noteq> -1 \<and> rawEnd < 1 then ScopeRefused 400 (EndsBelowOne first rawEnd)
          else if rawEnd \<noteq> -1 \<and> rawEnd < first then ScopeRefused 400 (RunsBackward first rawEnd)
          else if count = 0 then ScopeOk None
          else let final = (if rawEnd = -1 then count else min rawEnd count)
               in if count < first \<or> final < 1 \<or> final < first then ScopeOk None
                  else ScopeOk (Some (first, if rawEnd = -1 then -1 else final))
      | [] \<Rightarrow> ScopeRefused 400 (CoordinateCount 0))"

definition resolveScope ::
  "digester \<Rightarrow> nat \<Rightarrow> TextMark list option \<Rightarrow> jsstr \<Rightarrow> jsstr \<Rightarrow> jsstr list \<Rightarrow> AnchorError + ScopeResolution" where
  "resolveScope digest contextLines marker identity content published =
     (let count = int (lineCount content)
      in case marker of
           None \<Rightarrow> Inr (ScopeOk (if count = 0 then None else Some (1, -1)))
         | Some marks \<Rightarrow>
             if length marks \<noteq> 1 \<and> length marks \<noteq> 2 then Inr (ScopeRefused 400 (CoordinateCount (length marks)))
             else if hasAnchor marker
             then andThen (if published \<noteq> [] then assertProjection content published else Inr ()) (\<lambda>_.
                    andThen (tokens digest contextLines identity content) (\<lambda>ts.
                      Inr (case resolveLines (filter (\<lambda>as. as \<noteq> []) [published, ts]) marks of
                             Inl r \<Rightarrow> r
                           | Inr ns \<Rightarrow> numericScope count ns)))
             else Inr (numericScope count (numericMarks marks)))"

section \<open>Ranges as sets of lines\<close>

definition inRange :: "LogFoldRange \<Rightarrow> int \<Rightarrow> bool" where
  "inRange r n \<longleftrightarrow> fst r \<le> n \<and> endLe (Some n) (endOf (snd r))"

definition covered :: "LogFoldRange list \<Rightarrow> int \<Rightarrow> bool" where
  "covered rs n \<longleftrightarrow> (\<exists>r \<in> set rs. inRange r n)"

lemma covered_simps [simp]:
  "\<not> covered [] n" "covered (r # rs) n \<longleftrightarrow> inRange r n \<or> covered rs n"
  "covered (rs @ qs) n \<longleftrightarrow> covered rs n \<or> covered qs n"
  by (auto simp: covered_def)

lemma endLe_simps [simp]: "endLe e None" "endLe (Some n) e \<longleftrightarrow> (case e of None \<Rightarrow> True | Some k \<Rightarrow> n \<le> k)"
  by (cases e; simp)+

definition validRange :: "LogFoldRange \<Rightarrow> bool" where
  "validRange r \<longleftrightarrow> safeInt (fst r) \<and> safeInt (snd r) \<and> 1 \<le> fst r \<and> (snd r = -1 \<or> fst r \<le> snd r)"

lemma inRange_valid:
  "validRange r \<Longrightarrow> inRange r n \<longleftrightarrow> fst r \<le> n \<and> (snd r = -1 \<or> n \<le> snd r)"
  by (auto simp: inRange_def validRange_def endOf_def)

definition gap :: "LogFoldRange \<Rightarrow> LogFoldRange \<Rightarrow> bool" where
  "gap p q \<longleftrightarrow> snd p \<noteq> -1 \<and> snd p + 1 < fst q"

definition accepted :: "LogFoldRange list \<Rightarrow> bool" where
  "accepted rs \<longleftrightarrow> (\<forall>r \<in> set rs. validRange r) \<and> sorted_wrt gap rs"

lemma checkPair_Inr: "checkPair r = Inr q \<longleftrightarrow> q = r \<and> validRange r"
  by (cases r) (auto simp: checkPair_def validRange_def)

lemma mapResult_checkPair: "mapResult checkPair rs = Inr qs \<longleftrightarrow> qs = rs \<and> (\<forall>r \<in> set rs. validRange r)"
  by (induction rs arbitrary: qs) (auto simp: andThen_Inr_iff checkPair_Inr)

lemma gap_trans: "\<lbrakk>gap p q; gap q r; validRange q\<rbrakk> \<Longrightarrow> gap p r"
  by (auto simp: gap_def validRange_def)

lemma separate_gap: "\<forall>r \<in> set rs. validRange r \<Longrightarrow> separate rs \<longleftrightarrow> sorted_wrt gap rs"
proof (induction rs rule: separate.induct)
  case (1 p c rs)
  have "separate (p # c # rs) \<longleftrightarrow> gap p c \<and> separate (c # rs)"
    unfolding separate.simps(1) gap_def by force
  also have "\<dots> \<longleftrightarrow> gap p c \<and> sorted_wrt gap (c # rs)" using "1.IH" "1.prems" by simp
  also have "\<dots> \<longleftrightarrow> sorted_wrt gap (p # c # rs)"
    using gap_trans [of p c] "1.prems" by auto
  finally show ?case .
qed simp_all

lemma parseRanges_Inr: "parseRanges rs = Inr qs \<longleftrightarrow> qs = rs \<and> accepted rs"
  by (auto simp: parseRanges_def andThen_Inr_iff mapResult_checkPair whenSeparate_def accepted_def separate_gap)

lemma accepted_Cons:
  "accepted (r # rs) \<longleftrightarrow> validRange r \<and> accepted rs \<and> (\<forall>q \<in> set rs. gap r q)"
  by (auto simp: accepted_def)

lemma covered_after:
  "accepted (r # rs) \<Longrightarrow> covered rs n \<Longrightarrow> snd r \<noteq> -1 \<and> snd r + 1 < n"
  by (force simp: accepted_Cons covered_def inRange_def gap_def)

text \<open>Accepted ranges are determined by the lines they cover.\<close>

lemma accepted_unique:
  assumes "accepted a" "accepted b" "\<forall>n. covered a n = covered b n"
  shows "a = b"
  using assms
proof (induction a arbitrary: b)
  case Nil
  show ?case
  proof (cases b)
    case (Cons q qs)
    then have "inRange q (fst q)" using Nil.prems(2) by (auto simp: accepted_Cons inRange_valid) (auto simp: validRange_def)
    then show ?thesis using Nil.prems(3) Cons by auto
  qed simp
next
  case (Cons r rs)
  have r: "validRange r" "inRange r (fst r)" "accepted rs"
    using Cons.prems(1) by (auto simp: accepted_Cons inRange_valid) (auto simp: validRange_def)
  then obtain q qs where b: "b = q # qs" using Cons.prems(3) [rule_format, of "fst r"] by (cases b) auto
  have q: "validRange q" "inRange q (fst q)" "accepted qs"
    using Cons.prems(2) b by (auto simp: accepted_Cons inRange_valid) (auto simp: validRange_def)
  have same: "inRange r n \<or> covered rs n \<longleftrightarrow> inRange q n \<or> covered qs n" for n
    using Cons.prems(3) b by simp
  note ar = covered_after [OF Cons.prems(1)] and aq = covered_after [OF Cons.prems(2) [unfolded b]]
  have "fst q \<le> fst r"
    using same [of "fst r"] r aq [of "fst r"] q(1) by (auto simp: inRange_valid validRange_def)
  moreover have "fst r \<le> fst q"
    using same [of "fst q"] q ar [of "fst q"] r(1) by (auto simp: inRange_valid validRange_def)
  ultimately have start: "fst r = fst q" by simp
  have final: "snd r = snd q"
  proof (rule ccontr)
    assume ne: "snd r \<noteq> snd q"
    then consider "snd r \<noteq> -1" "snd q = -1 \<or> snd r < snd q" | "snd q \<noteq> -1" "snd r = -1 \<or> snd q < snd r" by force
    then show False
    proof cases
      case 1
      then show False using same [of "snd r + 1"] ar [of "snd r + 1"] r(1) q(1) start
        by (auto simp: inRange_valid validRange_def)
    next
      case 2
      then show False using same [of "snd q + 1"] aq [of "snd q + 1"] r(1) q(1) start
        by (auto simp: inRange_valid validRange_def)
    qed
  qed
  have "covered rs n = covered qs n" for n
    using same [of n] ar [of n] aq [of n] start final r(1) q(1) by (auto simp: inRange_valid)
  then have "rs = qs" using Cons.IH [OF r(3) q(3)] by blast
  then show ?case using b start final by (simp add: prod_eq_iff)
qed

section \<open>Normal forms\<close>

definition covers' :: "(int \<times> int option) list \<Rightarrow> int \<Rightarrow> bool" where
  "covers' xs n \<longleftrightarrow> (\<exists>x \<in> set xs. fst x \<le> n \<and> endLe (Some n) (snd x))"

definition validEnd :: "int \<times> int option \<Rightarrow> bool" where
  "validEnd x \<longleftrightarrow> safeInt (fst x) \<and> 1 \<le> fst x \<and> (\<forall>k. snd x = Some k \<longrightarrow> safeInt k \<and> fst x \<le> k)"

definition gapDown :: "int \<times> int option \<Rightarrow> int \<times> int option \<Rightarrow> bool" where
  "gapDown y x \<longleftrightarrow> (\<exists>k. snd x = Some k \<and> k + 1 < fst y)"

definition mergedOk :: "(int \<times> int option) list \<Rightarrow> bool" where
  "mergedOk ms \<longleftrightarrow> (\<forall>x \<in> set ms. validEnd x) \<and> sorted_wrt gapDown ms"

lemma maxEnd_le: "endLe (Some n) (maxEnd a b) \<longleftrightarrow> endLe (Some n) a \<or> endLe (Some n) b"
  by (cases a; cases b) (auto simp: maxEnd_def)

lemma mergeRange_ok:
  assumes "mergedOk ms" "validEnd r" "ms \<noteq> [] \<Longrightarrow> fst (hd ms) \<le> fst r"
  shows "mergedOk (mergeRange ms r) \<and> fst (hd (mergeRange ms r)) \<le> fst r \<and> mergeRange ms r \<noteq> []
    \<and> (covers' (mergeRange ms r) n \<longleftrightarrow> covers' ms n \<or> covers' [r] n)"
proof (cases ms)
  case Nil
  then show ?thesis using assms by (simp add: mergeRange_def mergedOk_def covers'_def)
next
  case (Cons m earlier)
  obtain s e where m: "m = (s, e)" by (cases m)
  have s: "s \<le> fst r" using assms(3) Cons m by simp
  show ?thesis
  proof (cases "\<exists>k. e = Some k \<and> k + 1 < fst r")
    case True
    then have merged: "mergeRange ms r = r # ms" using Cons m by (auto simp: mergeRange_def)
    have "gapDown r x" if "x \<in> set ms" for x
    proof (cases "x = m")
      case False
      then have "gapDown m x" using assms(1) that Cons by (auto simp: mergedOk_def)
      then show ?thesis using s m by (auto simp: gapDown_def)
    qed (use True m in \<open>auto simp: gapDown_def\<close>)
    then show ?thesis using assms(1,2) unfolding merged by (auto simp: mergedOk_def covers'_def)
  next
    case False
    then have merged: "mergeRange ms r = (s, maxEnd e (snd r)) # earlier"
      using Cons m by (auto simp: mergeRange_def split: option.splits)
    have "validEnd (s, maxEnd e (snd r))"
      using assms(1,2) Cons m s by (auto simp: mergedOk_def validEnd_def maxEnd_def)
    moreover have "sorted_wrt gapDown ((s, maxEnd e (snd r)) # earlier)"
      using assms(1) Cons m by (auto simp: mergedOk_def gapDown_def)
    moreover have "s \<le> n \<and> endLe (Some n) (maxEnd e (snd r))
      \<longleftrightarrow> s \<le> n \<and> endLe (Some n) e \<or> fst r \<le> n \<and> endLe (Some n) (snd r)"
      using False s by (cases e; cases "snd r") (auto simp: maxEnd_def)
    ultimately show ?thesis
      using assms(1) s Cons m unfolding merged by (auto simp: mergedOk_def covers'_def)
  qed
qed

interpretation rangeOrder: comparison rangeBefore
proof
  have total: "endLe a b \<or> endLe b a" for a b by (cases a; cases b) auto
  have trans: "endLe a b \<Longrightarrow> endLe b c \<Longrightarrow> endLe a c" for a b c by (cases a; cases b; cases c) auto
  show "rangeBefore x y \<or> rangeBefore y x" for x y
    using total [of "snd x" "snd y"] by (auto simp: rangeBefore_def simp del: endLe_simps)
  show "rangeBefore x y \<Longrightarrow> rangeBefore y z \<Longrightarrow> rangeBefore x z" for x y z
    using trans [of "snd x" "snd y" "snd z"] by (auto simp: rangeBefore_def simp del: endLe_simps)
qed

lemma mergeAll:
  assumes "mergedOk ms" "\<forall>x \<in> set xs. validEnd x" "sorted_wrt rangeBefore xs"
    "\<forall>x \<in> set xs. ms \<noteq> [] \<longrightarrow> fst (hd ms) \<le> fst x"
  shows "mergedOk (foldl mergeRange ms xs)
    \<and> (\<forall>n. covers' (foldl mergeRange ms xs) n \<longleftrightarrow> covers' ms n \<or> covers' xs n)"
  using assms
proof (induction xs arbitrary: ms)
  case Nil
  then show ?case by (simp add: covers'_def)
next
  case (Cons x xs)
  have "validEnd x" "ms \<noteq> [] \<Longrightarrow> fst (hd ms) \<le> fst x" using Cons.prems by auto
  note step = mergeRange_ok [OF Cons.prems(1) this]
  have "\<forall>y \<in> set xs. fst x \<le> fst y" using Cons.prems(3) by (auto simp: rangeBefore_def)
  then have "\<forall>y \<in> set xs. mergeRange ms x \<noteq> [] \<longrightarrow> fst (hd (mergeRange ms x)) \<le> fst y"
    using step by (meson order_trans)
  moreover have "covers' (x # xs) n \<longleftrightarrow> covers' [x] n \<or> covers' xs n" for n by (auto simp: covers'_def)
  ultimately show ?case using Cons.IH [of "mergeRange ms x"] step Cons.prems(2,3) by auto
qed

lemma endOf_valid: "validRange r \<Longrightarrow> validEnd (fst r, endOf (snd r))"
  by (auto simp: validRange_def validEnd_def endOf_def)

lemma stored_valid:
  assumes "validEnd x"
  shows "validRange (fst x, storedEnd (snd x))" "endOf (storedEnd (snd x)) = snd x"
  using assms by (auto simp: validRange_def validEnd_def storedEnd_def endOf_def safeInt_def MAX_SAFE_INTEGER_def
      split: option.splits)

lemma normalizeRanges_ok:
  assumes "\<forall>r \<in> set rs. validRange r"
  shows "accepted (normalizeRanges rs)" "covered (normalizeRanges rs) n \<longleftrightarrow> covered rs n"
proof -
  let ?xs = "map (\<lambda>(s, e). (s, endOf e)) rs"
  let ?sorted = "sortBy rangeBefore ?xs"
  define ms where "ms = foldl mergeRange [] ?sorted"
  have "\<forall>x \<in> set ?sorted. validEnd x" using assms endOf_valid by fastforce
  then have m: "mergedOk ms" "\<And>n. covers' ms n \<longleftrightarrow> covers' ?sorted n"
    using mergeAll [of "[]" ?sorted] rangeOrder.sorted_sortBy [of ?xs]
    by (auto simp: mergedOk_def covers'_def ms_def)
  have out: "normalizeRanges rs = map (\<lambda>x. (fst x, storedEnd (snd x))) (rev ms)"
    by (cases "rs = []") (simp_all add: normalizeRanges_def ms_def OPEN_def sortBy_def case_prod_beta)
  have "sorted_wrt (\<lambda>x y. gapDown y x) (rev ms)" "\<forall>x \<in> set ms. validEnd x"
    using m(1) by (auto simp: mergedOk_def sorted_wrt_rev)
  then have "sorted_wrt (\<lambda>x y. gap (fst x, storedEnd (snd x)) (fst y, storedEnd (snd y))) (rev ms)"
    by (elim sorted_wrt_mono_rel [rotated])
      (auto simp: gapDown_def gap_def storedEnd_def validEnd_def)
  then show "accepted (normalizeRanges rs)"
    using \<open>\<forall>x \<in> set ms. validEnd x\<close> stored_valid(1) by (auto simp: out accepted_def sorted_wrt_map)
  have "covered (normalizeRanges rs) n \<longleftrightarrow> covers' ms n"
    using \<open>\<forall>x \<in> set ms. validEnd x\<close> stored_valid(2)
    by (force simp: out covered_def inRange_def covers'_def simp del: endLe_simps)
  also have "\<dots> \<longleftrightarrow> covered rs n"
    unfolding m(2) by (force simp: covered_def inRange_def covers'_def simp del: endLe_simps)
  finally show "covered (normalizeRanges rs) n \<longleftrightarrow> covered rs n" .
qed

lemma sorted_wrt_cases:
  "sorted_wrt R xs \<Longrightarrow> x \<in> set xs \<Longrightarrow> y \<in> set xs \<Longrightarrow> x = y \<or> R x y \<or> R y x"
  by (induction xs) auto

text \<open>One range covers a stretch of lines as soon as the ranges together do.\<close>

lemma coversLines_iff:
  assumes "accepted rs" "a \<le> b"
  shows "coversLines rs a b \<longleftrightarrow> (\<forall>n. a \<le> n \<and> n \<le> b \<longrightarrow> covered rs n)"
proof
  assume "coversLines rs a b"
  then obtain r where r: "r \<in> set rs" "fst r \<le> a" "endLe (Some b) (endOf (snd r))"
    by (auto simp: coversLines_def list_ex_iff simp del: endLe_simps)
  then show "\<forall>n. a \<le> n \<and> n \<le> b \<longrightarrow> covered rs n"
    unfolding covered_def inRange_def by (auto intro!: bexI [of _ r] split: option.splits)
next
  assume all: "\<forall>n. a \<le> n \<and> n \<le> b \<longrightarrow> covered rs n"
  then obtain r where r: "r \<in> set rs" "inRange r a" using assms(2) by (auto simp: covered_def)
  have v: "\<And>q. q \<in> set rs \<Longrightarrow> validRange q" using assms(1) by (simp add: accepted_def)
  have "snd r = -1 \<or> b \<le> snd r"
  proof (rule ccontr)
    assume n: "\<not> (snd r = -1 \<or> b \<le> snd r)"
    have a: "a \<le> snd r" using r v [OF r(1)] n by (auto simp: inRange_valid)
    then have "covered rs (snd r + 1)" using all [rule_format, of "snd r + 1"] n by simp
    then obtain q where q: "q \<in> set rs" "inRange q (snd r + 1)" by (auto simp: covered_def)
    have e: "q = r \<or> gap q r \<or> gap r q"
      using sorted_wrt_cases [of gap rs q r] assms(1) q(1) r(1) by (auto simp: accepted_def)
    have "fst q \<le> snd r + 1" "snd q = -1 \<or> snd r + 1 \<le> snd q"
      using q(2) inRange_valid [OF v [OF q(1)]] by simp_all
    moreover have "fst r \<le> snd r" using r(2) inRange_valid [OF v [OF r(1)]] a by simp
    ultimately show False using e n a by (elim disjE) (simp_all add: gap_def)
  qed
  then show "coversLines rs a b"
    using r v [OF r(1)] by (auto simp: coversLines_def list_ex_iff inRange_valid endOf_def intro!: bexI [of _ r])
qed

lemma clipRange_valid:
  assumes "validRange r" "safeInt m" "0 \<le> m"
  shows "\<forall>q \<in> set (clipRange m r). validRange q"
    "1 \<le> n \<Longrightarrow> n \<le> m \<Longrightarrow> covered (clipRange m r) n \<longleftrightarrow> inRange r n"
  using assms by (cases r; auto simp: clipRange_def validRange_def inRange_def endOf_def Let_def min_def)+

lemma covered_concat: "covered (concat (map f rs)) n \<longleftrightarrow> (\<exists>r \<in> set rs. covered (f r) n)"
  by (induction rs) auto

lemma clipped_Inr:
  assumes "accepted rs" "safeInt m" "0 \<le> m"
  obtains cs where "clipped rs m = Inr cs" "accepted cs"
    "\<And>n. 1 \<le> n \<Longrightarrow> n \<le> m \<Longrightarrow> covered cs n \<longleftrightarrow> covered rs n"
proof (cases "m = 0")
  case True
  then show thesis using that [of OPEN] assms by (simp add: clipped_def accepted_def OPEN_def)
next
  case False
  let ?cs = "concat (map (clipRange m) rs)"
  have v: "\<forall>r \<in> set ?cs. validRange r" using assms clipRange_valid(1) by (fastforce simp: accepted_def)
  have "clipped rs m = Inr (normalizeRanges ?cs)"
    using assms False parseRanges_Inr [of rs rs] by (simp add: clipped_def)
  moreover have "covered ?cs n \<longleftrightarrow> covered rs n" if "1 \<le> n" "n \<le> m" for n
    using assms that clipRange_valid(2) unfolding covered_concat by (auto simp: covered_def accepted_def)
  ultimately show thesis using that normalizeRanges_ok [OF v] by blast
qed

lemma visibleFrom_filter:
  "accepted rs \<Longrightarrow> visibleFrom rs line k = filter (\<lambda>n. \<not> covered rs n) [line..line + int k - 1]"
proof (induction k arbitrary: rs line)
  case (Suc k)
  let ?P = "\<lambda>r. \<not> endLe (Some line) (endOf (snd r))"
  define h where "h = dropWhile ?P rs"
  have acc: "accepted h" unfolding h_def
    using Suc.prems by (induction rs) (auto simp: accepted_Cons)
  have cov: "covered rs n \<longleftrightarrow> covered h n" if "line \<le> n" for n
    unfolding h_def using that by (induction rs) (auto simp: inRange_def split: option.splits)
  have head: "covered h line \<longleftrightarrow> \<not> (h = [] \<or> line < fst (hd h))"
  proof (cases h)
    case (Cons r t)
    then have "endLe (Some line) (endOf (snd r))" unfolding h_def by (metis hd_dropWhile list.distinct(1) list.sel(1))
    moreover have "\<not> covered t line" if "line < fst r"
    proof
      assume "covered t line"
      then have "snd r \<noteq> -1 \<and> snd r + 1 < line" using covered_after acc Cons by blast
      then show False using that acc Cons by (auto simp: accepted_Cons validRange_def)
    qed
    ultimately show ?thesis using Cons by (auto simp: inRange_def simp del: endLe_simps)
  qed simp
  have "[line..line + int (Suc k) - 1] = line # [line + 1..line + 1 + int k - 1]"
    by (subst upto_rec1) (simp_all add: algebra_simps)
  moreover have "filter (\<lambda>n. \<not> covered rs n) [line + 1..line + 1 + int k - 1]
      = filter (\<lambda>n. \<not> covered h n) [line + 1..line + 1 + int k - 1]"
    by (rule filter_cong [OF refl]) (use cov in auto)
  ultimately show ?case
    using Suc.IH [OF acc, of "line + 1"] head cov [of line]
    by (simp add: Let_def h_def [symmetric] algebra_simps del: endLe_simps)
qed simp

lemma visible_ordinals:
  assumes "accepted rs" "safeInt m" "0 \<le> m"
  shows "visibleLineOrdinals rs m = Inr (filter (\<lambda>n. \<not> covered rs n) [1..m])"
proof -
  obtain cs where cs: "clipped rs m = Inr cs" "accepted cs"
    "\<And>n. 1 \<le> n \<Longrightarrow> n \<le> m \<Longrightarrow> covered cs n \<longleftrightarrow> covered rs n" using clipped_Inr [OF assms] by blast
  have "visibleFrom cs 1 (nat m) = filter (\<lambda>n. \<not> covered rs n) [1..m]"
    unfolding visibleFrom_filter [OF cs(2)] by (rule filter_cong) (use assms(3) cs(3) in auto)
  then show ?thesis using cs(1) by (simp add: visibleLineOrdinals_def)
qed

lemma fully_folded:
  assumes "accepted rs" "safeInt m" "0 \<le> m"
  shows "fullyFolded rs m = Inr (0 < m \<and> (\<forall>n. 1 \<le> n \<and> n \<le> m \<longrightarrow> covered rs n))"
proof -
  obtain cs where cs: "clipped rs m = Inr cs" "accepted cs"
    "\<And>n. 1 \<le> n \<Longrightarrow> n \<le> m \<Longrightarrow> covered cs n \<longleftrightarrow> covered rs n" using clipped_Inr [OF assms] by blast
  then show ?thesis using coversLines_iff [OF cs(2), of 1 m] by (auto simp: fullyFolded_def)
qed

lemma applyFold_ok:
  assumes "accepted rs" "\<And>r. trimmed = Some r \<Longrightarrow> validRange r" "0 \<le> m"
  obtains after where "applyFold rs trimmed m = Inr after" "accepted after"
    "\<And>n. covered rs n \<Longrightarrow> covered after n"
    "\<And>n. 1 \<le> n \<Longrightarrow> n \<le> m \<Longrightarrow> covered after n \<longleftrightarrow> covered rs n \<or> (\<exists>r. trimmed = Some r \<and> inRange r n)"
proof (cases "trimmed = None \<or> m = 0")
  case True
  then show thesis using that [of rs] assms parseRanges_Inr [of rs rs] by (auto simp: applyFold_def split: option.splits)
next
  case False
  then obtain r where r: "trimmed = Some r" by auto
  define u where "u = unionRanges rs [r]"
  have v: "\<forall>q \<in> set (rs @ [r]). validRange q" using assms r by (auto simp: accepted_def)
  have u: "accepted u" "\<And>n. covered u n \<longleftrightarrow> covered rs n \<or> inRange r n"
    using normalizeRanges_ok [OF v] by (auto simp: u_def unionRanges_def)
  have full: "accepted FOLDED" "\<And>n. covered FOLDED n \<longleftrightarrow> 1 \<le> n"
    by (auto simp: FOLDED_def accepted_def validRange_def safeInt_def MAX_SAFE_INTEGER_def inRange_def endOf_def)
  have positive: "1 \<le> n" if "covered rs n" for n
    using that assms(1) by (auto simp: covered_def accepted_def inRange_def validRange_def simp del: endLe_simps)
  have out: "applyFold rs trimmed m = Inr (if coversLines u 1 m then FOLDED else u)"
    using False r assms(1) parseRanges_Inr [of rs rs] by (simp add: applyFold_def u_def Let_def)
  show thesis
  proof (cases "coversLines u 1 m")
    case True
    then have "\<And>n. 1 \<le> n \<Longrightarrow> n \<le> m \<Longrightarrow> covered u n" using coversLines_iff [OF u(1), of 1 m] False assms(3) by simp
    then show thesis using that [of FOLDED] out True full positive u(2) r by auto
  next
    case F: False
    then show thesis using that [of u] out u r by auto
  qed
qed

section \<open>What a resolved scope names\<close>

lemma wholeOf_safe: "isSafeInteger m \<Longrightarrow> safeInt (wholeOf m)"
  by (cases m) auto

lemma numericScope_valid:
  assumes "numericScope count marks = ScopeOk (Some r)" "safeInt count"
  shows "validRange r \<and> fst r \<le> count"
proof -
  have safe: "list_all isSafeInteger marks" using assms(1) by (auto simp: numericScope_def split: if_splits)
  consider "marks = []" | (one) m where "marks = [m]" | (two) a b ms where "marks = a # b # ms" by (metis list.exhaust)
  then show ?thesis
  proof cases
    case one
    then show ?thesis using assms safe wholeOf_safe by (auto simp: numericScope_def validRange_def split: if_splits)
  next
    case two
    have "safeInt (- 1)" by (simp add: safeInt_def MAX_SAFE_INTEGER_def)
    then show ?thesis using two assms safe wholeOf_safe
      by (auto simp: numericScope_def validRange_def Let_def min_def split: if_splits)
  qed (use assms in \<open>simp add: numericScope_def\<close>)
qed

lemma resolveLines_Inl: "resolveLines anchorSets ms = Inl r \<Longrightarrow> r = ScopeOk None \<or> (\<exists>st why. r = ScopeRefused st why)"
  by (induction anchorSets ms rule: resolveLines.induct) (auto simp: andThen_def split: if_splits list.splits sum.splits)

lemma resolveScope_valid:
  assumes "resolveScope digest contextLines marker identity content published = Inr (ScopeOk (Some r))"
    "safeInt (int (lineCount content))"
  shows "validRange r"
proof -
  have "validRange (1, -1)" by (simp add: validRange_def safeInt_def MAX_SAFE_INTEGER_def)
  then show ?thesis using assms resolveLines_Inl
    by (auto simp: resolveScope_def Let_def andThen_Inr_iff split: option.splits if_splits sum.splits
        dest!: numericScope_valid)
qed

lemma combine_Inr: "combine a b = Inr c \<longleftrightarrow> accepted a \<and> accepted b \<and> c = normalizeRanges (a @ b)"
  by (auto simp: combine_def andThen_Inr_iff parseRanges_Inr)

lemma sameRanges_Inr: "accepted a \<Longrightarrow> accepted b \<Longrightarrow> sameRanges a b = Inr (a = b)"
  using parseRanges_Inr [of a a] parseRanges_Inr [of b b] by (simp add: sameRanges_def)

section \<open>Properties\<close>

text \<open>Stored ranges are canonical: of two values that \<open>parse\<close> accepts, \<open>equal\<close> says yes exactly when
they hide the same lines, and \<open>combine\<close> gives a value \<open>parse\<close> accepts again that hides the lines either hides.\<close>

lemma folds_are_sets:
  assumes "parseRanges a = Inr a'" "parseRanges b = Inr b'"
  shows "sameRanges a b = Inr (\<forall>n. covered a n = covered b n)
    \<and> (\<exists>c. combine a b = Inr c \<and> parseRanges c = Inr c
         \<and> (\<forall>n. covered c n \<longleftrightarrow> covered a n \<or> covered b n))"
proof -
  have ok: "accepted a" "accepted b" using assms by (auto simp: parseRanges_Inr)
  have "\<forall>r \<in> set (a @ b). validRange r" using ok by (auto simp: accepted_def)
  note merged = normalizeRanges_ok [OF this]
  have "sameRanges a b = Inr (\<forall>n. covered a n = covered b n)"
  proof -
    have "a = b \<longleftrightarrow> (\<forall>n. covered a n = covered b n)" using accepted_unique [OF ok] by blast
    then show ?thesis using sameRanges_Inr [OF ok] by simp
  qed
  moreover have "combine a b = Inr (normalizeRanges (a @ b))" using ok by (simp add: combine_Inr)
  moreover have "parseRanges (normalizeRanges (a @ b)) = Inr (normalizeRanges (a @ b))"
    using merged(1) by (simp add: parseRanges_Inr)
  ultimately show ?thesis using merged(2) by auto
qed

lemma folds_are_sets_witness:
  "sameRanges [(2, 3)] [(4, -1)] = Inr (\<forall>n. covered [(2, 3)] n = covered [(4, -1)] n)
    \<and> combine [(2, 3)] [(4, -1)] = Inr [(2, -1)]"
proof -
  have "parseRanges [(2, 3)] = Inr [(2, 3)]" "parseRanges [(4, -1)] = Inr [(4, -1)]" by code_simp+
  moreover have "combine [(2, 3)] [(4, -1)] = Inr [(2, -1)]" by code_simp
  ultimately show ?thesis using folds_are_sets [of "[(2, 3)]" _ "[(4, -1)]"] by blast
qed

text \<open>C23. Curation hides what its scope names and nothing else: once a KILL's scope has resolved against a body,
\<open>apply\<close> succeeds with ranges that can be stored, every line hidden before stays hidden, the lines
\<open>visibleLineOrdinals\<close> lists afterwards are the ones it listed before without those in the scope, in order,
and \<open>fullyFolded\<close> holds exactly when a body with lines shows none of them.\<close>

theorem curation_hides_exactly:
  assumes "parseRanges folded = Inr stored"
    and "resolveScope digest contextLines marker identity content published = Inr (ScopeOk scope)"
    and "m = int (lineCount content)" "safeInt m"
  shows "\<exists>after before. applyFold folded scope m = Inr after \<and> parseRanges after = Inr after
    \<and> (\<forall>n. covered folded n \<longrightarrow> covered after n)
    \<and> visibleLineOrdinals folded m = Inr before
    \<and> visibleLineOrdinals after m = Inr (filter (\<lambda>n. \<not> (\<exists>r. scope = Some r \<and> inRange r n)) before)
    \<and> fullyFolded after m = Inr (0 < m \<and> visibleLineOrdinals after m = Inr [])"
proof -
  have ok: "accepted folded" using assms(1) by (simp add: parseRanges_Inr)
  have m: "0 \<le> m" using assms(3) by simp
  have valid: "\<And>r. scope = Some r \<Longrightarrow> validRange r" using resolveScope_valid assms(2,3,4) by blast
  obtain after where after: "applyFold folded scope m = Inr after" "accepted after"
    "\<forall>n. covered folded n \<longrightarrow> covered after n"
    "\<forall>n. 1 \<le> n \<and> n \<le> m \<longrightarrow> covered after n = (covered folded n \<or> (\<exists>r. scope = Some r \<and> inRange r n))"
  proof (rule applyFold_ok [OF ok valid m])
    fix after
    assume "applyFold folded scope m = Inr after" "accepted after"
      "\<And>n. covered folded n \<Longrightarrow> covered after n"
      "\<And>n. 1 \<le> n \<Longrightarrow> n \<le> m \<Longrightarrow> covered after n \<longleftrightarrow> covered folded n \<or> (\<exists>r. scope = Some r \<and> inRange r n)"
    then show thesis by (intro that [of after]) simp_all
  qed
  define before where "before = filter (\<lambda>n. \<not> covered folded n) [1..m]"
  define left where "left = filter (\<lambda>n. \<not> covered after n) [1..m]"
  have "left = filter (\<lambda>n. \<not> (\<exists>r. scope = Some r \<and> inRange r n)) before"
    unfolding left_def before_def filter_filter by (rule filter_cong) (use after(4) in auto)
  moreover have "(\<forall>n. 1 \<le> n \<and> n \<le> m \<longrightarrow> covered after n) \<longleftrightarrow> left = []"
    by (auto simp: left_def filter_empty_conv)
  then have "fullyFolded after m = Inr (0 < m \<and> left = [])" using fully_folded [OF after(2) assms(4) m] by simp
  moreover have "visibleLineOrdinals folded m = Inr before" "visibleLineOrdinals after m = Inr left"
    using visible_ordinals [OF ok assms(4) m] visible_ordinals [OF after(2) assms(4) m]
    by (simp_all add: before_def left_def)
  moreover have "parseRanges after = Inr after" using after(2) by (simp add: parseRanges_Inr)
  moreover note after(1,3)
  ultimately show ?thesis by simp
qed

lemma curation_hides_exactly_witness:
  "\<exists>after before. applyFold [(1, 1)] (Some (3, 3)) 3 = Inr after \<and> parseRanges after = Inr after
    \<and> (\<forall>n. covered [(1, 1)] n \<longrightarrow> covered after n)
    \<and> visibleLineOrdinals [(1, 1)] 3 = Inr before
    \<and> visibleLineOrdinals after 3 = Inr (filter (\<lambda>n. \<not> (\<exists>r. Some (3, 3) = Some r \<and> inRange r n)) before)
    \<and> fullyFolded after 3 = Inr (0 < (3::int) \<and> visibleLineOrdinals after 3 = Inr [])"
proof (rule curation_hides_exactly)
  show "parseRanges [(1, 1)] = Inr [(1, 1)]" by code_simp
  show "resolveScope (\<lambda>_. []) 2 (Some [NumberMark (Whole 3)]) [] [97, 10, 98, 10, 99] []
      = Inr (ScopeOk (Some (3, 3)))" by code_simp
  show "3 = int (lineCount [97, 10, 98, 10, 99])" by code_simp
  show "safeInt 3" by code_simp
qed

end
