(* ===== verification/PacketBody.thy ===== *)
theory PacketBody
  imports LogVisibility ReadResolve EditSequence
begin

text \<open>
  \<^verbatim>\<open>plurnk-core/src/core/packet-body-format.ts\<close>: the body of a log row as a packet shows it. Folding leaves some of a body's
  lines, each is printed behind its own line number (or number and anchor), a body nobody asked for exactly is cut to its
  first page, and a page states what it shows of what.

  The model takes the folded ranges as the pairs \<open>LogVisibility.parse\<close> has made of the stored values. \<open>rowBody\<close>, which picks
  the pieces by the operation and the facts of the row, and the test of who received a body are not part of it.
\<close>

datatype BodyError =
    FoldsRefused FoldError
  | OrdinalsMismatched
  | OrdinalOutsideSource
  | SourceWidthInvalid
  | NoAnchorForLine int
  | AnchoredRendering AnchorError
  | UnframedLine "jsstr option"
  | ChunkIsWhole
  | ChunkUnaddressable

record VisibleLogBody =
  visContent :: jsstr
  visOrdinals :: "int list"
  readableContent :: jsstr
  readableOrdinals :: "int list"
  visFolded :: "LogFoldRange list"
  visTrimmed :: "LogFoldRange list"
  visTotalLines :: nat
  visFullyFolded :: bool

definition foldStep :: "FoldError + 'a \<Rightarrow> BodyError + 'a" where
  "foldStep r = (case r of Inl err \<Rightarrow> Inl (FoldsRefused err) | Inr x \<Rightarrow> Inr x)"

definition selectLines :: "jsstr \<Rightarrow> int list \<Rightarrow> jsstr" where
  "selectLines content selected =
     concat (map (\<lambda>ordinal. let l = logicalLines content ! nat (ordinal - 1) in jsSlice content (lineStart l) (lineEnd l)) selected)"

definition visibleBody :: "LogFoldRange list \<Rightarrow> LogFoldRange list \<Rightarrow> jsstr \<Rightarrow> BodyError + VisibleLogBody" where
  "visibleBody initialFolded entryFolded content =
     andThen (foldStep (parseRanges entryFolded)) (\<lambda>trimmed.
     andThen (foldStep (parseRanges initialFolded)) (\<lambda>initial.
     andThen (foldStep (combine initial trimmed)) (\<lambda>folded.
       let totalLines = lineCount content in
       andThen (foldStep (clipped folded (int totalLines))) (\<lambda>hidden.
       andThen (foldStep (visibleLineOrdinals hidden (int totalLines))) (\<lambda>ordinals.
       andThen (foldStep (visibleLineOrdinals trimmed (int totalLines))) (\<lambda>readable.
       andThen (foldStep (clipped trimmed (int totalLines))) (\<lambda>clippedTrim.
       andThen (foldStep (fullyFolded hidden (int totalLines))) (\<lambda>whole'.
         Inr \<lparr>visContent = selectLines content ordinals, visOrdinals = ordinals,
              readableContent = selectLines content readable, readableOrdinals = readable,
              visFolded = hidden, visTrimmed = clippedTrim, visTotalLines = totalLines,
              visFullyFolded = whole'\<rparr>))))))))"

section \<open>Numbering lines\<close>

definition numberPrefix :: "nat \<Rightarrow> int \<Rightarrow> jsstr" where
  "numberPrefix width n = padStart (intNumeral n) width @ [COLON]"

text \<open>The separators \<open>/(\r\n|\r(?!\n)|\n)(?=[\s\S])/g\<close>, the ones with something after them.\<close>

fun innerBreaks :: "jsstr \<Rightarrow> nat" where
  "innerBreaks [] = 0"
| "innerBreaks [c] = 0"
| "innerBreaks (c # d # cs) =
     (if c = CR \<and> d = LF then (if cs = [] then 0 else Suc (innerBreaks cs))
      else if isNewline c then Suc (innerBreaks (d # cs))
      else innerBreaks (d # cs))"

text \<open>Each such separator followed by the next prefix; \<open>line\<close> is the number that is due.\<close>

fun prefixed :: "nat \<Rightarrow> int \<Rightarrow> jsstr \<Rightarrow> jsstr" where
  "prefixed width line [] = []"
| "prefixed width line [c] = [c]"
| "prefixed width line (c # d # cs) =
     (if c = CR \<and> d = LF
      then c # d # (if cs = [] then [] else numberPrefix width line @ prefixed width (line + 1) cs)
      else if isNewline c then c # numberPrefix width line @ prefixed width (line + 1) (d # cs)
      else c # prefixed width line (d # cs))"

definition numberLines :: "jsstr \<Rightarrow> int \<Rightarrow> nat \<Rightarrow> jsstr" where
  "numberLines body start width =
     (let width' = (if width = 0 then length (intNumeral (start + int (innerBreaks body))) else width)
      in numberPrefix width' start @ prefixed width' (start + 1) body)"

definition numberSelectedLines ::
    "jsstr \<Rightarrow> int list \<Rightarrow> int \<Rightarrow> jsstr list option \<Rightarrow> int option \<Rightarrow> nat \<Rightarrow> int list option \<Rightarrow> BodyError + jsstr" where
  "numberSelectedLines body ordinals start lineAnchors anchorWidth numericWidth sourceNumbers =
     (let lns = logicalLines body in
      if length lns \<noteq> length ordinals then Inl OrdinalsMismatched
      else if (case sourceNumbers of None \<Rightarrow> False
               | Some ns \<Rightarrow> list_ex (\<lambda>ordinal. ordinal < 1 \<or> int (length ns) < ordinal) ordinals)
      then Inl OrdinalOutsideSource
      else
        let displayed = map (\<lambda>ordinal. case sourceNumbers of
                  None \<Rightarrow> start + ordinal - 1 | Some ns \<Rightarrow> ns ! nat (ordinal - 1)) ordinals;
            width = (case lineAnchors of
                  None \<Rightarrow> if 0 < numericWidth then int numericWidth
                          else int (length (intNumeral (foldr max displayed (hd displayed))))
                | Some anchors \<Rightarrow> (case anchorWidth of None \<Rightarrow> 0 | Some w \<Rightarrow> w))
        in if lineAnchors \<noteq> None \<and> \<not> isLineNumberWidth width then Inl SourceWidthInvalid
           else andThen (mapResult (\<lambda>index.
             let l = lns ! index; text' = lineBody body l in
             case lineAnchors of
               None \<Rightarrow> Inr (numberPrefix (nat width) (displayed ! index) @ text' @ separator l)
             | Some anchors \<Rightarrow>
                 (case atLine anchors (ordinals ! index) of
                    None \<Rightarrow> Inl (NoAnchorForLine (ordinals ! index))
                  | Some anchor \<Rightarrow>
                      if isAnchor anchor
                      then Inr (padStart (intNumeral (displayed ! index)) (nat width) @ [LESS] @ anchor @ [GREATER]
                                @ text' @ separator l)
                      else Inl (NoAnchorForLine (ordinals ! index)))) [0..<length lns])
           (\<lambda>prs. Inr (concat prs)))"

section \<open>The frame\<close>

text \<open>\<open>/^ *[1-9]\d*:/\<close>\<close>

definition isNumberedLine :: "jsstr \<Rightarrow> bool" where
  "isNumberedLine s \<longleftrightarrow>
     (let r = dropWhile (\<lambda>c. c = SPACE) s
      in r \<noteq> [] \<and> 49 \<le> hd r \<and> hd r \<le> 57
         \<and> (case dropWhile isDigit (tl r) of [] \<Rightarrow> False | c # _ \<Rightarrow> c = COLON))"

definition frameBody :: "jsstr \<Rightarrow> BodyError + jsstr" where
  "frameBody body =
     (let contentLines = (if endsWithNewline body then butlast (splitTerminators body) else splitTerminators body);
          unframed = find (\<lambda>line. \<not> isNumberedLine line \<and> \<not> isAnchoredLine line) contentLines
      in if contentLines = [] \<or> unframed \<noteq> None then Inl (UnframedLine unframed)
         else Inr (if endsWithNewline body then stripFinalNewline body else body))"

definition renderContentBody ::
    "jsstr \<Rightarrow> int option \<Rightarrow> jsstr list option \<Rightarrow> int option \<Rightarrow> nat \<Rightarrow> int list option \<Rightarrow> int list option \<Rightarrow> BodyError + jsstr" where
  "renderContentBody content firstLine lineAnchors anchorWidth numericWidth lineOrdinals sourceNumbers =
     (if content = [] then Inr []
      else andThen (case firstLine of
          None \<Rightarrow> Inr content
        | Some start \<Rightarrow>
            (case lineOrdinals of
               Some ordinals \<Rightarrow> numberSelectedLines content ordinals start lineAnchors anchorWidth numericWidth sourceNumbers
             | None \<Rightarrow>
                 (case lineAnchors of
                    None \<Rightarrow> Inr (numberLines content start numericWidth)
                  | Some anchors \<Rightarrow>
                      (case render content start anchors (case anchorWidth of None \<Rightarrow> 0 | Some w \<Rightarrow> w) of
                         Inl err \<Rightarrow> Inl (AnchoredRendering err)
                       | Inr rendered \<Rightarrow> Inr rendered)))) frameBody)"

section \<open>The first page\<close>

record BodyPage =
  pageText :: jsstr
  pageCut :: bool
  pageChunk :: "jsstr option"

definition ofText :: jsstr where "ofText = js '' of ''"

definition chunk :: "jsstr \<Rightarrow> nat \<Rightarrow> BodyError + jsstr" where
  "chunk content end' =
     (let lns = logicalLines content in
      case findIndexFrom (\<lambda>l. separator l \<noteq> [] \<and> lineEnd l = end') 0 lns of
        Some i \<Rightarrow>
          if i + 1 = length lns then Inl ChunkIsWhole
          else Inr (formatLines 1 (int i + 1) @ ofText @ formatCount LineUnit (length lns))
      | None \<Rightarrow>
          (case (regionFromOffsets content 0 (int end'), regionFromOffsets content 0 (int (length content))) of
             (Some selected, Some entire) \<Rightarrow>
               if formatRegion selected = formatRegion entire then Inl ChunkIsWhole
               else Inr (formatRegion selected @ ofText @ formatRegion entire)
           | _ \<Rightarrow> Inl ChunkUnaddressable))"

definition bodyPage :: "nat \<Rightarrow> nat \<Rightarrow> jsstr \<Rightarrow> BodyError + BodyPage" where
  "bodyPage maxLines maxChars content =
     (case select maxLines maxChars content of
        None \<Rightarrow> Inl ChunkUnaddressable
      | Some preview \<Rightarrow>
          let cut' = previewEnd preview < length content in
          if cut' then andThen (chunk content (previewEnd preview)) (\<lambda>c.
                         Inr \<lparr>pageText = take (previewEnd preview) content, pageCut = True, pageChunk = Some c\<rparr>)
          else Inr \<lparr>pageText = take (previewEnd preview) content, pageCut = False, pageChunk = None\<rparr>)"

text \<open>The runs of consecutive ordinals, and the chunk of a page of a folded body.\<close>

fun runsFrom :: "(int \<times> int) list \<Rightarrow> int list \<Rightarrow> (int \<times> int) list" where
  "runsFrom runs [] = rev runs"
| "runsFrom [] (o' # os) = runsFrom [(o', o')] os"
| "runsFrom ((s, e) # runs) (o' # os) =
     (if o' \<noteq> e + 1 then runsFrom ((o', o') # (s, e) # runs) os else runsFrom ((s, o') # runs) os)"

definition sparseChunk :: "jsstr \<Rightarrow> jsstr \<Rightarrow> int list \<Rightarrow> jsstr \<Rightarrow> BodyError + jsstr" where
  "sparseChunk completeContent visibleContent ordinals projected =
     (let end' = length projected; lns = logicalLines visibleContent in
      case findIndexFrom (\<lambda>l. separator l \<noteq> [] \<and> lineEnd l = end') 0 lns of
        Some i \<Rightarrow>
          Inr (joinWith [COMMA] (map (\<lambda>(start, finish). formatLines start finish) (runsFrom [] (take (i + 1) ordinals)))
               @ ofText @ formatCount LineUnit (length (logicalLines completeContent)))
      | None \<Rightarrow>
          (case (regionFromOffsets visibleContent 0 (int end'),
                 regionFromOffsets completeContent 0 (int (length completeContent))) of
             (Some local', Some entire) \<Rightarrow>
               (case (atLine ordinals (int (startLine local')), atLine ordinals (int (endLine local'))) of
                  (Some s, Some e) \<Rightarrow>
                    Inr (formatInts [s, int (startColumn local'), e, int (endColumn local')] @ ofText @ formatRegion entire)
                | _ \<Rightarrow> Inl ChunkUnaddressable)
           | _ \<Rightarrow> Inl ChunkUnaddressable))"


section \<open>Lines of a text without carriage returns\<close>

lemma logicalLines_LF:
  assumes "CR \<notin> set s"
  shows "length (logicalLines s) = length (bodiesLF s) - (if last (bodiesLF s) = [] then 1 else 0)"
    "i < length (logicalLines s) \<Longrightarrow> lineBody s (logicalLines s ! i) = bodiesLF s ! i"
    "i < length (logicalLines s) \<Longrightarrow> separator (logicalLines s ! i) = (if Suc i = length (bodiesLF s) then [] else [LF])"
proof -
  from assms obtain ls b where b: "bodiesLF s = ls @ [b]" "s = unlinesLF ls @ b" by (rule bodiesLF_split)
  have last: "lineStart (last (scanLines s)) = length (unlinesLF ls)"
    using scanLines_LF(1) [OF assms] scanLines_LF(2) [OF assms, of "length ls"] b(1) scanLines_nonempty [of s]
    by (simp add: last_conv_nth)
  have "s = [] \<longleftrightarrow> ls = [] \<and> b = []" using b(2) by (cases ls) auto
  then show "length (logicalLines s) = length (bodiesLF s) - (if last (bodiesLF s) = [] then 1 else 0)"
    using last b scanLines_LF(1) [OF assms] by (auto simp: logicalLines_def Let_def)
  assume i: "i < length (logicalLines s)"
  note n = logicalLines_nth [OF i]
  then have "i < length (bodiesLF s)" using scanLines_LF(1) [OF assms] by simp
  then show "lineBody s (logicalLines s ! i) = bodiesLF s ! i"
    "separator (logicalLines s ! i) = (if Suc i = length (bodiesLF s) then [] else [LF])"
    using scanLines_LF(3,4) [OF assms] n(2) by simp_all
qed

lemma bodiesOf_LF: "CR \<notin> set s \<Longrightarrow> i < lineCount s \<Longrightarrow> bodiesOf s ! i = bodiesLF s ! i"
  using logicalLines_LF(2) [of s i] by (simp add: bodiesOf_def lineCount_def)

text \<open>Rows of a text, each behind a prefix, put together.\<close>

lemma joined_rows:
  "prs \<noteq> [] \<Longrightarrow> concat (map (\<lambda>i. prs ! i @ (if Suc i = length prs \<and> open' then [] else [LF])) [0..<length prs])
     = joinWith [LF] prs @ (if open' then [] else [LF])"
proof (induction prs rule: rev_nonempty_induct)
  case (snoc r prs)
  have "concat (map (\<lambda>i. (prs @ [r]) ! i @ (if Suc i = length (prs @ [r]) \<and> open' then [] else [LF])) [0..<length prs])
      = unlinesLF prs"
  proof -
    have "map (\<lambda>i. (prs @ [r]) ! i @ (if Suc i = length (prs @ [r]) \<and> open' then [] else [LF])) [0..<length prs]
        = map (\<lambda>l. l @ [LF]) prs"
      by (rule nth_equalityI) (auto simp: nth_append)
    then show ?thesis by (simp only: unlinesLF_def)
  qed
  then show ?case by (simp add: joinWith_snoc)
qed simp

section \<open>Frames\<close>

lemma positive_numeral:
  assumes "1 \<le> n"
  obtains c cs where "intNumeral n = c # cs" "c \<noteq> SPACE" "49 \<le> c" "c \<le> 57" "isDigit c" "\<forall>x \<in> set cs. isDigit x"
proof -
  obtain c cs where d: "decimal (nat n) = c # cs" by (cases "decimal (nat n)") auto
  have digits: "isDigit c" "\<forall>x \<in> set cs. isDigit x" using decimal_digits [of "nat n"] d by auto
  have "c \<noteq> SPACE" "49 \<le> c" "c \<le> 57"
    using digits(1) decimal_head [of "nat n"] d assms
    by (auto simp: isDigit_def SPACE_def word_le_nat_alt word_unat_eq_iff)
  with that d digits assms show thesis by (simp add: intNumeral_def)
qed

lemma numberPrefix_newlineFree: "1 \<le> n \<Longrightarrow> newlineFree (numberPrefix width n)"
  using decimal_digits [of "nat n"] isDigit_not_newline
  by (auto simp: numberPrefix_def intNumeral_def padStart_def newlineFree_def isNewline_def CR_def LF_def SPACE_def COLON_def)

lemma numberPrefix_numbered:
  assumes "1 \<le> n"
  shows "isNumberedLine (numberPrefix width n @ body)"
proof -
  obtain c cs where c: "intNumeral n = c # cs" "c \<noteq> SPACE" "49 \<le> c" "c \<le> 57" "isDigit c" "\<forall>x \<in> set cs. isDigit x"
    using positive_numeral [OF assms] .
  have "dropWhile (\<lambda>c. c = SPACE) (numberPrefix width n @ body) = c # cs @ COLON # body"
    using c(1,2) by (simp add: numberPrefix_def padStart_def dropWhile_append3)
  moreover have "dropWhile isDigit (cs @ COLON # body) = COLON # body"
    using c(6) by (simp add: COLON_def isDigit_def)
  ultimately show ?thesis using c(3,4) by (simp add: isNumberedLine_def)
qed

lemma frame_rows:
  assumes "prs \<noteq> []" "\<And>r. r \<in> set prs \<Longrightarrow> newlineFree r \<and> r \<noteq> [] \<and> (isNumberedLine r \<or> isAnchoredLine r)"
    "t = [] \<or> t = [LF]"
  shows "frameBody (joinWith [LF] prs @ t) = Inr (joinWith [LF] prs)"
proof -
  obtain ls b where prs: "prs = ls @ [b]" using assms(1) by (cases prs rule: rev_cases) auto
  have plain: "plainLines ls" "newlineFree b" "b \<noteq> []" using assms(2) prs by (auto simp: plainLines_def list_all_iff)
  have joined: "joinWith [LF] prs = unlinesLF ls @ b" by (simp add: prs joinWith_snoc)
  have b: "\<not> isNewline (last b)" using plain(2,3) by (simp add: newlineFree_def)
  have ends: "\<not> endsWithNewline (joinWith [LF] prs)" using joined plain(3) b by (simp add: endsWithNewline_def)
  have split: "splitTerminators (joinWith [LF] prs) = prs"
    unfolding joined using bodiesLF_unlines [OF plain(1,2)] prs by (simp add: bodiesLF_def)
  have "joinWith [LF] prs @ [LF] = unlinesLF prs" by (simp add: prs joinWith_snoc)
  then have split': "splitTerminators (joinWith [LF] prs @ [LF]) = prs @ [[]]"
    using splitTerminators_unlinesLF [of prs] plain prs by simp
  have framed: "find (\<lambda>line. \<not> isNumberedLine line \<and> \<not> isAnchoredLine line) prs = None"
    using assms(2) by (auto simp: find_None_iff)
  have strip: "stripFinalNewline (joinWith [LF] prs @ [LF]) = joinWith [LF] prs"
    using joined plain(3) b by (auto simp: stripFinalNewline_def endsWithNewline_def butlast_append)
  show ?thesis
  proof (cases "t = []")
    case True
    then show ?thesis using ends split framed assms(1) by (simp add: frameBody_def Let_def)
  next
    case False
    then have "t = [LF]" using assms(3) by blast
    moreover have "endsWithNewline (joinWith [LF] prs @ [LF])" by (simp add: endsWithNewline_def)
    ultimately show ?thesis using split' framed assms(1) strip by (simp add: frameBody_def Let_def)
  qed
qed

section \<open>The prs of a visible body\<close>

lemma nat_pred: "nat x - Suc 0 = nat (x - 1)"
  by arith

lemma selectLines_retain:
  assumes "sorted_wrt (<) ordinals" "\<forall>o' \<in> set ordinals. 1 \<le> o' \<and> o' \<le> int (lineCount content)"
  shows "map Suc (keptIndices content (map nat ordinals) 1) = map nat ordinals"
    "selectLines content ordinals = retContent (retain content (map nat ordinals) 1)"
proof -
  have "sorted_wrt (<) (map nat ordinals)"
    unfolding sorted_wrt_map by (rule sorted_wrt_mono_rel [OF _ assms(1)]) (use assms(2) in auto)
  then show K: "map Suc (keptIndices content (map nat ordinals) 1) = map nat ordinals"
    using assms(2) by (intro keptIndices_visible) auto
  have "retContent (retain content (map nat ordinals) 1)
      = concat (map (\<lambda>i. let l = logicalLines content ! i in jsSlice content (lineStart l) (lineEnd l))
          (keptIndices content (map nat ordinals) 1))"
    unfolding retain_def keptIndices_def Let_def zip_filter_map by (simp add: comp_def)
  also have "keptIndices content (map nat ordinals) 1 = map (\<lambda>o'. nat (o' - 1)) ordinals"
    using arg_cong [OF K, of "map (\<lambda>n. n - 1)"] by (simp add: comp_def nat_pred)
  finally show "selectLines content ordinals = retContent (retain content (map nat ordinals) 1)"
    by (simp add: selectLines_def comp_def)
qed

lemma selectLines_bodies:
  assumes "CR \<notin> set content" "sorted_wrt (<) ordinals" "\<forall>o' \<in> set ordinals. 1 \<le> o' \<and> o' \<le> int (lineCount content)"
    "ordinals \<noteq> []"
  defines "R \<equiv> selectLines content ordinals" and "bs \<equiv> bodiesLF content"
  shows "CR \<notin> set R" "length (logicalLines R) = length ordinals"
    "\<exists>open'. \<forall>i < length ordinals. lineBody R (logicalLines R ! i) = bs ! nat (ordinals ! i - 1)
       \<and> separator (logicalLines R ! i) = (if Suc i = length ordinals \<and> open' then [] else [LF])"
proof -
  note sel = selectLines_retain [OF assms(2,3)]
  define K where "K = keptIndices content (map nat ordinals) 1"
  have K: "K = map (\<lambda>o'. nat (o' - 1)) ordinals"
    using arg_cong [OF sel(1), of "map (\<lambda>n. n - 1)"] by (simp add: K_def comp_def nat_pred)
  note bodies = retain_bodies [OF assms(1), of "map nat ordinals" 1, folded K_def sel(2), folded R_def bs_def]
  show CR: "CR \<notin> set R" by (rule bodies(1))
  let ?open = "K \<noteq> [] \<and> Suc (last K) = length bs"
  have lastK: "last K < length (logicalLines content)"
  proof -
    have "K \<noteq> []" using K assms(4) by simp
    from last_in_set [OF this] show ?thesis by (simp add: K_def keptIndices_def)
  qed
  have nonblank: "last (map ((!) bs) K) \<noteq> []" if o: ?open
  proof
    assume "last (map ((!) bs) K) = []"
    then have "last bs = []" using o by (cases bs rule: rev_cases) (auto simp: last_map)
    then have "length (logicalLines content) = length bs - 1" using logicalLines_LF(1) [OF assms(1)] by (simp add: bs_def)
    then show False using lastK o by linarith
  qed
  have R: "bodiesLF R = map ((!) bs) K @ (if ?open then [] else [[]])" by (rule bodies(2))
  show len: "length (logicalLines R) = length ordinals"
    using logicalLines_LF(1) [OF CR] R nonblank K assms(4) by (auto split: if_splits)
  have "lineBody R (logicalLines R ! i) = bs ! nat (ordinals ! i - 1)
       \<and> separator (logicalLines R ! i) = (if Suc i = length ordinals \<and> ?open then [] else [LF])"
    if i: "i < length ordinals" for i
  proof -
    have "bodiesLF R ! i = bs ! nat (ordinals ! i - 1)" using i unfolding R by (simp add: K nth_append)
    moreover have "Suc i = length (bodiesLF R) \<longleftrightarrow> Suc i = length ordinals \<and> ?open"
      using i unfolding R by (auto simp: K)
    ultimately show ?thesis using logicalLines_LF(2,3) [OF CR, of i] i len by auto
  qed
  then show "\<exists>open'. \<forall>i < length ordinals. lineBody R (logicalLines R ! i) = bs ! nat (ordinals ! i - 1)
       \<and> separator (logicalLines R ! i) = (if Suc i = length ordinals \<and> open' then [] else [LF])" by blast
qed

text \<open>
  The rows a selection of lines is printed as: each line behind a prefix of its own, with the terminators of the selection.
\<close>

lemma framed_selection:
  assumes "CR \<notin> set content" "sorted_wrt (<) ordinals" "\<forall>o' \<in> set ordinals. 1 \<le> o' \<and> o' \<le> int (lineCount content)"
    "ordinals \<noteq> []"
    and "\<And>i b. i < length ordinals \<Longrightarrow> newlineFree (pre i) \<and> pre i \<noteq> []
           \<and> (isNumberedLine (pre i @ b) \<or> isAnchoredLine (pre i @ b))"
  defines "R \<equiv> selectLines content ordinals"
  shows "frameBody (concat (map (\<lambda>i. pre i @ lineBody R (logicalLines R ! i) @ separator (logicalLines R ! i)) [0..<length ordinals]))
    = Inr (joinWith [LF] (map (\<lambda>i. pre i @ bodiesOf content ! nat (ordinals ! i - 1)) [0..<length ordinals]))"
proof -
  note sel = selectLines_bodies [OF assms(1-4), folded R_def]
  obtain open' where o': "\<forall>i < length ordinals. lineBody R (logicalLines R ! i) = bodiesLF content ! nat (ordinals ! i - 1)
       \<and> separator (logicalLines R ! i) = (if Suc i = length ordinals \<and> open' then [] else [LF])" using sel(3) ..
  define prs where "prs = map (\<lambda>i. pre i @ bodiesLF content ! nat (ordinals ! i - 1)) [0..<length ordinals]"
  have body: "nat (ordinals ! i - 1) < lineCount content" if "i < length ordinals" for i
  proof -
    have "ordinals ! i \<in> set ordinals" using that by simp
    then have "1 \<le> ordinals ! i \<and> ordinals ! i \<le> int (lineCount content)" using assms(3) by blast
    then show ?thesis by linarith
  qed
  have "map (\<lambda>i. pre i @ lineBody R (logicalLines R ! i) @ separator (logicalLines R ! i)) [0..<length ordinals]
      = map (\<lambda>i. prs ! i @ (if Suc i = length prs \<and> open' then [] else [LF])) [0..<length prs]"
    using o' by (auto simp: prs_def)
  from arg_cong [OF this, of concat] have "concat (map (\<lambda>i. pre i @ lineBody R (logicalLines R ! i) @ separator (logicalLines R ! i)) [0..<length ordinals])
      = joinWith [LF] prs @ (if open' then [] else [LF])"
    using joined_rows [of prs open'] assms(4) by (auto simp: prs_def simp del: concat_map_singleton)
  moreover have "frameBody (joinWith [LF] prs @ (if open' then [] else [LF])) = Inr (joinWith [LF] prs)"
  proof (rule frame_rows)
    show "prs \<noteq> []" using assms(4) by (simp add: prs_def)
    show "newlineFree r \<and> r \<noteq> [] \<and> (isNumberedLine r \<or> isAnchoredLine r)" if "r \<in> set prs" for r
    proof -
      from that obtain i where i: "i < length ordinals" "r = pre i @ bodiesLF content ! nat (ordinals ! i - 1)"
        by (auto simp: prs_def)
      have "nat (ordinals ! i - 1) < length (bodiesLF content)"
        using body [OF i(1)] logicalLines_LF(1) [OF assms(1)] by (simp add: lineCount_def split: if_splits)
      then have "newlineFree (bodiesLF content ! nat (ordinals ! i - 1))"
        using bodiesLF_facts(2) [OF assms(1)] by (simp add: plainLines_def list_all_length)
      then show ?thesis using assms(5) [OF i(1)] i(2) by simp
    qed
  qed simp
  moreover have "prs = map (\<lambda>i. pre i @ bodiesOf content ! nat (ordinals ! i - 1)) [0..<length ordinals]"
    using bodiesOf_LF [OF assms(1) body] by (simp add: prs_def)
  ultimately show ?thesis by simp
qed

lemma mapResult_Inr_map: "mapResult (\<lambda>x. Inr (f x)) xs = Inr (map f xs)"
  by (simp add: mapResult_Inr list_all2_map2 list.rel_refl)

lemma foldr_max_eq: "\<forall>y \<in> set ys. y \<le> m \<Longrightarrow> a \<le> m \<Longrightarrow> m \<in> set ys \<Longrightarrow> foldr max ys a = (m :: int)"
proof -
  have upper: "\<forall>y \<in> set ys. y \<le> m \<Longrightarrow> a \<le> m \<Longrightarrow> foldr max ys a \<le> m" by (induction ys) auto
  have lower: "m \<in> set ys \<Longrightarrow> m \<le> foldr max ys a" by (induction ys) auto
  show "\<forall>y \<in> set ys. y \<le> m \<Longrightarrow> a \<le> m \<Longrightarrow> m \<in> set ys \<Longrightarrow> foldr max ys a = m" using upper lower by force
qed

lemma sorted_last:
  assumes "sorted_wrt (<) xs" "x \<in> set xs"
  shows "(x :: int) \<le> last xs"
proof -
  obtain ys y where xs: "xs = ys @ [y]" using assms(2) by (cases xs rule: rev_cases) auto
  then show ?thesis using assms by (auto simp: sorted_wrt_append)
qed

text \<open>The number of a row is that of its line, counted from the body's first, and the column is as wide as the last.\<close>

definition numberWidth :: "nat \<Rightarrow> int \<Rightarrow> nat" where
  "numberWidth numericWidth lastNumber = (if 0 < numericWidth then numericWidth else length (intNumeral lastNumber))"

lemma numbered_selection:
  assumes "CR \<notin> set content" "sorted_wrt (<) ordinals" "\<forall>o' \<in> set ordinals. 1 \<le> o' \<and> o' \<le> int (lineCount content)"
    "1 \<le> start"
  shows "renderContentBody (selectLines content ordinals) (Some start) None None numericWidth (Some ordinals) None
    = Inr (joinWith [LF] (map (\<lambda>o'. numberPrefix (numberWidth numericWidth (start + last ordinals - 1)) (start + o' - 1)
        @ bodiesOf content ! nat (o' - 1)) ordinals))"
proof (cases "ordinals = []")
  case True
  then show ?thesis by (simp add: selectLines_def renderContentBody_def)
next
  case ne: False
  let ?R = "selectLines content ordinals" and ?w = "numberWidth numericWidth (start + last ordinals - 1)"
  let ?shown = "map (\<lambda>o'. start + o' - 1) ordinals"
  note sel = selectLines_bodies [OF assms(1-3) ne]
  have R: "?R \<noteq> []" using sel(2) ne by auto
  have "foldr max ?shown (hd ?shown) = start + last ordinals - 1"
  proof (rule foldr_max_eq)
    show "\<forall>y \<in> set ?shown. y \<le> start + last ordinals - 1" using sorted_last [OF assms(2)] by fastforce
    show "hd ?shown \<le> start + last ordinals - 1"
      using sorted_last [OF assms(2), of "hd ordinals"] ne by (simp add: hd_map)
    show "start + last ordinals - 1 \<in> set ?shown" using ne by auto
  qed
  then have w: "(if 0 < numericWidth then int numericWidth else int (length (intNumeral (foldr max ?shown (hd ?shown))))) = int ?w"
    by (simp add: numberWidth_def)
  have "numberSelectedLines ?R ordinals start None None numericWidth None
      = Inr (concat (map (\<lambda>i. numberPrefix ?w (?shown ! i) @ lineBody ?R (logicalLines ?R ! i) @ separator (logicalLines ?R ! i))
          [0..<length ordinals]))"
    using sel(2) w by (simp add: numberSelectedLines_def Let_def mapResult_Inr_map)
  moreover have "frameBody (concat (map (\<lambda>i. numberPrefix ?w (?shown ! i) @ lineBody ?R (logicalLines ?R ! i) @ separator (logicalLines ?R ! i))
          [0..<length ordinals]))
      = Inr (joinWith [LF] (map (\<lambda>i. numberPrefix ?w (?shown ! i) @ bodiesOf content ! nat (ordinals ! i - 1)) [0..<length ordinals]))"
  proof (rule framed_selection [OF assms(1-3) ne])
    fix i b assume i: "i < length ordinals"
    then have "1 \<le> ordinals ! i" using assms(3) nth_mem by blast
    then have "1 \<le> ?shown ! i" using i assms(4) by simp
    then show "newlineFree (numberPrefix ?w (?shown ! i)) \<and> numberPrefix ?w (?shown ! i) \<noteq> []
        \<and> (isNumberedLine (numberPrefix ?w (?shown ! i) @ b) \<or> isAnchoredLine (numberPrefix ?w (?shown ! i) @ b))"
      using numberPrefix_newlineFree numberPrefix_numbered by (simp add: numberPrefix_def)
  qed
  moreover have "map (\<lambda>i. numberPrefix ?w (?shown ! i) @ bodiesOf content ! nat (ordinals ! i - 1)) [0..<length ordinals]
      = map (\<lambda>o'. numberPrefix ?w (start + o' - 1) @ bodiesOf content ! nat (o' - 1)) ordinals"
    by (rule nth_equalityI) simp_all
  ultimately show ?thesis using R by (simp add: renderContentBody_def)
qed

lemma foldStep_Inr: "foldStep r = Inr x \<longleftrightarrow> r = Inr x"
  by (auto simp: foldStep_def split: sum.splits)

lemma visibleBody_lines:
  assumes "fits content" "visibleBody initial folded content = Inr v"
  shows "visOrdinals v = filter (\<lambda>n. \<not> covered initial n \<and> \<not> covered folded n) [1..int (lineCount content)]"
    "visContent v = selectLines content (visOrdinals v)"
proof -
  let ?n = "int (lineCount content)"
  have "lineCount content \<le> length content + 1"
    using length_scanLines [of content] by (auto simp: lineCount_def logicalLines_def Let_def)
  then have n: "safeInt ?n" "0 \<le> ?n" using fits_safe [OF assms(1)] by simp_all
  from assms(2) obtain hidden where parts: "accepted folded" "accepted initial"
    "clipped (normalizeRanges (initial @ folded)) ?n = Inr hidden"
    "visibleLineOrdinals hidden ?n = Inr (visOrdinals v)" "visContent v = selectLines content (visOrdinals v)"
    by (auto simp: visibleBody_def Let_def andThen_Inr_iff foldStep_Inr parseRanges_Inr combine_Inr)
  show "visContent v = selectLines content (visOrdinals v)" by (rule parts(5))
  have "\<forall>r \<in> set (initial @ folded). validRange r" using parts(1,2) by (auto simp: accepted_def)
  note merged = normalizeRanges_ok [OF this]
  obtain cs where cs: "clipped (normalizeRanges (initial @ folded)) ?n = Inr cs" "accepted cs"
    "\<And>k. 1 \<le> k \<Longrightarrow> k \<le> ?n \<Longrightarrow> covered cs k \<longleftrightarrow> covered (normalizeRanges (initial @ folded)) k"
    using clipped_Inr [OF merged(1) n] by blast
  have "visOrdinals v = filter (\<lambda>n. \<not> covered hidden n) [1..?n]"
    using visible_ordinals [OF cs(2) n] cs(1) parts(3,4) by simp
  also have "\<dots> = filter (\<lambda>n. \<not> covered initial n \<and> \<not> covered folded n) [1..?n]"
    by (rule filter_cong [OF refl]) (use cs(1,3) parts(3) merged(2) in auto)
  finally show "visOrdinals v = \<dots>" .
qed

section \<open>The renderer without ordinals\<close>

lemma prefixed_body: "newlineFree l \<Longrightarrow> prefixed width n (l @ t) = l @ prefixed width n t"
proof (induction l)
  case (Cons c l)
  then have c: "\<not> isNewline c" "c \<noteq> CR" by auto
  show ?case using Cons c by (cases "l @ t") auto
qed simp

lemma innerBreaks_body: "newlineFree l \<Longrightarrow> innerBreaks (l @ t) = innerBreaks t"
proof (induction l)
  case (Cons c l)
  then have c: "\<not> isNewline c" "c \<noteq> CR" by auto
  show ?case using Cons c by (cases "l @ t") auto
qed simp

lemma prefixed_LF:
  "prefixed width n (LF # t) = LF # (if t = [] then [] else numberPrefix width n @ prefixed width (n + 1) t)"
  "innerBreaks (LF # t) = (if t = [] then 0 else Suc (innerBreaks t))"
  by (cases t; simp)+

lemma prefixed_rows:
  assumes "xs \<noteq> []" "plainLines xs" "t = [LF] \<or> t = [] \<and> last xs \<noteq> []"
  shows "numberPrefix width n @ prefixed width (n + 1) (joinWith [LF] xs @ t)
      = joinWith [LF] (map (\<lambda>i. numberPrefix width (n + int i) @ xs ! i) [0..<length xs]) @ t"
    "innerBreaks (joinWith [LF] xs @ t) = length xs - 1"
  using assms
proof (induction xs arbitrary: n)
  case (Cons x xs)
  {
    case 1
    show ?case
    proof (cases xs)
      case Nil
      then show ?thesis using 1 prefixed_body [of x width "n + 1" t] prefixed_LF(1) [of width "n + 1" "[]"] by auto
    next
      case (Cons y ys)
      then have ne: "joinWith [LF] xs @ t \<noteq> []" using 1 by (cases ys) auto
      have "numberPrefix width (n + 1) @ prefixed width (n + 1 + 1) (joinWith [LF] xs @ t)
          = joinWith [LF] (map (\<lambda>i. numberPrefix width (n + 1 + int i) @ xs ! i) [0..<length xs]) @ t"
        using Cons.IH(1) [of "n + 1"] 1 Cons by auto
      moreover have "map (\<lambda>i. numberPrefix width (n + int i) @ (x # xs) ! i) [0..<length (x # xs)]
          = (numberPrefix width n @ x) # map (\<lambda>i. numberPrefix width (n + 1 + int i) @ xs ! i) [0..<length xs]"
        by (simp add: upt_conv_Cons map_Suc_upt [symmetric] comp_def add.assoc del: upt_Suc)
      moreover have "map (\<lambda>i. numberPrefix width (n + 1 + int i) @ xs ! i) [0..<length xs] \<noteq> []" using Cons by simp
      moreover have "joinWith [LF] (x # xs) = x @ LF # joinWith [LF] xs" using Cons by (simp add: joinWith_Cons_Cons)
      moreover have "prefixed width (n + 1) (x @ LF # joinWith [LF] xs @ t)
          = x @ LF # numberPrefix width (n + 1) @ prefixed width (n + 1 + 1) (joinWith [LF] xs @ t)"
        using prefixed_body [of x width "n + 1" "LF # joinWith [LF] xs @ t"] 1 ne
        by (simp only: prefixed_LF(1) if_False plainLines_simps)
      ultimately show ?thesis by (simp add: joinWith_Cons_Cons)
    qed
  next
    case 2
    show ?case
    proof (cases xs)
      case Nil
      then show ?thesis using 2 innerBreaks_body [of x t] by auto
    next
      case (Cons y ys)
      then have ne: "joinWith [LF] xs @ t \<noteq> []" using 2 by (cases ys) auto
      have "innerBreaks (joinWith [LF] xs @ t) = length xs - 1" using Cons.IH(2) 2 Cons by auto
      then show ?thesis
        using 2 Cons ne innerBreaks_body [of x "LF # joinWith [LF] xs @ t"] prefixed_LF(2) [of "joinWith [LF] xs @ t"]
        by simp
    qed
  }
qed simp_all

lemma selectLines_all: "selectLines content [1..int (lineCount content)] = content"
proof -
  have "[1..int (lineCount content)] = map (\<lambda>i. int i + 1) [0..<lineCount content]"
    by (rule nth_equalityI) simp_all
  then have "selectLines content [1..int (lineCount content)]
      = concat (map (\<lambda>l. jsSlice content (lineStart l) (lineEnd l)) (map (\<lambda>i. logicalLines content ! i) [0..<lineCount content]))"
    by (simp add: selectLines_def Let_def comp_def)
  also have "map (\<lambda>i. logicalLines content ! i) [0..<lineCount content] = logicalLines content"
    unfolding lineCount_def by (rule map_nth)
  also have "concat (map (\<lambda>l. jsSlice content (lineStart l) (lineEnd l)) (logicalLines content)) = rowsText (rowsOf content)"
    unfolding rowsText_def rowsOf_def map_map
    by (rule arg_cong [where f = concat]) (auto simp: in_set_conv_nth line_slice)
  finally show ?thesis by (simp add: rowsText_rowsOf)
qed

text \<open>A body without ordinals is numbered as the selection of all its lines is.\<close>

lemma numberings_agree:
  assumes "CR \<notin> set content" "1 \<le> start"
  shows "renderContentBody content (Some start) None None numericWidth None None
    = renderContentBody content (Some start) None None numericWidth (Some [1..int (lineCount content)]) None"
proof (cases "content = []")
  case True
  then show ?thesis by (simp add: renderContentBody_def)
next
  case False
  let ?n = "lineCount content" and ?bs = "bodiesOf content"
  have pos: "0 < ?n" using first_line(1) [OF False] by (simp add: lineCount_def)
  have len: "length ?bs = ?n" by (rule length_bodiesOf)
  from assms(1) obtain ls b where b: "bodiesLF content = ls @ [b]" "content = unlinesLF ls @ b" "plainLines ls" "newlineFree b"
    by (rule bodiesLF_split)
  obtain t where t: "content = joinWith [LF] ?bs @ t" "t = [LF] \<or> t = [] \<and> last ?bs \<noteq> []"
  proof (cases "b = []")
    case True
    then have n: "?n = length ls" using logicalLines_LF(1) [OF assms(1)] b(1) by (simp add: lineCount_def)
    then have "?bs = ls" using bodiesOf_LF [OF assms(1)] b(1) len by (intro nth_equalityI) (auto simp: nth_append)
    moreover have "unlinesLF ls = joinWith [LF] ls @ [LF]"
      using n pos joinWith_snoc by (cases ls rule: rev_cases) auto
    ultimately show thesis using that [of "[LF]"] b(2) True by simp
  next
    case False
    then have n: "?n = length (ls @ [b])" using logicalLines_LF(1) [OF assms(1)] b(1) by (simp add: lineCount_def)
    then have "?bs = ls @ [b]" using bodiesOf_LF [OF assms(1)] b(1) len by (intro nth_equalityI) auto
    then show thesis using that [of "[]"] b(2) joinWith_snoc False by simp
  qed
  have plain: "plainLines ?bs" by (rule bodiesOf_plain)
  have ne: "?bs \<noteq> []" using len pos by auto
  let ?w = "numberWidth numericWidth (start + int ?n - 1)"
  let ?prs = "map (\<lambda>i. numberPrefix ?w (start + int i) @ ?bs ! i) [0..<?n]"
  have "numberLines content start numericWidth = joinWith [LF] ?prs @ t"
    using prefixed_rows(1) [OF ne plain t(2), of ?w start] prefixed_rows(2) [OF ne plain t(2)] len pos
    unfolding numberLines_def Let_def t(1) [symmetric]
    by (auto simp: numberWidth_def algebra_simps of_nat_diff)
  moreover have "frameBody (joinWith [LF] ?prs @ t) = Inr (joinWith [LF] ?prs)"
  proof (rule frame_rows)
    show "?prs \<noteq> []" using pos by simp
    show "newlineFree r \<and> r \<noteq> [] \<and> (isNumberedLine r \<or> isAnchoredLine r)" if "r \<in> set ?prs" for r
    proof -
      from that obtain i where i: "i < ?n" "r = numberPrefix ?w (start + int i) @ ?bs ! i" by auto
      have "newlineFree (?bs ! i)" using plain i(1) len by (simp add: plainLines_def list_all_length)
      moreover have "1 \<le> start + int i" using assms(2) by simp
      ultimately show ?thesis
        using numberPrefix_newlineFree numberPrefix_numbered i(2) by (simp add: numberPrefix_def)
    qed
  qed (use t(2) in auto)
  moreover have "renderContentBody content (Some start) None None numericWidth (Some [1..int ?n]) None = Inr (joinWith [LF] ?prs)"
  proof -
    have "renderContentBody (selectLines content [1..int ?n]) (Some start) None None numericWidth (Some [1..int ?n]) None
      = Inr (joinWith [LF] (map (\<lambda>o'. numberPrefix (numberWidth numericWidth (start + last [1..int ?n] - 1)) (start + o' - 1)
          @ ?bs ! nat (o' - 1)) [1..int ?n]))"
      by (rule numbered_selection [OF assms(1) _ _ assms(2)]) (auto simp: sorted_wrt_upto)
    moreover have "last [1..int ?n] = int ?n" using pos by (subst upto_rec2) auto
    moreover have "map (\<lambda>o'. numberPrefix ?w (start + o' - 1) @ ?bs ! nat (o' - 1)) [1..int ?n] = ?prs"
      by (rule nth_equalityI) (simp_all add: algebra_simps)
    ultimately show ?thesis by (simp add: selectLines_all)
  qed
  ultimately show ?thesis using False by (simp add: renderContentBody_def)
qed

section \<open>The page is stated\<close>

lemma digits_prefix:
  assumes "\<forall>c \<in> set x. isDigit c" "\<forall>c \<in> set y. isDigit c" "\<not> isDigit d" "x @ d # s = y @ d # t"
  shows "x = y \<and> s = t"
proof -
  have "takeWhile isDigit (x @ d # s) = x" "takeWhile isDigit (y @ d # t) = y" using assms(1-3) by simp_all
  then show ?thesis using assms(4) by simp
qed

lemma decimal_inject: "decimal m = decimal n \<longleftrightarrow> m = n"
  by (metis digitsValue_decimal of_nat_eq_iff)

lemma formatRegion_inject:
  assumes "formatRegion r = formatRegion r'"
  shows "startLine r = startLine r' \<and> startColumn r = startColumn r' \<and> endLine r = endLine r' \<and> endColumn r = endColumn r'"
proof -
  have sep: "\<not> isDigit COMMA" "\<not> isDigit GREATER" by (simp_all add: isDigit_def COMMA_def GREATER_def)
  have e: "decimal (startLine r) @ COMMA # decimal (startColumn r) @ COMMA # decimal (endLine r) @ COMMA # decimal (endColumn r) @ [GREATER]
     = decimal (startLine r') @ COMMA # decimal (startColumn r') @ COMMA # decimal (endLine r') @ COMMA # decimal (endColumn r') @ [GREATER]"
    using assms by (simp add: formatRegion_def formatInts_def intNumeral_def)
  note d = decimal_digits
  from digits_prefix [OF d d sep(1) e] have 1: "startLine r = startLine r'" and e2:
    "decimal (startColumn r) @ COMMA # decimal (endLine r) @ COMMA # decimal (endColumn r) @ [GREATER]
     = decimal (startColumn r') @ COMMA # decimal (endLine r') @ COMMA # decimal (endColumn r') @ [GREATER]" by (simp_all add: decimal_inject)
  from digits_prefix [OF d d sep(1) e2] have 2: "startColumn r = startColumn r'" and e3:
    "decimal (endLine r) @ COMMA # decimal (endColumn r) @ [GREATER] = decimal (endLine r') @ COMMA # decimal (endColumn r') @ [GREATER]"
    by (simp_all add: decimal_inject)
  from digits_prefix [OF d d sep(1) e3] have 3: "endLine r = endLine r'" and e4:
    "decimal (endColumn r) @ [GREATER] = decimal (endColumn r') @ [GREATER]" by (simp_all add: decimal_inject)
  from digits_prefix [OF d d sep(2) e4] show ?thesis using 1 2 3 by (simp add: decimal_inject)
qed

section \<open>Properties\<close>

text \<open>C39. A packet shows a folded body by its own line numbers: the rendering of a visible body never throws, and it is one row
  for each line that neither fold covers, in order, each behind the number the line has in the whole body. It holds for bodies
  without carriage returns.\<close>

theorem packet_rows_name_their_lines:
  assumes "fits content" "CR \<notin> set content" "1 \<le> start" "visibleBody initial folded content = Inr v"
  shows "renderContentBody (visContent v) (Some start) None None numericWidth (Some (visOrdinals v)) None
    = Inr (joinWith [LF] (map (\<lambda>n. numberPrefix (numberWidth numericWidth (start + last (visOrdinals v) - 1)) (start + n - 1)
        @ bodiesOf content ! nat (n - 1))
      (filter (\<lambda>n. \<not> covered initial n \<and> \<not> covered folded n) [1..int (lineCount content)])))"
proof -
  note v = visibleBody_lines [OF assms(1,4)]
  have so: "sorted_wrt (<) (visOrdinals v)" unfolding v(1) by (intro sorted_wrt_filter) (simp add: sorted_wrt_upto)
  have inside: "\<forall>o' \<in> set (visOrdinals v). 1 \<le> o' \<and> o' \<le> int (lineCount content)" unfolding v(1) by auto
  show ?thesis unfolding v(2) v(1) [symmetric] by (rule numbered_selection [OF assms(2) so inside assms(3)])
qed

definition shown :: "LogFoldRange list \<Rightarrow> LogFoldRange list \<Rightarrow> jsstr \<Rightarrow> BodyError + jsstr" where
  "shown initial folded content =
     andThen (visibleBody initial folded content) (\<lambda>v.
       renderContentBody (visContent v) (Some 1) None None 0 (Some (visOrdinals v)) None)"

lemma shown_row: "shown [] [(2, 2)] [120, 10, 121, 10, 122] = Inr [49, 58, 120, 10, 51, 58, 122]"
  by code_simp

text \<open>Carriage returns break it: with the line between folded away, a line ended by a carriage return and an empty line ended by a
  line feed come together as one line, and the renderer throws.\<close>

lemma fused_row_throws: "shown [] [(2, 2)] [120, 13, 121, 10, 10] = Inl OrdinalsMismatched"
  by code_simp

lemma sample_visible:
  "visibleBody [] [(2, 2)] [120, 10, 121, 10, 122]
     = Inr \<lparr>visContent = [120, 10, 122], visOrdinals = [1, 3], readableContent = [120, 10, 122], readableOrdinals = [1, 3],
            visFolded = [(2, 2)], visTrimmed = [(2, 2)], visTotalLines = 3, visFullyFolded = False\<rparr>"
  by code_simp

lemma sample_fits: "fits [120, 10, 121, 10, 122]"
  by (simp add: fits_def MAX_SAFE_INTEGER_def)

theorem packet_rows_name_their_lines_witness:
  "\<exists>v. visibleBody [] [(2, 2)] [120, 10, 121, 10, 122] = Inr v \<and>
     renderContentBody (visContent v) (Some 1) None None 0 (Some (visOrdinals v)) None
       = Inr (joinWith [LF] (map (\<lambda>n. numberPrefix (numberWidth 0 (1 + last (visOrdinals v) - 1)) (1 + n - 1)
          @ bodiesOf [120, 10, 121, 10, 122] ! nat (n - 1))
        (filter (\<lambda>n. \<not> covered [] n \<and> \<not> covered [(2, 2)] n) [1..int (lineCount [120, 10, 121, 10, 122])])))"
proof -
  have cr: "CR \<notin> set [120, 10, 121, 10, 122]" by (simp add: CR_def)
  show ?thesis
    using packet_rows_name_their_lines [OF sample_fits cr _ sample_visible, of 1 0] sample_visible by blast
qed

text \<open>The extent a page states of itself: the scope is one that selects the page, and beside it stands the number of lines of the
  whole, which is more than the lines of the page, or a different scope that selects the whole.\<close>

definition statesPage :: "jsstr \<Rightarrow> jsstr \<Rightarrow> jsstr \<Rightarrow> bool" where
  "statesPage content pg c \<longleftrightarrow>
     (\<exists>ns extent r. c = formatInts ns @ ofText @ extent
       \<and> textReplacement content (map Whole ns) [] = Inr r \<and> repStart r = 0 \<and> repEnd r = length pg
       \<and> ((\<exists>k. ns = (if k = 1 then [1] else [1, int k]) \<and> 1 \<le> k \<and> k < lineCount content
              \<and> extent = formatCount LineUnit (lineCount content))
          \<or> (\<exists>ms w. ms \<noteq> ns \<and> extent = formatInts ms
              \<and> textReplacement content (map Whole ms) [] = Inr w \<and> repStart w = 0 \<and> repEnd w = length content)))"

lemma statesPage_lines:
  assumes "content \<noteq> []" "i + 1 < lineCount content" "lineEnd (logicalLines content ! i) = length pg"
  shows "statesPage content pg (formatLines 1 (int i + 1) @ ofText @ formatCount LineUnit (lineCount content))"
proof -
  let ?ns = "if i + 1 = 1 then [1] else [1, int (i + 1)]"
  have i: "min (i + 1) (length (logicalLines content)) - 1 = i" using assms(2) by (simp add: lineCount_def)
  have "textReplacement content (map Whole ?ns) []
     = Inr \<lparr>repStart = 0, repEnd = length pg, repBody = [], repStartLine = 1, repEndLine = int i + 1, normalization = None\<rparr>"
  proof (cases "i = 0")
    case True
    have "textReplacement content [Whole 1] [] = textReplacement content [Whole 1, Whole 1] []"
      using assms(1,2) by (simp add: textReplacement_def lineTextReplacement_def normalize_def normalizePosition_def normalizeRange_def
          lineCount_def Let_def)
    then show ?thesis using first_lines [OF assms(1), of 1] i assms(3) True by simp
  next
    case False
    then show ?thesis using first_lines [OF assms(1), of "i + 1"] i assms(3) by simp
  qed
  moreover have "formatLines 1 (int i + 1) = formatInts ?ns" by (simp add: formatLines_def algebra_simps)
  ultimately show ?thesis unfolding statesPage_def
    by (intro exI [of _ ?ns] exI [of _ "formatCount LineUnit (lineCount content)"] exI conjI disjI1 exI [of _ "i + 1"])
      (use assms(2) in auto)
qed

lemma statesPage_region:
  assumes "fits content" "positionAtOffset content (int (length pg)) = Some p" "length pg < length content"
  shows "\<exists>q. positionAtOffset content (int (length content)) = Some q
    \<and> formatRegion (regionOf (TextPosition 1 1) p) \<noteq> formatRegion (regionOf (TextPosition 1 1) q)
    \<and> statesPage content pg (formatRegion (regionOf (TextPosition 1 1) p) @ ofText @ formatRegion (regionOf (TextPosition 1 1) q))"
proof -
  obtain q where q: "positionAtOffset content (int (length content)) = Some q" using end_position [OF assms(1)] ..
  have "p \<noteq> q"
    using offset_of_position_of_offset [OF assms(1,2)] offset_of_position_of_offset [OF assms(1) q] assms(3) by auto
  then have ne: "formatRegion (regionOf (TextPosition 1 1) p) \<noteq> formatRegion (regionOf (TextPosition 1 1) q)"
    using formatRegion_inject [of "regionOf (TextPosition 1 1) p" "regionOf (TextPosition 1 1) q"]
    by (cases p; cases q) (auto simp: regionOf_def)
  define coords where "coords r = [int (startLine r), int (startColumn r), int (endLine r), int (endColumn r)]" for r :: TextRegion
  have f: "formatRegion r = formatInts (coords r)" "map Whole (coords r) = regionMarks r" for r
    by (simp_all add: formatRegion_def coords_def regionMarks_def)
  note zero = positionAtOffset_zero [OF assms(1)]
  have sel: "\<exists>r. textReplacement content (regionMarks (regionOf (TextPosition 1 1) x)) [] = Inr r \<and> repStart r = 0 \<and> repEnd r = k"
    if "positionAtOffset content (int k) = Some x" for x k
    using exact_of_positions [OF assms(1) zero that, of "[]"] by auto
  let ?ns = "coords (regionOf (TextPosition 1 1) p)" and ?ms = "coords (regionOf (TextPosition 1 1) q)"
  obtain r where r: "textReplacement content (map Whole ?ns) [] = Inr r" "repStart r = 0" "repEnd r = length pg"
    using sel [OF assms(2)] f(2) by auto
  obtain w where w: "textReplacement content (map Whole ?ms) [] = Inr w" "repStart w = 0" "repEnd w = length content"
    using sel [OF q] f(2) by auto
  have "?ms \<noteq> ?ns" using ne f(1) by auto
  then have "statesPage content pg (formatRegion (regionOf (TextPosition 1 1) p) @ ofText @ formatRegion (regionOf (TextPosition 1 1) q))"
    using r w unfolding statesPage_def f(1) by blast
  then show ?thesis using q ne by blast
qed

lemma chunk_states:
  assumes "fits content" "content \<noteq> []" "length pg < length content"
    "(\<exists>i < length (logicalLines content). lineEnd (logicalLines content ! i) = length pg)
       \<or> (\<exists>p. positionAtOffset content (int (length pg)) = Some p)"
  shows "\<exists>c. chunk content (length pg) = Inr c \<and> statesPage content pg c"
proof (cases "findIndexFrom (\<lambda>l. separator l \<noteq> [] \<and> lineEnd l = length pg) 0 (logicalLines content)")
  case (Some i)
  then have i: "i < length (logicalLines content)" "lineEnd (logicalLines content ! i) = length pg"
    by (auto dest: findIndexFrom_Some)
  then have "i + 1 \<noteq> length (logicalLines content)"
    using logicalLines_last_end [OF assms(2)] assms(3) by (metis add_diff_cancel_right' less_irrefl)
  then show ?thesis using Some i statesPage_lines [OF assms(2), of i pg] by (simp add: chunk_def lineCount_def)
next
  case None
  have "\<not> (\<exists>i < length (logicalLines content). lineEnd (logicalLines content ! i) = length pg)"
  proof
    assume "\<exists>i < length (logicalLines content). lineEnd (logicalLines content ! i) = length pg"
    then obtain i where i: "i < length (logicalLines content)" "lineEnd (logicalLines content ! i) = length pg" by blast
    then have "separator (logicalLines content ! i) \<noteq> []"
      using line_separator [OF logicalLines_nth(1) [OF i(1)] refl] logicalLines_nth(2) [OF i(1)] assms(3) by auto
    then show False using None i by (auto simp: findIndexFrom_None)
  qed
  then obtain p where p: "positionAtOffset content (int (length pg)) = Some p" using assms(4) by blast
  from statesPage_region [OF assms(1) p assms(3)] show ?thesis
    using None p positionAtOffset_zero [OF assms(1)] assms(3) by (auto simp: chunk_def regionFromOffsets_def)
qed

text \<open>C40. A page that is cut says what it shows: with positive limits, taking the first page of a body never throws; the page is a beginning of the
  body, and is cut exactly when it is not the whole of it. A cut page states a scope, which the slicer resolves to exactly the
  text of the page, and beside it the extent of the whole: the number of lines, of which the page has fewer, or the scope of
  the whole body, which is a different one.\<close>

theorem cut_pages_are_stated:
  assumes "fits content" "0 < maxLines" "0 < maxChars"
  shows "\<exists>pg. bodyPage maxLines maxChars content = Inr pg \<and> pageText pg = take (length (pageText pg)) content
    \<and> (pageCut pg \<longleftrightarrow> pageText pg \<noteq> content)
    \<and> (case pageChunk pg of None \<Rightarrow> \<not> pageCut pg | Some c \<Rightarrow> pageCut pg \<and> statesPage content (pageText pg) c)"
proof (cases "content = []")
  case True
  then show ?thesis by (simp add: bodyPage_def select_def)
next
  case ne: False
  from assms(1) ne assms(2,3) obtain p where p: "select maxLines maxChars content = Some p"
    "(\<exists>i < length (logicalLines content). lineEnd (logicalLines content ! i) = previewEnd p)
       \<or> (\<exists>q. positionAtOffset content (int (previewEnd p)) = Some q)"
  proof (cases rule: select_cases)
    case (lns n)
    have "min n (length (logicalLines content)) - 1 < length (logicalLines content)"
      using first_line(1) [OF ne] by linarith
    then show thesis using that [OF lns(4)] by auto
  next
    case (part j)
    then show thesis using that [OF part(2)] by auto
  qed
  let ?pg = "take (previewEnd p) content"
  show ?thesis
  proof (cases "previewEnd p < length content")
    case True
    then have len: "length ?pg = previewEnd p" by simp
    from chunk_states [OF assms(1) ne, of ?pg] p(2) True obtain c
      where c: "chunk content (previewEnd p) = Inr c" "statesPage content ?pg c" by (auto simp: len)
    have "?pg \<noteq> content" using len True by (metis less_irrefl)
    then show ?thesis using p(1) True c by (simp add: bodyPage_def)
  next
    case False
    then show ?thesis using p(1) by (simp add: bodyPage_def)
  qed
qed

theorem cut_pages_are_stated_witness:
  "\<exists>pg. bodyPage 1 100 [120, 10, 121, 10, 122] = Inr pg \<and> pageText pg = take (length (pageText pg)) [120, 10, 121, 10, 122]
    \<and> (pageCut pg \<longleftrightarrow> pageText pg \<noteq> [120, 10, 121, 10, 122])
    \<and> (case pageChunk pg of None \<Rightarrow> \<not> pageCut pg
       | Some c \<Rightarrow> pageCut pg \<and> statesPage [120, 10, 121, 10, 122] (pageText pg) c)"
  by (rule cut_pages_are_stated [OF sample_fits]) simp_all

end
