(* ===== verification/JsRegex.thy ===== *)
theory JsRegex
  imports JsText
begin

text \<open>
  Regular expressions the way a backtracking matcher reads them: a pattern maps a string to what may be left of it
  after a match, in the order in which the matcher tries. An anchored test \<open>/^p$/\<close> asks whether nothing can be left.
\<close>

type_synonym pattern = "jsstr \<Rightarrow> jsstr list"

fun one :: "(jschar \<Rightarrow> bool) \<Rightarrow> pattern" where
  "one P [] = []"
| "one P (c # s) = (if P c then [s] else [])"

definition lit :: "jschar \<Rightarrow> pattern" where
  "lit c = one (\<lambda>x. x = c)"

definition followedBy :: "pattern \<Rightarrow> pattern \<Rightarrow> pattern" where
  "followedBy a b s = concat (map b (a s))"

definition eitherOr :: "pattern \<Rightarrow> pattern \<Rightarrow> pattern" where
  "eitherOr a b s = a s @ b s"

definition optional :: "pattern \<Rightarrow> pattern" where
  "optional a s = a s @ [s]"

text \<open>\<open>a*\<close>; an iteration that matches nothing ends the loop, so the length of the string is fuel enough.\<close>

primrec manyUpTo :: "nat \<Rightarrow> pattern \<Rightarrow> pattern" where
  "manyUpTo 0 a s = [s]"
| "manyUpTo (Suc n) a s = concat (map (manyUpTo n a) (filter (\<lambda>r. length r < length s) (a s))) @ [s]"

definition many :: "pattern \<Rightarrow> pattern" where
  "many a s = manyUpTo (length s) a s"

definition many1 :: "pattern \<Rightarrow> pattern" where
  "many1 a = followedBy a (many a)"

primrec times :: "nat \<Rightarrow> pattern \<Rightarrow> pattern" where
  "times 0 a = (\<lambda>s. [s])"
| "times (Suc n) a = followedBy a (times n a)"

definition matchesAll :: "pattern \<Rightarrow> jsstr \<Rightarrow> bool" where
  "matchesAll p s \<longleftrightarrow> [] \<in> set (p s)"

definition digit :: pattern where
  "digit = one isDigit"

lemma lit_simps [simp]: "lit c [] = []" "lit c (x # s) = (if x = c then [s] else [])"
  by (simp_all add: lit_def)

lemma followedByI: "r \<in> set (a s) \<Longrightarrow> t \<in> set (b r) \<Longrightarrow> t \<in> set (followedBy a b s)"
  by (auto simp: followedBy_def)

lemma followedByE: "t \<in> set (followedBy a b s) \<Longrightarrow> (\<And>r. r \<in> set (a s) \<Longrightarrow> t \<in> set (b r) \<Longrightarrow> P) \<Longrightarrow> P"
  by (auto simp: followedBy_def)

lemma optionalI: "s \<in> set (optional a s)" "r \<in> set (a s) \<Longrightarrow> r \<in> set (optional a s)"
  by (auto simp: optional_def)

lemma eitherOrI: "r \<in> set (a s) \<Longrightarrow> r \<in> set (eitherOr a b s)" "r \<in> set (b s) \<Longrightarrow> r \<in> set (eitherOr a b s)"
  by (auto simp: eitherOr_def)

lemma manyUpTo_more: "m \<le> n \<Longrightarrow> set (manyUpTo m a s) \<subseteq> set (manyUpTo n a s)"
proof (induction n arbitrary: m s)
  case (Suc n)
  show ?case
  proof (cases m)
    case (Suc k)
    then have "set (manyUpTo k a r) \<subseteq> set (manyUpTo n a r)" for r using Suc.prems Suc.IH [of k] by simp
    then show ?thesis unfolding Suc by fastforce
  qed simp
qed simp

lemma manyI:
  "s \<in> set (many a s)"
  "r \<in> set (a s) \<Longrightarrow> length r < length s \<Longrightarrow> t \<in> set (many a r) \<Longrightarrow> t \<in> set (many a s)"
proof -
  show "s \<in> set (many a s)" by (cases "length s") (simp_all add: many_def)
  assume r: "r \<in> set (a s)" "length r < length s" "t \<in> set (many a r)"
  then obtain n where n: "length s = Suc n" by (cases "length s") auto
  have "t \<in> set (manyUpTo n a r)" using r n manyUpTo_more [of "length r" n a r] by (auto simp: many_def)
  then show "t \<in> set (many a s)" using r n by (auto simp: many_def)
qed

lemma many_all: "list_all P ds \<Longrightarrow> r \<in> set (many (one P) (ds @ r))"
proof (induction ds)
  case Nil
  show ?case using manyI(1) by simp
next
  case (Cons c ds)
  then show ?case by (simp add: manyI(2) [of "ds @ r"])
qed

lemma many1_all: "ds \<noteq> [] \<Longrightarrow> list_all P ds \<Longrightarrow> r \<in> set (many1 (one P) (ds @ r))"
proof (cases ds)
  case (Cons c cs)
  assume "list_all P ds"
  then show ?thesis using Cons many_all [of P cs r] by (simp add: many1_def followedBy_def)
qed simp

end
