(* ===== verification/ScopeSyntax.thy ===== *)
theory ScopeSyntax
  imports EditReceipt JsRegex "HOL-Library.Sublist"
begin

text \<open>
  \<^verbatim>\<open>plurnk-parser/src/ScopeSyntax.ts\<close>: the scopes an operation is authored with, \<open><12>\<close>, \<open><3,7>\<close>, \<open><@abcde>\<close>, as marks.
  Three entries read them: plain numbers, line ranges (which recover a count that was given for an end) and text scopes
  (which may name lines by anchor). The regular expressions are patterns of \<open>JsRegex\<close>; numerals are read exactly, which the
  source does up to 2^53; a mark that is not a number is \<open>None\<close>. The position of the statement only labels messages.
\<close>

section \<open>Shapes\<close>

definition FULLSTOP :: jschar where "FULLSTOP = 46"

definition sepPattern :: pattern where
  "sepPattern = eitherOr (followedBy (lit COMMA) (optional (one isWhite))) (lit MINUS)"

definition numeralPattern :: pattern where
  "numeralPattern = followedBy (optional (lit MINUS)) (followedBy (many1 digit)
     (optional (followedBy (lit FULLSTOP) (many1 digit))))"

definition anchorPattern :: pattern where
  "anchorPattern = followedBy (lit AT) (followedBy (times 5 (one alphanumeric))
     (optional (followedBy (eitherOr (lit PLUS) (lit MINUS)) (many1 digit))))"

text \<open>\<open>@[0-9]{1,4}\<close>.\<close>

definition sigilPattern :: pattern where
  "sigilPattern = followedBy (lit AT) (followedBy digit (followedBy (optional digit)
     (followedBy (optional digit) (optional digit))))"

definition rowNumberPattern :: pattern where
  "rowNumberPattern = followedBy (one (\<lambda>c. isDigit c \<and> c \<noteq> 48)) (many digit)"

definition numericPattern :: pattern where
  "numericPattern = followedBy (lit LESS) (followedBy numeralPattern
     (followedBy (many (followedBy sepPattern numeralPattern)) (lit GREATER)))"

definition textScope :: pattern where
  "textScope = followedBy (optional rowNumberPattern) (followedBy (lit LESS)
     (followedBy (eitherOr numeralPattern (eitherOr anchorPattern sigilPattern))
     (followedBy (many (followedBy sepPattern
         (eitherOr numeralPattern (eitherOr (followedBy (lit PLUS) (many1 digit)) (eitherOr anchorPattern sigilPattern)))))
       (lit GREATER))))"

definition rowPattern :: pattern where
  "rowPattern = followedBy rowNumberPattern (followedBy (lit LESS) (followedBy (many (one (\<lambda>c. True))) (lit GREATER)))"

definition wrapScope :: "jsstr \<Rightarrow> jsstr" where
  "wrapScope raw =
     (let trimmed = trim raw
      in if prefix [LESS] trimmed \<and> suffix [GREATER] trimmed \<or> matchesAll rowPattern trimmed then trimmed
         else [LESS] @ trimmed @ [GREATER])"

section \<open>Numbers\<close>

text \<open>\<open>parseFloat\<close> of the components the scanners meet: digits, a point, a sign, leading white space.\<close>

definition unsignedFloat :: "jsstr \<Rightarrow> jsnum option" where
  "unsignedFloat s =
     (let ds = takeWhile isDigit s; t = dropWhile isDigit s;
          fs = (case t of c # u \<Rightarrow> if c = FULLSTOP then takeWhile isDigit u else [] | [] \<Rightarrow> []);
          n = digitsValue (ds @ fs); k = (10 :: int) ^ length fs
      in if ds @ fs = [] then None
         else if n mod k = 0 then Some (Whole (n div k)) else Some (Fraction (Fract n k)))"

fun negated :: "jsnum \<Rightarrow> jsnum" where
  "negated (Whole n) = Whole (- n)"
| "negated (Fraction q) = Fraction (- q)"

definition parseFloat :: "jsstr \<Rightarrow> jsnum option" where
  "parseFloat raw =
     (let s = trimStart raw
      in if prefix [MINUS] s then map_option negated (unsignedFloat (tl s))
         else if prefix [PLUS] s then unsignedFloat (tl s) else unsignedFloat s)"

section \<open>Numeric scopes\<close>

datatype ScopeParseError =
    NotNumericScope jsstr
  | NotTextScope jsstr
  | NeedsPositiveStart jsstr
  | ExceedsSafe jsstr
  | NoMarks

datatype Advice =
    CountRead jsstr int int
  | RowNumberDropped jsstr jsstr
  | LineWithSigil jsstr int

text \<open>The component that starts here, and what follows it.\<close>

definition scanNumber :: "jsstr \<Rightarrow> jsstr \<times> jsstr" where
  "scanNumber s =
     (let sg = (if prefix [MINUS] s then [MINUS] else []); r = drop (length sg) s;
          ds = takeWhile isDigit r; t = dropWhile isDigit r;
          fs = (case t of c # d # u \<Rightarrow> if c = FULLSTOP \<and> isDigit d then FULLSTOP # takeWhile isDigit (d # u) else [] | _ \<Rightarrow> [])
      in (sg @ ds @ fs, drop (length fs) t))"

lemma scanNumber_rest: "length (snd (scanNumber s)) \<le> length s"
proof -
  let ?r = "drop (length (if prefix [MINUS] s then [MINUS] else [])) s"
  have "length (dropWhile isDigit ?r) \<le> length s"
    by (rule le_trans [OF length_dropWhile_le]) simp
  then show ?thesis unfolding scanNumber_def Let_def snd_conv length_drop by (rule le_trans [OF diff_le_self])
qed

function scanMarks :: "jsstr \<Rightarrow> jsnum option list" where
  "scanMarks s =
     (if s = [] then []
      else parseFloat (fst (scanNumber s)) #
        (case snd (scanNumber s) of
           [] \<Rightarrow> []
         | c # r \<Rightarrow>
             if c = COMMA then scanMarks (if prefix [SPACE] r then tl r else r)
             else if c = MINUS then scanMarks r else []))"
  by pat_completeness auto
termination
proof (relation "measure length")
  fix s c r
  assume r: "snd (scanNumber s) = c # r"
  then have "length r < length s" using scanNumber_rest [of s] by simp
  then show "(if prefix [SPACE] r then tl r else r, s) \<in> measure length" "(r, s) \<in> measure length" by auto
qed simp

declare scanMarks.simps [simp del]

definition inner :: "'a list \<Rightarrow> 'a list" where
  "inner s = butlast (tl s)"

definition parseLineMarker :: "jsstr \<Rightarrow> ScopeParseError + jsnum option list" where
  "parseLineMarker raw =
     (let s = wrapScope raw
      in if \<not> matchesAll numericPattern s then Inl (NotNumericScope raw)
         else if scanMarks (inner s) = [] then Inl NoMarks
         else Inr (scanMarks (inner s)))"

section \<open>Ranges\<close>

text \<open>\<open>/^<([0-9]+), ?\+([0-9]+)>$/\<close>, its two numbers.\<close>

definition relativeParts :: "jsstr \<Rightarrow> (int \<times> int) option" where
  "relativeParts s =
     (let body = inner s; ds = takeWhile isDigit body; t = dropWhile isDigit body;
          u = (if prefix [COMMA, SPACE] t then drop 2 t else drop 1 t); es = drop 1 u
      in if 2 \<le> length s \<and> hd s = LESS \<and> last s = GREATER \<and> ds \<noteq> [] \<and> prefix [COMMA] t \<and> prefix [PLUS] u
            \<and> es \<noteq> [] \<and> list_all isDigit es
         then Some (digitsValue ds, digitsValue es) else None)"

fun countGiven :: "jsnum option list \<Rightarrow> bool" where
  "countGiven [Some (Whole s), Some (Whole e)] \<longleftrightarrow> 0 < s \<and> 0 < e \<and> e < s"
| "countGiven ms \<longleftrightarrow> False"

definition parseRangeMarker :: "jsstr \<Rightarrow> ScopeParseError + (jsnum option list \<times> Advice list)" where
  "parseRangeMarker raw =
     (let s = wrapScope raw; relative = relativeParts s
      in if relative = None \<and> (PLUS \<in> set s \<or> \<not> matchesAll numericPattern s) then Inl (NotTextScope raw)
         else andThen (case relative of None \<Rightarrow> parseLineMarker s
                       | Some (a, b) \<Rightarrow> Inr [Some (Whole a), Some (Whole b)]) (\<lambda>ms.
           if relative = None \<and> \<not> countGiven ms then Inr (ms, [])
           else case ms of
             [Some (Whole start), Some (Whole stop)] \<Rightarrow>
               if start \<le> 0 \<or> \<not> safeInt start \<or> \<not> safeInt stop then Inl (NeedsPositiveStart s)
               else let final = start + (if relative = None then stop - 1 else stop)
                    in if \<not> safeInt final then Inl (ExceedsSafe s)
                       else Inr ([Some (Whole start), Some (Whole final)], [CountRead s start final])
           | _ \<Rightarrow> Inl (NeedsPositiveStart s)))"

section \<open>Text scopes\<close>

text \<open>\<open>split(/, ?|-/)\<close>.\<close>

fun splitComponents :: "jsstr \<Rightarrow> jsstr list" where
  "splitComponents [] = [[]]"
| "splitComponents [c] = (if c = COMMA \<or> c = MINUS then [[], []] else [[c]])"
| "splitComponents (c # d # s) =
     (if c = COMMA then [] # (if d = SPACE then splitComponents s else splitComponents (d # s))
      else if c = MINUS then [] # splitComponents (d # s)
      else case splitComponents (d # s) of [] \<Rightarrow> [[c]] | w # ws \<Rightarrow> (c # w) # ws)"

definition readComponent :: "jsstr \<Rightarrow> TextMark option \<times> Advice list" where
  "readComponent component =
     (if matchesAll sigilPattern component
      then (let line = digitsValue (tl component) in (Some (NumberMark (Whole line)), [LineWithSigil component line]))
      else if prefix [AT] component then (Some (AnchorMark component), [])
      else (map_option NumberMark (parseFloat component), []))"

text \<open>The loop over the components that are offsets; each looks at the mark before it, as already rewritten.\<close>

fun applyOffsets :: "jsstr \<Rightarrow> TextMark option option \<Rightarrow> jsstr list \<Rightarrow> TextMark option list
     \<Rightarrow> ScopeParseError + TextMark option list" where
  "applyOffsets s before (component # components) (m # ms) =
     (if \<not> prefix [PLUS] component
      then andThen (applyOffsets s (Some m) components ms) (\<lambda>rest. Inr (m # rest))
      else case before of
        Some (Some (AnchorMark a)) \<Rightarrow>
          (case markParts a of
             None \<Rightarrow> Inl (NotTextScope s)
           | Some (base, given) \<Rightarrow>
               let offset = given + digitsValue (tl component);
                   mark = Some (AnchorMark (if offset = 0 then base
                     else base @ (if 0 < offset then [PLUS] else []) @ intNumeral offset))
               in andThen (applyOffsets s (Some mark) components ms) (\<lambda>rest. Inr (mark # rest)))
      | _ \<Rightarrow> Inl (NotTextScope s))"
| "applyOffsets s before components ms = Inr ms"

definition parseTextLineMarker :: "jsstr \<Rightarrow> ScopeParseError + (TextMark option list \<times> Advice list)" where
  "parseTextLineMarker raw =
     (let marker = wrapScope raw
      in if \<not> matchesAll textScope marker then Inl (NotTextScope raw)
         else let prefixed = (marker \<noteq> [] \<and> isDigit (hd marker));
                  s = (if prefixed then dropWhile isDigit marker else marker);
                  dropped = (if prefixed then [RowNumberDropped marker s] else [])
              in if AT \<notin> set s
                 then andThen (parseRangeMarker s) (\<lambda>(ms, advice).
                   Inr (map (map_option NumberMark) ms, dropped @ advice))
                 else let components = splitComponents (inner s); readings = map readComponent components
                      in andThen (applyOffsets s None components (map fst readings)) (\<lambda>ms.
                           if ms = [] then Inl NoMarks else Inr (ms, dropped @ concat (map snd readings))))"

section \<open>Numerals\<close>

lemma mark_chars [simp]:
  "isDigit COMMA = False" "isDigit MINUS = False" "isDigit LESS = False" "isDigit GREATER = False" "isDigit AT = False"
  "isDigit PLUS = False" "isDigit FULLSTOP = False" "isDigit SPACE = False"
  "isWhite COMMA = False" "isWhite MINUS = False" "isWhite LESS = False" "isWhite GREATER = False" "isWhite AT = False"
  "isWhite SPACE"
  by (simp_all add: isDigit_def isWhite_def COMMA_def MINUS_def LESS_def GREATER_def AT_def PLUS_def FULLSTOP_def SPACE_def)

lemma mark_chars_distinct [simp]:
  "MINUS \<noteq> COMMA" "COMMA \<noteq> MINUS" "FULLSTOP \<noteq> COMMA" "COMMA \<noteq> FULLSTOP" "SPACE \<noteq> MINUS" "GREATER \<noteq> LESS" "LESS \<noteq> GREATER"
  "LESS \<noteq> MINUS" "AT \<noteq> LESS" "AT \<noteq> COMMA" "AT \<noteq> MINUS" "AT \<noteq> GREATER" "PLUS \<noteq> LESS" "PLUS \<noteq> GREATER" "PLUS \<noteq> COMMA" "PLUS \<noteq> MINUS"
  "AT \<noteq> PLUS" "COMMA \<noteq> AT" "MINUS \<noteq> AT" "PLUS \<noteq> AT"
  by (simp_all add: COMMA_def MINUS_def LESS_def GREATER_def AT_def PLUS_def FULLSTOP_def SPACE_def)

lemma digit_facts:
  "isDigit c \<Longrightarrow> \<not> isWhite c" "isDigit c \<Longrightarrow> c \<noteq> COMMA" "isDigit c \<Longrightarrow> c \<noteq> MINUS" "isDigit c \<Longrightarrow> c \<noteq> PLUS"
  "isDigit c \<Longrightarrow> c \<noteq> AT" "isDigit c \<Longrightarrow> c \<noteq> SPACE" "isDigit c \<Longrightarrow> c \<noteq> LESS" "isDigit c \<Longrightarrow> c \<noteq> GREATER"
proof -
  assume c: "isDigit c"
  show "\<not> isWhite c"
  proof
    assume "isWhite c"
    then show False using c unfolding isWhite_def isDigit_def by unat_arith
  qed
qed (auto simp: isDigit_def COMMA_def MINUS_def PLUS_def AT_def SPACE_def LESS_def GREATER_def)

lemma decimal_all: "list_all isDigit (decimal n)"
  using decimal_digits [of n] by (simp add: list_all_iff)

lemma decimal_cases: obtains c cs where "decimal n = c # cs" "isDigit c" "list_all isDigit cs"
  using decimal_all [of n] by (cases "decimal n") auto

lemma digits_taken:
  assumes "list_all isDigit ds" "rest = [] \<or> \<not> isDigit (hd rest)"
  shows "takeWhile isDigit (ds @ rest) = ds" "dropWhile isDigit (ds @ rest) = rest"
  using assms by (induction ds; cases rest; simp)+

lemma decimal_taken [simp]: "takeWhile isDigit (decimal n) = decimal n" "dropWhile isDigit (decimal n) = []"
  using digits_taken [OF decimal_all, of "[]" n] by simp_all

lemma unsignedFloat_decimal: "unsignedFloat (decimal n) = Some (Whole (int n))"
  by (simp add: unsignedFloat_def Let_def digitsValue_decimal)

lemma trimStart_head: "\<not> isWhite c \<Longrightarrow> trimStart (c # s) = c # s"
  by (simp add: trimStart_def)

lemma parseFloat_numeral: "parseFloat (intNumeral n) = Some (Whole n)"
proof (cases "n < 0")
  case True
  then show ?thesis by (simp add: parseFloat_def intNumeral_def trimStart_head unsignedFloat_decimal)
next
  case False
  obtain c cs where c: "decimal (nat n) = c # cs" "isDigit c" by (rule decimal_cases)
  have "trimStart (decimal (nat n)) = decimal (nat n)" using c digit_facts(1) by (simp add: trimStart_head)
  moreover have "\<not> prefix [MINUS] (decimal (nat n))" "\<not> prefix [PLUS] (decimal (nat n))"
    using c digit_facts(3,4) [OF c(2)] by auto
  moreover have "intNumeral n = decimal (nat n)" using False by (simp add: intNumeral_def)
  ultimately show ?thesis using False by (simp add: parseFloat_def Let_def unsignedFloat_decimal)
qed

lemma scanNumber_numeral:
  assumes "rest = [] \<or> hd rest = COMMA"
  shows "scanNumber (intNumeral n @ rest) = (intNumeral n, rest)"
proof -
  have r: "rest = [] \<or> \<not> isDigit (hd rest)" using assms by auto
  have f: "(case rest of c # d # u \<Rightarrow> if c = FULLSTOP \<and> isDigit d then FULLSTOP # takeWhile isDigit (d # u) else [] | _ \<Rightarrow> []) = []"
    using assms by (auto split: list.splits)
  note d = digits_taken [OF decimal_all r]
  obtain c cs where c: "decimal (nat n) = c # cs" "isDigit c" by (rule decimal_cases)
  show ?thesis
  proof (cases "n < 0")
    case True
    then show ?thesis using d f by (simp add: scanNumber_def intNumeral_def Let_def)
  next
    case False
    then have "\<not> prefix [MINUS] (intNumeral n @ rest)" using c digit_facts(3) [OF c(2)] by (auto simp: intNumeral_def)
    then show ?thesis using False d f by (simp add: scanNumber_def intNumeral_def Let_def)
  qed
qed

lemma intNumeral_nonempty [simp]: "intNumeral n \<noteq> []"
  by (simp add: intNumeral_def)

lemma intNumeral_head: "\<exists>c cs. intNumeral n = c # cs \<and> (isDigit c \<or> c = MINUS)"
  using decimal_cases [of "nat n"] by (metis intNumeral_def)

lemma scanMarks_join:
  "scanMarks (joinWith [COMMA] (map intNumeral ns)) = map (\<lambda>n. Some (Whole n)) ns"
proof (induction ns)
  case Nil
  show ?case by (subst scanMarks.simps) simp
next
  case (Cons n ns)
  show ?case
  proof (cases ns)
    case Nil
    then show ?thesis
      using scanNumber_numeral [of "[]" n] by (subst scanMarks.simps) (simp add: parseFloat_numeral)
  next
    case (Cons m ms)
    let ?rest = "joinWith [COMMA] (map intNumeral ns)"
    have j: "joinWith [COMMA] (map intNumeral (n # ns)) = intNumeral n @ COMMA # ?rest" using Cons by simp
    obtain c cs where c: "intNumeral m = c # cs" "isDigit c \<or> c = MINUS" using intNumeral_head [of m] by blast
    then obtain ds where "?rest = c # ds" using Cons by (cases ms) simp_all
    then have "\<not> prefix [SPACE] ?rest" using c(2) digit_facts(6) [of c] by auto
    then show ?thesis
      using Cons.IH scanNumber_numeral [of "COMMA # ?rest" n] unfolding j
      by (subst scanMarks.simps) (simp add: parseFloat_numeral)
  qed
qed

section \<open>Scopes that are written\<close>

lemma trim_bracketed: "trim ([LESS] @ s @ [GREATER]) = [LESS] @ s @ [GREATER]"
  by (simp add: trim_def trimStart_def trimEnd_def)

lemma inner_bracketed [simp]: "inner (LESS # s @ [GREATER]) = s"
  by (simp add: inner_def)

lemma wrap_bracketed: "wrapScope ([LESS] @ s @ [GREATER]) = [LESS] @ s @ [GREATER]"
  unfolding wrapScope_def trim_bracketed Let_def by (simp add: suffix_def)

lemma numeralPattern_numeral: "rest \<in> set (numeralPattern (intNumeral n @ rest))"
proof -
  have d: "rest \<in> set (many1 digit (decimal k @ rest))" for k
    unfolding digit_def by (rule many1_all) (simp_all add: decimal_all)
  have sign: "decimal (nat \<bar>n\<bar>) @ rest \<in> set (optional (lit MINUS) (intNumeral n @ rest))"
    by (auto simp: intNumeral_def optional_def)
  show ?thesis unfolding numeralPattern_def by (rule followedByI, rule sign, rule followedByI, rule d, rule optionalI(1))
qed

lemma separated_numerals:
  assumes "\<And>s r. r \<in> set (numeralPattern s) \<Longrightarrow> r \<in> set (p s)" "\<And>s r. r \<in> set (numeralPattern s) \<Longrightarrow> r \<in> set (q s)"
  shows "rest \<in> set (followedBy p (many (followedBy sepPattern q)) (joinWith [COMMA] (map intNumeral (n # ns)) @ rest))"
proof -
  have step: "rest \<in> set (many (followedBy sepPattern q) (concat (map (\<lambda>m. COMMA # intNumeral m) ms) @ rest))" for ms
  proof (induction ms)
    case Nil
    show ?case by (simp add: manyI(1))
  next
    case (Cons m ms)
    let ?r = "concat (map (\<lambda>m. COMMA # intNumeral m) ms) @ rest"
    have "intNumeral m @ ?r \<in> set (sepPattern (COMMA # intNumeral m @ ?r))"
      by (auto simp: sepPattern_def eitherOr_def followedBy_def optional_def)
    then have "?r \<in> set (followedBy sepPattern q (COMMA # intNumeral m @ ?r))"
      by (rule followedByI) (rule assms(2) [OF numeralPattern_numeral])
    then show ?case using manyI(2) [of ?r "followedBy sepPattern q" "COMMA # intNumeral m @ ?r" rest] Cons by simp
  qed
  have join: "joinWith [COMMA] (map intNumeral (n # ns)) = intNumeral n @ concat (map (\<lambda>m. COMMA # intNumeral m) ns)"
    by (induction ns arbitrary: n) simp_all
  show ?thesis unfolding join using step [of ns] by (auto intro: followedByI assms numeralPattern_numeral)
qed

lemma bracketed_numerals:
  assumes "ns \<noteq> []" "\<And>s r. r \<in> set (numeralPattern s) \<Longrightarrow> r \<in> set (p s)" "\<And>s r. r \<in> set (numeralPattern s) \<Longrightarrow> r \<in> set (q s)"
  shows "[] \<in> set (followedBy (lit LESS) (followedBy p (followedBy (many (followedBy sepPattern q)) (lit GREATER))) (formatInts ns))"
proof -
  obtain n ms where ns: "ns = n # ms" using assms(1) by (cases ns) simp_all
  let ?j = "joinWith [COMMA] (map intNumeral ns)"
  obtain r where r: "r \<in> set (p (?j @ [GREATER]))" "[GREATER] \<in> set (many (followedBy sepPattern q) r)"
  proof -
    have "[GREATER] \<in> set (followedBy p (many (followedBy sepPattern q)) (?j @ [GREATER]))"
      unfolding ns by (rule separated_numerals) (fact assms(2,3))+
    then show thesis by (rule followedByE) (rule that)
  qed
  have t: "[] \<in> set (followedBy (many (followedBy sepPattern q)) (lit GREATER) r)"
    by (rule followedByI, rule r(2)) simp
  have "[] \<in> set (followedBy p (followedBy (many (followedBy sepPattern q)) (lit GREATER)) (?j @ [GREATER]))"
    by (rule followedByI, rule r(1), rule t)
  then show ?thesis by (rule followedByI [rotated]) (simp add: formatInts_def)
qed

lemma numericPattern_written: "ns \<noteq> [] \<Longrightarrow> matchesAll numericPattern (formatInts ns)"
  unfolding matchesAll_def numericPattern_def by (rule bracketed_numerals)

lemma textScope_written: "ns \<noteq> [] \<Longrightarrow> matchesAll textScope (formatInts ns)"
  unfolding matchesAll_def textScope_def
  by (rule followedByI, rule optionalI(1), rule bracketed_numerals) (simp_all add: eitherOr_def)

text \<open>A scope of numbers is wrapped as it is, holds no sigil and no plus, and is no relative range.\<close>

lemma numeral_chars: "set (intNumeral n) \<subseteq> {c. isDigit c} \<union> {MINUS}"
  using decimal_all by (auto simp: intNumeral_def list_all_iff)

lemma joined_chars: "set (joinWith [COMMA] (map intNumeral ns)) \<subseteq> {c. isDigit c} \<union> {MINUS, COMMA}"
proof (induction ns rule: induct_list012)
  case (2 n)
  then show ?case using numeral_chars [of n] by auto
next
  case (3 n m ns)
  then show ?case using numeral_chars [of n] by auto
qed simp

lemma formatInts_chars: "PLUS \<notin> set (formatInts ns)" "AT \<notin> set (formatInts ns)"
  using joined_chars [of ns] by (auto simp: formatInts_def)

lemma wrap_formatInts [simp]: "wrapScope (formatInts ns) = formatInts ns"
  unfolding formatInts_def by (rule wrap_bracketed)

lemma inner_formatInts [simp]: "inner (formatInts ns) = joinWith [COMMA] (map intNumeral ns)"
  unfolding formatInts_def by simp

lemma in_set_dropWhileD: "x \<in> set (dropWhile P xs) \<Longrightarrow> x \<in> set xs"
  by (metis set_dropWhileD)

lemma relativeParts_plus: "relativeParts s \<noteq> None \<Longrightarrow> PLUS \<in> set s"
proof -
  assume r: "relativeParts s \<noteq> None"
  define t where "t = dropWhile isDigit (inner s)"
  define u where "u = (if prefix [COMMA, SPACE] t then drop 2 t else drop 1 t)"
  have "prefix [PLUS] u" using r unfolding relativeParts_def Let_def u_def t_def by (simp split: if_splits)
  then have "PLUS \<in> set u" by (auto simp: prefix_def)
  then have "PLUS \<in> set t" unfolding u_def by (auto split: if_splits dest: in_set_dropD)
  then have "PLUS \<in> set (inner s)" unfolding t_def by (rule in_set_dropWhileD)
  then show ?thesis unfolding inner_def by (cases s) (auto dest: in_set_butlastD)
qed

lemma relative_formatInts [simp]: "relativeParts (formatInts ns) = None"
  using relativeParts_plus formatInts_chars(1) by blast

lemma parseLineMarker_written:
  "ns \<noteq> [] \<Longrightarrow> parseLineMarker (formatInts ns) = Inr (map (\<lambda>n. Some (Whole n)) ns)"
  by (simp add: parseLineMarker_def Let_def numericPattern_written scanMarks_join)

lemma parseRangeMarker_written:
  "ns \<noteq> [] \<Longrightarrow> \<not> countGiven (map (\<lambda>n. Some (Whole n)) ns) \<Longrightarrow>
     parseRangeMarker (formatInts ns) = Inr (map (\<lambda>n. Some (Whole n)) ns, [])"
  using formatInts_chars(1) by (simp add: parseRangeMarker_def Let_def numericPattern_written parseLineMarker_written)

lemma formatInts_head: "hd (formatInts ns) = LESS" "formatInts ns \<noteq> []"
  by (simp_all add: formatInts_def)

lemma parseTextLineMarker_written:
  "ns \<noteq> [] \<Longrightarrow> \<not> countGiven (map (\<lambda>n. Some (Whole n)) ns) \<Longrightarrow>
     parseTextLineMarker (formatInts ns) = Inr (map (\<lambda>n. Some (NumberMark (Whole n))) ns, [])"
  using formatInts_chars(2)
  by (simp add: parseTextLineMarker_def Let_def textScope_written parseRangeMarker_written formatInts_head comp_def)


section \<open>Rows\<close>

lemma trim_row: "isAnchor a \<Longrightarrow> trim (rowPrefix width n a) = decimal n @ [LESS] @ a @ [GREATER]"
proof -
  obtain c cs where c: "decimal n = c # cs" "isDigit c" by (rule decimal_cases)
  have "trimStart (replicate k SPACE @ s) = trimStart s" for k s
    by (induction k) (simp_all add: trimStart_def)
  then have "trimStart (rowPrefix width n a) = decimal n @ [LESS] @ a @ [GREATER]"
    using c digit_facts(1) [OF c(2)] by (simp add: rowPrefix_def padStart_def trimStart_head)
  then show ?thesis by (simp add: trim_def trimEnd_def)
qed

lemma rowNumber_decimal: "0 < n \<Longrightarrow> r \<in> set (rowNumberPattern (decimal n @ r))"
proof -
  assume n: "0 < n"
  obtain c cs where c: "decimal n = c # cs" "isDigit c" "list_all isDigit cs" by (rule decimal_cases)
  then have "c \<noteq> 48" using decimal_head [OF n] by simp
  then have h: "cs @ r \<in> set (one (\<lambda>c. isDigit c \<and> c \<noteq> 48) (decimal n @ r))" using c by simp
  have m: "r \<in> set (many digit (cs @ r))" unfolding digit_def by (rule many_all) (rule c(3))
  show ?thesis unfolding rowNumberPattern_def by (rule followedByI, rule h, rule m)
qed

lemma wrap_row:
  assumes "isAnchor a" "0 < n"
  shows "wrapScope (rowPrefix width n a) = decimal n @ [LESS] @ a @ [GREATER]"
proof -
  have m: "[GREATER] \<in> set (many (one (\<lambda>c. True)) (a @ [GREATER]))" by (rule many_all) (simp add: list_all_iff)
  have g: "[] \<in> set (lit GREATER [GREATER])" by simp
  have l: "a @ [GREATER] \<in> set (lit LESS ([LESS] @ a @ [GREATER]))" by simp
  have "matchesAll rowPattern (decimal n @ [LESS] @ a @ [GREATER])"
    unfolding matchesAll_def rowPattern_def
    by (rule followedByI, rule rowNumber_decimal, rule assms(2), rule followedByI, rule l, rule followedByI, rule m, rule g)
  then show ?thesis unfolding wrapScope_def trim_row [OF assms(1)] by (simp add: Let_def)
qed

lemma anchor_cases:
  assumes "isAnchor a"
  obtains cs where "a = AT # cs" "length cs = 5" "list_all alphanumeric cs"
  using assms unfolding isAnchor_def by (cases a) auto

lemma times_all: "list_all P cs \<Longrightarrow> r \<in> set (times (length cs) (one P) (cs @ r))"
proof (induction cs)
  case (Cons c cs)
  then show ?case by (simp add: followedBy_def)
qed simp

lemma anchorPattern_anchor: "isAnchor a \<Longrightarrow> r \<in> set (anchorPattern (a @ r))"
proof (erule anchor_cases)
  fix cs
  assume a: "a = AT # cs" "length cs = 5" "list_all alphanumeric cs"
  have l: "cs @ r \<in> set (lit AT (a @ r))" by (simp add: a(1))
  have t: "r \<in> set (times 5 (one alphanumeric) (cs @ r))" using times_all [OF a(3)] a(2) by simp
  show ?thesis
    unfolding anchorPattern_def by (rule followedByI, rule l, rule followedByI, rule t, rule optionalI(1))
qed

lemma textScope_row:
  assumes "isAnchor a" "0 < n"
  shows "matchesAll textScope (decimal n @ [LESS] @ a @ [GREATER])"
proof -
  have n: "[LESS] @ a @ [GREATER] \<in> set (optional rowNumberPattern (decimal n @ [LESS] @ a @ [GREATER]))"
    by (rule optionalI(2), rule rowNumber_decimal, rule assms(2))
  have l: "a @ [GREATER] \<in> set (lit LESS ([LESS] @ a @ [GREATER]))" by simp
  have a: "[GREATER] \<in> set (eitherOr numeralPattern (eitherOr anchorPattern sigilPattern) (a @ [GREATER]))"
    using anchorPattern_anchor [OF assms(1)] by (simp add: eitherOr_def)
  have m: "[] \<in> set (lit GREATER [GREATER])" by simp
  show ?thesis
    unfolding matchesAll_def textScope_def
    by (rule followedByI, rule n, rule followedByI, rule l, rule followedByI, rule a, rule followedByI, rule manyI(1), rule m)
qed

lemma splitComponents_plain: "COMMA \<notin> set s \<Longrightarrow> MINUS \<notin> set s \<Longrightarrow> splitComponents s = [s]"
  by (induction s rule: splitComponents.induct) auto

lemma sigil_short: "matchesAll sigilPattern s \<Longrightarrow> length s \<le> 5"
proof -
  have one: "r \<in> set (one P s) \<Longrightarrow> length s = Suc (length r)" for P r s by (cases s) (auto split: if_splits)
  have opt: "r \<in> set (optional (one P) s) \<Longrightarrow> length s \<le> Suc (length r)" for P r s
    using one by (auto simp: optional_def)
  assume "matchesAll sigilPattern s"
  then show ?thesis
    unfolding matchesAll_def sigilPattern_def digit_def lit_def
    by (auto elim!: followedByE dest!: one opt)
qed

lemma alphanumeric_plain: "alphanumeric c \<Longrightarrow> c \<noteq> COMMA" "alphanumeric c \<Longrightarrow> c \<noteq> MINUS"
  by (auto simp: alphanumeric_def COMMA_def MINUS_def)

lemma parseTextLineMarker_row:
  assumes a: "isAnchor a" and n: "0 < n"
  shows "parseTextLineMarker (rowPrefix width n a) =
    Inr ([Some (AnchorMark a)], [RowNumberDropped (decimal n @ [LESS] @ a @ [GREATER]) ([LESS] @ a @ [GREATER])])"
proof -
  obtain cs where cs: "a = AT # cs" "length cs = 5" "list_all alphanumeric cs" by (rule anchor_cases [OF a])
  have split: "splitComponents a = [a]"
    by (rule splitComponents_plain) (use cs alphanumeric_plain mark_chars_distinct in \<open>auto simp: list_all_iff\<close>)
  have read: "readComponent a = (Some (AnchorMark a), [])"
    using sigil_short [of a] cs by (auto simp: readComponent_def)
  obtain c ds where d: "decimal n = c # ds" "isDigit c" by (rule decimal_cases)
  have drop: "dropWhile isDigit (decimal n @ [LESS] @ a @ [GREATER]) = [LESS] @ a @ [GREATER]"
    by (rule digits_taken(2)) (simp_all add: decimal_all)
  have plus: "\<not> prefix [PLUS] a" by (simp add: cs(1))
  have marked: "AT \<in> set ([LESS] @ a @ [GREATER])" by (simp add: cs(1))
  have "hd (decimal n @ [LESS] @ a @ [GREATER]) = c" by (simp add: d)
  then show ?thesis
    using d(2) marked plus
    by (simp add: parseTextLineMarker_def wrap_row [OF a n] textScope_row [OF a n, simplified] drop [simplified] split read Let_def del: in_set_conv_decomp)
qed

section \<open>Counts\<close>

lemma takeWhile_digits: "list_all isDigit (takeWhile isDigit s)"
  by (simp add: list_all_iff) (meson set_takeWhileD)

lemma relativeParts_nonneg: "relativeParts s = Some (a, b) \<Longrightarrow> 0 \<le> a \<and> 0 \<le> b"
  unfolding relativeParts_def Let_def
  using digitsValue_nonneg takeWhile_digits by (auto split: if_splits)

fun_cases countGivenE: "countGiven ms"

lemma parseRangeMarker_advice:
  assumes "parseRangeMarker raw = Inr (ms, advice)" "advice \<noteq> []"
  shows "\<exists>a b. ms = [Some (Whole a), Some (Whole b)] \<and> 1 \<le> a \<and> a \<le> b \<and> safeInt b \<and> advice = [CountRead (wrapScope raw) a b]"
proof (cases "relativeParts (wrapScope raw)")
  case None
  then obtain ns where ns: "parseLineMarker (wrapScope raw) = Inr ns" "countGiven ns"
    using assms by (auto simp: parseRangeMarker_def Let_def andThen_def split: if_splits sum.splits)
  then obtain s e where "ns = [Some (Whole s), Some (Whole e)]" "0 < s" "0 < e" "e < s"
    by (elim countGivenE) auto
  then show ?thesis using assms None ns(1)
    by (auto simp: parseRangeMarker_def Let_def split: if_splits)
next
  case (Some ab)
  obtain a b where ab: "ab = (a, b)" by fastforce
  then show ?thesis using assms Some relativeParts_nonneg [of "wrapScope raw" a b]
    by (auto simp: parseRangeMarker_def Let_def split: if_splits)
qed

lemma parseRangeMarker_count:
  assumes "0 < n" "n < s" "safeInt (s + n - 1)"
  shows "parseRangeMarker (formatInts [s, n]) =
    Inr ([Some (Whole s), Some (Whole (s + n - 1))], [CountRead (formatInts [s, n]) s (s + n - 1)])"
  using assms formatInts_chars(1) [of "[s, n]"]
  by (simp add: parseRangeMarker_def Let_def numericPattern_written parseLineMarker_written safeInt_def algebra_simps)

lemma printed_lines_read_back:
  "first \<le> final \<Longrightarrow> parseTextLineMarker (formatLines first final) =
     Inr (map (\<lambda>n. Some (NumberMark (Whole n))) (if first = final then [first] else [first, final]), [])"
  unfolding formatLines_def by (subst parseTextLineMarker_written) simp_all

section \<open>Properties\<close>

text \<open>C29. The scopes the service prints are scopes it reads: the text of a non-empty list of safe integers, read as a text scope or
  as a range scope, is that list, without advice, unless it is two positive numbers of which the second is the smaller (which are
  read as a start and a count).\<close>

theorem printed_scope_reads_back:
  assumes "ns \<noteq> []" "\<forall>n \<in> set ns. safeInt n" "\<not> countGiven (map (\<lambda>n. Some (Whole n)) ns)"
  shows "parseTextLineMarker (formatInts ns) = Inr (map (\<lambda>n. Some (NumberMark (Whole n))) ns, [])
    \<and> parseRangeMarker (formatInts ns) = Inr (map (\<lambda>n. Some (Whole n)) ns, [])"
  using parseTextLineMarker_written [OF assms(1,3)] parseRangeMarker_written [OF assms(1)] assms(3) by simp

theorem printed_scope_reads_back_witness:
  "parseTextLineMarker (formatInts [3, - 1]) = Inr ([Some (NumberMark (Whole 3)), Some (NumberMark (Whole (- 1)))], [])
    \<and> parseRangeMarker (formatInts [3, - 1]) = Inr ([Some (Whole 3), Some (Whole (- 1))], [])"
  using printed_scope_reads_back [of "[3, - 1]"] by (simp add: safeInt_def MAX_SAFE_INTEGER_def)

text \<open>C30. A range read from a count never runs backwards: when a range scope is accepted with advice, its two marks are
  safe integers from 1 on, the first not past the second, and the advice shows just these.\<close>

theorem count_reads_forward:
  assumes "parseRangeMarker raw = Inr (ms, advice)" "advice \<noteq> []"
  shows "\<exists>a b. ms = [Some (Whole a), Some (Whole b)] \<and> 1 \<le> a \<and> a \<le> b \<and> safeInt b \<and> advice = [CountRead (wrapScope raw) a b]"
  using assms by (rule parseRangeMarker_advice)

text \<open>The text \<open>10,3\<close>.\<close>

theorem count_reads_forward_witness:
  "\<exists>a b. [Some (Whole 10), Some (Whole 12)] = [Some (Whole a), Some (Whole b)] \<and> 1 \<le> a \<and> a \<le> b \<and> safeInt b
     \<and> [CountRead [60, 49, 48, 44, 51, 62] 10 12] = [CountRead (wrapScope [49, 48, 44, 51]) a b]"
proof -
  have "parseRangeMarker [49, 48, 44, 51] =
    Inr ([Some (Whole 10), Some (Whole 12)], [CountRead [60, 49, 48, 44, 51, 62] 10 12])"
    by code_simp
  then show ?thesis by (rule count_reads_forward) simp
qed

text \<open>A row's gutter names its line: the number and anchor a row is printed with, copied whole as a scope, are read as
  the anchor alone, and the dropped row number is reported.\<close>

lemma row_gutter_reads_as_anchor:
  assumes "isAnchor a" "0 < n"
  shows "parseTextLineMarker (rowPrefix width n a) =
    Inr ([Some (AnchorMark a)], [RowNumberDropped (decimal n @ [LESS] @ a @ [GREATER]) ([LESS] @ a @ [GREATER])])"
  using assms by (rule parseTextLineMarker_row)

lemma row_gutter_reads_as_anchor_witness:
  "parseTextLineMarker (rowPrefix 3 7 [64, 97, 49, 98, 50, 99]) =
    Inr ([Some (AnchorMark [64, 97, 49, 98, 50, 99])],
      [RowNumberDropped (decimal 7 @ [LESS] @ [64, 97, 49, 98, 50, 99] @ [GREATER]) ([LESS] @ [64, 97, 49, 98, 50, 99] @ [GREATER])])"
proof -
  have "isAnchor [64, 97, 49, 98, 50, 99]" by code_simp
  then show ?thesis by (rule row_gutter_reads_as_anchor) simp
qed

section \<open>Where the scanners differ from the expressions\<close>

text \<open>The expression admits a tab after the comma, the scanner skips a space alone: the second mark is no number.\<close>

lemma tab_after_comma_is_no_number:
  "parseLineMarker [60, 49, 44, 9, 50, 62] = Inr [Some (Whole 1), None]"
  by code_simp

text \<open>An anchor with a negative offset, \<open><@abcde-3>\<close>, is split at its sign into an anchor and a line.\<close>

lemma negative_offset_is_split:
  "parseTextLineMarker [60, 64, 97, 98, 99, 100, 101, 45, 51, 62]
     = Inr ([Some (AnchorMark [64, 97, 98, 99, 100, 101]), Some (NumberMark (Whole 3))], [])"
  by code_simp

text \<open>And a negative number after an anchor, \<open><@abcde,-1>\<close>, leaves a mark that is no number between the two.\<close>

lemma negative_number_after_anchor:
  "parseTextLineMarker [60, 64, 97, 98, 99, 100, 101, 44, 45, 49, 62]
     = Inr ([Some (AnchorMark [64, 97, 98, 99, 100, 101]), None, Some (NumberMark (Whole 1))], [])"
  by code_simp

end
