(* ===== verification/JsSearch.thy ===== *)
theory JsSearch
  imports JsText "HOL-Library.Sublist"
begin

text \<open>
  Searching and splitting strings: \<open>startsWith\<close> is \<open>prefix\<close>, \<open>endsWith\<close> is \<open>suffix\<close>, \<open>indexOf\<close>,
  \<open>includes\<close>, \<open>split\<close> at one character and at runs of white space, and the character classes of
  the regular expressions the scanners use.
\<close>

text \<open>\<open>s.indexOf(p)\<close>, \<open>-1\<close> as \<open>None\<close>.\<close>

fun indexOf :: "'a list \<Rightarrow> 'a list \<Rightarrow> nat option" where
  "indexOf p [] = (if p = [] then Some 0 else None)"
| "indexOf p (c # s) = (if prefix p (c # s) then Some 0 else map_option Suc (indexOf p s))"

lemma indexOf_Some:
  "indexOf p s = Some i \<longleftrightarrow>
     i \<le> length s \<and> prefix p (drop i s) \<and> (\<forall>j < i. \<not> prefix p (drop j s))"
proof (induction s arbitrary: i)
  case (Cons c s)
  show ?case
  proof (cases i)
    case (Suc k)
    then show ?thesis using Cons.IH [of k] by (force simp: less_Suc_eq_0_disj)
  qed auto
qed auto

lemma indexOf_None: "indexOf p s = None \<longleftrightarrow> (\<forall>j \<le> length s. \<not> prefix p (drop j s))"
proof (induction s)
  case (Cons c s)
  have "(\<forall>j \<le> length (c # s). \<not> prefix p (drop j (c # s)))
      \<longleftrightarrow> \<not> prefix p (c # s) \<and> (\<forall>j \<le> length s. \<not> prefix p (drop j s))"
    using All_less_Suc2 [of "Suc (length s)" "\<lambda>j. \<not> prefix p (drop j (c # s))"]
    by (simp add: less_Suc_eq_le)
  then show ?case using Cons.IH by simp
qed auto

lemma indexOf_cut:
  assumes "indexOf p s = Some i"
  shows "s = take i s @ p @ drop (i + length p) s" "i + length p \<le> length s"
proof -
  have "prefix p (drop i s)" using assms by (simp add: indexOf_Some)
  then obtain t where t: "drop i s = p @ t" by (auto simp: prefix_def)
  then have "s = take i s @ p @ t" using append_take_drop_id [of i s] by simp
  moreover have "drop (i + length p) s = t" using t by (metis add.commute append_eq_conv_conj drop_drop)
  ultimately show "s = take i s @ p @ drop (i + length p) s" by simp
  have "i \<le> length s" using assms by (simp add: indexOf_Some)
  then show "i + length p \<le> length s" using arg_cong [OF t, of length] by simp
qed

text \<open>\<open>s.includes(p)\<close>.\<close>

definition includesStr :: "'a list \<Rightarrow> 'a list \<Rightarrow> bool" where
  "includesStr p s \<longleftrightarrow> indexOf p s \<noteq> None"

text \<open>\<open>s.split(c)\<close> for one character.\<close>

fun splitChar :: "'a \<Rightarrow> 'a list \<Rightarrow> 'a list list" where
  "splitChar d [] = [[]]"
| "splitChar d (c # s) =
     (if c = d then [] # splitChar d s
      else case splitChar d s of [] \<Rightarrow> [[c]] | w # ws \<Rightarrow> (c # w) # ws)"

text \<open>\<open>s.split(/\s+/)\<close>.\<close>

function splitWhite :: "jsstr \<Rightarrow> jsstr list" where
  "splitWhite s =
     takeWhile (\<lambda>c. \<not> isWhite c) s
     # (case dropWhile (\<lambda>c. \<not> isWhite c) s of
          [] \<Rightarrow> []
        | c # r \<Rightarrow> splitWhite (dropWhile isWhite r))"
  by pat_completeness auto
termination
proof (relation "measure length")
  fix s c r
  assume "dropWhile (\<lambda>c. \<not> isWhite c) s = c # r"
  then have "length (c # r) \<le> length s" using length_dropWhile_le [of "\<lambda>c. \<not> isWhite c" s] by simp
  then show "(dropWhile isWhite r, s) \<in> measure length"
    using length_dropWhile_le [of isWhite r] by simp
qed simp

declare splitWhite.simps [simp del]

lemma splitWhite_word: "\<forall>c \<in> set w. \<not> isWhite c \<Longrightarrow> splitWhite w = [w]"
proof -
  assume w: "\<forall>c \<in> set w. \<not> isWhite c"
  then have "dropWhile (\<lambda>c. \<not> isWhite c) w = []" "takeWhile (\<lambda>c. \<not> isWhite c) w = w"
    by (auto simp: takeWhile_eq_all_conv dropWhile_eq_Nil_conv)
  then show "splitWhite w = [w]" by (subst splitWhite.simps) (simp only: list.case)
qed

lemma splitWhite_words:
  assumes "\<forall>c \<in> set w. \<not> isWhite c" "isWhite c" "\<And>d r. s = d # r \<Longrightarrow> \<not> isWhite d"
  shows "splitWhite (w @ c # s) = w # splitWhite s"
proof -
  have "dropWhile (\<lambda>c. \<not> isWhite c) (w @ c # s) = c # s"
    "takeWhile (\<lambda>c. \<not> isWhite c) (w @ c # s) = w" using assms(1,2)
    by (auto simp: dropWhile_append takeWhile_append dropWhile_eq_Nil_conv takeWhile_eq_all_conv)
  moreover have "dropWhile isWhite s = s" using assms(3) by (cases s) auto
  ultimately show ?thesis by (subst splitWhite.simps) (simp only: list.case)
qed

text \<open>A character \<open>.\<close> matches, and \<open>(.*)$\<close> matches a text of such characters.\<close>

definition dotChar :: "jschar \<Rightarrow> bool" where
  "dotChar c \<longleftrightarrow> c \<noteq> 10 \<and> c \<noteq> 13 \<and> c \<noteq> 8232 \<and> c \<noteq> 8233"

definition dots :: "jsstr \<Rightarrow> bool" where
  "dots s \<longleftrightarrow> list_all dotChar s"

text \<open>\<open>/^p(.*)$/\<close> for a literal \<open>p\<close>: what follows it.\<close>

definition afterLiteral :: "string \<Rightarrow> jsstr \<Rightarrow> jsstr option" where
  "afterLiteral p s =
     (if prefix (js p) s \<and> dots (drop (length p) s) then Some (drop (length p) s) else None)"

text \<open>\<open>/^p\s+(.*)$/\<close> for a literal \<open>p\<close>.\<close>

definition afterWhite :: "string \<Rightarrow> jsstr \<Rightarrow> jsstr option" where
  "afterWhite p s =
     (let r = drop (length p) s; t = dropWhile isWhite r
      in if prefix (js p) s \<and> length t < length r \<and> dots t then Some t else None)"

end
