(* ===== verification/BudgetReadout.thy ===== *)
theory BudgetReadout
  imports JsJson JsSearch
begin

text \<open>
  \<^verbatim>\<open>plurnk-core/src/core/BudgetReadout.ts\<close>: the gauge a packet carries, one JSON object that states the packet's own
  weight, its budget and the share of it. The gauge is part of what it measures, so its figures are settled by widening
  their fields until they fit. The weight of the packet around a gauge, the configured number of named items and the
  product of a budget and the configured pressure are parameters. The share is the exact quotient, which the source
  computes up to 9 * 10^13 tokens.
\<close>

section \<open>Templates\<close>

definition TOKENS_PLACEHOLDER :: jsstr where "TOKENS_PLACEHOLDER = js ''{{tokens}}''"
definition PERCENT_PLACEHOLDER :: jsstr where "PERCENT_PLACEHOLDER = js ''{{percent}}''"
definition MAX_WIDTH_PASSES :: nat where "MAX_WIDTH_PASSES = 64"

datatype BudgetError =
    BadBudget
  | BadWeight
  | TokensNotOnce
  | PercentWithoutBudget
  | NotOneLogUri jsstr
  | BadItemTokens
  | MeasurementChanged int int
  | DidNotConverge

record LargestLogItem =
  itemPath :: jsstr
  itemTokens :: jsnum

text \<open>\<open>s.replace(p, v)\<close> of a text; the values replaced in hold no dollar sign.\<close>

definition replaceFirst :: "jsstr \<Rightarrow> jsstr \<Rightarrow> jsstr \<Rightarrow> jsstr" where
  "replaceFirst p v s = (case indexOf p s of None \<Rightarrow> s | Some i \<Rightarrow> take i s @ v @ drop (i + length p) s)"

text \<open>\<open>s.split(p)\<close> for a text that is not empty.\<close>

function splitText :: "jsstr \<Rightarrow> jsstr \<Rightarrow> jsstr list" where
  "splitText p s =
     (case indexOf p s of
        None \<Rightarrow> [s]
      | Some i \<Rightarrow> if p = [] then [s] else take i s # splitText p (drop (i + length p) s))"
  by pat_completeness auto
termination
proof (relation "measure (\<lambda>(p, s). length s)")
  fix p s :: jsstr and i
  assume "indexOf p s = Some i" "p \<noteq> []"
  then show "((p, drop (i + length p) s), (p, s)) \<in> measure (\<lambda>(p, s). length s)"
    using indexOf_cut(2) [of p s i] by (cases p) auto
qed simp

declare splitText.simps [simp del]

definition assertBudget :: "jsnum \<Rightarrow> BudgetError + unit" where
  "assertBudget b = (if isSafeInteger b \<and> 0 \<le> wholeOf b then Inr () else Inl BadBudget)"

definition draft :: "jsnum option \<Rightarrow> BudgetError + jsstr" where
  \<open>draft budget =
     (case budget of
        None \<Rightarrow> Inr (js ''{"tokens":'' @ TOKENS_PLACEHOLDER @ js ''}'')
      | Some b \<Rightarrow> andThen (assertBudget b) (\<lambda>_.
          if wholeOf b = 0 then Inr (js ''{"tokens":'' @ TOKENS_PLACEHOLDER @ js '',"budget":0}'')
          else Inr (js ''{"tokens":'' @ TOKENS_PLACEHOLDER @ js '',"budget":'' @ decimal (nat (wholeOf b))
                 @ js '',"percent":'' @ PERCENT_PLACEHOLDER @ js ''}'')))\<close>

text \<open>The budget a stored gauge showed.\<close>

definition budgetOf :: "jsstr \<Rightarrow> jsnum option" where
  "budgetOf content =
     (case parseJson (takeWhile (\<lambda>c. c \<noteq> LF) content) of
        Some (VObject r) \<Rightarrow> (case property r (js ''budget'') of VNumber n \<Rightarrow> Some n | _ \<Rightarrow> None)
      | _ \<Rightarrow> None)"

text \<open>\<open>/"budget":(\d+)/\<close>, its digits.\<close>

fun statedBudget :: "jsstr \<Rightarrow> jsstr option" where
  "statedBudget [] = None"
| \<open>statedBudget (c # s) =
     (let ds = takeWhile isDigit (drop 9 (c # s))
      in if prefix (js ''"budget":'') (c # s) \<and> ds \<noteq> [] then Some ds else statedBudget s)\<close>

definition templateBudget :: "jsstr \<Rightarrow> int option" where
  "templateBudget template =
     (case statedBudget template of
        None \<Rightarrow> None
      | Some ds \<Rightarrow> if 0 < digitsValue ds then Some (digitsValue ds) else None)"

definition assertTemplate :: "jsstr \<Rightarrow> BudgetError + unit" where
  "assertTemplate template =
     (let percents = length (splitText PERCENT_PLACEHOLDER template) - 1
      in if length (splitText TOKENS_PLACEHOLDER template) \<noteq> 2 then Inl TokensNotOnce
         else if 1 < percents \<or> percents = 1 \<and> templateBudget template = None then Inl PercentWithoutBudget
         else Inr ())"

section \<open>The figures\<close>

definition renderGauge :: "jsstr \<Rightarrow> jsstr \<Rightarrow> jsstr \<Rightarrow> jsstr" where
  "renderGauge template tokens percent =
     replaceFirst PERCENT_PLACEHOLDER percent (replaceFirst TOKENS_PLACEHOLDER tokens template)"

definition assertWeight :: "jsnum \<Rightarrow> BudgetError + int" where
  "assertWeight w = (if isSafeInteger w \<and> 0 \<le> wholeOf w then Inr (wholeOf w) else Inl BadWeight)"

definition percentText :: "int option \<Rightarrow> int \<Rightarrow> jsstr" where
  "percentText budget usage = (case budget of None \<Rightarrow> [] | Some b \<Rightarrow> decimal (nat (usage * 100 div b)))"

primrec widthPasses :: "nat \<Rightarrow> (jsstr \<Rightarrow> jsnum) \<Rightarrow> jsstr \<Rightarrow> nat \<Rightarrow> nat \<Rightarrow> BudgetError + (jsstr \<times> int)" where
  "widthPasses 0 measurePacket template tokensWidth percentWidth = Inl DidNotConverge"
| "widthPasses (Suc passes) measurePacket template tokensWidth percentWidth =
     andThen (assertWeight (measurePacket (renderGauge template (replicate tokensWidth 48) (replicate percentWidth 48)))) (\<lambda>usage.
       let tokens = decimal (nat usage); percent = percentText (templateBudget template) usage;
           expandedTokens = max tokensWidth (length tokens); expandedPercent = max percentWidth (length percent)
       in if expandedTokens \<noteq> tokensWidth \<or> expandedPercent \<noteq> percentWidth
          then widthPasses passes measurePacket template expandedTokens expandedPercent
          else let content = renderGauge template (padStart tokens tokensWidth) (padStart percent percentWidth)
               in andThen (assertWeight (measurePacket content)) (\<lambda>finalWeight.
                 if finalWeight \<noteq> usage then Inl (MeasurementChanged usage finalWeight) else Inr (content, usage)))"

definition resolveTemplate :: "jsstr \<Rightarrow> (jsstr \<Rightarrow> jsnum) \<Rightarrow> BudgetError + (jsstr \<times> int)" where
  "resolveTemplate template measurePacket = widthPasses MAX_WIDTH_PASSES measurePacket template 1 1"

section \<open>The inventory\<close>

definition assertLargestLogItem :: "LargestLogItem \<Rightarrow> BudgetError + LargestLogItem" where
  "assertLargestLogItem it =
     (if \<not> prefix (js ''log:///'') (itemPath it) \<or> CR \<in> set (itemPath it) \<or> LF \<in> set (itemPath it)
      then Inl (NotOneLogUri (itemPath it))
      else if \<not> isSafeInteger (itemTokens it) \<or> wholeOf (itemTokens it) \<le> 0 then Inl BadItemTokens
      else Inr it)"

definition heavier :: "LargestLogItem \<Rightarrow> LargestLogItem \<Rightarrow> bool" where
  "heavier a b \<longleftrightarrow>
     (if wholeOf (itemTokens a) = wholeOf (itemTokens b) then codeUnitLe (itemPath a) (itemPath b)
      else wholeOf (itemTokens b) < wholeOf (itemTokens a))"

definition itemText :: "LargestLogItem \<Rightarrow> jsstr" where
  \<open>itemText it = js ''{"path":'' @ quoteJson (itemPath it) @ js '',"tokens":'' @ decimal (nat (wholeOf (itemTokens it))) @ js ''}''\<close>

text \<open>\<open>/\}\s*$/\<close> is replaced.\<close>

definition withInventory :: "jsstr \<Rightarrow> LargestLogItem list \<Rightarrow> jsstr" where
  \<open>withInventory template items =
     (let t = trimEnd template
      in if suffix (js ''}'') t
         then butlast t @ js '',"largest":['' @ joinWith (js '','') (map itemText items) @ js '']}''
         else template)\<close>

definition resolveReadout ::
  "nat \<Rightarrow> (jsnum \<Rightarrow> rat) \<Rightarrow> jsstr \<Rightarrow> (jsstr \<Rightarrow> jsnum) \<Rightarrow> LargestLogItem list \<Rightarrow> BudgetError + jsstr" where
  "resolveReadout largestItems underPressure template measurePacket largestLogItems =
     andThen (assertTemplate template) (\<lambda>_.
     andThen (mapResult assertLargestLogItem largestLogItems) (\<lambda>items.
       let ranked = take largestItems (sortBy heavier items)
       in andThen (resolveTemplate template measurePacket) (\<lambda>neutral.
            case budgetOf (fst neutral) of
              None \<Rightarrow> Inr (fst neutral)
            | Some budget \<Rightarrow>
                if of_int (snd neutral) \<le> underPressure budget then Inr (fst neutral)
                else andThen (resolveTemplate (withInventory template ranked) measurePacket) (\<lambda>r. Inr (fst r)))))"

section \<open>The widths settle\<close>

lemma length_decimal_less: "n < 10 ^ k \<Longrightarrow> 0 < k \<Longrightarrow> length (decimal n) \<le> k"
proof (induction k arbitrary: n)
  case (Suc k)
  show ?case
  proof (cases "n < 10")
    case True
    then show ?thesis by (simp add: decimal.simps)
  next
    case False
    then have "0 < k" using Suc.prems(1) by (cases k) auto
    moreover have "n div 10 < 10 ^ k" using Suc.prems(1) by (simp add: less_mult_imp_div_less mult.commute)
    ultimately show ?thesis using Suc.IH [of "n div 10"] False by (subst decimal.simps) simp
  qed
qed simp

lemma assertWeight_Inr: "assertWeight w = Inr u \<longleftrightarrow> isSafeInteger w \<and> 0 \<le> wholeOf w \<and> u = wholeOf w"
  by (auto simp: assertWeight_def)

lemma weight_bounds: "assertWeight w = Inr u \<Longrightarrow> 0 \<le> u \<and> u \<le> MAX_SAFE_INTEGER"
  by (cases w) (auto simp: assertWeight_def safeInt_def split: if_splits)

lemma tokens_width: "assertWeight w = Inr u \<Longrightarrow> length (decimal (nat u)) \<le> 16"
  using weight_bounds [of w u] by (intro length_decimal_less) (simp_all add: MAX_SAFE_INTEGER_def nat_less_iff)

lemma percent_width: "assertWeight w = Inr u \<Longrightarrow> length (percentText (templateBudget template) u) \<le> 18"
proof (cases "templateBudget template")
  case (Some b)
  assume w: "assertWeight w = Inr u"
  have "0 < b" using Some by (auto simp: templateBudget_def split: option.splits if_splits)
  then have "u * 100 div b \<le> u * 100 div 1" using weight_bounds [OF w] by (intro zdiv_mono2) simp_all
  then have "u * 100 div b < 10 ^ 18" using weight_bounds [OF w] by (simp add: MAX_SAFE_INTEGER_def)
  then have "nat (u * 100 div b) < 10 ^ 18" by (cases "0 \<le> u * 100 div b") (simp_all add: nat_less_iff)
  then show ?thesis using Some length_decimal_less [of "nat (u * 100 div b)" 18] by (simp add: percentText_def)
qed (simp add: percentText_def)

lemma assertWeight_other: "assertWeight w \<noteq> Inl DidNotConverge"
  by (simp add: assertWeight_def)

lemma andThen_Inl: "andThen r f = Inl e \<longleftrightarrow> r = Inl e \<or> (\<exists>x. r = Inr x \<and> f x = Inl e)"
  by (cases r) auto

lemma widthPasses_settle:
  "tw \<le> 16 \<Longrightarrow> pw \<le> 18 \<Longrightarrow> 34 < passes + tw + pw \<Longrightarrow> widthPasses passes m template tw pw \<noteq> Inl DidNotConverge"
proof (induction passes arbitrary: tw pw)
  case (Suc passes)
  show ?case
  proof
    assume a: "widthPasses (Suc passes) m template tw pw = Inl DidNotConverge"
    define w where "w = m (renderGauge template (replicate tw 48) (replicate pw 48))"
    obtain u where u: "assertWeight w = Inr u"
      using a assertWeight_other [of w] by (cases "assertWeight w") (auto simp: w_def)
    define tw' where "tw' = max tw (length (decimal (nat u)))"
    define pw' where "pw' = max pw (length (percentText (templateBudget template) u))"
    have le: "tw' \<le> 16" "pw' \<le> 18" "tw \<le> tw'" "pw \<le> pw'"
      using tokens_width [OF u] percent_width [OF u] Suc.prems by (auto simp: tw'_def pw'_def)
    show False
    proof (cases "tw' \<noteq> tw \<or> pw' \<noteq> pw")
      case True
      then have "widthPasses passes m template tw' pw' = Inl DidNotConverge"
        using a u by (simp add: Let_def w_def tw'_def pw'_def)
      moreover have "34 < passes + tw' + pw'" using True le Suc.prems(3) by linarith
      ultimately show False using Suc.IH [OF le(1,2)] by simp
    next
      case False
      then show False
        using a u assertWeight_other by (auto simp: Let_def w_def tw'_def pw'_def andThen_Inl split: if_splits)
    qed
  qed
qed simp

lemma mapResult_Inl: "mapResult f xs = Inl e \<Longrightarrow> \<exists>x \<in> set xs. f x = Inl e"
  by (induction xs) (auto simp: andThen_Inl)

lemma resolveTemplate_settles: "resolveTemplate template m \<noteq> Inl DidNotConverge"
  unfolding resolveTemplate_def by (rule widthPasses_settle) (simp_all add: MAX_WIDTH_PASSES_def)

lemma resolve_settles: "resolveReadout count room template m items \<noteq> Inl DidNotConverge"
proof
  assume a: "resolveReadout count room template m items = Inl DidNotConverge"
  have "assertTemplate template \<noteq> Inl DidNotConverge" by (simp add: assertTemplate_def Let_def)
  moreover have "mapResult assertLargestLogItem items \<noteq> Inl DidNotConverge"
    by (auto dest!: mapResult_Inl simp: assertLargestLogItem_def split: if_splits)
  ultimately show False
    using a resolveTemplate_settles
    by (auto simp: resolveReadout_def andThen_Inl Let_def split: option.splits if_splits)
qed

section \<open>A measure of lengths agrees with itself\<close>

lemma widthPasses_settled:
  assumes "widthPasses passes m template tw pw = Inr (content, u)"
  shows "\<exists>tw' pw'. content = renderGauge template (padStart (decimal (nat u)) tw') (padStart (percentText (templateBudget template) u) pw')
    \<and> m content = Whole u \<and> 0 \<le> u \<and> length (decimal (nat u)) \<le> tw' \<and> length (percentText (templateBudget template) u) \<le> pw'"
  using assms
proof (induction passes arbitrary: tw pw)
  case (Suc passes)
  then obtain v where v: "assertWeight (m (renderGauge template (replicate tw 48) (replicate pw 48))) = Inr v"
    by (auto elim: andThen_InrE)
  show ?case
  proof (cases "max tw (length (decimal (nat v))) \<noteq> tw \<or> max pw (length (percentText (templateBudget template) v)) \<noteq> pw")
    case True
    then show ?thesis using Suc.IH Suc.prems v by (simp add: Let_def)
  next
    case False
    let ?c = "renderGauge template (padStart (decimal (nat v)) tw) (padStart (percentText (templateBudget template) v) pw)"
    have "andThen (assertWeight (m ?c)) (\<lambda>f. if f \<noteq> v then Inl (MeasurementChanged v f) else Inr (?c, v)) = Inr (content, u)"
      using Suc.prems v False by (simp add: Let_def)
    then obtain w where w: "assertWeight (m ?c) = Inr w" "(if w \<noteq> v then Inl (MeasurementChanged v w) else Inr (?c, v)) = Inr (content, u)"
      by (rule andThen_InrE)
    then have w: "assertWeight (m ?c) = Inr w" "w = v" "u = v" "content = ?c" by (auto split: if_splits)
    have "m content = Whole u" using w(1-3) unfolding w(4) by (cases "m ?c") (auto simp: assertWeight_Inr)
    moreover have "0 \<le> u" using weight_bounds [OF w(1)] w(2,3) by simp
    ultimately show ?thesis using w False by (intro exI [of _ tw] exI [of _ pw]) auto
  qed
qed simp


text \<open>A template whose rendering is as long as its figures are wide.\<close>

definition figures :: "jsstr \<Rightarrow> bool" where
  "figures s \<longleftrightarrow> (\<forall>c \<in> set s. isDigit c \<or> c = SPACE)"

definition evenly :: "jsstr \<Rightarrow> bool" where
  "evenly template \<longleftrightarrow> (\<forall>t t' p p'. figures t \<and> figures t' \<and> figures p \<and> figures p' \<and> length t = length t' \<and> length p = length p'
     \<longrightarrow> length (renderGauge template t p) = length (renderGauge template t' p'))"

definition lengthMeasure :: "(jsstr \<Rightarrow> jsnum) \<Rightarrow> bool" where
  "lengthMeasure m \<longleftrightarrow> (\<forall>s t. length s = length t \<longrightarrow> m s = m t) \<and> (\<forall>s. isSafeInteger (m s) \<and> 0 \<le> wholeOf (m s))"

lemma lengthMeasureD:
  assumes "lengthMeasure m"
  shows "length s = length t \<Longrightarrow> m s = m t" "isSafeInteger (m s)" "0 \<le> wholeOf (m s)"
  using assms unfolding lengthMeasure_def by blast+

lemma figures_zeros: "figures (replicate n 48)"
  by (auto simp: figures_def isDigit_def)

lemma figures_decimal: "figures (padStart (decimal n) w)"
  using decimal_digits [of n] by (auto simp: figures_def padStart_def)

lemma figures_percent: "figures (padStart (percentText b u) w)"
  using decimal_digits by (auto simp: figures_def padStart_def percentText_def split: option.splits)

lemma evenlyD:
  "evenly template \<Longrightarrow> figures t \<Longrightarrow> figures t' \<Longrightarrow> figures p \<Longrightarrow> figures p' \<Longrightarrow> length t = length t' \<Longrightarrow> length p = length p'
     \<Longrightarrow> length (renderGauge template t p) = length (renderGauge template t' p')"
  unfolding evenly_def by blast

lemma widthPasses_agrees:
  assumes "evenly template" "lengthMeasure m"
  shows "widthPasses passes m template tw pw = Inl e \<Longrightarrow> e = DidNotConverge"
proof (induction passes arbitrary: tw pw)
  case (Suc passes)
  let ?probe = "renderGauge template (replicate tw 48) (replicate pw 48)"
  have ok: "assertWeight (m s) = Inr (wholeOf (m s))" for s using lengthMeasureD(2,3) [OF assms(2)] by (simp add: assertWeight_def)
  let ?t = "decimal (nat (wholeOf (m ?probe)))" and ?p = "percentText (templateBudget template) (wholeOf (m ?probe))"
  show ?case
  proof (cases "max tw (length ?t) \<noteq> tw \<or> max pw (length ?p) \<noteq> pw")
    case True
    then show ?thesis using Suc by (simp add: ok Let_def)
  next
    case False
    then have fit: "length (padStart ?t tw) = tw" "length (padStart ?p pw) = pw" by (auto intro!: length_padStart)
    let ?content = "renderGauge template (padStart ?t tw) (padStart ?p pw)"
    have "length ?content = length ?probe"
      by (rule evenlyD [OF assms(1)]) (simp_all add: fit figures_zeros figures_decimal figures_percent)
    then have "m ?content = m ?probe" by (rule lengthMeasureD(1) [OF assms(2)])
    then show ?thesis using Suc.prems False by (simp add: ok Let_def)
  qed
qed simp

lemma resolveTemplate_agrees:
  assumes "evenly template" "lengthMeasure m"
  obtains content u tw pw where "resolveTemplate template m = Inr (content, u)"
    "content = renderGauge template (padStart (decimal (nat u)) tw) (padStart (percentText (templateBudget template) u) pw)"
    "m content = Whole u" "0 \<le> u"
proof (cases "resolveTemplate template m")
  case (Inl e)
  then have "e = DidNotConverge" unfolding resolveTemplate_def by (rule widthPasses_agrees [OF assms])
  then show thesis using resolveTemplate_settles Inl by blast
next
  case (Inr r)
  obtain content u where r: "r = (content, u)" by fastforce
  then have w: "widthPasses MAX_WIDTH_PASSES m template 1 1 = Inr (content, u)" using Inr by (simp add: resolveTemplate_def)
  then show thesis using widthPasses_settled [OF w] Inr that unfolding r by blast
qed

section \<open>The drafts\<close>

lemma indexOf_skip: "c \<notin> set w \<Longrightarrow> indexOf (c # q) (w @ s) = map_option (\<lambda>i. length w + i) (indexOf (c # q) s)"
  by (induction w; cases "indexOf (c # q) s") auto

lemma indexOf_here: "indexOf p (p @ s) = Some 0"
  by (cases p; cases s) auto

text \<open>A text whose only brace is its first character, and that a placeholder follows.\<close>

lemma indexOf_object:
  assumes "w \<noteq> []" "123 \<notin> set w"
  shows "indexOf (123 # 123 # q) (123 # w @ s) = map_option (\<lambda>i. Suc (length w) + i) (indexOf (123 # 123 # q) s)"
proof -
  have "\<not> prefix (123 # 123 # q) (123 # w @ s)" using assms by (cases w) auto
  then show ?thesis using indexOf_skip [OF assms(2), of "123 # q" s] by (simp add: option.map_comp comp_def)
qed

lemma placeholders:
  "TOKENS_PLACEHOLDER = 123 # 123 # js ''tokens}}''" "PERCENT_PLACEHOLDER = 123 # 123 # js ''percent}}''"
  by (simp_all add: TOKENS_PLACEHOLDER_def PERCENT_PLACEHOLDER_def js_def)

lemma placeholders_apart: "indexOf TOKENS_PLACEHOLDER (PERCENT_PLACEHOLDER @ s) = map_option (\<lambda>i. 11 + i) (indexOf TOKENS_PLACEHOLDER s)"
  by (cases "indexOf TOKENS_PLACEHOLDER s") (simp_all add: TOKENS_PLACEHOLDER_def PERCENT_PLACEHOLDER_def js_def)

definition tokensKey :: jsstr where \<open>tokensKey = js ''{"tokens":''\<close>
definition budgetKey :: jsstr where \<open>budgetKey = js '',"budget":''\<close>
definition percentKey :: jsstr where \<open>percentKey = js '',"percent":''\<close>

definition closing :: "jsstr list option \<Rightarrow> jsstr" where
  \<open>closing largest = (case largest of None \<Rightarrow> [125] | Some ts \<Rightarrow> js '',"largest":['' @ joinWith [44] ts @ [93, 125])\<close>

definition shareText :: "int option \<Rightarrow> jsstr \<Rightarrow> jsstr" where
  "shareText budget p =
     (case budget of None \<Rightarrow> [] | Some b \<Rightarrow> budgetKey @ decimal (nat b) @ (if b = 0 then [] else percentKey @ p))"

definition gaugeText :: "jsstr \<Rightarrow> int option \<Rightarrow> jsstr \<Rightarrow> jsstr list option \<Rightarrow> jsstr" where
  "gaugeText t budget p largest = tokensKey @ t @ shareText budget p @ closing largest"

text \<open>What is behind the last placeholder holds no brace: always, when there is a share.\<close>

definition safely :: "int option \<Rightarrow> jsstr list option \<Rightarrow> bool" where
  "safely budget largest \<longleftrightarrow> (case budget of None \<Rightarrow> largest = None | Some b \<Rightarrow> 0 \<le> b \<and> (b = 0 \<longrightarrow> largest = None \<or> largest = Some []))"

definition tokensName :: jsstr where \<open>tokensName = js ''"tokens":''\<close>

lemma keys:
  "tokensKey = 123 # tokensName" "123 \<notin> set tokensName" "tokensName \<noteq> []" "123 \<notin> set budgetKey" "123 \<notin> set percentKey"
  by (simp_all add: tokensKey_def tokensName_def budgetKey_def percentKey_def js_def)

lemma figures_brace: "figures s \<Longrightarrow> 123 \<notin> set s"
  by (auto simp: figures_def isDigit_def SPACE_def)

lemma decimal_brace: "123 \<notin> set (decimal n)"
  using decimal_digits [of n] by (auto simp: isDigit_def)

lemma closing_brace: "largest = None \<or> largest = Some [] \<Longrightarrow> 123 \<notin> set (closing largest)"
  by (auto simp: closing_def js_def)

lemma draft_text:
  assumes "draft budget = Inr template"
  shows "template = gaugeText TOKENS_PLACEHOLDER (map_option wholeOf budget) PERCENT_PLACEHOLDER None"
    "\<And>b. budget = Some b \<Longrightarrow> b = Whole (wholeOf b) \<and> 0 \<le> wholeOf b \<and> safeInt (wholeOf b)"
proof -
  have zero: "decimal 0 = [48]" by (simp add: decimal.simps)
  show "template = gaugeText TOKENS_PLACEHOLDER (map_option wholeOf budget) PERCENT_PLACEHOLDER None"
    using assms by (auto simp: draft_def andThen_Inr_iff gaugeText_def shareText_def closing_def tokensKey_def budgetKey_def
        percentKey_def js_def zero split: option.splits if_splits)
  show "b = Whole (wholeOf b) \<and> 0 \<le> wholeOf b \<and> safeInt (wholeOf b)" if "budget = Some b" for b
    using assms that by (cases b) (auto simp: draft_def assertBudget_def andThen_Inr_iff split: if_splits)
qed

lemma render_gauge:
  assumes "figures t" "safely budget largest"
  shows "renderGauge (gaugeText TOKENS_PLACEHOLDER budget PERCENT_PLACEHOLDER largest) t p = gaugeText t budget p largest"
proof -
  have first: "replaceFirst TOKENS_PLACEHOLDER t (tokensKey @ TOKENS_PLACEHOLDER @ r) = tokensKey @ t @ r" for r
    using indexOf_object [OF keys(3,2), of "js ''tokens}}''" "TOKENS_PLACEHOLDER @ r"] indexOf_here [of TOKENS_PLACEHOLDER r]
    by (simp add: replaceFirst_def keys(1) placeholders(1))
  show ?thesis
  proof (cases "\<exists>b. budget = Some b \<and> b \<noteq> 0")
    case True
    then obtain b where b: "budget = Some b" "b \<noteq> 0" by blast
    let ?w = "tokensName @ t @ budgetKey @ decimal (nat b) @ percentKey"
    have "replaceFirst PERCENT_PLACEHOLDER p (123 # ?w @ PERCENT_PLACEHOLDER @ closing largest) = 123 # ?w @ p @ closing largest"
      using indexOf_object [of ?w "js ''percent}}''" "PERCENT_PLACEHOLDER @ closing largest"] keys figures_brace [OF assms(1)]
        decimal_brace indexOf_here [of PERCENT_PLACEHOLDER "closing largest"]
      by (simp add: replaceFirst_def placeholders(2))
    then show ?thesis using b first by (simp add: renderGauge_def gaugeText_def shareText_def keys(1))
  next
    case False
    then have largest: "largest = None \<or> largest = Some []" using assms(2) by (auto simp: safely_def split: option.splits)
    let ?w = "tokensName @ t @ shareText budget p @ closing largest"
    have s: "shareText budget p = shareText budget p'" "123 \<notin> set (shareText budget p)" for p p'
      using False keys decimal_brace by (auto simp: shareText_def split: option.splits)
    have "indexOf PERCENT_PLACEHOLDER (123 # ?w @ []) = None"
      using indexOf_object [of ?w "js ''percent}}''" "[]"] keys figures_brace [OF assms(1)] s(2) closing_brace [OF largest]
      by (simp add: placeholders(2))
    then have "replaceFirst PERCENT_PLACEHOLDER p (123 # ?w) = 123 # ?w" by (simp add: replaceFirst_def)
    then show ?thesis using first s(1) [of PERCENT_PLACEHOLDER p] by (simp add: renderGauge_def gaugeText_def keys(1))
  qed
qed

lemma gauge_evenly: "safely budget largest \<Longrightarrow> evenly (gaugeText TOKENS_PLACEHOLDER budget PERCENT_PLACEHOLDER largest)"
proof (unfold evenly_def, intro allI impI, elim conjE)
  fix t t' p p' :: jsstr
  assume a: "safely budget largest" "figures t" "figures t'" and l: "length t = length t'" "length p = length p'"
  have "length (gaugeText t budget p largest) = length (gaugeText t' budget p' largest)"
    using l by (simp add: gaugeText_def shareText_def split: option.splits)
  then show "length (renderGauge (gaugeText TOKENS_PLACEHOLDER budget PERCENT_PLACEHOLDER largest) t p) =
    length (renderGauge (gaugeText TOKENS_PLACEHOLDER budget PERCENT_PLACEHOLDER largest) t' p')"
    by (simp only: render_gauge [OF a(2,1)] render_gauge [OF a(3,1)])
qed

lemma withInventory_gauge:
  "withInventory (gaugeText t budget p None) items = gaugeText t budget p (Some (map itemText items))"
proof -
  have "trimEnd (s @ [125]) = s @ [125]" for s by (simp add: trimEnd_def isWhite_def)
  then have "trimEnd (gaugeText t budget p None) = gaugeText t budget p None" by (simp add: gaugeText_def closing_def flip: append_assoc)
  moreover have "suffix (js ''}'') (gaugeText t budget p None)"
    unfolding suffix_def by (rule exI [of _ "tokensKey @ t @ shareText budget p"]) (simp add: gaugeText_def closing_def js_def)
  moreover have "butlast (gaugeText t budget p None) = tokensKey @ t @ shareText budget p"
    by (simp add: gaugeText_def closing_def butlast_append)
  ultimately show ?thesis by (simp add: withInventory_def Let_def gaugeText_def closing_def js_def)
qed

lemma statedBudget_skip: \<open>\<not> prefix (js ''"budget":'') (c # s) \<Longrightarrow> statedBudget (c # s) = statedBudget s\<close>
  by (simp add: Let_def)

declare statedBudget.simps(2) [simp del]

lemma statedBudget_gauge:
  "statedBudget (gaugeText TOKENS_PLACEHOLDER (Some b) p largest) = Some (decimal (nat b))"
  "statedBudget (gaugeText TOKENS_PLACEHOLDER None p None) = None"
proof -
  have r: "takeWhile isDigit (decimal n @ s) = decimal n" if "s = [] \<or> \<not> isDigit (hd s)" for n s
    using decimal_digits [of n] that by (cases s) (simp_all add: takeWhile_append2)
  have t: "(if b = 0 then [] else percentKey @ p) @ closing largest = [] \<or> \<not> isDigit (hd ((if b = 0 then [] else percentKey @ p) @ closing largest))"
    by (auto simp: percentKey_def closing_def js_def isDigit_def split: option.splits)
  show "statedBudget (gaugeText TOKENS_PLACEHOLDER (Some b) p largest) = Some (decimal (nat b))"
    using r [OF t, of "nat b"]
    by (simp add: gaugeText_def shareText_def tokensKey_def TOKENS_PLACEHOLDER_def budgetKey_def js_def statedBudget_skip [unfolded js_def]
        statedBudget.simps(2) [of 34] Let_def)
  show "statedBudget (gaugeText TOKENS_PLACEHOLDER None p None) = None"
    by (simp add: gaugeText_def shareText_def tokensKey_def TOKENS_PLACEHOLDER_def closing_def js_def statedBudget_skip [unfolded js_def])
qed

lemma templateBudget_gauge:
  "safely budget largest \<Longrightarrow> templateBudget (gaugeText TOKENS_PLACEHOLDER budget p largest) = (case budget of None \<Rightarrow> None | Some b \<Rightarrow> if b = 0 then None else Some b)"
  by (auto simp: templateBudget_def statedBudget_gauge digitsValue_decimal safely_def split: option.splits)

section \<open>The gauge read back\<close>

definition itemValue :: "LargestLogItem \<Rightarrow> JsValue" where
  "itemValue it = VObject [(js ''path'', VString (itemPath it)), (js ''tokens'', VNumber (itemTokens it))]"

definition gaugeValue :: "int option \<Rightarrow> int \<Rightarrow> LargestLogItem list option \<Rightarrow> JsValue" where
  "gaugeValue budget usage largest = VObject (
     [(js ''tokens'', VNumber (Whole usage))]
     @ (case budget of None \<Rightarrow> []
        | Some b \<Rightarrow> (js ''budget'', VNumber (Whole b))
            # (if b = 0 then [] else [(js ''percent'', VNumber (Whole (usage * 100 div b)))]))
     @ (case largest of None \<Rightarrow> [] | Some items \<Rightarrow> [(js ''largest'', VArray (map itemValue items))]))"

definition plainName :: "jsstr \<Rightarrow> bool" where
  "plainName s \<longleftrightarrow> (\<forall>c \<in> set s. 97 \<le> c \<and> c \<le> 122)"

lemma quoteChars_letter: "97 \<le> c \<Longrightarrow> c \<le> 122 \<Longrightarrow> quoteChars (c # s) = c # quoteChars s"
proof -
  assume "97 \<le> c" "c \<le> 122"
  then have "c \<noteq> DOUBLE" "c \<noteq> BACKSLASH" "c \<noteq> 8" "c \<noteq> 9" "c \<noteq> 10" "c \<noteq> 12" "c \<noteq> 13" "\<not> c < 32" "\<not> highSurrogate c" "\<not> lowSurrogate c"
    by (auto simp: DOUBLE_def BACKSLASH_def highSurrogate_def lowSurrogate_def word_le_nat_alt word_less_nat_alt)
  then show ?thesis by simp
qed

lemma quote_plain: "plainName s \<Longrightarrow> quoteJson s = [34] @ s @ [34]"
proof -
  assume "plainName s"
  then have "quoteChars s = s"
    by (induction s) (simp_all add: plainName_def quoteChars_letter del: quoteChars.simps(2))
  then show ?thesis by (simp add: quoteJson_def DOUBLE_def)
qed

lemma names_plain [simp]:
  "plainName (js ''path'')" "plainName (js ''tokens'')" "plainName (js ''budget'')" "plainName (js ''percent'')" "plainName (js ''largest'')"
  by (simp_all add: plainName_def js_def)

lemma itemText_object:
  "itemText it = objectText [(js ''path'', quoteJson (itemPath it)), (js ''tokens'', decimal (nat (wholeOf (itemTokens it))))]"
  by (simp add: itemText_def objectText_def memberText_def quote_plain) (simp add: js_def)

lemma assertItem: "assertLargestLogItem it = Inr it' \<Longrightarrow> it' = it \<and> itemTokens it = Whole (wholeOf (itemTokens it)) \<and> 0 < wholeOf (itemTokens it)"
  by (cases "itemTokens it") (auto simp: assertLargestLogItem_def split: if_splits)

lemma reads_decimal: "0 \<le> n \<Longrightarrow> reads 1 (decimal (nat n)) (VNumber (Whole n))"
  using reads_number [of 0 "nat n"] by simp

lemma reads_figure: "0 \<le> n \<Longrightarrow> reads 1 (padStart (decimal (nat n)) w) (VNumber (Whole n))"
  using reads_number [of "w - length (decimal (nat n))" "nat n"] by (simp add: padStart_def)

lemma reads_item:
  assumes "assertLargestLogItem it = Inr it"
  shows "reads 4 (itemText it) (itemValue it)"
proof -
  have n: "itemTokens it = Whole (wholeOf (itemTokens it))" "0 < wholeOf (itemTokens it)" using assertItem [OF assms] by auto
  have "reads (Suc (1 + length [(js ''path'', quoteJson (itemPath it)), (js ''tokens'', decimal (nat (wholeOf (itemTokens it))))])) (itemText it)
    (VObject [(js ''path'', VString (itemPath it)), (js ''tokens'', VNumber (Whole (wholeOf (itemTokens it))))])"
    unfolding itemText_object
    by (rule reads_object) (simp_all add: reads_string [unfolded One_nat_def] reads_decimal [unfolded One_nat_def] n(2) less_imp_le js_def)
  then show ?thesis unfolding itemValue_def using n(1) by (simp add: eval_nat_numeral)
qed

definition gaugeMembers :: "jsstr \<Rightarrow> int option \<Rightarrow> jsstr \<Rightarrow> jsstr list option \<Rightarrow> (jsstr \<times> jsstr) list" where
  "gaugeMembers t budget p largest =
     [(js ''tokens'', t)]
     @ (case budget of None \<Rightarrow> []
        | Some b \<Rightarrow> (js ''budget'', decimal (nat b)) # (if b = 0 then [] else [(js ''percent'', p)]))
     @ (case largest of None \<Rightarrow> [] | Some ts \<Rightarrow> [(js ''largest'', arrayText ts)])"

lemma gaugeText_object: "gaugeText t budget p largest = objectText (gaugeMembers t budget p largest)"
  by (simp add: gaugeText_def gaugeMembers_def objectText_def memberText_def quote_plain shareText_def closing_def arrayText_def
      split: option.splits) (simp add: tokensKey_def budgetKey_def percentKey_def js_def)

lemma length_joinWith: "\<forall>t \<in> set ts. t \<noteq> [] \<Longrightarrow> length ts \<le> length (joinWith s ts)"
proof (induction s ts rule: joinWith.induct)
  case (3 s x y xs)
  then have "0 < length x" "length (y # xs) \<le> length (joinWith s (y # xs))" by simp_all
  then show ?case by (simp only: joinWith.simps length_append list.size)
qed (auto simp: Suc_le_eq)

lemma parse_gauge:
  assumes "0 \<le> u" "\<And>b. budget = Some b \<Longrightarrow> 0 \<le> b"
    and "\<And>items it. largest = Some items \<Longrightarrow> it \<in> set items \<Longrightarrow> assertLargestLogItem it = Inr it"
    and p: "\<And>b. budget = Some b \<Longrightarrow> b \<noteq> 0 \<Longrightarrow> p = padStart (decimal (nat (u * 100 div b))) pw"
  shows "parseJson (gaugeText (padStart (decimal (nat u)) tw) budget p (map_option (map itemText) largest)) = Some (gaugeValue budget u largest)"
proof -
  let ?s = "gaugeText (padStart (decimal (nat u)) tw) budget p (map_option (map itemText) largest)"
  define n where "n = (case largest of None \<Rightarrow> 1 | Some items \<Rightarrow> 5 + length items)"
  have n: "1 \<le> n" by (simp add: n_def split: option.splits)
  have figure: "reads n (padStart (decimal (nat k)) w) (VNumber (Whole k))" "reads n (decimal (nat k)) (VNumber (Whole k))" if "0 \<le> k" for k w
    using reads_mono [OF reads_figure [OF that] n] reads_mono [OF reads_decimal [OF that] n] by auto
  have array: "reads n (arrayText (map itemText items)) (VArray (map itemValue items))" if "largest = Some items" for items
  proof -
    have "list_all2 (reads 4) (map itemText items) (map itemValue items)"
      using assms(3) [OF that] by (auto simp: list_all2_map1 list_all2_map2 intro!: list.rel_refl_strong reads_item)
    from reads_array [OF this] show ?thesis using that by (simp add: n_def eval_nat_numeral)
  qed
  obtain fs where fs: "gaugeValue budget u largest = VObject fs" by (simp add: gaugeValue_def)
  have zero: "reads n (decimal 0) (VNumber (Whole 0))" using figure(2) [of 0] by simp
  have share: "0 \<le> u * 100 div b" if "0 \<le> b" for b using assms(1) that by (cases "b = 0") (simp_all add: pos_imp_zdiv_nonneg_iff)
  let ?ms = "gaugeMembers (padStart (decimal (nat u)) tw) budget p (map_option (map itemText) largest)"
  have "list_all2 (\<lambda>m (k, v). fst m = k \<and> reads n (snd m) v) ?ms fs"
    using fs assms(1,2) p share figure array zero by (auto simp: gaugeMembers_def gaugeValue_def split: option.splits)
  moreover have "distinct (map fst fs)"
    using fs by (auto simp: gaugeValue_def js_def split: option.splits if_splits)
  ultimately have r: "reads (Suc (n + length ?ms)) ?s (VObject fs)"
    unfolding gaugeText_object by (intro reads_object) (auto simp: gaugeMembers_def)
  have "Suc (n + length ?ms) \<le> 2 * length ?s + 1"
  proof -
    have "length ?ms \<le> 4" by (simp add: gaugeMembers_def split: option.splits)
    moreover have "10 \<le> length ?s" by (simp add: gaugeText_def tokensKey_def js_def closing_def split: option.splits)
    moreover have "length items + 10 \<le> length ?s" if "largest = Some items" for items
    proof -
      have "length (map itemText items) \<le> length (joinWith [44] (map itemText items))"
        by (rule length_joinWith) (simp add: itemText_def js_def)
      then show ?thesis using that by (simp add: gaugeText_def tokensKey_def js_def closing_def)
    qed
    ultimately show ?thesis by (auto simp: n_def split: option.splits)
  qed
  from parseJson_reads [OF r this] show ?thesis using fs by simp
qed

section \<open>A gauge is one line\<close>

lemma hexDigitOf_line: "k < 16 \<Longrightarrow> hexDigitOf k \<noteq> LF"
proof -
  have "\<forall>k \<in> set [0..<16]. hexDigitOf k \<noteq> LF" by (simp add: upt_conv_Cons hexDigitOf_def LF_def)
  then show "k < 16 \<Longrightarrow> hexDigitOf k \<noteq> LF" by simp
qed

lemma unicodeEscape_line: "LF \<notin> set (unicodeEscape c)"
proof -
  have "hexDigitOf (n mod 16) \<noteq> LF" for n by (rule hexDigitOf_line) simp
  then have "\<forall>d \<in> set (map (\<lambda>i. hexDigitOf (unat c div 16 ^ i mod 16)) [3, 2, 1, 0]). d \<noteq> LF" by simp
  moreover have "\<forall>d \<in> set [BACKSLASH, 117]. d \<noteq> LF" by (simp add: BACKSLASH_def LF_def)
  ultimately show ?thesis unfolding unicodeEscape_def set_append by blast
qed

lemma quoteChars_line: "LF \<notin> set (quoteChars s)"
proof (induction s rule: quoteChars.induct)
  case (2 c s)
  show ?case
  proof (cases "c = DOUBLE \<or> c = BACKSLASH \<or> c = 8 \<or> c = 9 \<or> c = 10 \<or> c = 12 \<or> c = 13")
    case True
    then show ?thesis using 2(1-7) by (auto simp: DOUBLE_def BACKSLASH_def LF_def)
  next
    case plain: False
    then have c: "c \<noteq> LF" by (simp add: LF_def)
    show ?thesis
    proof (cases "c < 32")
      case True
      then show ?thesis using plain 2(8) unicodeEscape_line [of c] by simp
    next
      case False
      have "lowSurrogate d \<Longrightarrow> d \<noteq> LF" for d by (auto simp: LF_def lowSurrogate_def word_le_nat_alt)
      then show ?thesis using plain c False 2(9-) unicodeEscape_line [of c] by (cases s) auto
    qed
  qed
qed simp

lemma itemText_line: "LF \<notin> set (itemText it)"
  using quoteChars_line [of "itemPath it"] decimal_digits [of "nat (wholeOf (itemTokens it))"]
  by (auto simp: itemText_def quoteJson_def js_def LF_def DOUBLE_def isDigit_def)

lemma joinWith_line: "LF \<notin> set s \<Longrightarrow> \<forall>t \<in> set ts. LF \<notin> set t \<Longrightarrow> LF \<notin> set (joinWith s ts)"
  by (induction s ts rule: joinWith.induct) auto

lemma figures_line: "figures s \<Longrightarrow> LF \<notin> set s"
  by (auto simp: figures_def isDigit_def SPACE_def LF_def)

lemma gaugeText_line:
  assumes "figures t" "figures p"
  shows "LF \<notin> set (gaugeText t budget p (map_option (map itemText) largest))"
proof -
  have "LF \<notin> set (joinWith [44] (map itemText items))" for items
    by (rule joinWith_line) (simp_all add: LF_def [symmetric] itemText_line, simp add: LF_def)
  moreover have "LF \<notin> set (decimal n)" for n using decimal_digits [of n] by (auto simp: isDigit_def LF_def)
  ultimately show ?thesis
    using figures_line assms
    by (auto simp: gaugeText_def shareText_def closing_def tokensKey_def budgetKey_def percentKey_def js_def LF_def split: option.splits)
qed

lemma budgetOf_gauge:
  assumes "parseJson g = Some (gaugeValue budget u largest)" "LF \<notin> set g"
  shows "budgetOf g = map_option Whole budget"
proof -
  have l: "takeWhile (\<lambda>c. c \<noteq> LF) g = g" using assms(2) by (auto simp: takeWhile_eq_all_conv)
  then show ?thesis
    unfolding budgetOf_def l assms(1) by (cases budget; cases largest) (simp_all add: gaugeValue_def property_def js_def)
qed

section \<open>Drafts are templates\<close>

lemma splitText_here:
  "indexOf p s = Some i \<Longrightarrow> p \<noteq> [] \<Longrightarrow> length (splitText p s) = Suc (length (splitText p (drop (i + length p) s)))"
  "indexOf p s = None \<Longrightarrow> splitText p s = [s]"
  by (simp_all add: splitText.simps [of p s])

lemma indexOf_none_plain: "c \<notin> set w \<Longrightarrow> indexOf (c # q) w = None"
  using indexOf_skip [of c w q "[]"] by simp

lemma assertTemplate_draft:
  assumes "\<And>b. budget = Some b \<Longrightarrow> 0 \<le> b"
  shows "assertTemplate (gaugeText TOKENS_PLACEHOLDER budget PERCENT_PLACEHOLDER None) = Inr ()"
proof -
  let ?g = "gaugeText TOKENS_PLACEHOLDER budget PERCENT_PLACEHOLDER None" and ?r = "shareText budget PERCENT_PLACEHOLDER @ closing None"
  have c: "123 \<notin> set (closing None)" by (simp add: closing_def)
  have share: "\<exists>w. 123 \<notin> set w \<and> shareText budget PERCENT_PLACEHOLDER = w @ (if budget = None \<or> budget = Some 0 then [] else PERCENT_PLACEHOLDER)"
    using keys decimal_brace by (cases budget) (auto simp: shareText_def intro: exI [of _ "budgetKey @ decimal n" for n] exI [of _ "budgetKey @ decimal n @ percentKey" for n])
  then obtain w where w: "123 \<notin> set w" "shareText budget PERCENT_PLACEHOLDER = w @ (if budget = None \<or> budget = Some 0 then [] else PERCENT_PLACEHOLDER)"
    by blast
  have t0: "indexOf TOKENS_PLACEHOLDER (closing None) = None" "indexOf PERCENT_PLACEHOLDER (closing None) = None"
    using indexOf_none_plain [OF c] by (simp_all add: placeholders)
  have t1: "indexOf TOKENS_PLACEHOLDER ?r = None"
    using indexOf_skip [OF w(1), of "123 # js ''tokens}}''" "PERCENT_PLACEHOLDER @ closing None"] placeholders_apart [of "closing None"] t0
      indexOf_none_plain [of 123 "w @ closing None" "123 # js ''tokens}}''"] w c
    by (simp add: placeholders(1))
  have i: "indexOf TOKENS_PLACEHOLDER ?g = Some (length tokensKey)"
    using indexOf_object [OF keys(3,2), of "js ''tokens}}''" "TOKENS_PLACEHOLDER @ ?r"] indexOf_here [of TOKENS_PLACEHOLDER ?r]
    by (simp add: gaugeText_def keys(1) placeholders(1))
  have "drop (length tokensKey + length TOKENS_PLACEHOLDER) ?g = ?r" by (simp add: gaugeText_def)
  then have tokens: "length (splitText TOKENS_PLACEHOLDER ?g) = 2"
    using splitText_here(1) [OF i] splitText_here(2) [OF t1] by (simp add: placeholders)
  have percents: "length (splitText PERCENT_PLACEHOLDER ?g) = (if budget = None \<or> budget = Some 0 then 1 else 2)"
  proof -
    have skip: "indexOf PERCENT_PLACEHOLDER (TOKENS_PLACEHOLDER @ s) = map_option (\<lambda>i. 10 + i) (indexOf PERCENT_PLACEHOLDER s)" for s
      by (cases "indexOf PERCENT_PLACEHOLDER s") (simp_all add: TOKENS_PLACEHOLDER_def PERCENT_PLACEHOLDER_def js_def)
    have g: "indexOf PERCENT_PLACEHOLDER ?g = map_option (\<lambda>i. length tokensKey + (10 + i)) (indexOf PERCENT_PLACEHOLDER ?r)"
      using indexOf_object [OF keys(3,2), of "js ''percent}}''" "TOKENS_PLACEHOLDER @ ?r"] skip [of ?r]
      by (cases "indexOf PERCENT_PLACEHOLDER ?r") (simp_all add: gaugeText_def keys(1) placeholders(2))
    show ?thesis
    proof (cases "budget = None \<or> budget = Some 0")
      case True
      then have "indexOf PERCENT_PLACEHOLDER ?r = None"
        using indexOf_none_plain [of 123 "w @ closing None"] w c by (simp add: placeholders(2))
      then show ?thesis using True splitText_here(2) g by simp
    next
      case False
      then have r: "?r = w @ PERCENT_PLACEHOLDER @ closing None" using w(2) by auto
      have "indexOf PERCENT_PLACEHOLDER ?r = Some (length w)"
        unfolding r using indexOf_skip [OF w(1)] indexOf_here [of PERCENT_PLACEHOLDER "closing None"] by (simp add: placeholders(2))
      then have i: "indexOf PERCENT_PLACEHOLDER ?g = Some (length tokensKey + (10 + length w))" using g by simp
      have "drop (length (tokensKey @ TOKENS_PLACEHOLDER @ w @ PERCENT_PLACEHOLDER)) ?g = closing None"
        using r by (simp add: gaugeText_def)
      moreover have "length (tokensKey @ TOKENS_PLACEHOLDER @ w @ PERCENT_PLACEHOLDER) = length tokensKey + (10 + length w) + length PERCENT_PLACEHOLDER"
        by (simp add: TOKENS_PLACEHOLDER_def js_def)
      ultimately have "drop (length tokensKey + (10 + length w) + length PERCENT_PLACEHOLDER) ?g = closing None" by (simp only:)
      then show ?thesis using False splitText_here(1) [OF i] splitText_here(2) [OF t0(2)] by (simp add: placeholders)
    qed
  qed
  have "templateBudget ?g \<noteq> None" if "\<not> (budget = None \<or> budget = Some 0)"
    using templateBudget_gauge [of budget None] assms that by (cases budget) (auto simp: safely_def)
  then show ?thesis using tokens percents by (auto simp: assertTemplate_def Let_def)
qed

section \<open>Properties\<close>

text \<open>C31. The widths always settle: whatever the packet weighs around a gauge, even when its weight depends on the gauge
  in a disorderly way, and whatever the template is, the passes end in a gauge or in another error, never by running out.\<close>

theorem widths_settle:
  "resolveReadout count underPressure template m items \<noteq> Inl DidNotConverge"
  by (rule resolve_settles)

lemma resolve_gauge:
  assumes "evenly (gaugeText TOKENS_PLACEHOLDER budget PERCENT_PLACEHOLDER (map_option (map itemText) largest))"
    "safely budget (map_option (map itemText) largest)" "lengthMeasure m"
    "\<And>ls it. largest = Some ls \<Longrightarrow> it \<in> set ls \<Longrightarrow> assertLargestLogItem it = Inr it"
  obtains g u where "resolveTemplate (gaugeText TOKENS_PLACEHOLDER budget PERCENT_PLACEHOLDER (map_option (map itemText) largest)) m = Inr (g, u)"
    "m g = Whole u" "parseJson g = Some (gaugeValue budget u largest)" "LF \<notin> set g"
proof -
  let ?template = "gaugeText TOKENS_PLACEHOLDER budget PERCENT_PLACEHOLDER (map_option (map itemText) largest)"
  obtain g u tw pw where g: "resolveTemplate ?template m = Inr (g, u)"
    "g = renderGauge ?template (padStart (decimal (nat u)) tw) (padStart (percentText (templateBudget ?template) u) pw)"
    "m g = Whole u" "0 \<le> u"
    by (rule resolveTemplate_agrees [OF assms(1,3)])
  have b: "0 \<le> b" if "budget = Some b" for b using assms(2) that by (simp add: safely_def)
  have p: "padStart (percentText (templateBudget ?template) u) pw = padStart (decimal (nat (u * 100 div b))) pw"
    if "budget = Some b" "b \<noteq> 0" for b
    using templateBudget_gauge [OF assms(2)] that by (simp add: percentText_def)
  have t: "g = gaugeText (padStart (decimal (nat u)) tw) budget (padStart (percentText (templateBudget ?template) u) pw) (map_option (map itemText) largest)"
    unfolding g(2) by (rule render_gauge [OF figures_decimal assms(2)])
  have "parseJson g = Some (gaugeValue budget u largest)"
    unfolding t by (rule parse_gauge [OF g(4) b assms(4) p])
  moreover have "LF \<notin> set g" unfolding t by (rule gaugeText_line [OF figures_decimal figures_percent])
  ultimately show thesis using that g(1,3) by blast
qed

text \<open>C32. The gauge states the packet it is in. Let a packet weigh a safe number of tokens, the same for gauges of the same length, let all log items be valid,
  and let there be none when the budget is zero. Then the draft of a budget resolves to one JSON object: its tokens are the weight
  of the packet with this very gauge in it, its budget is the drafted one, which is also what is read from the stored gauge, its
  percent is the floor of their ratio, and it names the heaviest items, in order, just when the packet without them weighs more
  than the configured share.\<close>

theorem gauge_states_its_packet:
  assumes "draft budget = Inr template" "lengthMeasure m"
    and "\<forall>it \<in> set items. assertLargestLogItem it = Inr it" "budget = Some (Whole 0) \<longrightarrow> items = []"
  shows "\<exists>g u largest. resolveReadout count underPressure template m items = Inr g \<and> m g = Whole u
    \<and> parseJson g = Some (gaugeValue (map_option wholeOf budget) u largest) \<and> budgetOf g = budget
    \<and> largest = (if \<exists>b u0 g0. budget = Some b \<and> resolveTemplate template m = Inr (g0, u0) \<and> underPressure b < of_int u0
         then Some (take count (sortBy heavier items)) else None)"
proof -
  let ?b = "map_option wholeOf budget" and ?ranked = "take count (sortBy heavier items)"
  note d = draft_text [OF assms(1)]
  have whole: "map_option Whole ?b = budget" using d(2) by (cases budget) auto
  have b: "0 \<le> b" if "?b = Some b" for b using d(2) that by auto
  have ranked: "set ?ranked \<subseteq> set items" using set_take_subset [of count "sortBy heavier items"] by simp
  have ok: "mapResult assertLargestLogItem items = Inr items"
    using assms(3) by (simp add: mapResult_Inr list_all2_same)
  have template: "assertTemplate template = Inr ()" unfolding d(1) by (rule assertTemplate_draft) (rule b)
  have safe: "safely ?b None" using b by (auto simp: safely_def split: option.splits)
  obtain g u where g: "resolveTemplate template m = Inr (g, u)" "m g = Whole u" "parseJson g = Some (gaugeValue ?b u None)" "LF \<notin> set g"
    using resolve_gauge [of ?b None m] gauge_evenly [OF safe] safe assms(2) unfolding d(1) by auto
  have budget: "budgetOf g = budget" using budgetOf_gauge [OF g(3,4)] whole by simp
  show ?thesis
  proof (cases "\<exists>b. budget = Some b \<and> underPressure b < of_int u")
    case False
    then have "resolveReadout count underPressure template m items = Inr g"
      using template ok g(1) budget by (auto simp: resolveReadout_def Let_def split: option.splits)
    then show ?thesis using False g budget by auto
  next
    case True
    then obtain b0 where b0: "budget = Some b0" "underPressure b0 < of_int u" by blast
    let ?template = "gaugeText TOKENS_PLACEHOLDER ?b PERCENT_PLACEHOLDER (map_option (map itemText) (Some ?ranked))"
    have joined: "withInventory template ?ranked = ?template" unfolding d(1) using withInventory_gauge by simp
    have safe: "safely ?b (map_option (map itemText) (Some ?ranked))"
      using b0(1) d(2) [OF b0(1)] assms(4) by (cases b0) (auto simp: safely_def sortBy_def)
    obtain h v where h: "resolveTemplate ?template m = Inr (h, v)" "m h = Whole v" "parseJson h = Some (gaugeValue ?b v (Some ?ranked))" "LF \<notin> set h"
      by (rule resolve_gauge [OF gauge_evenly [OF safe] safe assms(2)]) (use assms(3) ranked in auto)
    have "resolveReadout count underPressure template m items = Inr h"
      using template ok g(1) budget b0 h(1) by (simp add: resolveReadout_def Let_def joined)
    moreover have "budgetOf h = budget" using budgetOf_gauge [OF h(3,4)] whole by simp
    ultimately show ?thesis using h b0 g(1) by auto
  qed
qed

text \<open>\<^verbatim>\<open>content-weight.ts\<close>: two code units are a token.\<close>

definition contentWeight :: "jsstr \<Rightarrow> jsnum" where
  "contentWeight content = Whole ((int (length content) + 1) div 2)"

text \<open>700 tokens of other text around a gauge, and a budget of 800 of which 640 are used unnoticed. A string of the host has
at most 2^30 code units.\<close>

definition exampleItems :: "LargestLogItem list" where
  "exampleItems = [\<lparr>itemPath = js ''log:///1/1/2/read'', itemTokens = Whole 90\<rparr>, \<lparr>itemPath = js ''log:///1/1/1/read'', itemTokens = Whole 110\<rparr>]"

definition exampleMeasure :: "jsstr \<Rightarrow> jsnum" where
  "exampleMeasure s = contentWeight (replicate 1400 120 @ take (2 ^ 30) s)"

theorem gauge_states_its_packet_witness:
  "\<exists>g u largest. resolveReadout 1 (\<lambda>b. 640) (gaugeText TOKENS_PLACEHOLDER (Some 800) PERCENT_PLACEHOLDER None) exampleMeasure exampleItems = Inr g
    \<and> exampleMeasure g = Whole u
    \<and> parseJson g = Some (gaugeValue (map_option wholeOf (Some (Whole 800))) u largest) \<and> budgetOf g = Some (Whole 800)
    \<and> largest = (if \<exists>b u0 g0. Some (Whole 800) = Some b
           \<and> resolveTemplate (gaugeText TOKENS_PLACEHOLDER (Some 800) PERCENT_PLACEHOLDER None) exampleMeasure = Inr (g0, u0) \<and> 640 < (of_int u0 :: rat)
         then Some (take 1 (sortBy heavier exampleItems)) else None)"
proof -
  have draft: "draft (Some (Whole 800)) = Inr (gaugeText TOKENS_PLACEHOLDER (Some 800) PERCENT_PLACEHOLDER None)"
    by (simp add: draft_def assertBudget_def safeInt_def MAX_SAFE_INTEGER_def gaugeText_def shareText_def closing_def tokensKey_def
        budgetKey_def percentKey_def js_def)
  have measure: "lengthMeasure exampleMeasure"
  proof -
    have "- 9007199254740991 \<le> (1401 + int (min n 1073741824)) div 2 \<and> (1401 + int (min n 1073741824)) div 2 \<le> 9007199254740991" for n :: nat
      by linarith
    then show ?thesis by (simp add: lengthMeasure_def exampleMeasure_def contentWeight_def safeInt_def MAX_SAFE_INTEGER_def)
  qed
  have items: "\<forall>it \<in> set exampleItems. assertLargestLogItem it = Inr it"
    by (simp add: exampleItems_def assertLargestLogItem_def js_def safeInt_def MAX_SAFE_INTEGER_def CR_def LF_def)
  show ?thesis by (rule gauge_states_its_packet [OF draft measure items]) simp
qed

section \<open>Calibration\<close>

text \<open>
  \<^verbatim>\<open>plurnk-core/src/core/TokenCalibration.ts\<close>: the capacity a provider reports crosses into the weights of packets by the
  offset between the weight and the reported tokens of one settled packet. Which sample is taken is a query of the database.
\<close>

record CalibrationSample =
  sampleWeight :: jsnum
  sampleReported :: jsnum

datatype CalibrationError = BadSample jsstr | BadOffset | BadCapacity | CapacityOverflow | BadPacketWeight | TokensOverflow

definition positiveSample :: "jsnum \<Rightarrow> bool" where
  "positiveSample v \<longleftrightarrow> isSafeInteger v \<and> 0 < wholeOf v"

definition calibrationOffset :: "CalibrationSample option \<Rightarrow> CalibrationError + int" where
  "calibrationOffset sample =
     (case sample of
        None \<Rightarrow> Inr 0
      | Some s \<Rightarrow>
          if \<not> positiveSample (sampleWeight s) then Inl (BadSample (js ''weight''))
          else if \<not> positiveSample (sampleReported s) then Inl (BadSample (js ''reported''))
          else Inr (wholeOf (sampleWeight s) - wholeOf (sampleReported s)))"

definition capacity :: "jsnum option \<Rightarrow> jsnum \<Rightarrow> CalibrationError + int option" where
  "capacity inputCapacity offset =
     (if \<not> isSafeInteger offset then Inl BadOffset
      else case inputCapacity of
        None \<Rightarrow> Inr None
      | Some c \<Rightarrow>
          if \<not> positiveSample c then Inl BadCapacity
          else let n = max 0 (wholeOf c + wholeOf offset) in if \<not> safeInt n then Inl CapacityOverflow else Inr (Some n))"

definition estimatedTokens :: "jsnum \<Rightarrow> jsnum \<Rightarrow> CalibrationError + int" where
  "estimatedTokens weight offset =
     (if \<not> isSafeInteger weight \<or> wholeOf weight < 0 then Inl BadPacketWeight
      else if \<not> isSafeInteger offset then Inl BadOffset
      else let n = max 0 (wholeOf weight - wholeOf offset) in if \<not> safeInt n then Inl TokensOverflow else Inr n)"

text \<open>An offset taken from a sample is one the conversions accept, and at the sample's own weight the estimate is what the
provider reported. A packet within the converted capacity, unless that is clamped, is estimated within the capacity.\<close>

lemma calibrationOffset_safe: "calibrationOffset sample = Inr o1 \<Longrightarrow> safeInt o1"
proof (cases sample)
  case (Some s)
  assume "calibrationOffset sample = Inr o1"
  then show ?thesis using Some
    by (cases "sampleWeight s"; cases "sampleReported s")
      (auto simp: calibrationOffset_def positiveSample_def safeInt_def split: if_splits)
qed (simp add: calibrationOffset_def safeInt_def MAX_SAFE_INTEGER_def)

lemma estimate_at_sample:
  assumes "calibrationOffset (Some s) = Inr o1"
  shows "estimatedTokens (sampleWeight s) (Whole o1) = Inr (wholeOf (sampleReported s))"
  using assms calibrationOffset_safe [OF assms]
  by (cases "sampleWeight s"; cases "sampleReported s")
    (auto simp: calibrationOffset_def estimatedTokens_def positiveSample_def Let_def split: if_splits)

lemma estimate_within_capacity:
  assumes "capacity (Some c) offset = Inr (Some n)" "0 < n" "estimatedTokens w offset = Inr t" "wholeOf w \<le> n"
  shows "t \<le> wholeOf c"
  using assms by (auto simp: capacity_def estimatedTokens_def Let_def positiveSample_def max_def split: if_splits)

section \<open>A zero budget\<close>

text \<open>Without a share the second placeholder of a rendering is searched for in the inventory: a path that holds it is
changed.\<close>

lemma zero_budget_rewrites_path:
  "resolveReadout 1 (\<lambda>b. 0) (js ''{\"tokens\":{{tokens}},\"budget\":0}'') (\<lambda>s. Whole 5)
     [\<lparr>itemPath = js ''log:///{{percent}}'', itemTokens = Whole 1\<rparr>]
   = Inr (js ''{\"tokens\":5,\"budget\":0,\"largest\":[{\"path\":\"log:/// \",\"tokens\":1}]}'')"
  by code_simp

end
