(* ===== verification/HttpDate.thy ===== *)
theory HttpDate
  imports JsSearch
begin

text \<open>
  The dates of \<^verbatim>\<open>plurnk-schemes-http/src/HttpCache.ts\<close>: the three formats of HTTP dates and the instants
  they name. \<open>Date\<close> is modelled as ECMAScript defines it, an integer of milliseconds since 1970 with the
  proleptic Gregorian calendar. A clock reading is a parameter.

  A regular expression of the source is a list of pieces; no name of a list of names is a prefix of another,
  so the first that matches is the only one.
\<close>

section \<open>Civil time\<close>

definition dayFromYear :: "int \<Rightarrow> int" where
  "dayFromYear y = 365 * (y - 1970) + (y - 1969) div 4 - (y - 1901) div 100 + (y - 1601) div 400"

definition leapYear :: "int \<Rightarrow> bool" where
  "leapYear y \<longleftrightarrow> y mod 4 = 0 \<and> (y mod 100 \<noteq> 0 \<or> y mod 400 = 0)"

text \<open>The days of a year before a month, months counted from 0.\<close>

definition monthStart :: "int \<Rightarrow> nat \<Rightarrow> int" where
  "monthStart y m =
     [0, 31, 59, 90, 120, 151, 181, 212, 243, 273, 304, 334, 365] ! m + (if leapYear y \<and> 2 \<le> m then 1 else 0)"

definition makeDay :: "int \<Rightarrow> nat \<Rightarrow> int \<Rightarrow> int" where
  "makeDay y m d = dayFromYear y + monthStart y m + d - 1"

definition yearFromDay :: "int \<Rightarrow> int" where
  "yearFromDay d =
     (let y = 1970 + d * 400 div 146097
      in if d < dayFromYear y then y - 1 else if d < dayFromYear (y + 1) then y else y + 1)"

definition monthFromDay :: "int \<Rightarrow> nat" where
  "monthFromDay d =
     (let y = yearFromDay d
      in length (filter (\<lambda>m. monthStart y m \<le> d - dayFromYear y) [1..<12]))"

definition dateFromDay :: "int \<Rightarrow> int" where
  "dateFromDay d = d - makeDay (yearFromDay d) (monthFromDay d) 1 + 1"

definition weekDay :: "int \<Rightarrow> int" where
  "weekDay d = (d + 4) mod 7"

definition msPerDay :: int where "msPerDay = 86400000"

definition utcDay :: "int \<Rightarrow> int" where "utcDay t = t div msPerDay"

definition getUTCFullYear :: "int \<Rightarrow> int" where "getUTCFullYear t = yearFromDay (utcDay t)"

definition getUTCMonth :: "int \<Rightarrow> nat" where "getUTCMonth t = monthFromDay (utcDay t)"

definition getUTCDate :: "int \<Rightarrow> int" where "getUTCDate t = dateFromDay (utcDay t)"

definition getUTCDay :: "int \<Rightarrow> int" where "getUTCDay t = weekDay (utcDay t)"

definition getUTCHours :: "int \<Rightarrow> int" where "getUTCHours t = t mod msPerDay div 3600000"

definition getUTCMinutes :: "int \<Rightarrow> int" where "getUTCMinutes t = t mod 3600000 div 60000"

definition getUTCSeconds :: "int \<Rightarrow> int" where "getUTCSeconds t = t mod 60000 div 1000"

definition getUTCMilliseconds :: "int \<Rightarrow> int" where "getUTCMilliseconds t = t mod 1000"

definition makeTime :: "int \<Rightarrow> int \<Rightarrow> int \<Rightarrow> int \<Rightarrow> int" where
  "makeTime h mi s ms = h * 3600000 + mi * 60000 + s * 1000 + ms"

lemma div_bounds: "0 < n \<Longrightarrow> n * (x div n) \<le> x \<and> x - n + 1 \<le> n * (x div n)" for x n :: int
  using mult_div_mod_eq [of n x] pos_mod_sign [of n x] pos_mod_bound [of n x] by linarith

lemma div_Suc: "0 < n \<Longrightarrow> (x + 1) div n = x div n + (if (x + 1) mod n = 0 then 1 else 0)" for x n :: int
proof -
  assume n: "0 < n"
  have e: "x + 1 = n * (x div n) + (x mod n + 1)" using mult_div_mod_eq [of n x] by linarith
  have b: "0 \<le> x mod n" "x mod n < n" using n by simp_all
  show ?thesis
  proof (cases "x mod n + 1 = n")
    case True
    then have "x + 1 = (x div n + 1) * n" using e by (simp add: algebra_simps)
    then show ?thesis using n by simp
  next
    case False
    then have "(x + 1) div n = x div n" "(x + 1) mod n = x mod n + 1"
      using int_div_pos_eq [OF e] int_mod_pos_eq [OF e] b n by simp_all
    then show ?thesis using b by simp
  qed
qed

lemma mod_shift: "n dvd k \<Longrightarrow> (y - k) mod n = 0 \<longleftrightarrow> y mod n = 0" for y n :: int
  using dvd_add_left_iff [of n k "y - k"] by (simp add: mod_eq_0_iff_dvd)

lemma dayFromYear_Suc: "dayFromYear (y + 1) = dayFromYear y + (if leapYear y then 366 else 365)"
proof -
  have "dayFromYear (y + 1) = 365 * (y - 1970) + 365 + (y - 1969 + 1) div 4 - (y - 1901 + 1) div 100 + (y - 1601 + 1) div 400"
    by (simp add: dayFromYear_def)
  also have "\<dots> = dayFromYear y + 365 + (if (y - 1969 + 1) mod 4 = 0 then 1 else 0)
      - (if (y - 1901 + 1) mod 100 = 0 then 1 else 0) + (if (y - 1601 + 1) mod 400 = 0 then 1 else 0)"
    by (simp only: div_Suc zero_less_numeral dayFromYear_def)
  also have "(y - 1969 + 1) mod 4 = 0 \<longleftrightarrow> y mod 4 = 0" using mod_shift [of 4 1968 y] by simp
  also have "(y - 1901 + 1) mod 100 = 0 \<longleftrightarrow> y mod 100 = 0" using mod_shift [of 100 1900 y] by simp
  also have "(y - 1601 + 1) mod 400 = 0 \<longleftrightarrow> y mod 400 = 0" using mod_shift [of 400 1600 y] by simp
  finally have e: "dayFromYear (y + 1) = dayFromYear y + 365 + (if y mod 4 = 0 then 1 else 0)
      - (if y mod 100 = 0 then 1 else 0) + (if y mod 400 = 0 then 1 else 0)" .
  have "y mod 400 = 0 \<longrightarrow> y mod 100 = 0" "y mod 100 = 0 \<longrightarrow> y mod 4 = 0"
    using dvd_trans [of 100 400 y] dvd_trans [of 4 100 y] by (simp_all add: mod_eq_0_iff_dvd)
  then show ?thesis unfolding e leapYear_def by (cases "y mod 4 = 0"; cases "y mod 100 = 0"; cases "y mod 400 = 0") simp_all
qed

lemma dayFromYear_mono: "a \<le> b \<Longrightarrow> dayFromYear a \<le> dayFromYear b"
proof -
  have "dayFromYear a \<le> dayFromYear (a + int k)" for k
  proof (induction k)
    case (Suc k)
    then show ?case using dayFromYear_Suc [of "a + int k"] by (simp add: ac_simps split: if_splits)
  qed simp
  from this [of "nat (b - a)"] show "a \<le> b \<Longrightarrow> dayFromYear a \<le> dayFromYear b" by simp
qed

lemma dayFromYear_approx:
  "400 * dayFromYear y \<le> 146097 * (y - 1970) + 589 \<and> 146097 * (y - 1970) - 506 \<le> 400 * dayFromYear y"
proof -
  have b: "4 * ((y - 1969) div 4) \<le> y - 1969" "y - 1969 - 4 + 1 \<le> 4 * ((y - 1969) div 4)"
    "100 * ((y - 1901) div 100) \<le> y - 1901" "y - 1901 - 100 + 1 \<le> 100 * ((y - 1901) div 100)"
    "400 * ((y - 1601) div 400) \<le> y - 1601" "y - 1601 - 400 + 1 \<le> 400 * ((y - 1601) div 400)"
    by (rule div_bounds [THEN conjunct1] div_bounds [THEN conjunct2]; simp)+
  show ?thesis unfolding dayFromYear_def using b by (simp add: algebra_simps)
qed

lemma yearFromDay_bounds: "dayFromYear (yearFromDay d) \<le> d \<and> d < dayFromYear (yearFromDay d + 1)"
proof -
  define y where "y = 1970 + d * 400 div 146097"
  have "146097 * (y - 1970) \<le> d * 400" "d * 400 < 146097 * (y - 1970) + 146097"
    unfolding y_def using div_bounds [of 146097 "d * 400"] by simp_all
  then have "dayFromYear (y - 1) \<le> d \<and> d < dayFromYear (y + 2)"
    using dayFromYear_approx [of "y - 1", THEN conjunct1] dayFromYear_approx [of "y + 2", THEN conjunct2]
    by (simp add: algebra_simps)
  then show ?thesis by (auto simp: yearFromDay_def y_def [symmetric] Let_def ac_simps)
qed

lemma yearFromDay_eq:
  assumes "dayFromYear y \<le> d" "d < dayFromYear (y + 1)"
  shows "yearFromDay d = y"
proof (rule antisym)
  show "yearFromDay d \<le> y" using dayFromYear_mono [of "y + 1" "yearFromDay d"] yearFromDay_bounds [of d] assms by linarith
  show "y \<le> yearFromDay d" using dayFromYear_mono [of "yearFromDay d + 1" y] yearFromDay_bounds [of d] assms by linarith
qed


definition validDate :: "int \<Rightarrow> nat \<Rightarrow> int \<Rightarrow> bool" where
  "validDate y m d \<longleftrightarrow> m < 12 \<and> 1 \<le> d \<and> d \<le> monthStart y (Suc m) - monthStart y m"

lemma below_twelve: "m < 12 \<longleftrightarrow> m \<in> {0, 1, 2, 3, 4, 5, 6, 7, 8, 9, 10, 11}" for m :: nat
  by (simp; presburger)

lemma twelve_months: "[1..<12] = [1, 2, 3, 4, 5, 6, 7, 8, 9, 10, 11 :: nat]"
  by (simp add: upt_rec)

lemma monthStart_range: "m < 12 \<Longrightarrow> 0 \<le> monthStart y m \<and> monthStart y (Suc m) \<le> (if leapYear y then 366 else 365)"
  unfolding below_twelve by (auto simp: monthStart_def)

lemma month_of:
  assumes "m < 12" "monthStart y m \<le> k" "k < monthStart y (Suc m)"
  shows "length (filter (\<lambda>i. monthStart y i \<le> k) [1..<12]) = m"
  using assms unfolding below_twelve twelve_months by (elim insertE emptyE) (simp_all add: monthStart_def split: if_splits)

lemma month_exists:
  assumes "0 \<le> k" "k < (if leapYear y then 366 else 365)"
  obtains m where "m < 12" "monthStart y m \<le> k" "k < monthStart y (Suc m)"
proof -
  have "\<exists>m. m < 12 \<and> monthStart y m \<le> k \<and> k < monthStart y (Suc m)"
  proof (rule ccontr)
    assume none: "\<not> ?thesis"
    have "monthStart y m \<le> k" if "m \<le> 12" for m
      using that
    proof (induction m)
      case (Suc m)
      then show ?case using none by (metis Suc_le_lessD Suc_leD not_le)
    qed (use assms in \<open>simp add: monthStart_def\<close>)
    from this [of 12] show False using assms by (simp add: monthStart_def split: if_splits)
  qed
  then show thesis using that by blast
qed

lemma makeDay_fields:
  assumes "validDate y m d"
  shows "yearFromDay (makeDay y m d) = y" "monthFromDay (makeDay y m d) = m" "dateFromDay (makeDay y m d) = d"
proof -
  let ?k = "monthStart y m + d - 1"
  have b: "m < 12" "monthStart y m \<le> ?k" "?k < monthStart y (Suc m)" using assms by (auto simp: validDate_def)
  have day: "makeDay y m d = dayFromYear y + ?k" by (simp add: makeDay_def)
  show y: "yearFromDay (makeDay y m d) = y"
    by (rule yearFromDay_eq) (use b monthStart_range [OF b(1), of y] in \<open>simp_all add: day dayFromYear_Suc split: if_splits\<close>)
  show m: "monthFromDay (makeDay y m d) = m"
    unfolding monthFromDay_def Let_def y using month_of [OF b] by (simp add: day)
  show "dateFromDay (makeDay y m d) = d" unfolding dateFromDay_def y m by (simp add: makeDay_def)
qed

lemma day_fields:
  "makeDay (yearFromDay d) (monthFromDay d) (dateFromDay d) = d"
  "validDate (yearFromDay d) (monthFromDay d) (dateFromDay d)"
proof -
  let ?y = "yearFromDay d"
  have "0 \<le> d - dayFromYear ?y" "d - dayFromYear ?y < (if leapYear ?y then 366 else 365)"
    using yearFromDay_bounds [of d] dayFromYear_Suc [of ?y] by (auto split: if_splits)
  then obtain m where m: "m < 12" "monthStart ?y m \<le> d - dayFromYear ?y" "d - dayFromYear ?y < monthStart ?y (Suc m)"
    by (rule month_exists)
  then have "monthFromDay d = m" using month_of [OF m] by (simp add: monthFromDay_def Let_def)
  then show "validDate ?y (monthFromDay d) (dateFromDay d)" using m by (simp add: validDate_def dateFromDay_def makeDay_def)
qed (simp add: dateFromDay_def makeDay_def)

lemma time_fields:
  assumes "0 \<le> h" "h < 24" "0 \<le> mi" "mi < 60" "0 \<le> s" "s < 60" "0 \<le> ms" "ms < 1000"
    "t = d * msPerDay + makeTime h mi s ms"
  shows "utcDay t = d" "getUTCHours t = h" "getUTCMinutes t = mi" "getUTCSeconds t = s" "getUTCMilliseconds t = ms"
proof -
  have "t = 86400000 * d + makeTime h mi s ms" "0 \<le> makeTime h mi s ms" "makeTime h mi s ms < 86400000"
    using assms by (simp_all add: makeTime_def msPerDay_def)
  then have "t div 86400000 = d" "t mod 86400000 = makeTime h mi s ms" using int_div_pos_eq int_mod_pos_eq by blast+
  then show "utcDay t = d" by (simp add: utcDay_def msPerDay_def)
  show "getUTCHours t = h" unfolding getUTCHours_def msPerDay_def \<open>t mod 86400000 = _\<close>
    by (rule int_div_pos_eq [of _ _ _ "mi * 60000 + s * 1000 + ms"]) (use assms in \<open>simp_all add: makeTime_def\<close>)
  have "t mod 3600000 = mi * 60000 + s * 1000 + ms"
    by (rule int_mod_pos_eq [of _ _ "24 * d + h"]) (use assms in \<open>simp_all add: makeTime_def msPerDay_def\<close>)
  then show "getUTCMinutes t = mi" unfolding getUTCMinutes_def
    by (simp only:) (rule int_div_pos_eq [of _ _ _ "s * 1000 + ms"]; use assms in simp)
  have "t mod 60000 = s * 1000 + ms"
    by (rule int_mod_pos_eq [of _ _ "1440 * d + 60 * h + mi"]) (use assms in \<open>simp_all add: makeTime_def msPerDay_def\<close>)
  then show "getUTCSeconds t = s" unfolding getUTCSeconds_def
    by (simp only:) (rule int_div_pos_eq [of _ _ _ ms]; use assms in simp)
  show "getUTCMilliseconds t = ms" unfolding getUTCMilliseconds_def
    by (rule int_mod_pos_eq [of _ _ "86400 * d + 3600 * h + 60 * mi + s"])
      (use assms in \<open>simp_all add: makeTime_def msPerDay_def\<close>)
qed

lemma fields_of_time:
  "t = utcDay t * msPerDay + makeTime (getUTCHours t) (getUTCMinutes t) (getUTCSeconds t) (getUTCMilliseconds t)"
  "0 \<le> getUTCHours t" "getUTCHours t < 24" "0 \<le> getUTCMinutes t" "getUTCMinutes t < 60"
  "0 \<le> getUTCSeconds t" "getUTCSeconds t < 60" "0 \<le> getUTCMilliseconds t" "getUTCMilliseconds t < 1000"
proof -
  have a: "t = 86400000 * (t div 86400000) + t mod 86400000" "t mod 86400000 = 3600000 * (t mod 86400000 div 3600000) + t mod 86400000 mod 3600000"
    "t mod 3600000 = 60000 * (t mod 3600000 div 60000) + t mod 3600000 mod 60000"
    "t mod 60000 = 1000 * (t mod 60000 div 1000) + t mod 60000 mod 1000" by simp_all
  have b: "t mod 86400000 mod 3600000 = t mod 3600000" "t mod 3600000 mod 60000 = t mod 60000" "t mod 60000 mod 1000 = t mod 1000"
    by (simp_all add: mod_mod_cancel)
  show "t = utcDay t * msPerDay + makeTime (getUTCHours t) (getUTCMinutes t) (getUTCSeconds t) (getUTCMilliseconds t)"
    unfolding utcDay_def makeTime_def getUTCHours_def getUTCMinutes_def getUTCSeconds_def getUTCMilliseconds_def msPerDay_def
    using a [unfolded b] by linarith
  have lt: "x mod (a * n) div n < a" if "0 < n" "0 < a" for x n a :: int
  proof -
    have "x mod (a * n) < a * n" using that by simp
    then have "n * (x mod (a * n) div n) < n * a"
      using div_bounds [OF that(1), of "x mod (a * n)"] unfolding mult.commute [of n a] by linarith
    then show ?thesis using that(1) by simp
  qed
  show "0 \<le> getUTCHours t" "getUTCHours t < 24" "0 \<le> getUTCMinutes t" "getUTCMinutes t < 60"
    "0 \<le> getUTCSeconds t" "getUTCSeconds t < 60" "0 \<le> getUTCMilliseconds t" "getUTCMilliseconds t < 1000"
    using lt [of 3600000 24 t] lt [of 60000 60 t] lt [of 1000 60 t]
    by (simp_all add: getUTCHours_def getUTCMinutes_def getUTCSeconds_def getUTCMilliseconds_def msPerDay_def pos_imp_zdiv_nonneg_iff)
qed

section \<open>Formats\<close>

datatype Piece = Lit jsstr | OneOf "jsstr list" | Digits nat

text \<open>The captured groups of a match of the whole text.\<close>

fun matchPieces :: "Piece list \<Rightarrow> jsstr \<Rightarrow> jsstr list option" where
  "matchPieces [] s = (if s = [] then Some [] else None)"
| "matchPieces (Lit l # ps) s = (if prefix l s then matchPieces ps (drop (length l) s) else None)"
| "matchPieces (OneOf ws # ps) s =
     (case find (\<lambda>w. prefix w s) ws of
        None \<Rightarrow> None
      | Some w \<Rightarrow> map_option (\<lambda>gs. w # gs) (matchPieces ps (drop (length w) s)))"
| "matchPieces (Digits n # ps) s =
     (if n \<le> length s \<and> list_all isDigit (take n s)
      then map_option (\<lambda>gs. take n s # gs) (matchPieces ps (drop n s)) else None)"

definition MONTHS :: "jsstr list" where
  "MONTHS = map js [''Jan'', ''Feb'', ''Mar'', ''Apr'', ''May'', ''Jun'',
     ''Jul'', ''Aug'', ''Sep'', ''Oct'', ''Nov'', ''Dec'']"

definition WEEKDAYS :: "jsstr list" where
  "WEEKDAYS = map js [''Sun'', ''Mon'', ''Tue'', ''Wed'', ''Thu'', ''Fri'', ''Sat'']"

definition LONG_WEEKDAYS :: "jsstr list" where
  "LONG_WEEKDAYS = map js [''Sunday'', ''Monday'', ''Tuesday'', ''Wednesday'', ''Thursday'', ''Friday'', ''Saturday'']"

definition CLOCK :: "Piece list" where
  "CLOCK = [Digits 2, Lit (js '':''), Digits 2, Lit (js '':''), Digits 2]"

definition IMF_FIXDATE :: "Piece list" where
  "IMF_FIXDATE = [OneOf WEEKDAYS, Lit (js '', ''), Digits 2, Lit (js '' ''), OneOf MONTHS, Lit (js '' ''), Digits 4,
     Lit (js '' '')] @ CLOCK @ [Lit (js '' GMT'')]"

definition RFC850_DATE :: "Piece list" where
  "RFC850_DATE = [OneOf LONG_WEEKDAYS, Lit (js '', ''), Digits 2, Lit (js ''-''), OneOf MONTHS, Lit (js ''-''), Digits 2,
     Lit (js '' '')] @ CLOCK @ [Lit (js '' GMT'')]"

text \<open>The two alternatives for the day of \<open>ASCTIME_DATE\<close>.\<close>

definition ASCTIME_DATE :: "bool \<Rightarrow> Piece list" where
  "ASCTIME_DATE spaced = [OneOf WEEKDAYS, Lit (js '' ''), OneOf MONTHS, Lit (js '' '')]
     @ (if spaced then [Lit (js '' ''), Digits 1] else [Digits 2])
     @ [Lit (js '' '')] @ CLOCK @ [Lit (js '' ''), Digits 4]"

definition indexIn :: "'a \<Rightarrow> 'a list \<Rightarrow> nat option" where
  "indexIn x xs = (if x \<in> set xs then Some (length (takeWhile (\<lambda>y. y \<noteq> x) xs)) else None)"

definition utcHttpDate ::
  "jsstr \<Rightarrow> jsstr \<Rightarrow> jsstr \<Rightarrow> int \<Rightarrow> jsstr \<Rightarrow> jsstr \<Rightarrow> jsstr \<Rightarrow> int option" where
  "utcHttpDate weekday day month year hour minute second =
     (case indexIn month MONTHS of
        None \<Rightarrow> None
      | Some monthIndex \<Rightarrow>
          (case indexIn (take 3 weekday) WEEKDAYS of
             None \<Rightarrow> None
           | Some weekdayIndex \<Rightarrow>
               let numericDay = digitsValue day; numericHour = digitsValue hour;
                   numericMinute = digitsValue minute; numericSecond = digitsValue second;
                   midnight = makeDay year monthIndex numericDay * msPerDay;
                   date = utcDay midnight * msPerDay + makeTime numericHour numericMinute numericSecond 0
               in if getUTCFullYear date = year \<and> getUTCMonth date = monthIndex \<and> getUTCDate date = numericDay
                     \<and> getUTCHours date = numericHour \<and> getUTCMinutes date = numericMinute
                     \<and> getUTCSeconds date = numericSecond \<and> getUTCDay date = int weekdayIndex
                  then Some date else None))"

text \<open>The year of two digits, read against the clock.\<close>

definition rfc850Year :: "int \<Rightarrow> int \<Rightarrow> int" where
  "rfc850Year now yy = (let year = 2000 + yy in if getUTCFullYear now + 50 < year then year - 100 else year)"

definition httpDate :: "int \<Rightarrow> jsstr \<Rightarrow> int option" where
  "httpDate now v =
     (case matchPieces IMF_FIXDATE v of
        Some [wd, d, m, y, h, mi, s] \<Rightarrow> utcHttpDate wd d m (digitsValue y) h mi s
      | _ \<Rightarrow>
     (case matchPieces RFC850_DATE v of
        Some [wd, d, m, y, h, mi, s] \<Rightarrow> utcHttpDate wd d m (rfc850Year now (digitsValue y)) h mi s
      | _ \<Rightarrow>
     (case (case matchPieces (ASCTIME_DATE True) v of None \<Rightarrow> matchPieces (ASCTIME_DATE False) v | g \<Rightarrow> g) of
        Some [wd, m, d, h, mi, s, y] \<Rightarrow> utcHttpDate wd d m (digitsValue y) h mi s
      | _ \<Rightarrow> None)))"

section \<open>What a template matches\<close>

fun fits :: "Piece list \<Rightarrow> jsstr list \<Rightarrow> bool" where
  "fits [] gs \<longleftrightarrow> gs = []"
| "fits (Lit l # ps) gs \<longleftrightarrow> fits ps gs"
| "fits (OneOf ws # ps) gs \<longleftrightarrow> (case gs of [] \<Rightarrow> False | g # hs \<Rightarrow> g \<in> set ws \<and> fits ps hs)"
| "fits (Digits n # ps) gs \<longleftrightarrow> (case gs of [] \<Rightarrow> False | g # hs \<Rightarrow> length g = n \<and> list_all isDigit g \<and> fits ps hs)"

fun fill :: "Piece list \<Rightarrow> jsstr list \<Rightarrow> jsstr" where
  "fill [] gs = []"
| "fill (Lit l # ps) gs = l @ fill ps gs"
| "fill (p # ps) gs = hd gs @ fill ps (tl gs)"

definition prefixFree :: "'a list list \<Rightarrow> bool" where
  "prefixFree ws \<longleftrightarrow> list_all (\<lambda>v. list_all (\<lambda>w. prefix v w \<longrightarrow> v = w) ws) ws"

fun clear :: "Piece list \<Rightarrow> bool" where
  "clear (OneOf ws # ps) \<longleftrightarrow> prefixFree ws \<and> clear ps"
| "clear (_ # ps) \<longleftrightarrow> clear ps"
| "clear [] \<longleftrightarrow> True"

lemma prefix_drop: "prefix l s \<longleftrightarrow> s = l @ drop (length l) s"
  by (auto simp: prefix_def)

lemma find_prefix:
  assumes "prefixFree ws"
  shows "find (\<lambda>w. prefix w s) ws = Some w \<longleftrightarrow> w \<in> set ws \<and> prefix w s"
proof
  assume "w \<in> set ws \<and> prefix w s"
  then have w: "w \<in> set ws" "prefix w s" by auto
  then obtain v where v: "find (\<lambda>w. prefix w s) ws = Some v" by (cases "find (\<lambda>w. prefix w s) ws") (auto simp: find_None_iff)
  then have "v \<in> set ws" "prefix v s" by (auto simp: find_Some_iff)
  then have "prefix v w \<or> prefix w v" using w prefix_same_cases by blast
  then show "find (\<lambda>w. prefix w s) ws = Some w"
    using v assms w(1) \<open>v \<in> set ws\<close> by (auto simp: prefixFree_def list_all_iff)
qed (auto simp: find_Some_iff)

lemma matchPieces_Some:
  "clear ps \<Longrightarrow> matchPieces ps s = Some gs \<longleftrightarrow> fits ps gs \<and> s = fill ps gs"
proof (induction ps s arbitrary: gs rule: matchPieces.induct)
  case (2 l ps s)
  show ?case
  proof (cases "prefix l s")
    case True
    then obtain r where "s = l @ r" by (auto elim: prefixE)
    then show ?thesis using 2 True by simp
  qed auto
next
  case (3 ws ps s)
  have p: "prefixFree ws" "clear ps" using "3.prems" by auto
  show ?case
  proof
    assume "matchPieces (OneOf ws # ps) s = Some gs"
    then obtain w hs where w: "find (\<lambda>w. prefix w s) ws = Some w" "matchPieces ps (drop (length w) s) = Some hs" "gs = w # hs"
      by (auto split: option.splits)
    then show "fits (OneOf ws # ps) gs \<and> s = fill (OneOf ws # ps) gs"
      using "3.IH" [OF w(1) p(2)] find_prefix [OF p(1)] by (auto simp: prefix_drop)
  next
    assume a: "fits (OneOf ws # ps) gs \<and> s = fill (OneOf ws # ps) gs"
    then obtain w hs where w: "gs = w # hs" "w \<in> set ws" "fits ps hs" "s = w @ fill ps hs" by (auto split: list.splits)
    then have "find (\<lambda>w. prefix w s) ws = Some w" using find_prefix [OF p(1)] by simp
    then show "matchPieces (OneOf ws # ps) s = Some gs" using "3.IH" [OF _ p(2)] w by simp
  qed
next
  case (4 n ps s)
  show ?case
  proof
    assume "matchPieces (Digits n # ps) s = Some gs"
    then have d: "n \<le> length s" "list_all isDigit (take n s)"
      and "\<exists>hs. gs = take n s # hs \<and> matchPieces ps (drop n s) = Some hs" by (auto split: if_splits)
    then obtain hs where hs: "gs = take n s # hs" "matchPieces ps (drop n s) = Some hs" by blast
    then have "fits ps hs" "drop n s = fill ps hs" using 4 d by auto
    then show "fits (Digits n # ps) gs \<and> s = fill (Digits n # ps) gs"
      using d hs(1) append_take_drop_id [of n s] by simp
  next
    assume a: "fits (Digits n # ps) gs \<and> s = fill (Digits n # ps) gs"
    then obtain g hs where g: "gs = g # hs" "length g = n" "list_all isDigit g" "fits ps hs" "s = g @ fill ps hs"
      by (auto split: list.splits)
    then have "n \<le> length s \<and> list_all isDigit (take n s)" by simp
    then have "matchPieces ps (drop n s) = Some hs" using 4 g by simp
    then show "matchPieces (Digits n # ps) s = Some gs" using g by simp
  qed
qed auto

section \<open>Numerals of a fixed width\<close>

fun zeroPad :: "nat \<Rightarrow> int \<Rightarrow> jsstr" where
  "zeroPad 0 n = []"
| "zeroPad (Suc k) n = zeroPad k (n div 10) @ [of_nat (48 + nat (n mod 10))]"

lemma length_zeroPad [simp]: "length (zeroPad k n) = k"
  by (induction k arbitrary: n) simp_all

lemma zeroPad_digits: "list_all isDigit (zeroPad k n)"
proof (induction k arbitrary: n)
  case (Suc k)
  have "nat (n mod 10) < 10" by simp
  then show ?case using Suc isDigit_of_nat [of "nat (n mod 10)"] by (simp del: of_nat_add)
qed simp

lemma zeroPad_value: "0 \<le> n \<Longrightarrow> n < 10 ^ k \<Longrightarrow> digitsValue (zeroPad k n) = n"
proof (induction k arbitrary: n)
  case (Suc k)
  have "digitsValue (zeroPad k (n div 10)) = n div 10"
    by (rule Suc.IH) (use Suc.prems div_bounds [of 10 n] in \<open>simp_all add: pos_imp_zdiv_nonneg_iff\<close>)
  moreover have "uint (of_nat (48 + nat (n mod 10)) :: jschar) = 48 + n mod 10"
    using uint_digit [of "nat (n mod 10)"] by simp
  ultimately show ?case by (simp del: of_nat_add)
qed simp

lemma digit_of_value: "isDigit c \<Longrightarrow> of_nat (48 + nat (uint c - 48)) = c \<and> 0 \<le> uint c - 48 \<and> uint c - 48 < 10"
proof -
  assume c: "isDigit c"
  then have "48 \<le> uint c" "uint c \<le> 57" by (auto simp: isDigit_def word_le_def)
  then show ?thesis by (simp add: word_of_int_uint of_nat_nat)
qed

lemma zeroPad_of_value: "list_all isDigit ds \<Longrightarrow> zeroPad (length ds) (digitsValue ds) = ds"
proof (induction ds rule: rev_induct)
  case (snoc c ds)
  then have "(digitsValue ds * 10 + (uint c - 48)) div 10 = digitsValue ds"
    "(digitsValue ds * 10 + (uint c - 48)) mod 10 = uint c - 48"
    using digit_of_value [of c] by auto
  then show ?case using snoc digit_of_value [of c] by (simp del: of_nat_add)
qed simp

lemma numeral_eq:
  assumes "list_all isDigit ds" "length ds = k" "0 \<le> n" "n < 10 ^ k"
  shows "digitsValue ds = n \<longleftrightarrow> ds = zeroPad k n"
  using assms zeroPad_of_value [of ds] zeroPad_value [of n k] by auto

section \<open>Instants and their texts\<close>

definition weekdayName :: "int \<Rightarrow> jsstr" where "weekdayName t = WEEKDAYS ! nat (getUTCDay t)"

definition monthName :: "int \<Rightarrow> jsstr" where "monthName t = MONTHS ! getUTCMonth t"

definition clockText :: "int \<Rightarrow> jsstr" where
  "clockText t = zeroPad 2 (getUTCHours t) @ js '':'' @ zeroPad 2 (getUTCMinutes t) @ js '':'' @ zeroPad 2 (getUTCSeconds t)"

definition imfFixdate :: "int \<Rightarrow> jsstr" where
  "imfFixdate t = weekdayName t @ js '', '' @ zeroPad 2 (getUTCDate t) @ js '' '' @ monthName t @ js '' ''
     @ zeroPad 4 (getUTCFullYear t) @ js '' '' @ clockText t @ js '' GMT''"

definition rfc850Text :: "int \<Rightarrow> jsstr" where
  "rfc850Text t = LONG_WEEKDAYS ! nat (getUTCDay t) @ js '', '' @ zeroPad 2 (getUTCDate t) @ js ''-'' @ monthName t
     @ js ''-'' @ zeroPad 2 (getUTCFullYear t mod 100) @ js '' '' @ clockText t @ js '' GMT''"

text \<open>With a day below 10 after a space, or with a day of two digits.\<close>

definition asctimeText :: "bool \<Rightarrow> int \<Rightarrow> jsstr" where
  "asctimeText spaced t = weekdayName t @ js '' '' @ monthName t @ js '' ''
     @ (if spaced then js '' '' @ zeroPad 1 (getUTCDate t) else zeroPad 2 (getUTCDate t))
     @ js '' '' @ clockText t @ js '' '' @ zeroPad 4 (getUTCFullYear t)"

lemma indexIn_distinct: "distinct xs \<Longrightarrow> indexIn x xs = Some i \<longleftrightarrow> i < length xs \<and> xs ! i = x"
proof -
  assume d: "distinct xs"
  show ?thesis
  proof (cases "x \<in> set xs")
    case True
    let ?i = "length (takeWhile (\<lambda>y. y \<noteq> x) xs)"
    have i: "?i < length xs" using True by (induction xs) auto
    moreover have "xs ! ?i = x" using nth_length_takeWhile [OF i] by simp
    ultimately show ?thesis using True d by (auto simp: indexIn_def nth_eq_iff_index_eq)
  qed (auto simp: indexIn_def)
qed

lemma names_distinct: "distinct MONTHS" "distinct WEEKDAYS" by code_simp+

lemma names_length: "length MONTHS = 12" "length WEEKDAYS = 7" "length LONG_WEEKDAYS = 7"
  by (simp_all add: MONTHS_def WEEKDAYS_def LONG_WEEKDAYS_def)

lemma names_clear: "prefixFree MONTHS" "prefixFree WEEKDAYS" "prefixFree LONG_WEEKDAYS" by code_simp+

lemma below_seven: "i < 7 \<longleftrightarrow> i \<in> {0, 1, 2, 3, 4, 5, 6}" for i :: nat
  by (simp; presburger)

lemma long_weekday: "i < 7 \<Longrightarrow> take 3 (LONG_WEEKDAYS ! i) = WEEKDAYS ! i"
  unfolding below_seven by (elim insertE emptyE) (simp_all add: LONG_WEEKDAYS_def WEEKDAYS_def js_def)

lemma weekDay_index: "nat (getUTCDay t) < 7" "int (nat (getUTCDay t)) = getUTCDay t"
  by (simp_all add: getUTCDay_def weekDay_def)

lemma utcHttpDate_Some:
  assumes "list_all isDigit d" "list_all isDigit h" "list_all isDigit mi" "list_all isDigit s"
  shows "utcHttpDate w d m y h mi s = Some t \<longleftrightarrow>
     t mod 1000 = 0 \<and> getUTCFullYear t = y \<and> m = monthName t \<and> take 3 w = weekdayName t
     \<and> digitsValue d = getUTCDate t \<and> digitsValue h = getUTCHours t \<and> digitsValue mi = getUTCMinutes t
     \<and> digitsValue s = getUTCSeconds t" (is "?L \<longleftrightarrow> ?R")
proof
  assume ?L
  then obtain i j where i: "indexIn m MONTHS = Some i" "indexIn (take 3 w) WEEKDAYS = Some j"
    and t: "t = utcDay (makeDay y i (digitsValue d) * msPerDay) * msPerDay
        + makeTime (digitsValue h) (digitsValue mi) (digitsValue s) 0"
    and f: "getUTCFullYear t = y" "getUTCMonth t = i" "getUTCDate t = digitsValue d" "getUTCHours t = digitsValue h"
      "getUTCMinutes t = digitsValue mi" "getUTCSeconds t = digitsValue s" "getUTCDay t = int j"
    by (auto simp: utcHttpDate_def Let_def split: option.splits if_splits)
  have "1000 dvd t" unfolding t msPerDay_def makeTime_def by (intro dvd_add dvd_mult) simp_all
  then show ?R using i f by (auto simp: indexIn_distinct names_distinct monthName_def weekdayName_def)
next
  assume r: ?R
  then have date: "makeDay y (getUTCMonth t) (digitsValue d) = utcDay t" and "getUTCMonth t < 12"
    using day_fields [of "utcDay t"] by (auto simp: getUTCFullYear_def getUTCMonth_def getUTCDate_def validDate_def)
  have "getUTCMilliseconds t = 0" using r by (simp add: getUTCMilliseconds_def)
  then have e: "utcDay (makeDay y (getUTCMonth t) (digitsValue d) * msPerDay) * msPerDay
      + makeTime (digitsValue h) (digitsValue mi) (digitsValue s) 0 = t"
    using fields_of_time(1) [of t] r unfolding date by (simp add: utcDay_def msPerDay_def)
  have "indexIn m MONTHS = Some (getUTCMonth t)" "indexIn (take 3 w) WEEKDAYS = Some (nat (getUTCDay t))"
    using r \<open>getUTCMonth t < 12\<close> weekDay_index [of t]
    by (auto simp: indexIn_distinct names_distinct names_length monthName_def weekdayName_def)
  then show ?L unfolding utcHttpDate_def Let_def by (simp only: option.case e) (use r weekDay_index [of t] in simp)
qed

lemma case_groups: "(case gs of [] \<Rightarrow> False | g # hs \<Rightarrow> P g hs) \<longleftrightarrow> (\<exists>g hs. gs = g # hs \<and> P g hs)"
  by (cases gs) auto

abbreviation numeral_of :: "nat \<Rightarrow> jsstr \<Rightarrow> bool" where
  "numeral_of k g \<equiv> length g = k \<and> list_all isDigit g"

lemma fits_IMF: "fits IMF_FIXDATE gs \<longleftrightarrow> (\<exists>wd d m y h mi s. gs = [wd, d, m, y, h, mi, s] \<and> wd \<in> set WEEKDAYS
    \<and> numeral_of 2 d \<and> m \<in> set MONTHS \<and> numeral_of 4 y \<and> numeral_of 2 h \<and> numeral_of 2 mi \<and> numeral_of 2 s)"
  by (auto simp: IMF_FIXDATE_def CLOCK_def case_groups)

lemma fits_RFC850: "fits RFC850_DATE gs \<longleftrightarrow> (\<exists>wd d m y h mi s. gs = [wd, d, m, y, h, mi, s] \<and> wd \<in> set LONG_WEEKDAYS
    \<and> numeral_of 2 d \<and> m \<in> set MONTHS \<and> numeral_of 2 y \<and> numeral_of 2 h \<and> numeral_of 2 mi \<and> numeral_of 2 s)"
  by (auto simp: RFC850_DATE_def CLOCK_def case_groups)

lemma fits_ASCTIME: "fits (ASCTIME_DATE spaced) gs \<longleftrightarrow> (\<exists>wd m d h mi s y. gs = [wd, m, d, h, mi, s, y]
    \<and> wd \<in> set WEEKDAYS \<and> m \<in> set MONTHS \<and> numeral_of (if spaced then 1 else 2) d
    \<and> numeral_of 2 h \<and> numeral_of 2 mi \<and> numeral_of 2 s \<and> numeral_of 4 y)"
  by (cases spaced) (auto simp: ASCTIME_DATE_def CLOCK_def case_groups)

lemma clear_dates: "clear IMF_FIXDATE" "clear RFC850_DATE" "clear (ASCTIME_DATE spaced)"
  by (simp_all add: IMF_FIXDATE_def RFC850_DATE_def ASCTIME_DATE_def CLOCK_def names_clear)

lemma digitsValue_bounds: "list_all isDigit ds \<Longrightarrow> 0 \<le> digitsValue ds \<and> digitsValue ds < 10 ^ length ds"
proof (induction ds rule: rev_induct)
  case (snoc c ds)
  then show ?case using digit_of_value [of c] by auto
qed simp

lemma numeral_of_zeroPad: "numeral_of k (zeroPad k n)"
  by (simp add: zeroPad_digits)

lemma numeral_of_iff:
  assumes "0 \<le> n" "n < 10 ^ k"
  shows "numeral_of k g \<and> digitsValue g = n \<longleftrightarrow> g = zeroPad k n"
  using assms numeral_eq [of g k n] numeral_of_zeroPad [of k n] zeroPad_value [of n k] by auto

lemma date_range: "1 \<le> getUTCDate t \<and> getUTCDate t \<le> 31"
proof -
  have v: "validDate (getUTCFullYear t) (getUTCMonth t) (getUTCDate t)"
    using day_fields(2) [of "utcDay t"] by (simp add: getUTCFullYear_def getUTCMonth_def getUTCDate_def)
  have le: "monthStart y (Suc m) - monthStart y m \<le> 31" if "m < 12" for y m
    using that unfolding below_twelve by (auto simp: monthStart_def)
  show ?thesis using v le [of "getUTCMonth t" "getUTCFullYear t"] by (simp add: validDate_def)
qed

lemma month_range: "getUTCMonth t < 12"
  using day_fields(2) [of "utcDay t"] by (simp add: getUTCMonth_def validDate_def)

lemma names_in:
  "monthName t \<in> set MONTHS" "weekdayName t \<in> set WEEKDAYS" "LONG_WEEKDAYS ! nat (getUTCDay t) \<in> set LONG_WEEKDAYS"
  using month_range [of t] weekDay_index [of t] by (simp_all add: monthName_def weekdayName_def names_length)

lemma weekday_three: "w \<in> set WEEKDAYS \<Longrightarrow> length w = 3"
  by (auto simp: WEEKDAYS_def js_def)

lemma long_name:
  assumes "w \<in> set LONG_WEEKDAYS"
  shows "take 3 w = weekdayName t \<longleftrightarrow> w = LONG_WEEKDAYS ! nat (getUTCDay t)"
proof -
  obtain i where i: "i < 7" "w = LONG_WEEKDAYS ! i" using assms by (auto simp: in_set_conv_nth names_length)
  have "distinct LONG_WEEKDAYS" by code_simp
  then show ?thesis
    using i weekDay_index(1) [of t] long_weekday [OF i(1)] names_distinct(2)
    by (auto simp: weekdayName_def nth_eq_iff_index_eq names_length)
qed

text \<open>An instant is read from texts of a fixed width just when they are its padded numbers.\<close>

lemma year_numeral:
  "numeral_of 4 y \<and> digitsValue y = getUTCFullYear t
   \<longleftrightarrow> 0 \<le> getUTCFullYear t \<and> getUTCFullYear t \<le> 9999 \<and> y = zeroPad 4 (getUTCFullYear t)"
  using digitsValue_bounds [of y] numeral_of_iff [of "getUTCFullYear t" 4 y] by auto

lemma utc_texts:
  assumes "numeral_of k d" "numeral_of 2 h" "numeral_of 2 mi" "numeral_of 2 s"
  shows "utcHttpDate w d m y h mi s = Some t \<longleftrightarrow>
     t mod 1000 = 0 \<and> getUTCFullYear t = y \<and> m = monthName t \<and> take 3 w = weekdayName t
     \<and> getUTCDate t < 10 ^ k \<and> d = zeroPad k (getUTCDate t)
     \<and> h = zeroPad 2 (getUTCHours t) \<and> mi = zeroPad 2 (getUTCMinutes t) \<and> s = zeroPad 2 (getUTCSeconds t)"
proof -
  have "digitsValue d = getUTCDate t \<longleftrightarrow> getUTCDate t < 10 ^ k \<and> d = zeroPad k (getUTCDate t)"
    using date_range [of t] digitsValue_bounds [of d] numeral_of_iff [of "getUTCDate t" k d] assms(1) by auto
  moreover have "digitsValue h = getUTCHours t \<longleftrightarrow> h = zeroPad 2 (getUTCHours t)"
    "digitsValue mi = getUTCMinutes t \<longleftrightarrow> mi = zeroPad 2 (getUTCMinutes t)"
    "digitsValue s = getUTCSeconds t \<longleftrightarrow> s = zeroPad 2 (getUTCSeconds t)"
    using fields_of_time [of t] assms numeral_eq [of h 2 "getUTCHours t"] numeral_eq [of mi 2 "getUTCMinutes t"]
      numeral_eq [of s 2 "getUTCSeconds t"] by simp_all
  ultimately show ?thesis using utcHttpDate_Some [of d h mi s] assms by simp
qed

abbreviation fourDigitYear :: "int \<Rightarrow> bool" where
  "fourDigitYear t \<equiv> 0 \<le> getUTCFullYear t \<and> getUTCFullYear t \<le> 9999"

lemma reads_IMF:
  "(\<exists>wd d m y h mi s. matchPieces IMF_FIXDATE v = Some [wd, d, m, y, h, mi, s]
      \<and> utcHttpDate wd d m (digitsValue y) h mi s = Some t)
   \<longleftrightarrow> t mod 1000 = 0 \<and> fourDigitYear t \<and> v = imfFixdate t" (is "?L \<longleftrightarrow> ?R")
proof
  assume ?L
  then obtain wd d m y h mi s where "matchPieces IMF_FIXDATE v = Some [wd, d, m, y, h, mi, s]"
    and u: "utcHttpDate wd d m (digitsValue y) h mi s = Some t" by blast
  then have f: "wd \<in> set WEEKDAYS" "numeral_of 2 d" "numeral_of 4 y" "numeral_of 2 h" "numeral_of 2 mi" "numeral_of 2 s"
    and v: "v = fill IMF_FIXDATE [wd, d, m, y, h, mi, s]"
    by (auto simp: matchPieces_Some clear_dates fits_IMF)
  then have "fourDigitYear t \<and> y = zeroPad 4 (getUTCFullYear t)" using u year_numeral [of y t] by (auto simp: utc_texts)
  then show ?R using u f weekday_three [of wd]
    by (simp add: utc_texts v IMF_FIXDATE_def CLOCK_def imfFixdate_def clockText_def)
next
  assume r: ?R
  let ?gs = "[weekdayName t, zeroPad 2 (getUTCDate t), monthName t, zeroPad 4 (getUTCFullYear t),
    zeroPad 2 (getUTCHours t), zeroPad 2 (getUTCMinutes t), zeroPad 2 (getUTCSeconds t)]"
  have "fits IMF_FIXDATE ?gs" using names_in [of t] by (simp add: fits_IMF zeroPad_digits)
  moreover have "v = fill IMF_FIXDATE ?gs" using r by (simp add: IMF_FIXDATE_def CLOCK_def imfFixdate_def clockText_def)
  ultimately have "matchPieces IMF_FIXDATE v = Some ?gs" by (simp add: matchPieces_Some [OF clear_dates(1)])
  moreover have "digitsValue (zeroPad 4 (getUTCFullYear t)) = getUTCFullYear t" using r year_numeral by blast
  ultimately show ?L using r date_range [of t] weekday_three [OF names_in(2) [of t]]
    by (auto simp: utc_texts zeroPad_digits)
qed

lemma reads_RFC850:
  "(\<exists>wd d m y h mi s. matchPieces RFC850_DATE v = Some [wd, d, m, y, h, mi, s]
      \<and> utcHttpDate wd d m (rfc850Year now (digitsValue y)) h mi s = Some t)
   \<longleftrightarrow> t mod 1000 = 0 \<and> rfc850Year now (getUTCFullYear t mod 100) = getUTCFullYear t \<and> v = rfc850Text t" (is "?L \<longleftrightarrow> ?R")
proof
  assume ?L
  then obtain wd d m y h mi s where "matchPieces RFC850_DATE v = Some [wd, d, m, y, h, mi, s]"
    and u: "utcHttpDate wd d m (rfc850Year now (digitsValue y)) h mi s = Some t" by blast
  then have f: "wd \<in> set LONG_WEEKDAYS" "numeral_of 2 d" "numeral_of 2 y" "numeral_of 2 h" "numeral_of 2 mi" "numeral_of 2 s"
    and v: "v = fill RFC850_DATE [wd, d, m, y, h, mi, s]"
    by (auto simp: matchPieces_Some clear_dates fits_RFC850)
  have y: "getUTCFullYear t = rfc850Year now (digitsValue y)" using u f by (auto simp: utc_texts)
  have "0 \<le> digitsValue y \<and> digitsValue y < 100" using digitsValue_bounds [of y] f by simp
  then have "getUTCFullYear t mod 100 = digitsValue y"
    using int_mod_pos_eq [of _ 100 20 "digitsValue y"] int_mod_pos_eq [of _ 100 19 "digitsValue y"]
    unfolding y rfc850Year_def Let_def by simp
  then have "rfc850Year now (getUTCFullYear t mod 100) = getUTCFullYear t" "y = zeroPad 2 (getUTCFullYear t mod 100)"
    using y zeroPad_of_value [of y] f by auto
  then show ?R using u f long_name [of wd t]
    by (simp add: utc_texts v RFC850_DATE_def CLOCK_def rfc850Text_def clockText_def)
next
  assume r: ?R
  let ?y = "getUTCFullYear t mod 100"
  let ?gs = "[LONG_WEEKDAYS ! nat (getUTCDay t), zeroPad 2 (getUTCDate t), monthName t, zeroPad 2 ?y,
    zeroPad 2 (getUTCHours t), zeroPad 2 (getUTCMinutes t), zeroPad 2 (getUTCSeconds t)]"
  have "fits RFC850_DATE ?gs" using names_in [of t] by (simp add: fits_RFC850 zeroPad_digits)
  moreover have "v = fill RFC850_DATE ?gs" using r by (simp add: RFC850_DATE_def CLOCK_def rfc850Text_def clockText_def)
  ultimately have "matchPieces RFC850_DATE v = Some ?gs" by (simp add: matchPieces_Some [OF clear_dates(2)])
  moreover have "digitsValue (zeroPad 2 ?y) = ?y" by (simp add: zeroPad_value)
  ultimately show ?L using r date_range [of t] long_name [OF names_in(3) [of t], of t]
    by (auto simp: utc_texts zeroPad_digits)
qed

lemma reads_ASCTIME:
  "(\<exists>wd m d h mi s y. matchPieces (ASCTIME_DATE spaced) v = Some [wd, m, d, h, mi, s, y]
      \<and> utcHttpDate wd d m (digitsValue y) h mi s = Some t)
   \<longleftrightarrow> t mod 1000 = 0 \<and> fourDigitYear t \<and> (spaced \<longrightarrow> getUTCDate t < 10) \<and> v = asctimeText spaced t" (is "?L \<longleftrightarrow> ?R")
proof
  let ?k = "if spaced then 1 else 2 :: nat"
  assume ?L
  then obtain wd d m y h mi s where "matchPieces (ASCTIME_DATE spaced) v = Some [wd, m, d, h, mi, s, y]"
    and u: "utcHttpDate wd d m (digitsValue y) h mi s = Some t" by blast
  then have f: "wd \<in> set WEEKDAYS" "numeral_of ?k d" "numeral_of 4 y" "numeral_of 2 h" "numeral_of 2 mi" "numeral_of 2 s"
    and v: "v = fill (ASCTIME_DATE spaced) [wd, m, d, h, mi, s, y]"
    by (auto simp: matchPieces_Some clear_dates fits_ASCTIME)
  note u' = u [unfolded utc_texts [OF f(2,4,5,6)]]
  then have "fourDigitYear t \<and> y = zeroPad 4 (getUTCFullYear t)" using f(3) year_numeral [of y t] by auto
  then show ?R using u' f weekday_three [of wd]
    by (auto simp: v ASCTIME_DATE_def CLOCK_def asctimeText_def clockText_def)
next
  let ?k = "if spaced then 1 else 2 :: nat"
  assume r: ?R
  let ?gs = "[weekdayName t, monthName t, zeroPad ?k (getUTCDate t),
    zeroPad 2 (getUTCHours t), zeroPad 2 (getUTCMinutes t), zeroPad 2 (getUTCSeconds t), zeroPad 4 (getUTCFullYear t)]"
  have "fits (ASCTIME_DATE spaced) ?gs" using names_in [of t] numeral_of_zeroPad by (simp add: fits_ASCTIME zeroPad_digits)
  moreover have "v = fill (ASCTIME_DATE spaced) ?gs"
    using r by (simp add: ASCTIME_DATE_def CLOCK_def asctimeText_def clockText_def)
  ultimately have "matchPieces (ASCTIME_DATE spaced) v = Some ?gs" by (simp add: matchPieces_Some [OF clear_dates(3)])
  moreover have "digitsValue (zeroPad 4 (getUTCFullYear t)) = getUTCFullYear t" using r year_numeral by blast
  moreover have "getUTCDate t < 10 ^ ?k" using r date_range [of t] by simp
  moreover note utc_texts [OF numeral_of_zeroPad numeral_of_zeroPad numeral_of_zeroPad numeral_of_zeroPad]
  ultimately show ?L using r weekday_three [OF names_in(2) [of t]] by fastforce
qed

text \<open>The fourth and the ninth character tell the formats apart.\<close>

lemma matched: "matchPieces ps v = Some gs \<Longrightarrow> clear ps \<Longrightarrow> fits ps gs \<and> v = fill ps gs"
  by (simp add: matchPieces_Some)

lemma tells_IMF: "matchPieces IMF_FIXDATE v = Some gs \<Longrightarrow> atIndex v 3 = Some 44"
proof -
  assume "matchPieces IMF_FIXDATE v = Some gs"
  note m = matched [OF this clear_dates(1)]
  then obtain wd gt where "gs = wd # gt" "wd \<in> set WEEKDAYS" by (auto simp: fits_IMF)
  moreover have "v = fill IMF_FIXDATE gs" using m by blast
  ultimately obtain rest where "wd \<in> set WEEKDAYS" "v = wd @ 44 # rest"
    by (simp add: IMF_FIXDATE_def js_def)
  then show ?thesis using weekday_three [of wd] by (simp add: atIndex_Some_iff nth_append)
qed

lemma tells_RFC850: "matchPieces RFC850_DATE v = Some gs \<Longrightarrow> \<exists>c. atIndex v 3 = Some c \<and> c \<noteq> 44 \<and> c \<noteq> 32"
proof -
  assume "matchPieces RFC850_DATE v = Some gs"
  note m = matched [OF this clear_dates(2)]
  then obtain wd gt where "gs = wd # gt" "wd \<in> set LONG_WEEKDAYS" by (auto simp: fits_RFC850)
  moreover have "v = fill RFC850_DATE gs" using m by blast
  ultimately obtain rest where "wd \<in> set LONG_WEEKDAYS" "v = wd @ rest"
    by (simp add: RFC850_DATE_def)
  moreover have "list_all (\<lambda>w. 3 < length w \<and> w ! 3 \<noteq> 44 \<and> w ! 3 \<noteq> 32) LONG_WEEKDAYS" by code_simp
  ultimately show ?thesis by (auto simp: list_all_iff atIndex_Some_iff nth_append)
qed

lemma month_three: "m \<in> set MONTHS \<Longrightarrow> length m = 3"
  by (auto simp: MONTHS_def js_def)

lemma tells_ASCTIME: "matchPieces (ASCTIME_DATE spaced) v = Some gs \<Longrightarrow> atIndex v 3 = Some 32 \<and> (atIndex v 8 = Some 32 \<longleftrightarrow> spaced)"
proof -
  assume "matchPieces (ASCTIME_DATE spaced) v = Some gs"
  note found = matched [OF this clear_dates(3)]
  then obtain wd m d gt where g: "wd \<in> set WEEKDAYS" "m \<in> set MONTHS" "numeral_of (if spaced then 1 else 2) d"
    and gs: "gs = wd # m # d # gt" by (auto simp: fits_ASCTIME)
  moreover have "v = fill (ASCTIME_DATE spaced) gs" using found by blast
  ultimately obtain rest where v: "v = wd @ 32 # m @ 32 # (if spaced then 32 # d else d) @ rest"
    by (cases spaced) (simp_all add: ASCTIME_DATE_def js_def)
  have "list_all isDigit d \<Longrightarrow> \<not> spaced \<Longrightarrow> d ! 0 \<noteq> 32" using g(3) by (cases d) (auto simp: isDigit_def)
  then show ?thesis
    using g weekday_three [OF g(1)] month_three [OF g(2)] by (auto simp: v atIndex_Some_iff nth_append nth_Cons')
qed

lemma groups_of_seven:
  "matchPieces IMF_FIXDATE v = Some gs \<Longrightarrow> \<exists>a b c d e f g. gs = [a, b, c, d, e, f, g]"
  "matchPieces RFC850_DATE v = Some gs \<Longrightarrow> \<exists>a b c d e f g. gs = [a, b, c, d, e, f, g]"
  "matchPieces (ASCTIME_DATE spaced) v = Some gs \<Longrightarrow> \<exists>a b c d e f g. gs = [a, b, c, d, e, f, g]"
  by (auto dest!: matched [OF _ clear_dates(1)] matched [OF _ clear_dates(2)] matched [OF _ clear_dates(3)]
      simp: fits_IMF fits_RFC850 fits_ASCTIME)

text \<open>C24. \<open>httpDate\<close> reads exactly the dates HTTP prints: a text names the instant \<open>t\<close> just when \<open>t\<close> is a whole
second and the text is \<open>t\<close> written in one of the three formats, with its own weekday, a year of four digits, and for the
two-digit year of RFC 850 the century the clock gives. Nothing else is a date, and no text names two instants.\<close>

theorem http_dates_read_exactly:
  "httpDate now v = Some t \<longleftrightarrow>
     t mod 1000 = 0 \<and> 0 \<le> getUTCFullYear t \<and> getUTCFullYear t \<le> 9999
     \<and> (v = imfFixdate t \<or> v = asctimeText False t \<or> v = asctimeText True t \<and> getUTCDate t < 10
       \<or> v = rfc850Text t \<and> rfc850Year now (getUTCFullYear t mod 100) = getUTCFullYear t)"
proof -
  let ?I = "matchPieces IMF_FIXDATE v" and ?R = "matchPieces RFC850_DATE v" and ?A = "\<lambda>b. matchPieces (ASCTIME_DATE b) v"
  have years: "rfc850Year now (getUTCFullYear t mod 100) = getUTCFullYear t \<Longrightarrow> fourDigitYear t"
    using pos_mod_sign [of 100 "getUTCFullYear t"] pos_mod_bound [of 100 "getUTCFullYear t"]
    by (auto simp: rfc850Year_def Let_def split: if_splits)
  note readings = reads_IMF [of v t] reads_RFC850 [of v now t] reads_ASCTIME [of True v t] reads_ASCTIME [of False v t]
  consider (imf) gs where "?I = Some gs" "?R = None" "?A True = None" "?A False = None"
    | (rfc) gs where "?I = None" "?R = Some gs" "?A True = None" "?A False = None"
    | (spaced) gs where "?I = None" "?R = None" "?A True = Some gs" "?A False = None"
    | (padded) gs where "?I = None" "?R = None" "?A True = None" "?A False = Some gs"
    | (none) "?I = None" "?R = None" "?A True = None" "?A False = None"
    using tells_IMF [of v] tells_RFC850 [of v] tells_ASCTIME [of True v] tells_ASCTIME [of False v]
    by (cases "?I"; cases "?R"; cases "?A True"; cases "?A False") auto
  then have e: "httpDate now v = Some t \<longleftrightarrow>
      (t mod 1000 = 0 \<and> fourDigitYear t \<and> v = imfFixdate t)
      \<or> (t mod 1000 = 0 \<and> rfc850Year now (getUTCFullYear t mod 100) = getUTCFullYear t \<and> v = rfc850Text t)
      \<or> (t mod 1000 = 0 \<and> fourDigitYear t \<and> (True \<longrightarrow> getUTCDate t < 10) \<and> v = asctimeText True t)
      \<or> (t mod 1000 = 0 \<and> fourDigitYear t \<and> (False \<longrightarrow> getUTCDate t < 10) \<and> v = asctimeText False t)"
  proof cases
    case imf
    then obtain a b c d e f g where "gs = [a, b, c, d, e, f, g]" using groups_of_seven(1) by blast
    then show ?thesis using imf unfolding readings [symmetric] by (simp add: httpDate_def)
  next
    case rfc
    then obtain a b c d e f g where "gs = [a, b, c, d, e, f, g]" using groups_of_seven(2) by blast
    then show ?thesis using rfc unfolding readings [symmetric] by (simp add: httpDate_def)
  next
    case spaced
    then obtain a b c d e f g where "gs = [a, b, c, d, e, f, g]" using groups_of_seven(3) by blast
    then show ?thesis using spaced unfolding readings [symmetric] by (simp add: httpDate_def)
  next
    case padded
    then obtain a b c d e f g where "gs = [a, b, c, d, e, f, g]" using groups_of_seven(3) by blast
    then show ?thesis using padded unfolding readings [symmetric] by (simp add: httpDate_def)
  next
    case none
    then show ?thesis unfolding readings [symmetric] by (simp add: httpDate_def)
  qed
  show ?thesis unfolding e using years by auto
qed

end
