(* ===== verification/HttpCache.thy ===== *)
theory HttpCache
  imports HttpDate
begin

text \<open>
  \<^verbatim>\<open>plurnk-schemes-http/src/HttpCache.ts\<close> and the header texts of \<^verbatim>\<open>HttpShared.ts\<close> it reads: what a stored
  response says of itself, when it is reused without validation, what is sent to revalidate it, when a 304 answers that,
  and the header that is stored then. A stored header is one text: the status line, the origin's fields, then the
  package's own fields from the request method and the acquisition stamp on.

  The clock, the configured limit, MIME parsing and projection identities are parameters, as are the dates outside the
  format of \<open>toISOString\<close> that \<open>Date.parse\<close> may know. Names and values are byte strings, as the fetch
  standard has them, so letters are those of Latin-1.
\<close>

section \<open>Text\<close>

definition lowerUnit :: "jschar \<Rightarrow> jschar" where
  "lowerUnit c = (if 65 \<le> c \<and> c \<le> 90 \<or> 192 \<le> c \<and> c \<le> 222 \<and> c \<noteq> 215 then c + 32 else c)"

definition toLowerCase :: "jsstr \<Rightarrow> jsstr" where "toLowerCase s = map lowerUnit s"

definition upperUnits :: "jschar \<Rightarrow> jsstr" where
  "upperUnits c =
     (if 97 \<le> c \<and> c \<le> 122 \<or> 224 \<le> c \<and> c \<le> 254 \<and> c \<noteq> 247 then [c - 32]
      else if c = 223 then [83, 83] else if c = 255 then [376] else if c = 181 then [924] else [c])"

definition toUpperCase :: "jsstr \<Rightarrow> jsstr" where "toUpperCase s = concat (map upperUnits s)"

text \<open>\<open>split(/\r?\n/)\<close>.\<close>

definition dropFinalCR :: "jsstr \<Rightarrow> jsstr" where
  "dropFinalCR l = (if l \<noteq> [] \<and> last l = CR then butlast l else l)"

definition splitHeader :: "jsstr \<Rightarrow> jsstr list" where
  "splitHeader s = map dropFinalCR (butlast (splitLF s)) @ [last (splitLF s)]"

definition lastWhere :: "('a \<Rightarrow> bool) \<Rightarrow> 'a list \<Rightarrow> nat option" where
  "lastWhere P xs = (case indicesWhere P xs of [] \<Rightarrow> None | ks \<Rightarrow> Some (last ks))"

definition COLON :: jschar where "COLON = 58"

definition FETCHED_AT :: jsstr where "FETCHED_AT = js ''x-plurnk-fetched-at''"

definition REQUEST_METHOD :: jsstr where "REQUEST_METHOD = js ''x-plurnk-request-method''"

definition PROJECTION_ID_HEADER :: jsstr where "PROJECTION_ID_HEADER = js ''x-plurnk-projection-id''"

definition CACHE_VARIANT_HEADER :: jsstr where "CACHE_VARIANT_HEADER = js ''x-plurnk-cache-variant''"

definition MATERIALIZER_ID_HEADER :: jsstr where "MATERIALIZER_ID_HEADER = js ''x-plurnk-materializer-id''"

section \<open>Fields\<close>

record HeaderField =
  fieldName :: jsstr
  fieldValue :: jsstr
  fieldLine :: jsstr

definition headerField :: "jsstr \<Rightarrow> HeaderField option" where
  "headerField line =
     (case indexOf [COLON] line of
        None \<Rightarrow> None
      | Some colon \<Rightarrow>
          let name = toLowerCase (trim (take colon line))
          in if name = [] then None
             else Some \<lparr>fieldName = name, fieldValue = trim (drop (colon + 1) line), fieldLine = line\<rparr>)"

definition namedLine :: "jsstr \<Rightarrow> jsstr \<Rightarrow> bool" where
  "namedLine name line =
     (case indexOf [COLON] line of None \<Rightarrow> False | Some colon \<Rightarrow> toLowerCase (trim (take colon line)) = name)"

definition valueOfLine :: "jsstr \<Rightarrow> jsstr" where
  "valueOfLine line = (case indexOf [COLON] line of None \<Rightarrow> [] | Some colon \<Rightarrow> trim (drop (colon + 1) line))"

definition lastHeaderValue :: "jsstr \<Rightarrow> jsstr \<Rightarrow> jsstr option" where
  "lastHeaderValue header name = map_option valueOfLine (find (namedLine name) (rev (splitHeader header)))"

definition isStamp :: "jsstr \<Rightarrow> bool" where
  "isStamp line \<longleftrightarrow> map_option fieldName (headerField line) = Some FETCHED_AT"

definition packageStart :: "jsstr list \<Rightarrow> nat" where
  "packageStart ls =
     (case lastWhere isStamp ls of
        None \<Rightarrow> length ls
      | Some stamp \<Rightarrow>
          if 0 < stamp \<and> map_option fieldName (headerField (ls ! (stamp - 1))) = Some REQUEST_METHOD then stamp - 1
          else stamp)"

definition originFields :: "jsstr \<Rightarrow> HeaderField list" where
  "originFields header =
     (let ls = splitHeader header in List.map_filter headerField (jsSlice ls 1 (packageStart ls)))"

definition originValues :: "HeaderField list \<Rightarrow> jsstr \<Rightarrow> jsstr list" where
  "originValues fs name = map fieldValue (filter (\<lambda>f. fieldName f = name) fs)"

definition requestMethod :: "jsstr \<Rightarrow> jsstr option" where
  "requestMethod priorHeader = map_option toUpperCase (lastHeaderValue priorHeader REQUEST_METHOD)"

definition packageHeaderValue :: "jsstr \<Rightarrow> jsstr \<Rightarrow> jsstr option" where
  "packageHeaderValue priorHeader field =
     (let ls = splitHeader priorHeader
      in case lastWhere (namedLine FETCHED_AT) ls of
           None \<Rightarrow> None
         | Some stamp \<Rightarrow>
             (case find (namedLine field) (rev (drop (stamp + 1) ls)) of
                None \<Rightarrow> None
              | Some line \<Rightarrow> if valueOfLine line = [] then None else Some (valueOfLine line)))"

definition projectionIdentity :: "jsstr \<Rightarrow> jsstr option" where
  "projectionIdentity priorHeader = packageHeaderValue priorHeader PROJECTION_ID_HEADER"

definition materializerIdentity :: "jsstr \<Rightarrow> jsstr option" where
  "materializerIdentity priorHeader = packageHeaderValue priorHeader MATERIALIZER_ID_HEADER"

section \<open>Dates of acquisition\<close>

definition ISO_DATE :: "Piece list" where
  "ISO_DATE = [Digits 4, Lit (js ''-''), Digits 2, Lit (js ''-''), Digits 2, Lit (js ''T''), Digits 2, Lit (js '':''),
     Digits 2, Lit (js '':''), Digits 2, Lit (js ''.''), Digits 3, Lit (js ''Z'')]"

text \<open>\<open>toISOString\<close> of an instant with a year of four digits.\<close>

definition toISOString :: "int \<Rightarrow> jsstr" where
  "toISOString t = zeroPad 4 (getUTCFullYear t) @ js ''-'' @ zeroPad 2 (int (getUTCMonth t) + 1) @ js ''-''
     @ zeroPad 2 (getUTCDate t) @ js ''T'' @ clockText t @ js ''.'' @ zeroPad 3 (getUTCMilliseconds t) @ js ''Z''"

definition dateParse :: "(jsstr \<Rightarrow> int option) \<Rightarrow> jsstr \<Rightarrow> int option" where
  "dateParse otherDates v =
     (case matchPieces ISO_DATE v of
        Some [y, mo, d, h, mi, s, ms] \<Rightarrow>
          if 1 \<le> digitsValue mo \<and> validDate (digitsValue y) (nat (digitsValue mo - 1)) (digitsValue d)
             \<and> digitsValue h < 24 \<and> digitsValue mi < 60 \<and> digitsValue s < 60
          then Some (makeDay (digitsValue y) (nat (digitsValue mo - 1)) (digitsValue d) * msPerDay
                 + makeTime (digitsValue h) (digitsValue mi) (digitsValue s) (digitsValue ms))
          else otherDates v
      | _ \<Rightarrow> otherDates v)"

definition fetchedAt :: "(jsstr \<Rightarrow> int option) \<Rightarrow> jsstr \<Rightarrow> int option" where
  "fetchedAt otherDates priorHeader =
     (case lastHeaderValue priorHeader FETCHED_AT of None \<Rightarrow> None | Some v \<Rightarrow> dateParse otherDates v)"

section \<open>The origin's cache policy\<close>

text \<open>The members of a comma-separated list; \<open>member\<close> is what has been read of the current one.\<close>

fun listMembers :: "bool \<Rightarrow> bool \<Rightarrow> jsstr \<Rightarrow> jsstr \<Rightarrow> jsstr list" where
  "listMembers quoted escaped member [] = [trim member]"
| "listMembers quoted escaped member (c # s) =
     (if quoted
      then if escaped then listMembers True False (member @ [c]) s
           else if c = 92 then listMembers True True (member @ [c]) s
           else listMembers (c \<noteq> 34) False (member @ [c]) s
      else if c = 34 then listMembers True escaped (member @ [c]) s
      else if c = 44 then trim member # listMembers False escaped [] s
      else listMembers False escaped (member @ [c]) s)"

definition splitHttpList :: "jsstr \<Rightarrow> jsstr list" where
  "splitHttpList v = filter (\<lambda>m. m \<noteq> []) (listMembers False False [] v)"

definition tokenChar :: "jschar \<Rightarrow> bool" where
  "tokenChar c \<longleftrightarrow> isDigit c \<or> 97 \<le> c \<and> c \<le> 122 \<or> c \<in> set (js ''!#$%&*+.^_`|~-'') \<or> c = 39"

record CacheDirective =
  directiveName :: jsstr
  directiveArgument :: "jsstr option"

definition cacheDirective :: "jsstr \<Rightarrow> CacheDirective option" where
  "cacheDirective member =
     (let equals = indexOf [61] member;
          name = toLowerCase (trim (case equals of None \<Rightarrow> member | Some e \<Rightarrow> take e member))
      in if name = [] \<or> \<not> list_all tokenChar name then None
         else Some \<lparr>directiveName = name, directiveArgument = map_option (\<lambda>e. trim (drop (e + 1) member)) equals\<rparr>)"

definition DELTA_SECONDS_LIMIT :: int where "DELTA_SECONDS_LIMIT = 2147483648"

definition quotedDigits :: "jsstr \<Rightarrow> jsstr option" where
  "quotedDigits v =
     (if v \<noteq> [] \<and> list_all isDigit v then Some v
      else if 3 \<le> length v \<and> hd v = 34 \<and> last v = 34 \<and> list_all isDigit (butlast (tl v)) then Some (butlast (tl v))
      else None)"

definition deltaMilliseconds :: "jsstr option \<Rightarrow> int option" where
  "deltaMilliseconds argument =
     (case argument of None \<Rightarrow> None
      | Some a \<Rightarrow> map_option (\<lambda>digits. min (digitsValue digits) DELTA_SECONDS_LIMIT * 1000) (quotedDigits a))"

definition HEURISTIC_CACHE_STATUSES :: "int list" where
  "HEURISTIC_CACHE_STATUSES = [200, 203, 204, 206, 300, 301, 308, 404, 405, 410, 414, 501]"

record StoredCachePolicy =
  cacheable :: bool
  noCache :: bool
  freshnessLifetimeMs :: "int option"

text \<open>The status of \<open>/^HTTP ([0-9]{3})(?:\s|$)/\<close>.\<close>

definition storedStatus :: "jsstr \<Rightarrow> int option" where
  "storedStatus header =
     (let digits = take 3 (drop 5 header); after = drop 8 header
      in if prefix (js ''HTTP '') header \<and> length digits = 3 \<and> list_all isDigit digits \<and> (after = [] \<or> isWhite (hd after))
         then Some (digitsValue digits) else None)"

definition directivesOf :: "HeaderField list \<Rightarrow> CacheDirective list" where
  "directivesOf fs =
     List.map_filter cacheDirective (concat (map splitHttpList (originValues fs (js ''cache-control''))))"

definition onlyDate :: "int \<Rightarrow> jsstr list \<Rightarrow> int option" where
  "onlyDate clock vs = (case vs of [v] \<Rightarrow> httpDate clock v | _ \<Rightarrow> None)"

definition expiryLifetime :: "int \<Rightarrow> int option \<Rightarrow> HeaderField list \<Rightarrow> int option" where
  "expiryLifetime clock fetched fs =
     (let expiresValues = originValues fs (js ''expires'')
      in if expiresValues = [] then None
         else Some (case (onlyDate clock expiresValues, fetched) of
             (Some expires, Some f) \<Rightarrow>
               let generatedAt = (case onlyDate clock (originValues fs (js ''date'')) of None \<Rightarrow> f | Some d \<Rightarrow> d)
               in max 0 (expires - generatedAt)
           | _ \<Rightarrow> 0))"

definition lifetimeOf :: "int \<Rightarrow> int option \<Rightarrow> HeaderField list \<Rightarrow> int option" where
  "lifetimeOf clock fetched fs =
     (let directives = directivesOf fs;
          sharedMaxAges = filter (\<lambda>d. directiveName d = js ''s-maxage'') directives;
          maxAges = (if sharedMaxAges \<noteq> [] then sharedMaxAges else filter (\<lambda>d. directiveName d = js ''max-age'') directives)
      in case maxAges of
           [] \<Rightarrow> expiryLifetime clock fetched fs
         | [d] \<Rightarrow> Some (case deltaMilliseconds (directiveArgument d) of None \<Rightarrow> 0 | Some ms \<Rightarrow> ms)
         | _ \<Rightarrow> Some 0)"

definition storedCachePolicy :: "int \<Rightarrow> (jsstr \<Rightarrow> int option) \<Rightarrow> jsstr \<Rightarrow> StoredCachePolicy" where
  "storedCachePolicy clock otherDates header =
     (let fs = originFields header;
          directives = directivesOf fs;
          lifetime = lifetimeOf clock (fetchedAt otherDates header) fs;
          explicitPermission = lifetime \<noteq> None
            \<or> list_ex (\<lambda>d. directiveName d = js ''public'' \<and> directiveArgument d = None) directives
      in \<lparr>cacheable = (case storedStatus header of
              None \<Rightarrow> False
            | Some status \<Rightarrow> 200 \<le> status \<and> status \<le> 599 \<and> status \<noteq> 206
                \<and> \<not> list_ex (\<lambda>d. directiveName d = js ''no-store'' \<or> directiveName d = js ''private'') directives
                \<and> (status \<in> set HEURISTIC_CACHE_STATUSES \<or> explicitPermission)),
          noCache = list_ex (\<lambda>d. directiveName d = js ''no-cache'') directives,
          freshnessLifetimeMs = lifetime\<rparr>)"

definition initialAge :: "int \<Rightarrow> jsstr \<Rightarrow> int \<Rightarrow> int" where
  "initialAge clock header fetched =
     (let fs = originFields header;
          apparentAge = (case onlyDate clock (originValues fs (js ''date'')) of None \<Rightarrow> 0 | Some d \<Rightarrow> max 0 (fetched - d));
          members = concat (map splitHttpList (originValues fs (js ''age'')));
          ageValue = (case deltaMilliseconds (case members of [] \<Rightarrow> None | m # _ \<Rightarrow> Some m) of None \<Rightarrow> 0 | Some ms \<Rightarrow> ms)
      in max apparentAge ageValue)"

definition currentAge :: "int \<Rightarrow> jsstr \<Rightarrow> int \<Rightarrow> int \<Rightarrow> int" where
  "currentAge clock header fetched now = initialAge clock header fetched + max 0 (now - fetched)"

definition fresh :: "int \<Rightarrow> (jsstr \<Rightarrow> int option) \<Rightarrow> int \<Rightarrow> jsstr \<Rightarrow> int \<Rightarrow> bool" where
  "fresh clock otherDates ttl header now =
     (case fetchedAt otherDates header of
        None \<Rightarrow> False
      | Some fetched \<Rightarrow>
          if ttl \<le> 0 then False
          else if ttl \<le> max 0 (now - fetched) then False
          else let policy = storedCachePolicy clock otherDates header
               in if \<not> cacheable policy \<or> noCache policy then False
                  else case freshnessLifetimeMs policy of None \<Rightarrow> True | Some l \<Rightarrow> currentAge clock header fetched now < l)"

section \<open>Reuse\<close>

datatype ChannelState = Static | Active | Closed | Errored

record Channel =
  channelState :: ChannelState
  channelContent :: jsstr

definition BODY :: jsstr where "BODY = js ''body''"

definition HEADER :: jsstr where "HEADER = js ''header''"

definition successful :: "ChannelState option \<Rightarrow> bool" where
  "successful st \<longleftrightarrow> st = Some Static \<or> st = Some Closed"

definition representationComplete :: "(jsstr \<times> Channel) list \<Rightarrow> bool" where
  "representationComplete channels \<longleftrightarrow>
     successful (map_option channelState (map_of channels BODY))
     \<and> successful (map_option channelState (map_of channels HEADER))
     \<and> list_all (\<lambda>(_, c). successful (Some (channelState c)) \<or> channelState c = Errored) channels"

definition materializerCurrent :: "jsstr \<Rightarrow> jsstr \<Rightarrow> bool" where
  "materializerCurrent configured storedIdentity =
     (let materializerId = trim configured
      in if storedIdentity = js ''origin-markdown:v1'' \<or> storedIdentity = js ''local-projection:v1:ineligible'' then True
         else if storedIdentity = js ''local-projection:v1:unconfigured'' then materializerId = []
         else materializerId \<noteq> []
           \<and> (storedIdentity = materializerId \<or> storedIdentity = js ''local-fallback:'' @ materializerId))"

definition responseMimetype :: "(jsstr \<Rightarrow> jsstr option) \<Rightarrow> jsstr option \<Rightarrow> jsstr" where
  "responseMimetype essence contentType =
     (case contentType of None \<Rightarrow> js ''application/octet-stream''
      | Some v \<Rightarrow> (case essence v of None \<Rightarrow> js ''application/octet-stream'' | Some e \<Rightarrow> e))"

definition sourceMimetype :: "(jsstr \<Rightarrow> jsstr option) \<Rightarrow> jsstr \<Rightarrow> jsstr" where
  "sourceMimetype essence header = responseMimetype essence (lastHeaderValue header (js ''content-type''))"

definition isHtml :: "jsstr \<Rightarrow> bool" where
  "isHtml mimetype \<longleftrightarrow> mimetype = js ''text/html'' \<or> mimetype = js ''application/xhtml+xml''"

definition projectionCurrent ::
  "(jsstr \<Rightarrow> jsstr option) \<Rightarrow> jsstr \<Rightarrow> (jsstr \<Rightarrow> jsstr) \<Rightarrow> jsstr \<Rightarrow> bool" where
  "projectionCurrent essence configured projectionOf header =
     (let sourceMime = sourceMimetype essence header
      in case materializerIdentity header of
           Some identity \<Rightarrow> materializerCurrent configured identity
         | None \<Rightarrow>
             if isHtml sourceMime then False
             else case projectionIdentity header of
                    None \<Rightarrow> True
                  | Some stored \<Rightarrow> projectionOf sourceMime = stored)"

definition reusableGetRepresentation ::
  "int \<Rightarrow> (jsstr \<Rightarrow> int option) \<Rightarrow> (jsstr \<Rightarrow> jsstr option) \<Rightarrow> jsstr \<Rightarrow> (jsstr \<Rightarrow> jsstr)
     \<Rightarrow> (jsstr \<times> Channel) list \<Rightarrow> (jsstr \<times> jsstr) list \<Rightarrow> bool" where
  "reusableGetRepresentation clock otherDates essence configured projectionOf channels requestHeaders =
     (case (map_of channels BODY, map_of channels HEADER) of
        (Some body, Some header) \<Rightarrow>
          let stored = channelContent header
          in representationComplete channels
             \<and> requestMethod stored = Some (js ''GET'')
             \<and> requestHeaders = []
             \<and> packageHeaderValue stored CACHE_VARIANT_HEADER = Some (js ''default'')
             \<and> cacheable (storedCachePolicy clock otherDates stored)
             \<and> projectionCurrent essence configured projectionOf stored
      | _ \<Rightarrow> False)"

section \<open>Validation\<close>

record EntityTag =
  weakTag :: bool
  opaque :: jsstr

definition tagChar :: "jschar \<Rightarrow> bool" where
  "tagChar c \<longleftrightarrow> c = 0x21 \<or> 0x23 \<le> c \<and> c \<le> 0x7E \<or> 0x80 \<le> c \<and> c \<le> 0xFF"

definition entityTag :: "jsstr \<Rightarrow> EntityTag option" where
  "entityTag v =
     (let isWeak = prefix (js ''W/'') v; r = (if isWeak then drop 2 v else v)
      in if 2 \<le> length r \<and> hd r = 34 \<and> last r = 34 \<and> list_all tagChar (butlast (tl r))
         then Some \<lparr>weakTag = isWeak, opaque = butlast (tl r)\<rparr> else None)"

definition validators :: "int \<Rightarrow> jsstr \<Rightarrow> (jsstr \<times> jsstr) list" where
  "validators clock priorHeader =
     (let fs = originFields priorHeader;
          etags = originValues fs (js ''etag'');
          lastModified = originValues fs (js ''last-modified'')
      in (case etags of [tag] \<Rightarrow> if entityTag tag \<noteq> None then [(js ''If-None-Match'', tag)] else [] | _ \<Rightarrow> [])
         @ (case lastModified of [v] \<Rightarrow> if httpDate clock v \<noteq> None then [(js ''If-Modified-Since'', v)] else [] | _ \<Rightarrow> []))"

definition revalidationCorresponds :: "int \<Rightarrow> jsstr \<Rightarrow> (jsstr \<Rightarrow> jsstr option) \<Rightarrow> bool" where
  "revalidationCorresponds clock priorHeader responseHeader =
     (let fs = originFields priorHeader
      in case responseHeader (js ''etag'') of
           Some responseTagValue \<Rightarrow>
             (case (entityTag responseTagValue, case originValues fs (js ''etag'') of [v] \<Rightarrow> entityTag v | _ \<Rightarrow> None) of
                (Some responseTag, Some storedTag) \<Rightarrow>
                  opaque responseTag = opaque storedTag \<and> (weakTag responseTag \<or> \<not> weakTag storedTag)
              | _ \<Rightarrow> False)
         | None \<Rightarrow>
             (case (Option.bind (responseHeader (js ''last-modified'')) (httpDate clock),
                    onlyDate clock (originValues fs (js ''last-modified''))) of
                (Some responseModified, Some storedModified) \<Rightarrow> responseModified = storedModified
              | _ \<Rightarrow> False))"

section \<open>Headers that are written\<close>

definition BODY_PROCESSING_FIELDS :: "jsstr list" where
  "BODY_PROCESSING_FIELDS = map js [''content-encoding'', ''content-length'', ''content-range'', ''content-type'']"

datatype CacheVariant = Default | Bypass

definition variantText :: "CacheVariant \<Rightarrow> jsstr" where
  "variantText v = (case v of Default \<Rightarrow> js ''default'' | Bypass \<Rightarrow> js ''bypass'')"

definition classifyCacheVariant :: "(jsstr \<times> jsstr) list \<Rightarrow> (jsstr \<times> jsstr) list \<Rightarrow> CacheVariant" where
  "classifyCacheVariant requestHeaders responseHeaders =
     (if requestHeaders = [] \<and> \<not> list_ex (\<lambda>(name, _). toLowerCase name = js ''vary'') responseHeaders
      then Default else Bypass)"

definition fieldText :: "jsstr \<Rightarrow> jsstr \<Rightarrow> jsstr" where
  "fieldText name v = name @ js '': '' @ v"

definition cacheVariantEvidence :: "CacheVariant \<Rightarrow> jsstr" where
  "cacheVariantEvidence variant = fieldText CACHE_VARIANT_HEADER (variantText variant)"

definition responseHeader ::
  "int \<Rightarrow> jsstr \<Rightarrow> nat \<Rightarrow> jsstr \<Rightarrow> (jsstr \<times> jsstr) list \<Rightarrow> (jsstr \<times> jsstr) list \<Rightarrow> jsstr" where
  "responseHeader now method status statusText responseHeaders requestHeaders =
     joinWith [LF]
       ([js ''HTTP '' @ decimal status @ js '' '' @ statusText]
        @ map (\<lambda>(k, v). fieldText k v) responseHeaders
        @ [fieldText REQUEST_METHOD method, fieldText FETCHED_AT (toISOString now),
           cacheVariantEvidence (classifyCacheVariant requestHeaders responseHeaders)])"

definition frameworkOwned :: "jsstr list" where
  "frameworkOwned = [CACHE_VARIANT_HEADER, MATERIALIZER_ID_HEADER, PROJECTION_ID_HEADER, REQUEST_METHOD, FETCHED_AT]"

definition packageLine :: "jsstr list \<Rightarrow> jsstr \<Rightarrow> bool" where
  "packageLine updatedNames line =
     (case indexOf [COLON] line of
        None \<Rightarrow> False
      | Some colon \<Rightarrow>
          if colon = 0 then False
          else let name = toLowerCase (take colon line)
               in prefix (js ''x-plurnk-'') name \<and> name \<notin> set frameworkOwned \<and> name \<notin> set updatedNames)"

definition refreshAfter304 ::
  "int \<Rightarrow> jsstr \<Rightarrow> (jsstr \<times> jsstr) list \<Rightarrow> (jsstr \<times> jsstr) list \<Rightarrow> jsstr" where
  "refreshAfter304 now header responseHeaders requestHeaders =
     (let ls = splitHeader header;
          origin = originFields header;
          updates = filter (\<lambda>(name, _). toLowerCase name \<notin> set BODY_PROCESSING_FIELDS) responseHeaders;
          updatedNames = map (\<lambda>(name, _). toLowerCase name) updates;
          retained = filter (\<lambda>f. fieldName f \<notin> set updatedNames) origin;
          merged = map (\<lambda>f. (fieldName f, fieldValue f)) retained @ updates;
          rebuilt = List.map_filter (\<lambda>field. map_option (fieldText field) (packageHeaderValue header field))
            [MATERIALIZER_ID_HEADER, PROJECTION_ID_HEADER];
          packageEvidence = rebuilt @ filter (packageLine updatedNames) (tl ls)
      in joinWith [LF]
           ([hd ls] @ map fieldLine retained @ map (\<lambda>(name, v). fieldText name v) updates
            @ [fieldText REQUEST_METHOD (js ''GET''), fieldText FETCHED_AT (toISOString now),
               cacheVariantEvidence (classifyCacheVariant requestHeaders merged)]
            @ packageEvidence))"

section \<open>Lines\<close>

definition plain :: "jsstr \<Rightarrow> bool" where
  "plain l \<longleftrightarrow> LF \<notin> set l \<and> CR \<notin> set l"

lemma plain_simps [simp]: "plain []" "plain (c # l) \<longleftrightarrow> c \<noteq> LF \<and> c \<noteq> CR \<and> plain l" "plain (l @ r) \<longleftrightarrow> plain l \<and> plain r"
  by (auto simp: plain_def)

lemma splitLF_plain: "LF \<notin> set l \<Longrightarrow> splitLF l = [l]"
  by (induction l) auto

lemma splitLF_cons: "LF \<notin> set l \<Longrightarrow> splitLF (l @ LF # s) = l # splitLF s"
  by (induction l) auto

lemma splitLF_join: "ls \<noteq> [] \<Longrightarrow> \<forall>l \<in> set ls. LF \<notin> set l \<Longrightarrow> splitLF (joinWith [LF] ls) = ls"
  by (induction "[LF]" ls rule: joinWith.induct) (simp_all add: splitLF_plain splitLF_cons)

lemma dropFinalCR_plain: "CR \<notin> set l \<Longrightarrow> dropFinalCR l = l"
  by (cases l rule: rev_cases) (auto simp: dropFinalCR_def)

lemma splitHeader_splitLF: "CR \<notin> set s \<Longrightarrow> splitHeader s = splitLF s"
proof -
  assume "CR \<notin> set s"
  then have "\<forall>l \<in> set (splitLF s). CR \<notin> set l" using splitLF_lines by blast
  then have "map dropFinalCR (butlast (splitLF s)) = butlast (splitLF s)"
    by (intro map_idI dropFinalCR_plain) (auto dest: in_set_butlastD)
  then show ?thesis by (simp add: splitHeader_def)
qed

lemma set_joinWith: "set (joinWith sep ls) \<subseteq> set sep \<union> (\<Union>l \<in> set ls. set l)"
  by (induction sep ls rule: joinWith.induct) auto

lemma splitHeader_join:
  assumes "ls \<noteq> []" "\<forall>l \<in> set ls. plain l"
  shows "splitHeader (joinWith [LF] ls) = ls"
proof -
  have "CR \<notin> set (joinWith [LF] ls)" using set_joinWith [of "[LF]" ls] assms(2) by (auto simp: plain_def)
  then show ?thesis using splitLF_join [OF assms(1)] assms(2) by (simp add: splitHeader_splitLF plain_def)
qed

lemma splitHeader_plain: "CR \<notin> set s \<Longrightarrow> \<forall>l \<in> set (splitHeader s). plain l"
  using splitLF_lines by (fastforce simp: splitHeader_splitLF plain_def)

lemma splitHeader_nonempty [simp]: "splitHeader s \<noteq> []"
  by (simp add: splitHeader_def)

section \<open>Fields of lines\<close>

lemma indexOf_char: "c \<notin> set l \<Longrightarrow> indexOf [c] (l @ c # r) = Some (length l)"
  by (induction l) auto

lemma trim_space: "trim v = v \<Longrightarrow> trim (32 # v) = v"
  by (simp add: trim_def trimStart_def isWhite_def)

lemma js_colon: "js '': '' = [COLON, 32]"
  by (simp add: js_def COLON_def)

lemma fieldText_parts: "COLON \<notin> set name \<Longrightarrow> indexOf [COLON] (fieldText name v) = Some (length name)"
  by (simp add: fieldText_def js_colon indexOf_char)

definition cleanName :: "jsstr \<Rightarrow> bool" where
  "cleanName name \<longleftrightarrow> name \<noteq> [] \<and> COLON \<notin> set name \<and> plain name \<and> trim name = name"

definition cleanValue :: "jsstr \<Rightarrow> bool" where
  "cleanValue v \<longleftrightarrow> plain v \<and> trim v = v"

definition fieldOf :: "jsstr \<times> jsstr \<Rightarrow> HeaderField" where
  "fieldOf f = \<lparr>fieldName = toLowerCase (fst f), fieldValue = snd f, fieldLine = fieldText (fst f) (snd f)\<rparr>"

lemma toLowerCase_Nil [simp]: "toLowerCase s = [] \<longleftrightarrow> s = []"
  by (simp add: toLowerCase_def)

lemma headerField_fieldText: "cleanName k \<Longrightarrow> cleanValue v \<Longrightarrow> headerField (fieldText k v) = Some (fieldOf (k, v))"
  by (simp add: headerField_def fieldText_parts cleanName_def cleanValue_def fieldOf_def Let_def)
    (simp add: fieldText_def js_colon trim_space)

lemma namedLine_fieldText: "cleanName k \<Longrightarrow> namedLine name (fieldText k v) \<longleftrightarrow> toLowerCase k = name"
  by (simp add: namedLine_def fieldText_parts cleanName_def) (simp add: fieldText_def)

lemma valueOfLine_fieldText: "cleanName k \<Longrightarrow> cleanValue v \<Longrightarrow> valueOfLine (fieldText k v) = v"
  by (simp add: valueOfLine_def fieldText_parts cleanName_def cleanValue_def) (simp add: fieldText_def js_colon trim_space)

lemma plain_fieldText: "cleanName k \<Longrightarrow> cleanValue v \<Longrightarrow> plain (fieldText k v)"
  by (simp add: fieldText_def cleanName_def cleanValue_def js_def LF_def CR_def)

lemma headerField_line: "headerField l = Some f \<Longrightarrow> fieldLine f = l"
  by (auto simp: headerField_def Let_def split: option.splits if_splits)

lemma isStamp_namedLine: "isStamp l \<longleftrightarrow> namedLine FETCHED_AT l"
  by (auto simp: isStamp_def namedLine_def headerField_def Let_def FETCHED_AT_def toLowerCase_def js_def split: option.splits)

lemma owned_clean: "n \<in> set frameworkOwned \<Longrightarrow> cleanName n \<and> toLowerCase n = n"
proof -
  have "list_all (\<lambda>n. cleanName n \<and> toLowerCase n = n) frameworkOwned" by code_simp
  then show "n \<in> set frameworkOwned \<Longrightarrow> ?thesis" by (simp add: list_all_iff)
qed

lemma owned_names: "FETCHED_AT \<in> set frameworkOwned" "REQUEST_METHOD \<in> set frameworkOwned"
  "CACHE_VARIANT_HEADER \<in> set frameworkOwned" "MATERIALIZER_ID_HEADER \<in> set frameworkOwned"
  "PROJECTION_ID_HEADER \<in> set frameworkOwned" "distinct frameworkOwned"
  by code_simp+

section \<open>The last line of a name\<close>

lemma indicesWhere_append:
  "indicesWhere P (xs @ ys) = indicesWhere P xs @ map (\<lambda>i. i + length xs) (indicesWhere P ys)"
proof -
  have "[0..<length (xs @ ys)] = [0..<length xs] @ map (\<lambda>i. i + length xs) [0..<length ys]"
    by (simp add: upt_add_eq_append [OF le0] map_add_upt add.commute)
  then show ?thesis by (auto simp: indicesWhere_def filter_map o_def nth_append intro!: filter_cong)
qed

lemma lastWhere_append: "\<forall>y \<in> set ys. \<not> P y \<Longrightarrow> lastWhere P (xs @ ys) = lastWhere P xs"
proof -
  assume "\<forall>y \<in> set ys. \<not> P y"
  then have "indicesWhere P ys = []" by (simp add: indicesWhere_def)
  then show ?thesis by (simp add: lastWhere_def indicesWhere_append)
qed

lemma lastWhere_here: "P y \<Longrightarrow> lastWhere P (xs @ [y]) = Some (length xs)"
  by (cases "indicesWhere P xs") (simp_all add: lastWhere_def indicesWhere_append, simp_all add: indicesWhere_def)

lemma lastWhere_last: "P y \<Longrightarrow> \<forall>z \<in> set ys. \<not> P z \<Longrightarrow> lastWhere P (xs @ y # ys) = Some (length xs)"
  using lastWhere_append [of ys P "xs @ [y]"] lastWhere_here [of P y xs] by simp

lemma find_rev_last: "P y \<Longrightarrow> \<forall>z \<in> set ys. \<not> P z \<Longrightarrow> find P (rev (xs @ y # ys)) = Some y"
proof -
  assume y: "P y" "\<forall>z \<in> set ys. \<not> P z"
  have "find P (zs @ y # ws) = Some y" if "\<forall>z \<in> set zs. \<not> P z" for zs ws using that y(1) by (induction zs) auto
  then show ?thesis using y(2) by simp
qed

section \<open>Acquisition stamps\<close>

lemma dateParse_toISOString:
  assumes "0 \<le> getUTCFullYear t" "getUTCFullYear t \<le> 9999"
  shows "dateParse otherDates (toISOString t) = Some t"
proof -
  note f = fields_of_time [of t]
  note d = date_range [of t]
  have m: "getUTCMonth t < 12" by (rule month_range)
  have valid: "validDate (getUTCFullYear t) (getUTCMonth t) (getUTCDate t)"
    and day: "makeDay (getUTCFullYear t) (getUTCMonth t) (getUTCDate t) = utcDay t"
    using day_fields [of "utcDay t"] by (simp_all add: getUTCFullYear_def getUTCMonth_def getUTCDate_def)
  let ?gs = "[zeroPad 4 (getUTCFullYear t), zeroPad 2 (int (getUTCMonth t) + 1), zeroPad 2 (getUTCDate t),
    zeroPad 2 (getUTCHours t), zeroPad 2 (getUTCMinutes t), zeroPad 2 (getUTCSeconds t), zeroPad 3 (getUTCMilliseconds t)]"
  have "fits ISO_DATE ?gs" by (simp add: ISO_DATE_def zeroPad_digits)
  moreover have "toISOString t = fill ISO_DATE ?gs" by (simp add: ISO_DATE_def toISOString_def clockText_def)
  moreover have "clear ISO_DATE" by (simp add: ISO_DATE_def)
  ultimately have "matchPieces ISO_DATE (toISOString t) = Some ?gs" by (simp add: matchPieces_Some)
  moreover have "digitsValue (zeroPad 4 (getUTCFullYear t)) = getUTCFullYear t"
    "digitsValue (zeroPad 2 (int (getUTCMonth t) + 1)) = int (getUTCMonth t) + 1"
    "digitsValue (zeroPad 2 (getUTCDate t)) = getUTCDate t"
    "digitsValue (zeroPad 2 (getUTCHours t)) = getUTCHours t"
    "digitsValue (zeroPad 2 (getUTCMinutes t)) = getUTCMinutes t"
    "digitsValue (zeroPad 2 (getUTCSeconds t)) = getUTCSeconds t"
    "digitsValue (zeroPad 3 (getUTCMilliseconds t)) = getUTCMilliseconds t"
    using assms f(2-9) d m by (simp_all add: zeroPad_value)
  ultimately show ?thesis using valid day f by (simp add: dateParse_def)
qed

lemma isDigit_not_white: "isDigit c \<Longrightarrow> \<not> isWhite c"
  by (auto simp: isDigit_def isWhite_def word_le_nat_alt)

lemma trim_ends:
  assumes "s \<noteq> []" "\<not> isWhite (hd s)" "\<not> isWhite (last s)"
  shows "trim s = s"
proof -
  have "dropWhile isWhite s = s" using assms(1,2) by (cases s) auto
  moreover have "dropWhile isWhite (rev s) = rev s" using assms(1,3) by (cases s rule: rev_cases) auto
  ultimately show ?thesis by (simp add: trim_def trimStart_def trimEnd_def)
qed

lemma zeroPad_plain: "plain (zeroPad k n)"
proof -
  have "\<forall>c \<in> set (zeroPad k n). isDigit c" using zeroPad_digits [of k n] by (simp add: list_all_iff)
  then show ?thesis by (auto simp: plain_def isDigit_def LF_def CR_def)
qed

lemma stamp_clean: "cleanValue (toISOString t)"
proof -
  have "plain (toISOString t)"
    by (simp add: toISOString_def clockText_def zeroPad_plain js_def LF_def CR_def)
  moreover have "last (toISOString t) = 90" by (simp add: toISOString_def js_def)
  moreover have "isDigit (hd (toISOString t))"
    using zeroPad_digits [of 4 "getUTCFullYear t"] length_zeroPad [of 4 "getUTCFullYear t"] by (cases "zeroPad 4 (getUTCFullYear t)") (auto simp: toISOString_def simp del: length_zeroPad)
  moreover have "toISOString t \<noteq> []" by (simp add: toISOString_def js_def)
  ultimately show ?thesis using isDigit_not_white trim_ends [of "toISOString t"]
    by (auto simp: cleanValue_def isWhite_def)
qed

section \<open>The package's block\<close>

text \<open>A header with the block the package writes after the origin's lines, and lines after it that name none of its fields.\<close>

lemma package_block:
  assumes h: "header = joinWith [LF] (st # origin @ [fieldText REQUEST_METHOD method, fieldText FETCHED_AT stamp,
      cacheVariantEvidence variant] @ evidence)"
    and plain: "plain st" "\<forall>l \<in> set origin. plain l" "\<forall>l \<in> set evidence. plain l"
    and clean: "cleanValue method" "cleanValue stamp"
    and apart: "\<forall>l \<in> set evidence. \<not> namedLine FETCHED_AT l \<and> \<not> namedLine REQUEST_METHOD l
        \<and> \<not> namedLine CACHE_VARIANT_HEADER l"
  shows "originFields header = List.map_filter headerField origin"
    and "requestMethod header = Some (toUpperCase method)"
    and "fetchedAt otherDates header = dateParse otherDates stamp"
    and "packageHeaderValue header CACHE_VARIANT_HEADER = Some (variantText variant)"
    and "field \<in> {MATERIALIZER_ID_HEADER, PROJECTION_ID_HEADER} \<Longrightarrow>
      packageHeaderValue header field = (case find (namedLine field) (rev evidence) of
        None \<Rightarrow> None | Some l \<Rightarrow> if valueOfLine l = [] then None else Some (valueOfLine l))"
proof -
  let ?R = "fieldText REQUEST_METHOD method" and ?F = "fieldText FETCHED_AT stamp" and ?V = "cacheVariantEvidence variant"
  have variant: "cleanValue (variantText variant)" "variantText variant \<noteq> []"
    by (cases variant; simp add: variantText_def; code_simp)+
  note names = owned_clean [OF owned_names(1)] owned_clean [OF owned_names(2)] owned_clean [OF owned_names(3)]
    owned_clean [OF owned_names(4)] owned_clean [OF owned_names(5)]
  have distinct: "REQUEST_METHOD \<noteq> FETCHED_AT" "CACHE_VARIANT_HEADER \<noteq> FETCHED_AT" "CACHE_VARIANT_HEADER \<noteq> REQUEST_METHOD"
    "REQUEST_METHOD \<noteq> CACHE_VARIANT_HEADER" "CACHE_VARIANT_HEADER \<noteq> MATERIALIZER_ID_HEADER"
    "CACHE_VARIANT_HEADER \<noteq> PROJECTION_ID_HEADER"
    using owned_names(6) by (auto simp: frameworkOwned_def)
  have ls: "splitHeader header = st # origin @ ?R # ?F # ?V # evidence"
    unfolding h by (subst splitHeader_join)
      (use plain clean variant names in \<open>auto simp: plain_fieldText cacheVariantEvidence_def\<close>)
  have named: "namedLine n ?R \<longleftrightarrow> n = REQUEST_METHOD" "namedLine n ?F \<longleftrightarrow> n = FETCHED_AT"
    "namedLine n ?V \<longleftrightarrow> n = CACHE_VARIANT_HEADER" for n
    using names by (auto simp: namedLine_fieldText cacheVariantEvidence_def)
  have stampAt: "lastWhere (namedLine FETCHED_AT) (splitHeader header) = Some (length origin + 2)"
    using lastWhere_last [of "namedLine FETCHED_AT" ?F "?V # evidence" "st # origin @ [?R]"] named distinct apart
    by (simp add: ls)
  have "isStamp = namedLine FETCHED_AT" by (rule ext) (rule isStamp_namedLine)
  then have "packageStart (splitHeader header) = length origin + 1"
    using stampAt names clean by (simp add: packageStart_def) (simp add: ls nth_append headerField_fieldText fieldOf_def)
  then show "originFields header = List.map_filter headerField origin"
    by (simp add: originFields_def Let_def) (simp add: ls jsSlice_def)
  have "find (namedLine REQUEST_METHOD) (rev (splitHeader header)) = Some ?R"
    using find_rev_last [of "namedLine REQUEST_METHOD" ?R "?F # ?V # evidence" "st # origin"] named distinct apart
    by (simp add: ls)
  then show "requestMethod header = Some (toUpperCase method)"
    using names clean by (simp add: requestMethod_def lastHeaderValue_def valueOfLine_fieldText)
  have "find (namedLine FETCHED_AT) (rev (splitHeader header)) = Some ?F"
    using find_rev_last [of "namedLine FETCHED_AT" ?F "?V # evidence" "st # origin @ [?R]"] named distinct apart
    by (simp add: ls)
  then show "fetchedAt otherDates header = dateParse otherDates stamp"
    using names clean by (simp add: fetchedAt_def lastHeaderValue_def valueOfLine_fieldText)
  have rest: "drop (length origin + 2 + 1) (splitHeader header) = ?V # evidence" by (simp add: ls)
  have "find (namedLine CACHE_VARIANT_HEADER) (rev (?V # evidence)) = Some ?V"
    using find_rev_last [of "namedLine CACHE_VARIANT_HEADER" ?V evidence "[]"] named apart by simp
  then show "packageHeaderValue header CACHE_VARIANT_HEADER = Some (variantText variant)"
    unfolding packageHeaderValue_def Let_def stampAt option.case rest
    using names variant by (simp add: valueOfLine_fieldText cacheVariantEvidence_def)
  assume "field \<in> {MATERIALIZER_ID_HEADER, PROJECTION_ID_HEADER}"
  then have "\<not> namedLine field ?V" using named(3) distinct by auto
  then have "find (namedLine field) (zs @ [?V]) = find (namedLine field) zs" for zs by (induction zs) auto
  then have "find (namedLine field) (rev (?V # evidence)) = find (namedLine field) (rev evidence)" by simp
  then show "packageHeaderValue header field = (case find (namedLine field) (rev evidence) of
      None \<Rightarrow> None | Some l \<Rightarrow> if valueOfLine l = [] then None else Some (valueOfLine l))"
    unfolding packageHeaderValue_def Let_def stampAt option.case rest by simp
qed


section \<open>Properties\<close>

definition cleanField :: "jsstr \<times> jsstr \<Rightarrow> bool" where
  "cleanField f \<longleftrightarrow> cleanName (fst f) \<and> cleanValue (snd f)"

lemma map_filter_fields:
  "\<forall>f \<in> set fs. cleanField f \<Longrightarrow> List.map_filter headerField (map (\<lambda>(k, v). fieldText k v) fs) = map fieldOf fs"
  by (induction fs) (auto simp: cleanField_def headerField_fieldText List.map_filter_simps)

lemma map_filter_append: "List.map_filter f (xs @ ys) = List.map_filter f xs @ List.map_filter f ys"
  by (simp add: List.map_filter_def)

lemma decimal_plain_line: "plain (decimal n)"
  using decimal_digits [of n] by (auto simp: plain_def isDigit_def LF_def CR_def)

lemma written_lines_plain: "\<forall>f \<in> set fs. cleanField f \<Longrightarrow> \<forall>l \<in> set (map (\<lambda>(k, v). fieldText k v) fs). plain l"
  by (auto simp: cleanField_def plain_fieldText)

text \<open>A stored response says of itself what the package wrote, whatever the origin sent: for any fields a response
can have, the package's own names among them, the origin's fields read back as they were, the method, the instant of the
acquisition and the cache variant are the package's, and there is no evidence of a projection or a materializer.\<close>

lemma stored_header_reads_back:
  assumes "\<forall>f \<in> set responseHeaders. cleanField f" "plain statusText" "cleanValue method"
    and "0 \<le> getUTCFullYear now" "getUTCFullYear now \<le> 9999"
  shows "let header = responseHeader now method status statusText responseHeaders requestHeaders
    in originFields header = map fieldOf responseHeaders
      \<and> requestMethod header = Some (toUpperCase method) \<and> fetchedAt otherDates header = Some now
      \<and> packageHeaderValue header CACHE_VARIANT_HEADER
          = Some (variantText (classifyCacheVariant requestHeaders responseHeaders))
      \<and> materializerIdentity header = None \<and> projectionIdentity header = None"
proof -
  let ?st = "js ''HTTP '' @ decimal status @ js '' '' @ statusText"
  let ?origin = "map (\<lambda>(k, v). fieldText k v) responseHeaders"
  let ?h = "responseHeader now method status statusText responseHeaders requestHeaders"
  have h: "?h = joinWith [LF] (?st # ?origin @ [fieldText REQUEST_METHOD method, fieldText FETCHED_AT (toISOString now),
      cacheVariantEvidence (classifyCacheVariant requestHeaders responseHeaders)] @ [])"
    by (simp add: responseHeader_def)
  have "plain ?st" using assms(2) decimal_plain_line by (simp add: js_def LF_def CR_def)
  note block = package_block [OF h this written_lines_plain [OF assms(1)] _ assms(3) stamp_clean]
  show ?thesis unfolding Let_def materializerIdentity_def projectionIdentity_def
    using block map_filter_fields [OF assms(1)] dateParse_toISOString [OF assms(4,5)] by simp
qed

text \<open>A GET whose origin sends a forged acquisition stamp.\<close>

lemma stored_header_reads_back_witness:
  "requestMethod (responseHeader 0 (js ''get'') 200 (js ''OK'') [(js ''x-plurnk-fetched-at'', js ''never'')] [])
      = Some (js ''GET'')
    \<and> fetchedAt (\<lambda>_. None) (responseHeader 0 (js ''get'') 200 (js ''OK'') [(js ''x-plurnk-fetched-at'', js ''never'')] [])
      = Some 0"
proof -
  have "\<forall>f \<in> set [(js ''x-plurnk-fetched-at'', js ''never'')]. cleanField f" "plain (js ''OK'')" "cleanValue (js ''get'')"
    "0 \<le> getUTCFullYear 0" "getUTCFullYear 0 \<le> 9999" "toUpperCase (js ''get'') = js ''GET''" by code_simp+
  then show ?thesis
    using stored_header_reads_back [of "[(js ''x-plurnk-fetched-at'', js ''never'')]" "js ''OK''" "js ''get''" 0 200 "[]" "\<lambda>_. None"]
    by (simp add: Let_def)
qed

section \<open>Refreshing\<close>

lemma originFields_lines:
  assumes "f \<in> set (originFields header)"
  shows "headerField (fieldLine f) = Some f" "fieldLine f \<in> set (splitHeader header)"
proof -
  let ?ls = "splitHeader header"
  obtain l where l: "l \<in> set (take (packageStart ?ls - 1) (drop 1 ?ls))" "headerField l = Some f"
    using assms by (auto simp: originFields_def Let_def List.map_filter_def jsSlice_def)
  have "l \<in> set ?ls" using in_set_dropD [OF in_set_takeD [OF l(1)]] .
  then show "headerField (fieldLine f) = Some f" "fieldLine f \<in> set ?ls" using l(2) headerField_line [OF l(2)] by simp_all
qed

lemma map_filter_lines: "\<forall>f \<in> set fs. headerField (fieldLine f) = Some f \<Longrightarrow> List.map_filter headerField (map fieldLine fs) = fs"
  by (induction fs) (auto simp: List.map_filter_simps)

text \<open>The name of a line as it is written; \<open>headerField\<close> trims it.\<close>

definition trimmedName :: "jsstr \<Rightarrow> bool" where
  "trimmedName l = (case indexOf [COLON] l of None \<Rightarrow> True | Some colon \<Rightarrow> trim (take colon l) = take colon l)"

lemma packageLine_not_owned:
  "trimmedName l \<Longrightarrow> packageLine updated l \<Longrightarrow> n \<in> set frameworkOwned \<Longrightarrow> \<not> namedLine n l"
  by (auto simp: packageLine_def namedLine_def trimmedName_def split: option.splits if_splits)


lemma trim_trim: "trim (trim s) = trim s"
proof (cases "trim s = []")
  case False
  define t where "t = dropWhile isWhite s"
  define d where "d = dropWhile isWhite (rev t)"
  have e: "trim s = rev d" by (simp add: trim_def trimStart_def trimEnd_def t_def d_def)
  have "d \<noteq> []" using False e by simp
  then have "\<not> isWhite (hd d)" unfolding d_def by (rule hd_dropWhile)
  moreover have "rev t = takeWhile isWhite (rev t) @ d" by (simp add: d_def)
  then have "t = rev d @ rev (takeWhile isWhite (rev t))" by (metis rev_append rev_rev_ident)
  then have "hd t = hd (rev d)" "t \<noteq> []" using \<open>d \<noteq> []\<close> by (metis hd_append2 rev_is_Nil_conv, auto)
  moreover have "\<not> isWhite (hd t)" using \<open>t \<noteq> []\<close> unfolding t_def by (rule hd_dropWhile)
  ultimately show ?thesis using trim_ends [of "rev d"] \<open>d \<noteq> []\<close> by (simp add: e last_rev)
next
  case True
  have "trim [] = []" by (simp add: trim_def trimStart_def trimEnd_def)
  then show ?thesis unfolding True .
qed

lemma set_trim: "set (trim s) \<subseteq> set s"
proof
  fix x assume "x \<in> set (trim s)"
  then have "x \<in> set (dropWhile isWhite (rev (dropWhile isWhite s)))" by (simp add: trim_def trimStart_def trimEnd_def)
  from set_dropWhileD [OF this] have "x \<in> set (dropWhile isWhite s)" by simp
  then show "x \<in> set s" by (rule set_dropWhileD)
qed

lemma packageHeaderValue_clean:
  assumes "packageHeaderValue header field = Some v" "CR \<notin> set header"
  shows "cleanValue v \<and> v \<noteq> []"
proof -
  obtain n l where l: "find (namedLine field) (rev (drop n (splitHeader header))) = Some l" "v = valueOfLine l" "v \<noteq> []"
    using assms(1) by (auto simp: packageHeaderValue_def Let_def split: option.splits if_splits)
  then have "l \<in> set (drop n (splitHeader header))" by (metis find_Some_iff nth_mem set_rev)
  then have "plain l" using splitHeader_plain [OF assms(2)] in_set_dropD by fast
  obtain k where "v = trim (drop k l)" using l(2,3) by (auto simp: valueOfLine_def split: option.splits)
  moreover have "set (trim (drop k l)) \<subseteq> set l" using set_trim set_drop_subset by (rule subset_trans)
  ultimately show ?thesis using \<open>plain l\<close> l(3) by (auto simp: cleanValue_def trim_trim plain_def)
qed

text \<open>A 304 refreshes what it may and nothing else. The origin's fields afterwards are the stored ones the answer does
not name, then the ones it names, save those the stored body depends on; the method is GET, the instant that of the
answer, the variant the one of the merged fields; and the evidence of materializer and projection is what it was.\<close>

lemma refresh_keeps_evidence:
  assumes "CR \<notin> set header" "\<forall>l \<in> set (splitHeader header). trimmedName l"
    and "\<forall>f \<in> set responseHeaders. cleanField f"
    and "0 \<le> getUTCFullYear now" "getUTCFullYear now \<le> 9999"
  shows "let refreshed = refreshAfter304 now header responseHeaders requestHeaders;
        updates = filter (\<lambda>(k, _). toLowerCase k \<notin> set BODY_PROCESSING_FIELDS) responseHeaders;
        retained = filter (\<lambda>f. fieldName f \<notin> (\<lambda>(k, _). toLowerCase k) ` set updates) (originFields header)
    in originFields refreshed = retained @ map fieldOf updates
      \<and> requestMethod refreshed = Some (js ''GET'') \<and> fetchedAt otherDates refreshed = Some now
      \<and> packageHeaderValue refreshed CACHE_VARIANT_HEADER = Some (variantText (classifyCacheVariant requestHeaders
          (map (\<lambda>f. (fieldName f, fieldValue f)) retained @ updates)))
      \<and> materializerIdentity refreshed = materializerIdentity header
      \<and> projectionIdentity refreshed = projectionIdentity header"
proof -
  define updates where "updates = filter (\<lambda>(k, _ :: jsstr). toLowerCase k \<notin> set BODY_PROCESSING_FIELDS) responseHeaders"
  define names where "names = map (\<lambda>(k, _ :: jsstr). toLowerCase k) updates"
  define retained where "retained = filter (\<lambda>f. fieldName f \<notin> set names) (originFields header)"
  define kept where "kept = filter (packageLine names) (tl (splitHeader header))"
  define rebuilt where "rebuilt = List.map_filter (\<lambda>field. map_option (fieldText field) (packageHeaderValue header field))
    [MATERIALIZER_ID_HEADER, PROJECTION_ID_HEADER]"
  define variant where "variant = classifyCacheVariant requestHeaders (map (\<lambda>f. (fieldName f, fieldValue f)) retained @ updates)"
  let ?r = "refreshAfter304 now header responseHeaders requestHeaders"
  let ?origin = "map fieldLine retained @ map (\<lambda>(k, v). fieldText k v) updates"
  have h: "?r = joinWith [LF] (hd (splitHeader header) # ?origin @ [fieldText REQUEST_METHOD (js ''GET''),
      fieldText FETCHED_AT (toISOString now), cacheVariantEvidence variant] @ (rebuilt @ kept))"
    by (simp add: refreshAfter304_def Let_def updates_def names_def retained_def kept_def rebuilt_def variant_def)
  note lines = splitHeader_plain [OF assms(1)]
  have clean: "\<forall>f \<in> set updates. cleanField f" using assms(3) by (simp add: updates_def)
  note names = owned_clean [OF owned_names(4)] owned_clean [OF owned_names(5)]
  have texts: "\<forall>l \<in> set rebuilt. \<exists>field v. field \<in> {MATERIALIZER_ID_HEADER, PROJECTION_ID_HEADER}
      \<and> l = fieldText field v \<and> cleanValue v"
    using packageHeaderValue_clean [OF _ assms(1)]
    by (auto simp: rebuilt_def List.map_filter_simps split: option.splits)
  have keptNot: "\<forall>l \<in> set kept. plain l \<and> (\<forall>n \<in> set frameworkOwned. \<not> namedLine n l)"
    using lines assms(2) packageLine_not_owned by (auto simp: kept_def dest: list.set_sel(2) [OF splitHeader_nonempty])
  have plain: "plain (hd (splitHeader header))" "\<forall>l \<in> set ?origin. plain l" "\<forall>l \<in> set (rebuilt @ kept). plain l"
    using lines originFields_lines(2) written_lines_plain [OF clean] texts keptNot names
    by (auto simp: retained_def plain_fieldText)
  have apart: "\<forall>l \<in> set (rebuilt @ kept). \<not> namedLine FETCHED_AT l \<and> \<not> namedLine REQUEST_METHOD l
      \<and> \<not> namedLine CACHE_VARIANT_HEADER l"
    using texts keptNot owned_names names by (auto simp: namedLine_fieldText frameworkOwned_def)
  have get: "cleanValue (js ''GET'')" "toUpperCase (js ''GET'') = js ''GET''" by code_simp+
  note block = package_block [OF h plain get(1) stamp_clean apart]
  have "List.map_filter headerField ?origin = retained @ map fieldOf updates"
    using map_filter_fields [OF clean] map_filter_lines [of retained] originFields_lines(1)
    by (auto simp: map_filter_append retained_def)
  moreover have "packageHeaderValue ?r field = packageHeaderValue header field"
    if f: "field \<in> {MATERIALIZER_ID_HEADER, PROJECTION_ID_HEADER}" for field
  proof -
    have none: "\<forall>l \<in> set kept. \<not> namedLine field l" using keptNot owned_names f by auto
    have "find (namedLine field) (zs @ rs) = find (namedLine field) rs" if "\<forall>l \<in> set zs. \<not> namedLine field l" for zs rs
      using that by (induction zs) auto
    then have e: "find (namedLine field) (rev (rebuilt @ kept)) = find (namedLine field) (rev rebuilt)" using none by simp
    have d: "MATERIALIZER_ID_HEADER \<noteq> PROJECTION_ID_HEADER" using owned_names(6) by (auto simp: frameworkOwned_def)
    show ?thesis unfolding block(5) [OF f] e
      using f d names packageHeaderValue_clean [OF _ assms(1)]
      by (auto simp: rebuilt_def List.map_filter_simps namedLine_fieldText valueOfLine_fieldText split: option.splits)
  qed
  moreover have "(\<lambda>(k, _). toLowerCase k) ` set updates = set names" by (simp add: names_def)
  ultimately show ?thesis
    unfolding Let_def materializerIdentity_def projectionIdentity_def updates_def [symmetric]
    using block(1-4) get(2) dateParse_toISOString [OF assms(4,5)]
    by (simp add: retained_def [symmetric] variant_def)
qed

definition exampleHeader :: jsstr where
  "exampleHeader = joinWith [LF] [js ''HTTP 200 OK'', js ''cache-control: max-age=60'', js ''x-plurnk-request-method: GET'',
     js ''x-plurnk-fetched-at: 1970-01-01T00:00:00.000Z'', js ''x-plurnk-cache-variant: default'', js ''x-plurnk-projection-id: p'']"

lemma refresh_keeps_evidence_witness:
  "fetchedAt (\<lambda>_. None) (refreshAfter304 5 exampleHeader [(js ''vary'', js ''accept'')] []) = Some 5
    \<and> projectionIdentity (refreshAfter304 5 exampleHeader [(js ''vary'', js ''accept'')] []) = Some (js ''p'')"
proof -
  have "CR \<notin> set exampleHeader" by code_simp
  moreover have "\<forall>l \<in> set (splitHeader exampleHeader). trimmedName l" by code_simp
  moreover have "\<forall>f \<in> set [(js ''vary'', js ''accept'')]. cleanField f" by code_simp
  moreover have "0 \<le> getUTCFullYear 5" "getUTCFullYear 5 \<le> 9999" by code_simp+
  moreover have "projectionIdentity exampleHeader = Some (js ''p'')" by code_simp
  ultimately show ?thesis
    using refresh_keeps_evidence [of exampleHeader "[(js ''vary'', js ''accept'')]" 5 "[]" "\<lambda>_. None"] by (simp add: Let_def)
qed

text \<open>Reuse without validation ends at one instant. A stored response is fresh exactly when its stamp is readable, the
origin lets it be stored and does not ask for validation, and the clock is before the stamp plus the smaller of the
operator's ceiling and the origin's lifetime less the age the response already had; so once stale it stays stale.\<close>

lemma fresh_until_one_deadline:
  "fresh clock otherDates ttl header now \<longleftrightarrow>
     (\<exists>fetched limit. fetchedAt otherDates header = Some fetched
       \<and> cacheable (storedCachePolicy clock otherDates header) \<and> \<not> noCache (storedCachePolicy clock otherDates header)
       \<and> limit = (case freshnessLifetimeMs (storedCachePolicy clock otherDates header) of
            None \<Rightarrow> ttl | Some l \<Rightarrow> min ttl (l - initialAge clock header fetched))
       \<and> 0 < limit \<and> now < fetched + limit)"
  by (auto simp: fresh_def currentAge_def Let_def split: option.splits)

lemma originValues_single:
  "originValues fs n = [v] \<Longrightarrow> onlyDate clock (originValues fs n) = httpDate clock v"
  by (simp add: onlyDate_def)

text \<open>An entity tag answers an offered one when both are tags with the same opaque part and the answer is weak if the offered tag
is. A weak answer to a strong tag is admitted, a strong answer to a weak tag is not.\<close>

definition tagAnswers :: "jsstr \<Rightarrow> jsstr \<Rightarrow> bool" where
  "tagAnswers sent offered \<longleftrightarrow> (\<exists>tag stored. entityTag sent = Some tag \<and> entityTag offered = Some stored
     \<and> opaque tag = opaque stored \<and> (weakTag stored \<longrightarrow> weakTag tag))"

text \<open>C25. A 304 identifies the stored response exactly when it answers a validator the request offered. If it carries an entity
tag, that must answer the tag offered in If-None-Match: the same opaque part, and weak when the offered tag is weak; its date is
then not looked at. If it carries none, its Last-Modified must be the same instant as the date offered in If-Modified-Since.\<close>

theorem validators_are_answered:
  "revalidationCorresponds clock header response \<longleftrightarrow>
     (case response (js ''etag'') of
        Some sent \<Rightarrow> (\<exists>v. (js ''If-None-Match'', v) \<in> set (validators clock header) \<and> tagAnswers sent v)
      | None \<Rightarrow> (\<exists>v sent. (js ''If-Modified-Since'', v) \<in> set (validators clock header)
            \<and> response (js ''last-modified'') = Some sent \<and> httpDate clock sent = httpDate clock v))"
proof -
  have ne: "js ''If-None-Match'' \<noteq> js ''If-Modified-Since''" by code_simp
  let ?tags = "originValues (originFields header) (js ''etag'')"
    and ?dates = "originValues (originFields header) (js ''last-modified'')"
  have tag: "(js ''If-None-Match'', v) \<in> set (validators clock header) \<longleftrightarrow> ?tags = [v] \<and> entityTag v \<noteq> None" for v
    using ne by (auto simp: validators_def Let_def split: list.splits)
  have date: "(js ''If-Modified-Since'', v) \<in> set (validators clock header) \<longleftrightarrow> ?dates = [v] \<and> httpDate clock v \<noteq> None" for v
    using ne by (auto simp: validators_def Let_def split: list.splits)
  show ?thesis
  proof (cases "response (js ''etag'')")
    case None
    then show ?thesis unfolding date
      by (cases "response (js ''last-modified'')"; cases ?dates rule: list.exhaust)
        (auto simp: revalidationCorresponds_def onlyDate_def split: option.splits list.splits)
  next
    case (Some sent)
    then show ?thesis unfolding tag
      by (auto simp: revalidationCorresponds_def tagAnswers_def split: option.splits list.splits)
  qed
qed

definition taggedHeader :: jsstr where
  "taggedHeader = joinWith [LF] [js ''HTTP 200 OK'', js ''etag: W/'' @ [34, 97, 34], js ''x-plurnk-request-method: GET'',
     js ''x-plurnk-fetched-at: 1970-01-01T00:00:00.000Z'']"

lemma tag_answers:
  "revalidationCorresponds 0 taggedHeader [js ''etag'' \<mapsto> js ''W/'' @ [34, 97, 34]]
    \<and> \<not> revalidationCorresponds 0 taggedHeader [js ''etag'' \<mapsto> [34, 97, 34]]"
  by code_simp

section \<open>What a refresh carries over\<close>

text \<open>A field of the origin in the package's name space is kept with the origin's fields and carried behind the stamp as well,
so it becomes evidence of the package and is stored twice.\<close>

definition forgedHeader :: jsstr where
  "forgedHeader = joinWith [LF] [js ''HTTP 200 OK'', js ''x-plurnk-note: a'', js ''x-plurnk-request-method: GET'',
     js ''x-plurnk-fetched-at: 1970-01-01T00:00:00.000Z'']"

lemma refreshed_forgedHeader:
  "refreshAfter304 0 forgedHeader [] [] = joinWith [LF] [js ''HTTP 200 OK'', js ''x-plurnk-note: a'',
     js ''x-plurnk-request-method: GET'', js ''x-plurnk-fetched-at: 1970-01-01T00:00:00.000Z'',
     js ''x-plurnk-cache-variant: default'', js ''x-plurnk-note: a'']"
  by code_simp

lemma refresh_promotes_origin_fields:
  "packageHeaderValue forgedHeader (js ''x-plurnk-note'') = None
    \<and> packageHeaderValue (refreshAfter304 0 forgedHeader [] []) (js ''x-plurnk-note'') = Some (js ''a'')
    \<and> length (filter (namedLine (js ''x-plurnk-note'')) (splitHeader (refreshAfter304 0 forgedHeader [] []))) = 2"
  unfolding refreshed_forgedHeader by code_simp

text \<open>The test for the package's own names does not trim, while every reader does: with a space before the colon a stamp of the
origin is carried behind the one the refresh writes, and is the one that counts.\<close>

definition spacedHeader :: jsstr where
  "spacedHeader = joinWith [LF] [js ''HTTP 200 OK'', js ''x-plurnk-fetched-at : 2999-01-01T00:00:00.000Z'',
     js ''x-plurnk-request-method: GET'', js ''x-plurnk-fetched-at: 1970-01-01T00:00:00.000Z'']"

lemma refresh_takes_spaced_stamp:
  "fetchedAt (\<lambda>_. None) spacedHeader = Some 0
    \<and> fetchedAt (\<lambda>_. None) (refreshAfter304 0 spacedHeader [] []) = Some 32472144000000"
  by code_simp

end
