(* ===== verification/CapabilityAdmission.thy ===== *)
theory CapabilityAdmission
  imports JsText
begin

text \<open>
  \<^verbatim>\<open>plurnk-contracts/src/CapabilityAdmission.ts\<close>: the evaluator of capability policies. A
  selector is a conjunction of the fields it has; a policy denies, restricts (\<open>only\<close>) and
  pre-approves (\<open>allow\<close>); a cascade of policies is evaluated layer by layer, or normalised into one
  policy by \<open>intersect\<close>.

  The key that makes selectors unique is the JSON text of the six fields in a fixed order, with
  absent fields left out: it is modelled by the tuple of the fields, which determines it and is
  determined by it. \<open>localeCompare\<close> of two keys is the runtime's collation: the parameter
  \<open>localeBefore\<close>, which only fixes the order of the result.

  The locale states what the normalisation relies on: a merged selector selects what both select,
  selectors that cannot be merged select nothing in common, and making a list unique keeps what it
  selects. The theorem is that the normalised policy decides every demand as the cascade does.
\<close>

datatype Access = Observe | Mutate | Execute | Interact | Control

record CapabilityDescriptor =
  descOperation :: jsstr
  descScheme :: "jsstr option"
  descRuntime :: "jsstr option"
  descTool :: "jsstr option"
  descAccess :: Access
  descTraits :: "jsstr list"

record CapabilitySelector =
  selOperation :: "jsstr option"
  selScheme :: "jsstr option"
  selRuntime :: "jsstr option"
  selTool :: "jsstr option"
  selAccess :: "Access option"
  selTraits :: "jsstr list option"

record CapabilityPolicy =
  allow :: "CapabilitySelector list option"
  only :: "CapabilitySelector list option"
  deny :: "CapabilitySelector list option"

text \<open>\<open>list ?? []\<close>.\<close>

definition orEmpty :: "'a list option \<Rightarrow> 'a list" where
  "orEmpty xs = (case xs of None \<Rightarrow> [] | Some ys \<Rightarrow> ys)"

definition matches :: "CapabilitySelector \<Rightarrow> CapabilityDescriptor \<Rightarrow> bool" where
  "matches s d =
     (if selOperation s \<noteq> None \<and> selOperation s \<noteq> Some (descOperation d) then False
      else if selScheme s \<noteq> None \<and> selScheme s \<noteq> descScheme d then False
      else if selRuntime s \<noteq> None \<and> selRuntime s \<noteq> descRuntime d then False
      else if selTool s \<noteq> None \<and> selTool s \<noteq> descTool d then False
      else if selAccess s \<noteq> None \<and> selAccess s \<noteq> Some (descAccess d) then False
      else if selTraits s \<noteq> None
        \<and> \<not> list_all (\<lambda>trait. trait \<in> set (descTraits d)) (orEmpty (selTraits s)) then False
      else True)"

definition allows :: "CapabilityPolicy \<Rightarrow> CapabilityDescriptor \<Rightarrow> bool" where
  "allows p d =
     (if list_ex (\<lambda>s. matches s d) (orEmpty (deny p)) then False
      else case only p of None \<Rightarrow> True | Some ss \<Rightarrow> list_ex (\<lambda>s. matches s d) ss)"

definition allowsAcross :: "CapabilityPolicy list \<Rightarrow> CapabilityDescriptor \<Rightarrow> bool" where
  "allowsAcross ps d = list_all (\<lambda>p. allows p d) ps"

definition preapproves :: "CapabilityPolicy \<Rightarrow> CapabilityDescriptor \<Rightarrow> bool" where
  "preapproves p d =
     (if \<not> allows p d then False else list_ex (\<lambda>s. matches s d) (orEmpty (allow p)))"

definition preapprovesAcross :: "CapabilityPolicy list \<Rightarrow> CapabilityDescriptor \<Rightarrow> bool" where
  "preapprovesAcross ps d =
     (if \<not> allowsAcross ps d then False
      else list_ex (\<lambda>p. list_ex (\<lambda>s. matches s d) (orEmpty (allow p))) ps)"

text \<open>One field of a merge: \<open>None\<close> when the two selectors disagree, else the field.\<close>

definition mergeField :: "'a option \<Rightarrow> 'a option \<Rightarrow> 'a option option" where
  "mergeField l r =
     (if l \<noteq> None \<and> r \<noteq> None \<and> l \<noteq> r then None
      else Some (case l of None \<Rightarrow> r | Some x \<Rightarrow> Some x))"

text \<open>\<open>[...new Set(xs)]\<close>: the first occurrence of each element.\<close>

definition nubFirst :: "'a list \<Rightarrow> 'a list" where
  "nubFirst xs = rev (remdups (rev xs))"

definition mergeSelectors ::
  "CapabilitySelector \<Rightarrow> CapabilitySelector \<Rightarrow> CapabilitySelector option" where
  "mergeSelectors l r =
     (case mergeField (selOperation l) (selOperation r) of None \<Rightarrow> None | Some operation \<Rightarrow>
      case mergeField (selScheme l) (selScheme r) of None \<Rightarrow> None | Some scheme \<Rightarrow>
      case mergeField (selRuntime l) (selRuntime r) of None \<Rightarrow> None | Some runtime \<Rightarrow>
      case mergeField (selTool l) (selTool r) of None \<Rightarrow> None | Some tool \<Rightarrow>
      case mergeField (selAccess l) (selAccess r) of None \<Rightarrow> None | Some access \<Rightarrow>
        let traits = sortBy codeUnitLe (nubFirst (orEmpty (selTraits l) @ orEmpty (selTraits r)))
        in Some \<lparr>selOperation = operation, selScheme = scheme, selRuntime = runtime, selTool = tool,
                 selAccess = access, selTraits = (if 0 < length traits then Some traits else None)\<rparr>)"

type_synonym SelectorKey =
  "jsstr option \<times> jsstr option \<times> jsstr option \<times> jsstr option \<times> Access option \<times> jsstr list option"

definition selectorKey :: "CapabilitySelector \<Rightarrow> SelectorKey" where
  "selectorKey s = (selOperation s, selScheme s, selRuntime s, selTool s, selAccess s,
     map_option (sortBy codeUnitLe) (selTraits s))"

fun firstPerKey :: "SelectorKey list \<Rightarrow> CapabilitySelector list \<Rightarrow> CapabilitySelector list" where
  "firstPerKey seen [] = []"
| "firstPerKey seen (s # ss) =
     (if selectorKey s \<in> set seen then firstPerKey seen ss
      else s # firstPerKey (selectorKey s # seen) ss)"

definition uniqueSelectors ::
  "(SelectorKey \<Rightarrow> SelectorKey \<Rightarrow> bool) \<Rightarrow> CapabilitySelector list \<Rightarrow> CapabilitySelector list" where
  "uniqueSelectors localeBefore ss =
     sortBy (\<lambda>l r. localeBefore (selectorKey l) (selectorKey r)) (firstPerKey [] ss)"

text \<open>\<open>left.flatMap((l) => right.flatMap((r) => merge(l, r) ?? []))\<close>.\<close>

definition product :: "('s \<Rightarrow> 's \<Rightarrow> 's option) \<Rightarrow> 's list \<Rightarrow> 's list \<Rightarrow> 's list" where
  "product merge left right =
     concat (map (\<lambda>l. concat (map (\<lambda>r. case merge l r of None \<Rightarrow> [] | Some m \<Rightarrow> [m]) right)) left)"

primrec intersectOnly ::
  "('s \<Rightarrow> 's \<Rightarrow> 's option) \<Rightarrow> ('s list \<Rightarrow> 's list) \<Rightarrow> 's list option list \<Rightarrow> 's list option
     \<Rightarrow> 's list option" where
  "intersectOnly merge unique [] acc = acc"
| "intersectOnly merge unique (o1 # os) acc =
     (case o1 of
        None \<Rightarrow> intersectOnly merge unique os acc
      | Some right \<Rightarrow>
          intersectOnly merge unique os (Some (unique
            (case acc of None \<Rightarrow> right | Some left \<Rightarrow> product merge left right))))"

definition intersect ::
  "(SelectorKey \<Rightarrow> SelectorKey \<Rightarrow> bool) \<Rightarrow> CapabilityPolicy list \<Rightarrow> CapabilityPolicy" where
  "intersect localeBefore ps =
     (let allowed = uniqueSelectors localeBefore (concat (map (\<lambda>p. orEmpty (allow p)) ps));
          denied = uniqueSelectors localeBefore (concat (map (\<lambda>p. orEmpty (deny p)) ps));
          restricted = intersectOnly mergeSelectors (uniqueSelectors localeBefore) (map only ps) None
      in \<lparr>allow = (if length allowed = 0 then None else Some allowed), only = restricted,
          deny = (if length denied = 0 then None else Some denied)\<rparr>)"

section \<open>What the normalisation relies on\<close>

locale selector_algebra =
  fixes selects :: "'s \<Rightarrow> 'd \<Rightarrow> bool"
    and merge :: "'s \<Rightarrow> 's \<Rightarrow> 's option"
    and unique :: "'s list \<Rightarrow> 's list"
  assumes merge_Some: "merge l r = Some m \<Longrightarrow> selects m d \<longleftrightarrow> selects l d \<and> selects r d"
    and merge_None: "merge l r = None \<Longrightarrow> \<not> (selects l d \<and> selects r d)"
    and unique_selects: "list_ex (\<lambda>s. selects s d) (unique ss) \<longleftrightarrow> list_ex (\<lambda>s. selects s d) ss"
begin

definition selectsAny :: "'s list option \<Rightarrow> 'd \<Rightarrow> bool" where
  "selectsAny ss d = (case ss of None \<Rightarrow> True | Some xs \<Rightarrow> list_ex (\<lambda>s. selects s d) xs)"

lemma product_selects:
  "list_ex (\<lambda>s. selects s d) (product merge left right)
     \<longleftrightarrow> list_ex (\<lambda>s. selects s d) left \<and> list_ex (\<lambda>s. selects s d) right"
proof -
  have "set (case x of None \<Rightarrow> [] | Some m \<Rightarrow> [m]) = set_option x" for x :: "'s option"
    by (cases x) auto
  then have "set (product merge left right) = (\<Union>l \<in> set left. \<Union>r \<in> set right. set_option (merge l r))"
    by (simp add: product_def)
  then have "list_ex (\<lambda>s. selects s d) (product merge left right)
      \<longleftrightarrow> (\<exists>l \<in> set left. \<exists>r \<in> set right. \<exists>m. merge l r = Some m \<and> selects m d)"
    unfolding list_ex_iff by blast
  also have "\<dots> \<longleftrightarrow> (\<exists>l \<in> set left. \<exists>r \<in> set right. selects l d \<and> selects r d)"
    using merge_Some merge_None by (metis option.exhaust)
  finally show ?thesis by (auto simp: list_ex_iff)
qed

lemma intersectOnly_selects:
  "selectsAny (intersectOnly merge unique os acc) d
     \<longleftrightarrow> selectsAny acc d \<and> list_all (\<lambda>x. selectsAny x d) os"
proof (induction os arbitrary: acc)
  case (Cons x os)
  show ?case
  proof (cases x)
    case (Some right)
    then show ?thesis
      using Cons.IH
      by (cases acc) (auto simp: selectsAny_def unique_selects product_selects)
  qed (use Cons.IH in \<open>simp add: selectsAny_def\<close>)
qed simp

end

section \<open>The selectors are such an algebra\<close>

lemma set_nubFirst [simp]: "set (nubFirst xs) = set xs"
  by (simp add: nubFirst_def)

lemma matches_iff:
  "matches s d \<longleftrightarrow> (selOperation s \<noteq> None \<longrightarrow> selOperation s = Some (descOperation d))
     \<and> (selScheme s \<noteq> None \<longrightarrow> selScheme s = descScheme d)
     \<and> (selRuntime s \<noteq> None \<longrightarrow> selRuntime s = descRuntime d)
     \<and> (selTool s \<noteq> None \<longrightarrow> selTool s = descTool d)
     \<and> (selAccess s \<noteq> None \<longrightarrow> selAccess s = Some (descAccess d))
     \<and> set (orEmpty (selTraits s)) \<subseteq> set (descTraits d)"
  by (auto simp: matches_def list_all_iff orEmpty_def split: option.splits)

lemma mergeField_Some:
  "mergeField l r = Some m \<Longrightarrow>
   (m \<noteq> None \<longrightarrow> m = x) \<longleftrightarrow> (l \<noteq> None \<longrightarrow> l = x) \<and> (r \<noteq> None \<longrightarrow> r = x)"
  by (auto simp: mergeField_def split: if_splits option.splits)

lemma mergeField_agree:
  "(l \<noteq> None \<longrightarrow> l = x) \<Longrightarrow> (r \<noteq> None \<longrightarrow> r = x) \<Longrightarrow> mergeField l r \<noteq> None"
  by (auto simp: mergeField_def)

lemma mergeSelectors_Some:
  assumes "mergeSelectors l r = Some m"
  shows "matches m d \<longleftrightarrow> matches l d \<and> matches r d"
proof -
  have traits: "orEmpty (if 0 < length ts then Some ts else None) = ts" for ts :: "jsstr list"
    by (simp add: orEmpty_def)
  have both: "set (sortBy codeUnitLe (nubFirst (xs @ ys))) = set xs \<union> set ys" for xs ys by simp
  from assms have f: "mergeField (selOperation l) (selOperation r) = Some (selOperation m)"
    "mergeField (selScheme l) (selScheme r) = Some (selScheme m)"
    "mergeField (selRuntime l) (selRuntime r) = Some (selRuntime m)"
    "mergeField (selTool l) (selTool r) = Some (selTool m)"
    "mergeField (selAccess l) (selAccess r) = Some (selAccess m)"
    and t: "set (orEmpty (selTraits m)) = set (orEmpty (selTraits l)) \<union> set (orEmpty (selTraits r))"
    by (auto simp: mergeSelectors_def Let_def traits both simp del: length_sortBy set_sortBy
        length_greater_0_conv split: option.splits)
  show ?thesis
    using f [THEN mergeField_Some] t unfolding matches_iff by auto
qed

lemma mergeSelectors_None:
  assumes "mergeSelectors l r = None"
  shows "\<not> (matches l d \<and> matches r d)"
proof
  assume "matches l d \<and> matches r d"
  then have "mergeField (selOperation l) (selOperation r) \<noteq> None"
    "mergeField (selScheme l) (selScheme r) \<noteq> None"
    "mergeField (selRuntime l) (selRuntime r) \<noteq> None"
    "mergeField (selTool l) (selTool r) \<noteq> None"
    "mergeField (selAccess l) (selAccess r) \<noteq> None"
    unfolding matches_iff by (metis mergeField_agree)+
  then show False using assms by (auto simp: mergeSelectors_def Let_def)
qed

lemma selectorKey_matches:
  assumes "selectorKey s = selectorKey t"
  shows "matches s d \<longleftrightarrow> matches t d"
proof -
  have "set (orEmpty (selTraits s)) = set (orEmpty (selTraits t))"
  proof (cases "selTraits s")
    case None
    then show ?thesis using assms by (simp add: selectorKey_def orEmpty_def)
  next
    case (Some xs)
    then obtain ys where ys: "selTraits t = Some ys" "sortBy codeUnitLe xs = sortBy codeUnitLe ys"
      using assms by (cases "selTraits t") (auto simp: selectorKey_def)
    then have "set xs = set ys" by (metis set_sortBy)
    then show ?thesis using Some ys by (simp add: orEmpty_def)
  qed
  then show ?thesis using assms by (simp add: matches_iff selectorKey_def)
qed

lemma firstPerKey_keys:
  "selectorKey ` set (firstPerKey seen ss) = selectorKey ` set ss - set seen"
  by (induction ss arbitrary: seen) auto

lemma uniqueSelectors_matches:
  "list_ex (\<lambda>s. matches s d) (uniqueSelectors localeBefore ss) \<longleftrightarrow> list_ex (\<lambda>s. matches s d) ss"
proof -
  have "selectorKey ` set (uniqueSelectors localeBefore ss) = selectorKey ` set ss"
    using firstPerKey_keys [of "[]" ss] by (simp add: uniqueSelectors_def)
  then have "(\<exists>t \<in> set ss. selectorKey t = selectorKey s)" if "s \<in> set (uniqueSelectors localeBefore ss)" for s
    using that by (metis (no_types, lifting) image_iff)
  moreover have "(\<exists>t \<in> set (uniqueSelectors localeBefore ss). selectorKey t = selectorKey s)"
    if "s \<in> set ss" for s
    using that \<open>selectorKey ` set (uniqueSelectors localeBefore ss) = selectorKey ` set ss\<close>
    by (metis (no_types, lifting) image_iff)
  ultimately show ?thesis using selectorKey_matches unfolding list_ex_iff by metis
qed

interpretation selectors: selector_algebra matches mergeSelectors "uniqueSelectors localeBefore"
  for localeBefore
  by unfold_locales (fact mergeSelectors_Some mergeSelectors_None uniqueSelectors_matches)+

lemma allows_selectsAny:
  "allows p d \<longleftrightarrow> \<not> list_ex (\<lambda>s. matches s d) (orEmpty (deny p)) \<and> selectors.selectsAny (only p) d"
  by (auto simp: allows_def selectors.selectsAny_def split: option.splits)

lemma uniqueSelectors_concat:
  "list_ex (\<lambda>s. matches s d) (uniqueSelectors localeBefore (concat (map f ps)))
     \<longleftrightarrow> list_ex (\<lambda>p. list_ex (\<lambda>s. matches s d) (f p)) ps"
  unfolding uniqueSelectors_matches by (auto simp: list_ex_iff)

lemma orEmpty_whenNonempty: "orEmpty (if length xs = 0 then None else Some xs) = xs"
  by (simp add: orEmpty_def)

lemma intersect_fields:
  "list_ex (\<lambda>s. matches s d) (orEmpty (deny (intersect localeBefore ps)))
     \<longleftrightarrow> list_ex (\<lambda>p. list_ex (\<lambda>s. matches s d) (orEmpty (deny p))) ps"
  "list_ex (\<lambda>s. matches s d) (orEmpty (allow (intersect localeBefore ps)))
     \<longleftrightarrow> list_ex (\<lambda>p. list_ex (\<lambda>s. matches s d) (orEmpty (allow p))) ps"
  "selectors.selectsAny (only (intersect localeBefore ps)) d
     \<longleftrightarrow> list_all (\<lambda>p. selectors.selectsAny (only p) d) ps"
  using selectors.intersectOnly_selects [of localeBefore "map only ps" None d]
  by (simp_all add: intersect_def Let_def orEmpty_whenNonempty uniqueSelectors_concat
      selectors.selectsAny_def [of None] list_all_iff del: length_0_conv)

lemma intersect_allows: "allows (intersect localeBefore ps) d \<longleftrightarrow> allowsAcross ps d"
  unfolding allows_selectsAny intersect_fields allowsAcross_def
  by (auto simp: list_all_iff list_ex_iff)

text \<open>C8. Normalising a cascade is lossless: the one policy that \<open>intersect\<close> returns allows exactly
  the demands every layer allows, and pre-approves exactly those the cascade pre-approves,
  whatever collation orders its selectors.\<close>

theorem intersect_lossless:
  "(allows (intersect localeBefore ps) d \<longleftrightarrow> allowsAcross ps d)
   \<and> (preapproves (intersect localeBefore ps) d \<longleftrightarrow> preapprovesAcross ps d)"
  by (auto simp: intersect_allows preapproves_def preapprovesAcross_def intersect_fields)

text \<open>Another layer only ever restricts: what a longer cascade allows, each part of it allows, the
  order of the layers is irrelevant, and a pre-approved demand is an allowed one.\<close>

lemma cascade_monotone:
  "(allowsAcross (ps @ qs) d \<longleftrightarrow> allowsAcross ps d \<and> allowsAcross qs d)
   \<and> (allowsAcross (rev ps) d = allowsAcross ps d)
   \<and> (preapprovesAcross ps d \<longrightarrow> allowsAcross ps d)
   \<and> (allows p d \<longrightarrow> \<not> list_ex (\<lambda>s. matches s d) (orEmpty (deny p)))"
  by (simp add: allowsAcross_def preapprovesAcross_def allows_def)

definition searchDemand :: CapabilityDescriptor where
  "searchDemand = \<lparr>descOperation = js ''read'', descScheme = Some (js ''file''), descRuntime = None,
     descTool = None, descAccess = Observe, descTraits = []\<rparr>"

definition observeOnly :: CapabilityPolicy where
  "observeOnly = \<lparr>allow = Some [\<lparr>selOperation = Some (js ''read''), selScheme = None, selRuntime = None,
       selTool = None, selAccess = None, selTraits = None\<rparr>],
     only = None, deny = None\<rparr>"

lemma cascade_monotone_witness:
  "preapprovesAcross [observeOnly] searchDemand \<and> allowsAcross [observeOnly] searchDemand"
proof -
  have "preapprovesAcross [observeOnly] searchDemand" by code_simp
  then show ?thesis using cascade_monotone [of "[]" "[]"] cascade_monotone [of "[observeOnly]" "[]" searchDemand observeOnly]
    by blast
qed

end
