(* ===== verification/Operations.thy ===== *)
theory Operations
  imports JsText
begin

text \<open>
  The operation alphabet of \<^verbatim>\<open>plurnk-contracts/src/types.ts\<close>: the keywords, the runtime tags that
  name an execution, and the operations a log row may carry that are neither.
\<close>

definition PLURNK_OPS :: "jsstr list" where
  "PLURNK_OPS = map js [''find'', ''read'', ''edit'', ''copy'', ''move'', ''send'', ''done'', ''fail'',
     ''bare'', ''work'', ''fork'', ''kill'', ''note'', ''todo'', ''wait'']"

definition isPlurnkOp :: "jsstr \<Rightarrow> bool" where
  "isPlurnkOp value \<longleftrightarrow> list_ex (\<lambda>op. op = value) PLURNK_OPS"

definition lowerLetter :: "jschar \<Rightarrow> bool" where
  "lowerLetter c \<longleftrightarrow> 97 \<le> c \<and> c \<le> 122"

text \<open>\<open>/^[a-z][a-z0-9+._-]*$/\<close>.\<close>

definition RUNTIME_TAG :: "jsstr \<Rightarrow> bool" where
  "RUNTIME_TAG s \<longleftrightarrow> s \<noteq> [] \<and> lowerLetter (hd s)
     \<and> list_all (\<lambda>c. lowerLetter c \<or> isDigit c \<or> c \<in> set (js ''+._-'')) (tl s)"

definition INTERNAL_ROW_OPS :: "jsstr list" where
  "INTERNAL_ROW_OPS = map js [''extension'', ''error'']"

definition isExecutionOp :: "jsstr option \<Rightarrow> bool" where
  "isExecutionOp op = (case op of None \<Rightarrow> False
     | Some s \<Rightarrow> s \<notin> set INTERNAL_ROW_OPS \<and> \<not> isPlurnkOp s \<and> RUNTIME_TAG s)"

lemma keyword_not_execution: "isPlurnkOp s \<Longrightarrow> \<not> isExecutionOp (Some s)"
  by (simp add: isExecutionOp_def)

end
