(* ===== verification/CapabilityResolver.thy ===== *)
theory CapabilityResolver
  imports CapabilityAdmission Operations JsSearch
begin

text \<open>
  \<^verbatim>\<open>plurnk-core/src/core/CapabilityResolver.ts\<close>: the demands a statement makes and the rings of policy that refuse
  them. The registries of schemes and executors are records of what their lookups answer for the workspace; the stored
  policies and the owner of a session are arguments, as is the manifest a resource resolves to. The first pass of
  \<open>denial\<close> only collects the operands to resolve: a resolution is a function of its operand, so the second pass
  is the one that is modelled. \<open>toLowerCase\<close> and \<open>encodeURIComponent\<close> are fields of the registries.
\<close>

section \<open>Statements and registries\<close>

datatype ParsedPath = LocalPath jsstr | UrlPath jsstr jsstr

fun rawPath :: "ParsedPath \<Rightarrow> jsstr" where
  "rawPath (LocalPath raw) = raw"
| "rawPath (UrlPath scheme raw) = raw"

datatype Statement =
    Execution jsstr "ParsedPath option"
  | Find "ParsedPath option" | Read "ParsedPath option" | Edit "ParsedPath option"
  | Copy "ParsedPath option" "ParsedPath option" | Move "ParsedPath option" "ParsedPath option"
  | Work "ParsedPath option" | Fork "ParsedPath option" | Bare "ParsedPath option"
  | Kill "ParsedPath option" | Send "ParsedPath option"
  | Note | Todo | Wait | Done | Fail

datatype WriterTier = ModelWriter | ClientWriter | RuntimeWriter

datatype SchemeCategory = DataScheme | LoggingScheme | ControlScheme

record SchemeManifest =
  category :: SchemeCategory
  writableBy :: "WriterTier list"
  modelVisible :: bool
  manifestTraits :: "jsstr list option"

text \<open>A handler, as the methods it has.\<close>

record SchemeHandler =
  hasFind :: bool
  hasEditBatch :: bool
  hasSend :: bool
  hasKill :: bool
  providesRepresentation :: bool

record RuntimeTool =
  toolTarget :: jsstr
  toolTraits :: "jsstr list option"

text \<open>The kind of the target of an invocation and whether it is required.\<close>

record ExecutorEntry =
  available :: bool
  invocationTarget :: "(jsstr \<times> bool) option"
  resourcesPath :: "jsstr option"

record ExecutorRegistry =
  entryOf :: "jsstr \<Rightarrow> ExecutorEntry option"
  toolRegistry :: "jsstr \<Rightarrow> RuntimeTool list option"
  availableRuntimes :: "jsstr list"

record Registries =
  lowerCase :: "jsstr \<Rightarrow> jsstr"
  encodeURIComponent :: "jsstr \<Rightarrow> jsstr"
  handlerOf :: "jsstr \<Rightarrow> SchemeHandler option"
  manifestFor :: "jsstr \<Rightarrow> SchemeManifest option"
  schemeList :: "jsstr list"
  executors :: "ExecutorRegistry option"

definition hasScheme :: "Registries \<Rightarrow> jsstr \<Rightarrow> bool" where
  "hasScheme w scheme \<longleftrightarrow> handlerOf w scheme \<noteq> None"

definition executorEntry :: "Registries \<Rightarrow> jsstr \<Rightarrow> ExecutorEntry option" where
  "executorEntry w tag = (case executors w of None \<Rightarrow> None | Some e \<Rightarrow> entryOf e tag)"

definition toolsOf :: "Registries \<Rightarrow> jsstr \<Rightarrow> RuntimeTool list option" where
  "toolsOf w tag = (case executors w of None \<Rightarrow> None | Some e \<Rightarrow> toolRegistry e tag)"

definition runtimesOf :: "Registries \<Rightarrow> jsstr list" where
  "runtimesOf w = (case executors w of None \<Rightarrow> [] | Some e \<Rightarrow> availableRuntimes e)"

definition routedSchemeName :: "jsstr \<Rightarrow> jsstr" where
  "routedSchemeName addressed =
     (if addressed = js ''http'' then js ''https'' else if addressed = js ''ws'' then js ''wss'' else addressed)"

fun schemeNameOf :: "ParsedPath option \<Rightarrow> jsstr option" where
  "schemeNameOf None = None"
| "schemeNameOf (Some (UrlPath scheme raw)) = Some (routedSchemeName scheme)"
| "schemeNameOf (Some (LocalPath raw)) = Some (js ''file'')"

section \<open>Descriptors\<close>

datatype ResolverError = NamesNoRuntime jsstr

definition traitsOf :: "Registries \<Rightarrow> jsstr \<Rightarrow> jsstr list" where
  "traitsOf w scheme =
     (case manifestFor w scheme of None \<Rightarrow> [] | Some m \<Rightarrow> sortBy codeUnitLe (orEmpty (manifestTraits m)))"

definition schemeDescriptor :: "Registries \<Rightarrow> jsstr \<Rightarrow> Access \<Rightarrow> jsstr \<Rightarrow> CapabilityDescriptor" where
  "schemeDescriptor w operation access scheme =
     \<lparr>descOperation = operation, descScheme = Some scheme, descRuntime = None, descTool = None,
      descAccess = access, descTraits = traitsOf w scheme\<rparr>"

definition runtimeTraits :: "Registries \<Rightarrow> jsstr \<Rightarrow> jsstr option \<Rightarrow> jsstr list" where
  "runtimeTraits w runtime tool =
     (let toolTraitList = (case tool of None \<Rightarrow> []
          | Some t \<Rightarrow> (case find (\<lambda>c. toolTarget c = t) (orEmpty (toolsOf w runtime)) of
                None \<Rightarrow> [] | Some c \<Rightarrow> orEmpty (toolTraits c)))
      in sortBy codeUnitLe (nubFirst (traitsOf w (js ''exec'') @ traitsOf w runtime @ toolTraitList)))"

definition runtimeDescriptor ::
  "Registries \<Rightarrow> jsstr \<Rightarrow> jsstr option \<Rightarrow> ResolverError + CapabilityDescriptor" where
  "runtimeDescriptor w runtime tool =
     (if runtime \<noteq> lowerCase w runtime then Inl (NamesNoRuntime runtime)
      else let traits = runtimeTraits w runtime tool
           in Inr \<lparr>descOperation = runtime, descScheme = Some (js ''exec''), descRuntime = Some runtime, descTool = tool,
                descAccess = (if js ''interaction'' \<in> set traits then Interact else Execute), descTraits = traits\<rparr>)"

definition bareDescriptor :: CapabilityDescriptor where
  "bareDescriptor = \<lparr>descOperation = js ''bare'', descScheme = None, descRuntime = None, descTool = None,
     descAccess = Execute, descTraits = []\<rparr>"

definition describe ::
  "Registries \<Rightarrow> WriterTier \<Rightarrow> (ParsedPath \<Rightarrow> SchemeManifest option) option
     \<Rightarrow> jsstr \<Rightarrow> Access \<Rightarrow> ParsedPath option \<Rightarrow> CapabilityDescriptor list option" where
  "describe w writer observeManifest operation access target =
     (let scheme = schemeNameOf target in
      case (access = Observe, target, scheme, observeManifest) of
        (True, Some t, Some s, Some observe) \<Rightarrow>
          (case observe t of
             None \<Rightarrow> None
           | Some m \<Rightarrow> Some [\<lparr>descOperation = operation, descScheme = Some s, descRuntime = None, descTool = None,
                 descAccess = access, descTraits = sortBy codeUnitLe (orEmpty (manifestTraits m))\<rparr>])
      | _ \<Rightarrow>
          (case scheme of
             None \<Rightarrow> None
           | Some s \<Rightarrow>
               if \<not> hasScheme w s then None
               else if writer = RuntimeWriter \<and> access \<noteq> Observe \<and> (s = js ''plurnk'' \<or> s = js ''mcp'') then Some []
               else Some [schemeDescriptor w operation access s]))"

definition demands :: "'a list option list \<Rightarrow> 'a list" where
  "demands items = concat (map orEmpty items)"

definition composedDemands :: "'a list option list \<Rightarrow> 'a list" where
  "composedDemands items = (if list_all (\<lambda>i. i \<noteq> None) items then demands items else [])"

definition executionDescriptors ::
  "Registries \<Rightarrow> WriterTier \<Rightarrow> (ParsedPath \<Rightarrow> SchemeManifest option) option \<Rightarrow> jsstr \<Rightarrow> ParsedPath option
     \<Rightarrow> ResolverError + CapabilityDescriptor list" where
  "executionDescriptors w writer observeManifest runtime target =
     (case executorEntry w runtime of
        None \<Rightarrow> Inr []
      | Some entry \<Rightarrow>
          if \<not> available entry then Inr []
          else let registry = toolsOf w runtime;
                   tool = map_option toolTarget
                     (find (\<lambda>c. Some (toolTarget c) = map_option rawPath target) (orEmpty registry))
               in if registry \<noteq> None \<and> tool = None then Inr []
                  else andThen (runtimeDescriptor w runtime tool) (\<lambda>required.
                    case invocationTarget entry of
                      None \<Rightarrow> Inr [required]
                    | Some (targetKind, needed) \<Rightarrow>
                        if targetKind \<noteq> js ''resource'' \<and> targetKind \<noteq> js ''script'' then Inr [required]
                        else if target = None then (if needed then Inr [] else Inr [required])
                        else case describe w writer observeManifest runtime Observe target of
                               None \<Rightarrow> Inr []
                             | Some targetDemand \<Rightarrow> Inr (required # targetDemand)))"

definition controls :: "Registries \<Rightarrow> jsstr option \<Rightarrow> bool" where
  "controls w scheme =
     (scheme = Some (js ''session'') \<or> (case scheme of None \<Rightarrow> False | Some s \<Rightarrow> executorEntry w s \<noteq> None))"

fun descriptors ::
  "Registries \<Rightarrow> WriterTier \<Rightarrow> (ParsedPath \<Rightarrow> SchemeManifest option) option \<Rightarrow> Statement
     \<Rightarrow> ResolverError + CapabilityDescriptor list" where
  "descriptors w writer om (Execution runtime target) = executionDescriptors w writer om runtime target"
| "descriptors w writer om (Find t) = Inr (demands [describe w writer om (js ''find'') Observe t])"
| "descriptors w writer om (Read t) = Inr (demands [describe w writer om (js ''read'') Observe t])"
| "descriptors w writer om (Edit t) = Inr (demands [describe w writer om (js ''edit'') Mutate t])"
| "descriptors w writer om (Copy source destination) = Inr (composedDemands
     [describe w writer om (js ''copy'') Observe source, describe w writer om (js ''copy'') Mutate destination])"
| "descriptors w writer om (Move source destination) = Inr (composedDemands
     [describe w writer om (js ''move'') Observe source, describe w writer om (js ''move'') Mutate source,
      describe w writer om (js ''move'') Mutate destination])"
| "descriptors w writer om (Work t) = Inr (demands [describe w writer om (js ''work'') Control t])"
| "descriptors w writer om (Fork t) = Inr (demands [describe w writer om (js ''fork'') Control t])"
| "descriptors w writer om (Bare t) =
     Inr (demands [Some [bareDescriptor], describe w writer om (js ''bare'') Observe t])"
| "descriptors w writer om (Kill t) =
     (if schemeNameOf t = Some (js ''log'') then Inr []
      else Inr (demands [describe w writer om (js ''kill'') (if controls w (schemeNameOf t) then Control else Mutate) t]))"
| "descriptors w writer om (Send t) =
     (if t = None then Inr []
      else Inr (demands [describe w writer om (js ''send'') (if controls w (schemeNameOf t) then Control else Mutate) t]))"
| "descriptors w writer om _ = Inr []"

section \<open>The rings\<close>

datatype CapabilityScope = ServiceScope | WorkspaceScope | OwnerScope

type_synonym CapabilityLayer = "CapabilityScope \<times> CapabilityPolicy"

record SessionOwner =
  ownerTools :: "jsstr list"
  interactive :: bool

definition receives :: "SessionOwner \<Rightarrow> jsstr \<Rightarrow> bool" where
  "receives owner toolName \<longleftrightarrow> interactive owner \<and> toolName \<in> set (ownerTools owner)"

definition policyLayers :: "CapabilityPolicy \<Rightarrow> CapabilityPolicy \<Rightarrow> CapabilityLayer list" where
  "policyLayers service workspace = [(ServiceScope, service), (WorkspaceScope, workspace)]"

record Candidate =
  candidateRuntime :: jsstr
  candidateTool :: "jsstr option"
  candidateName :: jsstr

fun toolCandidates :: "Registries \<Rightarrow> jsstr \<Rightarrow> RuntimeTool list \<Rightarrow> ResolverError + Candidate list" where
  "toolCandidates w runtime [] = Inr []"
| "toolCandidates w runtime (c # cs) =
     andThen (runtimeDescriptor w runtime (Some (toolTarget c))) (\<lambda>d.
     andThen (toolCandidates w runtime cs) (\<lambda>rest.
       Inr ((if descAccess d = Interact
             then [\<lparr>candidateRuntime = runtime, candidateTool = Some (toolTarget c), candidateName = toolTarget c\<rparr>]
             else []) @ rest)))"

fun interactionCandidates :: "Registries \<Rightarrow> jsstr list \<Rightarrow> ResolverError + Candidate list" where
  "interactionCandidates w [] = Inr []"
| "interactionCandidates w (runtime # runtimes) =
     andThen (runtimeDescriptor w runtime None) (\<lambda>d.
     andThen (if descAccess d = Interact
              then Inr [\<lparr>candidateRuntime = runtime, candidateTool = None, candidateName = runtime\<rparr>]
              else toolCandidates w runtime (orEmpty (toolsOf w runtime))) (\<lambda>here.
     andThen (interactionCandidates w runtimes) (\<lambda>rest. Inr (here @ rest))))"

definition unreceived :: "Registries \<Rightarrow> SessionOwner \<Rightarrow> ResolverError + Candidate list" where
  "unreceived w owner =
     andThen (interactionCandidates w (runtimesOf w)) (\<lambda>candidates.
       Inr (filter (\<lambda>c. \<not> receives owner (candidateName c)) candidates))"

definition interactSelector :: "Candidate \<Rightarrow> CapabilitySelector" where
  "interactSelector c = \<lparr>selOperation = None, selScheme = None, selRuntime = Some (candidateRuntime c),
     selTool = candidateTool c, selAccess = Some Interact, selTraits = None\<rparr>"

definition ownerPolicy :: "Candidate list \<Rightarrow> CapabilityPolicy" where
  "ownerPolicy cs = \<lparr>allow = None, only = None, deny = Some (map interactSelector cs)\<rparr>"

definition layers ::
  "Registries \<Rightarrow> CapabilityLayer list \<Rightarrow> SessionOwner option \<Rightarrow> ResolverError + CapabilityLayer list" where
  "layers w stored session =
     (case session of
        None \<Rightarrow> Inr stored
      | Some owner \<Rightarrow> andThen (unreceived w owner) (\<lambda>cs.
          Inr (if cs = [] then stored else stored @ [(OwnerScope, ownerPolicy cs)])))"

fun firstDenial ::
  "CapabilityLayer list \<Rightarrow> CapabilityDescriptor list \<Rightarrow> (CapabilityDescriptor \<times> CapabilityScope) option" where
  "firstDenial ls [] = None"
| "firstDenial ls (d # ds) =
     (case find (\<lambda>l. \<not> allows (snd l) d) ls of Some l \<Rightarrow> Some (d, fst l) | None \<Rightarrow> firstDenial ls ds)"

definition denial ::
  "Registries \<Rightarrow> CapabilityLayer list \<Rightarrow> WriterTier \<Rightarrow> (ParsedPath \<Rightarrow> SchemeManifest option) option
     \<Rightarrow> SessionOwner option \<Rightarrow> Statement \<Rightarrow> ResolverError + (CapabilityDescriptor \<times> CapabilityScope) option" where
  "denial w stored writer resolveResource session st =
     andThen (descriptors w writer resolveResource st) (\<lambda>ds.
     andThen (layers w stored (if list_ex (\<lambda>d. descAccess d = Interact) ds then session else None)) (\<lambda>ls.
       Inr (firstDenial ls ds)))"

definition effective :: "(SelectorKey \<Rightarrow> SelectorKey \<Rightarrow> bool) \<Rightarrow> CapabilityLayer list \<Rightarrow> CapabilityPolicy" where
  "effective localeBefore ls = intersect localeBefore (map snd ls)"

section \<open>What a session or a card shows\<close>

definition allowsStatementAcross ::
  "Registries \<Rightarrow> CapabilityPolicy list \<Rightarrow> Statement \<Rightarrow> ResolverError + bool" where
  "allowsStatementAcross w policies st =
     andThen (descriptors w ModelWriter None st) (\<lambda>ds. Inr (list_all (\<lambda>d. allowsAcross policies d) ds))"

definition allowsRuntimeAcross ::
  "Registries \<Rightarrow> CapabilityPolicy list \<Rightarrow> jsstr \<Rightarrow> jsstr option \<Rightarrow> ResolverError + bool" where
  "allowsRuntimeAcross w policies runtime tool =
     andThen (runtimeDescriptor w runtime tool) (\<lambda>d. Inr (allowsAcross policies d))"

definition documentPath :: "jsstr \<Rightarrow> jsstr" where
  "documentPath runtime = js ''/'' @ runtime @ js ''.md''"

definition documents :: "jsstr \<Rightarrow> jsstr \<Rightarrow> bool" where
  "documents runtime pathname =
     (let page = documentPath runtime; root = take (length page - 3) page
      in pathname = page \<or> pathname = root @ js ''.json'' \<or> prefix (root @ js ''/'') pathname)"

definition targetSegment :: "Registries \<Rightarrow> jsstr \<Rightarrow> jsstr" where
  "targetSegment w target =
     concat (map (\<lambda>c. if c = 33 then js ''%21'' else if c = 39 then js ''%27'' else if c = 40 then js ''%28''
       else if c = 41 then js ''%29'' else if c = 42 then js ''%2A'' else [c]) (encodeURIComponent w target))"

definition toolDocumentPath :: "Registries \<Rightarrow> jsstr \<Rightarrow> jsstr \<Rightarrow> jsstr" where
  "toolDocumentPath w runtime target =
     (let page = documentPath runtime
      in take (length page - 3) page @ js ''/'' @ targetSegment w target @ js ''.json'')"

definition hiddenBy :: "Registries \<Rightarrow> Candidate list \<Rightarrow> Candidate \<Rightarrow> jsstr \<Rightarrow> bool" where
  "hiddenBy w cs c pathname =
     (case candidateTool c of
        None \<Rightarrow> documents (candidateRuntime c) pathname
      | Some tool \<Rightarrow>
          let tools = orEmpty (toolsOf w (candidateRuntime c))
          in if tools \<noteq> [] \<and> list_all (\<lambda>t. list_ex (\<lambda>d. candidateRuntime d = candidateRuntime c
                    \<and> candidateTool d = Some (toolTarget t)) cs) tools
             then documents (candidateRuntime c) pathname
             else let toolDoc = toolDocumentPath w (candidateRuntime c) tool;
                      toolMd = take (length toolDoc - 5) toolDoc @ js ''.md''
                  in pathname = toolDoc \<or> pathname = toolMd)"

definition referenceVisibility :: "Registries \<Rightarrow> SessionOwner \<Rightarrow> jsstr \<Rightarrow> ResolverError + bool" where
  "referenceVisibility w owner pathname =
     andThen (unreceived w owner) (\<lambda>cs. Inr (\<not> list_ex (\<lambda>c. hiddenBy w cs c pathname) cs))"

definition observers :: "Registries \<Rightarrow> CapabilityPolicy list \<Rightarrow> jsstr list" where
  "observers w policies =
     map js [''read'', ''copy'', ''bare''] @ List.map_filter id (filter isExecutionOp
       (case executors w of
          Some e \<Rightarrow> map Some (availableRuntimes e)
        | None \<Rightarrow> map selOperation (concat (map (\<lambda>p. orEmpty (only p) @ orEmpty (deny p)) policies))))"

definition allowsSchemeAcross :: "Registries \<Rightarrow> CapabilityPolicy list \<Rightarrow> jsstr \<Rightarrow> bool" where
  "allowsSchemeAcross w policies scheme =
     (case (manifestFor w scheme, handlerOf w scheme) of
        (Some manifest, Some handler) \<Rightarrow>
          if \<not> modelVisible manifest then False
          else let allowed = \<lambda>operation access. allowsAcross policies (schemeDescriptor w (js operation) access scheme);
                   entryBearing = (category manifest = DataScheme);
                   readable = entryBearing \<or> providesRepresentation handler
               in if readable \<and> list_ex (\<lambda>operation. allowsAcross policies (schemeDescriptor w operation Observe scheme))
                      (observers w policies) then True
                  else if (entryBearing \<or> hasFind handler) \<and> allowed ''find'' Observe then True
                  else if ModelWriter \<notin> set (writableBy manifest) then False
                  else if entryBearing \<and> allowed ''copy'' Mutate then True
                  else if hasEditBatch handler \<and> allowed ''edit'' Mutate then True
                  else if hasSend handler \<and> allowed ''send'' (if scheme = js ''session'' then Control else Mutate) then True
                  else if (entryBearing \<or> hasKill handler)
                      \<and> (scheme = js ''log'' \<or> allowed ''kill'' (if scheme = js ''session'' then Control else Mutate)
                        \<or> readable \<and> allowed ''move'' Observe \<and> allowed ''move'' Mutate) then True
                  else scheme = js ''session'' \<and> (allowed ''work'' Control \<or> allowed ''fork'' Control)
      | _ \<Rightarrow> False)"

datatype CoreOp = OpFind | OpRead | OpEdit | OpCopy | OpMove | OpSend | OpDone | OpFail | OpBare | OpWork | OpFork | OpKill
  | OpNote | OpTodo | OpWait

definition modelWrites :: "Registries \<Rightarrow> jsstr \<Rightarrow> bool" where
  "modelWrites w scheme = (case manifestFor w scheme of None \<Rightarrow> False | Some m \<Rightarrow> ModelWriter \<in> set (writableBy m))"

definition allowsCoreOperationAcross :: "Registries \<Rightarrow> CapabilityPolicy list \<Rightarrow> CoreOp \<Rightarrow> bool" where
  "allowsCoreOperationAcross w policies operation =
     (let schemes = schemeList w;
          allowsScheme = \<lambda>name access scheme. allowsAcross policies (schemeDescriptor w (js name) access scheme)
      in case operation of
           OpBare \<Rightarrow> allowsAcross policies bareDescriptor
         | OpWork \<Rightarrow> hasScheme w (js ''session'') \<and> allowsScheme ''work'' Control (js ''session'')
         | OpFork \<Rightarrow> hasScheme w (js ''session'') \<and> allowsScheme ''fork'' Control (js ''session'')
         | OpFind \<Rightarrow> list_ex (\<lambda>s. allowsScheme ''find'' Observe s) schemes
         | OpRead \<Rightarrow> list_ex (\<lambda>s. allowsScheme ''read'' Observe s) schemes
         | OpEdit \<Rightarrow> list_ex (\<lambda>s. modelWrites w s \<and> allowsScheme ''edit'' Mutate s) schemes
         | OpCopy \<Rightarrow> list_ex (\<lambda>s. allowsScheme ''copy'' Observe s) schemes
             \<and> list_ex (\<lambda>s. modelWrites w s \<and> allowsScheme ''copy'' Mutate s) schemes
         | OpMove \<Rightarrow> list_ex (\<lambda>s. modelWrites w s \<and> allowsScheme ''move'' Observe s \<and> allowsScheme ''move'' Mutate s) schemes
             \<and> list_ex (\<lambda>s. modelWrites w s \<and> allowsScheme ''move'' Mutate s) schemes
         | _ \<Rightarrow> True)"

section \<open>Lemmas\<close>

lemma find_first:
  "find P xs = Some x \<Longrightarrow> \<exists>before after. xs = before @ x # after \<and> P x \<and> (\<forall>y \<in> set before. \<not> P y)"
proof (induction xs)
  case (Cons a xs)
  show ?case
  proof (cases "P a")
    case True
    then have "a # xs = [] @ x # xs \<and> P x \<and> (\<forall>y \<in> set []. \<not> P y)" using Cons.prems by simp
    then show ?thesis by blast
  next
    case False
    then obtain before after where "xs = before @ x # after \<and> P x \<and> (\<forall>y \<in> set before. \<not> P y)" using Cons by auto
    then have "a # xs = (a # before) @ x # after \<and> P x \<and> (\<forall>y \<in> set (a # before). \<not> P y)" using False by simp
    then show ?thesis by blast
  qed
qed simp

lemma allowsAcross_layers: "allowsAcross (map snd ls) d \<longleftrightarrow> (\<forall>l \<in> set ls. allows (snd l) d)"
  by (auto simp: allowsAcross_def list_all_iff)

lemma firstDenial_None: "firstDenial ls ds = None \<longleftrightarrow> (\<forall>d \<in> set ds. allowsAcross (map snd ls) d)"
  by (induction ds) (auto simp: allowsAcross_layers find_None_iff split: option.splits dest: find_first)

lemma firstDenial_Some:
  "firstDenial ls ds = Some (d, scope) \<Longrightarrow>
     \<exists>before after. ds = before @ d # after \<and> (\<forall>x \<in> set before. allowsAcross (map snd ls) x)
       \<and> (\<exists>p outer inner. ls = outer @ (scope, p) # inner \<and> \<not> allows p d \<and> (\<forall>l \<in> set outer. allows (snd l) d))"
proof (induction ds)
  case (Cons x ds)
  show ?case
  proof (cases "find (\<lambda>l. \<not> allows (snd l) x) ls")
    case None
    then have "firstDenial ls ds = Some (d, scope)" using Cons.prems by simp
    from Cons.IH [OF this] obtain before after where b: "ds = before @ d # after"
      "\<forall>y \<in> set before. allowsAcross (map snd ls) y"
      and l: "\<exists>p outer inner. ls = outer @ (scope, p) # inner \<and> \<not> allows p d \<and> (\<forall>l \<in> set outer. allows (snd l) d)"
      by blast
    have "allowsAcross (map snd ls) x" using None by (auto simp: find_None_iff allowsAcross_layers)
    then have "x # ds = (x # before) @ d # after \<and> (\<forall>y \<in> set (x # before). allowsAcross (map snd ls) y)" using b by simp
    then show ?thesis using l by blast
  next
    case (Some l)
    then have e: "d = x" "scope = fst l" using Cons.prems by auto
    then have "\<exists>p outer inner. ls = outer @ (scope, p) # inner \<and> \<not> allows p d \<and> (\<forall>l \<in> set outer. allows (snd l) d)"
      using find_first [OF Some] by (cases l) auto
    moreover have "x # ds = [] @ d # ds \<and> (\<forall>y \<in> set []. allowsAcross (map snd ls) y)" using e by simp
    ultimately show ?thesis by blast
  qed
qed simp

lemma toolCandidates_member:
  assumes "toolCandidates w runtime cs = Inr found"
  shows "c \<in> set found \<longleftrightarrow> (\<exists>t \<in> set cs. \<exists>d. runtimeDescriptor w runtime (Some (toolTarget t)) = Inr d
      \<and> descAccess d = Interact \<and> c = \<lparr>candidateRuntime = runtime, candidateTool = Some (toolTarget t), candidateName = toolTarget t\<rparr>)"
  using assms
proof (induction cs arbitrary: found)
  case (Cons t cs)
  then obtain d rest where d: "runtimeDescriptor w runtime (Some (toolTarget t)) = Inr d" "toolCandidates w runtime cs = Inr rest"
    "found = (if descAccess d = Interact then [\<lparr>candidateRuntime = runtime, candidateTool = Some (toolTarget t),
        candidateName = toolTarget t\<rparr>] else []) @ rest"
    by (auto simp: andThen_Inr_iff)
  then show ?case using Cons.IH [OF d(2)] by auto
qed simp

text \<open>The name under which an owner is asked for a tool of a runtime.\<close>

definition askedName :: "Registries \<Rightarrow> jsstr \<Rightarrow> jsstr option \<Rightarrow> jsstr" where
  "askedName w runtime tool =
     (case tool of None \<Rightarrow> runtime
      | Some t \<Rightarrow> if map_sum id descAccess (runtimeDescriptor w runtime None) = Inr Interact then runtime else t)"

lemma interactionCandidates_member:
  assumes "interactionCandidates w runtimes = Inr found"
  shows "c \<in> set found \<longleftrightarrow> (\<exists>r \<in> set runtimes. \<exists>d. runtimeDescriptor w r None = Inr d
      \<and> (if descAccess d = Interact then c = \<lparr>candidateRuntime = r, candidateTool = None, candidateName = r\<rparr>
         else \<exists>t \<in> set (orEmpty (toolsOf w r)). \<exists>e. runtimeDescriptor w r (Some (toolTarget t)) = Inr e
           \<and> descAccess e = Interact
           \<and> c = \<lparr>candidateRuntime = r, candidateTool = Some (toolTarget t), candidateName = toolTarget t\<rparr>))"
  using assms
proof (induction runtimes arbitrary: found)
  case (Cons r runtimes)
  then obtain d here rest where d: "runtimeDescriptor w r None = Inr d" "interactionCandidates w runtimes = Inr rest"
    "found = here @ rest" "(if descAccess d = Interact
        then Inr [\<lparr>candidateRuntime = r, candidateTool = None, candidateName = r\<rparr>]
        else toolCandidates w r (orEmpty (toolsOf w r))) = Inr here"
    by (auto simp: andThen_Inr_iff)
  have "c \<in> set here \<longleftrightarrow> (if descAccess d = Interact then c = \<lparr>candidateRuntime = r, candidateTool = None, candidateName = r\<rparr>
         else \<exists>t \<in> set (orEmpty (toolsOf w r)). \<exists>e. runtimeDescriptor w r (Some (toolTarget t)) = Inr e
           \<and> descAccess e = Interact
           \<and> c = \<lparr>candidateRuntime = r, candidateTool = Some (toolTarget t), candidateName = toolTarget t\<rparr>)"
    using d(4) toolCandidates_member [of w r "orEmpty (toolsOf w r)" here c] by (auto split: if_splits)
  then show ?case using Cons.IH [OF d(2)] d(1,3) by auto
qed simp

lemma owner_layer:
  assumes "layers w stored (Some owner) = Inr ls"
  obtains cs where "unreceived w owner = Inr cs"
    "allowsAcross (map snd ls) d \<longleftrightarrow> allowsAcross (map snd stored) d \<and> (\<forall>c \<in> set cs. \<not> matches (interactSelector c) d)"
proof -
  obtain cs where cs: "unreceived w owner = Inr cs" "ls = (if cs = [] then stored else stored @ [(OwnerScope, ownerPolicy cs)])"
    using assms by (auto simp: layers_def andThen_Inr_iff)
  have "allows (ownerPolicy cs) d \<longleftrightarrow> (\<forall>c \<in> set cs. \<not> matches (interactSelector c) d)"
    by (auto simp: ownerPolicy_def allows_def orEmpty_def list_ex_iff)
  then have "allowsAcross (map snd ls) d \<longleftrightarrow> allowsAcross (map snd stored) d \<and> (\<forall>c \<in> set cs. \<not> matches (interactSelector c) d)"
    by (cases "cs = []") (simp_all add: cs(2) allowsAcross_def)
  then show thesis by (rule that [OF cs(1)])
qed

lemma interactSelector_matches:
  "matches (interactSelector c) d \<longleftrightarrow> descRuntime d = Some (candidateRuntime c) \<and> descAccess d = Interact
     \<and> (candidateTool c \<noteq> None \<longrightarrow> descTool d = candidateTool c)"
  by (auto simp: matches_def interactSelector_def)


lemma effective_allows: "allows (effective localeBefore ls) d \<longleftrightarrow> allowsAcross (map snd ls) d"
  by (simp add: effective_def intersect_allows)

section \<open>Properties\<close>

text \<open>A denial is the decision of the whole cascade, and it names the first refusal: a statement is admitted exactly when
the one policy the cascade normalises to allows every demand it makes; otherwise the demand that is named is the first
the cascade refuses, and the ring that is named is the outermost that refuses it.\<close>

lemma denial_names_first_refusal:
  assumes "denial w stored writer resolveResource session st = Inr r"
  shows "\<exists>ds ls. descriptors w writer resolveResource st = Inr ds
    \<and> layers w stored (if list_ex (\<lambda>d. descAccess d = Interact) ds then session else None) = Inr ls
    \<and> (r = None \<longleftrightarrow> (\<forall>d \<in> set ds. allows (effective localeBefore ls) d))
    \<and> (\<forall>d scope. r = Some (d, scope) \<longrightarrow>
         (\<exists>before after. ds = before @ d # after \<and> (\<forall>x \<in> set before. allows (effective localeBefore ls) x))
         \<and> (\<exists>p outer inner. ls = outer @ (scope, p) # inner \<and> \<not> allows p d \<and> (\<forall>l \<in> set outer. allows (snd l) d)))"
proof -
  obtain ds ls where d: "descriptors w writer resolveResource st = Inr ds"
    "layers w stored (if list_ex (\<lambda>d. descAccess d = Interact) ds then session else None) = Inr ls" "r = firstDenial ls ds"
    using assms by (auto simp: denial_def andThen_Inr_iff)
  have a: "r = None \<longleftrightarrow> (\<forall>d \<in> set ds. allows (effective localeBefore ls) d)"
    by (simp add: d(3) firstDenial_None effective_allows)
  have b: "\<forall>d scope. r = Some (d, scope) \<longrightarrow>
         (\<exists>before after. ds = before @ d # after \<and> (\<forall>x \<in> set before. allows (effective localeBefore ls) x))
         \<and> (\<exists>p outer inner. ls = outer @ (scope, p) # inner \<and> \<not> allows p d \<and> (\<forall>l \<in> set outer. allows (snd l) d))"
    unfolding d(3) effective_allows using firstDenial_Some by blast
  show ?thesis by (rule exI [of _ ds], rule exI [of _ ls], intro conjI) (rule d(1) d(2) a b)+
qed

lemma describe_no_runtime:
  "describe w writer om operation access target = Some ds \<Longrightarrow> d \<in> set ds \<Longrightarrow> descRuntime d = None"
  by (auto simp: describe_def schemeDescriptor_def Let_def split: prod.splits option.splits bool.splits if_splits)

lemma runtimeDescriptor_fields:
  "runtimeDescriptor w runtime tool = Inr d \<Longrightarrow> descRuntime d = Some runtime \<and> descTool d = tool"
  by (auto simp: runtimeDescriptor_def Let_def split: if_splits)

lemma executionDescriptors_head:
  assumes "executionDescriptors w writer om runtime target = Inr (d # ds)"
  shows "\<exists>tool. runtimeDescriptor w runtime tool = Inr d \<and> (\<forall>e \<in> set ds. descRuntime e = None)
    \<and> (case tool of None \<Rightarrow> True | Some t \<Rightarrow> t \<in> toolTarget ` set (orEmpty (toolsOf w runtime)))"
proof -
  let ?tool = "map_option toolTarget (find (\<lambda>c. Some (toolTarget c) = map_option rawPath target) (orEmpty (toolsOf w runtime)))"
  have "runtimeDescriptor w runtime ?tool = Inr d \<and> (\<forall>e \<in> set ds. descRuntime e = None)"
  proof -
    obtain entry where e: "executorEntry w runtime = Some entry"
      using assms by (cases "executorEntry w runtime") (auto simp: executionDescriptors_def)
    then obtain required where required: "runtimeDescriptor w runtime ?tool = Inr required"
      "(case invocationTarget entry of None \<Rightarrow> Inr [required]
        | Some (targetKind, needed) \<Rightarrow>
            if targetKind \<noteq> js ''resource'' \<and> targetKind \<noteq> js ''script'' then Inr [required]
            else if target = None then (if needed then Inr [] else Inr [required])
            else case describe w writer om runtime Observe target of
                   None \<Rightarrow> Inr [] | Some targetDemand \<Rightarrow> Inr (required # targetDemand))
          = (Inr (d # ds) :: ResolverError + CapabilityDescriptor list)"
      using assms by (auto simp: executionDescriptors_def Let_def andThen_Inr_iff split: if_splits)
    then have "d = required \<and> (ds = [] \<or> describe w writer om runtime Observe target = Some ds)"
      by (cases "invocationTarget entry") (auto split: if_splits option.splits)
    then show ?thesis using required(1) describe_no_runtime by auto
  qed
  moreover have "case ?tool of None \<Rightarrow> True | Some t \<Rightarrow> t \<in> toolTarget ` set (orEmpty (toolsOf w runtime))"
    by (auto simp: find_Some_iff split: option.splits)
  ultimately show ?thesis by blast
qed

lemma unreceived_member:
  assumes "unreceived w owner = Inr cs"
  shows "c \<in> set cs \<longleftrightarrow> \<not> receives owner (candidateName c) \<and>
    (\<exists>r \<in> set (runtimesOf w). \<exists>d. runtimeDescriptor w r None = Inr d
      \<and> (if descAccess d = Interact then c = \<lparr>candidateRuntime = r, candidateTool = None, candidateName = r\<rparr>
         else \<exists>t \<in> set (orEmpty (toolsOf w r)). \<exists>e. runtimeDescriptor w r (Some (toolTarget t)) = Inr e
           \<and> descAccess e = Interact
           \<and> c = \<lparr>candidateRuntime = r, candidateTool = Some (toolTarget t), candidateName = toolTarget t\<rparr>))"
proof -
  obtain found where f: "interactionCandidates w (runtimesOf w) = Inr found"
    "cs = filter (\<lambda>c. \<not> receives owner (candidateName c)) found"
    using assms by (auto simp: unreceived_def andThen_Inr_iff)
  show ?thesis unfolding f(2) set_filter mem_Collect_eq interactionCandidates_member [OF f(1)] by (rule conj_commute)
qed

text \<open>The ring of an owner refuses an interaction just when the owner does not receive it.\<close>

lemma owner_ring:
  assumes cs: "unreceived w owner = Inr cs"
    and d: "runtimeDescriptor w runtime tool = Inr d" "descAccess d = Interact"
    and avail: "runtime \<in> set (runtimesOf w)"
    and tool: "case tool of None \<Rightarrow> True | Some t \<Rightarrow> t \<in> toolTarget ` set (orEmpty (toolsOf w runtime))"
  shows "(\<exists>c \<in> set cs. matches (interactSelector c) d) \<longleftrightarrow> \<not> receives owner (askedName w runtime tool)"
proof -
  note f = runtimeDescriptor_fields [OF d(1)]
  obtain n where n: "runtimeDescriptor w runtime None = Inr n"
    using d(1) by (auto simp: runtimeDescriptor_def Let_def split: if_splits)
  have name: "askedName w runtime tool = (case tool of None \<Rightarrow> runtime | Some t \<Rightarrow> if descAccess n = Interact then runtime else t)"
    by (auto simp: askedName_def n split: option.split)
  show ?thesis
  proof
    assume "\<exists>c \<in> set cs. matches (interactSelector c) d"
    then obtain c where c: "c \<in> set cs" "candidateRuntime c = runtime" "candidateTool c \<noteq> None \<longrightarrow> tool = candidateTool c"
      using f by (auto simp: interactSelector_matches)
    then have "candidateName c = askedName w runtime tool"
      using unreceived_member [OF cs, of c] n unfolding name by (auto split: if_splits option.splits)
    then show "\<not> receives owner (askedName w runtime tool)" using unreceived_member [OF cs, of c] c(1) by simp
  next
    assume no: "\<not> receives owner (askedName w runtime tool)"
    define c where "c = (if descAccess n = Interact \<or> tool = None
      then \<lparr>candidateRuntime = runtime, candidateTool = None, candidateName = runtime\<rparr>
      else \<lparr>candidateRuntime = runtime, candidateTool = tool, candidateName = the tool\<rparr>)"
    have "tool = None \<Longrightarrow> n = d" using n d(1) by simp
    then have "c \<in> set cs"
      unfolding unreceived_member [OF cs] using no [unfolded name] n d avail tool
      by (cases tool) (auto simp: c_def intro!: bexI [OF _ avail])
    moreover have "matches (interactSelector c) d" using f d(2) by (auto simp: interactSelector_matches c_def)
    ultimately show "\<exists>c \<in> set cs. matches (interactSelector c) d" by blast
  qed
qed

text \<open>C26. Only an owner who attends and declares it is asked: an execution that would interact is admitted in a session
exactly when the stored rings allow every demand it makes and the session's owner is present and receives the tool, or
the runtime when the whole runtime interacts.\<close>

theorem interaction_needs_an_owner:
  assumes "denial w stored writer resolveResource (Some owner) (Execution runtime target) = Inr r"
    and "descriptors w writer resolveResource (Execution runtime target) = Inr (d # ds)" "descAccess d = Interact"
    and "runtime \<in> set (runtimesOf w)"
  shows "r = None \<longleftrightarrow> (\<forall>e \<in> set (d # ds). allowsAcross (map snd stored) e)
    \<and> interactive owner \<and> askedName w runtime (descTool d) \<in> set (ownerTools owner)"
proof -
  obtain ls where ls: "layers w stored (Some owner) = Inr ls" "r = firstDenial ls (d # ds)"
    using assms(1-3) by (auto simp: denial_def andThen_Inr_iff)
  obtain tool where tool: "runtimeDescriptor w runtime tool = Inr d" "\<forall>e \<in> set ds. descRuntime e = None"
    "case tool of None \<Rightarrow> True | Some t \<Rightarrow> t \<in> toolTarget ` set (orEmpty (toolsOf w runtime))"
    using executionDescriptors_head assms(2) by fastforce
  obtain cs where cs: "unreceived w owner = Inr cs" using ls(1) by (auto simp: layers_def andThen_Inr_iff)
  have layer: "allowsAcross (map snd ls) e \<longleftrightarrow> allowsAcross (map snd stored) e \<and> (\<forall>c \<in> set cs. \<not> matches (interactSelector c) e)" for e
    by (rule owner_layer [OF ls(1), of e]) (use cs in simp)
  have "\<not> matches (interactSelector c) e" if "e \<in> set ds" for c e
    using tool(2) that by (simp add: interactSelector_matches)
  then have "r = None \<longleftrightarrow> (\<forall>e \<in> set (d # ds). allowsAcross (map snd stored) e) \<and> (\<forall>c \<in> set cs. \<not> matches (interactSelector c) d)"
    unfolding ls(2) firstDenial_None layer by auto
  moreover have "descTool d = tool" using runtimeDescriptor_fields [OF tool(1)] by simp
  ultimately show ?thesis
    using owner_ring [OF cs tool(1) assms(3,4) tool(3)] by (auto simp: receives_def)
qed

fun opOf :: "Statement \<Rightarrow> CoreOp option" where
  "opOf (Execution runtime target) = None"
| "opOf (Find t) = Some OpFind" | "opOf (Read t) = Some OpRead" | "opOf (Edit t) = Some OpEdit"
| "opOf (Copy source destination) = Some OpCopy" | "opOf (Move source destination) = Some OpMove"
| "opOf (Work t) = Some OpWork" | "opOf (Fork t) = Some OpFork" | "opOf (Bare t) = Some OpBare"
| "opOf (Kill t) = Some OpKill" | "opOf (Send t) = Some OpSend" | "opOf Note = Some OpNote" | "opOf Todo = Some OpTodo"
| "opOf Wait = Some OpWait" | "opOf Done = Some OpDone" | "opOf Fail = Some OpFail"

text \<open>What dispatch requires of the resources beside the policies: writes go to schemes the model may write, and
sessions are what is worked with or forked.\<close>

definition writes :: "Registries \<Rightarrow> ParsedPath option \<Rightarrow> bool" where
  "writes w t = (case schemeNameOf t of None \<Rightarrow> False | Some s \<Rightarrow> modelWrites w s)"

fun servable :: "Registries \<Rightarrow> Statement \<Rightarrow> bool" where
  "servable w (Edit t) \<longleftrightarrow> writes w t"
| "servable w (Copy source destination) \<longleftrightarrow> writes w destination"
| "servable w (Move source destination) \<longleftrightarrow> writes w source \<and> writes w destination"
| "servable w (Work t) \<longleftrightarrow> schemeNameOf t = Some (js ''session'')"
| "servable w (Fork t) \<longleftrightarrow> schemeNameOf t = Some (js ''session'')"
| "servable w _ \<longleftrightarrow> True"

lemma describe_model:
  "describe w ModelWriter None operation access target =
     (case schemeNameOf target of None \<Rightarrow> None
      | Some s \<Rightarrow> if hasScheme w s then Some [schemeDescriptor w operation access s] else None)"
  by (auto simp: describe_def Let_def split: option.splits prod.splits bool.splits)

lemma one_demand:
  assumes "demands [describe w ModelWriter None operation access target] \<noteq> []"
  obtains s where "schemeNameOf target = Some s" "hasScheme w s"
    "demands [describe w ModelWriter None operation access target] = [schemeDescriptor w operation access s]"
  using assms by (auto simp: demands_def describe_model orEmpty_def split: option.splits if_splits)

lemma composed_demand:
  assumes "composedDemands items \<noteq> []" "describe w ModelWriter None operation access target \<in> set items"
  obtains s where "schemeNameOf target = Some s" "hasScheme w s"
    "schemeDescriptor w operation access s \<in> set (composedDemands items)"
proof -
  have all: "list_all (\<lambda>i. i \<noteq> None) items" using assms(1) by (auto simp: composedDemands_def split: if_splits)
  then obtain ds where ds: "describe w ModelWriter None operation access target = Some ds"
    using assms(2) by (auto simp: list_all_iff)
  then obtain s where s: "schemeNameOf target = Some s" "hasScheme w s" "ds = [schemeDescriptor w operation access s]"
    by (auto simp: describe_model split: option.splits if_splits)
  have "set ds \<subseteq> set (composedDemands items)"
    using all assms(2) unfolding ds by (force simp: composedDemands_def demands_def orEmpty_def)
  then show thesis using that s by simp
qed

text \<open>What is not offered would be refused: when the list of operations leaves one out for the model, then no statement
of that operation on resources that serve it is admitted, unless it reaches no scheme and demands nothing.\<close>

lemma unoffered_operations_are_refused:
  assumes "\<not> allowsCoreOperationAcross w (map snd stored) operation" "opOf st = Some operation"
    and "\<forall>s. hasScheme w s \<longrightarrow> s \<in> set (schemeList w)" "servable w st"
    and "descriptors w ModelWriter None st = Inr ds" "ds \<noteq> []"
    and "denial w stored ModelWriter None session st = Inr r"
  shows "r \<noteq> None"
proof
  assume "r = None"
  obtain ls where ls: "layers w stored (if list_ex (\<lambda>d. descAccess d = Interact) ds then session else None) = Inr ls"
    "r = firstDenial ls ds" using assms(5,7) by (auto simp: denial_def andThen_Inr_iff)
  have "set stored \<subseteq> set ls" using ls(1) by (auto simp: layers_def andThen_Inr_iff split: option.splits if_splits)
  moreover have "\<forall>d \<in> set ds. allowsAcross (map snd ls) d" using \<open>r = None\<close> ls(2) by (simp add: firstDenial_None)
  ultimately have ok: "\<forall>d \<in> set ds. allowsAcross (map snd stored) d" by (auto simp: allowsAcross_layers)
  note offered = allowsCoreOperationAcross_def Let_def list_ex_iff writes_def
  have "allowsCoreOperationAcross w (map snd stored) operation"
  proof (cases st)
    case (Find t)
    then have e: "ds = demands [describe w ModelWriter None (js ''find'') Observe t]" using assms(5) by simp
    obtain s where "schemeNameOf t = Some s" "hasScheme w s" "schemeDescriptor w (js ''find'') Observe s \<in> set ds"
      by (rule one_demand [of w "js ''find''" Observe t]) (use e assms(6) in auto)
    then show ?thesis using Find ok assms(2,3) by (auto simp: offered)
  next
    case (Read t)
    then have e: "ds = demands [describe w ModelWriter None (js ''read'') Observe t]" using assms(5) by simp
    obtain s where "schemeNameOf t = Some s" "hasScheme w s" "schemeDescriptor w (js ''read'') Observe s \<in> set ds"
      by (rule one_demand [of w "js ''read''" Observe t]) (use e assms(6) in auto)
    then show ?thesis using Read ok assms(2,3) by (auto simp: offered)
  next
    case (Edit t)
    then have e: "ds = demands [describe w ModelWriter None (js ''edit'') Mutate t]" using assms(5) by simp
    obtain s where "schemeNameOf t = Some s" "hasScheme w s" "schemeDescriptor w (js ''edit'') Mutate s \<in> set ds"
      by (rule one_demand [of w "js ''edit''" Mutate t]) (use e assms(6) in auto)
    then show ?thesis using Edit ok assms(2,3,4) by (auto simp: offered)
  next
    case (Work t)
    then have e: "ds = demands [describe w ModelWriter None (js ''work'') Control t]" using assms(5) by simp
    obtain s where "schemeNameOf t = Some s" "hasScheme w s" "schemeDescriptor w (js ''work'') Control s \<in> set ds"
      by (rule one_demand [of w "js ''work''" Control t]) (use e assms(6) in auto)
    then show ?thesis using Work ok assms(2,4) by (auto simp: offered)
  next
    case (Fork t)
    then have e: "ds = demands [describe w ModelWriter None (js ''fork'') Control t]" using assms(5) by simp
    obtain s where "schemeNameOf t = Some s" "hasScheme w s" "schemeDescriptor w (js ''fork'') Control s \<in> set ds"
      by (rule one_demand [of w "js ''fork''" Control t]) (use e assms(6) in auto)
    then show ?thesis using Fork ok assms(2,4) by (auto simp: offered)
  next
    case (Copy source destination)
    let ?items = "[describe w ModelWriter None (js ''copy'') Observe source,
      describe w ModelWriter None (js ''copy'') Mutate destination]"
    have ds: "ds = composedDemands ?items" using Copy assms(5) by simp
    obtain s where s: "hasScheme w s" "schemeDescriptor w (js ''copy'') Observe s \<in> set ds"
      by (rule composed_demand [of ?items w "js ''copy''" Observe source]) (use ds assms(6) in auto)
    obtain d where d: "schemeNameOf destination = Some d" "hasScheme w d" "schemeDescriptor w (js ''copy'') Mutate d \<in> set ds"
      by (rule composed_demand [of ?items w "js ''copy''" Mutate destination]) (use ds assms(6) in auto)
    show ?thesis using Copy ok assms(2,3,4) s d by (auto simp: offered)
  next
    case (Move source destination)
    let ?items = "[describe w ModelWriter None (js ''move'') Observe source,
      describe w ModelWriter None (js ''move'') Mutate source,
      describe w ModelWriter None (js ''move'') Mutate destination]"
    have ds: "ds = composedDemands ?items" using Move assms(5) by simp
    obtain s where s: "schemeNameOf source = Some s" "hasScheme w s" "schemeDescriptor w (js ''move'') Observe s \<in> set ds"
      by (rule composed_demand [of ?items w "js ''move''" Observe source]) (use ds assms(6) in auto)
    have m: "schemeDescriptor w (js ''move'') Mutate s \<in> set ds"
      by (rule composed_demand [of ?items w "js ''move''" Mutate source]) (use ds assms(6) s(1) in auto)
    obtain d where d: "schemeNameOf destination = Some d" "hasScheme w d" "schemeDescriptor w (js ''move'') Mutate d \<in> set ds"
      by (rule composed_demand [of ?items w "js ''move''" Mutate destination]) (use ds assms(6) in auto)
    show ?thesis using Move ok assms(2,3,4) s m d by (auto simp: offered)
  next
    case (Bare t)
    then have "bareDescriptor \<in> set ds" using assms(5) by (auto simp: demands_def orEmpty_def)
    then show ?thesis using Bare ok assms(2) by (auto simp: offered)
  qed (use assms(2) in \<open>auto simp: allowsCoreOperationAcross_def\<close>)
  then show False using assms(1) by simp
qed

section \<open>A workspace with a question tool\<close>

definition openPolicy :: CapabilityPolicy where
  "openPolicy = \<lparr>allow = None, only = None, deny = None\<rparr>"

definition exampleWorld :: Registries where
  "exampleWorld = \<lparr>lowerCase = (\<lambda>s. s), encodeURIComponent = (\<lambda>s. s),
     handlerOf = [js ''file'' \<mapsto> \<lparr>hasFind = True, hasEditBatch = True, hasSend = False, hasKill = False,
        providesRepresentation = False\<rparr>],
     manifestFor = [js ''ask'' \<mapsto> \<lparr>category = ControlScheme, writableBy = [], modelVisible = True,
        manifestTraits = Some [js ''interaction'']\<rparr>],
     schemeList = [js ''file''],
     executors = Some \<lparr>entryOf = [js ''ask'' \<mapsto> \<lparr>available = True, invocationTarget = None, resourcesPath = None\<rparr>],
       toolRegistry = Map.empty, availableRuntimes = [js ''ask'']\<rparr>\<rparr>"

definition askDescriptor :: CapabilityDescriptor where
  "askDescriptor = \<lparr>descOperation = js ''ask'', descScheme = Some (js ''exec''), descRuntime = Some (js ''ask''), descTool = None,
     descAccess = Interact, descTraits = [js ''interaction'']\<rparr>"

lemma ask_descriptors: "descriptors exampleWorld ModelWriter None (Execution (js ''ask'') None) = Inr [askDescriptor]"
  by code_simp

lemma ask_denial:
  "denial exampleWorld (policyLayers openPolicy openPolicy) ModelWriter None
     (Some \<lparr>ownerTools = [js ''ask''], interactive = False\<rparr>) (Execution (js ''ask'') None) = Inr (Some (askDescriptor, OwnerScope))"
  by code_simp

lemma interaction_needs_an_owner_witness:
  "\<not> (interactive \<lparr>ownerTools = [js ''ask''], interactive = False\<rparr>)
     \<and> descAccess askDescriptor = Interact
     \<and> (Some (askDescriptor, OwnerScope) = None \<longleftrightarrow> (\<forall>e \<in> set [askDescriptor]. allowsAcross (map snd (policyLayers openPolicy openPolicy)) e)
        \<and> interactive \<lparr>ownerTools = [js ''ask''], interactive = False\<rparr>
        \<and> askedName exampleWorld (js ''ask'') (descTool askDescriptor) \<in> set (ownerTools \<lparr>ownerTools = [js ''ask''], interactive = False\<rparr>))"
proof -
  have a: "descAccess askDescriptor = Interact" by (simp add: askDescriptor_def)
  have b: "js ''ask'' \<in> set (runtimesOf exampleWorld)" by (simp add: exampleWorld_def runtimesOf_def)
  show ?thesis using interaction_needs_an_owner [OF ask_denial ask_descriptors a b] a by simp
qed

lemma denial_names_first_refusal_witness:
  "\<exists>ds ls. descriptors exampleWorld ModelWriter None (Execution (js ''ask'') None) = Inr ds
     \<and> (\<exists>p outer inner. ls = outer @ (OwnerScope, p) # inner \<and> \<not> allows p askDescriptor)"
  using denial_names_first_refusal [OF ask_denial, of "\<lambda>_ _. True"] by blast

definition noFind :: CapabilityPolicy where
  "noFind = \<lparr>allow = None, only = None, deny = Some [\<lparr>selOperation = Some (js ''find''), selScheme = None, selRuntime = None,
     selTool = None, selAccess = None, selTraits = None\<rparr>]\<rparr>"

lemma unoffered_operations_are_refused_witness:
  "\<exists>d scope. denial exampleWorld (policyLayers openPolicy noFind) ModelWriter None None (Find (Some (LocalPath (js ''a'')))) = Inr (Some (d, scope))"
proof -
  let ?st = "Find (Some (LocalPath (js ''a'')))" and ?p = "policyLayers openPolicy noFind"
  have n: "\<not> allowsCoreOperationAcross exampleWorld (map snd ?p) OpFind" by code_simp
  have listed: "\<forall>s. hasScheme exampleWorld s \<longrightarrow> s \<in> set (schemeList exampleWorld)" by (simp add: hasScheme_def exampleWorld_def)
  have ds: "descriptors exampleWorld ModelWriter None ?st = Inr [schemeDescriptor exampleWorld (js ''find'') Observe (js ''file'')]"
    by code_simp
  obtain r where r: "denial exampleWorld ?p ModelWriter None None ?st = Inr r"
    by (auto simp: denial_def ds layers_def)
  have "r \<noteq> None" by (rule unoffered_operations_are_refused [OF n _ listed _ ds _ r]) simp_all
  then show ?thesis using r by auto
qed

end
