(* ===== verification/StrikeRail.thy ===== *)
theory StrikeRail
  imports Operations
begin

text \<open>
  \<^verbatim>\<open>plurnk-core/src/core/StrikeRail.ts\<close>: the private accounting that ends a loop whose turns keep
  failing. A loop's row holds the streak of struck turns, the fingerprints of its latest turns and
  the wait revision they belong to; a turn is struck when an operation failed hard and nothing
  progressed, when the fingerprints repeat, or when the turn did nothing.

  The loop table is a map from loop ids; the history is the list its JSON text stands for. The row
  is read and written in one step, so the error for a row that vanished in between does not occur.
  The SHA-256 of an empty turn's text is the parameter \<open>digest\<close>; the fingerprint of a turn with
  operations is an input of the turn, as it is in \<open>assess\<close>.

  The lemmas show that the detector finds the least period whose block closes the history, that
  the window bounds the history, and that the streak counts the struck turns in a row.
\<close>

section \<open>Evidence\<close>

definition SOFT_FAILURE_STATUSES :: "int list" where
  "SOFT_FAILURE_STATUSES = [404, 409, 416, 425, 501]"

definition EXECUTOR_EVIDENCE_PREFIX :: jsstr where
  "EXECUTOR_EVIDENCE_PREFIX = js ''https://problems.plurnk.xyz/executor/''"

definition UNREADABLE_PATTERN :: jsstr where
  "UNREADABLE_PATTERN = js ''https://problems.plurnk.xyz/grammar/matcher/unreadable-pattern''"

record StrikeOutcome =
  strikeOp :: "jsstr option"
  strikeStatus :: int
  strikeProblem :: "jsstr option"

definition startsWith :: "jsstr \<Rightarrow> jsstr \<Rightarrow> bool" where
  "startsWith s prefix \<longleftrightarrow> take (length prefix) s = prefix"

definition isExecutorEvidence :: "StrikeOutcome \<Rightarrow> bool" where
  "isExecutorEvidence o1 =
     (case strikeProblem o1 of None \<Rightarrow> False | Some t \<Rightarrow> startsWith t EXECUTOR_EVIDENCE_PREFIX)"

definition isUnreadablePattern :: "StrikeOutcome \<Rightarrow> bool" where
  "isUnreadablePattern o1 \<longleftrightarrow> strikeProblem o1 = Some UNREADABLE_PATTERN"

text \<open>A statement by its operation (\<open>None\<close> for an execution) and whether its target is \<open>null\<close>.\<close>

definition isProgress :: "jsstr option \<Rightarrow> bool \<Rightarrow> int \<Rightarrow> bool" where
  "isProgress op targetless status \<longleftrightarrow> status < 400
     \<and> op \<noteq> Some (js ''note'') \<and> op \<noteq> Some (js ''todo'') \<and> op \<noteq> Some (js ''wait'')
     \<and> \<not> ((op = Some (js ''send'') \<or> op = Some (js ''done'') \<or> op = Some (js ''fail'')) \<and> targetless)"

definition fingerprintEmptyTurn :: "(jsstr \<Rightarrow> jsstr) \<Rightarrow> jsstr \<Rightarrow> jsstr" where
  "fingerprintEmptyTurn digest body = digest (js ''empty:'' @ trim body)"

section \<open>The cycle detector\<close>

text \<open>\<open>xs.slice(-n)\<close>: all of it for \<open>n = 0\<close>.\<close>

definition sliceTail :: "'a list \<Rightarrow> nat \<Rightarrow> 'a list" where
  "sliceTail xs n = (if n = 0 then xs else drop (length xs - n) xs)"

definition repeats :: "'a list \<Rightarrow> nat \<Rightarrow> nat \<Rightarrow> bool" where
  "repeats tail k minCycles =
     (let cycle = take k tail
      in list_all (\<lambda>rep. list_all (\<lambda>j. atIndex tail (rep * k + j) = atIndex cycle j) [0..<k])
           [0..<minCycles])"

fun detectFrom :: "nat \<Rightarrow> 'a list \<Rightarrow> nat \<Rightarrow> nat \<Rightarrow> (nat \<times> nat) option" where
  "detectFrom k history minCycles 0 = None"
| "detectFrom k history minCycles (Suc n) =
     (let needed = k * minCycles
      in if length history < needed then detectFrom (Suc k) history minCycles n
         else if repeats (sliceTail history needed) k minCycles then Some (k, minCycles)
         else detectFrom (Suc k) history minCycles n)"

text \<open>The period and the number of cycles, for \<open>k\<close> from one to \<open>maxCyclePeriod\<close>.\<close>

definition detectCycle :: "'a list \<Rightarrow> nat \<Rightarrow> nat \<Rightarrow> (nat \<times> nat) option" where
  "detectCycle history minCycles maxCyclePeriod = detectFrom 1 history minCycles maxCyclePeriod"

section \<open>The assessment of a turn\<close>

record RailState =
  strikeStreak :: nat
  cycleHistory :: "jsstr list"
  cycleWaitRevision :: nat

datatype StrikeSource = OutputAllowance | Repetition | OperationFailure | NoOperation

record Turn =
  waitRevision :: nat
  fingerprint :: jsstr
  outcomes :: "StrikeOutcome list"
  progressed :: bool
  emptyTurn :: bool
  cut :: bool
  minCycles :: nat
  maxCyclePeriod :: nat
  maxStrikes :: nat

record Assessment =
  cycleDetected :: bool
  thresholdCrossed :: bool
  crossedBy :: "StrikeSource option"

datatype RailError = LoopNotFound nat

definition hardFailure :: "StrikeOutcome \<Rightarrow> bool" where
  "hardFailure o1 \<longleftrightarrow> \<not> isExecutionOp (strikeOp o1) \<and> 400 \<le> strikeStatus o1
     \<and> strikeStatus o1 \<notin> set SOFT_FAILURE_STATUSES
     \<and> \<not> isExecutorEvidence o1 \<and> \<not> isUnreadablePattern o1"

definition nextHistory :: "RailState \<Rightarrow> Turn \<Rightarrow> jsstr list" where
  "nextHistory s t =
     (let kept = (if \<not> cut t \<and> cycleWaitRevision s = waitRevision t then cycleHistory s else []);
          history = (if \<not> cut t then kept @ [fingerprint t] else kept);
          window = minCycles t * maxCyclePeriod t
      in if window < length history then drop (length history - window) history else history)"

definition struckBy :: "RailState \<Rightarrow> Turn \<Rightarrow> bool" where
  "struckBy s t \<longleftrightarrow> (\<not> progressed t \<and> list_ex hardFailure (outcomes t))
     \<or> detectCycle (nextHistory s t) (minCycles t) (maxCyclePeriod t) \<noteq> None
     \<or> emptyTurn t"

definition assessTurn :: "RailState \<Rightarrow> Turn \<Rightarrow> RailState \<times> Assessment" where
  "assessTurn s t =
     (let history = nextHistory s t;
          cycle = detectCycle history (minCycles t) (maxCyclePeriod t);
          struck = struckBy s t;
          streak = (if struck then strikeStreak s + 1 else 0);
          source = (if \<not> struck then None
                    else if cut t then Some OutputAllowance
                    else if cycle \<noteq> None then Some Repetition
                    else if emptyTurn t then Some NoOperation
                    else Some OperationFailure)
      in (\<lparr>strikeStreak = streak, cycleHistory = history, cycleWaitRevision = waitRevision t\<rparr>,
          \<lparr>cycleDetected = cycle \<noteq> None, thresholdCrossed = struck \<and> maxStrikes t \<le> streak,
           crossedBy = source\<rparr>))"

definition railStreak :: "(nat \<rightharpoonup> RailState) \<Rightarrow> nat \<Rightarrow> RailError + nat" where
  "railStreak loops loopId =
     (case loops loopId of None \<Rightarrow> Inl (LoopNotFound loopId) | Some s \<Rightarrow> Inr (strikeStreak s))"

definition assess ::
  "(nat \<rightharpoonup> RailState) \<Rightarrow> nat \<Rightarrow> Turn \<Rightarrow> RailError + ((nat \<rightharpoonup> RailState) \<times> Assessment)" where
  "assess loops loopId t =
     (case loops loopId of
        None \<Rightarrow> Inl (LoopNotFound loopId)
      | Some s \<Rightarrow> let (s', result) = assessTurn s t in Inr (loops(loopId \<mapsto> s'), result))"

section \<open>The detector finds the least closing period\<close>

text \<open>A history closes with \<open>m\<close> copies of a block of length \<open>k\<close>.\<close>

definition closesWith :: "'a list \<Rightarrow> nat \<Rightarrow> nat \<Rightarrow> bool" where
  "closesWith history k m \<longleftrightarrow>
     (\<exists>before block. length block = k \<and> history = before @ concat (replicate m block))"

lemma length_concat_replicate: "length (concat (replicate m block)) = m * length block"
  by (induction m) simp_all

lemma nth_concat_replicate:
  "r < m \<Longrightarrow> j < length block \<Longrightarrow> concat (replicate m block) ! (r * length block + j) = block ! j"
proof (induction m arbitrary: r)
  case (Suc m)
  then show ?case by (cases r) (auto simp: nth_append add.assoc)
qed simp

lemma repeats_iff:
  assumes "length tail = k * m" "0 < k" "0 < m"
  shows "repeats tail k m \<longleftrightarrow> tail = concat (replicate m (take k tail))"
proof -
  let ?block = "take k tail"
  have k: "length ?block = k" using assms by simp
  have inside: "r * k + j < k * m" if "r < m" "j < k" for r j
  proof -
    have "r * k + j < Suc r * k" using that by simp
    also have "\<dots> \<le> m * k" using that by (intro mult_le_mono1) simp
    finally show ?thesis by (simp add: mult.commute)
  qed
  have "repeats tail k m \<longleftrightarrow> (\<forall>r < m. \<forall>j < k. tail ! (r * k + j) = ?block ! j)"
    using inside k assms by (auto simp: repeats_def Let_def list_all_iff atIndex_def)
  also have "\<dots> \<longleftrightarrow> (\<forall>i < k * m. tail ! i = concat (replicate m ?block) ! i)"
  proof -
    have "(\<exists>r < m. \<exists>j < k. i = r * k + j) \<longleftrightarrow> i < k * m" for i
    proof
      assume "i < k * m"
      then have "i div k < m" by (simp add: less_mult_imp_div_less mult.commute)
      moreover have "i mod k < k" using assms(2) by simp
      moreover have "i = i div k * k + i mod k" by simp
      ultimately show "\<exists>r < m. \<exists>j < k. i = r * k + j" by metis
    qed (use inside in auto)
    then show ?thesis using nth_concat_replicate [of _ m _ ?block] k by metis
  qed
  also have "\<dots> \<longleftrightarrow> tail = concat (replicate m ?block)"
    using assms(1) length_concat_replicate [of m ?block] k
    by (auto simp: list_eq_iff_nth_eq mult.commute)
  finally show ?thesis .
qed

lemma closesWith_iff:
  assumes "0 < k" "0 < m"
  shows "closesWith history k m
    \<longleftrightarrow> k * m \<le> length history \<and> repeats (sliceTail history (k * m)) k m"
proof
  assume "closesWith history k m"
  then obtain before block where b: "length block = k" "history = before @ concat (replicate m block)"
    by (auto simp: closesWith_def)
  then have len: "length (concat (replicate m block)) = k * m"
    by (simp add: length_concat_replicate mult.commute)
  then have tail: "sliceTail history (k * m) = concat (replicate m block)"
    using b(2) assms by (simp add: sliceTail_def)
  have "take k (concat (replicate m block)) = block"
    using assms b(1) by (cases m) auto
  then have "repeats (sliceTail history (k * m)) k m"
    using repeats_iff [of "concat (replicate m block)" k m] len assms unfolding tail by simp
  moreover have "k * m \<le> length history" using b(2) len by simp
  ultimately show "k * m \<le> length history \<and> repeats (sliceTail history (k * m)) k m" by simp
next
  let ?tail = "sliceTail history (k * m)"
  assume *: "k * m \<le> length history \<and> repeats ?tail k m"
  then have len: "length ?tail = k * m" using assms by (simp add: sliceTail_def)
  then have "?tail = concat (replicate m (take k ?tail))"
    using repeats_iff [OF len assms] * by blast
  moreover have "history = take (length history - k * m) history @ ?tail"
    using assms by (simp add: sliceTail_def)
  moreover have "length (take k ?tail) = k" using len assms by simp
  ultimately show "closesWith history k m" unfolding closesWith_def by metis
qed

lemma detectFrom_Some:
  assumes "0 < k" "0 < m"
  shows "detectFrom k history m n = Some r \<longleftrightarrow>
    (\<exists>p. r = (p, m) \<and> k \<le> p \<and> p < k + n \<and> closesWith history p m
       \<and> (\<forall>q. k \<le> q \<and> q < p \<longrightarrow> \<not> closesWith history q m))"
  using assms(1)
proof (induction n arbitrary: k)
  case (Suc n)
  have step: "detectFrom k history m (Suc n)
      = (if closesWith history k m then Some (k, m) else detectFrom (Suc k) history m n)"
    using closesWith_iff [OF Suc.prems assms(2), of history] by (auto simp: Let_def)
  show ?case
  proof (cases "closesWith history k m")
    case True
    then show ?thesis unfolding step using Suc.prems by (auto intro: ccontr dest: leI)
  next
    case False
    have "(\<exists>p. r = (p, m) \<and> Suc k \<le> p \<and> p < Suc k + n \<and> closesWith history p m
        \<and> (\<forall>q. Suc k \<le> q \<and> q < p \<longrightarrow> \<not> closesWith history q m))
      \<longleftrightarrow> (\<exists>p. r = (p, m) \<and> k \<le> p \<and> p < k + Suc n \<and> closesWith history p m
        \<and> (\<forall>q. k \<le> q \<and> q < p \<longrightarrow> \<not> closesWith history q m))"
      using False by (metis Suc_le_eq add_Suc_right add_Suc le_eq_less_or_eq)
    then show ?thesis unfolding step using False Suc.IH [of "Suc k"] by simp
  qed
qed simp

lemma closesWith_length: "closesWith history k m \<Longrightarrow> k * m \<le> length history"
  by (auto simp: closesWith_def length_concat_replicate mult.commute)

section \<open>What an assessment keeps\<close>

lemma nextHistory_window: "length (nextHistory s t) \<le> minCycles t * maxCyclePeriod t"
  by (simp add: nextHistory_def Let_def)

lemma nextHistory_cut: "cut t \<Longrightarrow> nextHistory s t = []"
  by (simp add: nextHistory_def Let_def)

text \<open>Several turns: the state after each, and whether it struck.\<close>

primrec struckTurns :: "RailState \<Rightarrow> Turn list \<Rightarrow> bool list" where
  "struckTurns s [] = []"
| "struckTurns s (t # ts) = struckBy s t # struckTurns (fst (assessTurn s t)) ts"

definition railStep :: "RailState \<Rightarrow> Turn \<Rightarrow> RailState" where
  "railStep s t = fst (assessTurn s t)"

text \<open>The turns at the end of a run that were all struck.\<close>

definition closingStrikes :: "bool list \<Rightarrow> nat" where
  "closingStrikes bs = length (takeWhile id (rev bs))"

lemma closingStrikes_snoc [simp]:
  "closingStrikes (bs @ [b]) = (if b then closingStrikes bs + 1 else 0)"
  by (simp add: closingStrikes_def)

lemma struckTurns_snoc:
  "struckTurns s (ts @ [t]) = struckTurns s ts @ [struckBy (runFrom railStep s ts) t]"
  by (induction ts arbitrary: s) (simp_all add: railStep_def)

lemma railStep_streak:
  "strikeStreak (railStep s t) = (if struckBy s t then strikeStreak s + 1 else 0)"
  by (simp add: railStep_def assessTurn_def Let_def)

definition freshRail :: RailState where
  "freshRail = \<lparr>strikeStreak = 0, cycleHistory = [], cycleWaitRevision = 0\<rparr>"

lemma streak_counts: "strikeStreak (runFrom railStep freshRail ts) = closingStrikes (struckTurns freshRail ts)"
proof (induction ts rule: rev_induct)
  case Nil
  show ?case by (simp add: freshRail_def closingStrikes_def)
next
  case (snoc t ts)
  then show ?case by (simp add: struckTurns_snoc railStep_streak)
qed

text \<open>C9. The detector reports a cycle exactly when the history closes with \<open>minCycles\<close> copies of a
  block no longer than the longest period looked for, and it reports the least such period.\<close>

theorem detectCycle_least:
  assumes "0 < minC"
  shows "(detectCycle history minC maxP = Some (p, c) \<longleftrightarrow>
      c = minC \<and> 1 \<le> p \<and> p \<le> maxP \<and> closesWith history p minC
      \<and> (\<forall>q. 1 \<le> q \<and> q < p \<longrightarrow> \<not> closesWith history q minC))
    \<and> (detectCycle history minC maxP = None \<longleftrightarrow>
        (\<forall>q. 1 \<le> q \<and> q \<le> maxP \<longrightarrow> \<not> closesWith history q minC))"
proof -
  note found = detectFrom_Some [OF zero_less_one assms, of history maxP]
  have "detectCycle history minC maxP \<noteq> None"
    if q: "1 \<le> q" "q \<le> maxP" "closesWith history q minC" for q
  proof -
    define p where "p = (LEAST q. 1 \<le> q \<and> closesWith history q minC)"
    have "1 \<le> p \<and> closesWith history p minC"
      unfolding p_def by (rule LeastI [of _ q]) (use q in simp)
    moreover have "p \<le> q" unfolding p_def by (rule Least_le) (use q in simp)
    moreover have "\<forall>q. 1 \<le> q \<and> q < p \<longrightarrow> \<not> closesWith history q minC"
      unfolding p_def using not_less_Least by blast
    ultimately have "detectFrom 1 history minC maxP = Some (p, minC)"
      unfolding found using q(2) by (intro exI [of _ p]) simp
    then show ?thesis by (simp add: detectCycle_def)
  qed
  moreover have "\<not> closesWith history q minC"
    if "detectCycle history minC maxP = None" "1 \<le> q" "q \<le> maxP" for q
    using calculation that by blast
  moreover have "\<exists>q. 1 \<le> q \<and> q \<le> maxP \<and> closesWith history q minC"
    if some: "detectCycle history minC maxP = Some r" for r
  proof -
    from some have "detectFrom 1 history minC maxP = Some r" by (simp only: detectCycle_def)
    then obtain p where "1 \<le> p" "p < 1 + maxP" "closesWith history p minC"
      unfolding found by blast
    then show ?thesis by (intro exI [of _ p]) simp
  qed
  moreover have "detectCycle history minC maxP = Some (p, c) \<longleftrightarrow>
      c = minC \<and> 1 \<le> p \<and> p \<le> maxP \<and> closesWith history p minC
      \<and> (\<forall>q. 1 \<le> q \<and> q < p \<longrightarrow> \<not> closesWith history q minC)"
    unfolding detectCycle_def found by (auto simp: less_Suc_eq_le)
  ultimately show ?thesis by (metis not_None_eq)
qed

theorem detectCycle_least_witness:
  "closesWith [1, 2, 3, 2, 3 :: nat] 2 2"
proof -
  have "detectCycle [1, 2, 3, 2, 3 :: nat] 2 3 = Some (2, 2)" by code_simp
  then show ?thesis
    using detectCycle_least [of 2 "[1, 2, 3, 2, 3 :: nat]" 3 2 2] by simp
qed

text \<open>The streak counts struck turns in a row, so a loop is ended only after at least
  \<open>maxStrikes\<close> consecutive struck turns, the last of them this one; and a turn the output allowance
  cut short is never a repetition.\<close>

lemma threshold_needs_consecutive_strikes:
  assumes "assess [loopId \<mapsto> runFrom railStep freshRail ts] loopId t = Inr (loops, result)"
  shows "(thresholdCrossed result \<longleftrightarrow> struckBy (runFrom railStep freshRail ts) t
       \<and> maxStrikes t \<le> closingStrikes (struckTurns freshRail (ts @ [t])))
    \<and> (crossedBy result = None \<longleftrightarrow> \<not> struckBy (runFrom railStep freshRail ts) t)
    \<and> (cut t \<and> 0 < minCycles t \<longrightarrow> \<not> cycleDetected result)
    \<and> loops loopId = Some (runFrom railStep freshRail (ts @ [t]))"
proof -
  let ?s = "runFrom railStep freshRail ts"
  have r: "result = snd (assessTurn ?s t)" "loops = [loopId \<mapsto> railStep ?s t]"
    using assms by (auto simp: assess_def railStep_def split: prod.splits)
  have "detectCycle ([] :: jsstr list) (minCycles t) (maxCyclePeriod t) = None" if "0 < minCycles t"
  proof -
    have "detectFrom (Suc k) ([] :: jsstr list) (minCycles t) n = None" for k n :: nat
      using that by (induction n arbitrary: k) (simp_all add: Let_def)
    then show ?thesis by (simp add: detectCycle_def)
  qed
  then have "cut t \<Longrightarrow> 0 < minCycles t \<Longrightarrow> \<not> cycleDetected result"
    using r by (simp add: assessTurn_def Let_def nextHistory_cut)
  moreover have "thresholdCrossed result
      \<longleftrightarrow> struckBy ?s t \<and> maxStrikes t \<le> closingStrikes (struckTurns freshRail (ts @ [t]))"
    using r streak_counts [of ts] by (auto simp: assessTurn_def Let_def struckTurns_snoc)
  moreover have "crossedBy result = None \<longleftrightarrow> \<not> struckBy ?s t"
    using r by (simp add: assessTurn_def Let_def)
  ultimately show ?thesis using r(2) by simp
qed

definition idleTurn :: Turn where
  "idleTurn = \<lparr>waitRevision = 0, fingerprint = [97], outcomes = [], progressed = False, emptyTurn = True,
     cut = False, minCycles = 3, maxCyclePeriod = 4, maxStrikes = 2\<rparr>"

lemma threshold_needs_consecutive_strikes_witness:
  "2 \<le> closingStrikes (struckTurns freshRail ([idleTurn] @ [idleTurn]))"
proof -
  let ?r = "assess [7 \<mapsto> runFrom railStep freshRail [idleTurn]] 7 idleTurn"
  have "thresholdCrossed (snd (assessTurn (runFrom railStep freshRail [idleTurn]) idleTurn))"
    by code_simp
  moreover have "?r = Inr ([7 \<mapsto> railStep (runFrom railStep freshRail [idleTurn]) idleTurn],
      snd (assessTurn (runFrom railStep freshRail [idleTurn]) idleTurn))"
    by (simp add: assess_def railStep_def split: prod.splits)
  note threshold_needs_consecutive_strikes [OF this]
  ultimately show ?thesis by (simp add: idleTurn_def)
qed

section \<open>The rail as a machine\<close>

definition bounded :: "nat \<Rightarrow> RailState \<Rightarrow> bool" where
  "bounded window s \<longleftrightarrow> length (cycleHistory s) \<le> window"

definition railStepWithin :: "nat \<Rightarrow> RailState \<Rightarrow> Turn \<Rightarrow> RailState" where
  "railStepWithin window s t =
     (if minCycles t * maxCyclePeriod t \<le> window then railStep s t else s)"

interpretation rail: machine "railStepWithin window" freshRail "bounded window" for window
proof
  show "bounded window freshRail" by (simp add: bounded_def freshRail_def)
  show "bounded window s \<Longrightarrow> bounded window (railStepWithin window s t)" for s t
    using nextHistory_window [of s t]
    by (auto simp: bounded_def railStepWithin_def railStep_def assessTurn_def Let_def)
qed

end
