(* ===== verification/ExecScheduler.thy ===== *)
theory ExecScheduler
  imports Prelude
begin

text \<open>
  \<^verbatim>\<open>plurnk-core/src/schemes/ExecScheduler.ts\<close>: the admission of executions, one first-in first-out
  queue per workspace with a bounded number of active executions.

  Every admission is a ticket, the identity of its waiter and of its release closure. The state
  holds the workspaces, the aborted signals, the release closures that have not been called
  (\<open>held\<close>, a ticket with its workspace), and what each ticket's \<open>ready\<close> promise resolved to. An
  event of the machine is an admission, the abort of a signal, which runs the listeners of its
  waiters, or the call of a release closure. A state object that left the map is empty, so no
  closure that still acts refers to it: a workspace is looked up by its id throughout.

  The invariant says that no workspace runs more than its limit, that nobody waits while a slot is
  free, that an active slot is one closure not yet called, and that exactly the queued tickets are
  unresolved: no admission is lost, none is served twice, whatever the order of the events.
\<close>

record Waiter =
  ticket :: nat
  signal :: nat

record WorkspaceState =
  active :: nat
  queue :: "Waiter list"

datatype Ready = Waiting | Slot | NoSlot

record ExecState =
  concurrency :: int
  workspaces :: "int \<rightharpoonup> WorkspaceState"
  abortedSignals :: "nat set"
  held :: "(nat \<times> int) list"
  ready :: "nat \<rightharpoonup> Ready"
  nextTicket :: nat

record ExecAdmission =
  queued :: bool
  executionsAhead :: nat
  admittedConcurrency :: int
  admissionTicket :: nat

datatype ExecError = ConcurrencyInvalid int | WorkspaceInvalid int

definition isConcurrency :: "int \<Rightarrow> bool" where
  "isConcurrency value \<longleftrightarrow> value = - 1 \<or> (safeInt value \<and> 1 \<le> value)"

definition newScheduler :: "int \<Rightarrow> ExecError + ExecState" where
  "newScheduler limit =
     (if \<not> isConcurrency limit then Inl (ConcurrencyInvalid limit)
      else Inr \<lparr>concurrency = limit, workspaces = (\<lambda>_. None), abortedSignals = {}, held = [],
                ready = (\<lambda>_. None), nextTicket = 0\<rparr>)"

text \<open>\<open>#forgetEmpty\<close>: the entry the map keeps for a state.\<close>

definition forgetEmpty :: "WorkspaceState \<Rightarrow> WorkspaceState option" where
  "forgetEmpty s = (if active s = 0 \<and> queue s = [] then None else Some s)"

definition stateOf :: "ExecState \<Rightarrow> int \<Rightarrow> WorkspaceState" where
  "stateOf st ws = (case workspaces st ws of Some s \<Rightarrow> s | None \<Rightarrow> \<lparr>active = 0, queue = []\<rparr>)"

definition enqueueWaiter :: "ExecState \<Rightarrow> int \<Rightarrow> nat \<Rightarrow> ExecState" where
  "enqueueWaiter st ws sig =
     (let s = stateOf st ws; t = nextTicket st;
          pushed = queue s @ [\<lparr>ticket = t, signal = sig\<rparr>]
      in if sig \<in> abortedSignals st
         then st\<lparr>workspaces := (workspaces st)(ws := forgetEmpty (s\<lparr>queue := queue s\<rparr>)),
                 ready := (ready st)(t \<mapsto> NoSlot), nextTicket := t + 1\<rparr>
         else st\<lparr>workspaces := (workspaces st)(ws \<mapsto> s\<lparr>queue := pushed\<rparr>),
                 ready := (ready st)(t \<mapsto> Waiting), nextTicket := t + 1\<rparr>)"

definition admit :: "ExecState \<Rightarrow> int \<Rightarrow> nat \<Rightarrow> ExecError + (ExecState \<times> ExecAdmission)" where
  "admit st ws sig =
     (let t = nextTicket st; s = stateOf st ws in
      if \<not> safeInt ws \<or> ws < 1 then Inl (WorkspaceInvalid ws)
      else if concurrency st = - 1
      then Inr (st\<lparr>ready := (ready st)(t \<mapsto> NoSlot), nextTicket := t + 1\<rparr>,
                \<lparr>queued = False, executionsAhead = 0, admittedConcurrency = - 1, admissionTicket = t\<rparr>)
      else if int (active s) < concurrency st
      then Inr (st\<lparr>workspaces := (workspaces st)(ws \<mapsto> s\<lparr>active := active s + 1\<rparr>),
                   held := (t, ws) # held st, ready := (ready st)(t \<mapsto> Slot), nextTicket := t + 1\<rparr>,
                \<lparr>queued = False, executionsAhead = 0, admittedConcurrency = concurrency st,
                 admissionTicket = t\<rparr>)
      else Inr (enqueueWaiter st ws sig,
                \<lparr>queued = True, executionsAhead = active s + length (queue s),
                 admittedConcurrency = concurrency st, admissionTicket = t\<rparr>))"

text \<open>\<open>onAbort\<close> of every waiter of the signal.\<close>

definition abortIn :: "nat \<Rightarrow> WorkspaceState \<Rightarrow> WorkspaceState option" where
  "abortIn sig s =
     (if list_ex (\<lambda>w. signal w = sig) (queue s)
      then forgetEmpty (s\<lparr>queue := filter (\<lambda>w. signal w \<noteq> sig) (queue s)\<rparr>)
      else Some s)"

definition waitsFor :: "ExecState \<Rightarrow> nat \<Rightarrow> nat \<Rightarrow> bool" where
  "waitsFor st sig t \<longleftrightarrow>
     (\<exists>ws s. workspaces st ws = Some s \<and> \<lparr>ticket = t, signal = sig\<rparr> \<in> set (queue s))"

definition abort :: "ExecState \<Rightarrow> nat \<Rightarrow> ExecState" where
  "abort st sig =
     st\<lparr>workspaces := (\<lambda>ws. case workspaces st ws of None \<Rightarrow> None | Some s \<Rightarrow> abortIn sig s),
        abortedSignals := insert sig (abortedSignals st),
        ready := (\<lambda>t. if waitsFor st sig t then Some NoSlot else ready st t)\<rparr>"

text \<open>
  The loop of a release: aborted waiters are resolved without a slot, the first other one gets the
  slot. The result is the waiters skipped, the one served and the rest of the queue.
\<close>

fun handOver :: "nat set \<Rightarrow> Waiter list \<Rightarrow> nat list \<times> Waiter option \<times> Waiter list" where
  "handOver aborted [] = ([], None, [])"
| "handOver aborted (w # q) =
     (if signal w \<in> aborted
      then (case handOver aborted q of (skipped, served, rest) \<Rightarrow> (ticket w # skipped, served, rest))
      else ([], Some w, q))"

definition release :: "ExecState \<Rightarrow> nat \<Rightarrow> ExecState" where
  "release st t =
     (case map_of (held st) t of
        None \<Rightarrow> st
      | Some ws \<Rightarrow>
          let s = stateOf st ws; others = filter (\<lambda>(u, v). u \<noteq> t) (held st) in
          (case handOver (abortedSignals st) (queue s) of (skipped, served, rest) \<Rightarrow>
             let resolved = (\<lambda>u. if u \<in> set skipped then Some NoSlot else ready st u) in
             (case served of
                Some w \<Rightarrow> st\<lparr>workspaces := (workspaces st)(ws \<mapsto> s\<lparr>queue := rest\<rparr>),
                             held := (ticket w, ws) # others,
                             ready := resolved(ticket w \<mapsto> Slot)\<rparr>
              | None \<Rightarrow> st\<lparr>workspaces := (workspaces st)
                               (ws := forgetEmpty (s\<lparr>active := active s - 1, queue := rest\<rparr>)),
                          held := others, ready := resolved\<rparr>)))"

datatype ExecEvent = AdmitEvent int nat | AbortEvent nat | ReleaseEvent nat

definition execStep :: "ExecState \<Rightarrow> ExecEvent \<Rightarrow> ExecState" where
  "execStep st e =
     (case e of
        AdmitEvent ws sig \<Rightarrow> (case admit st ws sig of Inl err \<Rightarrow> st | Inr (st', a) \<Rightarrow> st')
      | AbortEvent sig \<Rightarrow> abort st sig
      | ReleaseEvent t \<Rightarrow> release st t)"

definition idleScheduler :: "int \<Rightarrow> ExecState" where
  "idleScheduler limit =
     \<lparr>concurrency = limit, workspaces = (\<lambda>_. None), abortedSignals = {}, held = [],
      ready = (\<lambda>_. None), nextTicket = 0\<rparr>"

section \<open>The invariant\<close>

definition heldIn :: "ExecState \<Rightarrow> int \<Rightarrow> nat" where
  "heldIn st ws = length (filter (\<lambda>(t, v). v = ws) (held st))"

text \<open>One workspace: its slots are the closures held for it, and nobody waits while one is free.\<close>

definition fair :: "int \<Rightarrow> nat \<Rightarrow> WorkspaceState \<Rightarrow> bool" where
  "fair limit holders s \<longleftrightarrow> active s = holders \<and> int (active s) \<le> limit
     \<and> (queue s \<noteq> [] \<longrightarrow> int (active s) = limit)"

definition waitingIn :: "ExecState \<Rightarrow> nat \<Rightarrow> int \<Rightarrow> bool" where
  "waitingIn st t ws \<longleftrightarrow> (\<exists>w \<in> set (queue (stateOf st ws)). ticket w = t)"

definition execInvariant :: "ExecState \<Rightarrow> bool" where
  "execInvariant st \<longleftrightarrow>
     1 \<le> concurrency st
     \<and> (\<forall>ws. fair (concurrency st) (heldIn st ws) (stateOf st ws))
     \<and> (\<forall>ws s. workspaces st ws = Some s \<longrightarrow> 0 < active s \<or> queue s \<noteq> [])
     \<and> (\<forall>ws. \<forall>w \<in> set (queue (stateOf st ws)). signal w \<notin> abortedSignals st)
     \<and> distinct (map fst (held st))
     \<and> (\<forall>ws. distinct (map ticket (queue (stateOf st ws))))
     \<and> (\<forall>t ws ws'. waitingIn st t ws \<longrightarrow> waitingIn st t ws' \<longrightarrow> ws = ws')
     \<and> (\<forall>t. (ready st t = Some Waiting) = (\<exists>ws. waitingIn st t ws))
     \<and> (\<forall>t. t \<in> fst ` set (held st) \<longrightarrow> ready st t = Some Slot)
     \<and> (\<forall>t. nextTicket st \<le> t \<longrightarrow> ready st t = None)"

lemma stateOf_update:
  "stateOf (st\<lparr>workspaces := (workspaces st)(ws := x), held := h, ready := r\<rparr>) v
     = (if v = ws then (case x of Some s \<Rightarrow> s | None \<Rightarrow> \<lparr>active = 0, queue = []\<rparr>) else stateOf st v)"
  by (simp add: stateOf_def)

lemma forgetEmpty_state:
  "(case forgetEmpty s of Some s' \<Rightarrow> s' | None \<Rightarrow> \<lparr>active = 0, queue = []\<rparr>) = s"
  by (cases s) (simp add: forgetEmpty_def)

lemma forgetEmpty_Some: "forgetEmpty s = Some s' \<Longrightarrow> s' = s \<and> (0 < active s \<or> queue s \<noteq> [])"
  by (auto simp: forgetEmpty_def split: if_splits)


text \<open>The invariant by parts, as introduction and elimination.\<close>

lemma execInvariantD:
  assumes "execInvariant st"
  shows "1 \<le> concurrency st" "active (stateOf st ws) = heldIn st ws"
    "int (active (stateOf st ws)) \<le> concurrency st"
    "queue (stateOf st ws) \<noteq> [] \<Longrightarrow> int (active (stateOf st ws)) = concurrency st"
    "workspaces st ws = Some s \<Longrightarrow> 0 < active s \<or> queue s \<noteq> []"
    "w \<in> set (queue (stateOf st ws)) \<Longrightarrow> signal w \<notin> abortedSignals st"
    "distinct (map fst (held st))" "distinct (map ticket (queue (stateOf st ws)))"
    "waitingIn st t ws \<Longrightarrow> waitingIn st t ws' \<Longrightarrow> ws = ws'"
    "ready st t = Some Waiting \<longleftrightarrow> (\<exists>ws. waitingIn st t ws)"
    "t \<in> fst ` set (held st) \<Longrightarrow> ready st t = Some Slot"
    "nextTicket st \<le> t \<Longrightarrow> ready st t = None"
proof -
  have "1 \<le> concurrency st"
    and f: "\<forall>ws. fair (concurrency st) (heldIn st ws) (stateOf st ws)"
    and e: "\<forall>ws s. workspaces st ws = Some s \<longrightarrow> 0 < active s \<or> queue s \<noteq> []"
    and a: "\<forall>ws. \<forall>w \<in> set (queue (stateOf st ws)). signal w \<notin> abortedSignals st"
    and "distinct (map fst (held st))"
    and q: "\<forall>ws. distinct (map ticket (queue (stateOf st ws)))"
    and w: "\<forall>t ws ws'. waitingIn st t ws \<longrightarrow> waitingIn st t ws' \<longrightarrow> ws = ws'"
    and r: "\<forall>t. (ready st t = Some Waiting) = (\<exists>ws. waitingIn st t ws)"
    and h: "\<forall>t. t \<in> fst ` set (held st) \<longrightarrow> ready st t = Some Slot"
    and n: "\<forall>t. nextTicket st \<le> t \<longrightarrow> ready st t = None"
    using assms unfolding execInvariant_def by - (elim conjE, assumption)+
  then show "1 \<le> concurrency st" "distinct (map fst (held st))" by simp_all
  show "active (stateOf st ws) = heldIn st ws" "int (active (stateOf st ws)) \<le> concurrency st"
    "queue (stateOf st ws) \<noteq> [] \<Longrightarrow> int (active (stateOf st ws)) = concurrency st"
    using spec [OF f, of ws] unfolding fair_def by simp_all
  show "workspaces st ws = Some s \<Longrightarrow> 0 < active s \<or> queue s \<noteq> []" using e by blast
  show "w \<in> set (queue (stateOf st ws)) \<Longrightarrow> signal w \<notin> abortedSignals st" using a by blast
  show "distinct (map ticket (queue (stateOf st ws)))" using q by blast
  show "waitingIn st t ws \<Longrightarrow> waitingIn st t ws' \<Longrightarrow> ws = ws'" using w by blast
  show "ready st t = Some Waiting \<longleftrightarrow> (\<exists>ws. waitingIn st t ws)" using r by blast
  show "t \<in> fst ` set (held st) \<Longrightarrow> ready st t = Some Slot" using h by blast
  show "nextTicket st \<le> t \<Longrightarrow> ready st t = None" using n by blast
qed

text \<open>
  Introduction, for a state given by its lookups: the queue and the active count of each
  workspace, what is held, and what is resolved.
\<close>

lemma execInvariantI:
  assumes "1 \<le> concurrency st" "\<And>ws. fair (concurrency st) (heldIn st ws) (stateOf st ws)"
    "\<And>ws s. workspaces st ws = Some s \<Longrightarrow> 0 < active s \<or> queue s \<noteq> []"
    "\<And>ws w. w \<in> set (queue (stateOf st ws)) \<Longrightarrow> signal w \<notin> abortedSignals st"
    "distinct (map fst (held st))" "\<And>ws. distinct (map ticket (queue (stateOf st ws)))"
    "\<And>t ws ws'. waitingIn st t ws \<Longrightarrow> waitingIn st t ws' \<Longrightarrow> ws = ws'"
    "\<And>t. ready st t = Some Waiting \<longleftrightarrow> (\<exists>ws. waitingIn st t ws)"
    "\<And>t. t \<in> fst ` set (held st) \<Longrightarrow> ready st t = Some Slot"
    "\<And>t. nextTicket st \<le> t \<Longrightarrow> ready st t = None"
  shows "execInvariant st"
  unfolding execInvariant_def
  by (intro conjI allI ballI impI) (rule assms; assumption)+

lemma fresh_ticket:
  assumes "execInvariant st"
  shows "nextTicket st \<notin> fst ` set (held st)" "\<not> waitingIn st (nextTicket st) ws"
proof -
  have n: "ready st (nextTicket st) = None" by (rule execInvariantD(12) [OF assms]) simp
  show "nextTicket st \<notin> fst ` set (held st)" using execInvariantD(11) [OF assms, of "nextTicket st"] n by auto
  show "\<not> waitingIn st (nextTicket st) ws" using execInvariantD(10) [OF assms, of "nextTicket st"] n by auto
qed

lemma waitingIn_cong: "stateOf st ws = stateOf st' ws \<Longrightarrow> waitingIn st t ws = waitingIn st' t ws"
  by (simp add: waitingIn_def)

lemma admit_slot_invariant:
  assumes inv: "execInvariant st" and free: "int (active (stateOf st ws)) < concurrency st"
  shows "execInvariant (st\<lparr>workspaces := (workspaces st)(ws \<mapsto> (stateOf st ws)\<lparr>active := active (stateOf st ws) + 1\<rparr>),
      held := (nextTicket st, ws) # held st, ready := (ready st)(nextTicket st \<mapsto> Slot),
      nextTicket := nextTicket st + 1\<rparr>)" (is "execInvariant ?st")
proof -
  note d = execInvariantD [OF inv]
  have state: "stateOf ?st v = (if v = ws then (stateOf st ws)\<lparr>active := active (stateOf st ws) + 1\<rparr>
      else stateOf st v)" for v
    by (simp add: stateOf_def)
  have held: "heldIn ?st v = (if v = ws then heldIn st v + 1 else heldIn st v)" for v
    by (simp add: heldIn_def)
  have queues: "queue (stateOf ?st v) = queue (stateOf st v)" for v using state [of v] by simp
  have none: "queue (stateOf st ws) = []" using d(4) free by fastforce
  have waiting: "waitingIn ?st t v = waitingIn st t v" for t v
    unfolding waitingIn_def queues ..
  show ?thesis
  proof (rule execInvariantI)
    show "1 \<le> concurrency ?st" using d(1) by simp
    show "fair (concurrency ?st) (heldIn ?st v) (stateOf ?st v)" for v
      unfolding fair_def held state using d(2,3,4) [of v] free none by auto
    show "0 < active s \<or> queue s \<noteq> []" if "workspaces ?st v = Some s" for v s
      using d(5) [of v s] that by (auto split: if_splits)
    show "signal w \<notin> abortedSignals ?st" if "w \<in> set (queue (stateOf ?st v))" for v w
      using d(6) [of w v] that unfolding queues by simp
    show "distinct (map fst (held ?st))" using d(7) fresh_ticket(1) [OF inv] by simp
    show "distinct (map ticket (queue (stateOf ?st v)))" for v unfolding queues by (rule d(8))
    show "v = v'" if "waitingIn ?st t v" "waitingIn ?st t v'" for t v v'
      using that unfolding waiting by (rule d(9))
    show "ready ?st t = Some Waiting \<longleftrightarrow> (\<exists>v. waitingIn ?st t v)" for t
      unfolding waiting using d(10) [of t] fresh_ticket(2) [OF inv] by auto
    show "ready ?st t = Some Slot" if "t \<in> fst ` set (held ?st)" for t
      using d(11) [of t] that by auto
    show "ready ?st t = None" if "nextTicket ?st \<le> t" for t
      using d(12) [of t] that by auto
  qed
qed


text \<open>A state that differs only in what has been resolved and handed out as tickets.\<close>

lemma no_slot_invariant:
  assumes inv: "execInvariant st" and same: "\<And>v. stateOf st' v = stateOf st v" "held st' = held st"
    "concurrency st' = concurrency st" "abortedSignals st' = abortedSignals st"
    "\<And>v s. workspaces st' v = Some s \<Longrightarrow> workspaces st v = Some s"
    and r: "ready st' = (ready st)(nextTicket st \<mapsto> NoSlot)" "nextTicket st' = nextTicket st + 1"
  shows "execInvariant st'"
proof -
  note d = execInvariantD [OF inv]
  have waiting: "waitingIn st' t v = waitingIn st t v" for t v unfolding waitingIn_def same ..
  have held: "heldIn st' v = heldIn st v" for v unfolding heldIn_def same ..
  show ?thesis
  proof (rule execInvariantI)
    show "fair (concurrency st') (heldIn st' v) (stateOf st' v)" for v
      unfolding fair_def held same using d(2,3,4) [of v] by auto
    show "0 < active s \<or> queue s \<noteq> []" if "workspaces st' v = Some s" for v s
      using d(5) [OF same(5) [OF that]] .
    show "signal w \<notin> abortedSignals st'" if "w \<in> set (queue (stateOf st' v))" for v w
      using d(6) [of w v] that unfolding same by simp
    show "v = v'" if "waitingIn st' t v" "waitingIn st' t v'" for t v v'
      using that unfolding waiting by (rule d(9))
    show "ready st' t = Some Waiting \<longleftrightarrow> (\<exists>v. waitingIn st' t v)" for t
      unfolding waiting r using d(10) [of t] fresh_ticket(2) [OF inv] by auto
    show "ready st' t = Some Slot" if "t \<in> fst ` set (held st')" for t
    proof -
      have "t \<noteq> nextTicket st" using that fresh_ticket(1) [OF inv] unfolding same by metis
      then show ?thesis using d(11) [of t] that unfolding r same by simp
    qed
    show "ready st' t = None" if "nextTicket st' \<le> t" for t
      using d(12) [of t] that unfolding r by auto
  qed (unfold same, (rule d)+)
qed

lemma enqueue_invariant:
  assumes inv: "execInvariant st" and busy: "\<not> int (active (stateOf st ws)) < concurrency st"
  shows "execInvariant (enqueueWaiter st ws sig)"
proof (cases "sig \<in> abortedSignals st")
  case True
  have pos: "0 < active (stateOf st ws)" using busy execInvariantD(1) [OF inv] by simp
  then have "workspaces st ws = Some (stateOf st ws)" by (auto simp: stateOf_def split: option.splits)
  then have "enqueueWaiter st ws sig
      = st\<lparr>ready := (ready st)(nextTicket st \<mapsto> NoSlot), nextTicket := nextTicket st + 1\<rparr>"
    using True pos by (simp add: enqueueWaiter_def Let_def forgetEmpty_def map_upd_triv)
  then show ?thesis by (simp only:) (rule no_slot_invariant [OF inv]; simp add: stateOf_def)
next
  case False
  let ?t = "nextTicket st" and ?st = "enqueueWaiter st ws sig"
  note d = execInvariantD [OF inv]
  have st: "?st = st\<lparr>workspaces := (workspaces st)(ws \<mapsto> (stateOf st ws)\<lparr>queue := queue (stateOf st ws)
        @ [\<lparr>ticket = ?t, signal = sig\<rparr>]\<rparr>), ready := (ready st)(?t \<mapsto> Waiting), nextTicket := ?t + 1\<rparr>"
    using False by (simp add: enqueueWaiter_def Let_def)
  have same: "held ?st = held st" "concurrency ?st = concurrency st"
    "abortedSignals ?st = abortedSignals st" "nextTicket ?st = ?t + 1"
    "ready ?st = (ready st)(?t \<mapsto> Waiting)" by (simp_all add: st)
  have held: "heldIn ?st v = heldIn st v" for v unfolding heldIn_def same ..
  have state: "stateOf ?st v = (if v = ws then (stateOf st ws)\<lparr>queue := queue (stateOf st ws)
      @ [\<lparr>ticket = ?t, signal = sig\<rparr>]\<rparr> else stateOf st v)" for v
    by (simp add: st stateOf_def)
  have waiting: "waitingIn ?st t v \<longleftrightarrow> waitingIn st t v \<or> (t = ?t \<and> v = ws)" for t v
    unfolding waitingIn_def state by auto
  have new: "\<not> waitingIn st ?t v" for v by (rule fresh_ticket(2) [OF inv])
  show ?thesis
  proof (rule execInvariantI)
    show "fair (concurrency ?st) (heldIn ?st v) (stateOf ?st v)" for v
      unfolding fair_def held same state using d(2,3,4) [of v] busy by auto
    show "0 < active s \<or> queue s \<noteq> []" if "workspaces ?st v = Some s" for v s
      using d(5) [of v s] that by (auto simp: st split: if_splits)
    show "signal w \<notin> abortedSignals ?st" if "w \<in> set (queue (stateOf ?st v))" for v w
      using d(6) [of w v] that False unfolding same state by (auto split: if_splits)
    show "distinct (map ticket (queue (stateOf ?st v)))" for v
      unfolding state using d(8) [of v] new [of v] by (auto simp: waitingIn_def)
    show "v = v'" if "waitingIn ?st t v" "waitingIn ?st t v'" for t v v'
      using that d(9) [of t v v'] new unfolding waiting by auto
    show "ready ?st t = Some Waiting \<longleftrightarrow> (\<exists>v. waitingIn ?st t v)" for t
      unfolding waiting same using d(10) [of t] by auto
    show "ready ?st t = Some Slot" if "t \<in> fst ` set (held ?st)" for t
    proof -
      have "t \<noteq> nextTicket st" using that fresh_ticket(1) [OF inv] unfolding same by metis
      then show ?thesis using d(11) [of t] that unfolding same by simp
    qed
    show "ready ?st t = None" if "nextTicket ?st \<le> t" for t
      using d(12) [of t] that unfolding same by auto
  qed (unfold same, (rule d)+)
qed

lemma admit_invariant [invariant_rules]:
  assumes inv: "execInvariant st" and adm: "admit st ws sig = Inr (st', a)"
  shows "execInvariant st'"
proof -
  have "concurrency st \<noteq> - 1" using execInvariantD(1) [OF inv] by simp
  then consider "int (active (stateOf st ws)) < concurrency st"
      "st' = st\<lparr>workspaces := (workspaces st)(ws \<mapsto> (stateOf st ws)\<lparr>active := active (stateOf st ws) + 1\<rparr>),
        held := (nextTicket st, ws) # held st, ready := (ready st)(nextTicket st \<mapsto> Slot),
        nextTicket := nextTicket st + 1\<rparr>"
    | "\<not> int (active (stateOf st ws)) < concurrency st" "st' = enqueueWaiter st ws sig"
    using adm by (auto simp: admit_def Let_def split: if_splits)
  then show ?thesis
    by cases (simp_all add: admit_slot_invariant [OF inv, simplified] enqueue_invariant [OF inv])
qed

lemma abortIn_state:
  "(case abortIn sig s of Some s' \<Rightarrow> s' | None \<Rightarrow> \<lparr>active = 0, queue = []\<rparr>)
     = s\<lparr>queue := filter (\<lambda>w. signal w \<noteq> sig) (queue s)\<rparr>"
proof -
  have "\<not> list_ex (\<lambda>w. signal w = sig) (queue s) \<Longrightarrow> filter (\<lambda>w. signal w \<noteq> sig) (queue s) = queue s"
    by (auto simp: list_ex_iff)
  then show ?thesis
    by (cases s) (auto simp: abortIn_def forgetEmpty_def)
qed

lemma abort_invariant [invariant_rules]:
  assumes inv: "execInvariant st"
  shows "execInvariant (abort st sig)"
proof -
  let ?st = "abort st sig"
  note d = execInvariantD [OF inv]
  have same: "held ?st = held st" "concurrency ?st = concurrency st"
    "abortedSignals ?st = insert sig (abortedSignals st)" "nextTicket ?st = nextTicket st"
    "ready ?st = (\<lambda>t. if waitsFor st sig t then Some NoSlot else ready st t)"
    by (simp_all add: abort_def)
  have held: "heldIn ?st v = heldIn st v" for v unfolding heldIn_def same ..
  have state: "stateOf ?st v
      = (stateOf st v)\<lparr>queue := filter (\<lambda>w. signal w \<noteq> sig) (queue (stateOf st v))\<rparr>" for v
    using abortIn_state [of sig "stateOf st v"]
    by (auto simp: abort_def stateOf_def split: option.splits)
  have waits: "waitsFor st sig t \<longleftrightarrow> (\<exists>v. \<exists>w \<in> set (queue (stateOf st v)). ticket w = t \<and> signal w = sig)" for t
  proof
    assume "waitsFor st sig t"
    then obtain v s where *: "workspaces st v = Some s" "\<lparr>ticket = t, signal = sig\<rparr> \<in> set (queue s)"
      by (auto simp: waitsFor_def)
    then have "queue (stateOf st v) = queue s" by (simp add: stateOf_def)
    then show "\<exists>v. \<exists>w \<in> set (queue (stateOf st v)). ticket w = t \<and> signal w = sig"
      using *(2) by (intro exI [of _ v] bexI [of _ "\<lparr>ticket = t, signal = sig\<rparr>"]) auto
  next
    assume "\<exists>v. \<exists>w \<in> set (queue (stateOf st v)). ticket w = t \<and> signal w = sig"
    then obtain v w where *: "w \<in> set (queue (stateOf st v))" "ticket w = t" "signal w = sig" by blast
    then have "w = \<lparr>ticket = t, signal = sig\<rparr>" by (intro Waiter.equality) simp_all
    moreover have "workspaces st v = Some (stateOf st v)"
      using *(1) by (auto simp: stateOf_def split: option.splits)
    ultimately show "waitsFor st sig t" using *(1) by (auto simp: waitsFor_def)
  qed
  have waiting: "waitingIn ?st t v \<longleftrightarrow> waitingIn st t v \<and> \<not> waitsFor st sig t" for t v
  proof -
    have "signal w = sig \<longleftrightarrow> waitsFor st sig t" if "w \<in> set (queue (stateOf st v))" "ticket w = t" for w
    proof
      show "signal w = sig \<Longrightarrow> waitsFor st sig t" unfolding waits using that by blast
      assume "waitsFor st sig t"
      then obtain v' w' where *: "w' \<in> set (queue (stateOf st v'))" "ticket w' = t" "signal w' = sig"
        unfolding waits by blast
      then have "waitingIn st t v'" "waitingIn st t v" using that by (auto simp: waitingIn_def)
      then have "v' = v" by (rule d(9))
      then have "w' = w" using d(8) [of v] * that by (metis distinct_map inj_on_eq_iff)
      then show "signal w = sig" using *(3) by simp
    qed
    then show ?thesis unfolding waitingIn_def state by auto
  qed
  show ?thesis
  proof (rule execInvariantI)
    show "1 \<le> concurrency ?st" unfolding same by (rule d(1))
    show "fair (concurrency ?st) (heldIn ?st v) (stateOf ?st v)" for v
      unfolding fair_def held same state using d(2,3,4) [of v] by (cases "queue (stateOf st v)") auto
    show "0 < active s \<or> queue s \<noteq> []" if s: "workspaces ?st v = Some s" for v s
    proof -
      from s obtain s0 where s0: "workspaces st v = Some s0" "abortIn sig s0 = Some s"
        by (auto simp: abort_def split: option.splits)
      then show ?thesis using d(5) [OF s0(1)] by (auto simp: abortIn_def dest!: forgetEmpty_Some split: if_splits)
    qed
    show "signal w \<notin> abortedSignals ?st" if "w \<in> set (queue (stateOf ?st v))" for v w
      using d(6) [of w v] that unfolding same state by simp
    show "distinct (map fst (held ?st))" unfolding same by (rule d(7))
    show "distinct (map ticket (queue (stateOf ?st v)))" for v
      unfolding state using d(8) [of v] by (simp add: distinct_map_filter)
    show "v = v'" if "waitingIn ?st t v" "waitingIn ?st t v'" for t v v'
      using that d(9) [of t v v'] unfolding waiting by blast
    show "ready ?st t = Some Waiting \<longleftrightarrow> (\<exists>v. waitingIn ?st t v)" for t
      unfolding waiting same using d(10) [of t] by auto
    show "ready ?st t = Some Slot" if "t \<in> fst ` set (held ?st)" for t
    proof -
      have "\<not> waitsFor st sig t" using d(11) [of t] d(10) [of t] that unfolding waits same waitingIn_def by force
      then show ?thesis using d(11) [of t] that unfolding same by simp
    qed
    show "ready ?st t = None" if "nextTicket ?st \<le> t" for t
    proof -
      have "\<not> waitsFor st sig t" using d(12) [of t] d(10) [of t] that unfolding waits same waitingIn_def by force
      then show ?thesis using d(12) [of t] that unfolding same by simp
    qed
  qed
qed


text \<open>What a release does in a state of the invariant: hand the slot over, or free it.\<close>

lemma release_cases:
  assumes inv: "execInvariant st" and t: "map_of (held st) t = Some ws"
  obtains w rest where "queue (stateOf st ws) = w # rest"
      "release st t = st\<lparr>workspaces := (workspaces st)(ws \<mapsto> (stateOf st ws)\<lparr>queue := rest\<rparr>),
         held := (ticket w, ws) # filter (\<lambda>(u, v). u \<noteq> t) (held st),
         ready := (ready st)(ticket w \<mapsto> Slot)\<rparr>"
    | "queue (stateOf st ws) = []"
      "release st t = st\<lparr>workspaces := (workspaces st)
           (ws := forgetEmpty ((stateOf st ws)\<lparr>active := active (stateOf st ws) - 1, queue := []\<rparr>)),
         held := filter (\<lambda>(u, v). u \<noteq> t) (held st)\<rparr>"
proof (cases "queue (stateOf st ws)")
  case Nil
  then show ?thesis using t that(2) by (simp add: release_def Let_def)
next
  case (Cons w rest)
  have "handOver (abortedSignals st) (queue (stateOf st ws)) = ([], Some w, rest)"
    using execInvariantD(6) [OF inv, of w ws] Cons by simp
  then show ?thesis using t that(1) [OF Cons] by (simp add: release_def Let_def)
qed

lemma heldIn_remove:
  assumes "distinct (map fst hs)" "(t, ws) \<in> set hs"
  shows "length (filter (\<lambda>(u, v). v = x) (filter (\<lambda>(u, v). u \<noteq> t) hs))
    + (if x = ws then 1 else 0) = length (filter (\<lambda>(u, v). v = x) hs)"
  using assms
proof (induction hs)
  case (Cons h hs)
  obtain u v where h: "h = (u, v)" by (cases h)
  show ?case
  proof (cases "u = t")
    case True
    then have "t \<notin> fst ` set hs" using Cons.prems(1) h by simp
    then have "filter (\<lambda>(u, v). u \<noteq> t) hs = hs" "(t, ws) \<notin> set hs"
      by (auto simp: filter_id_conv image_iff)
    then show ?thesis using Cons.prems(2) h True by auto
  next
    case False
    then have "(t, ws) \<in> set hs" using Cons.prems(2) h by auto
    then show ?thesis using Cons.IH Cons.prems(1) h False by auto
  qed
qed simp

lemma release_invariant [invariant_rules]:
  assumes inv: "execInvariant st"
  shows "execInvariant (release st t)"
proof (cases "map_of (held st) t")
  case None
  then show ?thesis using inv by (simp add: release_def)
next
  case (Some ws)
  let ?st = "release st t" and ?others = "filter (\<lambda>(u, v). u \<noteq> t) (held st)"
  note d = execInvariantD [OF inv]
  have mem: "(t, ws) \<in> set (held st)" using Some by (rule map_of_SomeD)
  note rem = heldIn_remove [OF d(7) mem]
  have others: "distinct (map fst ?others)" "t \<notin> fst ` set ?others"
    "\<And>u. u \<in> fst ` set ?others \<Longrightarrow> u \<in> fst ` set (held st)"
    using d(7) by (auto simp: distinct_map_filter)
  have pos: "0 < heldIn st ws"
    using rem [of ws] unfolding heldIn_def by (simp only: simp_thms if_True)
  from release_cases [OF inv Some] show ?thesis
  proof cases
    case (1 w rest)
    have same: "concurrency ?st = concurrency st" "abortedSignals ?st = abortedSignals st"
      "nextTicket ?st = nextTicket st" "held ?st = (ticket w, ws) # ?others"
      "ready ?st = (ready st)(ticket w \<mapsto> Slot)" by (simp_all add: 1(2))
    have state: "stateOf ?st v = (if v = ws then (stateOf st ws)\<lparr>queue := rest\<rparr> else stateOf st v)" for v
      by (simp add: 1(2) stateOf_def)
    have held: "heldIn ?st v = heldIn st v" for v
      using rem [of v] unfolding heldIn_def same by (auto split: if_splits)
    have w: "waitingIn st (ticket w) ws" using 1(1) by (simp add: waitingIn_def)
    have rest: "ticket u \<noteq> ticket w" if "u \<in> set rest" for u
      using d(8) [of ws] 1(1) that by (auto simp: image_iff)
    have waiting: "waitingIn ?st u v \<longleftrightarrow> waitingIn st u v \<and> u \<noteq> ticket w" for u v
    proof (cases "v = ws")
      case True
      then show ?thesis unfolding waitingIn_def state using 1(1) rest by auto
    next
      case False
      then have "waitingIn st u v \<Longrightarrow> u \<noteq> ticket w" using d(9) [OF _ w, of v] by auto
      then show ?thesis using False unfolding waitingIn_def state by auto
    qed
    have unheld: "ticket w \<notin> fst ` set (held st)" using d(11) [of "ticket w"] d(10) [of "ticket w"] w by force
    show ?thesis
    proof (rule execInvariantI)
      show "1 \<le> concurrency ?st" unfolding same by (rule d(1))
      show "fair (concurrency ?st) (heldIn ?st v) (stateOf ?st v)" for v
        unfolding fair_def held same state using d(2,3,4) [of v] 1(1) by auto
      show "0 < active s \<or> queue s \<noteq> []" if "workspaces ?st v = Some s" for v s
        using that d(5) [of v s] d(2) [of ws] pos by (auto simp: 1(2) split: if_splits)
      show "signal u \<notin> abortedSignals ?st" if "u \<in> set (queue (stateOf ?st v))" for v u
        using that d(6) [of u v] 1(1) unfolding same state by (auto split: if_splits)
      show "distinct (map fst (held ?st))" unfolding same using others unheld by auto
      show "distinct (map ticket (queue (stateOf ?st v)))" for v
        unfolding state using d(8) [of v] 1(1) by auto
      show "v = v'" if "waitingIn ?st u v" "waitingIn ?st u v'" for u v v'
        using that d(9) [of u v v'] unfolding waiting by blast
      show "ready ?st u = Some Waiting \<longleftrightarrow> (\<exists>v. waitingIn ?st u v)" for u
        unfolding waiting same using d(10) [of u] by auto
      show "ready ?st u = Some Slot" if "u \<in> fst ` set (held ?st)" for u
        using that d(11) [OF others(3), of u] unfolding same by auto
      show "ready ?st u = None" if "nextTicket ?st \<le> u" for u
        using that d(12) [of u] d(10) [of u] w unfolding same by auto
    qed
  next
    case 2
    have same: "concurrency ?st = concurrency st" "abortedSignals ?st = abortedSignals st"
      "nextTicket ?st = nextTicket st" "held ?st = ?others" "ready ?st = ready st"
      by (simp_all add: 2(2))
    have state: "stateOf ?st v = (if v = ws
        then (stateOf st ws)\<lparr>active := active (stateOf st ws) - 1, queue := []\<rparr> else stateOf st v)" for v
      by (simp add: 2(2) stateOf_def forgetEmpty_state [unfolded stateOf_def])
    have held: "heldIn ?st v = (if v = ws then heldIn st v - 1 else heldIn st v)" for v
      using rem [of v] unfolding heldIn_def same by (auto split: if_splits)
    have queues: "queue (stateOf ?st v) = queue (stateOf st v)" for v unfolding state using 2(1) by simp
    have waiting: "waitingIn ?st u v = waitingIn st u v" for u v unfolding waitingIn_def queues ..
    show ?thesis
    proof (rule execInvariantI)
      show "1 \<le> concurrency ?st" unfolding same by (rule d(1))
      show "fair (concurrency ?st) (heldIn ?st v) (stateOf ?st v)" for v
        unfolding fair_def held same state using d(2,3,4) [of v] 2(1) by auto
      show "0 < active s \<or> queue s \<noteq> []" if "workspaces ?st v = Some s" for v s
        using that d(5) [of v s] by (auto simp: 2(2) dest!: forgetEmpty_Some split: if_splits)
      show "signal u \<notin> abortedSignals ?st" if "u \<in> set (queue (stateOf ?st v))" for v u
        using that d(6) [of u v] unfolding same queues by simp
      show "distinct (map fst (held ?st))" unfolding same by (rule others(1))
      show "distinct (map ticket (queue (stateOf ?st v)))" for v unfolding queues by (rule d(8))
      show "v = v'" if "waitingIn ?st u v" "waitingIn ?st u v'" for u v v'
        using that unfolding waiting by (rule d(9))
      show "ready ?st u = Some Waiting \<longleftrightarrow> (\<exists>v. waitingIn ?st u v)" for u
        unfolding waiting same by (rule d(10))
      show "ready ?st u = Some Slot" if "u \<in> fst ` set (held ?st)" for u
        using that d(11) [OF others(3), of u] unfolding same by auto
      show "ready ?st u = None" if "nextTicket ?st \<le> u" for u
        using that unfolding same by (rule d(12))
    qed
  qed
qed


lemma execStep_invariant: "execInvariant st \<Longrightarrow> execInvariant (execStep st e)"
  by (cases e) (auto simp: execStep_def split: sum.splits intro: invariant_rules)

lemma idle_invariant: "1 \<le> limit \<Longrightarrow> execInvariant (idleScheduler limit)"
  by (simp add: execInvariant_def idleScheduler_def fair_def heldIn_def stateOf_def waitingIn_def)

text \<open>The bounded scheduler: the constructor's argument is a positive limit.\<close>

definition boundedScheduler :: "nat \<Rightarrow> ExecState" where
  "boundedScheduler n = idleScheduler (int n + 1)"

interpretation exec: machine execStep "boundedScheduler n" execInvariant for n
  by unfold_locales (simp_all add: boundedScheduler_def idle_invariant execStep_invariant)

lemma concurrency_step: "concurrency (execStep st e) = concurrency st"
proof -
  have "concurrency (release st t) = concurrency st" for t
    by (simp add: release_def Let_def split: option.splits prod.splits)
  moreover have "admit st ws sig = Inr (st', a) \<Longrightarrow> concurrency st' = concurrency st" for ws sig st' a
    by (auto simp: admit_def Let_def enqueueWaiter_def split: if_splits)
  ultimately show ?thesis
    by (auto simp: execStep_def abort_def split: ExecEvent.splits sum.splits)
qed

lemma concurrency_run: "concurrency (runFrom execStep st es) = concurrency st"
  by (induction es arbitrary: st) (simp_all add: concurrency_step)

text \<open>C10. Whatever is admitted, aborted and released, in whatever order: every workspace runs as many
  executions as closures are held for it and never more than the limit, nobody waits while a slot
  is free, and an admission's promise is unresolved exactly while its ticket is queued, so no
  admission is ever lost.\<close>

theorem exec_slots_bounded_fair:
  assumes "st = runFrom execStep (boundedScheduler n) es"
  shows "active (stateOf st ws) = heldIn st ws
    \<and> active (stateOf st ws) \<le> n + 1
    \<and> (queue (stateOf st ws) \<noteq> [] \<longrightarrow> active (stateOf st ws) = n + 1)
    \<and> (ready st t = Some Waiting \<longleftrightarrow> (\<exists>ws. waitingIn st t ws))"
proof -
  have inv: "execInvariant st" unfolding assms by (rule exec.run_holds)
  have limit: "concurrency st = int n + 1"
    by (simp add: assms concurrency_run boundedScheduler_def idleScheduler_def)
  note d = execInvariantD [OF inv]
  show ?thesis
  proof (intro conjI impI)
    show "active (stateOf st ws) = heldIn st ws" by (rule d(2))
    show "active (stateOf st ws) \<le> n + 1" using d(3) [of ws] unfolding limit by linarith
    show "active (stateOf st ws) = n + 1" if "queue (stateOf st ws) \<noteq> []"
      using d(4) [OF that] unfolding limit by linarith
    show "ready st t = Some Waiting \<longleftrightarrow> (\<exists>ws. waitingIn st t ws)" by (rule d(10))
  qed
qed

theorem exec_slots_bounded_fair_witness:
  "active (stateOf (runFrom execStep (boundedScheduler 0)
      [AdmitEvent 1 5, AdmitEvent 1 6, AdmitEvent 1 7, AbortEvent 6, ReleaseEvent 0]) 1) = 1"
proof -
  let ?es = "[AdmitEvent 1 5, AdmitEvent 1 6, AdmitEvent 1 7, AbortEvent 6, ReleaseEvent 0]"
  let ?st = "runFrom execStep (boundedScheduler 0) ?es"
  have "heldIn ?st 1 = 1"
    by (simp add: execStep_def admit_def boundedScheduler_def idleScheduler_def safeInt_def
        MAX_SAFE_INTEGER_def stateOf_def enqueueWaiter_def abort_def abortIn_def forgetEmpty_def
        release_def heldIn_def Let_def)
  then show ?thesis using exec_slots_bounded_fair [of ?st 0 ?es 1 0] by simp
qed

text \<open>A released slot goes to the oldest waiter: it leaves the queue with the slot, the others
  keep their order, and the number of active executions does not change; only when nobody waits
  is the slot freed. A closure called again does nothing.\<close>

lemma release_serves_oldest:
  assumes "execInvariant st" "map_of (held st) t = Some ws"
  shows "(\<forall>w rest. queue (stateOf st ws) = w # rest \<longrightarrow>
       queue (stateOf (release st t) ws) = rest
       \<and> active (stateOf (release st t) ws) = active (stateOf st ws)
       \<and> ready (release st t) (ticket w) = Some Slot)
     \<and> (queue (stateOf st ws) = [] \<longrightarrow>
       active (stateOf (release st t) ws) + 1 = active (stateOf st ws))
     \<and> map_of (held (release st t)) t = None
     \<and> release (release st t) t = release st t"
proof -
  let ?others = "filter (\<lambda>(u, v). u \<noteq> t) (held st)"
  have gone: "map_of ?others t = None" by (auto simp: map_of_eq_None_iff)
  note d = execInvariantD [OF assms(1)]
  have mem: "(t, ws) \<in> set (held st)" using assms(2) by (rule map_of_SomeD)
  have pos: "0 < active (stateOf st ws)"
    using mem unfolding d(2) by (auto simp: heldIn_def filter_empty_conv)
  have main: "(\<forall>w rest. queue (stateOf st ws) = w # rest \<longrightarrow>
       queue (stateOf (release st t) ws) = rest
       \<and> active (stateOf (release st t) ws) = active (stateOf st ws)
       \<and> ready (release st t) (ticket w) = Some Slot)
     \<and> (queue (stateOf st ws) = [] \<longrightarrow>
       active (stateOf (release st t) ws) + 1 = active (stateOf st ws))
     \<and> map_of (held (release st t)) t = None"
    using release_cases [OF assms]
  proof cases
    case (1 w rest)
    have "waitingIn st (ticket w) ws" using 1(1) by (simp add: waitingIn_def)
    then have "ready st (ticket w) = Some Waiting" using d(10) by blast
    moreover have "ready st t = Some Slot" using d(11) [of t] mem by force
    ultimately have "ticket w \<noteq> t" by auto
    then show ?thesis using 1 gone by (simp add: stateOf_def)
  next
    case 2
    then show ?thesis using gone pos by (simp add: stateOf_def forgetEmpty_state [unfolded stateOf_def])
  qed
  then have "release (release st t) t = release st t" by (simp add: release_def [of "release st t"])
  then show ?thesis using main by blast
qed

definition busyScheduler :: ExecState where
  "busyScheduler = runFrom execStep (boundedScheduler 0) [AdmitEvent 1 5, AdmitEvent 1 6]"

lemma release_serves_oldest_witness:
  "ready (release busyScheduler 0) 1 = Some Slot"
proof -
  have inv: "execInvariant busyScheduler" unfolding busyScheduler_def by (rule exec.run_holds)
  have *: "map_of (held busyScheduler) 0 = Some 1"
    "queue (stateOf busyScheduler 1) = [\<lparr>ticket = 1, signal = 6\<rparr>]"
    by (simp_all add: busyScheduler_def execStep_def admit_def boundedScheduler_def idleScheduler_def
        safeInt_def MAX_SAFE_INTEGER_def stateOf_def enqueueWaiter_def Let_def)
  show ?thesis using release_serves_oldest [OF inv *(1)] *(2) by simp
qed

end
