(* ===== verification/Usage.thy ===== *)
theory Usage
  imports JsText
begin

text \<open>
  \<^verbatim>\<open>plurnk-providers/src/usage.ts\<close>: what a provider reports of the tokens of a request, made
  consistent, and the exact decimal cost of a usage at given rates.

  A reported quantity is a \<open>jsnum\<close>, checked to be a safe non-negative integer where the source
  checks it. The input types are the source's declared ones, so the checks that a value is an
  object always pass and are not modelled. Sums of tokens are exact here; the source's can round
  only beyond 2^53, above every number they are compared with. A rate is a finite double, held
  as its decimal text \<open>String(value)\<close>, which the source parses: it contains every digit, and two
  rates are equal when their texts are.

  The lemmas show that a normalised usage always passes the validation, that the reported counts
  survive, that parsing and printing decimals is exact, and that a cost is exactly the sum of
  tokens times rates.
\<close>

section \<open>Usage and its validation\<close>

record InputDetails =
  noCacheTokens :: "jsnum option"
  cacheReadTokens :: "jsnum option"
  cacheWriteTokens :: "jsnum option"

record OutputDetails =
  textTokens :: "jsnum option"
  reasoningTokens :: "jsnum option"

record ProviderUsage =
  inputTokens :: "jsnum option"
  outputTokens :: "jsnum option"
  totalTokens :: "jsnum option"
  inputTokenDetails :: "InputDetails option"
  outputTokenDetails :: "OutputDetails option"

datatype Quantity =
    InputQ | OutputQ | TotalQ | NoCacheQ | CacheReadQ | CacheWriteQ | TextQ | ReasoningQ

datatype UsageError =
    NotTokens Quantity
  | NothingKnown
  | TotalNotSum
  | InputDetailsUnknown
  | InputDetailsExceed
  | InputDetailsNotSum
  | OutputDetailsUnknown
  | OutputDetailExceeds
  | OutputDetailsNotSum
  | TotalInconsistent
  | TotalBelowInput
  | RateNotFinite jsstr
  | RateNotDecimal jsstr
  | NegativeEstimate

definition knownTokens :: "jsnum option \<Rightarrow> Quantity \<Rightarrow> UsageError + int option" where
  "knownTokens value quantity =
     (case value of
        None \<Rightarrow> Inr None
      | Some x \<Rightarrow> if \<not> isSafeInteger x \<or> wholeOf x < 0 then Inl (NotTokens quantity)
                  else Inr (Some (wholeOf x)))"

definition sumKnown :: "int option list \<Rightarrow> int" where
  "sumKnown values = sum_list (map (\<lambda>v. case v of None \<Rightarrow> 0 | Some x \<Rightarrow> x) values)"

definition checkInputDetails :: "int option \<Rightarrow> InputDetails \<Rightarrow> UsageError + unit" where
  "checkInputDetails input d =
     andThen (knownTokens (noCacheTokens d) NoCacheQ) (\<lambda>a.
     andThen (knownTokens (cacheReadTokens d) CacheReadQ) (\<lambda>b.
     andThen (knownTokens (cacheWriteTokens d) CacheWriteQ) (\<lambda>c.
       let values = [a, b, c] in
       if list_all (\<lambda>v. v = None) values then Inl InputDetailsUnknown
       else case input of None \<Rightarrow> Inr ()
       | Some n \<Rightarrow>
           if n < sumKnown values then Inl InputDetailsExceed
           else if list_all (\<lambda>v. v \<noteq> None) values \<and> sumKnown values \<noteq> n then Inl InputDetailsNotSum
           else Inr ())))"

definition checkOutputDetails :: "int option \<Rightarrow> OutputDetails \<Rightarrow> UsageError + unit" where
  "checkOutputDetails output d =
     andThen (knownTokens (textTokens d) TextQ) (\<lambda>a.
     andThen (knownTokens (reasoningTokens d) ReasoningQ) (\<lambda>b.
       let values = [a, b] in
       if list_all (\<lambda>v. v = None) values then Inl OutputDetailsUnknown
       else case output of None \<Rightarrow> Inr ()
       | Some n \<Rightarrow>
           if list_ex (\<lambda>v. case v of None \<Rightarrow> False | Some x \<Rightarrow> n < x) values then Inl OutputDetailExceeds
           else if list_all (\<lambda>v. v \<noteq> None) values \<and> sumKnown values \<noteq> n then Inl OutputDetailsNotSum
           else Inr ()))"

definition checkProviderUsage :: "ProviderUsage \<Rightarrow> UsageError + unit" where
  "checkProviderUsage u =
     andThen (knownTokens (inputTokens u) InputQ) (\<lambda>input.
     andThen (knownTokens (outputTokens u) OutputQ) (\<lambda>output.
     andThen (knownTokens (totalTokens u) TotalQ) (\<lambda>tot.
       if input = None \<and> output = None \<and> tot = None
          \<and> inputTokenDetails u = None \<and> outputTokenDetails u = None then Inl NothingKnown
       else if input \<noteq> None \<and> output \<noteq> None \<and> tot \<noteq> None \<and> the tot \<noteq> the input + the output
       then Inl TotalNotSum
       else andThen (case inputTokenDetails u of None \<Rightarrow> Inr () | Some d \<Rightarrow> checkInputDetails input d)
         (\<lambda>_. case outputTokenDetails u of None \<Rightarrow> Inr () | Some d \<Rightarrow> checkOutputDetails output d))))"

definition validateProviderUsage :: "ProviderUsage \<Rightarrow> UsageError + ProviderUsage" where
  "validateProviderUsage u = andThen (checkProviderUsage u) (\<lambda>_. Inr u)"

section \<open>Normalisation of a reported usage\<close>

record RawInputDetails =
  rawCachedTokens :: "jsnum option"
  rawCacheReadTokens :: "jsnum option"
  rawCacheWriteTokens :: "jsnum option"

record RawUsage =
  input_tokens :: "jsnum option"
  output_tokens :: "jsnum option"
  prompt_tokens :: "jsnum option"
  completion_tokens :: "jsnum option"
  total_tokens :: "jsnum option"
  cached_tokens :: "jsnum option"
  cache_creation_input_tokens :: "jsnum option"
  cache_read_input_tokens :: "jsnum option"
  prompt_cache_hit_tokens :: "jsnum option"
  prompt_cache_miss_tokens :: "jsnum option"
  prompt_tokens_details :: "RawInputDetails option"
  input_tokens_details :: "RawInputDetails option"
  completion_reasoning_tokens :: "jsnum option"
  output_reasoning_tokens :: "jsnum option"
  reasoning_tokens :: "jsnum option"

text \<open>\<open>a ?? b\<close> and \<open>a?.field\<close>.\<close>

definition orElse :: "'a option \<Rightarrow> 'a option \<Rightarrow> 'a option" where
  "orElse a b = (case a of None \<Rightarrow> b | Some x \<Rightarrow> Some x)"

definition fieldOf :: "'r option \<Rightarrow> ('r \<Rightarrow> 'a option) \<Rightarrow> 'a option" where
  "fieldOf r f = (case r of None \<Rightarrow> None | Some x \<Rightarrow> f x)"

text \<open>\<open>detailTokens\<close>: the error is collected, the quantity is unknown.\<close>

definition detailTokens ::
  "jsnum option \<Rightarrow> Quantity \<Rightarrow> UsageError list \<Rightarrow> int option \<times> UsageError list" where
  "detailTokens value quantity errors =
     (case knownTokens value quantity of Inl e \<Rightarrow> (None, errors @ [e]) | Inr x \<Rightarrow> (x, errors))"

text \<open>The output, text and reasoning tokens that the counts imply.\<close>

definition reconcile ::
  "int option \<Rightarrow> int option \<Rightarrow> int option \<Rightarrow> int option
     \<Rightarrow> UsageError + int option \<times> int option \<times> int option" where
  "reconcile input output reported reasoning =
     (case (input, output, reported) of
        (Some i, Some out, Some tot) \<Rightarrow>
          if tot = i + out then Inr (Some out, map_option (\<lambda>r. out - r) reasoning, reasoning)
          else if reasoning \<noteq> None \<and> tot = i + out + the reasoning
          then Inr (Some (out + the reasoning), Some out, reasoning)
          else if i + out \<le> tot then Inr (Some (tot - i), Some out, Some (tot - i - out))
          else Inl TotalInconsistent
      | (_, Some out, _) \<Rightarrow>
          (case reasoning of
             Some r \<Rightarrow> if out < r then Inr (Some (out + r), Some out, reasoning)
                       else Inr (Some out, Some (out - r), reasoning)
           | None \<Rightarrow> Inr (Some out, None, reasoning))
      | (Some i, None, Some tot) \<Rightarrow>
          if tot < i then Inl TotalBelowInput else Inr (Some (tot - i), None, reasoning)
      | _ \<Rightarrow> Inr (output, None, reasoning))"

definition whole :: "int option \<Rightarrow> jsnum option" where
  "whole x = map_option Whole x"

definition inputDetailsOf :: "int option \<Rightarrow> int option \<Rightarrow> int option \<Rightarrow> InputDetails option" where
  "inputDetailsOf a b c =
     (if a = None \<and> b = None \<and> c = None then None
      else Some \<lparr>noCacheTokens = whole a, cacheReadTokens = whole b, cacheWriteTokens = whole c\<rparr>)"

definition outputDetailsOf :: "int option \<Rightarrow> int option \<Rightarrow> OutputDetails option" where
  "outputDetailsOf a b =
     (if a = None \<and> b = None then None else Some \<lparr>textTokens = whole a, reasoningTokens = whole b\<rparr>)"

text \<open>The one missing part of the input is what the others leave, when nothing was refused.\<close>

definition completeInput ::
  "bool \<Rightarrow> int option \<Rightarrow> int option \<times> int option \<times> int option \<Rightarrow> int option \<times> int option \<times> int option" where
  "completeInput clean input parts =
     (case (clean, input, parts) of
        (True, Some n, (None, Some b, Some c)) \<Rightarrow> (Some (n - (b + c)), Some b, Some c)
      | (True, Some n, (Some a, None, Some c)) \<Rightarrow> (Some a, Some (n - (a + c)), Some c)
      | (True, Some n, (Some a, Some b, None)) \<Rightarrow> (Some a, Some b, Some (n - (a + b)))
      | _ \<Rightarrow> parts)"

datatype NormalizeError = UsageInvalid UsageError | UsageDetailError ProviderUsage "UsageError list"

definition usageError :: "UsageError + 'a \<Rightarrow> NormalizeError + 'a" where
  "usageError r = (case r of Inl e \<Rightarrow> Inl (UsageInvalid e) | Inr x \<Rightarrow> Inr x)"

definition noKeys :: "ProviderUsage \<Rightarrow> bool" where
  "noKeys u \<longleftrightarrow> inputTokens u = None \<and> outputTokens u = None \<and> totalTokens u = None
     \<and> inputTokenDetails u = None \<and> outputTokenDetails u = None"

text \<open>One turn of the loop that adds a detail if the usage with it is valid.\<close>

definition withDetail ::
  "ProviderUsage option \<Rightarrow> ProviderUsage \<times> UsageError list \<Rightarrow> ProviderUsage \<times> UsageError list" where
  "withDetail candidate acc =
     (case candidate of
        None \<Rightarrow> acc
      | Some u \<Rightarrow> (case checkProviderUsage u of
          Inr _ \<Rightarrow> (u, snd acc)
        | Inl e \<Rightarrow> (fst acc, snd acc @ [e])))"

definition assembleUsage ::
  "int option \<Rightarrow> int option \<Rightarrow> int option \<Rightarrow> InputDetails option \<Rightarrow> OutputDetails option
     \<Rightarrow> UsageError list \<Rightarrow> NormalizeError + ProviderUsage option" where
  "assembleUsage input output totals inDetails outDetails errors =
     (let usage = \<lparr>inputTokens = whole input, outputTokens = whole output, totalTokens = whole totals,
                   inputTokenDetails = None, outputTokenDetails = None\<rparr>
      in andThen (if noKeys usage then Inr () else usageError (checkProviderUsage usage)) (\<lambda>_.
        let (u1, e1) = withDetail (map_option (\<lambda>d. usage\<lparr>inputTokenDetails := Some d\<rparr>) inDetails)
                         (usage, errors);
            (u2, e2) = withDetail (map_option (\<lambda>d. u1\<lparr>outputTokenDetails := Some d\<rparr>) outDetails)
                         (u1, e1)
        in if e2 \<noteq> [] then (if noKeys u2 then Inl (UsageInvalid (hd e2)) else Inl (UsageDetailError u2 e2))
           else Inr (if noKeys u2 then None else Some u2)))"

definition rawCacheRead :: "RawUsage \<Rightarrow> jsnum option" where
  "rawCacheRead raw =
     orElse (fieldOf (input_tokens_details raw) rawCacheReadTokens)
     (orElse (fieldOf (input_tokens_details raw) rawCachedTokens)
     (orElse (fieldOf (prompt_tokens_details raw) rawCacheReadTokens)
     (orElse (fieldOf (prompt_tokens_details raw) rawCachedTokens)
     (orElse (cache_read_input_tokens raw)
     (orElse (prompt_cache_hit_tokens raw) (cached_tokens raw))))))"

definition rawCacheWrite :: "RawUsage \<Rightarrow> jsnum option" where
  "rawCacheWrite raw =
     orElse (fieldOf (input_tokens_details raw) rawCacheWriteTokens)
     (orElse (fieldOf (prompt_tokens_details raw) rawCacheWriteTokens)
        (cache_creation_input_tokens raw))"

text \<open>The non-cached count the SDK inferred, trusted only when its other counts agree.\<close>

definition sdkNoCache ::
  "bool \<Rightarrow> int option \<Rightarrow> int option \<Rightarrow> int option \<Rightarrow> (jsnum option \<times> InputDetails option) option
     \<Rightarrow> jsnum option" where
  "sdkNoCache clean input cacheRead cacheWrite sdkInput =
     (if clean \<and> input \<noteq> None \<and> whole input = fieldOf sdkInput fst
         \<and> cacheRead \<noteq> None
         \<and> whole cacheRead = fieldOf (fieldOf sdkInput snd) InputDetails.cacheReadTokens
         \<and> cacheWrite = None
      then fieldOf (fieldOf sdkInput snd) InputDetails.noCacheTokens else None)"

text \<open>The input details, and the usage put together from the reconciled counts.\<close>

definition finishUsage ::
  "RawUsage \<Rightarrow> (jsnum option \<times> InputDetails option) option \<Rightarrow> int option \<Rightarrow> int option
     \<Rightarrow> UsageError list \<Rightarrow> int option \<times> int option \<times> int option \<Rightarrow> NormalizeError + ProviderUsage option" where
  "finishUsage raw sdkInput input reported errors0 reconciled =
     (let (output, texts, reasonings) = reconciled;
          totals = orElse reported
            (if input \<noteq> None \<and> output \<noteq> None then Some (the input + the output) else None);
          (cacheRead, errors1) = detailTokens (rawCacheRead raw) CacheReadQ errors0;
          (cacheWrite, errors2) = detailTokens (rawCacheWrite raw) CacheWriteQ errors1;
          (noCache, errors3) = detailTokens (orElse (prompt_cache_miss_tokens raw)
            (sdkNoCache (length errors2 = length errors0) input cacheRead cacheWrite sdkInput))
            NoCacheQ errors2;
          (a, b, c) = completeInput (length errors3 = length errors0) input (noCache, cacheRead, cacheWrite)
      in assembleUsage input output totals (inputDetailsOf a b c) (outputDetailsOf texts reasonings)
           errors3)"

definition normalizeUsage ::
  "RawUsage option \<Rightarrow> (jsnum option \<times> InputDetails option) option
     \<Rightarrow> NormalizeError + ProviderUsage option" where
  "normalizeUsage rawUsage sdkInput =
     (case rawUsage of None \<Rightarrow> Inr None | Some raw \<Rightarrow>
      andThen (usageError (knownTokens (orElse (input_tokens raw) (prompt_tokens raw)) InputQ)) (\<lambda>input.
      andThen (usageError (knownTokens (orElse (output_tokens raw) (completion_tokens raw)) OutputQ)) (\<lambda>rawOutput.
      andThen (usageError (knownTokens (total_tokens raw) TotalQ)) (\<lambda>reported.
      let (reasoning, errors0) = detailTokens (orElse (output_reasoning_tokens raw)
            (orElse (completion_reasoning_tokens raw) (reasoning_tokens raw))) ReasoningQ [] in
      andThen (usageError (reconcile input rawOutput reported reasoning))
        (finishUsage raw sdkInput input reported errors0)))))"

section \<open>Decimals\<close>

record TokenRates =
  rateInput :: jsstr
  rateOutput :: jsstr
  rateReasoning :: "jsstr option"
  rateCacheRead :: "jsstr option"
  rateCacheWrite :: "jsstr option"

definition DOT :: jschar where "DOT = 46"

text \<open>
  The match of \<open>/^(\d+)(?:\.(\d+))?(?:e([+-]?\d+))?$/i\<close>: integer digits, fraction digits, exponent.
\<close>

definition parseExponent :: "jsstr \<Rightarrow> int option" where
  "parseExponent s =
     (case s of
        [] \<Rightarrow> Some 0
      | c # t \<Rightarrow>
          if c \<noteq> 101 \<and> c \<noteq> 69 then None
          else let sign = (if t \<noteq> [] \<and> hd t = 45 then - 1 else 1);
                   ds = (if t \<noteq> [] \<and> (hd t = 43 \<or> hd t = 45) then tl t else t)
               in if ds \<noteq> [] \<and> list_all isDigit ds then Some (sign * digitsValue ds) else None)"

definition parseRate :: "jsstr \<Rightarrow> (jsstr \<times> jsstr \<times> int) option" where
  "parseRate s =
     (let intDigits = takeWhile isDigit s; rest = dropWhile isDigit s in
      if intDigits = [] then None
      else if rest \<noteq> [] \<and> hd rest = DOT
      then (let fracDigits = takeWhile isDigit (tl rest) in
            if fracDigits = [] then None
            else map_option (\<lambda>e. (intDigits, fracDigits, e)) (parseExponent (dropWhile isDigit (tl rest))))
      else map_option (\<lambda>e. (intDigits, [], e)) (parseExponent rest))"

definition decimalParts :: "jsstr \<Rightarrow> UsageError + int \<times> nat" where
  "decimalParts rate =
     (if rate = js ''NaN'' \<or> rate = js ''Infinity'' \<or> (rate \<noteq> [] \<and> hd rate = 45)
      then Inl (RateNotFinite rate)
      else case parseRate rate of
        None \<Rightarrow> Inl (RateNotDecimal rate)
      | Some (intDigits, fracDigits, exponent) \<Rightarrow>
          let scale = int (length fracDigits) - exponent; coefficient = digitsValue (intDigits @ fracDigits)
          in Inr (if scale < 0 then (coefficient * 10 ^ nat (- scale), 0) else (coefficient, nat scale)))"

text \<open>\<open>replace(/0+$/, "")\<close>.\<close>

definition stripZeros :: "jsstr \<Rightarrow> jsstr" where
  "stripZeros s = rev (dropWhile (\<lambda>c. c = 48) (rev s))"

definition zeroPadded :: "nat \<Rightarrow> nat \<Rightarrow> jsstr" where
  "zeroPadded coefficient width =
     replicate (width - length (decimal coefficient)) 48 @ decimal coefficient"

definition canonicalDecimal :: "nat \<Rightarrow> nat \<Rightarrow> jsstr" where
  "canonicalDecimal coefficient scale =
     (let digits = zeroPadded coefficient (scale + 1)
      in if scale = 0 then digits
         else let integer = take (length digits - scale) digits;
                  fraction = stripZeros (drop (length digits - scale) digits)
              in if length fraction = 0 then integer else integer @ [DOT] @ fraction)"

text \<open>The rates scaled to a common power of ten, and the weighed sum.\<close>

definition costAt ::
  "jsstr \<Rightarrow> jsstr \<Rightarrow> jsstr \<Rightarrow> jsstr \<Rightarrow> jsstr \<Rightarrow> int \<Rightarrow> int \<Rightarrow> int \<Rightarrow> int \<Rightarrow> int \<Rightarrow> UsageError + jsstr option" where
  "costAt inputRate outputRate reasoningRate cacheReadRate cacheWriteRate
     input output reasoning cacheRead cacheWrite =
     andThen (decimalParts inputRate) (\<lambda>pi.
     andThen (decimalParts outputRate) (\<lambda>po.
     andThen (decimalParts reasoningRate) (\<lambda>pr.
     andThen (decimalParts cacheReadRate) (\<lambda>pcr.
     andThen (decimalParts cacheWriteRate) (\<lambda>pcw.
       let rateScale = Max (set (map snd [pi, po, pr, pcr, pcw]));
           scaled = (\<lambda>p. fst p * 10 ^ (rateScale - snd p));
           coefficient = input * scaled pi + output * scaled po
             + reasoning * (scaled pr - scaled po)
             + cacheRead * (scaled pcr - scaled pi)
             + cacheWrite * (scaled pcw - scaled pi)
       in if coefficient < 0 then Inl NegativeEstimate
          else Inr (Some (canonicalDecimal (nat coefficient) (rateScale + 6))))))))"

definition tokensOr0 :: "jsnum option \<Rightarrow> int" where
  "tokensOr0 v = (case v of None \<Rightarrow> 0 | Some x \<Rightarrow> wholeOf x)"

definition rateOr :: "jsstr option \<Rightarrow> jsstr \<Rightarrow> jsstr" where
  "rateOr rate fallback = (case rate of None \<Rightarrow> fallback | Some r \<Rightarrow> r)"

definition calculateCostUsdDecimal :: "ProviderUsage \<Rightarrow> TokenRates \<Rightarrow> UsageError + jsstr option" where
  "calculateCostUsdDecimal usage rates =
     andThen (checkProviderUsage usage) (\<lambda>_.
      if inputTokens usage = None \<or> outputTokens usage = None then Inr None
      else
        let cacheReadRate = rateOr (rateCacheRead rates) (rateInput rates);
            cacheWriteRate = rateOr (rateCacheWrite rates) (rateInput rates);
            reasoningRate = rateOr (rateReasoning rates) (rateOutput rates);
            cacheRead = fieldOf (inputTokenDetails usage) InputDetails.cacheReadTokens;
            cacheWrite = fieldOf (inputTokenDetails usage) InputDetails.cacheWriteTokens;
            reasoning = fieldOf (outputTokenDetails usage) OutputDetails.reasoningTokens
        in if cacheReadRate \<noteq> rateInput rates \<and> cacheRead = None then Inr None
           else if cacheWriteRate \<noteq> rateInput rates \<and> cacheWrite = None then Inr None
           else if reasoningRate \<noteq> rateOutput rates \<and> reasoning = None then Inr None
           else costAt (rateInput rates) (rateOutput rates) reasoningRate cacheReadRate cacheWriteRate
                  (tokensOr0 (inputTokens usage)) (tokensOr0 (outputTokens usage))
                  (tokensOr0 reasoning) (tokensOr0 cacheRead) (tokensOr0 cacheWrite))"

section \<open>A normalised usage is valid and keeps the reported counts\<close>

lemma knownTokens_Inr:
  "knownTokens v q = Inr x \<Longrightarrow> whole x = v \<and> (\<forall>n. x = Some n \<longrightarrow> 0 \<le> n)"
  by (auto simp: knownTokens_def whole_def split: option.splits if_splits elim: isSafeInteger.elims)

lemma usageError_Inr [simp]: "usageError r = Inr x \<longleftrightarrow> r = Inr x"
  by (cases r) (auto simp: usageError_def)

text \<open>The outcomes of a normalisation that carry a usage.\<close>

definition carries :: "NormalizeError + ProviderUsage option \<Rightarrow> ProviderUsage \<Rightarrow> bool" where
  "carries r u \<longleftrightarrow> r = Inr (Some u) \<or> (\<exists>es. r = Inl (UsageDetailError u es))"

lemma carries_andThen [simp]:
  "carries (andThen (usageError r) f) u \<longleftrightarrow> (\<exists>x. r = Inr x \<and> carries (f x) u)"
  by (cases r) (auto simp: carries_def usageError_def)

lemma carries_guard:
  "carries (andThen (if b then Inr () else usageError r) f) u \<Longrightarrow> (b \<or> r = Inr ()) \<and> carries (f ()) u"
  by (cases r) (auto simp: carries_def usageError_def split: if_splits)

lemma withDetail_keeps:
  assumes "noKeys u \<or> checkProviderUsage u = Inr ()" "withDetail (map_option f d) (u, es) = (u', es')"
    and "\<And>x. inputTokens (f x) = inputTokens u \<and> outputTokens (f x) = outputTokens u
           \<and> totalTokens (f x) = totalTokens u"
  shows "(noKeys u' \<or> checkProviderUsage u' = Inr ()) \<and> inputTokens u' = inputTokens u
     \<and> outputTokens u' = outputTokens u \<and> totalTokens u' = totalTokens u"
  using assms by (auto simp: withDetail_def split: option.splits sum.splits)

lemma assembleUsage_valid:
  assumes "carries (assembleUsage input output reported di do es) u"
  shows "checkProviderUsage u = Inr ()" "inputTokens u = whole input" "outputTokens u = whole output"
    "totalTokens u = whole reported"
proof -
  let ?u0 = "\<lparr>inputTokens = whole input, outputTokens = whole output, totalTokens = whole reported,
    inputTokenDetails = None, outputTokenDetails = None\<rparr>"
  obtain u1 e1 where s1: "withDetail (map_option (\<lambda>d. ?u0\<lparr>inputTokenDetails := Some d\<rparr>) di) (?u0, es)
      = (u1, e1)" by (cases "withDetail (map_option (\<lambda>d. ?u0\<lparr>inputTokenDetails := Some d\<rparr>) di) (?u0, es)")
  obtain u2 e2 where s2: "withDetail (map_option (\<lambda>d. u1\<lparr>outputTokenDetails := Some d\<rparr>) do) (u1, e1)
      = (u2, e2)" by (cases "withDetail (map_option (\<lambda>d. u1\<lparr>outputTokenDetails := Some d\<rparr>) do) (u1, e1)")
  note guard = carries_guard [OF assms [unfolded assembleUsage_def Let_def]]
  then have v0: "noKeys ?u0 \<or> checkProviderUsage ?u0 = Inr ()" by blast
  have u: "u = u2" "\<not> noKeys u2"
    using conjunct2 [OF guard] unfolding s1 prod.case s2 by (auto simp: carries_def split: if_splits)
  have k1: "(noKeys u1 \<or> checkProviderUsage u1 = Inr ()) \<and> inputTokens u1 = inputTokens ?u0
     \<and> outputTokens u1 = outputTokens ?u0 \<and> totalTokens u1 = totalTokens ?u0"
    by (rule withDetail_keeps [OF v0 s1]) simp
  then have v1: "noKeys u1 \<or> checkProviderUsage u1 = Inr ()" by blast
  have k2: "(noKeys u2 \<or> checkProviderUsage u2 = Inr ()) \<and> inputTokens u2 = inputTokens u1
     \<and> outputTokens u2 = outputTokens u1 \<and> totalTokens u2 = totalTokens u1"
    by (rule withDetail_keeps [OF v1 s2]) simp
  show "checkProviderUsage u = Inr ()" "inputTokens u = whole input" "outputTokens u = whole output"
    "totalTokens u = whole reported"
    using k1 k2 u by simp_all
qed

lemma reconcile_output:
  assumes "reconcile input (Some x) reported r = Inr (out, tx, rs)" "\<forall>n. r = Some n \<longrightarrow> 0 \<le> n"
  shows "\<exists>y. out = Some y \<and> x \<le> y"
  using assms by (auto simp: reconcile_def split: option.splits if_splits)

lemma detailTokens_nonneg: "detailTokens v q es = (x, es') \<Longrightarrow> \<forall>n. x = Some n \<longrightarrow> 0 \<le> n"
  using knownTokens_Inr [of v q x] by (auto simp: detailTokens_def split: sum.splits)

lemma finishUsage_assembles:
  obtains di do es where
    "finishUsage raw sdkInput input reported errors0 (out, texts, reasonings)
      = assembleUsage input out (orElse reported
         (if input \<noteq> None \<and> out \<noteq> None then Some (the input + the out) else None)) di do es"
proof -
  have "\<exists>di do es. finishUsage raw sdkInput input reported errors0 (out, texts, reasonings)
      = assembleUsage input out (orElse reported
         (if input \<noteq> None \<and> out \<noteq> None then Some (the input + the out) else None)) di do es"
    unfolding finishUsage_def Let_def prod.case by (simp only: split: prod.split) blast
  then show ?thesis using that by blast
qed

lemma normalizeUsage_carries:
  assumes "carries (normalizeUsage (Some raw) sdkInput) u"
  obtains input rawOutput reported reasoning out texts reasonings
  where "whole input = orElse (input_tokens raw) (prompt_tokens raw)"
    "whole rawOutput = orElse (output_tokens raw) (completion_tokens raw)"
    "whole reported = total_tokens raw" "\<forall>n. reasoning = Some n \<longrightarrow> 0 \<le> n"
    "reconcile input rawOutput reported reasoning = Inr (out, texts, reasonings)"
    "checkProviderUsage u = Inr ()" "inputTokens u = whole input" "outputTokens u = whole out"
    "totalTokens u = whole (orElse reported
       (if input \<noteq> None \<and> out \<noteq> None then Some (the input + the out) else None))"
proof -
  from assms obtain input rawOutput reported where
    counts: "knownTokens (orElse (input_tokens raw) (prompt_tokens raw)) InputQ = Inr input"
      "knownTokens (orElse (output_tokens raw) (completion_tokens raw)) OutputQ = Inr rawOutput"
      "knownTokens (total_tokens raw) TotalQ = Inr reported"
    and rest: "carries (let (reasoning, errors0) = detailTokens (orElse (output_reasoning_tokens raw)
            (orElse (completion_reasoning_tokens raw) (RawUsage.reasoning_tokens raw))) ReasoningQ [] in
      andThen (usageError (reconcile input rawOutput reported reasoning))
        (finishUsage raw sdkInput input reported errors0)) u"
    unfolding normalizeUsage_def by (auto simp only: option.case carries_andThen)
  obtain reasoning errors0 where r: "detailTokens (orElse (output_reasoning_tokens raw)
      (orElse (completion_reasoning_tokens raw) (RawUsage.reasoning_tokens raw))) ReasoningQ []
      = (reasoning, errors0)" by (rule prod.exhaust)
  from rest obtain out texts reasonings where
    "reconcile input rawOutput reported reasoning = Inr (out, texts, reasonings)"
    and "carries (finishUsage raw sdkInput input reported errors0 (out, texts, reasonings)) u"
    by (auto simp only: r Let_def prod.case carries_andThen)
  moreover obtain di do es where
    "finishUsage raw sdkInput input reported errors0 (out, texts, reasonings)
      = assembleUsage input out (orElse reported
         (if input \<noteq> None \<and> out \<noteq> None then Some (the input + the out) else None)) di do es"
    by (rule finishUsage_assembles)
  ultimately have a: "carries (assembleUsage input out (orElse reported
         (if input \<noteq> None \<and> out \<noteq> None then Some (the input + the out) else None)) di do es) u"
    and c: "reconcile input rawOutput reported reasoning = Inr (out, texts, reasonings)" by simp_all
  show ?thesis
    using that [OF _ _ _ _ c assembleUsage_valid [OF a]] detailTokens_nonneg [OF r]
      counts [THEN knownTokens_Inr] by blast
qed

section \<open>Decimals are exact\<close>

text \<open>The number a decimal numeral denotes.\<close>

definition decimalValue :: "jsstr \<Rightarrow> rat" where
  "decimalValue s =
     (let i = takeWhile isDigit s; f = tl (dropWhile isDigit s)
      in of_int (digitsValue (i @ f)) / 10 ^ length f)"

lemma decimalValue_parts:
  assumes "list_all isDigit i" "f = [] \<or> s = i @ DOT # f" "f = [] \<longrightarrow> s = i"
  shows "decimalValue s = of_int (digitsValue (i @ f)) / 10 ^ length f"
proof -
  have dot: "\<not> isDigit DOT" by (simp add: isDigit_def DOT_def)
  have all: "\<And>c. c \<in> set i \<Longrightarrow> isDigit c" using assms(1) by (simp add: list_all_iff)
  have plain: "takeWhile isDigit i = i" "dropWhile isDigit i = []" using all by (induction i) auto
  have dotted: "takeWhile isDigit (i @ DOT # f) = i" "dropWhile isDigit (i @ DOT # f) = DOT # f"
    using all dot by (induction i) auto
  show ?thesis
  proof (cases "f = []")
    case True
    then show ?thesis using assms(3) by (simp add: decimalValue_def Let_def plain)
  next
    case False
    then have "s = i @ DOT # f" using assms(2) by simp
    then show ?thesis by (simp add: decimalValue_def Let_def dotted del: digitsValue_simps)
  qed
qed

lemma stripZeros_split: "\<exists>z. f = stripZeros f @ replicate z 48"
proof -
  have "rev f = takeWhile (\<lambda>c. c = 48) (rev f) @ dropWhile (\<lambda>c. c = 48) (rev f)" by simp
  moreover have "takeWhile (\<lambda>c. c = 48) (rev f) = replicate (length (takeWhile (\<lambda>c. c = 48) (rev f))) 48"
    by (metis (full_types) replicate_length_same set_takeWhileD)
  ultimately have "f = stripZeros f @ rev (replicate (length (takeWhile (\<lambda>c. c = 48) (rev f))) 48)"
    unfolding stripZeros_def by (metis rev_append rev_rev_ident)
  then show ?thesis by auto
qed

lemma digits_all: "list_all isDigit (replicate k 48 @ decimal n)"
  using decimal_digits [of n] by (auto simp: list_all_iff isDigit_def)

lemma canonicalDecimal_value: "decimalValue (canonicalDecimal c k) = of_nat c / 10 ^ k"
proof -
  define ds where "ds = zeroPadded c (k + 1)"
  have ds: "list_all isDigit ds" "digitsValue ds = int c" "k < length ds"
    unfolding ds_def zeroPadded_def by (rule digits_all) (auto simp: digitsValue_decimal)
  define i f where "i = take (length ds - k) ds" and "f = drop (length ds - k) ds"
  have if_: "ds = i @ f" "length f = k" using ds(3) by (simp_all add: i_def f_def)
  have i: "list_all isDigit i" using ds(1) if_(1) by (simp add: list_all_append)
  show ?thesis
  proof (cases "k = 0")
    case True
    then show ?thesis
      using decimalValue_parts [OF ds(1), of "[]" ds] ds(2)
      by (simp add: canonicalDecimal_def Let_def ds_def)
  next
    case False
    obtain z where z: "f = stripZeros f @ replicate z 48" using stripZeros_split by blast
    let ?g = "stripZeros f"
    have canon: "canonicalDecimal c k = (if ?g = [] then i else i @ [DOT] @ ?g)"
      using False by (simp add: canonicalDecimal_def Let_def ds_def i_def f_def)
    have len: "length ?g + z = k" using arg_cong [OF z, of length] if_(2) by simp
    have "decimalValue (canonicalDecimal c k) = of_int (digitsValue (i @ ?g)) / 10 ^ length ?g"
      unfolding canon by (rule decimalValue_parts [OF i]) auto
    also have "\<dots> = of_int (digitsValue (i @ ?g) * 10 ^ z) / 10 ^ (length ?g + z)"
      by (simp add: power_add)
    also have "digitsValue (i @ ?g) * 10 ^ z = digitsValue ds"
    proof -
      have "ds = (i @ ?g) @ replicate z 48" using if_(1) z by simp
      then have "digitsValue ds = digitsValue ((i @ ?g) @ replicate z 48)" by simp
      then show ?thesis by (simp only: digitsValue_simps(3) digitsValue_replicate_zero length_replicate add_0_right)
    qed
    finally show ?thesis using ds(2) len by simp
  qed
qed

text \<open>The value of a rate, as the source reads it from the text of the number.\<close>

definition rateValue :: "jsstr \<Rightarrow> rat" where
  "rateValue rate = (case decimalParts rate of Inl e \<Rightarrow> 0 | Inr (c, k) \<Rightarrow> of_int c / 10 ^ k)"

lemma scaled_value:
  assumes "decimalParts r = Inr p" "snd p \<le> k"
  shows "of_int (fst p * 10 ^ (k - snd p)) / 10 ^ k = rateValue r"
proof -
  have "(10 :: rat) ^ k = 10 ^ (k - snd p) * 10 ^ snd p" using assms(2) by (simp flip: power_add)
  then show ?thesis using assms(1) by (simp add: rateValue_def split: prod.splits)
qed

text \<open>What a usage costs at given rates, in US dollars: each token once, at the rate of its category.\<close>

definition exactCost :: "ProviderUsage \<Rightarrow> TokenRates \<Rightarrow> rat" where
  "exactCost u r =
     (let cacheRead = of_int (tokensOr0 (fieldOf (inputTokenDetails u) InputDetails.cacheReadTokens));
          cacheWrite = of_int (tokensOr0 (fieldOf (inputTokenDetails u) InputDetails.cacheWriteTokens));
          reasoning = of_int (tokensOr0 (fieldOf (outputTokenDetails u) OutputDetails.reasoningTokens))
      in ((of_int (tokensOr0 (inputTokens u)) - cacheRead - cacheWrite) * rateValue (rateInput r)
          + cacheRead * rateValue (rateOr (rateCacheRead r) (rateInput r))
          + cacheWrite * rateValue (rateOr (rateCacheWrite r) (rateInput r))
          + (of_int (tokensOr0 (outputTokens u)) - reasoning) * rateValue (rateOutput r)
          + reasoning * rateValue (rateOr (rateReasoning r) (rateOutput r))) / 10 ^ 6)"

lemma cost_algebra:
  fixes i o1 r cr cw :: rat
  assumes "of_int ki / 10 ^ k = i" "of_int ko / 10 ^ k = o1" "of_int kr / 10 ^ k = r"
    "of_int kcr / 10 ^ k = cr" "of_int kcw / 10 ^ k = cw"
  shows "of_int (ti * ki + to * ko + tr * (kr - ko) + tcr * (kcr - ki) + tcw * (kcw - ki)) / 10 ^ (k + 6)
    = ((of_int ti - of_int tcr - of_int tcw) * i + of_int tcr * cr + of_int tcw * cw
       + (of_int to - of_int tr) * o1 + of_int tr * r) / 10 ^ 6"
proof -
  have "of_int (ti * ki + to * ko + tr * (kr - ko) + tcr * (kcr - ki) + tcw * (kcw - ki)) / 10 ^ k
    = of_int ti * i + of_int to * o1 + of_int tr * (r - o1) + of_int tcr * (cr - i) + of_int tcw * (cw - i)"
    unfolding assms [symmetric] by (simp add: add_divide_distrib diff_divide_distrib right_diff_distrib)
  then have "of_int (ti * ki + to * ko + tr * (kr - ko) + tcr * (kcr - ki) + tcw * (kcw - ki)) / 10 ^ (k + 6)
    = (of_int ti * i + of_int to * o1 + of_int tr * (r - o1) + of_int tcr * (cr - i) + of_int tcw * (cw - i)) / 10 ^ 6"
    by (simp only: power_add) (metis divide_divide_eq_left)
  then show ?thesis by (simp only:) (simp add: algebra_simps)
qed

section \<open>Properties\<close>

text \<open>C11. Whatever a provider reports: a usage that normalisation returns, or keeps beside the details
  it refuses, passes the validation; the reported input and total counts are unchanged, the
  output is never below the reported output, and counts that are all known add up.\<close>

theorem normalizeUsage_valid:
  assumes "carries (normalizeUsage (Some raw) sdkInput) u"
  shows "validateProviderUsage u = Inr u
    \<and> inputTokens u = orElse (input_tokens raw) (prompt_tokens raw)
    \<and> (total_tokens raw \<noteq> None \<longrightarrow> totalTokens u = total_tokens raw)
    \<and> (\<forall>x. orElse (output_tokens raw) (completion_tokens raw) = Some x \<longrightarrow>
         (\<exists>y. outputTokens u = Some (Whole y) \<and> wholeOf x \<le> y))
    \<and> (\<forall>i out n. inputTokens u = Some (Whole i) \<and> outputTokens u = Some (Whole out)
         \<and> totalTokens u = Some (Whole n) \<longrightarrow> n = i + out)"
proof -
  obtain input rawOutput reported reasoning out texts reasonings where *:
    "whole input = orElse (input_tokens raw) (prompt_tokens raw)"
    "whole rawOutput = orElse (output_tokens raw) (completion_tokens raw)"
    "whole reported = total_tokens raw" "\<forall>n. reasoning = Some n \<longrightarrow> 0 \<le> n"
    "reconcile input rawOutput reported reasoning = Inr (out, texts, reasonings)"
    "checkProviderUsage u = Inr ()" "inputTokens u = whole input" "outputTokens u = whole out"
    "totalTokens u = whole (orElse reported
       (if input \<noteq> None \<and> out \<noteq> None then Some (the input + the out) else None))"
    by (rule normalizeUsage_carries [OF assms])
  have "\<exists>y. outputTokens u = Some (Whole y) \<and> wholeOf x \<le> y"
    if "orElse (output_tokens raw) (completion_tokens raw) = Some x" for x
  proof -
    from that *(2) obtain n where n: "rawOutput = Some n" "x = Whole n"
      by (cases rawOutput) (auto simp: whole_def)
    then obtain y where "out = Some y" "n \<le> y"
      using reconcile_output [OF *(5) [unfolded n(1)] *(4)] by blast
    then show ?thesis using *(8) n by (simp add: whole_def)
  qed
  moreover have "n = i + p" if "inputTokens u = Some (Whole i)" "outputTokens u = Some (Whole p)"
    "totalTokens u = Some (Whole n)" for i p n
    using *(6) that
    by (auto simp: checkProviderUsage_def knownTokens_def andThen_Inr_iff split: if_splits)
  moreover have "total_tokens raw \<noteq> None \<longrightarrow> totalTokens u = total_tokens raw"
    using *(3,9) by (auto simp: whole_def orElse_def split: option.splits)
  ultimately show ?thesis using *(1,6,7) by (auto simp: validateProviderUsage_def)
qed

definition reasoningReport :: RawUsage where
  "reasoningReport =
     \<lparr>input_tokens = Some (Whole 10), output_tokens = Some (Whole 4), prompt_tokens = None,
      completion_tokens = None, total_tokens = Some (Whole 20), cached_tokens = Some (Whole 3),
      cache_creation_input_tokens = None, cache_read_input_tokens = None,
      prompt_cache_hit_tokens = None, prompt_cache_miss_tokens = None, prompt_tokens_details = None,
      input_tokens_details = None, completion_reasoning_tokens = None,
      output_reasoning_tokens = Some (Whole 6), reasoning_tokens = None\<rparr>"

definition reasoningUsage :: ProviderUsage where
  "reasoningUsage =
     \<lparr>inputTokens = Some (Whole 10), outputTokens = Some (Whole 10), totalTokens = Some (Whole 20),
      inputTokenDetails = Some \<lparr>noCacheTokens = None, cacheReadTokens = Some (Whole 3),
        cacheWriteTokens = None\<rparr>,
      outputTokenDetails = Some \<lparr>textTokens = Some (Whole 4), reasoningTokens = Some (Whole 6)\<rparr>\<rparr>"

theorem normalizeUsage_valid_witness:
  "validateProviderUsage reasoningUsage = Inr reasoningUsage"
proof -
  have "normalizeUsage (Some reasoningReport) None = Inr (Some reasoningUsage)" by code_simp
  then have "carries (normalizeUsage (Some reasoningReport) None) reasoningUsage"
    by (simp add: carries_def)
  from normalizeUsage_valid [OF this] show ?thesis by simp
qed

lemma costAt_exact:
  assumes "costAt ri ro rr rcr rcw ti to tr tcr tcw = Inr (Some s)"
  shows "decimalValue s
    = ((of_int ti - of_int tcr - of_int tcw) * rateValue ri + of_int tcr * rateValue rcr
       + of_int tcw * rateValue rcw + (of_int to - of_int tr) * rateValue ro
       + of_int tr * rateValue rr) / 10 ^ 6"
proof -
  from assms obtain pi po pr pcr pcw where
    p: "decimalParts ri = Inr pi" "decimalParts ro = Inr po" "decimalParts rr = Inr pr"
      "decimalParts rcr = Inr pcr" "decimalParts rcw = Inr pcw"
    unfolding costAt_def by (elim andThen_InrE) blast
  define k where "k = Max (set (map snd [pi, po, pr, pcr, pcw]))"
  define sc where "sc = (\<lambda>p :: int \<times> nat. fst p * 10 ^ (k - snd p))"
  define c where "c = ti * sc pi + to * sc po + tr * (sc pr - sc po) + tcr * (sc pcr - sc pi)
    + tcw * (sc pcw - sc pi)"
  have le: "snd pi \<le> k" "snd po \<le> k" "snd pr \<le> k" "snd pcr \<le> k" "snd pcw \<le> k"
    unfolding k_def by (auto intro: Max_ge)
  have "(if c < 0 then Inl NegativeEstimate else Inr (Some (canonicalDecimal (nat c) (k + 6)))) = Inr (Some s)"
    using assms unfolding costAt_def p andThen_simps Let_def k_def [symmetric] c_def sc_def .
  then have c: "0 \<le> c" "s = canonicalDecimal (nat c) (k + 6)" by (auto split: if_splits)
  note v = scaled_value [OF p(1) le(1)] scaled_value [OF p(2) le(2)] scaled_value [OF p(3) le(3)]
    scaled_value [OF p(4) le(4)] scaled_value [OF p(5) le(5)]
  have "decimalValue s = of_int c / 10 ^ (k + 6)"
    using c canonicalDecimal_value [of "nat c" "k + 6"] by (simp only: of_nat_nat)
  then show ?thesis
    unfolding c_def sc_def by (simp only: cost_algebra [OF v])
qed

text \<open>The cost of a usage is exact: the decimal that is returned denotes the sum of the tokens of
  each category at their rate, per million, without any rounding.\<close>

lemma cost_exact:
  assumes "calculateCostUsdDecimal u r = Inr (Some s)"
  shows "decimalValue s = exactCost u r"
proof -
  from assms have "costAt (rateInput r) (rateOutput r) (rateOr (rateReasoning r) (rateOutput r))
      (rateOr (rateCacheRead r) (rateInput r)) (rateOr (rateCacheWrite r) (rateInput r))
      (tokensOr0 (inputTokens u)) (tokensOr0 (outputTokens u))
      (tokensOr0 (fieldOf (outputTokenDetails u) OutputDetails.reasoningTokens))
      (tokensOr0 (fieldOf (inputTokenDetails u) InputDetails.cacheReadTokens))
      (tokensOr0 (fieldOf (inputTokenDetails u) InputDetails.cacheWriteTokens)) = Inr (Some s)"
    unfolding calculateCostUsdDecimal_def Let_def by (elim andThen_InrE) (simp split: if_splits)
  from costAt_exact [OF this] show ?thesis unfolding exactCost_def Let_def .
qed

definition smallUsage :: ProviderUsage where
  "smallUsage =
     \<lparr>inputTokens = Some (Whole 1), outputTokens = Some (Whole 2), totalTokens = None,
      inputTokenDetails = None, outputTokenDetails = None\<rparr>"

definition exampleRates :: TokenRates where
  "exampleRates = \<lparr>rateInput = js ''0.5'', rateOutput = js ''2'', rateReasoning = None,
     rateCacheRead = None, rateCacheWrite = None\<rparr>"

lemma cost_exact_witness:
  "exactCost smallUsage exampleRates = 45 / 10 ^ 7"
proof -
  have "calculateCostUsdDecimal smallUsage exampleRates = Inr (Some (js ''0.0000045''))"
    by code_simp
  from cost_exact [OF this] have "exactCost smallUsage exampleRates = decimalValue (js ''0.0000045'')"
    by simp
  also have "\<dots> = 45 / 10 ^ 7" by code_simp
  finally show ?thesis .
qed

end
