(* ===== verification/Cost.thy ===== *)
theory Cost
  imports Usage
begin

text \<open>
  \<^verbatim>\<open>plurnk-providers/src/cost.ts\<close>: what a request cost, charged by the provider, estimated from the
  rates or unknown; its validation; and the sum of costs in US dollars, which is exact and exists
  only when every cost has a dollar amount. Values have their declared types, so the checks that
  a value is an object or a string, and the unknown kind, do not arise.
\<close>

record Money =
  amount :: jsstr
  currency :: jsstr

datatype ProviderCost =
    Charged Money "jsstr option" jsstr
  | Estimated Money jsstr
  | UnknownCost jsstr

datatype CostError =
    NotDecimal jsstr
  | NotCurrency jsstr
  | EmptySource
  | EmptyReason
  | CostUsage UsageError

text \<open>\<open>/^(?:0|[1-9]\d*)(?:\.\d+)?$/\<close>.\<close>

definition isDecimal :: "jsstr \<Rightarrow> bool" where
  "isDecimal s \<longleftrightarrow>
     (let i = takeWhile isDigit s; rest = dropWhile isDigit s
      in i \<noteq> [] \<and> (hd i = 48 \<longrightarrow> length i = 1)
         \<and> (rest = [] \<or> (hd rest = DOT \<and> tl rest \<noteq> [] \<and> list_all isDigit (tl rest))))"

definition upperLetter :: "jschar \<Rightarrow> bool" where
  "upperLetter c \<longleftrightarrow> 65 \<le> c \<and> c \<le> 90"

text \<open>\<open>/^[A-Z][A-Z0-9]{2,11}$/\<close>.\<close>

definition isCurrency :: "jsstr \<Rightarrow> bool" where
  "isCurrency s \<longleftrightarrow> 3 \<le> length s \<and> length s \<le> 12 \<and> upperLetter (hd s)
     \<and> list_all (\<lambda>c. upperLetter c \<or> isDigit c) (tl s)"

definition validateDecimal :: "jsstr \<Rightarrow> CostError + jsstr" where
  "validateDecimal s = (if \<not> isDecimal s then Inl (NotDecimal s) else Inr s)"

definition monetaryAmount :: "Money \<Rightarrow> CostError + Money" where
  "monetaryAmount m =
     andThen (validateDecimal (amount m)) (\<lambda>a.
       if \<not> isCurrency (currency m) then Inl (NotCurrency (currency m))
       else Inr \<lparr>amount = a, currency = currency m\<rparr>)"

definition nonEmptyText :: "jsstr \<Rightarrow> CostError \<Rightarrow> CostError + unit" where
  "nonEmptyText s e = (if trim s = [] then Inl e else Inr ())"

definition checkProviderCost :: "ProviderCost \<Rightarrow> CostError + unit" where
  "checkProviderCost cost =
     (case cost of
        Charged m usd source \<Rightarrow>
          andThen (monetaryAmount m) (\<lambda>_.
          andThen (case usd of None \<Rightarrow> Inr [] | Some d \<Rightarrow> validateDecimal d) (\<lambda>_.
            nonEmptyText source EmptySource))
      | Estimated m source \<Rightarrow> andThen (monetaryAmount m) (\<lambda>_. nonEmptyText source EmptySource)
      | UnknownCost reason \<Rightarrow> nonEmptyText reason EmptyReason)"

definition validateProviderCost :: "ProviderCost \<Rightarrow> CostError + ProviderCost" where
  "validateProviderCost cost = andThen (checkProviderCost cost) (\<lambda>_. Inr cost)"

definition USD :: jsstr where "USD = js ''USD''"

definition estimateProviderCost ::
  "ProviderUsage option \<Rightarrow> TokenRates option \<Rightarrow> jsstr \<Rightarrow> CostError + ProviderCost" where
  "estimateProviderCost usage rates source =
     (case usage of
        None \<Rightarrow> Inr (UnknownCost (js ''the provider response reported no normalized usage''))
      | Some u \<Rightarrow> (case rates of
          None \<Rightarrow> Inr (UnknownCost (js ''Models.dev has no complete rate for this model''))
        | Some r \<Rightarrow> (case calculateCostUsdDecimal u r of
            Inl e \<Rightarrow> Inl (CostUsage e)
          | Inr None \<Rightarrow> Inr (UnknownCost
              (js ''the provider response omitted a token category with a distinct Models.dev rate''))
          | Inr (Some usd) \<Rightarrow> Inr (Estimated \<lparr>amount = usd, currency = USD\<rparr> source))))"

definition resolveProviderCost :: "ProviderCost option \<Rightarrow> ProviderCost \<Rightarrow> CostError + ProviderCost" where
  "resolveProviderCost direct estimated =
     (case direct of None \<Rightarrow> validateProviderCost estimated | Some d \<Rightarrow> validateProviderCost d)"

definition providerCostUsd :: "ProviderCost \<Rightarrow> CostError + jsstr option" where
  "providerCostUsd cost =
     andThen (validateProviderCost cost) (\<lambda>validated. Inr (
       case validated of
         Charged m usd source \<Rightarrow> if currency m = USD then Some (amount m) else usd
       | Estimated m source \<Rightarrow> if currency m = USD then Some (amount m) else None
       | UnknownCost reason \<Rightarrow> None))"

text \<open>\<open>value.split(".")\<close>, the first two parts.\<close>

definition decimalTextParts :: "jsstr \<Rightarrow> CostError + nat \<times> nat" where
  "decimalTextParts s =
     andThen (validateDecimal s) (\<lambda>_.
       let i = takeWhile (\<lambda>c. c \<noteq> DOT) s; f = tl (dropWhile (\<lambda>c. c \<noteq> DOT) s)
       in Inr (nat (digitsValue (i @ f)), length f))"

definition addDecimals :: "jsstr list \<Rightarrow> CostError + jsstr" where
  "addDecimals values =
     andThen (mapResult decimalTextParts values) (\<lambda>parts.
       let scale = Max (insert 0 (set (map snd parts)));
           coefficient = foldl (\<lambda>sum p. sum + fst p * 10 ^ (scale - snd p)) 0 parts
       in Inr (canonicalDecimal coefficient scale))"

definition sumProviderCostsUsd :: "ProviderCost list \<Rightarrow> CostError + jsstr option" where
  "sumProviderCostsUsd costs =
     andThen (mapResult providerCostUsd costs) (\<lambda>values.
       if list_ex (\<lambda>v. v = None) values then Inr None
       else andThen (addDecimals (map the values)) (\<lambda>s. Inr (Some s)))"

section \<open>The sum is exact\<close>

lemma dot_digits: "isDigit c \<Longrightarrow> c \<noteq> DOT"
  by (auto simp: isDigit_def DOT_def)

text \<open>A canonical decimal is its integer digits, and a dot and fraction digits or nothing.\<close>

lemma isDecimal_cases:
  assumes "isDecimal s"
  obtains i f where "list_all isDigit i" "list_all isDigit f" "i \<noteq> []"
    "s = i \<and> f = [] \<or> s = i @ DOT # f \<and> f \<noteq> []"
proof -
  let ?i = "takeWhile isDigit s" and ?rest = "dropWhile isDigit s"
  have i: "list_all isDigit ?i" by (auto simp: list_all_iff dest: set_takeWhileD)
  have s: "s = ?i @ ?rest" by simp
  have "?i \<noteq> []" using assms by (simp add: isDecimal_def Let_def)
  moreover have "?rest = []
      \<or> (hd ?rest = DOT \<and> ?rest \<noteq> [] \<and> tl ?rest \<noteq> [] \<and> list_all isDigit (tl ?rest))"
    using assms by (auto simp: isDecimal_def Let_def)
  ultimately consider "?i \<noteq> []" "?rest = []"
    | "?i \<noteq> []" "?rest = DOT # tl ?rest" "list_all isDigit (tl ?rest)" "tl ?rest \<noteq> []"
    by (metis list.collapse)
  then show ?thesis
  proof cases
    case 1
    then show ?thesis using that [OF i _ 1(1), of "[]"] s by (metis append_Nil2 list.pred_inject(1))
  next
    case 2
    then show ?thesis using that [OF i 2(3) 2(1)] s 2(2,4) by metis
  qed
qed

lemma decimalTextParts_value:
  assumes "decimalTextParts s = Inr p"
  shows "decimalValue s = of_nat (fst p) / 10 ^ snd p"
proof -
  have dec: "isDecimal s" using assms by (auto simp: decimalTextParts_def validateDecimal_def split: if_splits)
  then obtain i f where if_: "list_all isDigit i" "list_all isDigit f" "i \<noteq> []"
    "s = i \<and> f = [] \<or> s = i @ DOT # f \<and> f \<noteq> []" by (rule isDecimal_cases)
  have nodot: "\<And>c. c \<in> set i \<Longrightarrow> c \<noteq> DOT" using if_(1) dot_digits by (auto simp: list_all_iff)
  have plain: "takeWhile (\<lambda>c. c \<noteq> DOT) i = i" "dropWhile (\<lambda>c. c \<noteq> DOT) i = []"
    "takeWhile (\<lambda>c. c \<noteq> DOT) (i @ DOT # f) = i" "dropWhile (\<lambda>c. c \<noteq> DOT) (i @ DOT # f) = DOT # f"
    using nodot by (induction i) auto
  have split: "takeWhile (\<lambda>c. c \<noteq> DOT) s = i" "tl (dropWhile (\<lambda>c. c \<noteq> DOT) s) = f"
    using if_(4) by (elim disjE; simp add: plain)+
  have "decimalValue s = of_int (digitsValue (i @ f)) / 10 ^ length f"
    by (rule decimalValue_parts [OF if_(1)]) (use if_(4) in auto)
  moreover have "0 \<le> digitsValue (i @ f)"
    by (rule digitsValue_nonneg) (simp add: if_ list_all_append)
  moreover have "p = (nat (digitsValue (i @ f)), length f)"
    using assms dec unfolding decimalTextParts_def validateDecimal_def Let_def split by simp
  ultimately show ?thesis by (simp del: digitsValue_simps)
qed

lemma foldl_sum: "foldl (\<lambda>sum p. sum + g p) (a :: nat) ps = a + sum_list (map g ps)"
  by (induction ps arbitrary: a) simp_all

lemma addDecimals_value:
  assumes "addDecimals values = Inr s"
  shows "decimalValue s = sum_list (map decimalValue values)"
proof -
  from assms obtain parts where parts: "mapResult decimalTextParts values = Inr parts"
    unfolding addDecimals_def by (rule andThen_InrE)
  define k where "k = Max (insert 0 (set (map snd parts)))"
  have s: "s = canonicalDecimal (sum_list (map (\<lambda>p. fst p * 10 ^ (k - snd p)) parts)) k"
    using assms by (simp add: addDecimals_def parts Let_def k_def foldl_sum)
  have le: "snd p \<le> k" if "p \<in> set parts" for p
    unfolding k_def using that by (intro Max_ge) auto
  have "decimalValue s = of_nat (sum_list (map (\<lambda>p. fst p * 10 ^ (k - snd p)) parts)) / 10 ^ k"
    unfolding s by (rule canonicalDecimal_value)
  also have "\<dots> = sum_list (map (\<lambda>p. of_nat (fst p) / 10 ^ snd p) parts)"
  proof -
    have "of_nat (fst p * 10 ^ (k - snd p)) / 10 ^ k = (of_nat (fst p) / 10 ^ snd p :: rat)"
      if "p \<in> set parts" for p
    proof -
      have "(10 :: rat) ^ k = 10 ^ (k - snd p) * 10 ^ snd p" using le [OF that] by (simp flip: power_add)
      then show ?thesis by simp
    qed
    moreover have "of_nat (sum_list (map h ps)) / c = sum_list (map (\<lambda>p. of_nat (h p) / (c :: rat)) ps)"
      for h :: "nat \<times> nat \<Rightarrow> nat" and ps c
      by (induction ps) (simp_all add: add_divide_distrib)
    ultimately show ?thesis by (simp cong: map_cong)
  qed
  also have "\<dots> = sum_list (map decimalValue values)"
  proof -
    have "list_all2 (\<lambda>v p. decimalTextParts v = Inr p) values parts"
      using parts by (simp add: mapResult_Inr)
    then show ?thesis by (induction rule: list_all2_induct) (simp_all add: decimalTextParts_value)
  qed
  finally show ?thesis .
qed

lemma validateProviderCost_Inr: "validateProviderCost c = Inr c' \<Longrightarrow> c' = c"
  by (auto simp: validateProviderCost_def andThen_Inr_iff)

text \<open>C12. The total of several costs is exact, and it is honest: it is given only when each cost has a
  dollar amount, and then it denotes the sum of those amounts; one cost without a dollar amount
  makes the total unknown rather than too small.\<close>

theorem cost_sum_exact:
  assumes "sumProviderCostsUsd costs = Inr outcome"
  shows "\<exists>usds. list_all2 (\<lambda>c u. providerCostUsd c = Inr u) costs usds
    \<and> (case outcome of
         None \<Rightarrow> None \<in> set usds
       | Some s \<Rightarrow> None \<notin> set usds \<and> decimalValue s = sum_list (map (\<lambda>u. decimalValue (the u)) usds))"
proof -
  from assms obtain usds where u: "mapResult providerCostUsd costs = Inr usds"
    "(if list_ex (\<lambda>v. v = None) usds then Inr None
      else andThen (addDecimals (map the usds)) (\<lambda>s. Inr (Some s))) = Inr outcome"
    unfolding sumProviderCostsUsd_def by (rule andThen_InrE)
  have all: "list_all2 (\<lambda>c u. providerCostUsd c = Inr u) costs usds" using u(1) by (simp add: mapResult_Inr)
  show ?thesis
  proof (cases "None \<in> set usds")
    case True
    then show ?thesis using u(2) all by (auto simp: list_ex_iff)
  next
    case False
    then obtain s where "addDecimals (map the usds) = Inr s" "outcome = Some s"
      using u(2) by (auto simp: list_ex_iff andThen_Inr_iff)
    then show ?thesis using all False addDecimals_value [of "map the usds" s] by (auto simp: comp_def)
  qed
qed

theorem cost_sum_exact_witness:
  "decimalValue (js ''1.25'') = decimalValue (js ''0.75'') + decimalValue (js ''0.5'')"
proof -
  let ?a = "Estimated \<lparr>amount = js ''0.75'', currency = USD\<rparr> (js ''models.dev'')"
  let ?b = "Charged \<lparr>amount = js ''1'', currency = js ''EUR''\<rparr> (Some (js ''0.5'')) (js ''invoice'')"
  have "sumProviderCostsUsd [?a, ?b] = Inr (Some (js ''1.25''))" by code_simp
  from cost_sum_exact [OF this]
  obtain u v where "providerCostUsd ?a = Inr u" "providerCostUsd ?b = Inr v"
    "decimalValue (js ''1.25'') = decimalValue (the u) + decimalValue (the v)"
    by (auto simp: list_all2_Cons1)
  moreover have "providerCostUsd ?a = Inr (Some (js ''0.75''))" "providerCostUsd ?b = Inr (Some (js ''0.5''))"
    by code_simp+
  ultimately show ?thesis by (metis Inr_inject option.sel)
qed

end
