(* ===== verification/Capacity.thy ===== *)
theory Capacity
  imports Usage
begin

text \<open>
  \<^verbatim>\<open>plurnk-providers/src/capacity.ts\<close> and the measurement check of \<^verbatim>\<open>promptTokens.ts\<close>: how a
  model's window and limits, the output budget and floor, and the measured prompt decide whether
  a request is sent and how many tokens its response may take.

  A limit or a count is a \<open>jsnum\<close> or \<open>null\<close> where the source checks it to be a positive safe
  integer; the configured output limit, which it does not check, and the numbers derived from
  checked ones are integers. Error constructors stand for the messages, in the order of the
  checks.
\<close>

datatype CapacityError =
    NotPositive jsstr
  | MeasurementTokens
  | MeasurementSource
  | MeasurementDetail
  | ReasoningNeedsOutput
  | ReasoningLeavesNothing
  | BudgetFillsWindow int int
  | FloorFillsWindow int int
  | PromptNotCount int
  | ReasoningNotSubset

definition positiveOrNull :: "jsnum option \<Rightarrow> jsstr \<Rightarrow> CapacityError + int option" where
  "positiveOrNull value label =
     (case value of
        None \<Rightarrow> Inr None
      | Some x \<Rightarrow> if \<not> isSafeInteger x \<or> wholeOf x \<le> 0 then Inl (NotPositive label)
                  else Inr (Some (wholeOf x)))"

text \<open>\<open>Math.min(...values)\<close> over the values that are not \<open>null\<close>.\<close>

definition known :: "'a option list \<Rightarrow> 'a list" where
  "known values = concat (map (\<lambda>v. case v of None \<Rightarrow> [] | Some x \<Rightarrow> [x]) values)"

definition minKnown :: "int option list \<Rightarrow> int option" where
  "minKnown values = (if known values = [] then None else Some (Min (set (known values))))"

definition effectiveOutputBudget ::
  "jsnum option \<Rightarrow> int option \<Rightarrow> jsnum option \<Rightarrow> jsnum option \<Rightarrow> CapacityError + int option" where
  "effectiveOutputBudget requested configured maxOutputTokens contextWindow =
     andThen (positiveOrNull requested (js ''maxOutputTokens'')) (\<lambda>req.
       if known [req, configured] = [] then Inr None
       else andThen (positiveOrNull maxOutputTokens (js ''maxOutputTokens'')) (\<lambda>out.
            andThen (positiveOrNull contextWindow (js ''contextWindow'')) (\<lambda>win.
              Inr (minKnown [req, configured, out, win]))))"

definition effectiveReasoningBudget ::
  "jsnum option \<Rightarrow> jsnum option \<Rightarrow> CapacityError + int option" where
  "effectiveReasoningBudget configured outputBudget =
     andThen (positiveOrNull configured (js ''reasoningBudget'')) (\<lambda>conf.
     andThen (positiveOrNull outputBudget (js ''outputBudget'')) (\<lambda>budget.
       case conf of
         None \<Rightarrow> Inr None
       | Some c \<Rightarrow> (case budget of
           None \<Rightarrow> Inl ReasoningNeedsOutput
         | Some b \<Rightarrow> if b < 2 then Inl ReasoningLeavesNothing else Inr (Some (min c (b - 1))))))"

definition effectiveOutputFloor ::
  "jsnum option \<Rightarrow> jsnum option \<Rightarrow> CapacityError + int option" where
  "effectiveOutputFloor configured outputBudget =
     andThen (positiveOrNull configured (js ''outputFloor'')) (\<lambda>conf.
     andThen (positiveOrNull outputBudget (js ''outputBudget'')) (\<lambda>budget.
       Inr (case (conf, budget) of (Some c, Some b) \<Rightarrow> Some (min c b) | _ \<Rightarrow> conf)))"

text \<open>What the window leaves beside a reservation, and the least of the known limits.\<close>

definition beside :: "int option \<Rightarrow> int option \<Rightarrow> int option" where
  "beside window reserved =
     (case (window, reserved) of (Some w, Some r) \<Rightarrow> Some (w - r) | _ \<Rightarrow> None)"

definition effectiveInputCapacity ::
  "jsnum option \<Rightarrow> jsnum option \<Rightarrow> jsnum option \<Rightarrow> CapacityError + int option" where
  "effectiveInputCapacity contextWindow maxInputTokens outputBudget =
     andThen (positiveOrNull contextWindow (js ''contextWindow'')) (\<lambda>win.
     andThen (positiveOrNull maxInputTokens (js ''maxInputTokens'')) (\<lambda>inp.
     andThen (positiveOrNull outputBudget (js ''outputBudget'')) (\<lambda>budget.
       let combined = beside win budget in
       if combined \<noteq> None \<and> the combined \<le> 0 then Inl (BudgetFillsWindow (the budget) (the win))
       else Inr (minKnown [inp, combined]))))"

definition effectiveInputWall ::
  "jsnum option \<Rightarrow> jsnum option \<Rightarrow> jsnum option \<Rightarrow> CapacityError + int option" where
  "effectiveInputWall contextWindow maxInputTokens outputFloor =
     andThen (positiveOrNull contextWindow (js ''contextWindow'')) (\<lambda>win.
     andThen (positiveOrNull maxInputTokens (js ''maxInputTokens'')) (\<lambda>inp.
     andThen (positiveOrNull outputFloor (js ''outputFloor'')) (\<lambda>floor.
       let windowWall = beside win floor in
       if windowWall \<noteq> None \<and> the windowWall \<le> 0 then Inl (FloorFillsWindow (the floor) (the win))
       else Inr (minKnown [inp, windowWall]))))"

definition WIRE_FLEX_MARGIN :: int where "WIRE_FLEX_MARGIN = 256"

definition flexedResponseMax ::
  "int option \<Rightarrow> int option \<Rightarrow> int option \<Rightarrow> int option \<Rightarrow> int option \<Rightarrow> int \<Rightarrow> bool
     \<Rightarrow> CapacityError + int option" where
  "flexedResponseMax contextWindow maxOutputTokens outputBudget outputFloor promptTokens margin exact =
     (case (outputBudget, contextWindow, promptTokens) of
        (Some budget, Some window, Some prompt) \<Rightarrow>
          if \<not> safeInt prompt \<or> prompt < 0 then Inl (PromptNotCount prompt)
          else let least = (case outputFloor of None \<Rightarrow> budget | Some f \<Rightarrow> f);
                   remainder = window - prompt - margin
               in if \<not> exact then Inr (Some (max least (min budget remainder)))
                  else let flexed = max least remainder
                       in Inr (Some (case maxOutputTokens of
                            None \<Rightarrow> flexed | Some m \<Rightarrow> min flexed (max budget m)))
      | _ \<Rightarrow> Inr outputBudget)"

section \<open>Measurements and the decision\<close>

datatype PromptTokenMeasurement =
    ExactCount jsnum jsstr
  | UpperBound jsnum jsstr
  | Estimate jsnum jsstr jsstr
  | Unavailable jsstr jsstr

datatype CapacityDecision = Admit | Reject | Defer

fun measuredTokens :: "PromptTokenMeasurement \<Rightarrow> jsnum option" where
  "measuredTokens (ExactCount n s) = Some n"
| "measuredTokens (UpperBound n s) = Some n"
| "measuredTokens (Estimate n s d) = Some n"
| "measuredTokens (Unavailable s d) = None"

fun measurementSource :: "PromptTokenMeasurement \<Rightarrow> jsstr" where
  "measurementSource (ExactCount n s) = s"
| "measurementSource (UpperBound n s) = s"
| "measurementSource (Estimate n s d) = s"
| "measurementSource (Unavailable s d) = s"

fun missingDetail :: "PromptTokenMeasurement \<Rightarrow> bool" where
  "missingDetail (Estimate n s d) \<longleftrightarrow> d = []"
| "missingDetail (Unavailable s d) \<longleftrightarrow> d = []"
| "missingDetail m \<longleftrightarrow> False"

definition assertPromptTokenMeasurement ::
  "PromptTokenMeasurement \<Rightarrow> CapacityError + PromptTokenMeasurement" where
  "assertPromptTokenMeasurement m =
     (if (case measuredTokens m of None \<Rightarrow> False | Some n \<Rightarrow> \<not> isSafeInteger n \<or> wholeOf n < 0)
      then Inl MeasurementTokens
      else if measurementSource m = [] then Inl MeasurementSource
      else if missingDetail m then Inl MeasurementDetail
      else Inr m)"

definition requestCapacityDecision ::
  "int option \<Rightarrow> PromptTokenMeasurement \<Rightarrow> CapacityError + CapacityDecision" where
  "requestCapacityDecision inputWall measurement =
     andThen (assertPromptTokenMeasurement measurement) (\<lambda>prompt. Inr (
       case inputWall of None \<Rightarrow> Defer | Some wall \<Rightarrow>
       (case prompt of
          ExactCount n s \<Rightarrow> if wholeOf n \<le> wall then Admit else Reject
        | UpperBound n s \<Rightarrow> if wholeOf n \<le> wall then Admit else Defer
        | _ \<Rightarrow> Defer)))"

record RequestCapacity =
  capDecision :: CapacityDecision
  capWindow :: "int option"
  capMaxInput :: "int option"
  capMaxOutput :: "int option"
  capOutputBudget :: "int option"
  capOutputFloor :: "int option"
  capReasoning :: "int option"
  capInput :: "int option"
  capWall :: "int option"
  capResponseMax :: "int option"

definition isExact :: "PromptTokenMeasurement \<Rightarrow> bool" where
  "isExact m = (case m of ExactCount n s \<Rightarrow> True | _ \<Rightarrow> False)"

definition assessRequestCapacity ::
  "jsnum option \<Rightarrow> jsnum option \<Rightarrow> jsnum option \<Rightarrow> jsnum option \<Rightarrow> jsnum option \<Rightarrow> jsnum option
     \<Rightarrow> PromptTokenMeasurement \<Rightarrow> CapacityError + RequestCapacity" where
  "assessRequestCapacity contextWindow maxInputTokens maxOutputTokens outputBudget outputFloor
     reasoningBudget measurement =
     andThen (positiveOrNull contextWindow (js ''contextWindow'')) (\<lambda>win.
     andThen (positiveOrNull maxInputTokens (js ''maxInputTokens'')) (\<lambda>inp.
     andThen (positiveOrNull maxOutputTokens (js ''maxOutputTokens'')) (\<lambda>out.
     andThen (positiveOrNull outputBudget (js ''outputBudget'')) (\<lambda>budget.
     andThen (positiveOrNull reasoningBudget (js ''reasoningBudget'')) (\<lambda>reasoning.
       if (case reasoning of None \<Rightarrow> False
           | Some r \<Rightarrow> (case budget of None \<Rightarrow> True | Some b \<Rightarrow> b \<le> r))
       then Inl ReasoningNotSubset
       else
     andThen (assertPromptTokenMeasurement measurement) (\<lambda>prompt.
     andThen (effectiveOutputFloor outputFloor outputBudget) (\<lambda>floor.
     andThen (effectiveInputCapacity contextWindow maxInputTokens outputBudget) (\<lambda>inputCapacity.
     andThen (effectiveInputWall contextWindow maxInputTokens (whole floor)) (\<lambda>inputWall.
     andThen (flexedResponseMax win out budget floor (map_option wholeOf (measuredTokens prompt))
                WIRE_FLEX_MARGIN (isExact prompt)) (\<lambda>responseMax.
     andThen (requestCapacityDecision inputWall prompt) (\<lambda>decision.
       Inr \<lparr>capDecision = decision, capWindow = win, capMaxInput = inp, capMaxOutput = out,
            capOutputBudget = budget, capOutputFloor = floor, capReasoning = reasoning,
            capInput = inputCapacity, capWall = inputWall, capResponseMax = responseMax\<rparr>)))))))))))"

section \<open>What the limits guarantee\<close>

lemma whole_inject [simp]: "whole x = whole y \<longleftrightarrow> x = y"
  by (cases x; cases y) (simp_all add: whole_def)

lemma positiveOrNull_Inr:
  "positiveOrNull v l = Inr x \<Longrightarrow> whole x = v \<and> (\<forall>n. x = Some n \<longrightarrow> 0 < n \<and> safeInt n)"
  by (auto simp: positiveOrNull_def whole_def split: option.splits if_splits elim: isSafeInteger.elims)

lemma minKnown_le: "v \<in> set vs \<Longrightarrow> v = Some x \<Longrightarrow> \<exists>m. minKnown vs = Some m \<and> m \<le> x"
proof -
  assume v: "v \<in> set vs" "v = Some x"
  then have "x \<in> set (known vs)" by (auto simp: known_def intro!: bexI [of _ v])
  then show ?thesis by (auto simp: minKnown_def)
qed

lemma minKnown_None: "minKnown vs = None \<longleftrightarrow> (\<forall>v \<in> set vs. v = None)"
  by (auto simp: minKnown_def known_def split: option.splits)

lemma minKnown_in: "minKnown vs = Some m \<Longrightarrow> Some m \<in> set vs"
proof -
  assume m: "minKnown vs = Some m"
  then have "known vs \<noteq> []" "m = Min (set (known vs))" by (auto simp: minKnown_def split: if_splits)
  then have "m \<in> set (known vs)" by simp
  then show ?thesis by (auto simp: known_def split: option.splits)
qed

lemma flexedResponseMax_bounds:
  assumes "flexedResponseMax (Some window) out (Some budget) fl (Some prompt) margin exact = Inr (Some r)"
    and "fl = Some f" "f \<le> budget"
  shows "f \<le> r" "prompt + margin + f \<le> window \<Longrightarrow> prompt + margin + r \<le> window"
    "\<not> exact \<Longrightarrow> r \<le> budget" "exact \<Longrightarrow> out = Some m \<Longrightarrow> r \<le> max budget m"
  using assms by (auto simp: flexedResponseMax_def Let_def split: if_splits option.splits)

lemma reasoning_strict:
  assumes "effectiveReasoningBudget configured outputBudget = Inr (Some r)"
  shows "\<exists>b. outputBudget = Some (Whole b) \<and> 0 < r \<and> r < b"
proof -
  from assms obtain conf budget where p: "positiveOrNull configured (js ''reasoningBudget'') = Inr conf"
    "positiveOrNull outputBudget (js ''outputBudget'') = Inr budget"
    and r: "(case conf of None \<Rightarrow> Inr None
       | Some c \<Rightarrow> (case budget of None \<Rightarrow> Inl ReasoningNeedsOutput
         | Some b \<Rightarrow> if b < 2 then Inl ReasoningLeavesNothing else Inr (Some (min c (b - 1)))))
       = Inr (Some r)"
    unfolding effectiveReasoningBudget_def by (elim andThen_InrE)
  then obtain c b where "conf = Some c" "budget = Some b" "\<not> b < 2" "r = min c (b - 1)"
    by (auto split: option.splits if_splits)
  then show ?thesis
    using positiveOrNull_Inr [OF p(1)] positiveOrNull_Inr [OF p(2)] by (auto simp: whole_def)
qed

text \<open>The parts of an assessment.\<close>

lemma assessRequestCapacity_parts:
  assumes "assessRequestCapacity cw mi mo ob fl rb m = Inr c"
  shows "whole (capWindow c) = cw" "whole (capMaxInput c) = mi" "whole (capOutputBudget c) = ob"
    "whole (capMaxOutput c) = mo"
    "effectiveOutputFloor fl ob = Inr (capOutputFloor c)"
    "effectiveInputCapacity cw mi ob = Inr (capInput c)"
    "effectiveInputWall cw mi (whole (capOutputFloor c)) = Inr (capWall c)"
    "assertPromptTokenMeasurement m = Inr m"
    "requestCapacityDecision (capWall c) m = Inr (capDecision c)"
    "flexedResponseMax (capWindow c) (capMaxOutput c) (capOutputBudget c) (capOutputFloor c)
       (map_option wholeOf (measuredTokens m)) WIRE_FLEX_MARGIN (isExact m) = Inr (capResponseMax c)"
    "\<And>r. capReasoning c = Some r \<Longrightarrow> \<exists>b. capOutputBudget c = Some b \<and> r < b"
proof -
  have am: "assertPromptTokenMeasurement m = Inr m' \<Longrightarrow> m' = m" for m'
    by (simp add: assertPromptTokenMeasurement_def split: if_splits)
  from assms obtain win inp out budget reasoning prompt where
    p: "positiveOrNull cw (js ''contextWindow'') = Inr win" "positiveOrNull mi (js ''maxInputTokens'') = Inr inp"
      "positiveOrNull mo (js ''maxOutputTokens'') = Inr out" "positiveOrNull ob (js ''outputBudget'') = Inr budget"
    and r: "\<not> (case reasoning of None \<Rightarrow> False
           | Some r \<Rightarrow> (case budget of None \<Rightarrow> True | Some b \<Rightarrow> b \<le> r))"
    and rest: "assertPromptTokenMeasurement m = Inr prompt" "effectiveOutputFloor fl ob = Inr (capOutputFloor c)"
      "effectiveInputCapacity cw mi ob = Inr (capInput c)"
      "effectiveInputWall cw mi (whole (capOutputFloor c)) = Inr (capWall c)"
      "flexedResponseMax win out budget (capOutputFloor c) (map_option wholeOf (measuredTokens prompt))
                WIRE_FLEX_MARGIN (isExact prompt) = Inr (capResponseMax c)"
      "requestCapacityDecision (capWall c) prompt = Inr (capDecision c)"
    and c: "capWindow c = win" "capMaxInput c = inp" "capMaxOutput c = out" "capOutputBudget c = budget"
      "capReasoning c = reasoning"
    unfolding assessRequestCapacity_def
    by (elim andThen_InrE) (auto split: if_split_asm elim!: andThen_InrE)
  show "whole (capWindow c) = cw" "whole (capMaxInput c) = mi" "whole (capOutputBudget c) = ob"
    "whole (capMaxOutput c) = mo"
    using p [THEN positiveOrNull_Inr] c by auto
  show "\<exists>b. capOutputBudget c = Some b \<and> q < b" if "capReasoning c = Some q" for q
    using r c that by (auto split: option.splits)
  have m: "prompt = m" using rest(1) by (rule am)
  show "effectiveOutputFloor fl ob = Inr (capOutputFloor c)"
    "effectiveInputCapacity cw mi ob = Inr (capInput c)"
    "effectiveInputWall cw mi (whole (capOutputFloor c)) = Inr (capWall c)"
    "assertPromptTokenMeasurement m = Inr m"
    "requestCapacityDecision (capWall c) m = Inr (capDecision c)"
    "flexedResponseMax (capWindow c) (capMaxOutput c) (capOutputBudget c) (capOutputFloor c)
       (map_option wholeOf (measuredTokens m)) WIRE_FLEX_MARGIN (isExact m) = Inr (capResponseMax c)"
    using rest c unfolding m by simp_all
qed

lemma effectiveOutputFloor_le:
  assumes "effectiveOutputFloor configured outputBudget = Inr (Some f)" "outputBudget = Some (Whole b)"
  shows "f \<le> b"
proof -
  from assms(1) obtain conf budget where p: "positiveOrNull outputBudget (js ''outputBudget'') = Inr budget"
    and f: "(case (conf, budget) of (Some c, Some b) \<Rightarrow> Some (min c b) | _ \<Rightarrow> conf) = Some f"
    unfolding effectiveOutputFloor_def by (elim andThen_InrE) blast
  have "budget = Some b" using positiveOrNull_Inr [OF p] assms(2) by (cases budget) (auto simp: whole_def)
  then show ?thesis using f by (auto split: option.splits)
qed

text \<open>The response a request may take fits the window: when the window, the budget and a floor are
  known and the prompt is measured, the granted maximum is at least the floor, and whenever the
  floor itself fits beside the prompt and the margin so does the grant; without an exact
  measurement it never exceeds the budget.\<close>

lemma response_fits_window:
  assumes "assessRequestCapacity cw mi mo ob fl rb m = Inr c"
    and "capWindow c = Some window" "capOutputBudget c = Some budget" "capOutputFloor c = Some f"
    and "measuredTokens m = Some n"
  shows "\<exists>r. capResponseMax c = Some r \<and> f \<le> budget \<and> f \<le> r
    \<and> (wholeOf n + WIRE_FLEX_MARGIN + f \<le> window \<longrightarrow> wholeOf n + WIRE_FLEX_MARGIN + r \<le> window)
    \<and> (\<not> isExact m \<longrightarrow> r \<le> budget)"
proof -
  note p = assessRequestCapacity_parts [OF assms(1)]
  have ob: "ob = Some (Whole budget)" using p(3) assms(3) by (simp add: whole_def)
  have floor: "f \<le> budget"
    using effectiveOutputFloor_le [OF p(5) [unfolded assms(4)] ob] .
  have flex: "flexedResponseMax (Some window) (capMaxOutput c) (Some budget) (Some f) (Some (wholeOf n))
      WIRE_FLEX_MARGIN (isExact m) = Inr (capResponseMax c)"
    using p(10) assms(2-5) by simp
  then have "capResponseMax c \<noteq> None"
    by (cases "capResponseMax c") (auto simp: flexedResponseMax_def Let_def split: if_splits)
  then obtain r where "capResponseMax c = Some r" by blast
  then show ?thesis
    using flexedResponseMax_bounds [OF flex [unfolded \<open>capResponseMax c = Some r\<close>] refl floor] floor by blast
qed

text \<open>C13. Admission is sound. A request is admitted only on a prompt that was counted exactly or bounded from above, never on an
  estimate, and only when that number is within every known limit of the input: it leaves the output floor inside the window
  and respects the input limit. It is rejected only on an exact count beyond one of them, and an exact count is undecided only
  when no limit is known.\<close>

theorem admission_sound:
  assumes "assessRequestCapacity cw mi mo ob fl rb m = Inr c"
  shows "(capDecision c = Admit \<longrightarrow> (\<exists>n s. (m = ExactCount n s \<or> m = UpperBound n s)
       \<and> (\<forall>x. capMaxInput c = Some x \<longrightarrow> wholeOf n \<le> x)
       \<and> (\<forall>w f. capWindow c = Some w \<and> capOutputFloor c = Some f \<longrightarrow> wholeOf n + f \<le> w)))
    \<and> (capDecision c = Reject \<longrightarrow> (\<exists>n s. m = ExactCount n s
       \<and> ((\<exists>x. capMaxInput c = Some x \<and> x < wholeOf n)
          \<or> (\<exists>w f. capWindow c = Some w \<and> capOutputFloor c = Some f \<and> w < wholeOf n + f))))
    \<and> (\<forall>n s. m = ExactCount n s \<and> capDecision c = Defer
         \<longrightarrow> capMaxInput c = None \<and> (capWindow c = None \<or> capOutputFloor c = None))"
proof -
  note p = assessRequestCapacity_parts [OF assms]
  have wall: "capWall c = minKnown [capMaxInput c, beside (capWindow c) (capOutputFloor c)]"
  proof -
    show ?thesis
      using p(7) unfolding p(1,2) [symmetric] by (auto simp: effectiveInputWall_def andThen_Inr_iff Let_def
          split: if_splits dest!: positiveOrNull_Inr)
  qed
  have d: "requestCapacityDecision (capWall c) m = Inr (capDecision c)" by (rule p(9))
  have within: "\<exists>m. capWall c = Some m \<and> m \<le> x" if "capMaxInput c = Some x" for x
    unfolding wall by (rule minKnown_le [OF _ that]) simp
  have windowed: "\<exists>m. capWall c = Some m \<and> m \<le> w - f"
    if "capWindow c = Some w" "capOutputFloor c = Some f" for w f
    unfolding wall by (rule minKnown_le [of "beside (capWindow c) (capOutputFloor c)"])
      (simp_all add: that beside_def)
  have least: "capMaxInput c = Some w \<or> beside (capWindow c) (capOutputFloor c) = Some w"
    if "capWall c = Some w" for w
    using minKnown_in [OF that [unfolded wall]] by auto
  have admit: "\<exists>n s w. (m = ExactCount n s \<or> m = UpperBound n s) \<and> capWall c = Some w \<and> wholeOf n \<le> w"
    if "capDecision c = Admit"
    using d that by (auto simp: requestCapacityDecision_def andThen_Inr_iff p(8)
        split: option.splits PromptTokenMeasurement.splits if_splits)
  have reject: "\<exists>n s w. m = ExactCount n s \<and> capWall c = Some w \<and> w < wholeOf n"
    if "capDecision c = Reject"
    using d that by (auto simp: requestCapacityDecision_def andThen_Inr_iff p(8)
        split: option.splits PromptTokenMeasurement.splits if_splits)
  have defer_exact: "capWall c = None" if "m = ExactCount n s" "capDecision c = Defer" for n s
    using d that p(8) by (auto simp: requestCapacityDecision_def split: option.splits if_splits)
  show ?thesis
  proof (intro conjI impI allI)
    assume "capDecision c = Admit"
    then obtain n s w where n: "m = ExactCount n s \<or> m = UpperBound n s" "capWall c = Some w" "wholeOf n \<le> w"
      using admit by blast
    moreover have "wholeOf n \<le> x" if "capMaxInput c = Some x" for x using within [OF that] n by auto
    moreover have "wholeOf n + f \<le> v" if "capWindow c = Some v" "capOutputFloor c = Some f" for v f
      using windowed [OF that] n by auto
    ultimately show "\<exists>n s. (m = ExactCount n s \<or> m = UpperBound n s) \<and> (\<forall>x. capMaxInput c = Some x \<longrightarrow> wholeOf n \<le> x)
       \<and> (\<forall>w f. capWindow c = Some w \<and> capOutputFloor c = Some f \<longrightarrow> wholeOf n + f \<le> w)" by blast
  next
    assume "capDecision c = Reject"
    then obtain n s w where n: "m = ExactCount n s" "capWall c = Some w" "w < wholeOf n"
      using reject by blast
    from least [OF n(2)] n(3) show "\<exists>n s. m = ExactCount n s
       \<and> ((\<exists>x. capMaxInput c = Some x \<and> x < wholeOf n)
          \<or> (\<exists>w f. capWindow c = Some w \<and> capOutputFloor c = Some f \<and> w < wholeOf n + f))"
      using n(1) by (auto simp: beside_def split: option.splits)
  next
    fix n s assume "m = ExactCount n s \<and> capDecision c = Defer"
    then have none: "capWall c = None" using defer_exact by blast
    show "capMaxInput c = None" using within none by (cases "capMaxInput c") auto
    show "capWindow c = None \<or> capOutputFloor c = None"
      using windowed none by (cases "capWindow c"; cases "capOutputFloor c") auto
  qed
qed

definition exampleAssessment :: "CapacityError + RequestCapacity" where
  "exampleAssessment =
     assessRequestCapacity (Some (Whole 8000)) None (Some (Whole 4000)) (Some (Whole 2000))
       (Some (Whole 500)) (Some (Whole 1000)) (ExactCount (Whole 7000) (js ''tokenizer''))"

definition exampleCapacity :: RequestCapacity where
  "exampleCapacity = \<lparr>capDecision = Admit, capWindow = Some 8000, capMaxInput = None,
     capMaxOutput = Some 4000, capOutputBudget = Some 2000, capOutputFloor = Some 500,
     capReasoning = Some 1000, capInput = Some 6000, capWall = Some 7500, capResponseMax = Some 744\<rparr>"

lemma exampleAssessment_value: "exampleAssessment = Inr exampleCapacity"
  by code_simp

lemma response_fits_window_witness:
  "\<exists>r. capResponseMax exampleCapacity = Some r \<and> 500 \<le> r \<and> 7000 + WIRE_FLEX_MARGIN + r \<le> 8000"
proof -
  from response_fits_window [OF exampleAssessment_value [unfolded exampleAssessment_def]]
  show ?thesis by (simp add: exampleCapacity_def WIRE_FLEX_MARGIN_def)
qed

theorem admission_sound_witness: "(7000 :: int) + 500 \<le> 8000"
proof -
  from admission_sound [OF exampleAssessment_value [unfolded exampleAssessment_def]]
  show ?thesis by (simp add: exampleCapacity_def)
qed

end
