(* ===== verification/Pool.thy ===== *)
theory Pool
  imports Capacity
begin

text \<open>
  \<^verbatim>\<open>plurnk-providers/src/Pool.ts\<close>: several interchangeable backends behind one provider. Three
  parts: the facts the pool reports, which are the least or the union of what its members report;
  the capacity assessment of a request against every member; and the dispatch, which keeps a
  session on one backend, assigns new sessions in turn and overflows to a sibling when a backend
  is not available.

  A member is the record of the facts the pool reads from it. The counts and the limits of a
  member are integers. What a backend answers is an argument: its measurement of the prompt in the
  assessment, its response or its error in the dispatch. Calls of \<open>generate\<close> overlap, so the
  dispatch is a machine: a call begins, each of its attempts ends with an event, and any other
  call may run in between. Not modelled: \<open>tokenize\<close> and \<open>attributions\<close>, which delegate, and the
  warning about different windows.
\<close>

section \<open>The facts of a pool\<close>

record Member =
  memberModel :: jsstr
  memberServedModel :: "jsstr option"
  memberWindow :: "int option"
  memberMaxInput :: "int option"
  memberMaxOutput :: "int option"
  memberOutputBudget :: "int option"
  memberOutputFloor :: "int option"
  memberReasoning :: "int option"
  memberInputCapacity :: "int option"
  memberInputWall :: "int option"
  memberModalities :: "jsstr list"
  memberEfforts :: "jsstr list"
  memberNeedsBudget :: "bool option"

datatype PoolError = NoBackends | MixedModels jsstr jsstr

definition newPool :: "Member list \<Rightarrow> PoolError + Member list" where
  "newPool backends =
     (case backends of
        [] \<Rightarrow> Inl NoBackends
      | b # _ \<Rightarrow> (case List.find (\<lambda>c. memberModel c \<noteq> memberModel b) backends of
          Some c \<Rightarrow> Inl (MixedModels (memberModel b) (memberModel c))
        | None \<Rightarrow> Inr backends))"

definition smallerWindow :: "Member \<Rightarrow> Member \<Rightarrow> Member" where
  "smallerWindow lo b =
     (case (memberWindow b, memberWindow lo) of
        (Some x, Some y) \<Rightarrow> if x < y then b else lo | _ \<Rightarrow> lo)"

definition floorMember :: "Member list \<Rightarrow> Member" where
  "floorMember backends =
     (case List.find (\<lambda>b. memberWindow b = None) backends of
        Some b \<Rightarrow> b | None \<Rightarrow> foldl smallerWindow (hd backends) (tl backends))"

definition minimumKnown :: "int option list \<Rightarrow> int option" where
  "minimumKnown values =
     (if list_all (\<lambda>v. v \<noteq> None) values then Some (Min (set (known values))) else None)"

definition poolModalities :: "Member list \<Rightarrow> jsstr list" where
  "poolModalities backends =
     (case map memberModalities backends of
        [] \<Rightarrow> []
      | first # rest \<Rightarrow> filter (\<lambda>m. list_all (\<lambda>ms. m \<in> set ms) rest) first)"

definition poolEfforts :: "Member list \<Rightarrow> jsstr list" where
  "poolEfforts backends =
     filter (\<lambda>e. list_all (\<lambda>b. e \<in> set (memberEfforts b)) backends) (memberEfforts (hd backends))"

definition poolServedModel :: "Member list \<Rightarrow> jsstr option" where
  "poolServedModel backends =
     (if list_all (\<lambda>b. memberServedModel b = memberServedModel (hd backends)) backends
      then memberServedModel (hd backends) else None)"

definition poolNeedsBudget :: "Member list \<Rightarrow> bool option" where
  "poolNeedsBudget backends =
     (if list_ex (\<lambda>b. memberNeedsBudget b = Some True) backends then Some True else None)"

section \<open>Measuring and assessing a request\<close>

text \<open>
  The members measure at the same time, and the first to fail in time decides which error is
  thrown; the model takes the first in the order of the members.
\<close>

text \<open>\<open>[...new Set(xs)]\<close>.\<close>

definition firstUnique :: "'a list \<Rightarrow> 'a list" where
  "firstUnique xs = rev (remdups (rev xs))"

definition isUnavailable :: "PromptTokenMeasurement \<Rightarrow> bool" where
  "isUnavailable m = (case m of Unavailable s d \<Rightarrow> True | _ \<Rightarrow> False)"

definition isEstimate :: "PromptTokenMeasurement \<Rightarrow> bool" where
  "isEstimate m = (case m of Estimate n s d \<Rightarrow> True | _ \<Rightarrow> False)"

fun measurementDetail :: "PromptTokenMeasurement \<Rightarrow> jsstr" where
  "measurementDetail (Estimate n s d) = d"
| "measurementDetail (Unavailable s d) = d"
| "measurementDetail m = []"

definition tokenCounts :: "PromptTokenMeasurement list \<Rightarrow> int list" where
  "tokenCounts ms = map wholeOf (known (map measuredTokens ms))"

definition poolMeasurement :: "PromptTokenMeasurement list \<Rightarrow> CapacityError + PromptTokenMeasurement" where
  "poolMeasurement answers =
     andThen (mapResult assertPromptTokenMeasurement answers) (\<lambda>measurements. Inr (
       let source = js ''pool:'' @ joinWith (js '','') (firstUnique (map measurementSource measurements));
           tokens = Max (set (tokenCounts measurements))
       in case List.find isUnavailable measurements of
            Some u \<Rightarrow> Unavailable source
              (js ''at least one interchangeable backend cannot measure the request: '' @ measurementDetail u)
          | None \<Rightarrow> (case List.find isEstimate measurements of
              Some e \<Rightarrow> Estimate (Whole tokens) source
                (js ''at least one interchangeable backend has only an estimate: '' @ measurementDetail e)
            | None \<Rightarrow>
                if list_all isExact measurements \<and> list_all (\<lambda>n. n = tokens) (tokenCounts measurements)
                then ExactCount (Whole tokens) source else UpperBound (Whole tokens) source)))"

record Envelope =
  envelopeMember :: Member
  envelopeBudget :: "int option"
  envelopeFloor :: "int option"
  envelopeReasoning :: "int option"
  envelopeCapacity :: "int option"
  envelopeWall :: "int option"

definition memberEnvelope :: "jsnum option \<Rightarrow> Member \<Rightarrow> CapacityError + Envelope" where
  "memberEnvelope requested b =
     andThen (effectiveOutputBudget requested (memberOutputBudget b) (whole (memberMaxOutput b))
                (whole (memberWindow b))) (\<lambda>budget.
     andThen (effectiveOutputFloor (whole (memberOutputFloor b)) (whole budget)) (\<lambda>least.
     andThen (effectiveReasoningBudget (whole (memberReasoning b)) (whole budget)) (\<lambda>reasoning.
     andThen (effectiveInputCapacity (whole (memberWindow b)) (whole (memberMaxInput b)) (whole budget)) (\<lambda>capacity.
     andThen (effectiveInputWall (whole (memberWindow b)) (whole (memberMaxInput b)) (whole least)) (\<lambda>wall.
       Inr \<lparr>envelopeMember = b, envelopeBudget = budget, envelopeFloor = least,
            envelopeReasoning = reasoning, envelopeCapacity = capacity, envelopeWall = wall\<rparr>)))))"

definition memberResponseMax :: "int option \<Rightarrow> Envelope \<Rightarrow> CapacityError + int option" where
  "memberResponseMax promptTokens e =
     flexedResponseMax (memberWindow (envelopeMember e)) (memberMaxOutput (envelopeMember e))
       (envelopeBudget e) (envelopeFloor e) promptTokens WIRE_FLEX_MARGIN False"

definition assessPoolCapacity ::
  "Member list \<Rightarrow> jsnum option \<Rightarrow> PromptTokenMeasurement list
     \<Rightarrow> CapacityError + RequestCapacity \<times> PromptTokenMeasurement" where
  "assessPoolCapacity backends requested answers =
     andThen (mapResult (memberEnvelope requested) backends) (\<lambda>envelopes.
     andThen (poolMeasurement answers) (\<lambda>measurement.
       let inputWall = minimumKnown (map envelopeWall envelopes) in
     andThen (requestCapacityDecision inputWall measurement) (\<lambda>decision.
     andThen (mapResult (memberResponseMax (map_option wholeOf (measuredTokens measurement))) envelopes)
       (\<lambda>maxima.
       Inr (\<lparr>capDecision = decision,
             capWindow = memberWindow (floorMember backends),
             capMaxInput = minimumKnown (map memberMaxInput backends),
             capMaxOutput = minimumKnown (map memberMaxOutput backends),
             capOutputBudget = minimumKnown (map envelopeBudget envelopes),
             capOutputFloor = minimumKnown (map envelopeFloor envelopes),
             capReasoning = minimumKnown (map envelopeReasoning envelopes),
             capInput = minimumKnown (map envelopeCapacity envelopes),
             capWall = inputWall,
             capResponseMax = minimumKnown maxima\<rparr>, measurement)))))"

section \<open>Dispatch\<close>

datatype ProviderErrorKind =
    RateLimit | NetworkFailure | DeadlineExceeded | ModelRefused | RequestRejected | InvalidResponse
  | Unauthorized | QuotaExceeded | CapacityExceeded | ResourceInterrupted | GenerationFailed

definition OVERFLOW_KINDS :: "ProviderErrorKind list" where
  "OVERFLOW_KINDS = [NetworkFailure, RateLimit]"

datatype 'a Failure = ProviderFailure ProviderErrorKind "'a list" | OtherFailure

fun prependAccounting :: "'a list \<Rightarrow> 'a Failure \<Rightarrow> 'a Failure" where
  "prependAccounting prior (ProviderFailure kind accounting) = ProviderFailure kind (prior @ accounting)"
| "prependAccounting prior OtherFailure = OtherFailure"

datatype ('r, 'a) GenerateResult = Answered 'r "'a list" | Thrown "'a Failure"

record 'a Call =
  callSession :: jsstr
  triedBackends :: "nat list"
  currentBackend :: nat
  priorAccounting :: "'a list"

record ('r, 'a) PoolState =
  backendCount :: nat
  affinity :: "(jsstr \<times> nat) list"
  cursor :: nat
  inFlight :: "nat \<Rightarrow> 'a Call option"
  results :: "nat \<Rightarrow> ('r, 'a) GenerateResult option"
  nextCall :: nat

definition idlePool :: "nat \<Rightarrow> ('r, 'a) PoolState" where
  "idlePool n = \<lparr>backendCount = n, affinity = [], cursor = 0, inFlight = (\<lambda>_. None),
     results = (\<lambda>_. None), nextCall = 0\<rparr>"

definition route :: "('r, 'a) PoolState \<Rightarrow> jsstr \<Rightarrow> nat \<times> ('r, 'a) PoolState" where
  "route st session =
     (case map_of (affinity st) session of
        Some pinned \<Rightarrow> (pinned, st\<lparr>affinity := mapSet session pinned (mapDelete session (affinity st))\<rparr>)
      | None \<Rightarrow>
          let idx = cursor st mod backendCount st;
              kept = if backendCount st * 8 \<le> length (affinity st) then drop 1 (affinity st) else affinity st
          in (idx, st\<lparr>affinity := mapSet session idx kept, cursor := cursor st + 1\<rparr>))"

definition nextUntried :: "nat \<Rightarrow> nat list \<Rightarrow> nat option" where
  "nextUntried n tried = List.find (\<lambda>i. i \<notin> set tried) [0..<n]"

datatype GenerateError = SessionRequired

definition beginGenerate :: "('r, 'a) PoolState \<Rightarrow> jsstr \<Rightarrow> GenerateError + ('r, 'a) PoolState" where
  "beginGenerate st session =
     (if session = [] then Inl SessionRequired
      else let (idx, st1) = route st session
           in Inr (st1\<lparr>inFlight := (inFlight st)(nextCall st \<mapsto>
                \<lparr>callSession = session, triedBackends = [idx], currentBackend = idx, priorAccounting = []\<rparr>),
                nextCall := nextCall st + 1\<rparr>))"

definition finishCall ::
  "('r, 'a) PoolState \<Rightarrow> nat \<Rightarrow> ('r, 'a) GenerateResult \<Rightarrow> ('r, 'a) PoolState" where
  "finishCall st c result =
     st\<lparr>inFlight := (inFlight st)(c := None), results := (results st)(c \<mapsto> result)\<rparr>"

definition attemptAnswers :: "('r, 'a) PoolState \<Rightarrow> nat \<Rightarrow> 'r \<Rightarrow> 'a list \<Rightarrow> ('r, 'a) PoolState" where
  "attemptAnswers st c response accounting =
     (case inFlight st c of
        None \<Rightarrow> st
      | Some call \<Rightarrow> finishCall st c (Answered response (priorAccounting call @ accounting)))"

definition attemptFails :: "('r, 'a) PoolState \<Rightarrow> nat \<Rightarrow> 'a Failure \<Rightarrow> bool \<Rightarrow> ('r, 'a) PoolState" where
  "attemptFails st c err aborted =
     (case inFlight st c of
        None \<Rightarrow> st
      | Some call \<Rightarrow>
          let thrown = finishCall st c (Thrown (prependAccounting (priorAccounting call) err)) in
          if aborted then thrown
          else (case err of
            OtherFailure \<Rightarrow> thrown
          | ProviderFailure kind accounting \<Rightarrow>
              if kind \<notin> set OVERFLOW_KINDS then thrown
              else (case nextUntried (backendCount st) (triedBackends call) of
                  None \<Rightarrow> thrown
                | Some i \<Rightarrow> st\<lparr>affinity := mapSet (callSession call) i (affinity st),
                      inFlight := (inFlight st)(c \<mapsto> call\<lparr>triedBackends := triedBackends call @ [i],
                        currentBackend := i, priorAccounting := priorAccounting call @ accounting\<rparr>)\<rparr>)))"

datatype ('r, 'a) PoolEvent =
    GenerateBegins jsstr
  | AttemptAnswers nat 'r "'a list"
  | AttemptFails nat "'a Failure" bool

fun poolStep :: "('r, 'a) PoolState \<Rightarrow> ('r, 'a) PoolEvent \<Rightarrow> ('r, 'a) PoolState" where
  "poolStep st (GenerateBegins session) =
     (case beginGenerate st session of Inl e \<Rightarrow> st | Inr st' \<Rightarrow> st')"
| "poolStep st (AttemptAnswers c response accounting) = attemptAnswers st c response accounting"
| "poolStep st (AttemptFails c err aborted) = attemptFails st c err aborted"

section \<open>A pool promises only what each member keeps\<close>

lemma assertMeasurement_same: "assertPromptTokenMeasurement m = Inr m' \<Longrightarrow> m' = m"
  by (simp add: assertPromptTokenMeasurement_def split: if_splits)

lemma known_Some: "Some x \<in> set vs \<longleftrightarrow> x \<in> set (known vs)"
  by (force simp: known_def split: option.splits)

lemma minimumKnown_Some:
  assumes "minimumKnown vs = Some m" "i < length vs"
  shows "\<exists>x. vs ! i = Some x \<and> m \<le> x"
proof -
  have mem: "vs ! i \<in> set vs" using assms(2) by simp
  then obtain x where x: "vs ! i = Some x"
    using assms(1) by (fastforce simp: minimumKnown_def list_all_iff split: if_splits)
  then have "x \<in> set (known vs)" using mem known_Some [of x vs] by simp
  then show ?thesis using assms(1) x by (auto simp: minimumKnown_def split: if_splits)
qed

lemma minimumKnown_attained:
  assumes "minimumKnown vs = Some m" "vs \<noteq> []"
  shows "\<exists>i < length vs. vs ! i = Some m"
proof -
  have m: "m = Min (set (known vs))" and all: "list_all (\<lambda>v. v \<noteq> None) vs"
    using assms(1) by (simp_all add: minimumKnown_def split: if_splits)
  obtain x where "Some x \<in> set vs" using assms(2) all by (cases vs) auto
  then have "set (known vs) \<noteq> {}" using known_Some [of x vs] by auto
  then have "m \<in> set (known vs)" unfolding m by (intro Min_in) auto
  then show ?thesis using known_Some [of m vs] by (simp add: in_set_conv_nth)
qed

lemma measured_known: "measuredTokens m = None \<longleftrightarrow> isUnavailable m"
  by (cases m) (simp_all add: isUnavailable_def)

lemma poolMeasurement_parts:
  assumes "poolMeasurement answers = Inr m"
  shows "mapResult assertPromptTokenMeasurement answers = Inr answers"
    "\<not> isUnavailable m \<Longrightarrow> a \<in> set answers \<Longrightarrow> \<not> isUnavailable a"
    "\<not> isUnavailable m \<Longrightarrow> \<not> isEstimate m \<Longrightarrow> a \<in> set answers \<Longrightarrow> \<not> isEstimate a"
    "isExact m \<Longrightarrow> a \<in> set answers \<Longrightarrow> isExact a \<and> measuredTokens m = Some (Whole (Max (set (tokenCounts answers))))
       \<and> map_option wholeOf (measuredTokens a) = Some (Max (set (tokenCounts answers)))"
    "\<not> isUnavailable m \<Longrightarrow> measuredTokens m = Some (Whole (Max (set (tokenCounts answers))))"
proof -
  obtain ms where ms: "mapResult assertPromptTokenMeasurement answers = Inr ms"
    using assms unfolding poolMeasurement_def by (elim andThen_InrE)
  then have same: "ms = answers" using mapResult_id [OF assertMeasurement_same ms] by simp
  show "mapResult assertPromptTokenMeasurement answers = Inr answers" using ms same by simp
  note d = assms [unfolded poolMeasurement_def ms same andThen_simps Let_def]
  have u: "List.find isUnavailable answers = None" if "\<not> isUnavailable m"
    using d that by (auto simp: isUnavailable_def split: option.splits)
  show unav: "\<not> isUnavailable m \<Longrightarrow> a \<in> set answers \<Longrightarrow> \<not> isUnavailable a"
    using u by (simp add: find_None_iff)
  have e: "List.find isEstimate answers = None" if "\<not> isUnavailable m" "\<not> isEstimate m"
    using d that u by (auto simp: isEstimate_def split: option.splits)
  show "\<not> isUnavailable m \<Longrightarrow> \<not> isEstimate m \<Longrightarrow> a \<in> set answers \<Longrightarrow> \<not> isEstimate a"
    using e by (simp add: find_None_iff)
  show tokens: "\<not> isUnavailable m \<Longrightarrow> measuredTokens m = Some (Whole (Max (set (tokenCounts answers))))"
    using d u by (auto split: option.splits if_splits)
  assume x: "isExact m" and a: "a \<in> set answers"
  have n: "\<not> isUnavailable m" "\<not> isEstimate m"
    using x by (auto simp: isExact_def isUnavailable_def isEstimate_def split: PromptTokenMeasurement.splits)
  have all: "list_all isExact answers" "list_all (\<lambda>n. n = Max (set (tokenCounts answers))) (tokenCounts answers)"
    using d x u [OF n(1)] e [OF n] by (auto simp: isExact_def split: if_splits)
  obtain t where t: "measuredTokens a = Some t" using unav [OF n(1) a] measured_known [of a] by auto
  have "Some t \<in> set (map measuredTokens answers)" using a t by force
  then have "wholeOf t \<in> set (tokenCounts answers)" unfolding known_Some tokenCounts_def by simp
  then have "wholeOf t = Max (set (tokenCounts answers))" using all(2) by (auto simp: list_all_iff)
  then show "isExact a \<and> measuredTokens m = Some (Whole (Max (set (tokenCounts answers))))
       \<and> map_option wholeOf (measuredTokens a) = Some (Max (set (tokenCounts answers)))"
    using all(1) a tokens [OF n(1)] t by (auto simp: list_all_iff)
qed

lemma tokenCounts_le:
  assumes "a \<in> set answers" "measuredTokens a = Some t"
  shows "wholeOf t \<le> Max (set (tokenCounts answers))"
proof -
  have "Some t \<in> set (map measuredTokens answers)" using assms by force
  then have "wholeOf t \<in> set (tokenCounts answers)" unfolding known_Some tokenCounts_def by simp
  then show ?thesis by simp
qed

lemma assessPoolCapacity_parts:
  assumes "assessPoolCapacity backends requested answers = Inr (c, m)"
  obtains envelopes where "mapResult (memberEnvelope requested) backends = Inr envelopes"
    "poolMeasurement answers = Inr m"
    "requestCapacityDecision (minimumKnown (map envelopeWall envelopes)) m = Inr (capDecision c)"
  using assms unfolding assessPoolCapacity_def Let_def
  by (elim andThen_InrE) auto

lemma decision_checked:
  "requestCapacityDecision wall m = Inr d \<Longrightarrow> assertPromptTokenMeasurement m = Inr m"
  using assertMeasurement_same by (fastforce simp: requestCapacityDecision_def andThen_Inr_iff)

lemma decision_Admit:
  assumes "requestCapacityDecision wall m = Inr Admit"
  shows "\<exists>w n. wall = Some w \<and> measuredTokens m = Some n \<and> wholeOf n \<le> w
     \<and> \<not> isEstimate m \<and> \<not> isUnavailable m"
  using assms decision_checked [OF assms]
  by (cases m) (auto simp: requestCapacityDecision_def isEstimate_def isUnavailable_def
      split: option.splits if_splits)

lemma decision_Reject:
  assumes "requestCapacityDecision wall m = Inr Reject"
  shows "\<exists>w n. wall = Some w \<and> measuredTokens m = Some n \<and> w < wholeOf n \<and> isExact m"
  using assms decision_checked [OF assms]
  by (cases m) (auto simp: requestCapacityDecision_def isExact_def split: option.splits if_splits)

lemma Admit_decision:
  "\<lbrakk>assertPromptTokenMeasurement m = Inr m; measuredTokens m = Some n; wholeOf n \<le> w;
    \<not> isEstimate m; \<not> isUnavailable m\<rbrakk> \<Longrightarrow> requestCapacityDecision (Some w) m = Inr Admit"
  by (cases m) (simp_all add: requestCapacityDecision_def isEstimate_def isUnavailable_def)

lemma Reject_decision:
  "\<lbrakk>assertPromptTokenMeasurement m = Inr m; measuredTokens m = Some n; w < wholeOf n; isExact m\<rbrakk>
     \<Longrightarrow> requestCapacityDecision (Some w) m = Inr Reject"
  by (cases m) (simp_all add: requestCapacityDecision_def isExact_def)

text \<open>C17. What a pool decides about a request, its members decide too: a request the pool admits is
  admitted by every member against its own wall and its own measurement, so it may be routed to
  any of them; a request the pool rejects is rejected by at least one of them.\<close>

theorem pool_admission_sound:
  assumes "assessPoolCapacity backends requested answers = Inr (c, m)"
    and "length answers = length backends" "backends \<noteq> []"
  shows "(capDecision c = Admit \<longrightarrow> (\<forall>i < length backends. \<exists>e.
       memberEnvelope requested (backends ! i) = Inr e
       \<and> requestCapacityDecision (envelopeWall e) (answers ! i) = Inr Admit))
    \<and> (capDecision c = Reject \<longrightarrow> (\<exists>i < length backends. \<exists>e.
       memberEnvelope requested (backends ! i) = Inr e
       \<and> requestCapacityDecision (envelopeWall e) (answers ! i) = Inr Reject))"
proof -
  obtain es where es: "mapResult (memberEnvelope requested) backends = Inr es"
    and pm: "poolMeasurement answers = Inr m"
    and d: "requestCapacityDecision (minimumKnown (map envelopeWall es)) m = Inr (capDecision c)"
    using assessPoolCapacity_parts [OF assms(1)] by blast
  note envelopes = mapResult_nth [OF es] and p = poolMeasurement_parts [OF pm]
  have checked: "assertPromptTokenMeasurement (answers ! i) = Inr (answers ! i)" if "i < length backends" for i
    using mapResult_nth [OF p(1)] that assms(2) by simp
  show ?thesis
  proof (intro conjI impI allI)
    fix i assume "capDecision c = Admit" and i: "i < length backends"
    with d obtain w n where w: "minimumKnown (map envelopeWall es) = Some w" "measuredTokens m = Some n"
      "wholeOf n \<le> w" and k: "\<not> isEstimate m" "\<not> isUnavailable m"
      using decision_Admit by (metis)
    have a: "answers ! i \<in> set answers" using i assms(2) by simp
    obtain t where t: "measuredTokens (answers ! i) = Some t"
      using p(2) [OF k(2) a] measured_known [of "answers ! i"] by auto
    obtain v where v: "envelopeWall (es ! i) = Some v" "w \<le> v"
      using minimumKnown_Some [OF w(1), of i] i envelopes by auto
    have "wholeOf t \<le> v" using tokenCounts_le [OF a t] p(5) [OF k(2)] w v by simp
    then have "requestCapacityDecision (envelopeWall (es ! i)) (answers ! i) = Inr Admit"
      unfolding v(1) by (rule Admit_decision [OF checked [OF i] t _ p(3) [OF k(2,1) a] p(2) [OF k(2) a]])
    then show "\<exists>e. memberEnvelope requested (backends ! i) = Inr e
       \<and> requestCapacityDecision (envelopeWall e) (answers ! i) = Inr Admit"
      using envelopes i by blast
  next
    assume "capDecision c = Reject"
    with d obtain w n where w: "minimumKnown (map envelopeWall es) = Some w" "measuredTokens m = Some n"
      "w < wholeOf n" and k: "isExact m" using decision_Reject by metis
    obtain i where i: "i < length backends" "envelopeWall (es ! i) = Some w"
    proof -
      have "es \<noteq> []" using envelopes assms(3) by auto
      then show ?thesis using minimumKnown_attained [OF w(1)] envelopes that by auto
    qed
    have a: "answers ! i \<in> set answers" using i assms(2) by simp
    obtain t where t: "measuredTokens (answers ! i) = Some t" "wholeOf t = wholeOf n"
      using p(4) [OF k a] w(2) by auto
    have "requestCapacityDecision (envelopeWall (es ! i)) (answers ! i) = Inr Reject"
      unfolding i(2) using p(4) [OF k a] w(3) t by (intro Reject_decision [OF checked [OF i(1)] t(1)]) auto
    then show "\<exists>i < length backends. \<exists>e. memberEnvelope requested (backends ! i) = Inr e
       \<and> requestCapacityDecision (envelopeWall e) (answers ! i) = Inr Reject"
      using envelopes i by blast
  qed
qed

definition exampleMember :: "int \<Rightarrow> Member" where
  "exampleMember window = \<lparr>memberModel = js ''m'', memberServedModel = None, memberWindow = Some window,
     memberMaxInput = None, memberMaxOutput = None, memberOutputBudget = Some 2000,
     memberOutputFloor = Some 500, memberReasoning = None, memberInputCapacity = None,
     memberInputWall = None, memberModalities = [], memberEfforts = [], memberNeedsBudget = None\<rparr>"

definition examplePool :: "Member list" where
  "examplePool = [exampleMember 8000, exampleMember 7000]"

definition exampleAnswers :: "PromptTokenMeasurement list" where
  "exampleAnswers = [ExactCount (Whole 6000) (js ''a''), UpperBound (Whole 6400) (js ''b'')]"

lemma examplePool_assessed:
  "\<exists>c m. assessPoolCapacity examplePool None exampleAnswers = Inr (c, m) \<and> capDecision c = Admit"
proof -
  have "case assessPoolCapacity examplePool None exampleAnswers of
      Inr (c, m) \<Rightarrow> capDecision c = Admit | Inl e \<Rightarrow> False" by code_simp
  then show ?thesis by (auto split: sum.splits)
qed

theorem pool_admission_sound_witness:
  "\<exists>e. memberEnvelope None (exampleMember 7000) = Inr e
     \<and> requestCapacityDecision (envelopeWall e) (UpperBound (Whole 6400) (js ''b'')) = Inr Admit"
proof -
  obtain c m where c: "assessPoolCapacity examplePool None exampleAnswers = Inr (c, m)"
    "capDecision c = Admit" using examplePool_assessed by blast
  from pool_admission_sound [OF c(1)] c(2) show ?thesis
    by (auto simp: examplePool_def exampleAnswers_def)
qed

section \<open>Dispatch\<close>

definition callOk :: "nat \<Rightarrow> 'a Call \<Rightarrow> bool" where
  "callOk n call \<longleftrightarrow> distinct (triedBackends call) \<and> (\<forall>i \<in> set (triedBackends call). i < n)
     \<and> triedBackends call \<noteq> [] \<and> last (triedBackends call) = currentBackend call"

definition poolOk :: "nat \<Rightarrow> ('r, 'a) PoolState \<Rightarrow> bool" where
  "poolOk n st \<longleftrightarrow> 0 < n \<and> backendCount st = n
     \<and> distinct (map fst (affinity st)) \<and> (\<forall>e \<in> set (affinity st). snd e < n)
     \<and> (\<forall>c call. inFlight st c = Some call \<longrightarrow> callOk n call \<and> c < nextCall st \<and> results st c = None)
     \<and> (\<forall>c. nextCall st \<le> c \<longrightarrow> results st c = None)"

lemma poolOkD:
  assumes "poolOk n st"
  shows "0 < n" "backendCount st = n" "distinct (map fst (affinity st))"
    "\<forall>e \<in> set (affinity st). snd e < n"
    "inFlight st c = Some call \<Longrightarrow> callOk n call" "inFlight st c = Some call \<Longrightarrow> c < nextCall st"
    "inFlight st c = Some call \<Longrightarrow> results st c = None"
    "nextCall st \<le> c \<Longrightarrow> results st c = None" "nextCall st \<le> c \<Longrightarrow> inFlight st c = None"
proof -
  show "nextCall st \<le> c \<Longrightarrow> inFlight st c = None"
    using assms unfolding poolOk_def by (cases "inFlight st c") (auto dest: leD)
qed (use assms in \<open>auto simp: poolOk_def\<close>)

lemma drop1_keys: "distinct (map fst m) \<Longrightarrow> distinct (map fst (drop 1 m))"
  by (cases m) auto

lemma drop1_ok: "\<forall>e \<in> set m. snd e < n \<Longrightarrow> \<forall>e \<in> set (drop 1 m). snd e < n"
  by (cases m) auto

lemma route_ok:
  assumes "poolOk n st" "route st session = (i, st')"
  shows "i < n" "poolOk n st'" "inFlight st' = inFlight st" "nextCall st' = nextCall st"
    "results st' = results st" "map_of (affinity st') session = Some i"
proof -
  note d = poolOkD [OF assms(1)]
  have a: "i < n \<and> distinct (map fst (affinity st')) \<and> (\<forall>e \<in> set (affinity st'). snd e < n)
      \<and> inFlight st' = inFlight st \<and> nextCall st' = nextCall st \<and> results st' = results st
      \<and> backendCount st' = n \<and> map_of (affinity st') session = Some i"
  proof (cases "map_of (affinity st) session")
    case None
    let ?kept = "if backendCount st * 8 \<le> length (affinity st) then drop 1 (affinity st) else affinity st"
    have kept: "distinct (map fst ?kept)" "\<forall>e \<in> set ?kept. snd e < n"
      using d(3,4) drop1_keys [OF d(3)] drop1_ok [OF d(4)] by (simp_all split: if_split)
    have i: "i = cursor st mod n" and st': "st' = st\<lparr>affinity := mapSet session i ?kept, cursor := cursor st + 1\<rparr>"
      using assms(2) None d(2) by (auto simp: route_def Let_def)
    have "i < n" using d(1) i by simp
    then show ?thesis using mapSet_ok(1) [OF kept(1)] mapSet_ok(2) [OF kept(2)] d(2)
      by (simp add: st' mapSet_lookup)
  next
    case (Some p)
    have p: "p < n" using map_of_SomeD [OF Some] d(4) by auto
    have st': "i = p" "st' = st\<lparr>affinity := mapSet session p (mapDelete session (affinity st))\<rparr>"
      using assms(2) Some by (auto simp: route_def)
    show ?thesis using p mapSet_ok(1) [OF mapDelete_ok(1) [OF d(3)]] mapSet_ok(2) [OF mapDelete_ok(2) [OF d(4)] p] d(2)
      by (simp add: st' mapSet_lookup)
  qed
  then show "i < n" "inFlight st' = inFlight st" "nextCall st' = nextCall st"
    "results st' = results st" "map_of (affinity st') session = Some i" by auto
  show "poolOk n st'" using a d(1,5-9) assms(1) unfolding poolOk_def by auto
qed

lemma begin_ok [invariant_rules]:
  assumes "poolOk n st" "beginGenerate st session = Inr st'"
  shows "poolOk n st'"
proof -
  obtain i st1 where r: "route st session = (i, st1)" by fastforce
  note ok = route_ok [OF assms(1) r]
  note d = poolOkD [OF ok(2)]
  have st': "st' = st1\<lparr>inFlight := (inFlight st)(nextCall st \<mapsto>
                \<lparr>callSession = session, triedBackends = [i], currentBackend = i, priorAccounting = []\<rparr>),
                nextCall := nextCall st + 1\<rparr>"
    using assms(2) by (auto simp: beginGenerate_def r split: if_splits)
  show ?thesis unfolding poolOk_def st'
    using d ok by (auto simp: callOk_def less_Suc_eq)
qed

lemma finish_ok [invariant_rules]:
  assumes "poolOk n st" "inFlight st c = Some call"
  shows "poolOk n (finishCall st c result)"
  using assms poolOkD(6) [OF assms] unfolding poolOk_def finishCall_def by (auto dest: leD)

lemma nextUntried_Some:
  "nextUntried n tried = Some i \<Longrightarrow> i < n \<and> i \<notin> set tried"
  by (auto simp: nextUntried_def find_Some_iff)

lemma nextUntried_None:
  "nextUntried n tried = None \<longleftrightarrow> {..<n} \<subseteq> set tried"
  by (auto simp: nextUntried_def find_None_iff)

lemma fails_ok [invariant_rules]:
  assumes "poolOk n st"
  shows "poolOk n (attemptFails st c err aborted)"
proof (cases "inFlight st c")
  case None
  then show ?thesis using assms by (simp add: attemptFails_def)
next
  case (Some call)
  note d = poolOkD [OF assms]
  have over: "poolOk n (st\<lparr>affinity := mapSet (callSession call) i (affinity st),
                      inFlight := (inFlight st)(c \<mapsto> call\<lparr>triedBackends := triedBackends call @ [i],
                        currentBackend := i, priorAccounting := acc\<rparr>)\<rparr>)"
    if "nextUntried n (triedBackends call) = Some i" for i acc
    using nextUntried_Some [OF that] mapSet_ok(1) [OF d(3)] mapSet_ok(2) [OF d(4), of i] d Some
    unfolding poolOk_def by (auto simp: callOk_def)
  show ?thesis
    using finish_ok [OF assms Some] over d(2) unfolding attemptFails_def Some
    by (auto simp: Let_def split: Failure.splits option.splits)
qed

lemma answers_ok [invariant_rules]: "poolOk n st \<Longrightarrow> poolOk n (attemptAnswers st c r acc)"
  by (auto simp: attemptAnswers_def intro: finish_ok split: option.splits)

lemma poolStep_ok: "poolOk n st \<Longrightarrow> poolOk n (poolStep st e)"
  by (cases e) (auto intro: invariant_rules split: sum.splits)

interpretation pool: machine poolStep "idlePool (Suc n)" "poolOk (Suc n)" for n
  by unfold_locales (simp_all add: poolStep_ok, simp add: poolOk_def idlePool_def)

text \<open>C18. However the calls of a pool overlap, every session is pinned once and to an existing backend,
  every call in flight has tried distinct existing backends, at most all of them, and is at the
  last of them, and a call ends at most once.\<close>

theorem pool_dispatch_consistent:
  assumes "st = runFrom poolStep (idlePool (Suc n)) es"
  shows "distinct (map fst (affinity st)) \<and> (\<forall>e \<in> set (affinity st). snd e \<le> n)
    \<and> (\<forall>c call. inFlight st c = Some call \<longrightarrow>
         distinct (triedBackends call) \<and> length (triedBackends call) \<le> Suc n
         \<and> currentBackend call = last (triedBackends call) \<and> currentBackend call \<le> n
         \<and> results st c = None)"
proof -
  have ok: "poolOk (Suc n) st" unfolding assms by (rule pool.run_holds)
  note d = poolOkD [OF ok]
  have calls: "distinct (triedBackends call) \<and> length (triedBackends call) \<le> Suc n
         \<and> currentBackend call = last (triedBackends call) \<and> currentBackend call \<le> n
         \<and> results st c = None" if c: "inFlight st c = Some call" for c call
  proof -
    note k = d(5) [OF c, unfolded callOk_def]
    have "set (triedBackends call) \<subseteq> {..<Suc n}" using k by auto
    then have "card (set (triedBackends call)) \<le> Suc n" using card_mono [of "{..<Suc n}"] by auto
    moreover have "card (set (triedBackends call)) = length (triedBackends call)"
      using k distinct_card by blast
    moreover have "last (triedBackends call) \<le> n" using k last_in_set [of "triedBackends call"] by auto
    ultimately show ?thesis using k d(7) [OF c] by auto
  qed
  have "\<forall>e \<in> set (affinity st). snd e \<le> n" using d(4) by auto
  then show ?thesis using d(3) calls by blast
qed

text \<open>A backend that is not available costs a call nothing but the attempt: unless the caller has
  aborted, the call moves to a backend it has not tried, its session with it and what it was
  billed so far kept; only when every backend has been tried is the failure thrown, with the
  accounting of all attempts.\<close>

lemma unavailable_overflows:
  assumes "poolOk n st" "inFlight st c = Some call" "kind \<in> set OVERFLOW_KINDS"
    and st': "st' = attemptFails st c (ProviderFailure kind accounting) False"
  shows "(\<exists>i < n. i \<notin> set (triedBackends call)
        \<and> inFlight st' c = Some (call\<lparr>triedBackends := triedBackends call @ [i], currentBackend := i,
             priorAccounting := priorAccounting call @ accounting\<rparr>)
        \<and> fst (route st' (callSession call)) = i \<and> results st' = results st)
    \<or> (set (triedBackends call) = {..<n} \<and> inFlight st' c = None
        \<and> results st' c = Some (Thrown (ProviderFailure kind (priorAccounting call @ accounting))))"
proof (cases "nextUntried n (triedBackends call)")
  case None
  have "set (triedBackends call) \<subseteq> {..<n}" using poolOkD(5) [OF assms(1,2)] by (auto simp: callOk_def)
  then show ?thesis
    using None [unfolded nextUntried_None] assms(2,3) None poolOkD(2) [OF assms(1)]
    by (auto simp: st' attemptFails_def finishCall_def)
next
  case (Some i)
  then show ?thesis
    using nextUntried_Some [OF Some] assms(2,3) poolOkD(2) [OF assms(1)]
    by (auto simp: st' attemptFails_def route_def mapSet_lookup)
qed

definition busyPool :: "(nat, nat) PoolState" where
  "busyPool = runFrom poolStep (idlePool (Suc 1)) [GenerateBegins (js ''s''), GenerateBegins (js ''t'')]"

lemma busyPool_call:
  "inFlight busyPool 0 = Some \<lparr>callSession = js ''s'', triedBackends = [0], currentBackend = 0, priorAccounting = []\<rparr>"
  by (simp add: busyPool_def idlePool_def beginGenerate_def route_def mapSet_def js_def)

theorem pool_dispatch_consistent_witness:
  "results busyPool 0 = None \<and> length [0 :: nat] \<le> Suc 1"
  using pool_dispatch_consistent [OF busyPool_def] busyPool_call by fastforce

lemma unavailable_overflows_witness:
  "fst (route (attemptFails busyPool 0 (ProviderFailure RateLimit [7]) False) (js ''s'')) = 1"
proof -
  have ok: "poolOk (Suc 1) busyPool" unfolding busyPool_def by (rule pool.run_holds)
  have k: "RateLimit \<in> set OVERFLOW_KINDS" by (simp add: OVERFLOW_KINDS_def)
  have "{0} \<noteq> {..<Suc 1}" by (metis insertI1 lessI lessThan_iff one_neq_zero singletonD)
  then show ?thesis
    using unavailable_overflows [OF ok busyPool_call k refl, of "[7]"] by auto
qed

text \<open>
  The order of the pins is the order of their last use. A session that is pinned keeps its backend
  and comes last; a new one is pinned to the next backend in turn, and when the map is full the
  least recently used pin goes.
\<close>

lemma route_pinned:
  assumes "poolOk n st" "map_of (affinity st) session = Some i"
  shows "fst (route st session) = i" "last (affinity (snd (route st session))) = (session, i)"
    "length (affinity (snd (route st session))) = length (affinity st)"
proof -
  have mem: "session \<in> fst ` set (affinity st)" using map_of_SomeD [OF assms(2)] by force
  have set: "mapSet session i (mapDelete session (affinity st)) = mapDelete session (affinity st) @ [(session, i)]"
    by (simp add: mapSet_def mapDelete_keys)
  show "fst (route st session) = i" "last (affinity (snd (route st session))) = (session, i)"
    "length (affinity (snd (route st session))) = length (affinity st)"
    using assms(2) mapDelete_length [OF poolOkD(3) [OF assms(1)] mem] by (simp_all add: route_def set)
qed

lemma route_bounded:
  assumes "poolOk n st" "length (affinity st) \<le> n * 8"
  shows "length (affinity (snd (route st session))) \<le> n * 8"
proof (cases "map_of (affinity st) session")
  case None
  have new: "length (mapSet session v m) \<le> Suc (length m)" for v and m :: "(jsstr \<times> nat) list"
    by (simp add: mapSet_def)
  let ?m = "affinity st" and ?idx = "cursor st mod backendCount st"
  have n: "backendCount st = n" "0 < n" using poolOkD(1,2) [OF assms(1)] by simp_all
  show ?thesis
  proof (cases "n * 8 \<le> length ?m")
    case True
    then have "Suc (length (drop 1 ?m)) = n * 8" using assms(2) n(2) by simp
    then show ?thesis using True None n(1) new [of ?idx "drop 1 ?m"] by (simp add: route_def Let_def)
  next
    case False
    then have "Suc (length ?m) \<le> n * 8" by simp
    then show ?thesis using False None n(1) new [of ?idx ?m] by (simp add: route_def Let_def)
  qed
next
  case (Some i)
  then show ?thesis using route_pinned(3) [OF assms(1) Some] assms(2) by simp
qed

text \<open>
  Overflow sets the pin of its session without looking at the bound, so a session whose pin has
  been evicted while its call was in flight adds one beyond it.
\<close>

definition crowdedPool :: "(nat, nat) PoolState" where
  "crowdedPool = runFrom poolStep (idlePool 2)
     (map (\<lambda>i. GenerateBegins (replicate (Suc i) 97)) [0..<17] @ [AttemptFails 0 (ProviderFailure RateLimit []) False])"

lemma affinity_outgrows_bound: "length (affinity crowdedPool) = 17 \<and> backendCount crowdedPool * 8 = 16"
  by code_simp

end
