(* ===== verification/UnifiedDiff.thy ===== *)
theory UnifiedDiff
  imports JsText "HOL-Library.Sublist"
begin

text \<open>
  \<^verbatim>\<open>plurnk-acp/src/diff.ts\<close>: the line diff shown to a client. The longest common subsequence of
  the two middles is tabulated bottom up and walked from the start, the common ends are kept, the
  operations are numbered, grouped into hunks with context and printed.

  The flat table \<open>dp\<close> is the list of its rows. Its entries are line counts, far below the width of
  an \<open>Int32Array\<close> element. The attributes a change is classified by are the ones the source reads,
  \<open>None\<close> where one is absent or not a string.

  The lemmas show that the table holds the longest lengths, that the operations take the old lines
  to the new ones and keep as many lines as possible, and that the hunks are disjoint, ascending
  and contain every change with its context.
\<close>

datatype DiffType = Keep | Del | Add

record DiffOp =
  opType :: DiffType
  opText :: jsstr

definition splitLines :: "jsstr \<Rightarrow> jsstr list" where
  "splitLines s =
     (if length s = 0 then []
      else let lines = splitLF s in if last lines = [] then butlast lines else lines)"

definition opOf :: "DiffType \<Rightarrow> jsstr \<Rightarrow> DiffOp" where
  "opOf ty s = \<lparr>opType = ty, opText = s\<rparr>"

section \<open>The table and the walk\<close>

text \<open>One row of the table, from the row of the next old line.\<close>

fun fillRow :: "'a \<Rightarrow> 'a list \<Rightarrow> nat list \<Rightarrow> nat list" where
  "fillRow oldLine [] next = [0]"
| "fillRow oldLine (n # ns) next =
     (let row = fillRow oldLine ns (tl next)
      in (if oldLine = n then hd (tl next) + 1 else max (hd next) (hd row)) # row)"

fun fillTable :: "'a list \<Rightarrow> 'a list \<Rightarrow> nat list list" where
  "fillTable [] newMid = [replicate (length newMid + 1) 0]"
| "fillTable (oldLine # os) newMid =
     (let below = fillTable os newMid in fillRow oldLine newMid (hd below) # below)"

function walk :: "nat list list \<Rightarrow> jsstr list \<Rightarrow> jsstr list \<Rightarrow> nat \<Rightarrow> nat \<Rightarrow> DiffOp list" where
  "walk dp oldMid newMid i j =
     (if i < length oldMid \<and> j < length newMid
      then if oldMid ! i = newMid ! j
           then opOf Keep (oldMid ! i) # walk dp oldMid newMid (i + 1) (j + 1)
           else if dp ! i ! (j + 1) \<le> dp ! (i + 1) ! j
           then opOf Del (oldMid ! i) # walk dp oldMid newMid (i + 1) j
           else opOf Add (newMid ! j) # walk dp oldMid newMid i (j + 1)
      else map (opOf Del) (drop i oldMid) @ map (opOf Add) (drop j newMid))"
  by pat_completeness auto
termination
  by (relation "measure (\<lambda>(dp, os, ns, i, j). (length os - i) + (length ns - j))") auto

declare walk.simps [simp del]

definition computeMiddleOps :: "jsstr list \<Rightarrow> jsstr list \<Rightarrow> DiffOp list" where
  "computeMiddleOps oldMid newMid =
     (if oldMid = [] \<and> newMid = [] then []
      else if oldMid = [] then map (opOf Add) newMid
      else if newMid = [] then map (opOf Del) oldMid
      else walk (fillTable oldMid newMid) oldMid newMid 0 0)"

text \<open>The length of the longest common prefix, and of the common suffix of what follows it.\<close>

fun commonPrefix :: "'a list \<Rightarrow> 'a list \<Rightarrow> nat" where
  "commonPrefix (x # xs) (y # ys) = (if x = y then Suc (commonPrefix xs ys) else 0)"
| "commonPrefix xs ys = 0"

definition computeEditOps :: "jsstr list \<Rightarrow> jsstr list \<Rightarrow> DiffOp list" where
  "computeEditOps oldLines newLines =
     (let prefix = commonPrefix oldLines newLines;
          suffix = commonPrefix (rev (drop prefix oldLines)) (rev (drop prefix newLines));
          oldEnd = length oldLines - suffix; newEnd = length newLines - suffix
      in map (opOf Keep) (take prefix oldLines)
         @ computeMiddleOps (jsSlice oldLines prefix oldEnd) (jsSlice newLines prefix newEnd)
         @ map (opOf Keep) (drop oldEnd oldLines))"

section \<open>Hunks\<close>

record IndexedOp =
  theOp :: DiffOp
  oldPos :: nat
  newPos :: nat

fun annotate :: "nat \<Rightarrow> nat \<Rightarrow> DiffOp list \<Rightarrow> IndexedOp list" where
  "annotate oldLine newLine [] = []"
| "annotate oldLine newLine (p # ps) =
     \<lparr>theOp = p, oldPos = oldLine, newPos = newLine\<rparr>
     # annotate (if opType p = Keep \<or> opType p = Del then oldLine + 1 else oldLine)
         (if opType p = Keep \<or> opType p = Add then newLine + 1 else newLine) ps"

text \<open>The range of a change, merged into the previous one when they touch. The last range comes first.\<close>

definition addRange :: "nat \<Rightarrow> nat \<Rightarrow> (nat \<times> nat) list \<Rightarrow> nat \<Rightarrow> (nat \<times> nat) list" where
  "addRange contextLines len ranges idx =
     (let start = idx - contextLines; final = min (len - 1) (idx + contextLines)
      in case ranges of
           [] \<Rightarrow> [(start, final)]
         | (s, e) # earlier \<Rightarrow>
             if start \<le> e + 1 then (s, max e final) # earlier else (start, final) # ranges)"

definition changeRanges :: "nat \<Rightarrow> IndexedOp list \<Rightarrow> (nat \<times> nat) list" where
  "changeRanges contextLines indexed =
     rev (foldl (addRange contextLines (length indexed)) []
       (indicesWhere (\<lambda>x. opType (theOp x) \<noteq> Keep) indexed))"

definition countIn :: "DiffType list \<Rightarrow> IndexedOp list \<Rightarrow> nat" where
  "countIn types xs = length (filter (\<lambda>x. opType (theOp x) \<in> set types) xs)"

definition hunkHeader :: "IndexedOp list \<Rightarrow> jsstr" where
  "hunkHeader xs =
     (let oldCount = countIn [Keep, Del] xs; newCount = countIn [Keep, Add] xs;
          oldStart = (if oldCount = 0 then 0 else oldPos (hd xs));
          newStart = (if newCount = 0 then 0 else newPos (hd xs))
      in js ''@@ -'' @ decimal oldStart @ js '','' @ decimal oldCount
         @ js '' +'' @ decimal newStart @ js '','' @ decimal newCount @ js '' @@'')"

definition opLine :: "IndexedOp \<Rightarrow> jsstr" where
  "opLine x = (case opType (theOp x) of Keep \<Rightarrow> js '' '' | Del \<Rightarrow> js ''-'' | Add \<Rightarrow> js ''+'')
     @ opText (theOp x)"

definition hunkLines :: "IndexedOp list \<Rightarrow> nat \<times> nat \<Rightarrow> jsstr list" where
  "hunkLines indexed hunk =
     (let xs = jsSlice indexed (fst hunk) (snd hunk + 1) in hunkHeader xs # map opLine xs)"

definition buildUnifiedDiff :: "jsstr \<Rightarrow> jsstr \<Rightarrow> jsstr \<Rightarrow> nat \<Rightarrow> jsstr" where
  "buildUnifiedDiff filePath oldText newText contextLines =
     (let indexed = annotate 1 1 (computeEditOps (splitLines oldText) (splitLines newText));
          path = dropWhile (\<lambda>c. c = 47) filePath
      in joinWith [LF] ([js ''--- a/'' @ path, js ''+++ b/'' @ path]
           @ concat (map (hunkLines indexed) (changeRanges contextLines indexed))))"

section \<open>The kind of a change\<close>

record OperandTarget =
  targetPathname :: "jsstr option"
  targetRaw :: "jsstr option"

record Operand =
  operandTarget :: "OperandTarget option"
  operandPathname :: "jsstr option"
  operandRaw :: "jsstr option"

datatype DiffChange =
    MoveChange jsstr jsstr | CopyChange jsstr jsstr
  | DeleteChange jsstr | AddChange jsstr | ModifyChange jsstr

record ChangeAttrs =
  attrOldPath :: "jsstr option"
  attrFrom :: "jsstr option"
  attrDestination :: "jsstr option"
  attrTo :: "jsstr option"
  attrOperation :: "jsstr option"
  attrDeleted :: bool
  attrCreated :: bool
  attrOriginal :: "jsstr option"
  attrPatched :: "jsstr option"

definition nonEmptyOr :: "jsstr option \<Rightarrow> jsstr option \<Rightarrow> jsstr option" where
  "nonEmptyOr s fallback = (case s of Some t \<Rightarrow> if 0 < length t then Some t else fallback | None \<Rightarrow> fallback)"

definition extractOperandPath :: "Operand option \<Rightarrow> jsstr option" where
  "extractOperandPath operand =
     (case operand of None \<Rightarrow> None | Some p \<Rightarrow>
        let own = nonEmptyOr (operandPathname p) (nonEmptyOr (operandRaw p) None)
        in case operandTarget p of
             None \<Rightarrow> own
           | Some t \<Rightarrow> nonEmptyOr (targetPathname t) (nonEmptyOr (targetRaw t) own))"

definition buildDiffChanges ::
  "jsstr option \<Rightarrow> jsstr \<Rightarrow> int option \<Rightarrow> ChangeAttrs \<Rightarrow> Operand option \<Rightarrow> Operand option \<Rightarrow> DiffChange list" where
  "buildDiffChanges op path statusRx attrs sourceOperand destinationOperand =
     (let pick = (\<lambda>o1. case o1 of Some p \<Rightarrow> p | None \<Rightarrow> path);
          oldPath = pick (nonEmptyOr (attrOldPath attrs) (nonEmptyOr (attrFrom attrs)
            (extractOperandPath sourceOperand)));
          destPath = pick (nonEmptyOr (attrDestination attrs) (nonEmptyOr (attrTo attrs)
            (extractOperandPath destinationOperand)))
      in if (op = Some (js ''move'') \<or> op = Some (js ''copy''))
            \<and> 0 < length oldPath \<and> 0 < length destPath
         then [if op = Some (js ''move'') then MoveChange oldPath destPath else CopyChange oldPath destPath]
         else if op = Some (js ''kill'') \<or> attrOperation attrs = Some (js ''delete'') \<or> attrDeleted attrs
            \<or> (nonEmptyOr (attrOriginal attrs) None \<noteq> None \<and> attrPatched attrs = Some []
               \<and> statusRx = Some 204)
         then [DeleteChange path]
         else if statusRx = Some 201 \<or> attrOperation attrs = Some (js ''add'') \<or> attrCreated attrs
            \<or> (attrOriginal attrs = Some [] \<and> nonEmptyOr (attrPatched attrs) None \<noteq> None)
         then [AddChange path]
         else [ModifyChange path])"

section \<open>The operations take the old lines to the new ones\<close>

definition oldSide :: "DiffOp list \<Rightarrow> jsstr list" where
  "oldSide ops = map opText (filter (\<lambda>p. opType p \<noteq> Add) ops)"

definition newSide :: "DiffOp list \<Rightarrow> jsstr list" where
  "newSide ops = map opText (filter (\<lambda>p. opType p \<noteq> Del) ops)"

definition kept :: "DiffOp list \<Rightarrow> jsstr list" where
  "kept ops = map opText (filter (\<lambda>p. opType p = Keep) ops)"

lemma sides_Nil [simp]: "oldSide [] = []" "newSide [] = []" "kept [] = []"
  by (simp_all add: oldSide_def newSide_def kept_def)

lemma sides_append [simp]:
  "oldSide (ps @ qs) = oldSide ps @ oldSide qs" "newSide (ps @ qs) = newSide ps @ newSide qs"
  "kept (ps @ qs) = kept ps @ kept qs"
  by (simp_all add: oldSide_def newSide_def kept_def)

lemma sides_op [simp]:
  "oldSide (opOf ty s # ps) = (if ty = Add then oldSide ps else s # oldSide ps)"
  "newSide (opOf ty s # ps) = (if ty = Del then newSide ps else s # newSide ps)"
  "kept (opOf ty s # ps) = (if ty = Keep then s # kept ps else kept ps)"
  by (simp_all add: oldSide_def newSide_def kept_def opOf_def)

lemma sides_map [simp]:
  "oldSide (map (opOf ty) xs) = (if ty = Add then [] else xs)"
  "newSide (map (opOf ty) xs) = (if ty = Del then [] else xs)"
  "kept (map (opOf ty) xs) = (if ty = Keep then xs else [])"
  by (induction xs) auto

lemma walk_end:
  assumes "\<not> (i < length os \<and> j < length ns)"
  shows "walk dp os ns i j = map (opOf Del) (drop i os) @ map (opOf Add) (drop j ns)"
  by (subst walk.simps) (rule if_not_P [OF assms])

lemma walk_sides:
  "oldSide (walk dp os ns i j) = drop i os \<and> newSide (walk dp os ns i j) = drop j ns"
proof (induction dp os ns i j rule: walk.induct)
  case (1 dp os ns i j)
  show ?case
  proof (cases "i < length os \<and> j < length ns")
    case True
    then have "drop i os = os ! i # drop (i + 1) os" "drop j ns = ns ! j # drop (j + 1) ns"
      by (simp_all add: Cons_nth_drop_Suc)
    then show ?thesis
      using 1 True by (subst (1 2) walk.simps) simp
  next
    case False
    then show ?thesis by (simp add: walk_end [OF False])
  qed
qed

lemma computeMiddleOps_sides:
  "oldSide (computeMiddleOps os ns) = os \<and> newSide (computeMiddleOps os ns) = ns"
  using walk_sides [of "fillTable os ns" os ns 0 0]
  by (simp add: computeMiddleOps_def)

lemma commonPrefix_take:
  "take (commonPrefix xs ys) xs = take (commonPrefix xs ys) ys
   \<and> commonPrefix xs ys \<le> length xs \<and> commonPrefix xs ys \<le> length ys"
  by (induction xs ys rule: commonPrefix.induct) auto

text \<open>The old and the new lines around the middles the operations are computed for.\<close>

lemma edit_frame:
  obtains p s o1 n1 where "os = p @ o1 @ s" "ns = p @ n1 @ s"
    "computeEditOps os ns = map (opOf Keep) p @ computeMiddleOps o1 n1 @ map (opOf Keep) s"
proof -
  let ?p = "commonPrefix os ns"
  define o2 where "o2 = drop ?p os"
  define n2 where "n2 = drop ?p ns"
  let ?s = "commonPrefix (rev o2) (rev n2)"
  have s: "take ?s (rev o2) = take ?s (rev n2)" "?s \<le> length o2" "?s \<le> length n2"
    using commonPrefix_take [of "rev o2" "rev n2"] by simp_all
  have p: "take ?p os = take ?p ns" "?p \<le> length os" "?p \<le> length ns"
    using commonPrefix_take [of os ns] by simp_all
  have tail: "drop (length o2 - ?s) o2 = drop (length n2 - ?s) n2"
    using s(1) by (simp add: take_rev)
  have "os = take ?p os @ o2" by (simp add: o2_def)
  then have o: "os = take ?p os @ take (length o2 - ?s) o2 @ drop (length o2 - ?s) o2"
    by (metis append_take_drop_id)
  have "ns = take ?p os @ n2" unfolding p(1) by (simp add: n2_def)
  then have n: "ns = take ?p os @ take (length n2 - ?s) n2 @ drop (length o2 - ?s) o2"
    unfolding tail by (metis append_take_drop_id)
  have mid: "jsSlice os ?p (length os - ?s) = take (length o2 - ?s) o2"
    "jsSlice ns ?p (length ns - ?s) = take (length n2 - ?s) n2"
    by (simp_all add: jsSlice_def o2_def n2_def add.commute)
  have end': "drop (length os - ?s) os = drop (length o2 - ?s) o2"
  proof -
    have "length os - ?s = ?p + (length o2 - ?s)" using s(2) p(2) by (simp add: o2_def)
    then show ?thesis by (simp add: o2_def add.commute)
  qed
  have "computeEditOps os ns = map (opOf Keep) (take ?p os)
      @ computeMiddleOps (take (length o2 - ?s) o2) (take (length n2 - ?s) n2)
      @ map (opOf Keep) (drop (length o2 - ?s) o2)"
    unfolding computeEditOps_def Let_def o2_def [symmetric] n2_def [symmetric] mid end' ..
  then show ?thesis using that o n by blast
qed

lemma computeEditOps_sides:
  "oldSide (computeEditOps os ns) = os" "newSide (computeEditOps os ns) = ns"
proof -
  obtain p s o1 n1 where e: "os = p @ o1 @ s" "ns = p @ n1 @ s"
    "computeEditOps os ns = map (opOf Keep) p @ computeMiddleOps o1 n1 @ map (opOf Keep) s"
    by (rule edit_frame)
  show "oldSide (computeEditOps os ns) = os" "newSide (computeEditOps os ns) = ns"
    unfolding e(3) by (simp_all add: computeMiddleOps_sides e)
qed

section \<open>It keeps as much as possible\<close>

text \<open>The longest length, by the recursion of the table.\<close>

fun lcs :: "'a list \<Rightarrow> 'a list \<Rightarrow> nat" where
  "lcs [] ys = 0"
| "lcs xs [] = 0"
| "lcs (x # xs) (y # ys) = (if x = y then lcs xs ys + 1 else max (lcs xs (y # ys)) (lcs (x # xs) ys))"

lemma lcs_Nil [simp]: "lcs xs [] = 0"
  by (cases xs) auto

lemma lcs_upper: "subseq zs xs \<Longrightarrow> subseq zs ys \<Longrightarrow> length zs \<le> lcs xs ys"
proof (induction xs ys arbitrary: zs rule: lcs.induct)
  case (3 x xs y ys)
  show ?case
  proof (cases zs)
    case (Cons z zs')
    show ?thesis
    proof (cases "x = y")
      case True
      have "subseq zs' xs" "subseq zs' ys"
        using "3.prems" Cons by (auto simp: subseq_Cons2_iff split: if_splits dest: subseq_Cons')
      then show ?thesis using "3.IH"(1) [OF True] True Cons by simp
    next
      case False
      then consider "z \<noteq> x" | "z \<noteq> y" by blast
      then show ?thesis
      proof cases
        case 1
        then have "subseq zs xs" using "3.prems"(1) Cons by (auto simp: subseq_Cons2_iff)
        then show ?thesis using "3.IH"(2) [OF False _ "3.prems"(2)] False by fastforce
      next
        case 2
        then have "subseq zs ys" using "3.prems"(2) Cons by (auto simp: subseq_Cons2_iff)
        then show ?thesis using "3.IH"(3) [OF False "3.prems"(1)] False by fastforce
      qed
    qed
  qed simp
qed auto

lemma fillRow_nth:
  assumes "length next = length ns + 1" "\<And>j. j \<le> length ns \<Longrightarrow> next ! j = lcs os (drop j ns)"
  shows "length (fillRow x ns next) = length ns + 1
    \<and> (\<forall>j \<le> length ns. fillRow x ns next ! j = lcs (x # os) (drop j ns))"
  using assms
proof (induction x ns "next" rule: fillRow.induct)
  case (2 x n ns nxt)
  obtain h t where nxt: "nxt = h # t" "t \<noteq> []" using "2.prems"(1) by (cases nxt) (auto, force)
  have t: "length t = length ns + 1" "\<And>j. j \<le> length ns \<Longrightarrow> t ! j = lcs os (drop j ns)"
    using "2.prems"(1) "2.prems"(2) [of "Suc _"] nxt by auto
  have h: "h = lcs os (n # ns)" "hd t = lcs os ns"
    using "2.prems"(2) [of 0] t(2) [of 0] nxt by (auto simp: hd_conv_nth)
  from "2.IH" t nxt have ih: "length (fillRow x ns t) = length ns + 1"
    "\<And>j. j \<le> length ns \<Longrightarrow> fillRow x ns t ! j = lcs (x # os) (drop j ns)" by auto
  have "hd (fillRow x ns t) = lcs (x # os) ns"
    using ih(1) ih(2) [of 0] by (cases "fillRow x ns t") auto
  then show ?case using ih h nxt by (auto simp: Let_def nth_Cons split: nat.splits)
qed simp

lemma fillTable_nth:
  "length (fillTable os ns) = length os + 1
   \<and> (\<forall>i \<le> length os. length (fillTable os ns ! i) = length ns + 1
        \<and> (\<forall>j \<le> length ns. fillTable os ns ! i ! j = lcs (drop i os) (drop j ns)))"
proof (induction os)
  case Nil
  have "replicate (length ns + 1) 0 ! j = (0 :: nat)" if "j \<le> length ns" for j
    using that by (intro nth_replicate) simp
  then show ?case by (simp del: replicate_Suc)
next
  case (Cons x os)
  let ?t = "fillTable os ns"
  have "hd ?t = ?t ! 0" using Cons.IH by (cases ?t) auto
  then have row: "length (hd ?t) = length ns + 1" "\<And>j. j \<le> length ns \<Longrightarrow> hd ?t ! j = lcs os (drop j ns)"
    using Cons.IH by auto
  show ?case
    using fillRow_nth [OF row, of x] Cons.IH by (auto simp: Let_def nth_Cons split: nat.splits)
qed

lemma walk_keeps:
  assumes "dp = fillTable os ns"
  shows "length (kept (walk dp os ns i j)) = lcs (drop i os) (drop j ns)"
  using assms
proof (induction dp os ns i j rule: walk.induct)
  case (1 dp os ns i j)
  show ?case
  proof (cases "i < length os \<and> j < length ns")
    case True
    have d: "drop i os = os ! i # drop (Suc i) os" "drop j ns = ns ! j # drop (Suc j) ns"
      using True by (simp_all add: Cons_nth_drop_Suc)
    have dp: "dp ! i ! (j + 1) = lcs (drop i os) (drop (Suc j) ns)"
      "dp ! (i + 1) ! j = lcs (drop (Suc i) os) (drop j ns)"
      using fillTable_nth [of os ns] True "1.prems" by auto
    show ?thesis
    proof (cases "os ! i = ns ! j")
      case same: True
      then show ?thesis using "1.IH"(1) [OF True same "1.prems"] True
        by (subst walk.simps) (simp add: d)
    next
      case diff: False
      show ?thesis
      proof (cases "dp ! i ! (j + 1) \<le> dp ! (i + 1) ! j")
        case le: True
        then have "lcs (drop i os) (drop j ns) = lcs (drop (Suc i) os) (drop j ns)"
          using dp diff by (simp add: d)
        then show ?thesis using "1.IH"(2) [OF True diff le "1.prems"] True diff le
          by (subst walk.simps) simp
      next
        case gt: False
        then have "lcs (drop i os) (drop j ns) = lcs (drop i os) (drop (Suc j) ns)"
          using dp diff by (simp add: d)
        then show ?thesis using "1.IH"(3) [OF True diff gt "1.prems"] True diff gt
          by (subst walk.simps) simp
      qed
    qed
  next
    case False
    then have "drop i os = [] \<or> drop j ns = []" by auto
    then have "lcs (drop i os) (drop j ns) = 0" by auto
    then show ?thesis by (simp add: walk_end [OF False])
  qed
qed

lemma computeMiddleOps_keeps:
  "subseq zs os \<Longrightarrow> subseq zs ns \<Longrightarrow> length zs \<le> length (kept (computeMiddleOps os ns))"
  using walk_keeps [of "fillTable os ns" os ns 0 0] lcs_upper [of zs os ns]
  by (auto simp: computeMiddleOps_def)

lemma common_tail:
  "subseq zs (xs @ s) \<Longrightarrow> subseq zs (ys @ s) \<Longrightarrow>
   \<exists>us. length zs \<le> length us + length s \<and> subseq us xs \<and> subseq us ys"
proof (induction s arbitrary: zs rule: rev_induct)
  case Nil
  then show ?case by auto
next
  case (snoc c s)
  have cut: "subseq (butlast zs) vs" if "subseq zs (vs @ [c])" for vs
  proof -
    obtain a b where ab: "zs = a @ b" "subseq a vs" "subseq b [c]"
      using \<open>subseq zs (vs @ [c])\<close> by (auto simp: subseq_append_iff)
    then have "length b \<le> 1" using list_emb_length [OF ab(3)] by simp
    then consider "b = []" | d where "b = [d]" by (cases b) auto
    then show ?thesis
    proof cases
      case 1
      have "subseq (butlast a) a" by (metis append_butlast_last_id butlast.simps(1) list_emb_append2 subseq_order.order_refl subseq_rev_drop_many)
      then show ?thesis using 1 ab by (auto intro: subseq_order.order_trans)
    next
      case 2
      then show ?thesis using ab by (simp add: butlast_append)
    qed
  qed
  from snoc.prems have "subseq zs ((xs @ s) @ [c])" "subseq zs ((ys @ s) @ [c])" by simp_all
  then have "subseq (butlast zs) (xs @ s)" "subseq (butlast zs) (ys @ s)" by (auto intro: cut)
  from snoc.IH [OF this] obtain us where us: "length (butlast zs) \<le> length us + length s"
    "subseq us xs" "subseq us ys" by blast
  then show ?case by (intro exI [of _ us]) (auto simp: length_butlast)
qed

lemma common_head:
  "subseq zs (p @ xs) \<Longrightarrow> subseq zs (p @ ys) \<Longrightarrow>
   \<exists>us. length zs \<le> length us + length p \<and> subseq us xs \<and> subseq us ys"
proof (induction p arbitrary: zs)
  case Nil
  then show ?case by auto
next
  case (Cons c p)
  have "subseq (tl zs) vs" if "subseq zs (c # vs)" for vs
    using that by (cases zs) (auto simp: subseq_Cons2_iff split: if_splits dest: subseq_Cons')
  then have "subseq (tl zs) (p @ xs)" "subseq (tl zs) (p @ ys)" using Cons.prems by auto
  from Cons.IH [OF this] obtain us where "length (tl zs) \<le> length us + length p"
    "subseq us xs" "subseq us ys" by blast
  then show ?case by (intro exI [of _ us]) auto
qed

text \<open>C14. The operations of an edit are right and least: dropping what is added leaves the old lines,
  dropping what is deleted leaves the new lines, and no common subsequence of the two is longer
  than what is kept, so no diff has fewer changes.\<close>

theorem diff_right_and_least:
  shows "oldSide (computeEditOps os ns) = os \<and> newSide (computeEditOps os ns) = ns
    \<and> subseq (kept (computeEditOps os ns)) os \<and> subseq (kept (computeEditOps os ns)) ns
    \<and> (\<forall>zs. subseq zs os \<and> subseq zs ns \<longrightarrow> length zs \<le> length (kept (computeEditOps os ns)))"
proof -
  obtain p s o1 n1 where e: "os = p @ o1 @ s" "ns = p @ n1 @ s"
    "computeEditOps os ns = map (opOf Keep) p @ computeMiddleOps o1 n1 @ map (opOf Keep) s"
    by (rule edit_frame)
  note sides = computeEditOps_sides [of os ns]
  have kept: "subseq (kept ops) (oldSide ops)" "subseq (kept ops) (newSide ops)" for ops
  proof -
    have k: "kept ops = map opText (filter (\<lambda>p. opType p = Keep) (filter (\<lambda>p. opType p \<noteq> ty) ops))"
      if "ty \<noteq> Keep" for ty using that by (auto simp: kept_def intro!: arg_cong [where f = "map opText"] filter_cong)
    have f: "subseq (map opText (filter Q xs)) (map opText xs)" for Q xs
      by (intro subseq_map subseq_filter_left)
    have ne: "Add \<noteq> Keep" "Del \<noteq> Keep" by simp_all
    show "subseq (kept ops) (oldSide ops)" unfolding oldSide_def k [OF ne(1)] by (rule f)
    show "subseq (kept ops) (newSide ops)" unfolding newSide_def k [OF ne(2)] by (rule f)
  qed
  have "length zs \<le> length (kept (computeEditOps os ns))" if zs: "subseq zs os" "subseq zs ns" for zs
  proof -
    obtain us where us: "length zs \<le> length us + length p" "subseq us (o1 @ s)" "subseq us (n1 @ s)"
      using common_head zs unfolding e(1,2) by blast
    obtain vs where vs: "length us \<le> length vs + length s" "subseq vs o1" "subseq vs n1"
      using common_tail [OF us(2,3)] by blast
    have "length vs \<le> length (kept (computeMiddleOps o1 n1))" by (rule computeMiddleOps_keeps [OF vs(2,3)])
    then show ?thesis using us(1) vs(1) unfolding e(3) by simp
  qed
  then show ?thesis using sides kept [of "computeEditOps os ns"] by simp
qed

theorem diff_right_and_least_witness:
  "length [[98], [99]] \<le> length (kept (computeEditOps [[97], [98], [99]] [[98], [100], [99]]))"
  using diff_right_and_least [of "[[97], [98], [99]]" "[[98], [100], [99]]"]
  by (auto simp: subseq_Cons2_iff)

section \<open>The hunks contain every change\<close>

text \<open>Ranges in the order they are found, last first: each ends before the next starts, and not right
  before it.\<close>

fun apartDown :: "(nat \<times> nat) list \<Rightarrow> bool" where
  "apartDown (r # q # rs) \<longleftrightarrow> snd q + 1 < fst r \<and> apartDown (q # rs)"
| "apartDown rs \<longleftrightarrow> True"

definition covers :: "(nat \<times> nat) list \<Rightarrow> nat \<Rightarrow> bool" where
  "covers rs i \<longleftrightarrow> (\<exists>r \<in> set rs. fst r \<le> i \<and> i \<le> snd r)"

lemma addRange_apart: "apartDown rs \<Longrightarrow> apartDown (addRange c n rs i)"
  by (cases rs rule: apartDown.cases) (auto simp: addRange_def Let_def split: prod.splits)

text \<open>What holds of the ranges when the next change is at \<open>b\<close> or later.\<close>

definition reaching :: "nat \<Rightarrow> nat \<Rightarrow> nat \<Rightarrow> (nat \<times> nat) list \<Rightarrow> bool" where
  "reaching c n b rs \<longleftrightarrow> (\<forall>r \<in> set rs. snd r \<le> min (n - 1) (b + c)) \<and> (rs \<noteq> [] \<longrightarrow> fst (hd rs) \<le> b - c)"

lemma reaching_mono: "reaching c n b rs \<Longrightarrow> b \<le> b' \<Longrightarrow> reaching c n b' rs"
  by (force simp: reaching_def)

lemma addRange_step:
  assumes "reaching c n i rs"
  shows "reaching c n i (addRange c n rs i)" "covers rs k \<Longrightarrow> covers (addRange c n rs i) k"
    "i - c \<le> k \<Longrightarrow> k \<le> min (n - 1) (i + c) \<Longrightarrow> covers (addRange c n rs i) k"
proof -
  let ?s = "i - c" and ?f = "min (n - 1) (i + c)"
  have "reaching c n i (addRange c n rs i)
    \<and> (covers rs k \<longrightarrow> covers (addRange c n rs i) k)
    \<and> (?s \<le> k \<and> k \<le> ?f \<longrightarrow> covers (addRange c n rs i) k)"
  proof (cases rs)
    case Nil
    then show ?thesis by (simp add: addRange_def reaching_def covers_def Let_def)
  next
    case (Cons r earlier)
    obtain s e where r: "r = (s, e)" by (cases r)
    have b: "e \<le> ?f" "s \<le> ?s" "\<forall>q \<in> set earlier. snd q \<le> ?f"
      using assms Cons r by (auto simp: reaching_def)
    then have "max e ?f = ?f" by simp
    then have add: "addRange c n rs i
        = (if ?s \<le> e + 1 then (s, ?f) # earlier else (?s, ?f) # (s, e) # earlier)"
      using Cons r by (simp only: addRange_def Let_def list.case prod.case)
    show ?thesis
    proof (cases "?s \<le> e + 1")
      case True
      then have add': "addRange c n rs i = (s, ?f) # earlier" using add by simp
      show ?thesis unfolding add' using b True by (auto simp: reaching_def covers_def Cons r)
    next
      case False
      then have add': "addRange c n rs i = (?s, ?f) # (s, e) # earlier" using add by simp
      show ?thesis unfolding add' using b by (auto simp: reaching_def covers_def Cons r)
    qed
  qed
  then show "reaching c n i (addRange c n rs i)" "covers rs k \<Longrightarrow> covers (addRange c n rs i) k"
    "?s \<le> k \<Longrightarrow> k \<le> ?f \<Longrightarrow> covers (addRange c n rs i) k" by blast+
qed

lemma addRanges:
  assumes "sorted (b # is)" "reaching c n b rs" "apartDown rs"
  shows "apartDown (foldl (addRange c n) rs is)
    \<and> (\<forall>k. covers rs k \<longrightarrow> covers (foldl (addRange c n) rs is) k)
    \<and> (\<forall>i \<in> set is. \<forall>k. i - c \<le> k \<and> k \<le> min (n - 1) (i + c) \<longrightarrow> covers (foldl (addRange c n) rs is) k)"
  using assms
proof (induction "is" arbitrary: b rs)
  case (Cons i ks)
  have r: "reaching c n i rs" using reaching_mono [OF Cons.prems(2), of i] Cons.prems(1) by simp
  have "sorted (i # ks)" using Cons.prems(1) by simp
  from Cons.IH [OF this addRange_step(1) [OF r] addRange_apart [OF Cons.prems(3)]]
  show ?case using addRange_step(2,3) [OF r] by auto
qed simp

lemma apartDown_rev: "apartDown rs \<Longrightarrow> (\<And>r. r \<in> set rs \<Longrightarrow> fst r \<le> snd r) \<Longrightarrow>
   sorted_wrt (\<lambda>p q. snd p + 1 < fst q) (rev rs)"
proof (induction rs rule: apartDown.induct)
  case (1 r q rs)
  have ih: "sorted_wrt (\<lambda>p q. snd p + 1 < fst q) (rev (q # rs))" using 1 by simp
  have "snd p + 1 < fst r" if "p \<in> set (q # rs)" for p
  proof (cases "p = q")
    case False
    then have "p \<in> set rs" using that by simp
    then have "snd p + 1 < fst q" using ih by (simp add: sorted_wrt_append)
    then show ?thesis using 1(2) 1(3) [of q] by simp
  qed (use 1(2) in simp)
  then show ?case using ih by (simp add: sorted_wrt_append)
qed simp_all

lemma addRanges_ordered:
  assumes "\<forall>r \<in> set rs. fst r \<le> snd r \<and> snd r < n" "\<forall>i \<in> set is. i < n"
  shows "\<forall>r \<in> set (foldl (addRange c n) rs is). fst r \<le> snd r \<and> snd r < n"
  using assms
proof (induction "is" arbitrary: rs)
  case (Cons i ks)
  have "i < n" using Cons.prems(2) by simp
  then have new: "i - c \<le> min (n - 1) (i + c)" "min (n - 1) (i + c) < n" by auto
  have "\<forall>q \<in> set (addRange c n rs i). fst q \<le> snd q \<and> snd q < n"
  proof (cases rs)
    case Nil
    then show ?thesis using new by (simp add: addRange_def Let_def)
  next
    case (Cons p earlier)
    obtain s e where p: "p = (s, e)" by (cases p)
    have "s \<le> e" "e < n" "\<forall>x \<in> set earlier. fst x \<le> snd x \<and> snd x < n" using Cons.prems(1) Cons p by auto
    then show ?thesis
      using new unfolding Cons p
      by (auto simp: addRange_def Let_def split: if_splits intro: max.coboundedI1)
  qed
  from Cons.IH [OF this] Cons.prems show ?case by simp
qed simp

lemma changeRanges_facts:
  fixes indexed :: "IndexedOp list"
  shows "sorted_wrt (\<lambda>p q. snd p + 1 < fst q) (changeRanges c indexed)"
    "\<forall>r \<in> set (changeRanges c indexed). fst r \<le> snd r \<and> snd r < length indexed"
    "\<lbrakk>i < length indexed; opType (theOp (indexed ! i)) \<noteq> Keep; i - c \<le> k; k \<le> i + c; k < length indexed\<rbrakk>
      \<Longrightarrow> covers (changeRanges c indexed) k"
proof -
  let ?n = "length indexed"
  let ?is = "indicesWhere (\<lambda>x. opType (theOp x) \<noteq> Keep) indexed"
  let ?rs = "foldl (addRange c ?n) [] ?is"
  have "sorted (0 # ?is)" by (auto simp: indicesWhere_def intro: sorted_wrt_filter)
  from addRanges [OF this, of c ?n "[]"]
  have main: "apartDown ?rs" "\<And>i k. i \<in> set ?is \<Longrightarrow> i - c \<le> k \<Longrightarrow> k \<le> min (?n - 1) (i + c) \<Longrightarrow> covers ?rs k"
    by (auto simp: reaching_def)
  have ordered: "\<forall>r \<in> set ?rs. fst r \<le> snd r \<and> snd r < ?n"
    by (rule addRanges_ordered) (auto simp: set_indicesWhere)
  show "sorted_wrt (\<lambda>p q. snd p + 1 < fst q) (changeRanges c indexed)"
    using apartDown_rev [OF main(1)] ordered by (auto simp: changeRanges_def)
  show "\<forall>r \<in> set (changeRanges c indexed). fst r \<le> snd r \<and> snd r < ?n"
    using ordered by (simp add: changeRanges_def)
  have cov: "covers (changeRanges c indexed) k = covers ?rs k" for k
    by (simp add: covers_def changeRanges_def)
  show "covers (changeRanges c indexed) k"
    if "i < ?n" "opType (theOp (indexed ! i)) \<noteq> Keep" "i - c \<le> k" "k \<le> i + c" "k < ?n" for i k
    unfolding cov by (rule main(2) [of i]) (use that in \<open>auto simp: set_indicesWhere\<close>)
qed

text \<open>The hunks show every change with its context and show nothing twice: their ranges lie
  within the operations and ascend with a gap between them, and every changed operation lies in
  one together with the \<open>contextLines\<close> operations on each side of it.\<close>

lemma hunks_cover_changes:
  fixes indexed :: "IndexedOp list"
  shows "sorted_wrt (\<lambda>p q. snd p + 1 < fst q) (changeRanges c indexed)
    \<and> (\<forall>r \<in> set (changeRanges c indexed). fst r \<le> snd r \<and> snd r < length indexed)
    \<and> (\<forall>i < length indexed. opType (theOp (indexed ! i)) \<noteq> Keep \<longrightarrow>
         (\<forall>k. i - c \<le> k \<and> k \<le> i + c \<and> k < length indexed \<longrightarrow> covers (changeRanges c indexed) k))"
  by (intro conjI allI impI) 
    (use changeRanges_facts [where c = c and indexed = indexed] in auto)

definition exampleOps :: "IndexedOp list" where
  "exampleOps = annotate 1 1 (computeEditOps [[97], [98], [99], [100]] [[97], [98], [99], [101]])"

lemma hunks_cover_changes_witness:
  "covers (changeRanges 1 exampleOps) 2 \<and> length exampleOps = 5"
proof -
  have *: "length exampleOps = 5" "opType (theOp (exampleOps ! 3)) \<noteq> Keep" by code_simp+
  have "covers (changeRanges 1 exampleOps) 2"
    by (rule hunks_cover_changes [THEN conjunct2, THEN conjunct2, rule_format, of 3 exampleOps 1 2])
      (use * in simp_all)
  then show ?thesis using *(1) by simp
qed

end
