(* ===== verification/TextDiff.thy ===== *)
theory TextDiff
  imports JsSearch TextRows UnifiedDiff
begin

text \<open>
  \<^verbatim>\<open>plurnk-mimetypes-text-diff/src/TextDiff.ts\<close>: the scanner that reads a diff document into its
  file sections and hunks, and the two projections built on it.

  In the source \<open>file\<close> is null or the last element of \<open>files\<close>, and \<open>hunk\<close> null or the last hunk of
  that file, so the model keeps the two lists and whether the last element is still open
  (\<open>fileOpen\<close>, \<open>hunkOpen\<close>). Numbers of a hunk header are exact integers here; the source reads
  them with \<open>Number\<close>, which is exact up to 2^53. The content is a text: decoding bytes as UTF-8
  is the platform's.

  The first group of lemmas is the invariant of the scan: sections and hunks are disjoint spans
  of the document in its order, so that the projections never fail. The second reads back what
  \<open>buildUnifiedDiff\<close> writes.
\<close>

record DiffHunk =
  oldStart :: int
  oldCount :: int
  newStart :: int
  newCount :: int
  heading :: "jsstr option"
  hunkLine :: nat
  hunkEndLine :: nat

record DiffFile =
  oldPath :: "jsstr option"
  newPath :: "jsstr option"
  isRename :: bool
  isBinary :: bool
  additions :: nat
  deletions :: nat
  hunks :: "DiffHunk list"
  fileLine :: nat
  fileEndLine :: nat

section \<open>Paths\<close>

definition TAB :: jschar where "TAB = 9"
definition QUOTE :: jschar where "QUOTE = 34"

definition cleanPath :: "jsstr \<Rightarrow> jsstr option" where
  "cleanPath raw =
     (let p = trim (takeWhile (\<lambda>c. c \<noteq> TAB) raw);
          p = (if prefix [QUOTE] p \<and> suffix [QUOTE] p \<and> 2 \<le> length p then butlast (tl p) else p)
      in if p = js ''/dev/null'' then None
         else case p of
             c # d # rest \<Rightarrow>
               if c \<in> set (js ''abciw'') \<and> d = 47 \<and> dots rest then Some rest else Some p
           | _ \<Rightarrow> Some p)"

text \<open>
  \<open>/^"(.+)"\s+"(.+)"$/\<close> behind the opening quote: the first group is greedy, so its longest
  length that lets the rest match.
\<close>

fun quotedTail :: "jsstr \<Rightarrow> jsstr option" where
  "quotedTail (q # r) =
     (let t = dropWhile isWhite r
      in if q = QUOTE \<and> length t < length r \<and> prefix [QUOTE] t \<and> 3 \<le> length t
            \<and> last t = QUOTE \<and> dots (butlast (tl t))
         then Some (butlast (tl t)) else None)"
| "quotedTail [] = None"

fun quotedPair :: "jsstr \<Rightarrow> nat \<Rightarrow> (jsstr \<times> jsstr) option" where
  "quotedPair s 0 = None"
| "quotedPair s (Suc k) =
     (if dots (take (Suc k) s) \<and> quotedTail (drop (Suc k) s) \<noteq> None
      then map_option (\<lambda>t. (take (Suc k) s, t)) (quotedTail (drop (Suc k) s))
      else quotedPair s k)"

definition parseGitPaths :: "jsstr \<Rightarrow> jsstr option \<times> jsstr option" where
  "parseGitPaths rest =
     (let r = trim rest
      in case (if prefix [QUOTE] r then quotedPair (tl r) (length (tl r)) else None) of
           Some (a, b) \<Rightarrow>
             (cleanPath ([QUOTE] @ a @ [QUOTE]), cleanPath ([QUOTE] @ b @ [QUOTE]))
         | None \<Rightarrow>
             (let fallback =
                (let parts = splitChar SPACE r; middle = length parts div 2
                 in if length parts = 2 then (cleanPath (parts ! 0), cleanPath (parts ! 1))
                    else (cleanPath (joinWith [SPACE] (take middle parts)),
                          cleanPath (joinWith [SPACE] (drop middle parts))))
              in case indexOf (js '' b/'') r of
                   Some i \<Rightarrow>
                     if prefix (js ''a/'') r \<and> 0 < i then (cleanPath (take i r), cleanPath (drop (i + 1) r))
                     else fallback
                 | None \<Rightarrow> fallback))"

text \<open>The name of a section; the arrow of a rename is U+2192.\<close>

definition sectionName :: "DiffFile \<Rightarrow> jsstr" where
  "sectionName f =
     (if isRename f \<and> oldPath f \<notin> {None, Some []} \<and> newPath f \<notin> {None, Some []}
      then the (oldPath f) @ [32, 8594, 32] @ the (newPath f)
      else case (newPath f, oldPath f) of
             (None, Some p) \<Rightarrow> p
           | (Some p, _) \<Rightarrow> p
           | (None, None) \<Rightarrow> [])"

section \<open>Hunk headers\<close>

text \<open>\<open>/^[-+](\d+)(?:,(\d+))?$/\<close>: the sign, the start and the count.\<close>

definition parseRange :: "jsstr \<Rightarrow> (jschar \<times> int \<times> int) option" where
  "parseRange r =
     (case r of
        [] \<Rightarrow> None
      | sign # t \<Rightarrow>
          (let ds = takeWhile isDigit t; more = dropWhile isDigit t
           in if sign \<notin> set (js ''-+'') \<or> ds = [] then None
              else case more of
                  [] \<Rightarrow> Some (sign, digitsValue ds, 1)
                | c # cs \<Rightarrow>
                    if c = 44 \<and> cs \<noteq> [] \<and> list_all isDigit cs
                    then Some (sign, digitsValue ds, digitsValue cs) else None))"

text \<open>
  \<open>/^(@@+)\s+(.*?)\s+\1(.*)$/\<close> behind the fence and the white space after it: the shortest
  text up to white space, the fence again and the tail. (Giving up white space before the group
  could only make the group blank, which has no ranges.)
\<close>

fun toFence :: "jsstr \<Rightarrow> jsstr \<Rightarrow> (jsstr \<times> jsstr) option" where
  "toFence fence [] = None"
| "toFence fence (c # s) =
     (let t = dropWhile isWhite (c # s)
      in if isWhite c \<and> prefix fence t \<and> dots (drop (length fence) t)
         then Some ([], drop (length fence) t)
         else if dotChar c then map_option (\<lambda>(g, tail). (c # g, tail)) (toFence fence s)
         else None)"

record HunkHeader =
  headOld :: "int \<times> int"
  headNew :: "int \<times> int"
  headBudget :: int
  headHeading :: "jsstr option"
  headFence :: nat

definition headerOf :: "(jschar \<times> int \<times> int) list \<Rightarrow> jsstr \<Rightarrow> nat \<Rightarrow> HunkHeader option" where
  "headerOf ranges tail fence =
     (case find (\<lambda>r. fst r = 45) ranges of
        None \<Rightarrow> None
      | Some firstOld \<Rightarrow>
          Some \<lparr>headOld = snd firstOld, headNew = snd (last ranges),
            headBudget = sum_list (map (\<lambda>r. snd (snd r)) ranges),
            headHeading = (if 0 < length tail then Some (dropWhile isWhite tail) else None),
            headFence = fence - 1\<rparr>)"

definition parseHunkHeader :: "jsstr \<Rightarrow> HunkHeader option" where
  "parseHunkHeader line =
     (let fence = takeWhile (\<lambda>c. c = 64) line; r = drop (length fence) line; s = dropWhile isWhite r
      in if length fence < 2 \<or> length s = length r then None
         else case toFence fence s of
             None \<Rightarrow> None
           | Some (g, tail) \<Rightarrow>
               Option.bind (those (map parseRange (splitWhite (trim g))))
                 (\<lambda>ranges. headerOf ranges tail (length fence)))"

section \<open>The scan\<close>

definition isHunkContent :: "jsstr \<Rightarrow> nat \<Rightarrow> bool" where
  "isHunkContent p width \<longleftrightarrow> width \<le> length p \<and> list_all (\<lambda>c. c \<in> set (js ''+- '')) (take width p)"

definition countSlots :: "jsstr \<Rightarrow> nat \<Rightarrow> int" where
  "countSlots p width =
     (let cs = take width p; slots = int (length (filter (\<lambda>c. c \<noteq> 43) cs));
          pureDeletion = (43 \<notin> set cs \<and> 32 \<notin> set cs)
      in if pureDeletion then slots else slots + 1)"

definition isExtendedHeader :: "jsstr \<Rightarrow> bool" where
  "isExtendedHeader line \<longleftrightarrow> list_ex (\<lambda>p. prefix (js p) line)
     [''old mode'', ''new mode'', ''deleted file mode'', ''new file mode'', ''copy from'', ''copy to'',
      ''index '', ''similarity index'', ''dissimilarity index'', ''mode '']"

record DiffState =
  files :: "DiffFile list"
  fileOpen :: bool
  hunkOpen :: bool
  budget :: int
  fenceWidth :: nat
  pendingOld :: "jsstr option"

definition startScan :: DiffState where
  "startScan = \<lparr>files = [], fileOpen = False, hunkOpen = False, budget = 0, fenceWidth = 1, pendingOld = None\<rparr>"

fun updateLast :: "('a \<Rightarrow> 'a) \<Rightarrow> 'a list \<Rightarrow> 'a list" where
  "updateLast f [] = []"
| "updateLast f [x] = [f x]"
| "updateLast f (x # y # ys) = x # updateLast f (y # ys)"

definition onFile :: "(DiffFile \<Rightarrow> DiffFile) \<Rightarrow> DiffState \<Rightarrow> DiffState" where
  "onFile f s = (if fileOpen s then s\<lparr>files := updateLast f (files s)\<rparr> else s)"

definition onHunk :: "(DiffHunk \<Rightarrow> DiffHunk) \<Rightarrow> DiffState \<Rightarrow> DiffState" where
  "onHunk h s = (if hunkOpen s then onFile (\<lambda>f. f\<lparr>hunks := updateLast h (hunks f)\<rparr>) s else s)"

definition closeHunk :: "nat \<Rightarrow> DiffState \<Rightarrow> DiffState" where
  "closeHunk final s = (onHunk (\<lambda>h. h\<lparr>hunkEndLine := final\<rparr>) s)\<lparr>hunkOpen := False, budget := 0\<rparr>"

definition closeFile :: "nat \<Rightarrow> DiffState \<Rightarrow> DiffState" where
  "closeFile final s =
     (onFile (\<lambda>f. f\<lparr>fileEndLine := final\<rparr>) (closeHunk final s))\<lparr>fileOpen := False, pendingOld := None\<rparr>"

definition newFile :: "nat \<Rightarrow> DiffFile" where
  "newFile lineNo =
     \<lparr>oldPath = None, newPath = None, isRename = False, isBinary = False, additions = 0, deletions = 0,
      hunks = [], fileLine = lineNo, fileEndLine = lineNo\<rparr>"

definition openFile :: "nat \<Rightarrow> DiffState \<Rightarrow> DiffState" where
  "openFile lineNo s =
     (let s = closeFile (lineNo - 1) s in s\<lparr>files := files s @ [newFile lineNo], fileOpen := True\<rparr>)"

text \<open>A content line of an open hunk.\<close>

definition contentLine :: "nat \<Rightarrow> jsstr \<Rightarrow> DiffState \<Rightarrow> DiffState" where
  "contentLine lineNo p s =
     (let left = budget s - countSlots p (fenceWidth s);
          s = onFile (\<lambda>f. f\<lparr>additions := (if 43 \<in> set p then additions f + 1 else additions f),
                           deletions := (if 45 \<in> set p then deletions f + 1 else deletions f),
                           fileEndLine := lineNo\<rparr>) s;
          s = (onHunk (\<lambda>h. h\<lparr>hunkEndLine := lineNo\<rparr>) s)\<lparr>budget := left\<rparr>
      in if left \<le> 0 then closeHunk lineNo s else s)"

text \<open>The kinds of line outside a hunk's content, each \<open>None\<close> when the line is not of its kind.\<close>

definition gitLine :: "nat \<Rightarrow> jsstr \<Rightarrow> DiffState \<Rightarrow> DiffState option" where
  "gitLine lineNo line s =
     (case List.map_filter (\<lambda>p. afterWhite p line) [''diff --git'', ''diff --cc'', ''diff --combined''] of
        [] \<Rightarrow> None
      | rest # _ \<Rightarrow>
          (case parseGitPaths rest of (a, b) \<Rightarrow>
             Some (onFile (\<lambda>f. f\<lparr>oldPath := a, newPath := b\<rparr>) (openFile lineNo s))))"

definition extendedLine :: "nat \<Rightarrow> jsstr \<Rightarrow> DiffState \<Rightarrow> DiffState option" where
  "extendedLine lineNo line s =
     (if \<not> fileOpen s \<or> hunkOpen s then None
      else case afterLiteral ''rename from '' line of
        Some (c # cs) \<Rightarrow>
          Some (onFile (\<lambda>f. f\<lparr>isRename := True, oldPath := cleanPath (c # cs), fileEndLine := lineNo\<rparr>) s)
      | _ \<Rightarrow> (case afterLiteral ''rename to '' line of
          Some (c # cs) \<Rightarrow>
            Some (onFile (\<lambda>f. f\<lparr>isRename := True, newPath := cleanPath (c # cs), fileEndLine := lineNo\<rparr>) s)
        | _ \<Rightarrow>
            if prefix (js ''Binary files '') line \<or> prefix (js ''GIT binary patch'') line
            then Some (onFile (\<lambda>f. f\<lparr>isBinary := True, fileEndLine := lineNo\<rparr>) s)
            else None))"

definition minusLine :: "nat \<Rightarrow> jsstr \<Rightarrow> DiffState \<Rightarrow> DiffState option" where
  "minusLine lineNo line s =
     map_option (\<lambda>raw.
       (onFile (\<lambda>f. f\<lparr>oldPath := cleanPath raw, fileEndLine := lineNo\<rparr>)
          (if fileOpen s then s else openFile lineNo s))\<lparr>pendingOld := Some raw\<rparr>)
       (afterLiteral ''--- '' line)"

definition plusLine :: "nat \<Rightarrow> jsstr \<Rightarrow> DiffState \<Rightarrow> DiffState option" where
  "plusLine lineNo line s =
     (if pendingOld s = None then None
      else map_option (\<lambda>raw.
        (onFile (\<lambda>f. f\<lparr>newPath := cleanPath raw, fileEndLine := lineNo\<rparr>) s)\<lparr>pendingOld := None\<rparr>)
        (afterLiteral ''+++ '' line))"

definition hunkHeaderLine :: "nat \<Rightarrow> jsstr \<Rightarrow> DiffState \<Rightarrow> DiffState option" where
  "hunkHeaderLine lineNo line s =
     (if \<not> fileOpen s then None
      else map_option (\<lambda>hh.
        (onFile (\<lambda>f. f\<lparr>hunks := hunks f @
            [\<lparr>oldStart = fst (headOld hh), oldCount = snd (headOld hh),
              newStart = fst (headNew hh), newCount = snd (headNew hh),
              heading = headHeading hh, hunkLine = lineNo, hunkEndLine = lineNo\<rparr>],
            fileEndLine := lineNo\<rparr>) (closeHunk (lineNo - 1) s))
          \<lparr>hunkOpen := True, budget := headBudget hh, fenceWidth := headFence hh\<rparr>)
        (parseHunkHeader line))"

definition spanLine :: "nat \<Rightarrow> jsstr \<Rightarrow> DiffState \<Rightarrow> DiffState" where
  "spanLine lineNo line s =
     (if fileOpen s \<and> \<not> hunkOpen s \<and> isExtendedHeader line
      then onFile (\<lambda>f. f\<lparr>fileEndLine := lineNo\<rparr>) s else s)"

definition headerLine :: "nat \<Rightarrow> jsstr \<Rightarrow> DiffState \<Rightarrow> DiffState" where
  "headerLine lineNo line s =
     (case gitLine lineNo line s of Some s' \<Rightarrow> s' | None \<Rightarrow>
      case extendedLine lineNo line s of Some s' \<Rightarrow> s' | None \<Rightarrow>
      case minusLine lineNo line s of Some s' \<Rightarrow> s' | None \<Rightarrow>
      case plusLine lineNo line s of Some s' \<Rightarrow> s' | None \<Rightarrow>
      case hunkHeaderLine lineNo line s of Some s' \<Rightarrow> s' | None \<Rightarrow> spanLine lineNo line s)"

definition scanLine :: "DiffState \<Rightarrow> nat \<times> jsstr \<Rightarrow> DiffState" where
  "scanLine s numbered =
     (case numbered of (lineNo, line) \<Rightarrow>
        if hunkOpen s \<and> 0 < budget s
        then let p = take (fenceWidth s) line
             in if prefix [92] line then s
                else if isHunkContent p (fenceWidth s) then contentLine lineNo p s
                else headerLine lineNo line (closeHunk (lineNo - 1) s)
        else headerLine lineNo line s)"

definition documentLines :: "jsstr \<Rightarrow> jsstr list" where
  "documentLines content = map (lineBody content) (logicalLines content)"

definition scanDocument :: "jsstr list \<Rightarrow> DiffFile list" where
  "scanDocument ls = files (closeFile (length ls) (foldl scanLine startScan (enumerate 1 ls)))"

definition scanDiff :: "jsstr \<Rightarrow> DiffFile list" where
  "scanDiff content = scanDocument (documentLines content)"

section \<open>The projections\<close>

record MimeSymbol =
  symName :: jsstr
  symKind :: jsstr
  symLine :: nat
  symEndLine :: nat
  symContainer :: "jsstr option"

definition hunkName :: "DiffHunk \<Rightarrow> jsstr" where
  "hunkName h =
     (case heading h of Some t \<Rightarrow> t
      | None \<Rightarrow> js ''@@ +'' @ decimal (nat (newStart h)) @ js '','' @ decimal (nat (newCount h)))"

definition fileSymbols :: "DiffFile \<Rightarrow> MimeSymbol list" where
  "fileSymbols f =
     \<lparr>symName = sectionName f, symKind = js ''module'', symLine = fileLine f, symEndLine = fileEndLine f,
      symContainer = None\<rparr>
     # map (\<lambda>h. \<lparr>symName = hunkName h, symKind = js ''field'', symLine = hunkLine h,
                   symEndLine = hunkEndLine h, symContainer = Some (sectionName f)\<rparr>) (hunks f)"

definition extractRaw :: "jsstr \<Rightarrow> MimeSymbol list" where
  "extractRaw content = concat (map fileSymbols (scanDiff content))"

text \<open>
  \<open>span\<close>: \<open>None\<close> where the assertion \<open>!\<close> on the position would be wrong and reading its column
  would throw.
\<close>

definition spanOf :: "jsstr \<Rightarrow> nat \<Rightarrow> nat \<Rightarrow> TextRegion option" where
  "spanOf content first final =
     (let offset = (case atLine (logicalLines content) (int final) of
                      Some l \<Rightarrow> contentEnd l | None \<Rightarrow> length content)
      in map_option (\<lambda>p. \<lparr>startLine = first, startColumn = 1, endLine = final, endColumn = posColumn p\<rparr>)
           (positionAtOffset content (int offset)))"

record HunkNode =
  nodeHunk :: DiffHunk
  hunkRegion :: TextRegion

record FileNode =
  nodeFile :: DiffFile
  fileRegion :: TextRegion
  fileHunks :: "HunkNode list"

definition hunkNode :: "jsstr \<Rightarrow> DiffHunk \<Rightarrow> HunkNode option" where
  "hunkNode content h =
     map_option (\<lambda>r. \<lparr>nodeHunk = h, hunkRegion = r\<rparr>) (spanOf content (hunkLine h) (hunkEndLine h))"

definition fileNode :: "jsstr \<Rightarrow> DiffFile \<Rightarrow> FileNode option" where
  "fileNode content f =
     Option.bind (spanOf content (fileLine f) (fileEndLine f)) (\<lambda>r.
       map_option (\<lambda>hs. \<lparr>nodeFile = f, fileRegion = r, fileHunks = hs\<rparr>)
         (those (map (hunkNode content) (hunks f))))"

definition deepJson :: "jsstr \<Rightarrow> (TextRegion \<times> FileNode list) option" where
  "deepJson content =
     (let fs = scanDiff content
      in Option.bind (spanOf content 1 (foldl (\<lambda>m f. max m (fileEndLine f)) 1 fs)) (\<lambda>r.
           map_option (\<lambda>ns. (r, ns)) (those (map (fileNode content) fs))))"

section \<open>Sections and hunks are disjoint spans\<close>

definition fileOk :: "nat \<Rightarrow> DiffFile \<Rightarrow> bool" where
  "fileOk final f \<longleftrightarrow> 1 \<le> fileLine f \<and> fileLine f \<le> final
     \<and> (\<forall>h \<in> set (hunks f). fileLine f < hunkLine h \<and> hunkLine h \<le> hunkEndLine h \<and> hunkEndLine h \<le> final)
     \<and> sorted_wrt (\<lambda>h k. hunkEndLine h < hunkLine k) (hunks f)"

definition closedOk :: "nat \<Rightarrow> DiffFile list \<Rightarrow> bool" where
  "closedOk k fs \<longleftrightarrow> (\<forall>f \<in> set fs. fileOk (fileEndLine f) f \<and> fileEndLine f \<le> k)
     \<and> sorted_wrt (\<lambda>f g. fileEndLine f < fileLine g) fs"

text \<open>What holds after \<open>k\<close> lines: \<open>ds\<close> are the sections that are closed.\<close>

definition scanOk :: "nat \<Rightarrow> DiffState \<Rightarrow> bool" where
  "scanOk k s \<longleftrightarrow>
     (if fileOpen s
      then \<exists>ds f. files s = ds @ [f] \<and> closedOk k ds \<and> fileOk k f
         \<and> (\<forall>d \<in> set ds. fileEndLine d < fileLine f) \<and> (hunkOpen s \<longrightarrow> hunks f \<noteq> [])
      else closedOk k (files s) \<and> \<not> hunkOpen s \<and> pendingOld s = None)"

lemma updateLast_snoc [simp]: "updateLast f (xs @ [x]) = xs @ [f x]"
proof (induction xs)
  case (Cons y ys)
  then show ?case by (cases ys) auto
qed simp

lemma updateLast_Nil_iff [simp]: "updateLast f xs = [] \<longleftrightarrow> xs = []"
  by (induction f xs rule: updateLast.induct) auto

lemma fileOk_fields [simp]:
  "fileOk k (f\<lparr>oldPath := a\<rparr>) = fileOk k f" "fileOk k (f\<lparr>newPath := a\<rparr>) = fileOk k f"
  "fileOk k (f\<lparr>isRename := b\<rparr>) = fileOk k f" "fileOk k (f\<lparr>isBinary := b\<rparr>) = fileOk k f"
  "fileOk k (f\<lparr>additions := n\<rparr>) = fileOk k f" "fileOk k (f\<lparr>deletions := n\<rparr>) = fileOk k f"
  "fileOk k (f\<lparr>fileEndLine := n\<rparr>) = fileOk k f"
  by (simp_all add: fileOk_def)

lemma fileOk_later: "fileOk k f \<Longrightarrow> k \<le> m \<Longrightarrow> fileOk m f"
  by (force simp: fileOk_def)

lemma closedOk_later: "closedOk k ds \<Longrightarrow> k \<le> m \<Longrightarrow> closedOk m ds"
  by (force simp: closedOk_def)

lemma scanOk_later: "scanOk k s \<Longrightarrow> k \<le> m \<Longrightarrow> scanOk m s"
  unfolding scanOk_def by (meson closedOk_later fileOk_later)

lemma scanOkE:
  assumes "scanOk k s" "fileOpen s"
  obtains ds f where "files s = ds @ [f]" "closedOk k ds" "fileOk k f"
    "\<forall>d \<in> set ds. fileEndLine d < fileLine f" "hunkOpen s \<Longrightarrow> hunks f \<noteq> []"
  using assms by (auto simp: scanOk_def)

text \<open>Changing the open section.\<close>

lemma scanOk_onFile:
  assumes "scanOk k s" "\<And>f. fileOk k f \<Longrightarrow> (hunkOpen s \<Longrightarrow> hunks f \<noteq> []) \<Longrightarrow> fileOk m (g f)" "k \<le> m"
    "\<And>f. fileLine (g f) = fileLine f" "\<And>f. hunks f \<noteq> [] \<Longrightarrow> hunks (g f) \<noteq> []"
  shows "scanOk m (onFile g s)"
proof (cases "fileOpen s")
  case True
  with assms(1) obtain ds f where f: "files s = ds @ [f]" "closedOk k ds" "fileOk k f"
    "\<forall>d \<in> set ds. fileEndLine d < fileLine f" "hunkOpen s \<Longrightarrow> hunks f \<noteq> []"
    by (rule scanOkE) metis
  have "files (onFile g s) = ds @ [g f]" "fileOpen (onFile g s)" "hunkOpen (onFile g s) = hunkOpen s"
    using True f(1) by (simp_all add: onFile_def)
  then show ?thesis
    using f assms(2) [of f] assms(4) assms(5) [of f] closedOk_later [OF f(2) assms(3)]
    unfolding scanOk_def by auto
next
  case False
  then show ?thesis using scanOk_later [OF assms(1,3)] by (simp add: onFile_def)
qed

lemma onFile_flags [simp]:
  "fileOpen (onFile g s) = fileOpen s" "hunkOpen (onFile g s) = hunkOpen s"
  "budget (onFile g s) = budget s" "pendingOld (onFile g s) = pendingOld s"
  "fenceWidth (onFile g s) = fenceWidth s"
  "fileOpen (onHunk h s) = fileOpen s" "hunkOpen (onHunk h s) = hunkOpen s"
  "budget (onHunk h s) = budget s" "pendingOld (onHunk h s) = pendingOld s"
  "fenceWidth (onHunk h s) = fenceWidth s"
  by (simp_all add: onFile_def onHunk_def)

lemma fileOk_lastHunk:
  assumes "fileOk k f" "k \<le> m"
  shows "fileOk m (f\<lparr>hunks := updateLast (\<lambda>h. h\<lparr>hunkEndLine := m\<rparr>) (hunks f)\<rparr>)"
proof (cases "hunks f" rule: rev_cases)
  case Nil
  then show ?thesis using fileOk_later [OF assms] by (simp add: fileOk_def)
next
  case (snoc hs h)
  then show ?thesis using assms by (force simp: fileOk_def sorted_wrt_append)
qed

lemma scanOk_onHunk:
  assumes "scanOk k s" "k \<le> m"
  shows "scanOk m (onHunk (\<lambda>h. h\<lparr>hunkEndLine := m\<rparr>) s)"
proof (cases "hunkOpen s")
  case True
  have "scanOk m (onFile (\<lambda>f. f\<lparr>hunks := updateLast (\<lambda>h. h\<lparr>hunkEndLine := m\<rparr>) (hunks f)\<rparr>) s)"
    by (rule scanOk_onFile [OF assms(1) _ assms(2)]) (simp_all add: fileOk_lastHunk [OF _ assms(2)])
  then show ?thesis using True by (simp add: onHunk_def)
next
  case False
  then show ?thesis using scanOk_later [OF assms] by (simp add: onHunk_def)
qed

lemma scanOk_closeHunk: "scanOk k s \<Longrightarrow> k \<le> m \<Longrightarrow> scanOk m (closeHunk m s)"
  using scanOk_onHunk [of k s m] by (auto simp: closeHunk_def scanOk_def)

lemma closeHunk_flags [simp]:
  "fileOpen (closeHunk m s) = fileOpen s" "hunkOpen (closeHunk m s) = False"
  "pendingOld (closeHunk m s) = pendingOld s" "fenceWidth (closeHunk m s) = fenceWidth s"
  "budget (closeHunk m s) = 0"
  by (simp_all add: closeHunk_def)

lemma scanOk_closeFile:
  assumes "scanOk k s" "k \<le> m"
  shows "closedOk m (files (closeFile m s)) \<and> \<not> fileOpen (closeFile m s)
    \<and> \<not> hunkOpen (closeFile m s) \<and> pendingOld (closeFile m s) = None"
proof (cases "fileOpen s")
  case True
  then have "fileOpen (closeHunk m s)" by simp
  with scanOk_closeHunk [OF assms] obtain ds f where f: "files (closeHunk m s) = ds @ [f]"
    "closedOk m ds" "fileOk m f" "\<forall>d \<in> set ds. fileEndLine d < fileLine f"
    by (rule scanOkE) metis
  then have "files (closeFile m s) = ds @ [f\<lparr>fileEndLine := m\<rparr>]"
    using True by (simp add: closeFile_def onFile_def)
  then show ?thesis
    using f by (simp add: closedOk_def sorted_wrt_append closeFile_def)
next
  case False
  then have "files (closeFile m s) = files (closeHunk m s)" by (simp add: closeFile_def onFile_def)
  then show ?thesis
    using scanOk_closeHunk [OF assms] False by (simp add: scanOk_def closeFile_def)
qed

lemma scanOk_openFile:
  assumes "scanOk k s" "k < n"
  shows "scanOk n (openFile n s)" "fileOpen (openFile n s)" "\<not> hunkOpen (openFile n s)"
proof -
  have k: "k \<le> n - 1" using assms(2) by simp
  note c = scanOk_closeFile [OF assms(1) k]
  have "fileOk n (newFile n)" using assms(2) by (simp add: fileOk_def newFile_def)
  moreover have "closedOk n (files (closeFile (n - 1) s))"
    using c closedOk_later by (metis diff_le_self)
  moreover have "\<forall>d \<in> set (files (closeFile (n - 1) s)). fileEndLine d < fileLine (newFile n)"
    using c assms(2) by (force simp: closedOk_def newFile_def)
  ultimately show "scanOk n (openFile n s)"
    using c by (simp add: scanOk_def openFile_def Let_def)
  show "fileOpen (openFile n s)" "\<not> hunkOpen (openFile n s)"
    using c by (simp_all add: openFile_def Let_def)
qed

lemma scanOk_fields [simp]:
  "scanOk k (s\<lparr>budget := b\<rparr>) = scanOk k s"
  "fileOpen s \<Longrightarrow> scanOk k (s\<lparr>pendingOld := p\<rparr>) = scanOk k s"
  "scanOk k s \<Longrightarrow> scanOk k (s\<lparr>pendingOld := None\<rparr>)"
  by (auto simp: scanOk_def)

lemma contentLine_ok [invariant_rules]:
  assumes "scanOk k s"
  shows "scanOk (Suc k) (contentLine (Suc k) p s)"
proof -
  define g :: "DiffFile \<Rightarrow> DiffFile" where "g f = f\<lparr>additions := (if 43 \<in> set p then additions f + 1 else additions f),
    deletions := (if 45 \<in> set p then deletions f + 1 else deletions f), fileEndLine := Suc k\<rparr>" for f
  have "scanOk k (onFile g s)" by (rule scanOk_onFile [OF assms]) (simp_all add: g_def)
  from scanOk_onHunk [OF this le_SucI [OF order_refl]]
  have h: "scanOk (Suc k) (onHunk (\<lambda>h. h\<lparr>hunkEndLine := Suc k\<rparr>) (onFile g s))" .
  then show ?thesis
    using scanOk_closeHunk [of "Suc k" _ "Suc k"] unfolding contentLine_def Let_def g_def [symmetric]
    by simp
qed

lemma touch_ok:
  assumes "scanOk k s" "\<And>f. fileLine (g f) = fileLine f" "\<And>f. hunks (g f) = hunks f"
  shows "scanOk (Suc k) (onFile g s)"
  by (rule scanOk_onFile [OF assms(1)]) (use assms(2,3) in \<open>auto simp: fileOk_def\<close>)

lemma headerKinds_ok [invariant_rules]:
  assumes "scanOk k s"
  shows "gitLine (Suc k) line s = Some s' \<Longrightarrow> scanOk (Suc k) s'"
    "extendedLine (Suc k) line s = Some s' \<Longrightarrow> scanOk (Suc k) s'"
    "minusLine (Suc k) line s = Some s' \<Longrightarrow> scanOk (Suc k) s'"
    "plusLine (Suc k) line s = Some s' \<Longrightarrow> scanOk (Suc k) s'"
    "scanOk (Suc k) (spanLine (Suc k) line s)"
proof -
  note opened = scanOk_openFile [OF assms lessI]
  note later = scanOk_later [OF assms le_SucI [OF order_refl]]
  show "scanOk (Suc k) s'" if "gitLine (Suc k) line s = Some s'"
    using that scanOk_onFile [OF opened(1), of "Suc k"]
    by (auto simp: gitLine_def split: list.splits prod.splits)
  show "scanOk (Suc k) s'" if "extendedLine (Suc k) line s = Some s'"
    using that touch_ok [OF assms]
    by (auto simp: extendedLine_def split: option.splits list.splits if_splits)
  show "scanOk (Suc k) s'" if "minusLine (Suc k) line s = Some s'"
    using that touch_ok [OF assms] scanOk_onFile [OF opened(1), of "Suc k"] opened(2)
    by (auto simp: minusLine_def split: if_splits)
  show "scanOk (Suc k) s'" if "plusLine (Suc k) line s = Some s'"
    using that touch_ok [OF assms] by (auto simp: plusLine_def split: if_splits)
  show "scanOk (Suc k) (spanLine (Suc k) line s)"
    using touch_ok [OF assms] later by (simp add: spanLine_def)
qed

lemma fileOk_snocHunk:
  assumes "fileOk k f" "hunkLine h = Suc k" "hunkEndLine h = Suc k"
  shows "fileOk (Suc k) (f\<lparr>hunks := hunks f @ [h]\<rparr>)"
  using assms by (force simp: fileOk_def sorted_wrt_append)

lemma hunkHeaderLine_ok [invariant_rules]:
  assumes "scanOk k s" "hunkHeaderLine (Suc k) line s = Some s'"
  shows "scanOk (Suc k) s'"
proof -
  have "scanOk k (closeHunk k s)" by (rule scanOk_closeHunk [OF assms(1) order_refl])
  note on = scanOk_onFile [OF this, of "Suc k"]
  obtain hh where hh: "fileOpen s" "parseHunkHeader line = Some hh"
    "s' = (onFile (\<lambda>f. f\<lparr>hunks := hunks f @
            [\<lparr>oldStart = fst (headOld hh), oldCount = snd (headOld hh),
              newStart = fst (headNew hh), newCount = snd (headNew hh),
              heading = headHeading hh, hunkLine = Suc k, hunkEndLine = Suc k\<rparr>],
            fileEndLine := Suc k\<rparr>) (closeHunk k s))
          \<lparr>hunkOpen := True, budget := headBudget hh, fenceWidth := headFence hh\<rparr>"
    using assms(2) by (auto simp: hunkHeaderLine_def split: if_splits)
  define g :: "DiffFile \<Rightarrow> DiffFile" where "g f = f\<lparr>hunks := hunks f @
            [\<lparr>oldStart = fst (headOld hh), oldCount = snd (headOld hh),
              newStart = fst (headNew hh), newCount = snd (headNew hh),
              heading = headHeading hh, hunkLine = Suc k, hunkEndLine = Suc k\<rparr>],
            fileEndLine := Suc k\<rparr>" for f
  have "scanOk (Suc k) (onFile g (closeHunk k s))"
    by (rule on) (simp_all add: g_def fileOk_snocHunk)
  moreover have "fileOpen (onFile g (closeHunk k s))" using hh(1) by simp
  ultimately obtain ds f where f: "files (onFile g (closeHunk k s)) = ds @ [f]" "closedOk (Suc k) ds"
    "fileOk (Suc k) f" "\<forall>d \<in> set ds. fileEndLine d < fileLine f"
    by (metis scanOkE)
  moreover have "hunks f \<noteq> []"
  proof -
    have "fileOpen (closeHunk k s)" using hh(1) by simp
    with \<open>scanOk k (closeHunk k s)\<close> obtain es e where "files (closeHunk k s) = es @ [e]" by (metis scanOkE)
    then have "f = g e" using f(1) hh(1) by (simp add: onFile_def)
    then show ?thesis by (simp add: g_def)
  qed
  ultimately show ?thesis
    using hh(1) unfolding hh(3) g_def [symmetric] by (auto simp: scanOk_def)
qed

lemma headerLine_ok [invariant_rules]:
  assumes "scanOk k s"
  shows "scanOk (Suc k) (headerLine (Suc k) line s)"
  using headerKinds_ok [OF assms, of line] hunkHeaderLine_ok [OF assms, of line]
  by (auto simp: headerLine_def split: option.splits)

lemma scanLine_ok [invariant_rules]:
  assumes "scanOk k s"
  shows "scanOk (Suc k) (scanLine s (Suc k, line))"
proof -
  have "scanOk k (closeHunk k s)" by (rule scanOk_closeHunk [OF assms order_refl])
  from headerLine_ok [OF this] headerLine_ok [OF assms] contentLine_ok [OF assms] scanOk_later [OF assms]
  show ?thesis by (simp add: scanLine_def Let_def)
qed

lemma scan_ok: "scanOk k s \<Longrightarrow> scanOk (k + length ls) (foldl scanLine s (enumerate (Suc k) ls))"
proof (induction ls arbitrary: k s)
  case (Cons l ls)
  from Cons.IH [OF scanLine_ok [OF Cons.prems]] show ?case by simp
qed simp

lemma scanDocument_ok: "closedOk (length ls) (scanDocument ls)"
proof -
  have "scanOk 0 startScan" by (simp add: scanOk_def startScan_def closedOk_def)
  from scan_ok [OF this, of ls] show ?thesis
    using scanOk_closeFile [OF _ order_refl] by (simp add: scanDocument_def)
qed

text \<open>The end of a logical line has a position, so every span of the document has one.\<close>

lemma logicalLines_scan:
  assumes "i < length (logicalLines content)"
  shows "i < length (scanLines content)" "logicalLines content ! i = scanLines content ! i"
proof -
  have ne: "content \<noteq> []" using assms by (auto simp: logicalLines_def)
  have "i < length (scanLines content) \<and> logicalLines content ! i = scanLines content ! i"
    by (rule logicalLines_split [OF ne]) (use assms in \<open>auto simp: nth_append\<close>)
  then show "i < length (scanLines content)" "logicalLines content ! i = scanLines content ! i" by auto
qed

definition lineSpan :: "jsstr \<Rightarrow> nat \<Rightarrow> nat \<Rightarrow> TextRegion" where
  "lineSpan content first final =
     \<lparr>startLine = first, startColumn = 1, endLine = final,
      endColumn = codePointCount (documentLines content ! (final - 1)) + 1\<rparr>"

lemma spanOf_line:
  assumes "fits content" "1 \<le> final" "final \<le> lineCount content"
  shows "spanOf content first final = Some (lineSpan content first final)"
proof -
  let ?l = "logicalLines content ! (final - 1)"
  have i: "final - 1 < length (logicalLines content)" using assms(2,3) by (simp add: lineCount_def)
  note l = logicalLines_scan [OF i]
  note b = line_bounds [OF l(1) refl]
  let ?k = "codePointCount (lineBody content ?l)"
  have k: "?k < length (offsetsForLine content ?l)" "offsetsForLine content ?l ! ?k = contentEnd ?l"
    using offsetsFrom_last [of "lineStart ?l" "codePoints (lineBody content ?l)"] b l(2)
    by (simp_all add: offsetsForLine_def codePointCount_def lineBody_def length_slice)
  have "positionAtOffset content (int (contentEnd ?l)) = Some (TextPosition (final - 1 + 1) (?k + 1))"
    by (rule positionAtOffset_at_column [OF l(1)])
      (use k l(2) b fits_safe [OF assms(1)] in auto)
  moreover have "atLine (logicalLines content) (int final) = Some ?l"
    using assms(2) i by (simp add: atLine_Some_iff nat_diff_distrib)
  ultimately show ?thesis
    using i by (simp add: spanOf_def lineSpan_def documentLines_def)
qed

lemma spanOf_empty: "spanOf [] 1 1 = Some \<lparr>startLine = 1, startColumn = 1, endLine = 1, endColumn = 1\<rparr>"
  by code_simp

lemma those_map: "(\<And>x. x \<in> set xs \<Longrightarrow> f x = Some (g x)) \<Longrightarrow> those (map f xs) = Some (map g xs)"
  by (induction xs) auto

lemma foldl_max: "foldl (\<lambda>m f. max m (e f)) a fs = Max (insert (a :: nat) (e ` set fs))"
proof (induction fs arbitrary: a)
  case (Cons f fs)
  have "Max (insert (max a (e f)) (e ` set fs)) = Max (insert a (insert (e f) (e ` set fs)))"
    by (cases "fs = []") (simp_all add: max.assoc)
  then show ?case using Cons.IH by simp
qed simp

text \<open>Whatever the text, the sections the scanner finds are disjoint spans of its lines in
  their order, the hunks of a section are disjoint spans after its first line and within it, and
  the deep projection of the text never fails: every section's region runs from the first
  column of its first line to the end of its last.\<close>

lemma sections_span_document:
  assumes "fits content"
  shows "sorted_wrt (\<lambda>f g. fileEndLine f < fileLine g) (scanDiff content)
    \<and> (\<forall>f \<in> set (scanDiff content).
         1 \<le> fileLine f \<and> fileLine f \<le> fileEndLine f \<and> fileEndLine f \<le> lineCount content
       \<and> sorted_wrt (\<lambda>h k. hunkEndLine h < hunkLine k) (hunks f)
       \<and> (\<forall>h \<in> set (hunks f). fileLine f < hunkLine h \<and> hunkLine h \<le> hunkEndLine h
            \<and> hunkEndLine h \<le> fileEndLine f))
    \<and> (\<exists>r ns. deepJson content = Some (r, ns) \<and> map nodeFile ns = scanDiff content
         \<and> (\<forall>n \<in> set ns. fileRegion n = lineSpan content (fileLine (nodeFile n)) (fileEndLine (nodeFile n))
              \<and> map nodeHunk (fileHunks n) = hunks (nodeFile n)
              \<and> (\<forall>m \<in> set (fileHunks n).
                   hunkRegion m = lineSpan content (hunkLine (nodeHunk m)) (hunkEndLine (nodeHunk m)))))"
proof -
  let ?fs = "scanDiff content"
  have ok: "closedOk (lineCount content) ?fs"
    using scanDocument_ok [of "documentLines content"]
    by (simp add: scanDiff_def documentLines_def lineCount_def)
  define hnode where "hnode h = \<lparr>nodeHunk = h, hunkRegion = lineSpan content (hunkLine h) (hunkEndLine h)\<rparr>" for h
  define node where "node f = \<lparr>nodeFile = f, fileRegion = lineSpan content (fileLine f) (fileEndLine f),
    fileHunks = map hnode (hunks f)\<rparr>" for f
  have f: "1 \<le> fileLine f \<and> fileLine f \<le> fileEndLine f \<and> fileEndLine f \<le> lineCount content
       \<and> sorted_wrt (\<lambda>h k. hunkEndLine h < hunkLine k) (hunks f)
       \<and> (\<forall>h \<in> set (hunks f). fileLine f < hunkLine h \<and> hunkLine h \<le> hunkEndLine h
            \<and> hunkEndLine h \<le> fileEndLine f)" if "f \<in> set ?fs" for f
    using ok that by (auto simp: closedOk_def fileOk_def)
  have "hunkNode content h = Some (hnode h)" if "h \<in> set (hunks f)" "f \<in> set ?fs" for h f
    using f [OF that(2)] that(1) spanOf_line [OF assms, of "hunkEndLine h" "hunkLine h"]
    by (force simp: hunkNode_def hnode_def)
  then have nodes: "fileNode content f = Some (node f)" if "f \<in> set ?fs" for f
    using those_map [of "hunks f" "hunkNode content" hnode] that f [OF that]
      spanOf_line [OF assms, of "fileEndLine f" "fileLine f"]
    by (simp add: fileNode_def node_def)
  let ?m = "foldl (\<lambda>m f. max m (fileEndLine f)) 1 ?fs"
  obtain r where r: "spanOf content 1 ?m = Some r"
  proof (cases "content = []")
    case True
    then have "?fs = []" using ok by (cases ?fs) (auto simp: closedOk_def fileOk_def lineCount_def logicalLines_def)
    then show thesis using that spanOf_empty True by simp
  next
    case False
    have "1 \<le> ?m" unfolding foldl_max by (rule Max_ge) simp_all
    moreover have "?m \<le> lineCount content"
      using f logicalLines_nonempty [OF False] unfolding foldl_max
      by (auto simp: lineCount_def Suc_le_eq)
    ultimately show thesis using that spanOf_line [OF assms] by blast
  qed
  have "deepJson content = Some (r, map node ?fs)"
    using those_map [of ?fs "fileNode content" node] nodes r by (simp add: deepJson_def Let_def)
  moreover have "map nodeFile (map node ?fs) = ?fs" by (simp add: node_def comp_def)
  moreover have "map nodeHunk (map hnode hs) = hs" for hs by (simp add: hnode_def comp_def)
  ultimately show ?thesis
    using f ok by (auto simp: closedOk_def node_def hnode_def)
qed

definition exampleDiff :: jsstr where
  "exampleDiff = joinWith [LF] (map js [''--- a/x'', ''@@ -1,2 +1,2 @@'', ''-a''])"

lemma sections_span_document_witness:
  "fits exampleDiff \<and> map (\<lambda>f. (fileLine f, fileEndLine f)) (scanDiff exampleDiff) = [(1, 3)]
   \<and> deepJson exampleDiff \<noteq> None"
proof -
  have "fits exampleDiff" "map (\<lambda>f. (fileLine f, fileEndLine f)) (scanDiff exampleDiff) = [(1, 3)]"
    by code_simp+
  then show ?thesis using sections_span_document [of exampleDiff] by auto
qed

section \<open>Where the scan departs from its description\<close>

text \<open>
  A second bare pair of paths does not open a section of its own, it renames the open one, so a
  plain diff of several files is read as one file. And a line that one parent deletes and the
  others never had spends a slot of every range, so the budget of a combined hunk runs out
  before its content does.
\<close>

lemma second_pair_renames:
  "map newPath (scanDocument (map js [''--- a/x'', ''+++ b/x'', ''--- a/y'', ''+++ b/y''])) = [Some (js ''y'')]"
  by code_simp

lemma combined_deletion_overspends:
  "countSlots (js ''- '') 2 = 3
   \<and> map deletions (scanDocument (map js [''--- a/x'', ''@@@ -1,2 -0,0 +0,0 @@@'', ''- a'', ''- b''])) = [1]"
  by code_simp

end
