(* ===== verification/DiffReadBack.thy ===== *)
theory DiffReadBack
  imports TextDiff
begin

text \<open>
  The two diff components together: what \<^verbatim>\<open>plurnk-acp/src/diff.ts\<close> writes with
  \<open>buildUnifiedDiff\<close>, the scanner of \<^verbatim>\<open>plurnk-mimetypes-text-diff/src/TextDiff.ts\<close> reads
  back: one section, one hunk per range of changes on exactly the lines printed for it, with the
  numbers of the header and the counts of the operations. It holds for texts without carriage returns, which the writer
  keeps inside a line and the scanner takes for its end.
\<close>

section \<open>A document and its lines\<close>

lemma documentLines_rows: "documentLines content = map fst (rowsOf content)"
  by (simp add: documentLines_def rowsOf_def comp_def)

lemma documentLines_join:
  assumes "ls \<noteq> []" "\<forall>l \<in> set ls. l \<noteq> [] \<and> newlineFree l"
  shows "documentLines (joinWith [LF] ls) = ls"
proof -
  define rows where "rows xs = map (\<lambda>l. (l, [LF])) (butlast xs) @ [(last xs, [])]" for xs :: "jsstr list"
  have "rowsWell (rows xs) \<and> rowsText (rows xs) = joinWith [LF] xs"
    if "xs \<noteq> []" "\<forall>l \<in> set xs. l \<noteq> [] \<and> newlineFree l" for xs
    using that
  proof (induction "[LF]" xs rule: joinWith.induct)
    case (3 x y ys)
    have "rows (x # y # ys) = (x, [LF]) # rows (y # ys)" by (simp add: rows_def)
    moreover obtain r rs where "rows (y # ys) = r # rs" by (cases "rows (y # ys)") (auto simp: rows_def)
    ultimately show ?case using 3 by auto
  qed (simp_all add: rows_def)
  note r = this [OF assms]
  have "rows ls \<noteq> []" "map fst (rows ls) = ls" using assms(1) by (simp_all add: rows_def comp_def)
  then show ?thesis using rowsOf_rowsText [of "rows ls"] r by (simp add: documentLines_rows)
qed

section \<open>A printed hunk header is read back\<close>

lemma isDigit_plain: "isDigit c \<Longrightarrow> \<not> isWhite c \<and> dotChar c \<and> c \<noteq> 64 \<and> c \<noteq> 44"
  by (auto simp: isDigit_def isWhite_def dotChar_def word_le_nat_alt)

lemma decimal_plain: "\<forall>c \<in> set (decimal n). \<not> isWhite c \<and> dotChar c"
  using decimal_digits isDigit_plain by blast

definition rangeText :: "jschar \<Rightarrow> nat \<Rightarrow> nat \<Rightarrow> jsstr" where
  "rangeText sign start count = sign # decimal start @ 44 # decimal count"

lemma parseRange_rangeText:
  assumes "sign = 45 \<or> sign = 43"
  shows "parseRange (rangeText sign a b) = Some (sign, int a, int b)"
proof -
  have c: "\<not> isDigit 44" by (simp add: isDigit_def)
  have "takeWhile isDigit (decimal a @ 44 # decimal b) = decimal a"
    "dropWhile isDigit (decimal a @ 44 # decimal b) = 44 # decimal b"
    using decimal_digits [of a] c by (simp_all add: takeWhile_append dropWhile_append takeWhile_eq_all_conv)
  moreover have "sign \<in> set (js ''-+'')" using assms by (auto simp: js_def)
  ultimately show ?thesis
    using decimal_digits [of b] by (simp add: rangeText_def parseRange_def list_all_iff digitsValue_decimal)
qed

lemma rangeText_plain:
  assumes "sign = 45 \<or> sign = 43"
  shows "\<forall>c \<in> set (rangeText sign a b). \<not> isWhite c \<and> dotChar c"
proof -
  have "\<not> isWhite 45 \<and> \<not> isWhite 43 \<and> \<not> isWhite 44 \<and> dotChar 45 \<and> dotChar 43 \<and> dotChar 44"
    by (simp add: isWhite_def dotChar_def word_le_nat_alt)
  then show ?thesis using decimal_plain assms by (auto simp: rangeText_def)
qed

lemma toFence_word:
  "\<forall>c \<in> set w. \<not> isWhite c \<and> dotChar c \<Longrightarrow>
     toFence fence (w @ r) = map_option (\<lambda>(g, tail). (w @ g, tail)) (toFence fence r)"
proof (induction w)
  case Nil
  show ?case by (cases "toFence fence r") auto
next
  case (Cons c w)
  then show ?case by (cases "toFence fence r") (auto simp: Let_def)
qed

lemma trim_words:
  assumes "xs \<noteq> []" "ys \<noteq> []" "\<not> isWhite (hd xs)" "\<not> isWhite (last ys)"
  shows "trim (xs @ s @ ys) = xs @ s @ ys"
proof -
  have "dropWhile isWhite (xs @ s @ ys) = xs @ s @ ys" using assms(1,3) by (cases xs) auto
  moreover have "dropWhile isWhite (rev ys @ rev s @ rev xs) = rev ys @ rev s @ rev xs"
    using assms(2,4) by (cases ys rule: rev_cases) auto
  ultimately show ?thesis by (simp add: trim_def trimStart_def trimEnd_def)
qed

definition oldRange :: "IndexedOp list \<Rightarrow> nat \<times> nat" where
  "oldRange xs = (let n = countIn [Keep, Del] xs in (if n = 0 then 0 else oldPos (hd xs), n))"

definition newRange :: "IndexedOp list \<Rightarrow> nat \<times> nat" where
  "newRange xs = (let n = countIn [Keep, Add] xs in (if n = 0 then 0 else newPos (hd xs), n))"

lemma hunkHeader_text:
  "hunkHeader xs = [64, 64] @ 32 # rangeText 45 (fst (oldRange xs)) (snd (oldRange xs))
     @ 32 # rangeText 43 (fst (newRange xs)) (snd (newRange xs)) @ 32 # [64, 64]"
proof -
  have "js ''@@ -'' = [64, 64, 32, 45]" "js '','' = [44]" "js '' +'' = [32, 43]" "js '' @@'' = [32, 64, 64]"
    by (simp_all add: js_def)
  then show ?thesis
    by (simp add: hunkHeader_def oldRange_def newRange_def rangeText_def Let_def)
qed

lemma parseHunkHeader_fence:
  assumes "s \<noteq> []" "\<not> isWhite (hd s)" "toFence [64, 64] s = Some (g, t)"
  shows "parseHunkHeader ([64, 64] @ 32 # s)
    = Option.bind (those (map parseRange (splitWhite (trim g)))) (\<lambda>ranges. headerOf ranges t (Suc (Suc 0)))"
proof -
  have "isWhite 32" by (simp add: isWhite_def)
  moreover have "dropWhile isWhite s = s" using assms(1,2) by (cases s) auto
  ultimately show ?thesis using assms(3) by (simp add: parseHunkHeader_def Let_def)
qed

lemma toFence_ranges:
  assumes "\<forall>c \<in> set o1. \<not> isWhite c \<and> dotChar c" "\<forall>c \<in> set n1. \<not> isWhite c \<and> dotChar c"
    "n1 = 43 # n2"
  shows "toFence [64, 64] (o1 @ 32 # n1 @ 32 # [64, 64]) = Some (o1 @ 32 # n1, [])"
proof -
  have w: "isWhite 32" "\<not> isWhite 64" "\<not> isWhite 43" "dotChar 32"
    by (simp_all add: isWhite_def dotChar_def word_le_nat_alt)
  have "toFence [64, 64] (32 # [64, 64]) = Some ([], [])" using w by (simp add: dots_def)
  then have "toFence [64, 64] (n1 @ 32 # [64, 64]) = Some (n1, [])"
    by (simp only: toFence_word [OF assms(2)]) simp
  then have "toFence [64, 64] (32 # n1 @ 32 # [64, 64]) = Some (32 # n1, [])"
    using w assms(3) by simp
  then show ?thesis by (simp only: toFence_word [OF assms(1)]) simp
qed

lemma parse_printed_header:
  "parseHunkHeader (hunkHeader xs) = Some
     \<lparr>headOld = (int (fst (oldRange xs)), int (snd (oldRange xs))),
      headNew = (int (fst (newRange xs)), int (snd (newRange xs))),
      headBudget = int (snd (oldRange xs)) + int (snd (newRange xs)),
      headHeading = None, headFence = 1\<rparr>"
proof -
  define o1 where "o1 = rangeText 45 (fst (oldRange xs)) (snd (oldRange xs))"
  define n1 where "n1 = rangeText 43 (fst (newRange xs)) (snd (newRange xs))"
  have plain: "\<forall>c \<in> set o1. \<not> isWhite c \<and> dotChar c" "\<forall>c \<in> set n1. \<not> isWhite c \<and> dotChar c"
    unfolding o1_def n1_def by (rule rangeText_plain; simp)+
  have w: "isWhite 32" "\<not> isWhite 45" "\<not> isWhite 43" by (simp_all add: isWhite_def)
  have heads: "o1 = 45 # tl o1" "n1 = 43 # tl n1" "o1 \<noteq> []" "n1 \<noteq> []"
    by (simp_all add: rangeText_def o1_def n1_def)
  then have hd: "hd o1 = 45" "hd n1 = 43" by (metis list.sel(1))+
  have "trim (o1 @ [32] @ n1) = o1 @ [32] @ n1"
    by (rule trim_words) (use w hd heads plain in auto)
  moreover have "splitWhite (o1 @ 32 # n1) = [o1, n1]"
    using splitWhite_words [OF _ w(1), of o1 n1] splitWhite_word [of n1] plain w(3) hd(2)
    by (metis list.sel(1))
  moreover have "parseRange o1 = Some (45, int (fst (oldRange xs)), int (snd (oldRange xs)))"
    "parseRange n1 = Some (43, int (fst (newRange xs)), int (snd (newRange xs)))"
    by (simp_all add: o1_def n1_def parseRange_rangeText)
  moreover have "hunkHeader xs = [64, 64] @ 32 # o1 @ 32 # n1 @ 32 # [64, 64]"
    unfolding o1_def n1_def by (rule hunkHeader_text)
  ultimately show ?thesis
    using parseHunkHeader_fence [of "o1 @ 32 # n1 @ 32 # [64, 64]"] heads(3) hd(1) w(2)
      toFence_ranges [OF plain heads(2)]
    by (simp add: headerOf_def)
qed

section \<open>Scanning a printed hunk\<close>

text \<open>The scanner in its only section, outside the pair of paths.\<close>

definition reading :: "DiffFile \<Rightarrow> bool \<Rightarrow> int \<Rightarrow> DiffState" where
  "reading f inHunk left =
     \<lparr>files = [f], fileOpen = True, hunkOpen = inHunk, budget = left, fenceWidth = 1, pendingOld = None\<rparr>"

definition slotsOf :: "IndexedOp \<Rightarrow> int" where
  "slotsOf x = (if opType (theOp x) = Keep then 2 else 1)"

definition counted :: "IndexedOp list \<Rightarrow> nat \<Rightarrow> DiffFile \<Rightarrow> DiffFile" where
  "counted xs final f =
     f\<lparr>additions := additions f + countIn [Add] xs, deletions := deletions f + countIn [Del] xs,
       fileEndLine := final, hunks := updateLast (\<lambda>h. h\<lparr>hunkEndLine := final\<rparr>) (hunks f)\<rparr>"

lemma updateLast_twice: "updateLast f (updateLast g xs) = updateLast (\<lambda>x. f (g x)) xs"
  by (induction xs rule: rev_induct) auto

lemma scan_op:
  assumes "slotsOf x \<le> left"
  shows "scanLine (reading f True left) (n, opLine x)
    = reading (counted [x] n f) (slotsOf x < left) (left - slotsOf x)"
proof -
  define c :: jschar where "c = (case opType (theOp x) of Keep \<Rightarrow> 32 | Del \<Rightarrow> 45 | Add \<Rightarrow> 43)"
  have pos: "0 < left" using assms by (auto simp: slotsOf_def split: if_splits)
  have line: "opLine x = c # opText (theOp x)"
    by (cases "opType (theOp x)") (simp_all add: opLine_def c_def js_def)
  have content: "c \<noteq> 92" "isHunkContent [c] 1"
    by (cases "opType (theOp x)"; simp add: c_def isHunkContent_def js_def)+
  have slots: "countSlots [c] 1 = slotsOf x"
    by (cases "opType (theOp x)") (simp_all add: c_def countSlots_def slotsOf_def)
  have counts: "(if 43 \<in> set [c] then a + 1 else a) = a + countIn [Add] [x]"
    "(if 45 \<in> set [c] then a + 1 else a) = a + countIn [Del] [x]" for a
    by (cases "opType (theOp x)"; simp add: c_def countIn_def)+
  have "scanLine (reading f True left) (n, opLine x) = contentLine n [c] (reading f True left)"
    using pos content by (simp add: scanLine_def reading_def line)
  then show ?thesis
    unfolding contentLine_def Let_def counts
    using slots assms by (simp add: reading_def onFile_def onHunk_def closeHunk_def counted_def updateLast_twice)
qed

lemma slots_pos: "0 < slotsOf x" "xs \<noteq> [] \<Longrightarrow> 0 < sum_list (map slotsOf xs)"
proof -
  show p: "0 < slotsOf x" for x by (simp add: slotsOf_def)
  have "0 \<le> sum_list (map slotsOf xs)" for xs by (rule sum_list_nonneg) (auto simp: slotsOf_def)
  then show "xs \<noteq> [] \<Longrightarrow> 0 < sum_list (map slotsOf xs)"
    using p by (cases xs) (auto simp: add_pos_nonneg)
qed

lemma counted_append:
  "counted ys m (counted xs n f) = counted (xs @ ys) m f"
  by (simp add: counted_def countIn_def updateLast_twice)

lemma scan_ops:
  assumes "xs \<noteq> []"
  shows "foldl scanLine (reading f True (sum_list (map slotsOf xs))) (enumerate n (map opLine xs))
    = reading (counted xs (n + length xs - 1) f) False 0"
  using assms
proof (induction xs arbitrary: f n)
  case (Cons x xs)
  let ?left = "sum_list (map slotsOf xs)"
  have step: "scanLine (reading f True (slotsOf x + ?left)) (n, opLine x)
    = reading (counted [x] n f) (0 < ?left) ?left"
    using scan_op [of x "slotsOf x + ?left" f n] slots_pos(2) [of xs] by (cases xs) auto
  show ?case
  proof (cases "xs = []")
    case True
    then show ?thesis using step by simp
  next
    case False
    then have "0 < ?left" using slots_pos(2) by simp
    then show ?thesis
      using step Cons.IH [OF False, of "counted [x] n f" "Suc n"] by (simp add: counted_append)
  qed
qed simp

lemma budget_exact:
  "int (snd (oldRange xs)) + int (snd (newRange xs)) = sum_list (map slotsOf xs)"
proof -
  have "int (countIn [Keep, Del] xs) + int (countIn [Keep, Add] xs) = sum_list (map slotsOf xs)"
  proof (induction xs)
    case (Cons x xs)
    then show ?case by (cases "opType (theOp x)") (simp_all add: countIn_def slotsOf_def)
  qed (simp add: countIn_def)
  then show ?thesis by (simp add: oldRange_def newRange_def Let_def)
qed

text \<open>The hunk of a printed header on line \<open>n\<close>.\<close>

definition printedHunk :: "nat \<Rightarrow> IndexedOp list \<Rightarrow> DiffHunk" where
  "printedHunk n xs =
     \<lparr>oldStart = int (fst (oldRange xs)), oldCount = int (snd (oldRange xs)),
      newStart = int (fst (newRange xs)), newCount = int (snd (newRange xs)),
      heading = None, hunkLine = n, hunkEndLine = n + length xs\<rparr>"

lemma at_line_kinds:
  assumes "line = 64 # r"
  shows "afterWhite (''d'' @ p) line = None" "afterLiteral (''r'' @ p) line = None"
    "afterLiteral (''-'' @ p) line = None" "\<not> prefix (js (''B'' @ p)) line" "\<not> prefix (js (''G'' @ p)) line"
  using assms by (simp_all add: afterWhite_def afterLiteral_def js_def)

lemma scan_hunk:
  assumes "xs \<noteq> []"
  shows "foldl scanLine (reading f False 0) (enumerate n (hunkHeader xs # map opLine xs))
    = reading (f\<lparr>additions := additions f + countIn [Add] xs, deletions := deletions f + countIn [Del] xs,
                 fileEndLine := n + length xs, hunks := hunks f @ [printedHunk n xs]\<rparr>) False 0"
proof -
  obtain r where h: "hunkHeader xs = 64 # r" by (simp add: hunkHeader_text)
  note at = at_line_kinds [OF h]
  have kinds: "gitLine n (hunkHeader xs) s = None" "extendedLine n (hunkHeader xs) s = None"
    "minusLine n (hunkHeader xs) s = None" for s
    using at(1) [of "''iff --git''"] at(1) [of "''iff --cc''"] at(1) [of "''iff --combined''"]
      at(2) [of "''ename from ''"] at(2) [of "''ename to ''"] at(3) [of "''-- ''"]
      at(4) [of "''inary files ''"] at(5) [of "''IT binary patch''"]
    by (simp_all add: gitLine_def extendedLine_def minusLine_def map_filter_def)
  have "scanLine (reading f False 0) (n, hunkHeader xs)
    = reading (f\<lparr>hunks := hunks f @ [(printedHunk n xs)\<lparr>hunkEndLine := n\<rparr>], fileEndLine := n\<rparr>) True
        (sum_list (map slotsOf xs))"
    using parse_printed_header [of xs] kinds
    by (simp add: scanLine_def headerLine_def plusLine_def hunkHeaderLine_def reading_def onFile_def
        closeHunk_def onHunk_def printedHunk_def budget_exact)
  then show ?thesis
    using scan_ops [OF assms, of _ "Suc n"] by (simp add: counted_def printedHunk_def)
qed

section \<open>Scanning all the hunks\<close>

fun printedHunks :: "nat \<Rightarrow> IndexedOp list list \<Rightarrow> DiffHunk list" where
  "printedHunks n [] = []"
| "printedHunks n (xs # xss) = printedHunk n xs # printedHunks (n + length xs + 1) xss"

definition groupLines :: "IndexedOp list \<Rightarrow> jsstr list" where
  "groupLines xs = hunkHeader xs # map opLine xs"

lemma scan_groups:
  assumes "\<forall>xs \<in> set xss. xs \<noteq> []"
  shows "\<exists>k. foldl scanLine (reading f False 0) (enumerate n (concat (map groupLines xss)))
    = reading (f\<lparr>additions := additions f + countIn [Add] (concat xss),
                 deletions := deletions f + countIn [Del] (concat xss),
                 fileEndLine := k, hunks := hunks f @ printedHunks n xss\<rparr>) False 0"
  using assms
proof (induction xss arbitrary: f n)
  case Nil
  show ?case by (rule exI [of _ "fileEndLine f"]) (simp add: countIn_def)
next
  case (Cons xs xss)
  let ?f = "f\<lparr>additions := additions f + countIn [Add] xs, deletions := deletions f + countIn [Del] xs,
      fileEndLine := n + length xs, hunks := hunks f @ [printedHunk n xs]\<rparr>"
  have ne: "xs \<noteq> []" using Cons.prems by simp
  from Cons.IH [of ?f "n + length xs + 1"] Cons.prems obtain k where
    "foldl scanLine (reading ?f False 0) (enumerate (n + length xs + 1) (concat (map groupLines xss)))
    = reading (?f\<lparr>additions := additions ?f + countIn [Add] (concat xss),
                 deletions := deletions ?f + countIn [Del] (concat xss),
                 fileEndLine := k, hunks := hunks ?f @ printedHunks (n + length xs + 1) xss\<rparr>) False 0"
    by auto
  moreover have "length (groupLines xs) = length xs + 1" by (simp add: groupLines_def)
  ultimately show ?case
    using scan_hunk [OF ne, of f n] unfolding groupLines_def [symmetric]
    by (intro exI [of _ k]) (simp add: enumerate_append_eq countIn_def add.assoc)
qed

lemma printedHunks_spans:
  assumes "length pre + 1 = n"
  shows "map (\<lambda>h. jsSlice (pre @ concat (map groupLines xss)) (hunkLine h - 1) (hunkEndLine h)) (printedHunks n xss)
    = map groupLines xss"
  using assms
proof (induction xss arbitrary: pre n)
  case (Cons xs xss)
  have len: "length (groupLines xs) = length xs + 1" by (simp add: groupLines_def)
  have "hunkLine (printedHunk n xs) - 1 = length pre" "hunkEndLine (printedHunk n xs) = length pre + length (groupLines xs)"
    using Cons.prems len by (simp_all add: printedHunk_def)
  then have "jsSlice (pre @ concat (map groupLines (xs # xss))) (hunkLine (printedHunk n xs) - 1)
      (hunkEndLine (printedHunk n xs)) = groupLines xs"
    by (simp add: jsSlice_def)
  then show ?case using Cons.IH [of "pre @ groupLines xs" "n + length xs + 1"] Cons.prems len by simp
qed simp

text \<open>The groups of the ranges hold every operation that is not kept, once.\<close>

lemma covered_once:
  assumes "sorted_wrt (\<lambda>p q. snd p + 1 < fst q) rs" "\<forall>r \<in> set rs. a \<le> fst r \<and> fst r \<le> snd r"
    "\<forall>i < length xs. a \<le> i \<and> P (xs ! i) \<longrightarrow> covers rs i"
  shows "filter P (concat (map (\<lambda>r. jsSlice xs (fst r) (snd r + 1)) rs)) = filter P (drop a xs)"
  using assms
proof (induction rs arbitrary: a)
  case Nil
  have "\<not> P (drop a xs ! i)" if "i < length (drop a xs)" for i
    using Nil.prems(3) that by (auto simp: covers_def less_diff_conv add.commute)
  then have "filter P (drop a xs) = []" by (auto simp: filter_empty_conv in_set_conv_nth)
  then show ?case by simp
next
  case (Cons r rs)
  have r: "a \<le> fst r" "fst r \<le> snd r" and later: "\<forall>q \<in> set rs. snd r + 1 < fst q"
    using Cons.prems(1,2) by auto
  have "drop a xs = take (fst r - a) (drop a xs) @ drop (fst r) xs"
    using r(1) by (metis append_take_drop_id drop_drop le_add_diff_inverse2)
  moreover have "drop (fst r) xs = jsSlice xs (fst r) (snd r + 1) @ drop (snd r + 1) xs"
    using r(2) unfolding jsSlice_def by (metis append_take_drop_id drop_drop le_add_diff_inverse2 le_SucI Suc_eq_plus1)
  moreover have "filter P (take (fst r - a) (drop a xs)) = []"
  proof -
    have "\<not> P (xs ! i)" if "a \<le> i" "i < fst r" "i < length xs" for i
      using Cons.prems(3) that later r(2) by (force simp: covers_def)
    then show ?thesis by (auto simp: filter_empty_conv in_set_conv_nth)
  qed
  moreover have "filter P (concat (map (\<lambda>r. jsSlice xs (fst r) (snd r + 1)) rs)) = filter P (drop (snd r + 1) xs)"
  proof (rule Cons.IH)
    show "\<forall>i < length xs. snd r + 1 \<le> i \<and> P (xs ! i) \<longrightarrow> covers rs i"
      using Cons.prems(3) r by (auto simp: covers_def)
  qed (use Cons.prems later in auto)
  ultimately show ?case by (metis (no_types, lifting) append_Nil concat.simps(2) filter_append list.simps(9))
qed

lemma map_theOp_annotate: "map theOp (annotate a b ps) = ps"
  by (induction ps arbitrary: a b) simp_all

lemma countIn_annotate:
  "countIn types (annotate a b ps) = length (filter (\<lambda>p. opType p \<in> set types) ps)"
proof -
  have "filter (\<lambda>p. opType p \<in> set types) (map theOp (annotate a b ps))
      = map theOp (filter (\<lambda>x. opType (theOp x) \<in> set types) (annotate a b ps))"
    by (simp add: filter_map comp_def)
  then show ?thesis by (simp add: map_theOp_annotate countIn_def)
qed

definition changeGroups :: "nat \<Rightarrow> IndexedOp list \<Rightarrow> IndexedOp list list" where
  "changeGroups c indexed = map (\<lambda>r. jsSlice indexed (fst r) (snd r + 1)) (changeRanges c indexed)"

lemma changeGroups_nonempty: "\<forall>xs \<in> set (changeGroups c indexed). xs \<noteq> []"
proof -
  have "jsSlice indexed (fst r) (snd r + 1) \<noteq> []" if "r \<in> set (changeRanges c indexed)" for r
  proof -
    have "fst r \<le> snd r" "snd r < length indexed" using changeRanges_facts(2) that by auto
    then have "length (jsSlice indexed (fst r) (snd r + 1)) = snd r + 1 - fst r" by (simp add: length_slice)
    then show ?thesis using \<open>fst r \<le> snd r\<close> by auto
  qed
  then show ?thesis by (auto simp: changeGroups_def)
qed

lemma changeGroups_count:
  assumes "ty \<noteq> Keep"
  shows "countIn [ty] (concat (changeGroups c indexed)) = countIn [ty] indexed"
proof -
  have "filter (\<lambda>x. opType (theOp x) \<in> set [ty]) (concat (changeGroups c indexed))
      = filter (\<lambda>x. opType (theOp x) \<in> set [ty]) (drop 0 indexed)"
    unfolding changeGroups_def
    by (rule covered_once) (use assms changeRanges_facts [where c = c and indexed = indexed] in auto)
  then show ?thesis by (simp add: countIn_def)
qed

section \<open>The lines of a built diff\<close>

text \<open>A path the two path lines can carry: no tab, no terminator, no white space at its end.\<close>

definition plainPath :: "jsstr \<Rightarrow> bool" where
  "plainPath p \<longleftrightarrow> dots p \<and> TAB \<notin> set p \<and> (p \<noteq> [] \<longrightarrow> \<not> isWhite (last p))"

lemma cleanPath_plain:
  assumes "plainPath p" "c = 97 \<or> c = 98"
  shows "cleanPath (c # 47 # p) = Some p"
proof -
  have tab: "c \<noteq> TAB" "47 \<noteq> TAB" using assms(2) by (auto simp: TAB_def)
  then have line: "takeWhile (\<lambda>d. d \<noteq> TAB) (c # 47 # p) = c # 47 # p"
    using assms(1) by (auto simp: plainPath_def takeWhile_eq_all_conv)
  have w: "\<not> isWhite c" "\<not> isWhite 47" using assms(2) by (auto simp: isWhite_def)
  have "\<not> isWhite (last (c # 47 # p))" using assms(1) w by (auto simp: plainPath_def)
  then have "trim (c # 47 # p) = c # 47 # p"
    using w trim_words [of "[c]" "47 # p" "[]"] by simp
  moreover have "c \<in> set (js ''abciw'')" "\<not> prefix [QUOTE] (c # 47 # p)" "c # 47 # p \<noteq> js ''/dev/null''"
    using assms(2) by (auto simp: js_def QUOTE_def)
  ultimately show ?thesis using assms(1) line by (simp add: cleanPath_def plainPath_def)
qed

definition pathLines :: "jsstr \<Rightarrow> jsstr list" where
  "pathLines p = [js ''--- a/'' @ p, js ''+++ b/'' @ p]"

lemma scan_pathLines:
  assumes "plainPath p"
  shows "foldl scanLine startScan (enumerate 1 (pathLines p))
    = reading ((newFile 1)\<lparr>oldPath := Some p, newPath := Some p, fileEndLine := 2\<rparr>) False 0"
proof -
  have d: "dots (97 # 47 # p)" "dots (98 # 47 # p)"
    using assms by (simp_all add: plainPath_def dots_def dotChar_def)
  have e: "js ''--- a/'' = [45, 45, 45, 32, 97, 47]" "js ''+++ b/'' = [43, 43, 43, 32, 98, 47]"
    "js ''--- '' = [45, 45, 45, 32]" "js ''+++ '' = [43, 43, 43, 32]" by (simp_all add: js_def)
  have o1: "openFile 1 startScan = reading (newFile 1) False 0"
    by (simp add: openFile_def startScan_def closeFile_def closeHunk_def onFile_def onHunk_def reading_def)
  have one: "gitLine 1 (js ''--- a/'' @ p) startScan = None"
    by (simp add: gitLine_def map_filter_def afterWhite_def js_def)
  have minus: "minusLine 1 (js ''--- a/'' @ p) startScan
    = Some ((reading ((newFile 1)\<lparr>oldPath := Some p\<rparr>) False 0)\<lparr>pendingOld := Some (97 # 47 # p)\<rparr>)"
    using d cleanPath_plain [OF assms, of 97] o1
    by (simp add: minusLine_def afterLiteral_def e startScan_def newFile_def reading_def onFile_def)
  let ?s = "(reading ((newFile 1)\<lparr>oldPath := Some p\<rparr>) False 0)\<lparr>pendingOld := Some (97 # 47 # p)\<rparr>"
  have first: "scanLine startScan (1, js ''--- a/'' @ p) = ?s"
  proof -
    have "extendedLine 1 (js ''--- a/'' @ p) startScan = None" "\<not> hunkOpen startScan"
      by (simp_all add: extendedLine_def startScan_def)
    then show ?thesis using one minus by (simp add: scanLine_def headerLine_def)
  qed
  have "gitLine 2 (js ''+++ b/'' @ p) ?s = None" "minusLine 2 (js ''+++ b/'' @ p) ?s = None"
    "extendedLine 2 (js ''+++ b/'' @ p) ?s = None" "\<not> hunkOpen ?s"
    by (simp_all add: gitLine_def map_filter_def afterWhite_def js_def minusLine_def extendedLine_def
        afterLiteral_def reading_def)
  moreover have "plusLine 2 (js ''+++ b/'' @ p) ?s
    = Some (reading ((newFile 1)\<lparr>oldPath := Some p, newPath := Some p, fileEndLine := 2\<rparr>) False 0)"
    using d cleanPath_plain [OF assms, of 98]
    by (simp add: plusLine_def afterLiteral_def e newFile_def reading_def onFile_def)
  ultimately have "scanLine ?s (2, js ''+++ b/'' @ p)
    = reading ((newFile 1)\<lparr>oldPath := Some p, newPath := Some p, fileEndLine := 2\<rparr>) False 0"
    by (simp add: scanLine_def headerLine_def)
  then show ?thesis using first by (simp add: pathLines_def numeral_2_eq_2)
qed

lemma splitLines_newlineFree: "CR \<notin> set s \<Longrightarrow> l \<in> set (splitLines s) \<Longrightarrow> newlineFree l"
  using splitLF_lines [of l s]
  by (auto simp: splitLines_def Let_def newlineFree_def isNewline_def split: if_splits dest: in_set_butlastD)

lemma computeEditOps_texts:
  assumes x: "x \<in> set (computeEditOps os ns)"
  shows "opText x \<in> set os \<union> set ns"
proof (cases "opType x = Add")
  case True
  then have "opText x \<in> set (newSide (computeEditOps os ns))" using assms by (auto simp: newSide_def)
  then show ?thesis by (simp add: computeEditOps_sides)
next
  case False
  then have "opText x \<in> set (oldSide (computeEditOps os ns))" using assms by (auto simp: oldSide_def)
  then show ?thesis by (simp add: computeEditOps_sides)
qed

lemma dots_newlineFree: "\<forall>c \<in> set s. dotChar c \<Longrightarrow> newlineFree s"
  by (auto simp: newlineFree_def isNewline_def CR_def LF_def dotChar_def)

lemma groupLines_wellformed:
  assumes "\<forall>x \<in> set xs. newlineFree (opText (theOp x))"
  shows "\<forall>l \<in> set (groupLines xs). l \<noteq> [] \<and> newlineFree l"
proof -
  have "\<forall>c \<in> set (hunkHeader xs). dotChar c"
  proof -
    have "dotChar 64" "dotChar 32" by (simp_all add: dotChar_def)
    then show ?thesis using rangeText_plain [of 45] rangeText_plain [of 43] by (auto simp: hunkHeader_text)
  qed
  then have "newlineFree (hunkHeader xs)" by (rule dots_newlineFree)
  moreover have "opLine x \<noteq> [] \<and> newlineFree (opLine x)" if "x \<in> set xs" for x
    using assms that
    by (cases "opType (theOp x)") (auto simp: opLine_def js_def isNewline_def CR_def LF_def)
  ultimately show ?thesis by (auto simp: groupLines_def hunkHeader_text)
qed

lemma built_lines:
  assumes "CR \<notin> set oldText" "CR \<notin> set newText" "plainPath (dropWhile (\<lambda>c. c = 47) filePath)"
  shows "documentLines (buildUnifiedDiff filePath oldText newText c)
    = pathLines (dropWhile (\<lambda>c. c = 47) filePath)
      @ concat (map groupLines (changeGroups c (annotate 1 1
          (computeEditOps (splitLines oldText) (splitLines newText)))))"
proof -
  let ?p = "dropWhile (\<lambda>c. c = 47) filePath"
  let ?ops = "computeEditOps (splitLines oldText) (splitLines newText)"
  let ?ix = "annotate 1 1 ?ops"
  let ?ls = "pathLines ?p @ concat (map groupLines (changeGroups c ?ix))"
  have "map (hunkLines ?ix) (changeRanges c ?ix) = map groupLines (changeGroups c ?ix)"
    by (simp add: changeGroups_def groupLines_def hunkLines_def Let_def)
  then have d: "buildUnifiedDiff filePath oldText newText c = joinWith [LF] ?ls"
    by (simp add: buildUnifiedDiff_def Let_def pathLines_def)
  have "newlineFree (opText x)" if "x \<in> set ?ops" for x
    using computeEditOps_texts [OF that] splitLines_newlineFree assms(1,2) by blast
  moreover have "theOp x \<in> set ?ops" if "x \<in> set ?ix" for x
    using that map_theOp_annotate [of 1 1 ?ops] by (metis image_eqI list.set_map)
  moreover have "x \<in> set ?ix" if "x \<in> set xs" "xs \<in> set (changeGroups c ?ix)" for x xs
    using that by (auto simp: changeGroups_def jsSlice_def dest: in_set_takeD in_set_dropD)
  ultimately have "\<forall>l \<in> set (groupLines xs). l \<noteq> [] \<and> newlineFree l" if "xs \<in> set (changeGroups c ?ix)" for xs
    using that by (intro groupLines_wellformed) blast
  moreover have "newlineFree ?p"
    using assms(3) by (intro dots_newlineFree) (simp add: plainPath_def dots_def list_all_iff)
  then have "\<forall>l \<in> set (pathLines ?p). l \<noteq> [] \<and> newlineFree l"
    by (simp add: pathLines_def js_def isNewline_def CR_def LF_def)
  ultimately have "\<forall>l \<in> set ?ls. l \<noteq> [] \<and> newlineFree l" by auto
  moreover have "?ls \<noteq> []" by (simp add: pathLines_def)
  ultimately show ?thesis unfolding d by (intro documentLines_join) blast+
qed

text \<open>The condition is needed: the scanner ends a line at a carriage return as well, so a changed line that holds one is torn in
  two, the hunk closes early and the addition behind it is not read.\<close>

lemma carriage_return_tears_a_row:
  "map opType (computeEditOps (splitLines [97, 13, 98]) (splitLines [97])) = [Del, Add]
    \<and> map (\<lambda>f. (deletions f, additions f)) (scanDiff (buildUnifiedDiff [102] [97, 13, 98] [97] 1)) = [(1, 0)]"
  by code_simp

text \<open>C20. For texts without carriage returns, and a path that, leading slashes aside, has no tab and no line terminator and does not
  end in white space, the scanner reads back what the unified diff writes: one section with the path on both sides, as many
  additions and deletions as the edit has, one hunk per range of changes that spans exactly the lines printed for it and has the
  numbers of its header, and nothing else.\<close>

theorem built_diff_reads_back:
  assumes "CR \<notin> set oldText" "CR \<notin> set newText" "plainPath (dropWhile (\<lambda>c. c = 47) filePath)"
  shows "let p = dropWhile (\<lambda>c. c = 47) filePath;
      ops = computeEditOps (splitLines oldText) (splitLines newText);
      groups = changeGroups c (annotate 1 1 ops);
      d = buildUnifiedDiff filePath oldText newText c
    in \<exists>f. scanDiff d = [f] \<and> oldPath f = Some p \<and> newPath f = Some p
      \<and> \<not> isRename f \<and> \<not> isBinary f \<and> fileLine f = 1 \<and> fileEndLine f = lineCount d
      \<and> additions f = length (filter (\<lambda>x. opType x = Add) ops)
      \<and> deletions f = length (filter (\<lambda>x. opType x = Del) ops)
      \<and> map (\<lambda>h. jsSlice (documentLines d) (hunkLine h - 1) (hunkEndLine h)) (hunks f)
          = map (\<lambda>xs. hunkHeader xs # map opLine xs) groups
      \<and> map (\<lambda>h. (oldStart h, oldCount h, newStart h, newCount h, heading h)) (hunks f)
          = map (\<lambda>xs. (int (fst (oldRange xs)), int (snd (oldRange xs)),
                       int (fst (newRange xs)), int (snd (newRange xs)), None)) groups"
proof -
  define p where "p = dropWhile (\<lambda>c. c = 47) filePath"
  define ops where "ops = computeEditOps (splitLines oldText) (splitLines newText)"
  define groups where "groups = changeGroups c (annotate 1 1 ops)"
  define d where "d = buildUnifiedDiff filePath oldText newText c"
  let ?f0 = "(newFile 1)\<lparr>oldPath := Some p, newPath := Some p, fileEndLine := 2\<rparr>"
  have ls: "documentLines d = pathLines p @ concat (map groupLines groups)"
    using built_lines [OF assms] by (simp add: d_def p_def groups_def ops_def)
  have paths: "foldl scanLine startScan (enumerate 1 (pathLines p)) = reading ?f0 False 0"
    by (rule scan_pathLines) (use assms(3) in \<open>simp add: p_def\<close>)
  have two: "length (pathLines p) = 2" by (simp add: pathLines_def)
  obtain k where "foldl scanLine (reading ?f0 False 0) (enumerate 3 (concat (map groupLines groups)))
    = reading (?f0\<lparr>additions := additions ?f0 + countIn [Add] (concat groups),
                 deletions := deletions ?f0 + countIn [Del] (concat groups),
                 fileEndLine := k, hunks := hunks ?f0 @ printedHunks 3 groups\<rparr>) False 0"
    using scan_groups [OF changeGroups_nonempty] unfolding groups_def by blast
  then have end': "foldl scanLine startScan (enumerate 1 (documentLines d))
    = reading (?f0\<lparr>additions := countIn [Add] (concat groups), deletions := countIn [Del] (concat groups),
                 fileEndLine := k, hunks := printedHunks 3 groups\<rparr>) False 0"
    using paths two by (simp add: ls enumerate_append_eq newFile_def numeral_3_eq_3)
  define f where "f = ?f0\<lparr>additions := countIn [Add] (concat groups), deletions := countIn [Del] (concat groups),
                 fileEndLine := lineCount d, hunks := printedHunks 3 groups\<rparr>"
  have "length (documentLines d) = lineCount d" by (simp add: documentLines_def lineCount_def)
  then have "scanDiff d = [f]"
    unfolding scanDiff_def scanDocument_def end'
    by (simp add: closeFile_def closeHunk_def reading_def onFile_def onHunk_def f_def)
  moreover have "countIn [Add] (concat groups) = length (filter (\<lambda>x. opType x = Add) ops)"
    "countIn [Del] (concat groups) = length (filter (\<lambda>x. opType x = Del) ops)"
    by (simp_all add: groups_def changeGroups_count countIn_annotate)
  moreover have "map (\<lambda>h. jsSlice (documentLines d) (hunkLine h - 1) (hunkEndLine h)) (printedHunks 3 groups)
      = map groupLines groups"
    unfolding ls by (rule printedHunks_spans) (simp add: two)
  moreover have "map (\<lambda>h. (oldStart h, oldCount h, newStart h, newCount h, heading h)) (printedHunks n groups)
      = map (\<lambda>xs. (int (fst (oldRange xs)), int (snd (oldRange xs)),
                   int (fst (newRange xs)), int (snd (newRange xs)), None)) groups" for n
    by (induction n groups rule: printedHunks.induct) (simp_all add: printedHunk_def)
  ultimately show ?thesis
    unfolding p_def [symmetric] ops_def [symmetric] d_def [symmetric] groups_def [symmetric] Let_def
    by (intro exI [of _ f]) (simp add: f_def newFile_def groupLines_def)
qed

theorem built_diff_reads_back_witness:
  "\<exists>f. scanDiff (buildUnifiedDiff [102] [97, 10, 98] [97, 10, 99] 1) = [f] \<and> newPath f = Some [102]
    \<and> fileLine f = 1"
proof -
  have "CR \<notin> set [97, 10, 98]" "CR \<notin> set [97, 10, 99]" "plainPath (dropWhile (\<lambda>c. c = 47) [102])"
    "dropWhile (\<lambda>c. c = 47) [102] = [102 :: jschar]"
    by (simp_all add: CR_def plainPath_def dots_def dotChar_def TAB_def isWhite_def)
  then show ?thesis
    using built_diff_reads_back [of "[97, 10, 98]" "[97, 10, 99]" "[102]" 1] by (auto simp: Let_def)
qed

end
