(* ===== verification/TextCsv.thy ===== *)
theory TextCsv
  imports TextCoordinates JsSearch
begin

text \<open>
  \<^verbatim>\<open>plurnk-mimetypes-text-csv/src/TextCsv.ts\<close>: the RFC 4180 tokenizer, which owns the values of the
  fields and the places they come from, with the validation and the projections that read it.
  The two queries delegate to a JSON path and an XML projection and are not modelled. A row
  object is a map from header names: the order of its members is left out.
\<close>

definition COMMA :: jschar where "COMMA = 44"
definition DQUOTE :: jschar where "DQUOTE = 34"

record CsvRecord =
  csvFields :: "jsstr list"
  csvSpans :: "(nat \<times> nat) list"
  csvStart :: nat
  csvEnd :: nat

record CsvState =
  doneRecords :: "CsvRecord list"
  curRow :: "jsstr list"
  curField :: jsstr
  inQuotes :: bool
  pos :: nat
  recordStart :: nat
  fieldStart :: nat
  curSpans :: "(nat \<times> nat) list"

definition startCsv :: CsvState where
  "startCsv = \<lparr>doneRecords = [], curRow = [], curField = [], inQuotes = False, pos = 0, recordStart = 0,
     fieldStart = 0, curSpans = []\<rparr>"

definition takeChar :: "jschar \<Rightarrow> nat \<Rightarrow> CsvState \<Rightarrow> CsvState" where
  "takeChar c width s = s\<lparr>curField := curField s @ [c], pos := pos s + width\<rparr>"

definition setQuotes :: "bool \<Rightarrow> CsvState \<Rightarrow> CsvState" where
  "setQuotes q s = s\<lparr>inQuotes := q, pos := pos s + 1\<rparr>"

definition endField :: "CsvState \<Rightarrow> CsvState" where
  "endField s = s\<lparr>curRow := curRow s @ [curField s], curSpans := curSpans s @ [(fieldStart s, pos s)], curField := []\<rparr>"

definition nextField :: "CsvState \<Rightarrow> CsvState" where
  "nextField s = (endField s)\<lparr>pos := pos s + 1, fieldStart := pos s + 1\<rparr>"

definition pushRecord :: "CsvState \<Rightarrow> CsvState" where
  "pushRecord s = s\<lparr>doneRecords := doneRecords s @
     [\<lparr>csvFields = curRow s, csvSpans = curSpans s, csvStart = recordStart s, csvEnd = pos s\<rparr>]\<rparr>"

definition endRecord :: "nat \<Rightarrow> CsvState \<Rightarrow> CsvState" where
  "endRecord width s = (pushRecord (endField s))
     \<lparr>curRow := [], curSpans := [], pos := pos s + width, recordStart := pos s + width,
      fieldStart := pos s + width\<rparr>"

text \<open>One turn of the loop on the character \<open>c\<close>, and how many further characters it takes.\<close>

definition csvStep :: "CsvState \<Rightarrow> jschar \<Rightarrow> jsstr \<Rightarrow> CsvState \<times> nat" where
  "csvStep s c cs =
     (if inQuotes s
      then if c = DQUOTE
           then if prefix [DQUOTE] cs then (takeChar DQUOTE 2 s, 1) else (setQuotes False s, 0)
           else (takeChar c 1 s, 0)
      else if c = DQUOTE then (setQuotes True s, 0)
      else if c = COMMA then (nextField s, 0)
      else if isNewline c
      then if c = CR \<and> prefix [LF] cs then (endRecord 2 s, 1) else (endRecord 1 s, 0)
      else (takeChar c 1 s, 0))"

function scanCsv :: "CsvState \<Rightarrow> jsstr \<Rightarrow> CsvState" where
  "scanCsv s [] = s"
| "scanCsv s (c # cs) = scanCsv (fst (csvStep s c cs)) (drop (snd (csvStep s c cs)) cs)"
  by pat_completeness auto
termination
  by (relation "measure (\<lambda>(s, cs). length cs)") auto

datatype CsvError = UnbalancedQuote | WrongColumns nat nat nat

definition parseRecords :: "jsstr \<Rightarrow> CsvError + CsvRecord list" where
  "parseRecords content =
     (let s = scanCsv startCsv content
      in if inQuotes s then Inl UnbalancedQuote
         else if recordStart s < length content then Inr (doneRecords (pushRecord (endField s)))
         else Inr (doneRecords s))"

text \<open>\<open>validate\<close> throws or returns nothing.\<close>

definition validate :: "jsstr \<Rightarrow> CsvError + unit" where
  "validate content =
     andThen (parseRecords content) (\<lambda>rs.
       case rs of [] \<Rightarrow> Inr ()
       | r # others \<Rightarrow>
           (let expected = length (csvFields r)
            in case find (\<lambda>(i, x). length (csvFields x) \<noteq> expected) (enumerate 1 others) of
                 Some (i, x) \<Rightarrow> Inl (WrongColumns (i + 1) (length (csvFields x)) expected)
               | None \<Rightarrow> Inr ()))"

record CsvSymbol =
  columnName :: jsstr
  columnLine :: nat
  columnEndLine :: nat

definition extractColumns :: "jsstr \<Rightarrow> CsvError + CsvSymbol list" where
  "extractColumns content =
     andThen (parseRecords content) (\<lambda>rs.
       case rs of [] \<Rightarrow> Inr []
       | r # _ \<Rightarrow>
           (let final = (case regionFromOffsets content 0 (int (csvEnd r)) of
                           Some g \<Rightarrow> endLine g | None \<Rightarrow> 1)
            in Inr (map (\<lambda>name. \<lparr>columnName = name, columnLine = 1, columnEndLine = final\<rparr>) (csvFields r))))"

text \<open>\<open>Object.fromEntries\<close>: a repeated name has the value of its last column.\<close>

definition rowObject :: "jsstr list \<Rightarrow> jsstr list \<Rightarrow> jsstr \<rightharpoonup> jsstr" where
  "rowObject headers cells = map_of (rev (map (\<lambda>(i, name).
     (name, case atIndex cells i of Some v \<Rightarrow> v | None \<Rightarrow> [])) (enumerate 0 headers)))"

definition toRowObjects :: "CsvRecord list \<Rightarrow> (jsstr \<rightharpoonup> jsstr) list" where
  "toRowObjects rs =
     (case rs of
        r # x # others \<Rightarrow> map (\<lambda>y. rowObject (csvFields r) (csvFields y)) (x # others)
      | _ \<Rightarrow> [])"

definition deepRows :: "jsstr \<Rightarrow> CsvError + (jsstr \<rightharpoonup> jsstr) list" where
  "deepRows content = andThen (parseRecords content) (\<lambda>rs. Inr (toRowObjects rs))"

text \<open>\<open>/^\/(\d+)(?:\/([^/]*))?$/\<close>: a row and, within it, a column's name with its escapes.\<close>

fun unescapeSlash :: "jsstr \<Rightarrow> jsstr" where
  "unescapeSlash (c # d # s) = (if c = 126 \<and> d = 49 then 47 # unescapeSlash s else c # unescapeSlash (d # s))"
| "unescapeSlash s = s"

fun unescapeTilde :: "jsstr \<Rightarrow> jsstr" where
  "unescapeTilde (c # d # s) = (if c = 126 \<and> d = 48 then 126 # unescapeTilde s else c # unescapeTilde (d # s))"
| "unescapeTilde s = s"

definition parsePointer :: "jsstr \<Rightarrow> (nat \<times> jsstr option) option" where
  "parsePointer p =
     (case p of
        [] \<Rightarrow> None
      | c # t \<Rightarrow>
          (let ds = takeWhile isDigit t; others = dropWhile isDigit t
           in if c \<noteq> 47 \<or> ds = [] then None
              else case others of
                  [] \<Rightarrow> Some (nat (digitsValue ds), None)
                | d # key \<Rightarrow>
                    if d = 47 \<and> 47 \<notin> set key
                    then Some (nat (digitsValue ds), Some (unescapeTilde (unescapeSlash key))) else None))"

definition lastIndexOf :: "'a list \<Rightarrow> 'a \<Rightarrow> nat option" where
  "lastIndexOf xs x = (case rev (indicesWhere (\<lambda>y. y = x) xs) of [] \<Rightarrow> None | i # _ \<Rightarrow> Some i)"

definition pointedSpan :: "jsstr \<Rightarrow> CsvRecord list \<Rightarrow> jsstr \<Rightarrow> (nat \<times> nat) option" where
  "pointedSpan content rs pointer =
     (if pointer = [] then Some (0, length content)
      else Option.bind (parsePointer pointer) (\<lambda>(n, key).
        Option.bind (atIndex rs (n + 1)) (\<lambda>r.
          case key of
            None \<Rightarrow> Some (csvStart r, csvEnd r)
          | Some name \<Rightarrow>
              Option.bind (lastIndexOf (csvFields (rs ! 0)) name) (\<lambda>i. atIndex (csvSpans r) i))))"

definition sourceRegions :: "jsstr \<Rightarrow> CsvRecord list \<Rightarrow> jsstr \<Rightarrow> TextRegion option" where
  "sourceRegions content rs pointer =
     Option.bind (pointedSpan content rs pointer) (\<lambda>(a, b). regionFromOffsets content (int a) (int b))"

section \<open>Every text: quotes and places\<close>

text \<open>A quote opens or closes, a doubled one does both: the scan ends in quotes when their number is odd.\<close>

lemma updates_quotes [simp]:
  "inQuotes (takeChar c n s) = inQuotes s" "inQuotes (setQuotes q s) = q"
  "inQuotes (endField s) = inQuotes s" "inQuotes (nextField s) = inQuotes s"
  "inQuotes (pushRecord s) = inQuotes s" "inQuotes (endRecord n s) = inQuotes s"
  by (simp_all add: takeChar_def setQuotes_def endField_def nextField_def pushRecord_def endRecord_def)

lemma csvStep_quotes:
  "inQuotes (fst (csvStep s c cs)) \<longleftrightarrow>
     inQuotes s \<noteq> odd (count_list (c # take (snd (csvStep s c cs)) cs) DQUOTE)"
  by (cases cs) (auto simp: csvStep_def DQUOTE_def COMMA_def isNewline_def CR_def LF_def)

lemma count_list_split: "count_list (c # cs) x = count_list (c # take n cs) x + count_list (drop n cs) x"
  by (metis append_Cons append_take_drop_id count_list_append)

lemma scanCsv_quotes: "inQuotes (scanCsv s cs) \<longleftrightarrow> inQuotes s \<noteq> odd (count_list cs DQUOTE)"
proof (induction s cs rule: scanCsv.induct)
  case (2 s c cs)
  let ?n = "snd (csvStep s c cs)"
  have "count_list (c # cs) DQUOTE = count_list (c # take ?n cs) DQUOTE + count_list (drop ?n cs) DQUOTE"
    by (rule count_list_split)
  then show ?case using "2.IH" csvStep_quotes [of s c cs] by (simp del: count_list.simps) blast
qed simp

text \<open>
  Where the scan stands after \<open>done\<close>: the spans of a record follow each other from its start to
  its end, a comma apart, one for each field, and the records follow each other.
\<close>

definition spansFrom :: "nat \<Rightarrow> (nat \<times> nat) list \<Rightarrow> nat \<Rightarrow> bool" where
  "spansFrom a ps b \<longleftrightarrow> ps \<noteq> [] \<and> fst (hd ps) = a \<and> snd (last ps) = b
     \<and> (\<forall>p \<in> set ps. fst p \<le> snd p) \<and> (\<forall>i. Suc i < length ps \<longrightarrow> fst (ps ! Suc i) = snd (ps ! i) + 1)"

definition csvOk :: "CsvState \<Rightarrow> bool" where
  "csvOk s \<longleftrightarrow> recordStart s \<le> fieldStart s \<and> fieldStart s \<le> pos s \<and> length (curRow s) = length (curSpans s)
     \<and> (if curSpans s = [] then fieldStart s = recordStart s
        else spansFrom (recordStart s) (curSpans s) (fieldStart s - 1) \<and> 0 < fieldStart s)
     \<and> (\<forall>r \<in> set (doneRecords s). length (csvFields r) = length (csvSpans r)
          \<and> spansFrom (csvStart r) (csvSpans r) (csvEnd r) \<and> csvEnd r < recordStart s)
     \<and> sorted_wrt (\<lambda>r q. csvEnd r < csvStart q) (doneRecords s)"

lemma spansFrom_snoc:
  assumes "if ps = [] then f = a else spansFrom a ps (f - 1) \<and> 0 < f" "f \<le> b"
  shows "spansFrom a (ps @ [(f, b)]) b"
proof (cases "ps = []")
  case False
  then have p: "spansFrom a ps (f - 1)" "0 < f" using assms(1) by auto
  have "fst ((ps @ [(f, b)]) ! Suc i) = snd ((ps @ [(f, b)]) ! i) + 1" if "Suc i < length (ps @ [(f, b)])" for i
  proof (cases "Suc i < length ps")
    case True
    then show ?thesis using p(1) by (simp add: spansFrom_def nth_append)
  next
    case F: False
    then have "i = length ps - 1" "Suc i = length ps" using that False by auto
    then show ?thesis using p False by (simp add: spansFrom_def nth_append last_conv_nth)
  qed
  then show ?thesis using p assms(2) False by (auto simp: spansFrom_def)
qed (use assms in \<open>auto simp: spansFrom_def\<close>)

lemma csvOk_pushed:
  assumes "csvOk s" "pos s < n"
  shows "csvOk ((pushRecord (endField s))\<lparr>curRow := [], curSpans := [], pos := n, recordStart := n, fieldStart := n\<rparr>)"
proof -
  have b: "fieldStart s \<le> pos s" "recordStart s \<le> fieldStart s" using assms(1) by (auto simp: csvOk_def)
  have "spansFrom (recordStart s) (curSpans s @ [(fieldStart s, pos s)]) (pos s)"
    by (rule spansFrom_snoc) (use assms(1) in \<open>auto simp: csvOk_def\<close>)
  then show ?thesis
    using assms b by (auto simp: csvOk_def pushRecord_def endField_def sorted_wrt_append)
qed

lemma csvStep_ok:
  assumes "csvOk s"
  shows "csvOk (fst (csvStep s c cs))"
proof -
  have "csvOk (takeChar d n s)" "csvOk (setQuotes q s)" for d n q
    using assms by (auto simp: csvOk_def takeChar_def setQuotes_def)
  moreover have "csvOk (endRecord n s)" if "0 < n" for n
    using csvOk_pushed [OF assms, of "pos s + n"] that by (simp add: endRecord_def)
  moreover have "csvOk (nextField s)"
  proof -
    have "spansFrom (recordStart s) (curSpans s @ [(fieldStart s, pos s)]) (pos s)"
      by (rule spansFrom_snoc) (use assms in \<open>auto simp: csvOk_def\<close>)
    then show ?thesis using assms by (auto simp: csvOk_def nextField_def endField_def)
  qed
  ultimately show ?thesis by (simp add: csvStep_def)
qed

lemma csvStep_pos: "pos (fst (csvStep s c cs)) = pos s + 1 + snd (csvStep s c cs)
    \<and> snd (csvStep s c cs) \<le> length cs"
  by (cases cs) (simp_all add: csvStep_def takeChar_def setQuotes_def nextField_def endRecord_def)

lemma scanCsv_ok: "csvOk s \<Longrightarrow> csvOk (scanCsv s cs) \<and> pos (scanCsv s cs) = pos s + length cs"
proof (induction s cs rule: scanCsv.induct)
  case (2 s c cs)
  from "2.IH" [OF csvStep_ok [OF "2.prems"]] csvStep_pos [of s c cs] show ?case by simp
qed simp

lemma startCsv_scanned:
  "csvOk (scanCsv startCsv content)" "pos (scanCsv startCsv content) = length content"
proof -
  have "csvOk startCsv" by (simp add: csvOk_def startCsv_def)
  from scanCsv_ok [OF this, of content]
  show "csvOk (scanCsv startCsv content)" "pos (scanCsv startCsv content) = length content"
    by (simp_all add: startCsv_def)
qed

text \<open>Tokenizing fails exactly on an odd number of quotes. Otherwise every record has one span
  per field, the spans of a record follow each other from its start to its end with one comma
  between them, and the records are disjoint pieces of the content in its order.\<close>

lemma csv_records_tile:
  "case parseRecords content of
     Inl e \<Rightarrow> e = UnbalancedQuote \<and> odd (count_list content DQUOTE)
   | Inr rs \<Rightarrow> even (count_list content DQUOTE)
       \<and> (\<forall>r \<in> set rs. length (csvFields r) = length (csvSpans r)
            \<and> spansFrom (csvStart r) (csvSpans r) (csvEnd r) \<and> csvEnd r \<le> length content)
       \<and> sorted_wrt (\<lambda>r q. csvEnd r < csvStart q) rs"
proof -
  let ?s = "scanCsv startCsv content"
  note ok = startCsv_scanned [of content]
  have q: "inQuotes ?s \<longleftrightarrow> odd (count_list content DQUOTE)"
    using scanCsv_quotes [of startCsv content] by (simp add: startCsv_def)
  let ?t = "(pushRecord (endField ?s))\<lparr>curRow := [], curSpans := [], pos := length content + 1,
      recordStart := length content + 1, fieldStart := length content + 1\<rparr>"
  have "csvOk ?t" using csvOk_pushed [OF ok(1), of "length content + 1"] ok(2) by simp
  then have "(\<forall>r \<in> set (doneRecords (pushRecord (endField ?s))). length (csvFields r) = length (csvSpans r)
            \<and> spansFrom (csvStart r) (csvSpans r) (csvEnd r) \<and> csvEnd r \<le> length content)
       \<and> sorted_wrt (\<lambda>r q. csvEnd r < csvStart q) (doneRecords (pushRecord (endField ?s)))"
    by (auto simp: csvOk_def)
  moreover have "(\<forall>r \<in> set (doneRecords ?s). length (csvFields r) = length (csvSpans r)
            \<and> spansFrom (csvStart r) (csvSpans r) (csvEnd r) \<and> csvEnd r \<le> length content)
       \<and> sorted_wrt (\<lambda>r q. csvEnd r < csvStart q) (doneRecords ?s)"
    using ok by (force simp: csvOk_def)
  ultimately show ?thesis using q by (simp add: parseRecords_def Let_def)
qed

section \<open>A written table is read back\<close>

text \<open>
  A cell is a value and whether it is written in quotes, with its quotes doubled; a value without
  quotes, commas and line terminators may be written as it is.
\<close>

type_synonym CsvCell = "bool \<times> jsstr"

definition bare :: "jsstr \<Rightarrow> bool" where
  "bare f \<longleftrightarrow> (\<forall>c \<in> set f. c \<noteq> DQUOTE \<and> c \<noteq> COMMA \<and> \<not> isNewline c)"

definition doubled :: "jsstr \<Rightarrow> jsstr" where
  "doubled f = concat (map (\<lambda>c. if c = DQUOTE then [DQUOTE, DQUOTE] else [c]) f)"

definition cellText :: "CsvCell \<Rightarrow> jsstr" where
  "cellText c = (if fst c then DQUOTE # doubled (snd c) @ [DQUOTE] else snd c)"

definition writable :: "CsvCell list \<Rightarrow> bool" where
  "writable r \<longleftrightarrow> r \<noteq> [] \<and> (\<forall>c \<in> set r. fst c \<or> bare (snd c))"

definition rowText :: "CsvCell list \<Rightarrow> jsstr" where
  "rowText r = joinWith [COMMA] (map cellText r)"

fun cellSpans :: "nat \<Rightarrow> CsvCell list \<Rightarrow> (nat \<times> nat) list" where
  "cellSpans p [] = []"
| "cellSpans p (c # cs) = (p, p + length (cellText c)) # cellSpans (p + length (cellText c) + 1) cs"

lemma chars_distinct [simp]:
  "DQUOTE \<noteq> COMMA" "COMMA \<noteq> DQUOTE" "\<not> isNewline COMMA" "\<not> isNewline DQUOTE"
  "CR \<noteq> DQUOTE" "LF \<noteq> DQUOTE" "CR \<noteq> COMMA" "LF \<noteq> COMMA" "DQUOTE \<noteq> CR" "DQUOTE \<noteq> LF" "COMMA \<noteq> LF"
  by (auto simp: DQUOTE_def COMMA_def isNewline_def CR_def LF_def)

lemma scan_bare:
  "bare f \<Longrightarrow> \<not> inQuotes s \<Longrightarrow>
     scanCsv s (f @ t) = scanCsv (s\<lparr>curField := curField s @ f, pos := pos s + length f\<rparr>) t"
proof (induction f arbitrary: s)
  case (Cons c f)
  then have "scanCsv s ((c # f) @ t) = scanCsv (takeChar c 1 s) (f @ t)"
    by (simp add: csvStep_def bare_def)
  then show ?case using Cons by (simp add: bare_def takeChar_def)
qed simp

lemma scan_doubled:
  assumes "inQuotes s" "\<not> prefix [DQUOTE] t"
  shows "scanCsv s (doubled f @ DQUOTE # t)
    = scanCsv (s\<lparr>curField := curField s @ f, inQuotes := False, pos := pos s + length (doubled f) + 1\<rparr>) t"
  using assms
proof (induction f arbitrary: s)
  case Nil
  then show ?case by (simp add: doubled_def csvStep_def setQuotes_def)
next
  case (Cons c f)
  let ?n = "if c = DQUOTE then 2 else 1 :: nat"
  have "scanCsv s (doubled (c # f) @ DQUOTE # t) = scanCsv (takeChar c ?n s) (doubled f @ DQUOTE # t)"
    using Cons.prems by (simp add: doubled_def csvStep_def)
  then show ?case using Cons by (simp add: doubled_def takeChar_def)
qed

lemma scan_cell:
  assumes "fst c \<or> bare (snd c)" "\<not> inQuotes s" "curField s = []" "\<not> prefix [DQUOTE] t"
  shows "scanCsv s (cellText c @ t)
    = scanCsv (s\<lparr>curField := snd c, pos := pos s + length (cellText c)\<rparr>) t"
proof (cases "fst c")
  case True
  have "scanCsv s (DQUOTE # doubled (snd c) @ DQUOTE # t) = scanCsv (setQuotes True s) (doubled (snd c) @ DQUOTE # t)"
    using assms(2) by (simp add: csvStep_def)
  then show ?thesis
    using scan_doubled [of "setQuotes True s" t "snd c"] assms True
    by (cases s) (simp add: cellText_def setQuotes_def)
next
  case False
  then show ?thesis using scan_bare [of "snd c" s t] assms by (simp add: cellText_def)
qed

text \<open>The state at the end of a row's text, before the record is ended.\<close>

definition rowRead :: "CsvCell list \<Rightarrow> CsvState \<Rightarrow> CsvState" where
  "rowRead r s = s\<lparr>curRow := curRow s @ map snd (butlast r), curField := snd (last r),
     curSpans := curSpans s @ butlast (cellSpans (pos s) r), fieldStart := fst (last (cellSpans (pos s) r)),
     pos := pos s + length (rowText r)\<rparr>"

lemma cellSpans_nonempty [simp]: "cellSpans p r = [] \<longleftrightarrow> r = []"
  by (cases r) auto

lemma scan_row:
  assumes "writable r" "\<not> inQuotes s" "curField s = []" "fieldStart s = pos s" "\<not> prefix [DQUOTE] t"
  shows "scanCsv s (rowText r @ t) = scanCsv (rowRead r s) t"
  using assms
proof (induction r arbitrary: s)
  case (Cons c r)
  show ?case
  proof (cases "r = []")
    case True
    then show ?thesis
      using scan_cell [of c s t] Cons.prems by (cases s) (simp add: writable_def rowText_def rowRead_def)
  next
    case False
    then have parts: "rowText (c # r) = cellText c @ COMMA # rowText r" by (cases r) (simp_all add: rowText_def)
    have r: "writable r" using Cons.prems(1) False by (simp add: writable_def)
    let ?s1 = "s\<lparr>curField := snd c, pos := pos s + length (cellText c)\<rparr>"
    have "scanCsv s (rowText (c # r) @ t) = scanCsv ?s1 (COMMA # rowText r @ t)"
      using scan_cell [of c s "COMMA # rowText r @ t"] Cons.prems parts by (simp add: writable_def)
    also have "\<dots> = scanCsv (nextField ?s1) (rowText r @ t)"
      using Cons.prems(2) by (simp add: csvStep_def)
    also have "\<dots> = scanCsv (rowRead r (nextField ?s1)) t"
      by (rule Cons.IH [OF r]) (use Cons.prems in \<open>simp_all add: nextField_def endField_def\<close>)
    also have "rowRead r (nextField ?s1) = rowRead (c # r) s"
      using False Cons.prems(4) parts by (simp add: rowRead_def nextField_def endField_def)
    finally show ?thesis .
  qed
qed (simp add: writable_def)

definition rowRecord :: "nat \<Rightarrow> CsvCell list \<Rightarrow> CsvRecord" where
  "rowRecord p r = \<lparr>csvFields = map snd r, csvSpans = cellSpans p r, csvStart = p, csvEnd = p + length (rowText r)\<rparr>"

fun rowRecords :: "nat \<Rightarrow> jsstr \<Rightarrow> CsvCell list list \<Rightarrow> CsvRecord list" where
  "rowRecords p sep [] = []"
| "rowRecords p sep (r # rs) = rowRecord p r # rowRecords (p + length (rowText r) + length sep) sep rs"

definition atRow :: "CsvRecord list \<Rightarrow> nat \<Rightarrow> CsvState" where
  "atRow rs p = \<lparr>doneRecords = rs, curRow = [], curField = [], inQuotes = False, pos = p, recordStart = p,
     fieldStart = p, curSpans = []\<rparr>"

lemma rowText_Cons: "r \<noteq> [] \<Longrightarrow> rowText (c # r) = cellText c @ COMMA # rowText r"
  by (cases r) (simp_all add: rowText_def)

lemma cellSpans_last: "r \<noteq> [] \<Longrightarrow> snd (last (cellSpans p r)) = p + length (rowText r)"
proof (induction p r rule: cellSpans.induct)
  case (2 p c cs)
  then show ?case by (cases "cs = []") (simp_all add: rowText_Cons, simp add: rowText_def)
qed simp

lemma all_equal: "(\<forall>x \<in> A. f x = f r) \<longleftrightarrow> (\<forall>x \<in> insert r A. \<forall>q \<in> insert r A. f x = f q)"
  by (rule iffI) (simp, blast)

lemma pushed_row:
  assumes "r \<noteq> []"
  shows "pushRecord (endField (rowRead r (atRow rs p)))
    = (rowRead r (atRow rs p))\<lparr>doneRecords := rs @ [rowRecord p r], curRow := map snd r, curField := [],
        curSpans := cellSpans p r\<rparr>"
proof -
  have "butlast (cellSpans p r) @ [(fst (last (cellSpans p r)), p + length (rowText r))] = cellSpans p r"
    using cellSpans_last [OF assms, of p] assms by (metis append_butlast_last_id cellSpans_nonempty prod.collapse)
  moreover have "map snd (butlast r) @ [snd (last r)] = map snd r"
    using assms by (metis append_butlast_last_id map_append list.simps(8,9))
  ultimately show ?thesis
    by (simp add: pushRecord_def endField_def rowRead_def atRow_def rowRecord_def)
qed

lemma rowText_head:
  assumes "writable r" "rowText r = d # t"
  shows "d \<noteq> LF"
proof -
  obtain c cs where r: "r = c # cs" using assms(1) by (cases r) (auto simp: writable_def)
  have "cellText c = [] \<or> hd (cellText c) \<noteq> LF"
    using assms(1) r by (cases "snd c") (auto simp: writable_def cellText_def bare_def)
  then show ?thesis
    using assms(2) r by (cases cs; cases "cellText c") (auto simp: rowText_def)
qed

definition separators :: "jsstr set" where
  "separators = {[CR, LF], [CR], [LF]}"

lemma scan_separated_row:
  assumes "writable r" "sep \<in> separators" "\<not> prefix [DQUOTE] t \<or> t \<noteq> []" "sep = [CR] \<Longrightarrow> \<not> prefix [LF] t"
  shows "scanCsv (atRow rs p) (rowText r @ sep @ t)
    = scanCsv (atRow (rs @ [rowRecord p r]) (p + length (rowText r) + length sep)) t"
proof -
  have ne: "r \<noteq> []" using assms(1) by (simp add: writable_def)
  have "\<not> prefix [DQUOTE] (sep @ t)" using assms(2) by (auto simp: separators_def)
  then have "scanCsv (atRow rs p) (rowText r @ sep @ t) = scanCsv (rowRead r (atRow rs p)) (sep @ t)"
    by (intro scan_row) (use assms(1) in \<open>simp_all add: atRow_def\<close>)
  also have "\<dots> = scanCsv (endRecord (length sep) (rowRead r (atRow rs p))) t"
  proof -
    have "\<not> inQuotes (rowRead r (atRow rs p))" by (simp add: rowRead_def atRow_def)
    then show ?thesis using assms(2,4) by (auto simp: separators_def csvStep_def numeral_2_eq_2)
  qed
  also have "endRecord (length sep) (rowRead r (atRow rs p))
      = atRow (rs @ [rowRecord p r]) (p + length (rowText r) + length sep)"
    using pushed_row [OF ne, of rs p] by (simp add: endRecord_def rowRead_def atRow_def)
  finally show ?thesis .
qed

definition tableText :: "jsstr \<Rightarrow> CsvCell list list \<Rightarrow> CsvCell list \<Rightarrow> jsstr" where
  "tableText sep rows final = concat (map (\<lambda>r. rowText r @ sep) rows) @ rowText final"

lemma tableText_head:
  assumes "\<forall>r \<in> set rows. writable r" "writable final" "sep = [CR]"
  shows "\<not> prefix [LF] (tableText sep rows final)"
proof (cases rows)
  case Nil
  then show ?thesis
    using rowText_head [OF assms(2)] by (cases "rowText final") (auto simp: tableText_def)
next
  case (Cons r rs)
  have "writable r" using assms(1) Cons by simp
  then show ?thesis
    using rowText_head [of r] Cons assms(3) by (cases "rowText r") (auto simp: tableText_def)
qed

lemma scan_table:
  assumes "\<forall>r \<in> set rows. writable r" "writable final" "sep \<in> separators"
  shows "scanCsv (atRow rs p) (tableText sep rows final)
    = rowRead final (atRow (rs @ rowRecords p sep rows) (p + length (concat (map (\<lambda>r. rowText r @ sep) rows))))"
  using assms(1)
proof (induction rows arbitrary: rs p)
  case Nil
  show ?case
    using scan_row [OF assms(2), of "atRow rs p" "[]"] by (simp add: tableText_def atRow_def)
next
  case (Cons r rows)
  have "tableText sep (r # rows) final = rowText r @ sep @ tableText sep rows final"
    by (simp add: tableText_def)
  moreover have "scanCsv (atRow rs p) (rowText r @ sep @ tableText sep rows final)
      = scanCsv (atRow (rs @ [rowRecord p r]) (p + length (rowText r) + length sep)) (tableText sep rows final)"
    by (rule scan_separated_row) (use Cons.prems assms tableText_head [of rows final sep] in auto)
  ultimately show ?case using Cons by (simp add: add.assoc)
qed

lemma cellSpans_slices:
  "map (\<lambda>(a, b). jsSlice (pre @ rowText r @ post) a b) (cellSpans (length pre) r) = map cellText r"
proof (induction r arbitrary: pre)
  case (Cons c cs)
  show ?case
  proof (cases "cs = []")
    case True
    then show ?thesis by (simp add: rowText_def jsSlice_def)
  next
    case False
    then show ?thesis
      using rowText_Cons [OF False, of c] Cons.IH [of "pre @ cellText c @ [COMMA]"] by (simp add: jsSlice_def)
  qed
qed simp

lemma rowRecords_append:
  "rowRecords p sep (rows @ [r])
    = rowRecords p sep rows @ [rowRecord (p + length (concat (map (\<lambda>r. rowText r @ sep) rows))) r]"
  by (induction rows arbitrary: p) (simp_all add: add.assoc)

lemma rowRecords_read:
  assumes "length pre = p"
  shows "map (\<lambda>x. map (\<lambda>(a, b). jsSlice (pre @ concat (map (\<lambda>r. rowText r @ sep) rows) @ post) a b) (csvSpans x))
      (rowRecords p sep rows) = map (map cellText) rows"
  using assms
proof (induction rows arbitrary: pre p)
  case (Cons r rows)
  have "map (\<lambda>(a, b). jsSlice (pre @ rowText r @ sep @ concat (map (\<lambda>r. rowText r @ sep) rows) @ post) a b)
      (cellSpans p r) = map cellText r"
    using cellSpans_slices [of pre r "sep @ concat (map (\<lambda>r. rowText r @ sep) rows) @ post"] Cons.prems by simp
  then show ?case using Cons.IH [of "pre @ rowText r @ sep" "p + length (rowText r) + length sep"] Cons.prems
    by (simp add: rowRecord_def)
qed simp

lemma rowRecords_fields: "map csvFields (rowRecords p sep rows) = map (map snd) rows"
  by (induction p sep rows rule: rowRecords.induct) (simp_all add: rowRecord_def)

lemma validate_widths:
  assumes "parseRecords content = Inr rs"
  shows "validate content = Inr () \<longleftrightarrow> (\<forall>r \<in> set rs. \<forall>q \<in> set rs. length (csvFields r) = length (csvFields q))"
proof (cases rs)
  case (Cons r xs)
  have snds: "set xs = snd ` set (enumerate 1 xs)"
    by (metis list.set_map map_snd_enumerate)
  have "find (\<lambda>(i, x). length (csvFields x) \<noteq> length (csvFields r)) (enumerate 1 xs) = None
      \<longleftrightarrow> (\<forall>x \<in> set xs. length (csvFields x) = length (csvFields r))"
    unfolding find_None_iff snds by (simp add: case_prod_beta) (metis snd_conv surj_pair)
  moreover have "(\<forall>x \<in> set xs. length (csvFields x) = length (csvFields r))
      \<longleftrightarrow> (\<forall>x \<in> set rs. \<forall>q \<in> set rs. length (csvFields x) = length (csvFields q))"
    unfolding Cons list.set by (rule all_equal)
  moreover have "validate content = Inr ()
      \<longleftrightarrow> find (\<lambda>(i, x). length (csvFields x) \<noteq> length (csvFields r)) (enumerate 1 xs) = None"
    unfolding validate_def assms Cons by (auto simp: Let_def split: option.splits)
  ultimately show ?thesis by simp
qed (use assms in \<open>simp add: validate_def\<close>)

text \<open>C22. A written table is read back: cells written in quotes, with quotes doubled, or bare where
  they need none, joined by commas into rows that end in CR LF, CR or LF, with or without an end
  after the last row, are read as exactly those rows; the spans hold the cells as they were
  written; and the table is valid exactly when all rows are equally wide.\<close>

theorem csv_reads_back:
  assumes "\<forall>r \<in> set rows. writable r" "writable final" "sep \<in> separators"
  shows "let table = rows @ (if rowText final = [] then [] else [final]);
      content = tableText sep rows final
    in \<exists>rs. parseRecords content = Inr rs \<and> map csvFields rs = map (map snd) table
      \<and> map (\<lambda>x. map (\<lambda>(a, b). jsSlice content a b) (csvSpans x)) rs = map (map cellText) table
      \<and> (validate content = Inr () \<longleftrightarrow> (\<forall>r \<in> set table. \<forall>q \<in> set table. length r = length q))"
proof -
  define table where "table = rows @ (if rowText final = [] then [] else [final])"
  let ?content = "tableText sep rows final"
  let ?body = "concat (map (\<lambda>r. rowText r @ sep) rows)"
  let ?rs = "rowRecords 0 sep table"
  have ne: "final \<noteq> []" using assms(2) by (simp add: writable_def)
  have scan: "scanCsv startCsv ?content = rowRead final (atRow (rowRecords 0 sep rows) (length ?body))"
    using scan_table [OF assms, of "[]" 0] by (simp add: startCsv_def atRow_def)
  have parse: "parseRecords ?content = Inr ?rs"
    unfolding parseRecords_def scan Let_def pushed_row [OF ne]
    by (simp add: rowRead_def atRow_def tableText_def table_def rowRecords_append)
  have read: "map (\<lambda>x. map (\<lambda>(a, b). jsSlice ?content a b) (csvSpans x)) ?rs = map (map cellText) table"
    using rowRecords_read [of "[]" 0 sep rows "rowText final"] cellSpans_slices [of ?body final "[]"]
    by (cases "rowText final = []") (simp_all add: tableText_def table_def rowRecords_append rowRecord_def)
  have "(\<forall>r \<in> set ?rs. \<forall>q \<in> set ?rs. length (csvFields r) = length (csvFields q))
      \<longleftrightarrow> (\<forall>a \<in> set (map csvFields ?rs). \<forall>b \<in> set (map csvFields ?rs). length a = length b)" by simp
  also have "\<dots> \<longleftrightarrow> (\<forall>r \<in> set table. \<forall>q \<in> set table. length r = length q)"
    unfolding rowRecords_fields by simp
  finally show ?thesis
    using validate_widths [OF parse] parse read rowRecords_fields unfolding table_def [symmetric] Let_def by blast
qed

theorem csv_reads_back_witness:
  "\<exists>rs. parseRecords (tableText [CR, LF] [[(False, [97]), (True, [34, 44])]] [(False, [98]), (True, [])]) = Inr rs
     \<and> map csvFields rs = [[[97], [34, 44]], [[98], []]]"
proof -
  have "bare [97]" "bare [98]"
    by (simp_all add: bare_def DQUOTE_def COMMA_def isNewline_def CR_def LF_def)
  then have "\<forall>r \<in> set [[(False, [97 :: jschar]), (True, [34, 44])]]. writable r"
    "writable [(False, [98 :: jschar]), (True, [])]" "[CR, LF] \<in> separators"
    by (simp_all add: writable_def separators_def)
  then show ?thesis
    using csv_reads_back [of "[[(False, [97]), (True, [34, 44])]]" "[(False, [98]), (True, [])]" "[CR, LF]"]
    by (auto simp: Let_def rowText_def cellText_def)
qed

end
