(* ===== verification/LeadingReasoning.thy ===== *)
theory LeadingReasoning
  imports JsSearch
begin

text \<open>
  \<^verbatim>\<open>plurnk-providers/src/LeadingReasoning.ts\<close>: the reasoning a model writes in a leading envelope,
  split from its content while the text arrives in chunks. The object's private fields are a
  record; \<open>push\<close> and \<open>finish\<close> return the new object and the reasoning they emit.

  The property is that chunking does not matter: whatever pieces the text arrives in, the object
  ends as if it had seen the whole text, and holds back no more than an undecided delimiter.
\<close>

type_synonym ReasoningEnvelope = "jsstr \<times> jsstr"

record LeadingReasoning =
  envelopes :: "ReasoningEnvelope list"
  pendingText :: jsstr
  closingTag :: "jsstr option"
  isClosed :: bool
  isProjected :: bool
  reasoningText :: jsstr
  contentText :: jsstr

definition newLeading :: "ReasoningEnvelope list \<Rightarrow> LeadingReasoning" where
  "newLeading es = \<lparr>envelopes = es, pendingText = [], closingTag = None, isClosed = False,
     isProjected = False, reasoningText = [], contentText = []\<rparr>"

definition emit :: "jsstr \<Rightarrow> LeadingReasoning \<Rightarrow> LeadingReasoning" where
  "emit delta s = s\<lparr>reasoningText := reasoningText s @ delta\<rparr>"

text \<open>The loop that lets \<open>held\<close> fall until the closing's beginning of that length ends the text.\<close>

fun heldEnd :: "jsstr \<Rightarrow> jsstr \<Rightarrow> nat \<Rightarrow> nat" where
  "heldEnd closing p 0 = 0"
| "heldEnd closing p (Suc h) = (if suffix (take (Suc h) closing) p then Suc h else heldEnd closing p h)"

definition readReasoning :: "jsstr \<Rightarrow> LeadingReasoning \<Rightarrow> LeadingReasoning \<times> jsstr" where
  "readReasoning closing s =
     (let p = pendingText s
      in case indexOf closing p of
           Some e \<Rightarrow>
             ((emit (take e p) s)\<lparr>contentText := drop (e + length closing) p, pendingText := [], isClosed := True\<rparr>,
              take e p)
         | None \<Rightarrow>
             let k = length p - heldEnd closing p (min (length p) (length closing - 1))
             in ((emit (take k p) s)\<lparr>pendingText := drop k p\<rparr>, take k p))"

definition push :: "jsstr \<Rightarrow> LeadingReasoning \<Rightarrow> LeadingReasoning \<times> jsstr" where
  "push chunk s =
     (if isClosed s then (s\<lparr>contentText := contentText s @ chunk\<rparr>, [])
      else let p = pendingText s @ chunk; s = s\<lparr>pendingText := p\<rparr>
      in case closingTag s of
           Some closing \<Rightarrow> readReasoning closing s
         | None \<Rightarrow>
             (case find (\<lambda>e. prefix (fst e) p) (envelopes s) of
                Some (opening, closing) \<Rightarrow>
                  readReasoning closing
                    (s\<lparr>pendingText := drop (length opening) p, closingTag := Some closing, isProjected := True\<rparr>)
              | None \<Rightarrow>
                  if list_ex (\<lambda>e. prefix p (fst e)) (envelopes s) then (s, [])
                  else (s\<lparr>contentText := p, pendingText := [], isClosed := True\<rparr>, [])))"

definition finish :: "LeadingReasoning \<Rightarrow> LeadingReasoning \<times> jsstr" where
  "finish s =
     (let delta = (if isProjected s then pendingText s else []);
          s' = (if isProjected s then emit delta s
                else s\<lparr>contentText := contentText s @ pendingText s\<rparr>)
      in (s'\<lparr>pendingText := [], isClosed := True\<rparr>, delta))"

text \<open>\<open>s.replace(/^\r?\n+/u, "")\<close>.\<close>

definition dropLeadingBreaks :: "jsstr \<Rightarrow> jsstr" where
  "dropLeadingBreaks s =
     (let r = (if prefix [CR] s then tl s else s)
      in if prefix [LF] r then dropWhile (\<lambda>c. c = LF) r else s)"

record Projection =
  projectedContent :: jsstr
  projectedReasoning :: jsstr
  wasProjected :: bool

definition closesFirst :: "jsstr \<Rightarrow> ReasoningEnvelope \<Rightarrow> bool" where
  "closesFirst s e =
     (case indexOf (snd e) s of Some i \<Rightarrow> \<not> includesStr (fst e) (take i s) | None \<Rightarrow> False)"

definition project :: "jsstr \<Rightarrow> jsstr \<Rightarrow> ReasoningEnvelope list \<Rightarrow> Projection" where
  "project s reasoning es =
     (if 0 < length reasoning
      then case find (closesFirst s) es of
             Some (opening, closing) \<Rightarrow>
               (let i = the (indexOf closing s)
                in \<lparr>projectedContent = dropLeadingBreaks (drop (i + length closing) s),
                    projectedReasoning = reasoning @ take i s, wasProjected = True\<rparr>)
           | None \<Rightarrow> \<lparr>projectedContent = s, projectedReasoning = reasoning, wasProjected = False\<rparr>
      else let parser = fst (finish (fst (push s (newLeading es))))
           in \<lparr>projectedContent = contentText parser, projectedReasoning = reasoningText parser,
               wasProjected = isProjected parser\<rparr>)"

definition THINK :: "ReasoningEnvelope list" where
  "THINK = [(js ''<think>'', js ''</think>'')]"

text \<open>A text that arrives in chunks: the object after them and what they emitted.\<close>

fun pushAll :: "jsstr list \<Rightarrow> LeadingReasoning \<Rightarrow> LeadingReasoning \<times> jsstr list" where
  "pushAll [] s = (s, [])"
| "pushAll (c # cs) s =
     (case push c s of (s1, d) \<Rightarrow> case pushAll cs s1 of (s2, ds) \<Rightarrow> (s2, d # ds))"

section \<open>The split of the whole text\<close>

fun wholeSplit :: "ReasoningEnvelope list \<Rightarrow> jsstr \<Rightarrow> jsstr \<times> jsstr \<times> bool" where
  "wholeSplit es t =
     (case find (\<lambda>e. prefix (fst e) t) es of
        None \<Rightarrow> (t, [], False)
      | Some (opening, closing) \<Rightarrow>
          (let r = drop (length opening) t
           in case indexOf closing r of
                None \<Rightarrow> ([], r, True)
              | Some e \<Rightarrow> (drop (e + length closing) r, take e r, True)))"

text \<open>No opening is empty or the beginning of another.\<close>

definition separated :: "ReasoningEnvelope list \<Rightarrow> bool" where
  "separated es \<longleftrightarrow> (\<forall>(a, c) \<in> set es. a \<noteq> [] \<and> (\<forall>(b, d) \<in> set es. prefix a b \<longrightarrow> a = b))"

lemma separatedD:
  assumes "separated es" "(a, c) \<in> set es" "(b, d) \<in> set es" "prefix a b"
  shows "a = b"
  using assms unfolding separated_def by fast

lemma indexOf_append: "indexOf p s = Some i \<Longrightarrow> indexOf p (s @ t) = Some i"
proof (induction s arbitrary: i)
  case Nil
  then show ?case by (cases t) (auto split: if_splits)
next
  case (Cons c s)
  show ?case
  proof (cases "prefix p (c # s)")
    case True
    then have "prefix p (c # s @ t)" by (metis append_Cons prefix_prefix)
    then show ?thesis using Cons.prems True by auto
  next
    case False
    then obtain k where k: "indexOf p s = Some k" "i = Suc k" using Cons.prems by auto
    have "\<not> prefix p (c # s @ t)"
    proof
      assume *: "prefix p (c # s @ t)"
      have "Suc (k + length p) \<le> length (c # s)" using indexOf_cut(2) [OF k(1)] by simp
      then have "prefix p (c # s)"
        using prefix_length_prefix [of p "(c # s) @ t" "c # s"] * by simp
      then show False using False by simp
    qed
    then show ?thesis using Cons.IH [OF k(1)] k(2) by simp
  qed
qed

text \<open>The envelope of a text stays the envelope of every text it begins.\<close>

lemma find_opening_append:
  assumes "separated es" "find (\<lambda>e. prefix (fst e) t) es = Some (a, c)"
  shows "find (\<lambda>e. prefix (fst e) (t @ u)) es = Some (a, c)"
proof -
  obtain i where i: "i < length es" "(a, c) = es ! i" "prefix a t" "\<forall>j < i. \<not> prefix (fst (es ! j)) t"
    using assms(2) unfolding find_Some_iff by (metis fst_conv)
  have "\<not> prefix (fst (es ! j)) (t @ u)" if j: "j < i" for j
  proof
    obtain b d where b: "es ! j = (b, d)" by (cases "es ! j")
    assume "prefix (fst (es ! j)) (t @ u)"
    then have "prefix b (t @ u)" "\<not> prefix b t" using i(4) j b by auto
    then have "prefix t b" by (auto simp: prefix_append)
    then have "prefix a b" using i(3) prefix_order.trans by blast
    moreover have "(a, c) \<in> set es" "(b, d) \<in> set es" using i(1,2) j b by (metis nth_mem order.strict_trans)+
    ultimately have "a = b" using separatedD [OF assms(1)] by blast
    then show False using i(3) \<open>\<not> prefix b t\<close> by simp
  qed
  then show ?thesis using i(1-3) unfolding find_Some_iff by (metis fst_conv prefix_prefix)
qed

section \<open>What the object knows of the text so far\<close>

definition undecided :: "ReasoningEnvelope list \<Rightarrow> jsstr \<Rightarrow> LeadingReasoning \<Rightarrow> bool" where
  "undecided es t s \<longleftrightarrow> \<not> isClosed s \<and> closingTag s = None \<and> \<not> isProjected s \<and> contentText s = []
     \<and> reasoningText s = [] \<and> pendingText s = t \<and> (\<forall>e \<in> set es. \<not> prefix (fst e) t)
     \<and> (t = [] \<or> (\<exists>e \<in> set es. prefix t (fst e)))"

definition plain :: "ReasoningEnvelope list \<Rightarrow> jsstr \<Rightarrow> LeadingReasoning \<Rightarrow> bool" where
  "plain es t s \<longleftrightarrow> isClosed s \<and> \<not> isProjected s \<and> contentText s = t \<and> reasoningText s = []
     \<and> pendingText s = [] \<and> (\<forall>e \<in> set es. fst e \<parallel> t)"

definition openingOf :: "ReasoningEnvelope list \<Rightarrow> jsstr \<Rightarrow> ReasoningEnvelope option" where
  "openingOf es t = find (\<lambda>e. prefix (fst e) t) es"

definition inside :: "ReasoningEnvelope list \<Rightarrow> jsstr \<Rightarrow> LeadingReasoning \<Rightarrow> bool" where
  "inside es t s \<longleftrightarrow> \<not> isClosed s \<and> isProjected s \<and> contentText s = []
     \<and> (\<exists>a c. openingOf es t = Some (a, c) \<and> closingTag s = Some c
          \<and> drop (length a) t = reasoningText s @ pendingText s
          \<and> (\<forall>i < length (reasoningText s). c \<parallel> drop i (drop (length a) t))
          \<and> (pendingText s = [] \<or> strict_prefix (pendingText s) c) \<and> c \<noteq> [])"

definition completed :: "ReasoningEnvelope list \<Rightarrow> jsstr \<Rightarrow> LeadingReasoning \<Rightarrow> bool" where
  "completed es t s \<longleftrightarrow> isClosed s \<and> isProjected s \<and> pendingText s = []
     \<and> (\<exists>a c e. openingOf es t = Some (a, c) \<and> indexOf c (drop (length a) t) = Some e
          \<and> reasoningText s = take e (drop (length a) t)
          \<and> contentText s = drop (e + length c) (drop (length a) t))"

definition streamed :: "ReasoningEnvelope list \<Rightarrow> jsstr \<Rightarrow> LeadingReasoning \<Rightarrow> bool" where
  "streamed es t s \<longleftrightarrow> envelopes s = es
     \<and> (undecided es t s \<or> plain es t s \<or> inside es t s \<or> completed es t s)"

lemma heldEnd_spec:
  "heldEnd c p n \<le> n \<and> suffix (take (heldEnd c p n) c) p
   \<and> (\<forall>h. heldEnd c p n < h \<and> h \<le> n \<longrightarrow> \<not> suffix (take h c) p)"
  by (induction n) (auto simp: le_Suc_eq)

lemma held_suffix:
  assumes "suffix (take h c) p" "h \<le> length c"
  shows "drop (length p - h) p = take h c"
  using assms by (auto simp: suffix_def)

lemma not_prefix_before:
  assumes "i < length rs" "c \<parallel> drop i (rs @ p)"
  shows "\<not> prefix c (drop i (rs @ p))"
  using assms by auto

lemma readReasoning_streamed:
  assumes "pendingText s = p" "reasoningText s = rs" "closingTag s = Some c" "\<not> isClosed s" "isProjected s"
    "contentText s = []" "envelopes s = es" "openingOf es t = Some (a, c)" "drop (length a) t = rs @ p"
    "\<forall>i < length rs. c \<parallel> drop i (rs @ p)"
  shows "streamed es t (fst (readReasoning c s))
    \<and> reasoningText (fst (readReasoning c s)) = rs @ snd (readReasoning c s)"
proof (cases "indexOf c p")
  case (Some e)
  have "indexOf c (rs @ p) = Some (length rs + e)"
    unfolding indexOf_Some
  proof (intro conjI allI impI)
    show "length rs + e \<le> length (rs @ p)" "prefix c (drop (length rs + e) (rs @ p))"
      using Some by (simp_all add: indexOf_Some)
    fix j assume "j < length rs + e"
    show "\<not> prefix c (drop j (rs @ p))"
    proof (cases "j < length rs")
      case False
      then have "j - length rs < e" using \<open>j < length rs + e\<close> by simp
      then show ?thesis using False Some by (simp add: indexOf_Some)
    qed (use assms(10) in auto)
  qed
  then have "completed es t (fst (readReasoning c s))"
    using assms Some by (auto simp: completed_def readReasoning_def emit_def simp del: drop_drop)
  then show ?thesis using assms Some by (simp add: streamed_def readReasoning_def emit_def)
next
  case None
  let ?n = "min (length p) (length c - 1)"
  define h where "h = heldEnd c p ?n"
  have ne: "c \<noteq> []" using None by (cases p) auto
  have h: "h \<le> ?n" "suffix (take h c) p" "\<And>k. h < k \<Longrightarrow> k \<le> ?n \<Longrightarrow> \<not> suffix (take k c) p"
    using heldEnd_spec [of c p ?n] by (auto simp: h_def)
  let ?k = "length p - h"
  have held: "drop ?k p = take h c" by (rule held_suffix) (use h(1,2) in auto)
  have apart: "c \<parallel> drop j p" if "j < ?k" for j
  proof (rule parallelI)
    show none: "\<not> prefix c (drop j p)" using None that by (simp add: indexOf_None)
    show "\<not> prefix (drop j p) c"
    proof
      assume *: "prefix (drop j p) c"
      let ?m = "length p - j"
      have m: "h < ?m" "?m \<le> length p" using that by auto
      have take: "take ?m c = drop j p" using * by (auto simp: prefix_def)
      have "?m \<noteq> length c"
      proof
        assume "?m = length c"
        then have "prefix c (drop j p)" using take by simp
        then show False using none by simp
      qed
      moreover have "?m \<le> length c" using prefix_length_le [OF *] by simp
      ultimately have "?m \<le> ?n" by auto
      moreover have "suffix (take ?m c) p" unfolding take by (rule suffix_drop)
      ultimately show False using h(3) m(1) by blast
    qed
  qed
  have "c \<parallel> drop i (rs @ p)" if "i < length (rs @ take ?k p)" for i
  proof (cases "i < length rs")
    case False
    then have "i - length rs < ?k" using that by simp
    then show ?thesis using apart [of "i - length rs"] False by simp
  qed (use assms(10) in auto)
  moreover have "take h c = [] \<or> strict_prefix (take h c) c"
    using h(1) ne by (auto simp: strict_prefix_def take_is_prefix)
  moreover have s': "fst (readReasoning c s) = (emit (take ?k p) s)\<lparr>pendingText := take h c\<rparr>"
    "snd (readReasoning c s) = take ?k p"
    using None held assms(1) by (simp_all add: readReasoning_def Let_def h_def)
  moreover have "take ?k p @ take h c = p" using held by (metis append_take_drop_id)
  ultimately have "inside es t (fst (readReasoning c s))"
    unfolding inside_def
    by (intro conjI exI [of _ a] exI [of _ c])
      (use assms(1-9) ne in \<open>simp_all add: emit_def del: drop_drop drop_append\<close>)
  then show ?thesis
    using assms(2,7) s' by (simp add: streamed_def emit_def)
qed

lemma openingOf_Some:
  assumes "openingOf es t = Some (a, c)"
  shows "prefix a t" "(a, c) \<in> set es"
  using assms unfolding openingOf_def find_Some_iff by (metis fst_conv nth_mem)+

lemma openingOf_append:
  "separated es \<Longrightarrow> openingOf es t = Some (a, c) \<Longrightarrow> openingOf es (t @ u) = Some (a, c)"
  unfolding openingOf_def by (rule find_opening_append)

lemma drop_opening:
  assumes "openingOf es t = Some (a, c)"
  shows "drop (length a) (t @ u) = drop (length a) t @ u"
  using prefix_length_le [OF openingOf_Some(1) [OF assms]] by simp

lemma push_streamed:
  assumes sep: "separated es" and s: "streamed es t s"
  shows "streamed es (t @ u) (fst (push u s))
    \<and> reasoningText (fst (push u s)) = reasoningText s @ snd (push u s)"
proof -
  have es: "envelopes s = es" using s by (simp add: streamed_def)
  from s consider "undecided es t s" | "plain es t s" | "inside es t s" | "completed es t s"
    by (auto simp: streamed_def)
  then show ?thesis
  proof cases
    case 1
    then have st: "\<not> isClosed s" "closingTag s = None" "\<not> isProjected s" "contentText s = []"
      "reasoningText s = []" "pendingText s = t" by (auto simp: undecided_def)
    show ?thesis
    proof (cases "openingOf es (t @ u)")
      case None
      then have none: "\<forall>e \<in> set es. \<not> prefix (fst e) (t @ u)" by (auto simp: openingOf_def find_None_iff)
      show ?thesis
      proof (cases "\<exists>e \<in> set es. prefix (t @ u) (fst e)")
        case True
        then have "push u s = (s\<lparr>pendingText := t @ u\<rparr>, [])"
          using st None es by (simp add: push_def openingOf_def list_ex_iff)
        then show ?thesis using st none True es by (simp add: streamed_def undecided_def)
      next
        case False
        then have "push u s = (s\<lparr>contentText := t @ u, pendingText := [], isClosed := True\<rparr>, [])"
          using st None es by (simp add: push_def openingOf_def list_ex_iff)
        moreover have "\<forall>e \<in> set es. fst e \<parallel> t @ u" using none False by (auto intro: parallelI)
        ultimately show ?thesis using st es by (simp add: streamed_def plain_def)
      qed
    next
      case (Some e)
      obtain a c where e: "e = (a, c)" by (cases e)
      let ?s = "s\<lparr>pendingText := drop (length a) (t @ u), closingTag := Some c, isProjected := True\<rparr>"
      have "push u s = readReasoning c ?s"
        using st Some es e by (simp add: push_def openingOf_def)
      then show ?thesis
        using readReasoning_streamed [of ?s "drop (length a) (t @ u)" "[]" c es "t @ u" a] st Some es e
        by simp
    qed
  next
    case 2
    then have "push u s = (s\<lparr>contentText := t @ u\<rparr>, [])" by (simp add: push_def plain_def)
    then show ?thesis using 2 es parallel_append [of _ t "[]" u] by (auto simp: streamed_def plain_def)
  next
    case 3
    then obtain a c where c: "openingOf es t = Some (a, c)" "closingTag s = Some c" "\<not> isClosed s"
      "isProjected s" "contentText s = []" "drop (length a) t = reasoningText s @ pendingText s"
      "\<forall>i < length (reasoningText s). c \<parallel> drop i (drop (length a) t)"
      unfolding inside_def by blast
    let ?s = "s\<lparr>pendingText := pendingText s @ u\<rparr>"
    have r: "drop (length a) (t @ u) = reasoningText s @ pendingText s @ u"
      using drop_opening [OF c(1), of u] c(6) by simp
    have par: "\<forall>i < length (reasoningText s). c \<parallel> drop i (reasoningText s @ pendingText s @ u)"
    proof (intro allI impI)
      fix i assume "i < length (reasoningText s)"
      then have "c \<parallel> drop i (reasoningText s @ pendingText s)" using c(6,7) by simp
      from parallel_append [OF this, of "[]" u]
      show "c \<parallel> drop i (reasoningText s @ pendingText s @ u)" using \<open>i < _\<close> by simp
    qed
    have "push u s = readReasoning c ?s" using c by (simp add: push_def)
    then show ?thesis
      using readReasoning_streamed [of ?s "pendingText s @ u" "reasoningText s" c es "t @ u" a]
        c es par r openingOf_append [OF sep c(1)] by simp
  next
    case 4
    then obtain a c e where c: "openingOf es t = Some (a, c)" "indexOf c (drop (length a) t) = Some e"
      "reasoningText s = take e (drop (length a) t)" "contentText s = drop (e + length c) (drop (length a) t)"
      "isClosed s" "isProjected s" "pendingText s = []" unfolding completed_def by blast
    have "e + length c \<le> length (drop (length a) t)" by (rule indexOf_cut(2) [OF c(2)])
    moreover have "push u s = (s\<lparr>contentText := contentText s @ u\<rparr>, [])" using c(5) by (simp add: push_def)
    moreover have "indexOf c (drop (length a) t @ u) = Some e" by (rule indexOf_append [OF c(2)])
    ultimately show ?thesis
      using c es openingOf_append [OF sep c(1), of u] drop_opening [OF c(1), of u]
      by (simp add: streamed_def completed_def del: drop_drop drop_append) simp
  qed
qed

lemma newLeading_streamed: "separated es \<Longrightarrow> streamed es [] (newLeading es)"
  by (auto simp: streamed_def undecided_def newLeading_def separated_def)

lemma pushAll_streamed:
  assumes "separated es" "streamed es t s"
  shows "streamed es (t @ concat cs) (fst (pushAll cs s))
    \<and> reasoningText (fst (pushAll cs s)) = reasoningText s @ concat (snd (pushAll cs s))"
  using assms(2)
proof (induction cs arbitrary: t s)
  case (Cons c cs)
  from push_streamed [OF assms(1) Cons.prems, of c]
  have "streamed es (t @ c) (fst (push c s))" "reasoningText (fst (push c s)) = reasoningText s @ snd (push c s)"
    by auto
  with Cons.IH [of "t @ c"] show ?case by (simp add: case_prod_beta)
qed simp

lemma finish_streamed:
  assumes "streamed es t s"
  shows "(contentText (fst (finish s)), reasoningText (fst (finish s)), isProjected (fst (finish s))) = wholeSplit es t
    \<and> reasoningText (fst (finish s)) = reasoningText s @ snd (finish s)"
proof -
  from assms consider "undecided es t s" | "plain es t s" | "inside es t s" | "completed es t s"
    by (auto simp: streamed_def)
  then show ?thesis
  proof cases
    case 1
    then have "find (\<lambda>e. prefix (fst e) t) es = None" by (auto simp: undecided_def find_None_iff)
    then show ?thesis using 1 by (simp add: undecided_def finish_def)
  next
    case 2
    then have "\<forall>e \<in> set es. \<not> prefix (fst e) t" by (simp add: plain_def parallel_def)
    then have "find (\<lambda>e. prefix (fst e) t) es = None" by (auto simp: find_None_iff)
    then show ?thesis using 2 by (simp add: plain_def finish_def)
  next
    case 3
    then obtain a c where c: "openingOf es t = Some (a, c)" "closingTag s = Some c" "\<not> isClosed s"
      "isProjected s" "contentText s = []" "drop (length a) t = reasoningText s @ pendingText s"
      "\<forall>i < length (reasoningText s). c \<parallel> drop i (drop (length a) t)"
      "pendingText s = [] \<or> strict_prefix (pendingText s) c" "c \<noteq> []"
      unfolding inside_def by blast
    have short: "length (pendingText s) < length c"
      using c(8,9) by (auto simp: prefix_length_less)
    have "\<not> prefix c (drop j (reasoningText s @ pendingText s))" for j
    proof (cases "j < length (reasoningText s)")
      case True
      then show ?thesis using c(6,7) by auto
    next
      case False
      show ?thesis
      proof
        assume "prefix c (drop j (reasoningText s @ pendingText s))"
        then show False using prefix_length_le short False by fastforce
      qed
    qed
    then have "indexOf c (reasoningText s @ pendingText s) = None" unfolding indexOf_None by blast
    then show ?thesis using c by (simp add: openingOf_def finish_def emit_def Let_def)
  next
    case 4
    then show ?thesis by (auto simp: completed_def openingOf_def finish_def emit_def Let_def simp del: drop_drop)
  qed
qed

text \<open>C21. Chunking does not matter: when no opening is empty or begins another, the object that has
  read a text in any chunks and is finished holds the split of the whole text, the same that
  \<open>project\<close> gives for it at once; the deltas it emitted, put together, are the reasoning, so nothing
  observed is ever taken back; and what it holds between chunks is no more than the beginning
  of a delimiter.\<close>

theorem chunks_do_not_matter:
  assumes "separated es"
  shows "let (s, deltas) = pushAll cs (newLeading es); (f, final) = finish s
    in (contentText f, reasoningText f, isProjected f) = wholeSplit es (concat cs)
      \<and> project (concat cs) [] es
          = \<lparr>projectedContent = contentText f, projectedReasoning = reasoningText f, wasProjected = isProjected f\<rparr>
      \<and> concat deltas @ final = reasoningText f
      \<and> (pendingText s = [] \<or> (\<exists>(a, c) \<in> set es. strict_prefix (pendingText s) a \<or> strict_prefix (pendingText s) c))"
proof -
  let ?s = "fst (pushAll cs (newLeading es))"
  have all: "streamed es (concat cs) ?s" "reasoningText ?s = concat (snd (pushAll cs (newLeading es)))"
    using pushAll_streamed [OF assms newLeading_streamed [OF assms], of cs] by (simp_all add: newLeading_def)
  have "streamed es (concat cs) (fst (push (concat cs) (newLeading es)))"
    using push_streamed [OF assms newLeading_streamed [OF assms], of "concat cs"] by simp
  note once = finish_streamed [OF this]
  note many = finish_streamed [OF all(1)]
  have "pendingText ?s = [] \<or> (\<exists>(a, c) \<in> set es. strict_prefix (pendingText ?s) a \<or> strict_prefix (pendingText ?s) c)"
    using all(1) openingOf_Some(2)
    by (fastforce simp: streamed_def undecided_def plain_def inside_def completed_def strict_prefix_def)
  then show ?thesis
    using once many all(2) by (simp add: case_prod_beta project_def Let_def del: wholeSplit.simps) (metis prod.inject)
qed

theorem chunks_do_not_matter_witness:
  "separated THINK \<and> wholeSplit THINK (js ''<think>a</x</think>b'') = (js ''b'', js ''a</x'', True)
   \<and> reasoningText (fst (finish (fst (pushAll [js ''<thi'', js ''nk>a</'', js ''x</think'', js ''>b''] (newLeading THINK)))))
      = js ''a</x''"
proof -
  have "separated THINK" by (simp add: separated_def THINK_def js_def)
  moreover have w: "wholeSplit THINK (js ''<think>a</x</think>b'') = (js ''b'', js ''a</x'', True)" by code_simp
  moreover have "concat [js ''<thi'', js ''nk>a</'', js ''x</think'', js ''>b''] = js ''<think>a</x</think>b''"
    by (simp add: js_def)
  ultimately show ?thesis
    using chunks_do_not_matter [of THINK "[js ''<thi'', js ''nk>a</'', js ''x</think'', js ''>b'']"]
    by (simp add: case_prod_beta Let_def del: wholeSplit.simps pushAll.simps)
qed

end
