(* ===== verification/WorkspaceGate.thy ===== *)
theory WorkspaceGate
  imports Prelude
begin

text \<open>
  \<^verbatim>\<open>plurnk-core/src/core/WorkspaceGate.ts\<close>: the reader/writer gate of a workspace. Turns share the
  workspace as readers; a capability mutation takes it exclusively, and while it does, one turn at
  a time of the exclusive root's lineage may run.

  The source keeps its state in an object per workspace that closures go on using after the map
  has dropped it, so the model has a heap: \<open>objects\<close> by reference and \<open>states\<close> from workspaces to
  references. Code between two awaits is one step. The only await inside the pump is the question
  whether a session descends from the root: an object with a \<open>frame\<close> is waiting for the answer and
  is the object whose \<open>pumping\<close> flag is set; a pump asked for meanwhile is a microtask. A request is
  identified by a number, which is also its lease or its handle; what its promise was settled with
  is in \<open>outcomes\<close>.

  Operations that throw after having changed the state return the error with the new state.
  \<open>withTurn\<close> and \<open>atBoundary\<close>, which run a callback between an acquisition and a release, are not
  modelled: they add no state to the gate.

  The step relation lets any legal operation happen next. By rule induction, no reachable object
  has readers while it is exclusive, and its counters are the leases that are out. Two theorems
  show where the gate falls short of its purpose: a pump of a dropped object removes the object
  that replaced it, and a release that throws leaves the gate closed for good.
\<close>

record TurnRequest =
  reqId :: nat
  reqSession :: nat

record Frame =
  frameRoot :: nat
  frameRequest :: TurnRequest
  frameRest :: "TurnRequest list"

record GateObject =
  gateWorkspace :: nat
  readers :: nat
  exclusive :: bool
  exclusiveTurns :: nat
  exclusiveRoot :: "nat option"
  writers :: "nat list"
  turns :: "TurnRequest list"
  frame :: "Frame option"

datatype Outcome = Granted | Rejected

record Handle =
  handleRef :: nat
  handleHeld :: bool
  tried :: bool

record Gate =
  objects :: "nat \<Rightarrow> GateObject"
  states :: "nat \<rightharpoonup> nat"
  microtasks :: "nat list"
  readerLeases :: "(nat \<times> nat) list"
  turnLeases :: "(nat \<times> nat) list"
  outcomes :: "nat \<rightharpoonup> Outcome"
  handles :: "nat \<rightharpoonup> Handle"
  nextRef :: nat
  nextId :: nat

datatype GateError =
    NotAcquired | AlreadyReleased | RootDuringTurn | NotHeld | ReleaseDuringTurn
  | ReleasedBeforeAcquisition | TurnReleasedTwice | ExclusiveTurnReleasedTwice

definition updateObject :: "Gate \<Rightarrow> nat \<Rightarrow> (GateObject \<Rightarrow> GateObject) \<Rightarrow> Gate" where
  "updateObject g ref f = g\<lparr>objects := (objects g)(ref := f (objects g ref))\<rparr>"

definition settle :: "nat list \<Rightarrow> Outcome \<Rightarrow> Gate \<Rightarrow> Gate" where
  "settle ids result g = g\<lparr>outcomes := (\<lambda>i. if i \<in> set ids then Some result else outcomes g i)\<rparr>"

definition newObject :: "nat \<Rightarrow> GateObject" where
  "newObject ws = \<lparr>gateWorkspace = ws, readers = 0, exclusive = False, exclusiveTurns = 0,
     exclusiveRoot = None, writers = [], turns = [], frame = None\<rparr>"

text \<open>\<open>#state\<close>: the object of a workspace, created when the map has none.\<close>

definition stateFor :: "Gate \<Rightarrow> nat \<Rightarrow> Gate \<times> nat" where
  "stateFor g ws =
     (case states g ws of
        Some ref \<Rightarrow> (g, ref)
      | None \<Rightarrow> (g\<lparr>objects := (objects g)(nextRef g := newObject ws),
                  states := (states g)(ws \<mapsto> nextRef g), nextRef := nextRef g + 1\<rparr>, nextRef g))"

definition prune :: "Gate \<Rightarrow> nat \<Rightarrow> Gate" where
  "prune g ref =
     (let s = objects g ref in
      if readers s = 0 \<and> \<not> exclusive s \<and> writers s = [] \<and> turns s = []
      then g\<lparr>states := (states g)(gateWorkspace s := None)\<rparr> else g)"

text \<open>The iteration over a snapshot of the turns stops at the next request, to ask for its lineage.\<close>

definition askNext :: "Gate \<Rightarrow> nat \<Rightarrow> nat \<Rightarrow> TurnRequest list \<Rightarrow> Gate" where
  "askNext g ref r requests =
     updateObject g ref (\<lambda>s. s\<lparr>frame := (case requests of
        [] \<Rightarrow> None
      | q # rest \<Rightarrow> Some \<lparr>frameRoot = r, frameRequest = q, frameRest = rest\<rparr>)\<rparr>)"

definition grantReaders :: "Gate \<Rightarrow> nat \<Rightarrow> Gate" where
  "grantReaders g ref =
     (let s = objects g ref; ids = map reqId (turns s)
      in settle ids Granted
           (updateObject g ref (\<lambda>s. s\<lparr>readers := readers s + length (turns s), turns := []\<rparr>))
           \<lparr>readerLeases := map (\<lambda>i. (i, ref)) ids @ readerLeases g\<rparr>)"

text \<open>\<open>#pump\<close> up to its first await or its end; it is called only when the object is not pumping.\<close>

definition pump :: "Gate \<Rightarrow> nat \<Rightarrow> Gate" where
  "pump g ref =
     (let s = objects g ref in
      if frame s \<noteq> None then g
      else if exclusive s
      then (if exclusiveTurns s \<noteq> 0 then g
            else case exclusiveRoot s of None \<Rightarrow> g | Some r \<Rightarrow> askNext g ref r (turns s))
      else (case writers s of
              w # ws \<Rightarrow>
                if readers s \<noteq> 0 then g
                else settle [w] Granted (updateObject g ref (\<lambda>s. s\<lparr>exclusive := True,
                       exclusiveRoot := None, writers := ws\<rparr>))
            | [] \<Rightarrow> prune (grantReaders g ref) ref))"

definition requestPump :: "Gate \<Rightarrow> nat \<Rightarrow> Gate" where
  "requestPump g ref =
     (if frame (objects g ref) \<noteq> None then g\<lparr>microtasks := microtasks g @ [ref]\<rparr> else pump g ref)"

text \<open>The rest of the pump after the answer: \<open>None\<close> is a rejected question.\<close>

definition resume :: "Gate \<Rightarrow> nat \<Rightarrow> bool option \<Rightarrow> Gate" where
  "resume g ref answer =
     (let s = objects g ref in
      case frame s of
        None \<Rightarrow> g
      | Some f \<Rightarrow>
          (case answer of
             None \<Rightarrow> settle (map reqId (turns s) @ writers s) Rejected
                       (updateObject g ref (\<lambda>s. s\<lparr>turns := [], writers := [], frame := None\<rparr>))
           | Some allowed \<Rightarrow>
               if \<not> exclusive s \<or> exclusiveRoot s \<noteq> Some (frameRoot f)
               then updateObject (g\<lparr>microtasks := microtasks g @ [ref]\<rparr>) ref (\<lambda>s. s\<lparr>frame := None\<rparr>)
               else if frameRequest f \<in> set (turns s) \<and> allowed
               then settle [reqId (frameRequest f)] Granted
                      (updateObject g ref (\<lambda>s. s\<lparr>turns := remove1 (frameRequest f) (turns s),
                         exclusiveTurns := 1, frame := None\<rparr>))
                      \<lparr>turnLeases := (reqId (frameRequest f), ref) # turnLeases g\<rparr>
               else askNext g ref (frameRoot f) (frameRest f)))"

section \<open>Operations\<close>

definition acquireTurn :: "Gate \<Rightarrow> nat \<Rightarrow> nat \<Rightarrow> Gate" where
  "acquireTurn g ws session =
     (let (g1, ref) = stateFor g ws; r = \<lparr>reqId = nextId g, reqSession = session\<rparr>
      in requestPump (updateObject (g1\<lparr>nextId := nextId g + 1\<rparr>) ref
           (\<lambda>s. s\<lparr>turns := turns s @ [r]\<rparr>)) ref)"

text \<open>The listener of a turn's signal, with the object its closure holds.\<close>

definition cancelTurn :: "Gate \<Rightarrow> nat \<Rightarrow> TurnRequest \<Rightarrow> Gate" where
  "cancelTurn g ref r =
     (if r \<notin> set (turns (objects g ref)) then g
      else requestPump (settle [reqId r] Rejected
             (updateObject g ref (\<lambda>s. s\<lparr>turns := remove1 r (turns s)\<rparr>))) ref)"

definition requestExclusive :: "Gate \<Rightarrow> nat \<Rightarrow> Gate" where
  "requestExclusive g ws =
     (let (g1, ref) = stateFor g ws; w = nextId g
      in requestPump (updateObject (g1\<lparr>nextId := w + 1, 
           handles := (handles g)(w \<mapsto> \<lparr>handleRef = ref, handleHeld = True, tried = False\<rparr>)\<rparr>) ref
           (\<lambda>s. s\<lparr>writers := writers s @ [w]\<rparr>)) ref)"

definition dropHandle :: "Gate \<Rightarrow> nat \<Rightarrow> Gate" where
  "dropHandle g h = g\<lparr>handles := (handles g)(h := map_option (handleHeld_update (\<lambda>_. False)) (handles g h))\<rparr>"

definition cancelExclusive :: "Gate \<Rightarrow> nat \<Rightarrow> nat \<Rightarrow> Gate" where
  "cancelExclusive g ref w =
     (if w \<notin> set (writers (objects g ref)) then g
      else requestPump (settle [w] Rejected (updateObject (dropHandle g w) ref
             (\<lambda>s. s\<lparr>writers := remove1 w (writers s)\<rparr>))) ref)"

definition tryExclusive :: "Gate \<Rightarrow> nat \<Rightarrow> Gate \<times> nat option" where
  "tryExclusive g ws =
     (let (g1, ref) = stateFor g ws; s = objects g1 ref; h = nextId g
      in if readers s \<noteq> 0 \<or> exclusive s \<or> exclusiveTurns s \<noteq> 0 \<or> writers s \<noteq> [] \<or> turns s \<noteq> []
         then (g1, None)
         else (settle [h] Granted (updateObject (g1\<lparr>nextId := h + 1,
                 handles := (handles g)(h \<mapsto> \<lparr>handleRef = ref, handleHeld = True, tried = True\<rparr>)\<rparr>) ref
                 (\<lambda>s. s\<lparr>exclusive := True\<rparr>)), Some h))"

text \<open>
  \<open>setRoot\<close> and \<open>release\<close> of a handle. The handle of \<open>requestExclusive\<close> first checks that it has
  been acquired; the handle of \<open>tryExclusive\<close> prunes before it pumps.
\<close>

definition setRoot :: "Gate \<Rightarrow> nat \<Rightarrow> nat option \<Rightarrow> Gate \<times> GateError option" where
  "setRoot g h session =
     (case handles g h of None \<Rightarrow> (g, None) | Some a \<Rightarrow>
        let ref = handleRef a; s = objects g ref in
        if \<not> tried a \<and> (\<not> exclusive s \<or> h \<in> set (writers s)) then (g, Some NotAcquired)
        else if \<not> handleHeld a then (g, Some AlreadyReleased)
        else if exclusiveTurns s \<noteq> 0 then (g, Some RootDuringTurn)
        else (requestPump (updateObject g ref (\<lambda>s. s\<lparr>exclusiveRoot := session\<rparr>)) ref, None))"

definition openGate :: "Gate \<Rightarrow> nat \<Rightarrow> Gate" where
  "openGate g ref = updateObject g ref (\<lambda>s. s\<lparr>exclusive := False, exclusiveRoot := None\<rparr>)"

definition releaseExclusive :: "Gate \<Rightarrow> nat \<Rightarrow> Gate \<times> GateError option" where
  "releaseExclusive g h =
     (case handles g h of None \<Rightarrow> (g, None) | Some a \<Rightarrow>
        if \<not> handleHeld a then (g, None)
        else let g1 = dropHandle g h; ref = handleRef a; s = objects g ref in
          if \<not> tried a \<and> h \<in> set (writers s)
          then (requestPump (settle [h] Rejected
                  (updateObject g1 ref (\<lambda>s. s\<lparr>writers := remove1 h (writers s)\<rparr>))) ref, None)
          else if \<not> tried a \<and> \<not> exclusive s then (g1, Some NotHeld)
          else if exclusiveTurns s \<noteq> 0 then (g1, Some ReleaseDuringTurn)
          else (let g2 = openGate g1 ref
                in (requestPump (if tried a then prune g2 ref else g2) ref, None)))"

definition releaseReader :: "Gate \<Rightarrow> nat \<Rightarrow> Gate \<times> GateError option" where
  "releaseReader g lease =
     (case map_of (readerLeases g) lease of
        None \<Rightarrow> (g, Some TurnReleasedTwice)
      | Some ref \<Rightarrow> (requestPump (updateObject
            (g\<lparr>readerLeases := remove1 (lease, ref) (readerLeases g)\<rparr>) ref
            (\<lambda>s. s\<lparr>readers := readers s - 1\<rparr>)) ref, None))"

text \<open>
  An exclusive turn's release looks only at the counter, so a second call while the next exclusive
  turn runs would end that one; the leases record who may still call it.
\<close>

definition releaseTurn :: "Gate \<Rightarrow> nat \<Rightarrow> nat \<Rightarrow> Gate \<times> GateError option" where
  "releaseTurn g lease ref =
     (if exclusiveTurns (objects g ref) \<noteq> 1 then (g, Some ExclusiveTurnReleasedTwice)
      else (requestPump (updateObject
            (g\<lparr>turnLeases := remove1 (lease, ref) (turnLeases g)\<rparr>) ref
            (\<lambda>s. s\<lparr>exclusiveTurns := 0\<rparr>)) ref, None))"

definition runMicrotask :: "Gate \<Rightarrow> Gate" where
  "runMicrotask g =
     (case microtasks g of [] \<Rightarrow> g | ref # rest \<Rightarrow> pump (g\<lparr>microtasks := rest\<rparr>) ref)"

definition emptyGate :: Gate where
  "emptyGate = \<lparr>objects = (\<lambda>_. newObject 0), states = (\<lambda>_. None), microtasks = [], readerLeases = [],
     turnLeases = [], outcomes = (\<lambda>_. None), handles = (\<lambda>_. None), nextRef = 0, nextId = 0\<rparr>"

section \<open>What may happen\<close>

text \<open>
  One step of the program around the gate. A reader lease is released by whoever holds it, an
  exclusive turn's lease once; a question is answered only while it is asked.
\<close>

inductive gateStep :: "Gate \<Rightarrow> Gate \<Rightarrow> bool" where
  acquires: "gateStep g (acquireTurn g ws session)"
| cancels: "gateStep g (cancelTurn g ref r)"
| asks: "gateStep g (requestExclusive g ws)"
| withdraws: "gateStep g (cancelExclusive g ref w)"
| tries: "gateStep g (fst (tryExclusive g ws))"
| roots: "gateStep g (fst (setRoot g h session))"
| releases: "gateStep g (fst (releaseExclusive g h))"
| ends_reader: "gateStep g (fst (releaseReader g lease))"
| ends_turn: "(lease, ref) \<in> set (turnLeases g) \<Longrightarrow> gateStep g (fst (releaseTurn g lease ref))"
| answers: "gateStep g (resume g ref answer)"
| micro: "gateStep g (runMicrotask g)"

inductive_cases gateStepE: "gateStep g g'"

inductive reachable :: "Gate \<Rightarrow> bool" where
  start: "reachable emptyGate"
| next_step: "reachable g \<Longrightarrow> gateStep g g' \<Longrightarrow> reachable g'"

section \<open>The invariant\<close>

definition leasesOf :: "(nat \<times> nat) list \<Rightarrow> nat \<Rightarrow> nat" where
  "leasesOf leases ref = length (filter (\<lambda>(l, r). r = ref) leases)"

lemma leasesOf_simps [simp]:
  "leasesOf [] ref = 0"
  "leasesOf ((l, r) # leases) ref = (if r = ref then 1 else 0) + leasesOf leases ref"
  "leasesOf (map (\<lambda>i. (i, r)) ids @ leases) ref = (if r = ref then length ids else 0) + leasesOf leases ref"
  "leasesOf (map ((\<lambda>i. (i, r)) \<circ> f) xs @ leases) ref = (if r = ref then length xs else 0) + leasesOf leases ref"
  by (auto simp: leasesOf_def comp_def)

lemma leasesOf_member: "(l, r) \<in> set leases \<Longrightarrow> 0 < leasesOf leases r"
  by (auto simp: leasesOf_def filter_empty_conv)

lemma leasesOf_remove1:
  assumes "(l, r) \<in> set leases"
  shows "leasesOf (remove1 (l, r) leases) ref = leasesOf leases ref - (if r = ref then 1 else 0)"
  using assms
proof (induction leases)
  case (Cons a leases)
  then show ?case using leasesOf_member [of l r leases] by (cases a) auto
qed simp

text \<open>An object against the leases that are out for it.\<close>

definition objectOk :: "nat \<Rightarrow> nat \<Rightarrow> GateObject \<Rightarrow> bool" where
  "objectOk m n s \<longleftrightarrow> readers s = m \<and> exclusiveTurns s = n \<and> n \<le> 1
     \<and> (exclusive s \<longrightarrow> m = 0) \<and> (n = 1 \<longrightarrow> exclusive s)
     \<and> (frame s \<noteq> None \<longrightarrow> m = 0 \<and> n = 0)"

definition gateOk :: "Gate \<Rightarrow> bool" where
  "gateOk g \<longleftrightarrow>
     (\<forall>ref. objectOk (leasesOf (readerLeases g) ref) (leasesOf (turnLeases g) ref) (objects g ref))
     \<and> (\<forall>ref \<ge> nextRef g. turns (objects g ref) = [] \<and> frame (objects g ref) = None
          \<and> leasesOf (readerLeases g) ref = 0 \<and> leasesOf (turnLeases g) ref = 0)
     \<and> (\<forall>ws ref. states g ws = Some ref \<longrightarrow> ref < nextRef g)"

lemmas gate_defs = updateObject_def settle_def

lemma gateOk_congr:
  assumes "gateOk g" "objects g' = objects g" "readerLeases g' = readerLeases g"
    "turnLeases g' = turnLeases g" "nextRef g' = nextRef g"
    "\<And>ws ref. states g' ws = Some ref \<Longrightarrow> states g ws = Some ref"
  shows "gateOk g'"
  using assms(1,6) unfolding gateOk_def assms(2-5) by blast

text \<open>
  Changing one object, and with it the leases of that object only, keeps the invariant when the
  new object agrees with the new leases and an unborn object stays idle.
\<close>

lemma gateOk_change:
  assumes ok: "gateOk g"
    and objs: "objects g' = (objects g)(ref := s')"
    and readers: "\<And>r. r \<noteq> ref \<Longrightarrow> leasesOf (readerLeases g') r = leasesOf (readerLeases g) r"
    and turns: "\<And>r. r \<noteq> ref \<Longrightarrow> leasesOf (turnLeases g') r = leasesOf (turnLeases g) r"
    and same: "nextRef g' = nextRef g" "states g' = states g"
    and here: "objectOk (leasesOf (readerLeases g') ref) (leasesOf (turnLeases g') ref) s'"
    and unborn: "nextRef g \<le> ref \<Longrightarrow> GateObject.turns s' = [] \<and> frame s' = None
      \<and> leasesOf (readerLeases g') ref = 0 \<and> leasesOf (turnLeases g') ref = 0"
  shows "gateOk g'"
  unfolding gateOk_def
proof (intro conjI allI impI)
  fix r
  show "objectOk (leasesOf (readerLeases g') r) (leasesOf (turnLeases g') r) (objects g' r)"
    using here ok readers turns unfolding objs gateOk_def by (cases "r = ref") auto
next
  fix r assume r: "nextRef g' \<le> r"
  show "GateObject.turns (objects g' r) = []" "frame (objects g' r) = None"
    "leasesOf (readerLeases g') r = 0" "leasesOf (turnLeases g') r = 0"
    using r unborn ok readers turns unfolding objs same gateOk_def by (cases "r = ref"; auto)+
next
  fix ws r assume "states g' ws = Some r"
  then show "r < nextRef g'" using ok unfolding same gateOk_def by blast
qed

lemma gateOkD:
  assumes "gateOk g"
  shows "readers (objects g ref) = leasesOf (readerLeases g) ref"
    "exclusiveTurns (objects g ref) = leasesOf (turnLeases g) ref"
    "exclusiveTurns (objects g ref) \<le> 1"
    "exclusive (objects g ref) \<Longrightarrow> readers (objects g ref) = 0"
    "exclusiveTurns (objects g ref) = 1 \<Longrightarrow> exclusive (objects g ref)"
    "frame (objects g ref) \<noteq> None \<Longrightarrow> readers (objects g ref) = 0"
    "frame (objects g ref) \<noteq> None \<Longrightarrow> exclusiveTurns (objects g ref) = 0"
    "nextRef g \<le> ref \<Longrightarrow> turns (objects g ref) = []"
    "nextRef g \<le> ref \<Longrightarrow> frame (objects g ref) = None"
    "nextRef g \<le> ref \<Longrightarrow> leasesOf (readerLeases g) ref = 0"
    "nextRef g \<le> ref \<Longrightarrow> leasesOf (turnLeases g) ref = 0"
    "states g ws = Some ref \<Longrightarrow> ref < nextRef g"
  using assms unfolding gateOk_def objectOk_def by auto

lemma gateOk_update:
  assumes ok: "gateOk g"
    and s: "readers (f (objects g ref)) = readers (objects g ref)"
      "exclusiveTurns (f (objects g ref)) = exclusiveTurns (objects g ref)"
    and e: "exclusive (f (objects g ref)) \<Longrightarrow> readers (objects g ref) = 0"
      "exclusiveTurns (objects g ref) = 1 \<Longrightarrow> exclusive (f (objects g ref))"
    and w: "frame (f (objects g ref)) \<noteq> None \<Longrightarrow> readers (objects g ref) = 0 \<and> exclusiveTurns (objects g ref) = 0"
    and unborn: "nextRef g \<le> ref \<Longrightarrow> turns (f (objects g ref)) = [] \<and> frame (f (objects g ref)) = None"
  shows "gateOk (updateObject g ref f)"
  by (rule gateOk_change [OF ok, of _ ref "f (objects g ref)"])
    (use assms gateOkD [OF ok, of ref] in \<open>auto simp: updateObject_def objectOk_def\<close>)

lemma gateOk_fields [simp]:
  "gateOk (g\<lparr>microtasks := m\<rparr>) = gateOk g"
  "gateOk (g\<lparr>nextId := n\<rparr>) = gateOk g"
  "gateOk (g\<lparr>handles := h\<rparr>) = gateOk g"
  by (simp_all add: gateOk_def)

lemma gateOk_settle [simp]: "gateOk (settle ids result g) = gateOk g"
  by (auto simp: settle_def gateOk_def)

lemma gateOk_prune: "gateOk g \<Longrightarrow> gateOk (prune g ref)"
  unfolding prune_def Let_def by (auto elim!: gateOk_congr split: if_splits)

lemma gateOk_askNext:
  assumes "gateOk g" "readers (objects g ref) = 0" "exclusiveTurns (objects g ref) = 0"
    "nextRef g \<le> ref \<Longrightarrow> requests = []"
  shows "gateOk (askNext g ref r requests)"
  unfolding askNext_def
  by (rule gateOk_update) (use assms gateOkD [OF assms(1), of ref] in \<open>auto split: list.splits\<close>)

lemma gateOk_grantReaders:
  assumes "gateOk g" "\<not> exclusive (objects g ref)" "frame (objects g ref) = None"
  shows "gateOk (grantReaders g ref)"
  by (rule gateOk_change [OF assms(1), of _ ref "(objects g ref)
        \<lparr>readers := readers (objects g ref) + length (turns (objects g ref)), turns := []\<rparr>"])
    (use assms gateOkD [OF assms(1), of ref] in
      \<open>auto simp: grantReaders_def Let_def gate_defs objectOk_def simp del: One_nat_def\<close>)

lemma gateOk_pump [invariant_rules]: 
  assumes ok: "gateOk g" shows "gateOk (pump g ref)"
proof -
  note d = gateOkD [OF ok, of ref]
  let ?s = "objects g ref"
  consider "frame ?s \<noteq> None" | "frame ?s = None" "exclusive ?s" | w ws where "frame ?s = None" "\<not> exclusive ?s" "writers ?s = w # ws"
    | "frame ?s = None" "\<not> exclusive ?s" "writers ?s = []" by (cases "writers ?s") auto
  then show ?thesis
  proof cases
    case 2
    then show ?thesis using d
      by (auto simp: pump_def ok Let_def split: option.splits intro!: gateOk_askNext)
  next
    case 3
    have *: "exclusiveTurns ?s \<noteq> 1" using d(5) 3(2) by blast
    have "gateOk (updateObject g ref (\<lambda>s. s\<lparr>exclusive := True, exclusiveRoot := None, writers := ws\<rparr>))"
      if "readers ?s = 0" by (rule gateOk_update) (use ok 3 d that * in auto)
    then show ?thesis using 3 by (simp add: pump_def ok Let_def)
  next
    case 4
    then show ?thesis by (simp add: pump_def gateOk_prune gateOk_grantReaders ok)
  qed (simp add: pump_def ok)
qed

lemma gateOk_requestPump [invariant_rules]: "gateOk g \<Longrightarrow> gateOk (requestPump g ref)"
  by (simp add: requestPump_def gateOk_pump)

lemma gateOk_resume [invariant_rules]: 
  assumes ok: "gateOk g" shows "gateOk (resume g ref answer)"
proof (cases "frame (objects g ref)")
  case None
  then show ?thesis by (simp add: resume_def ok)
next
  case (Some f)
  note d = gateOkD [OF ok, of ref]
  let ?s = "objects g ref"
  have born: "\<not> nextRef g \<le> ref" and idle: "readers ?s = 0" "exclusiveTurns ?s = 0" using Some d by auto
  have "gateOk (updateObject g ref (\<lambda>s. s\<lparr>turns := [], writers := [], frame := None\<rparr>))"
    by (rule gateOk_update [OF ok]) (use d in auto)
  moreover have "gateOk (updateObject (g\<lparr>microtasks := microtasks g @ [ref]\<rparr>) ref (\<lambda>s. s\<lparr>frame := None\<rparr>))"
    by (rule gateOk_update) (use ok d in auto)
  moreover have "gateOk (askNext g ref (frameRoot f) (frameRest f))"
    by (rule gateOk_askNext) (use ok idle born in auto)
  moreover have "gateOk (settle [reqId (frameRequest f)] Granted
                      (updateObject g ref (\<lambda>s. s\<lparr>turns := remove1 (frameRequest f) (turns s),
                         exclusiveTurns := 1, frame := None\<rparr>))
                      \<lparr>turnLeases := (reqId (frameRequest f), ref) # turnLeases g\<rparr>)"
    if "exclusive ?s"
    by (rule gateOk_change [OF ok, of _ ref "?s\<lparr>turns := remove1 (frameRequest f) (turns ?s),
          exclusiveTurns := 1, frame := None\<rparr>"])
      (use that idle born d in \<open>auto simp: gate_defs objectOk_def\<close>)
  ultimately show ?thesis by (auto simp: resume_def Some Let_def split: option.splits)
qed

lemma gateOk_stateFor:
  assumes "gateOk g" "stateFor g ws = (g1, ref)"
  shows "gateOk g1" "ref < nextRef g1"
proof -
  show "ref < nextRef g1" using assms(2) gateOkD(12) [OF assms(1)]
    by (auto simp: stateFor_def split: option.splits)
  show "gateOk g1"
  proof (cases "states g ws")
    case None
    note unborn = gateOkD(8-11) [OF assms(1)]
    have g1: "g1 = g\<lparr>objects := (objects g)(nextRef g := newObject ws),
                  states := (states g)(ws \<mapsto> nextRef g), nextRef := nextRef g + 1\<rparr>"
      using assms(2) None by (auto simp: stateFor_def)
    have zero: "leasesOf (readerLeases g) (nextRef g) = 0" "leasesOf (turnLeases g) (nextRef g) = 0"
      using unborn(3,4) [of "nextRef g"] by simp_all
    show ?thesis unfolding gateOk_def
    proof (intro conjI allI impI)
      fix r
      show "objectOk (leasesOf (readerLeases g1) r) (leasesOf (turnLeases g1) r) (objects g1 r)"
        using assms(1) zero unfolding g1 gateOk_def by (simp add: objectOk_def newObject_def)
    next
      fix r assume "nextRef g1 \<le> r"
      then show "turns (objects g1 r) = []" "frame (objects g1 r) = None"
        "leasesOf (readerLeases g1) r = 0" "leasesOf (turnLeases g1) r = 0"
        unfolding g1 using unborn [of r] by (simp_all add: newObject_def)
    next
      fix v r assume "states g1 v = Some r"
      then show "r < nextRef g1"
        unfolding g1 using gateOkD(12) [OF assms(1), of v r] by (auto split: if_splits)
    qed
  next
    case (Some r)
    then show ?thesis using assms by (simp add: stateFor_def)
  qed
qed

lemma gateOk_dropHandle [simp]: "gateOk (dropHandle g h) = gateOk g"
  by (auto simp: dropHandle_def gateOk_def)

lemma dropHandle_objects [simp]: "objects (dropHandle g h) = objects g" "nextRef (dropHandle g h) = nextRef g"
  by (simp_all add: dropHandle_def)

lemma gateOk_acquireTurn [invariant_rules]: 
  assumes ok: "gateOk g" shows "gateOk (acquireTurn g ws session)"
proof -
  obtain g1 ref where s: "stateFor g ws = (g1, ref)" by fastforce
  note ok1 = gateOk_stateFor [OF ok s]
  have ok2: "gateOk (g1\<lparr>nextId := nextId g + 1\<rparr>)" by (simp add: ok1)
  show ?thesis unfolding acquireTurn_def s Let_def prod.case
    by (rule gateOk_requestPump, rule gateOk_update [OF ok2]) (use ok1 gateOkD [OF ok1(1), of ref] in auto)
qed

lemma gateOk_cancelTurn [invariant_rules]: 
  assumes ok: "gateOk g" shows "gateOk (cancelTurn g ref r)"
proof -
  have "gateOk (updateObject g ref (\<lambda>s. s\<lparr>turns := remove1 r (turns s)\<rparr>))"
    by (rule gateOk_update [OF ok]) (use gateOkD [OF ok, of ref] in auto)
  then show ?thesis by (simp add: cancelTurn_def ok gateOk_requestPump)
qed

lemma gateOk_requestExclusive [invariant_rules]: 
  assumes ok: "gateOk g" shows "gateOk (requestExclusive g ws)"
proof -
  obtain g1 ref where s: "stateFor g ws = (g1, ref)" by fastforce
  note ok1 = gateOk_stateFor [OF ok s]
  have ok2: "gateOk (g1\<lparr>nextId := n, handles := h\<rparr>)" for n h by (simp add: ok1)
  show ?thesis unfolding requestExclusive_def s Let_def prod.case
    by (rule gateOk_requestPump, rule gateOk_update [OF ok2]) (use ok1 gateOkD [OF ok1(1), of ref] in auto)
qed

lemma gateOk_writers:
  assumes ok: "gateOk g" shows "gateOk (updateObject g ref (\<lambda>s. s\<lparr>writers := f (writers s)\<rparr>))"
  by (rule gateOk_update [OF ok]) (use gateOkD [OF ok, of ref] in auto)

lemma gateOk_cancelExclusive [invariant_rules]: 
  "gateOk g \<Longrightarrow> gateOk (cancelExclusive g ref w)"
  by (simp add: cancelExclusive_def gateOk_requestPump gateOk_writers)

lemma gateOk_tryExclusive [invariant_rules]: 
  assumes ok: "gateOk g" shows "gateOk (fst (tryExclusive g ws))"
proof -
  obtain g1 ref where s: "stateFor g ws = (g1, ref)" by fastforce
  note ok1 = gateOk_stateFor [OF ok s]
  have ok2: "gateOk (g1\<lparr>nextId := n, handles := h\<rparr>)" for n h by (simp add: ok1)
  have "gateOk (updateObject (g1\<lparr>nextId := n, handles := h\<rparr>) ref (\<lambda>s. s\<lparr>exclusive := True\<rparr>))"
    if "readers (objects g1 ref) = 0" for n h
    by (rule gateOk_update [OF ok2]) (use that ok1 gateOkD [OF ok1(1), of ref] in auto)
  then show ?thesis by (auto simp: tryExclusive_def s Let_def ok1)
qed

lemma gateOk_setRoot [invariant_rules]: 
  assumes ok: "gateOk g" shows "gateOk (fst (setRoot g h session))"
proof -
  have "gateOk (updateObject g ref (\<lambda>s. s\<lparr>exclusiveRoot := session\<rparr>))" for ref
    by (rule gateOk_update [OF ok]) (use gateOkD [OF ok, of ref] in auto)
  then show ?thesis by (auto simp: setRoot_def ok Let_def gateOk_requestPump split: option.splits)
qed

lemma gateOk_openGate:
  assumes ok: "gateOk g" and "exclusiveTurns (objects g ref) = 0" shows "gateOk (openGate g ref)"
  unfolding openGate_def
  by (rule gateOk_update [OF ok]) (use assms(2) gateOkD [OF ok, of ref] in auto)

lemma gateOk_releaseExclusive [invariant_rules]: 
  assumes ok: "gateOk g" shows "gateOk (fst (releaseExclusive g h))"
proof -
  have ok1: "gateOk (dropHandle g h)" by (simp add: ok)
  show ?thesis unfolding releaseExclusive_def Let_def
    by (auto split: option.splits simp: ok intro!: gateOk_requestPump gateOk_prune gateOk_openGate gateOk_writers)
qed

lemma gateOk_releaseReader [invariant_rules]: 
  assumes ok: "gateOk g" shows "gateOk (fst (releaseReader g lease))"
proof (cases "map_of (readerLeases g) lease")
  case None
  then show ?thesis by (simp add: releaseReader_def ok)
next
  case (Some ref)
  note d = gateOkD [OF ok, of ref]
  have mem: "(lease, ref) \<in> set (readerLeases g)" using Some by (rule map_of_SomeD)
  note rem = leasesOf_remove1 [OF mem] leasesOf_member [OF mem]
  have "gateOk (updateObject (g\<lparr>readerLeases := remove1 (lease, ref) (readerLeases g)\<rparr>) ref
            (\<lambda>s. s\<lparr>readers := readers s - 1\<rparr>))"
    by (rule gateOk_change [OF ok, of _ ref "(objects g ref)\<lparr>readers := readers (objects g ref) - 1\<rparr>"])
      (use d rem in \<open>auto simp: updateObject_def objectOk_def\<close>)
  then show ?thesis by (simp add: releaseReader_def Some gateOk_requestPump)
qed

lemma gateOk_releaseTurn [invariant_rules]: 
  assumes ok: "gateOk g" and mem: "(lease, ref) \<in> set (turnLeases g)"
  shows "gateOk (fst (releaseTurn g lease ref))"
proof -
  note d = gateOkD [OF ok, of ref]
  note rem = leasesOf_remove1 [OF mem] leasesOf_member [OF mem]
  have "gateOk (updateObject (g\<lparr>turnLeases := remove1 (lease, ref) (turnLeases g)\<rparr>) ref
            (\<lambda>s. s\<lparr>exclusiveTurns := 0\<rparr>))"
    by (rule gateOk_change [OF ok, of _ ref "(objects g ref)\<lparr>exclusiveTurns := 0\<rparr>"])
      (use d rem in \<open>auto simp: updateObject_def objectOk_def\<close>)
  then show ?thesis by (simp add: releaseTurn_def ok gateOk_requestPump)
qed

lemma gateOk_runMicrotask [invariant_rules]: 
  "gateOk g \<Longrightarrow> gateOk (runMicrotask g)"
  by (auto simp: runMicrotask_def intro: gateOk_pump split: list.splits)

lemma gateOk_step: "gateStep g g' \<Longrightarrow> gateOk g \<Longrightarrow> gateOk g'"
  by (induction rule: gateStep.induct) (rule invariant_rules; assumption)+

lemma reachable_gateOk: "reachable g \<Longrightarrow> gateOk g"
proof (induction rule: reachable.induct)
  case start
  show ?case by (simp add: gateOk_def objectOk_def emptyGate_def newObject_def)
next
  case (next_step g g')
  then show ?case by (blast intro: gateOk_step)
qed


section \<open>Properties\<close>

text \<open>C15. In every reachable gate, an object that is exclusive has no readers, at most one exclusive turn
  runs and only while the object is exclusive, and the counters of every object are exactly the
  leases that are out for it.\<close>

theorem gate_excludes:
  assumes "reachable g"
  shows "(exclusive (objects g ref) \<longrightarrow> readers (objects g ref) = 0)
    \<and> exclusiveTurns (objects g ref) \<le> 1
    \<and> (exclusiveTurns (objects g ref) = 1 \<longrightarrow> exclusive (objects g ref))
    \<and> readers (objects g ref) = leasesOf (readerLeases g) ref
    \<and> exclusiveTurns (objects g ref) = leasesOf (turnLeases g) ref"
  using gateOkD [OF reachable_gateOk [OF assms], of ref] by auto

definition runningTurn :: Gate where
  "runningTurn = resume (acquireTurn (fst (setRoot (fst (tryExclusive emptyGate 1)) 0 (Some 10))) 1 11)
     0 (Some True)"

lemmas gate_ops = acquireTurn_def cancelTurn_def requestExclusive_def cancelExclusive_def tryExclusive_def
  setRoot_def dropHandle_def openGate_def releaseExclusive_def releaseReader_def releaseTurn_def
  runMicrotask_def resume_def requestPump_def pump_def grantReaders_def askNext_def prune_def
  stateFor_def newObject_def settle_def updateObject_def emptyGate_def Let_def

lemma runningTurn_reachable: "reachable runningTurn"
  unfolding runningTurn_def by (intro start gateStep.intros next_step [OF _ gateStep.intros(1)]
    next_step [OF _ gateStep.intros(5)] next_step [OF _ gateStep.intros(6)] next_step [OF _ gateStep.intros(10)])

lemma runningTurn_state:
  "exclusiveTurns (objects runningTurn 0) = 1" "readers (objects runningTurn 0) = 0"
  by (simp_all add: runningTurn_def gate_ops)

theorem gate_excludes_witness:
  "exclusive (objects runningTurn 0) \<and> leasesOf (turnLeases runningTurn) 0 = 1"
  using gate_excludes [OF runningTurn_reachable, of 0] runningTurn_state by simp

section \<open>Writers come first\<close>

text \<open>
  \<open>spared w ref g g'\<close>: while \<open>w\<close> still waits on the object in \<open>g'\<close>, the object has no more readers
  than it had in \<open>g\<close>.
\<close>

definition spared :: "nat \<Rightarrow> nat \<Rightarrow> Gate \<Rightarrow> Gate \<Rightarrow> bool" where
  "spared w ref g g' \<longleftrightarrow>
     (w \<in> set (writers (objects g' ref)) \<longrightarrow> readers (objects g' ref) \<le> readers (objects g ref))"

lemma objects_frames [simp]:
  "objects (settle ids result g) = objects g"
  "objects (prune g ref) = objects g"
  "objects (updateObject g ref f) = (objects g)(ref := f (objects g ref))"
  by (simp_all add: settle_def prune_def updateObject_def Let_def)

lemma pump_spares: "spared w r g (pump g ref)"
  by (auto simp: spared_def pump_def grantReaders_def askNext_def Let_def split: list.splits option.splits)

lemma requestPump_spares: "spared w r g (requestPump g ref)"
  using pump_spares by (auto simp: requestPump_def spared_def)

lemma spared_after:
  assumes "spared w r g1 g2" "readers (objects g1 r) \<le> readers (objects g r)"
  shows "spared w r g g2"
  using assms unfolding spared_def by auto

lemma stateFor_readers:
  assumes "gateOk g" "stateFor g ws = (g1, ref)"
  shows "readers (objects g1 r) \<le> readers (objects g r)"
  using assms(2) by (auto simp: stateFor_def newObject_def split: option.splits)

lemma spared_refl: "readers (objects g' r) \<le> readers (objects g r) \<Longrightarrow> spared w r g g'"
  by (simp add: spared_def)

text \<open>C16. As long as a request for exclusivity stays queued on an object, no step of the program lets
  another reader in: later turns wait behind it.\<close>

theorem writers_go_first:
  assumes "reachable g" "gateStep g g'" "w \<in> set (writers (objects g' ref))"
  shows "readers (objects g' ref) \<le> readers (objects g ref)"
proof -
  note ok = reachable_gateOk [OF assms(1)]
  have "spared w ref g g'" using assms(2)
  proof (cases rule: gateStep.cases)
    case (acquires ws session)
    obtain g1 r where s: "stateFor g ws = (g1, r)" by fastforce
    show ?thesis unfolding acquires acquireTurn_def s Let_def prod.case
      by (rule spared_after [OF requestPump_spares]) (use stateFor_readers [OF ok s, of ref] stateFor_readers [OF ok s, of r] in auto)
  next
    case (asks ws)
    obtain g1 r where s: "stateFor g ws = (g1, r)" by fastforce
    show ?thesis unfolding asks requestExclusive_def s Let_def prod.case
      by (rule spared_after [OF requestPump_spares]) (use stateFor_readers [OF ok s, of ref] in auto)
  next
    case (tries ws)
    obtain g1 r where s: "stateFor g ws = (g1, r)" by fastforce
    show ?thesis unfolding tries tryExclusive_def s Let_def prod.case
      by (rule spared_refl) (use stateFor_readers [OF ok s, of ref] in auto)
  next
    case (cancels r q)
    show ?thesis unfolding cancels cancelTurn_def
      by (auto intro: spared_refl spared_after [OF requestPump_spares])
  next
    case (withdraws r v)
    show ?thesis unfolding withdraws cancelExclusive_def
      by (auto intro: spared_refl spared_after [OF requestPump_spares])
  next
    case (roots h session)
    show ?thesis unfolding roots setRoot_def Let_def
      by (auto intro!: spared_refl spared_after [OF requestPump_spares] split: option.splits)
  next
    case (releases h)
    show ?thesis unfolding releases releaseExclusive_def Let_def openGate_def
      by (auto intro!: spared_refl spared_after [OF requestPump_spares] split: option.splits)
  next
    case (ends_reader lease)
    show ?thesis unfolding ends_reader releaseReader_def Let_def
      by (auto intro!: spared_refl spared_after [OF requestPump_spares] split: option.splits)
  next
    case (ends_turn lease r)
    show ?thesis unfolding ends_turn releaseTurn_def Let_def
      by (auto intro!: spared_refl spared_after [OF requestPump_spares])
  next
    case (answers r answer)
    show ?thesis unfolding answers resume_def Let_def askNext_def
      by (auto intro!: spared_refl split: option.splits)
  next
    case micro
    show ?thesis unfolding micro runMicrotask_def
      by (auto intro!: spared_refl spared_after [OF pump_spares] split: list.splits)
  qed
  then show ?thesis using assms(3) by (simp add: spared_def)
qed

definition queuedWriter :: Gate where
  "queuedWriter = requestExclusive (acquireTurn emptyGate 1 5) 1"

theorem writers_go_first_witness:
  "readers (objects (acquireTurn queuedWriter 1 6) 0) \<le> 1"
proof -
  have r: "reachable queuedWriter" unfolding queuedWriter_def
    by (intro start next_step [OF _ gateStep.intros(1)] next_step [OF _ gateStep.intros(3)])
  have s: "1 \<in> set (writers (objects (acquireTurn queuedWriter 1 6) 0))" "readers (objects queuedWriter 0) = 1"
    by (simp_all add: queuedWriter_def gate_ops)
  show ?thesis using writers_go_first [OF r gateStep.intros(1) s(1)] s(2) by simp
qed

section \<open>Where the gate falls short\<close>

definition acquireHeld :: Gate where
  "acquireHeld = fst (tryExclusive emptyGate 1)"

definition askedTurn :: Gate where
  "askedTurn = acquireTurn (fst (setRoot acquireHeld 0 (Some 10))) 1 11"

definition splitGate :: Gate where
  "splitGate =
     (let cancelled = cancelTurn askedTurn 0 \<lparr>reqId = 1, reqSession = 11\<rparr>;
          dropped = fst (releaseExclusive cancelled 0);
          replaced = acquireTurn dropped 1 20
      in fst (tryExclusive (runMicrotask (runMicrotask (resume replaced 0 (Some True)))) 1))"

text \<open>
  \<open>tryExclusive\<close>'s release drops an object whose pump still waits for an answer. The next turn gets
  a new object and runs; then the old pump ends, its microtask prunes by the workspace and not by
  the object, and a second holder takes the workspace exclusively while the turn runs.
\<close>

lemma dropped_object_admits_both:
  "leasesOf (readerLeases splitGate) 1 = 1
   \<and> gateWorkspace (objects splitGate 1) = 1
   \<and> (\<exists>ref\<in>{0, 1, 2}. states splitGate 1 = Some ref \<and> gateWorkspace (objects splitGate ref) = 1
        \<and> exclusive (objects splitGate ref))"
  by code_simp

definition stuckGate :: Gate where
  "stuckGate =
     (let refused = fst (releaseExclusive runningTurn 0);
          ended = fst (releaseTurn refused 1 0)
      in fst (releaseExclusive ended 0))"

text \<open>A release refused because an exclusive turn runs has already marked the handle as released, so
  the workspace stays exclusive after the turn has ended and the holder has released again.\<close>

lemma refused_release_keeps_gate:
  "snd (releaseExclusive runningTurn 0) = Some ReleaseDuringTurn
   \<and> exclusive (objects stuckGate 0) \<and> exclusiveTurns (objects stuckGate 0) = 0
   \<and> releaseExclusive stuckGate 0 = (stuckGate, None)"
  by (simp add: stuckGate_def runningTurn_def gate_ops)

definition sleepingTurn :: Gate where
  "sleepingTurn = resume (runMicrotask (acquireTurn askedTurn 1 12)) 0 (Some False)"

text \<open>A pump asked for while another waits for an answer is a microtask, which finds the first still
  waiting and returns: the turn that asked for it is never looked at.\<close>

lemma pump_request_lost:
  "map reqSession (turns (objects sleepingTurn 0)) = [11, 12]
   \<and> frame (objects sleepingTurn 0) = None \<and> microtasks sleepingTurn = []
   \<and> exclusive (objects sleepingTurn 0) \<and> exclusiveTurns (objects sleepingTurn 0) = 0"
  by (simp add: sleepingTurn_def askedTurn_def acquireHeld_def gate_ops)

definition robbedGate :: Gate where
  "robbedGate = fst (releaseExclusive (resume (requestExclusive askedTurn 1) 0 None) 2)"

text \<open>A request rejected because the question failed still counts as held, so its release opens the
  gate of the current holder.\<close>

lemma rejected_request_opens_gate:
  "outcomes robbedGate 2 = Some Rejected \<and> \<not> exclusive (objects robbedGate 0)
   \<and> handles robbedGate 0 = Some \<lparr>handleRef = 0, handleHeld = True, tried = True\<rparr>"
  by (simp add: robbedGate_def askedTurn_def acquireHeld_def gate_ops)

end
