(* ===== verification/Scheduler.thy ===== *)
theory Scheduler
  imports JsText
begin

text \<open>
  \<^verbatim>\<open>plurnk-schedule/src/Scheduler.ts\<close>, with \<open>targetSessionName\<close> of \<^verbatim>\<open>definition.ts\<close>: the timers of
  the scheduled rules of every workspace.

  An armed occurrence is an object that closures keep, so it has a reference; \<open>armed\<close> and
  \<open>failures\<close> are the source's maps, with the pair of workspace and alias as their key. What runs
  under \<open>#exclusive\<close> is a job in a queue, and a job runs as one step, at a time given by the event.
  A delivery runs outside the queue: it first lists the sessions and then runs the loop.

  The first occurrence of a rule after an instant is the recurrence library's, a parameter
  \<open>following\<close>; it does not throw. Problems are named by what went wrong. The reports and the
  \<open>settled\<close> callback leave the state alone and are not modelled; a \<open>close\<close> that waits for the
  pending deliveries may end at any later step, which allows more than the source does.
\<close>

definition MAX_TIMER_MS :: int where "MAX_TIMER_MS = 2147483647"

record ScheduleDefinition =
  ruleText :: jsstr
  target :: jsstr
  prompt :: jsstr

record 'p ScheduledRule =
  ruleAlias :: jsstr
  ruleDefinition :: ScheduleDefinition
  parsed :: 'p

datatype Problem = NotStarted | ListingFailed | BadTarget jsstr | TargetMissing jsstr | LoopFailed

record 'p Armed =
  armedWorkspace :: nat
  armedRule :: "'p ScheduledRule"
  dueMs :: int
  timer :: "nat option"
  delivering :: bool

type_synonym ruleKey = "nat \<times> jsstr"

datatype 'p Job =
    SyncJob nat "(jsstr \<times> 'p ScheduledRule) list" "(jsstr \<times> int) option" "jsstr option"
  | AdmitJob nat
  | SettleJob nat "Problem option"

datatype Phase = Listing | Looping

record LoopCall =
  callWorkspace :: nat
  callSessionId :: nat
  callPrompt :: jsstr
  callAlias :: jsstr

record 'p SchedulerState =
  started :: bool
  closing :: bool
  closes :: nat
  armed :: "(ruleKey \<times> nat) list"
  failures :: "(ruleKey \<times> ScheduleDefinition \<times> Problem) list"
  occurrences :: "nat \<Rightarrow> 'p Armed"
  timers :: "nat \<Rightarrow> (nat \<times> int) option"
  jobs :: "'p Job list"
  deliveries :: "nat \<Rightarrow> Phase option"
  loopCalls :: "LoopCall list"
  nextRef :: nat
  nextTimer :: nat

definition keyOf :: "'p Armed \<Rightarrow> ruleKey" where
  "keyOf a = (armedWorkspace a, ruleAlias (armedRule a))"

section \<open>Arming\<close>

definition clearTimer :: "'p SchedulerState \<Rightarrow> nat option \<Rightarrow> 'p SchedulerState" where
  "clearTimer st h = (case h of None \<Rightarrow> st | Some i \<Rightarrow> st\<lparr>timers := (timers st)(i := None)\<rparr>)"

definition disarm :: "'p SchedulerState \<Rightarrow> ruleKey \<Rightarrow> 'p SchedulerState" where
  "disarm st k =
     (case map_of (armed st) k of
        None \<Rightarrow> st
      | Some ref \<Rightarrow> (clearTimer st (timer (occurrences st ref)))\<lparr>armed := mapDelete k (armed st)\<rparr>)"

definition setTimer :: "'p SchedulerState \<Rightarrow> int \<Rightarrow> nat \<Rightarrow> 'p SchedulerState" where
  "setTimer st now ref =
     (let a = occurrences st ref; h = nextTimer st
      in st\<lparr>timers := (timers st)(h \<mapsto> (ref, max 0 (min (dueMs a - now) MAX_TIMER_MS))),
            occurrences := (occurrences st)(ref := a\<lparr>timer := Some h\<rparr>), nextTimer := h + 1\<rparr>)"

definition arm ::
  "('p \<Rightarrow> int \<Rightarrow> int option) \<Rightarrow> 'p SchedulerState \<Rightarrow> int \<Rightarrow> nat \<Rightarrow> 'p ScheduledRule \<Rightarrow> int \<Rightarrow> 'p SchedulerState" where
  "arm following st now ws rule after =
     (if closing st then st
      else let st1 = disarm st (ws, ruleAlias rule) in
        case following (parsed rule) after of
          None \<Rightarrow> st1
        | Some due \<Rightarrow>
            let ref = nextRef st1;
                a = \<lparr>armedWorkspace = ws, armedRule = rule, dueMs = due, timer = None, delivering = False\<rparr>
            in setTimer (st1\<lparr>armed := mapSet (ws, ruleAlias rule) ref (armed st1),
                 occurrences := (occurrences st1)(ref := a), nextRef := ref + 1\<rparr>) now ref)"

section \<open>Publishing a rule set\<close>

text \<open>A rule that is absent from the set, or present with another definition, is disarmed.\<close>

definition unchanged :: "(jsstr \<times> 'p ScheduledRule) list \<Rightarrow> jsstr \<Rightarrow> ScheduleDefinition \<Rightarrow> bool" where
  "unchanged rules alias d =
     (case map_of rules alias of None \<Rightarrow> False | Some r \<Rightarrow> ruleDefinition r = d)"

definition syncArmed ::
  "nat \<Rightarrow> (jsstr \<times> 'p ScheduledRule) list \<Rightarrow> 'p SchedulerState \<Rightarrow> ruleKey \<times> nat \<Rightarrow> 'p SchedulerState" where
  "syncArmed ws rules st entry =
     (let a = occurrences st (snd entry) in
      if armedWorkspace a \<noteq> ws \<or> unchanged rules (ruleAlias (armedRule a)) (ruleDefinition (armedRule a))
      then st else (clearTimer st (timer a))\<lparr>armed := mapDelete (fst entry) (armed st)\<rparr>)"

definition keepsFailure ::
  "nat \<Rightarrow> (jsstr \<times> 'p ScheduledRule) list \<Rightarrow> jsstr option \<Rightarrow> ruleKey \<times> ScheduleDefinition \<times> Problem \<Rightarrow> bool" where
  "keepsFailure ws rules force entry =
     (case entry of ((w, alias), d, p) \<Rightarrow>
        w \<noteq> ws \<or> (case map_of rules alias of None \<Rightarrow> False
          | Some r \<Rightarrow> Some (ruleAlias r) \<noteq> force \<and> ruleDefinition r = d))"

definition syncRule ::
  "('p \<Rightarrow> int \<Rightarrow> int option) \<Rightarrow> int \<Rightarrow> nat \<Rightarrow> (jsstr \<times> int) option \<Rightarrow> 'p SchedulerState
     \<Rightarrow> 'p ScheduledRule \<Rightarrow> 'p SchedulerState" where
  "syncRule following now ws admission st rule =
     (if map_of (failures st) (ws, ruleAlias rule) \<noteq> None \<or> map_of (armed st) (ws, ruleAlias rule) \<noteq> None
      then st
      else arm following st now ws rule (case admission of
             None \<Rightarrow> now | Some (alias, t) \<Rightarrow> if alias = ruleAlias rule then t else now))"

definition runSync ::
  "('p \<Rightarrow> int \<Rightarrow> int option) \<Rightarrow> int \<Rightarrow> nat \<Rightarrow> (jsstr \<times> 'p ScheduledRule) list \<Rightarrow> (jsstr \<times> int) option
     \<Rightarrow> jsstr option \<Rightarrow> 'p SchedulerState \<Rightarrow> 'p SchedulerState" where
  "runSync following now ws rules admission force st =
     (let st1 = foldl (syncArmed ws rules) st (armed st);
          st2 = st1\<lparr>failures := filter (keepsFailure ws rules force) (failures st1)\<rparr>
      in foldl (syncRule following now ws admission) st2 (map snd rules))"

section \<open>Delivering an occurrence\<close>

definition enqueue :: "'p SchedulerState \<Rightarrow> 'p Job \<Rightarrow> 'p SchedulerState" where
  "enqueue st job = st\<lparr>jobs := jobs st @ [job]\<rparr>"

definition fire :: "'p SchedulerState \<Rightarrow> nat \<Rightarrow> 'p SchedulerState" where
  "fire st h =
     (case timers st h of
        None \<Rightarrow> st
      | Some (ref, delay) \<Rightarrow> enqueue (st\<lparr>timers := (timers st)(h := None)\<rparr>) (AdmitJob ref))"

definition endDelivery :: "'p SchedulerState \<Rightarrow> nat \<Rightarrow> Problem option \<Rightarrow> 'p SchedulerState" where
  "endDelivery st ref result =
     enqueue (st\<lparr>deliveries := (deliveries st)(ref := None)\<rparr>) (SettleJob ref result)"

definition admitDelivery :: "'p SchedulerState \<Rightarrow> int \<Rightarrow> nat \<Rightarrow> 'p SchedulerState" where
  "admitDelivery st now ref =
     (let a = occurrences st ref in
      if closing st \<or> map_of (armed st) (keyOf a) \<noteq> Some ref \<or> delivering a then st
      else if now < dueMs a then setTimer st now ref
      else let st1 = st\<lparr>occurrences := (occurrences st)(ref := a\<lparr>timer := None, delivering := True\<rparr>)\<rparr>
           in if started st then st1\<lparr>deliveries := (deliveries st)(ref \<mapsto> Listing)\<rparr>
              else endDelivery st1 ref (Some NotStarted))"

definition sessionChar :: "jschar \<Rightarrow> bool" where
  "sessionChar c \<longleftrightarrow> 65 \<le> c \<and> c \<le> 90 \<or> 97 \<le> c \<and> c \<le> 122 \<or> 48 \<le> c \<and> c \<le> 57"

definition isSessionName :: "jsstr \<Rightarrow> bool" where
  "isSessionName s \<longleftrightarrow>
     (case s of [] \<Rightarrow> False
      | c # cs \<Rightarrow> sessionChar c \<and> length cs \<le> 62 \<and> list_all (\<lambda>x. sessionChar x \<or> x = 95 \<or> x = 45) cs)"

definition targetSessionName :: "jsstr \<Rightarrow> jsstr option" where
  "targetSessionName tgt =
     (let prefix = js ''session://'' in
      if take (length prefix) tgt = prefix \<and> isSessionName (drop (length prefix) tgt)
      then Some (drop (length prefix) tgt) else None)"

record SessionRow =
  sessionId :: nat
  sessionName :: jsstr
  archivedAt :: "jsstr option"

text \<open>The answer of \<open>listSessions\<close>: \<open>None\<close> when it fails.\<close>

definition sessionsListed :: "'p SchedulerState \<Rightarrow> nat \<Rightarrow> SessionRow list option \<Rightarrow> 'p SchedulerState" where
  "sessionsListed st ref answer =
     (if deliveries st ref \<noteq> Some Listing then st
      else let a = occurrences st ref; rule = armedRule a; d = ruleDefinition rule in
        case targetSessionName (target d) of
          None \<Rightarrow> endDelivery st ref (Some (BadTarget (ruleAlias rule)))
        | Some name \<Rightarrow>
            (case answer of
               None \<Rightarrow> endDelivery st ref (Some ListingFailed)
             | Some rows \<Rightarrow>
                 (case List.find (\<lambda>s. sessionName s = name \<and> archivedAt s = None) rows of
                    None \<Rightarrow> endDelivery st ref (Some (TargetMissing (ruleAlias rule)))
                  | Some s \<Rightarrow> st\<lparr>deliveries := (deliveries st)(ref \<mapsto> Looping),
                      loopCalls := loopCalls st @ [\<lparr>callWorkspace = armedWorkspace a,
                        callSessionId = sessionId s, callPrompt = prompt d, callAlias = ruleAlias rule\<rparr>]\<rparr>)))"

definition loopEnds :: "'p SchedulerState \<Rightarrow> nat \<Rightarrow> bool \<Rightarrow> 'p SchedulerState" where
  "loopEnds st ref ok =
     (if deliveries st ref \<noteq> Some Looping then st
      else endDelivery st ref (if ok then None else Some LoopFailed))"

definition settleDelivery ::
  "('p \<Rightarrow> int \<Rightarrow> int option) \<Rightarrow> 'p SchedulerState \<Rightarrow> int \<Rightarrow> nat \<Rightarrow> Problem option \<Rightarrow> 'p SchedulerState" where
  "settleDelivery following st now ref result =
     (let a = occurrences st ref; k = keyOf a in
      if map_of (armed st) k \<noteq> Some ref then st
      else let st1 = st\<lparr>armed := mapDelete k (armed st)\<rparr> in
        case result of
          Some p \<Rightarrow> st1\<lparr>failures := mapSet k (ruleDefinition (armedRule a), p) (failures st1)\<rparr>
        | None \<Rightarrow> arm following st1 now (armedWorkspace a) (armedRule a) now)"

section \<open>The machine\<close>

definition runJob :: "('p \<Rightarrow> int \<Rightarrow> int option) \<Rightarrow> int \<Rightarrow> 'p SchedulerState \<Rightarrow> 'p SchedulerState" where
  "runJob following now st =
     (case jobs st of
        [] \<Rightarrow> st
      | job # rest \<Rightarrow>
          let st1 = st\<lparr>jobs := rest\<rparr> in
          (case job of
             SyncJob ws rules admission force \<Rightarrow> runSync following now ws rules admission force st1
           | AdmitJob ref \<Rightarrow> admitDelivery st1 now ref
           | SettleJob ref result \<Rightarrow> settleDelivery following st1 now ref result))"

definition startScheduler :: "'p SchedulerState \<Rightarrow> 'p SchedulerState" where
  "startScheduler st = (if started st then st else st\<lparr>started := True, closing := False\<rparr>)"

definition closeScheduler :: "'p SchedulerState \<Rightarrow> 'p SchedulerState" where
  "closeScheduler st = st\<lparr>closing := True, closes := closes st + 1\<rparr>"

text \<open>\<open>close\<close> after the queue: every armed timer is cleared.\<close>

definition clearArmed :: "'p SchedulerState \<Rightarrow> 'p SchedulerState" where
  "clearArmed st =
     (if closes st = 0 then st
      else (foldl (\<lambda>s e. clearTimer s (timer (occurrences st (snd e)))) st (armed st))
             \<lparr>armed := [], closes := closes st - 1\<rparr>)"

datatype 'p SchedulerEvent =
    Starts
  | CloseCalled
  | CloseClears
  | CloseEnds
  | Publishes nat "(jsstr \<times> 'p ScheduledRule) list" "(jsstr \<times> int) option" "jsstr option"
  | TimerFires nat
  | JobRuns int
  | SessionsAnswered nat "SessionRow list option"
  | LoopEnded nat bool

fun schedulerStep ::
  "('p \<Rightarrow> int \<Rightarrow> int option) \<Rightarrow> 'p SchedulerState \<Rightarrow> 'p SchedulerEvent \<Rightarrow> 'p SchedulerState" where
  "schedulerStep following st Starts = startScheduler st"
| "schedulerStep following st CloseCalled = closeScheduler st"
| "schedulerStep following st CloseClears = clearArmed st"
| "schedulerStep following st CloseEnds = (if closing st then st\<lparr>started := False\<rparr> else st)"
| "schedulerStep following st (Publishes ws rules admission force) =
     enqueue st (SyncJob ws rules admission force)"
| "schedulerStep following st (TimerFires h) = fire st h"
| "schedulerStep following st (JobRuns now) = runJob following now st"
| "schedulerStep following st (SessionsAnswered ref answer) = sessionsListed st ref answer"
| "schedulerStep following st (LoopEnded ref ok) = loopEnds st ref ok"

definition idleTimers :: "'p SchedulerState" where
  "idleTimers = \<lparr>started = False, closing = False, closes = 0, armed = [], failures = [],
     occurrences = (\<lambda>_. undefined), timers = (\<lambda>_. None), jobs = [], deliveries = (\<lambda>_. None),
     loopCalls = [], nextRef = 0, nextTimer = 0\<rparr>"

section \<open>The invariant\<close>

text \<open>
  An armed occurrence is awake when something will look at it again: its timer, its admission in
  the queue, its delivery or the settlement of its delivery.
\<close>

definition ticking :: "'p SchedulerState \<Rightarrow> nat \<Rightarrow> bool" where
  "ticking st ref \<longleftrightarrow>
     (case timer (occurrences st ref) of
        None \<Rightarrow> False
      | Some h \<Rightarrow> (case timers st h of None \<Rightarrow> False | Some (r, d) \<Rightarrow> r = ref))"

definition settles :: "nat \<Rightarrow> 'p Job \<Rightarrow> bool" where
  "settles ref job \<longleftrightarrow> (case job of SettleJob r p \<Rightarrow> r = ref | _ \<Rightarrow> False)"

definition admits :: "nat \<Rightarrow> 'p Job \<Rightarrow> bool" where
  "admits ref job \<longleftrightarrow> (case job of AdmitJob r \<Rightarrow> r = ref | _ \<Rightarrow> False)"

definition awake :: "'p SchedulerState \<Rightarrow> nat \<Rightarrow> bool" where
  "awake st ref \<longleftrightarrow>
     (if delivering (occurrences st ref) then deliveries st ref \<noteq> None \<or> list_ex (settles ref) (jobs st)
      else list_ex (admits ref) (jobs st) \<or> ticking st ref)"

definition armedOk :: "'p SchedulerState \<Rightarrow> bool" where
  "armedOk st \<longleftrightarrow> distinct (map fst (armed st))
     \<and> (\<forall>k ref. (k, ref) \<in> set (armed st) \<longrightarrow>
          ref < nextRef st \<and> keyOf (occurrences st ref) = k \<and> map_of (failures st) k = None)"

definition timersOk :: "'p SchedulerState \<Rightarrow> bool" where
  "timersOk st \<longleftrightarrow>
     (\<forall>r h. r < nextRef st \<longrightarrow> timer (occurrences st r) = Some h \<longrightarrow> h < nextTimer st
        \<and> (\<forall>q < nextRef st. timer (occurrences st q) = Some h \<longrightarrow> q = r))"

definition schedulerOk :: "'p SchedulerState \<Rightarrow> bool" where
  "schedulerOk st \<longleftrightarrow> armedOk st \<and> timersOk st
     \<and> (closes st = 0 \<longrightarrow> (\<forall>k ref. (k, ref) \<in> set (armed st) \<longrightarrow> \<not> closing st \<and> awake st ref))"

lemma schedulerOkD:
  assumes "schedulerOk st"
  shows "distinct (map fst (armed st))"
    "(k, ref) \<in> set (armed st) \<Longrightarrow> ref < nextRef st"
    "(k, ref) \<in> set (armed st) \<Longrightarrow> keyOf (occurrences st ref) = k"
    "(k, ref) \<in> set (armed st) \<Longrightarrow> map_of (failures st) k = None"
    "r < nextRef st \<Longrightarrow> timer (occurrences st r) = Some h \<Longrightarrow> h < nextTimer st"
    "r < nextRef st \<Longrightarrow> q < nextRef st \<Longrightarrow> timer (occurrences st r) = Some h
       \<Longrightarrow> timer (occurrences st q) = Some h \<Longrightarrow> q = r"
    "closes st = 0 \<Longrightarrow> (k, ref) \<in> set (armed st) \<Longrightarrow> \<not> closing st"
    "closes st = 0 \<Longrightarrow> (k, ref) \<in> set (armed st) \<Longrightarrow> awake st ref"
proof -
  have a: "armedOk st" and t: "timersOk st"
    and w: "closes st = 0 \<longrightarrow> (\<forall>k ref. (k, ref) \<in> set (armed st) \<longrightarrow> \<not> closing st \<and> awake st ref)"
    using assms unfolding schedulerOk_def by simp_all
  show "distinct (map fst (armed st))"
    "(k, ref) \<in> set (armed st) \<Longrightarrow> ref < nextRef st"
    "(k, ref) \<in> set (armed st) \<Longrightarrow> keyOf (occurrences st ref) = k"
    "(k, ref) \<in> set (armed st) \<Longrightarrow> map_of (failures st) k = None"
    using a unfolding armedOk_def by (simp_all del: split_paired_All)
  show "r < nextRef st \<Longrightarrow> timer (occurrences st r) = Some h \<Longrightarrow> h < nextTimer st"
    "r < nextRef st \<Longrightarrow> q < nextRef st \<Longrightarrow> timer (occurrences st r) = Some h
       \<Longrightarrow> timer (occurrences st q) = Some h \<Longrightarrow> q = r"
    using t [unfolded timersOk_def, rule_format] by blast+
  show "closes st = 0 \<Longrightarrow> (k, ref) \<in> set (armed st) \<Longrightarrow> \<not> closing st"
    "closes st = 0 \<Longrightarrow> (k, ref) \<in> set (armed st) \<Longrightarrow> awake st ref"
    using w by (simp_all del: split_paired_All)
qed

lemma schedulerOkI:
  assumes "distinct (map fst (armed st))"
    and "\<And>k ref. (k, ref) \<in> set (armed st) \<Longrightarrow>
      ref < nextRef st \<and> keyOf (occurrences st ref) = k \<and> map_of (failures st) k = None"
    and "\<And>r h. r < nextRef st \<Longrightarrow> timer (occurrences st r) = Some h \<Longrightarrow> h < nextTimer st"
    and "\<And>r q h. r < nextRef st \<Longrightarrow> q < nextRef st \<Longrightarrow> timer (occurrences st r) = Some h
       \<Longrightarrow> timer (occurrences st q) = Some h \<Longrightarrow> q = r"
    and "\<And>k ref. closes st = 0 \<Longrightarrow> (k, ref) \<in> set (armed st) \<Longrightarrow> \<not> closing st \<and> awake st ref"
  shows "schedulerOk st"
  unfolding schedulerOk_def armedOk_def timersOk_def using assms by (simp del: split_paired_All)

text \<open>What leaves the occurrences, the counters and the failures of the kept entries alone.\<close>

lemma schedulerOk_mono:
  assumes ok: "schedulerOk st"
    and same: "occurrences st' = occurrences st" "nextRef st' = nextRef st" "nextTimer st' = nextTimer st"
    and armed: "distinct (map fst (armed st'))" "set (armed st') \<subseteq> set (armed st)"
    and failures: "\<And>k ref. (k, ref) \<in> set (armed st') \<Longrightarrow> map_of (failures st) k = None \<Longrightarrow> map_of (failures st') k = None"
    and awake: "\<And>k ref. closes st' = 0 \<Longrightarrow> (k, ref) \<in> set (armed st') \<Longrightarrow>
      (closes st = 0 \<Longrightarrow> \<not> closing st \<and> awake st ref) \<Longrightarrow> \<not> closing st' \<and> awake st' ref"
  shows "schedulerOk st'"
proof (rule schedulerOkI)
  note d = schedulerOkD [OF ok]
  have mem: "(k, ref) \<in> set (armed st)" if "(k, ref) \<in> set (armed st')" for k ref
    using armed(2) that by (rule subsetD)
  show "distinct (map fst (armed st'))" by (rule armed)
  show "ref < nextRef st' \<and> keyOf (occurrences st' ref) = k \<and> map_of (failures st') k = None"
    if "(k, ref) \<in> set (armed st')" for k ref
    using d(2-4) [OF mem [OF that]] failures [OF that] unfolding same by simp
  show "h < nextTimer st'" if "r < nextRef st'" "timer (occurrences st' r) = Some h" for r h
    using d(5) that unfolding same by simp
  show "q = r" if "r < nextRef st'" "q < nextRef st'" "timer (occurrences st' r) = Some h"
    "timer (occurrences st' q) = Some h" for r q h
    using that unfolding same by (rule d(6))
  show "\<not> closing st' \<and> awake st' ref" if "closes st' = 0" "(k, ref) \<in> set (armed st')" for k ref
    by (rule awake [OF that]) (simp add: d(7,8) [OF _ mem [OF that(2)]])
qed

lemma mapDelete_subset: "set (mapDelete k m) \<subseteq> set m"
  by (auto simp: mapDelete_def)

lemma mapDelete_mem: "(k', v) \<in> set (mapDelete k m) \<longleftrightarrow> (k', v) \<in> set m \<and> k' \<noteq> k"
  by (auto simp: mapDelete_def)

lemma clearTimer_same [simp]:
  "occurrences (clearTimer st h) = occurrences st" "nextRef (clearTimer st h) = nextRef st"
  "nextTimer (clearTimer st h) = nextTimer st" "armed (clearTimer st h) = armed st"
  "failures (clearTimer st h) = failures st" "closes (clearTimer st h) = closes st"
  "closing (clearTimer st h) = closing st" "jobs (clearTimer st h) = jobs st"
  "deliveries (clearTimer st h) = deliveries st" "started (clearTimer st h) = started st"
  by (simp_all add: clearTimer_def split: option.splits)

lemma ticking_fields [simp]:
  "ticking (st\<lparr>armed := x\<rparr>) ref = ticking st ref" "ticking (st\<lparr>failures := y\<rparr>) ref = ticking st ref"
  "ticking (st\<lparr>jobs := q\<rparr>) ref = ticking st ref" "ticking (st\<lparr>deliveries := ds\<rparr>) ref = ticking st ref"
  "ticking (st\<lparr>closing := b\<rparr>) ref = ticking st ref" "ticking (st\<lparr>closes := n\<rparr>) ref = ticking st ref"
  "ticking (st\<lparr>started := b\<rparr>) ref = ticking st ref" "ticking (st\<lparr>loopCalls := cs\<rparr>) ref = ticking st ref"
  by (simp_all add: ticking_def cong: option.case_cong)

lemma ticking_clear:
  assumes "ticking st ref" "h \<noteq> timer (occurrences st ref)"
  shows "ticking (clearTimer st h) ref"
  using assms by (auto simp: ticking_def clearTimer_def split: option.splits)

lemma dropArmed_ok:
  assumes ok: "schedulerOk st" and mem: "(k, ref) \<in> set (armed st)"
  shows "schedulerOk ((clearTimer st (timer (occurrences st ref)))\<lparr>armed := mapDelete k (armed st)\<rparr>)"
proof (rule schedulerOk_mono [OF ok])
  note d = schedulerOkD [OF ok]
  let ?st = "(clearTimer st (timer (occurrences st ref)))\<lparr>armed := mapDelete k (armed st)\<rparr>"
  show "distinct (map fst (armed ?st))" using mapDelete_ok(1) [OF d(1)] by simp
  show "set (armed ?st) \<subseteq> set (armed st)" using mapDelete_subset by simp
  fix k' r assume r: "(k', r) \<in> set (armed ?st)"
  then have r': "(k', r) \<in> set (armed st)" "k' \<noteq> k" by (auto simp: mapDelete_mem)
  then have ne: "r \<noteq> ref" using d(3) mem by blast
  have "ticking ?st r" if "ticking st r"
  proof -
    have "timer (occurrences st ref) \<noteq> timer (occurrences st r)"
      using that d(6) [OF d(2) [OF mem] d(2) [OF r'(1)]] ne by (auto simp: ticking_def split: option.splits)
    then have "ticking (clearTimer st (timer (occurrences st ref))) r" by (rule ticking_clear [OF that])
    then show ?thesis by simp
  qed
  moreover assume "closes ?st = 0" "closes st = 0 \<Longrightarrow> \<not> closing st \<and> awake st r"
  ultimately show "\<not> closing ?st \<and> awake ?st r" by (auto simp: awake_def)
qed simp_all

lemma disarm_ok:
  assumes "schedulerOk st" shows "schedulerOk (disarm st k)"
proof (cases "map_of (armed st) k")
  case (Some ref)
  then show ?thesis using dropArmed_ok [OF assms map_of_SomeD [OF Some]] by (simp add: disarm_def)
qed (simp add: disarm_def assms)

lemma disarm_facts:
  "map_of (armed (disarm st k)) k = None" "closing (disarm st k) = closing st"
  "failures (disarm st k) = failures st" "closes (disarm st k) = closes st"
  by (auto simp: disarm_def mapDelete_lookup split: option.splits)

lemma tickingE:
  assumes "ticking st ref"
  obtains h d where "timer (occurrences st ref) = Some h" "timers st h = Some (ref, d)"
  using assms by (auto simp: ticking_def split: option.splits)

lemma tickingI:
  "timer (occurrences st ref) = Some h \<Longrightarrow> timers st h = Some (ref, d) \<Longrightarrow> ticking st ref"
  by (simp add: ticking_def)

text \<open>
  Arming an occurrence: all is well but for the occurrence that is armed and not yet awake, and
  setting its timer wakes it.
\<close>

definition okBut :: "nat \<Rightarrow> 'p SchedulerState \<Rightarrow> bool" where
  "okBut ref st \<longleftrightarrow> armedOk st \<and> timersOk st \<and> ref < nextRef st \<and> \<not> delivering (occurrences st ref)
     \<and> (closes st = 0 \<longrightarrow> (\<forall>k r. (k, r) \<in> set (armed st) \<longrightarrow> \<not> closing st \<and> (r = ref \<or> awake st r)))"

lemma setTimer_same:
  "armed (setTimer st now ref) = armed st" "nextRef (setTimer st now ref) = nextRef st"
  "failures (setTimer st now ref) = failures st" "closing (setTimer st now ref) = closing st"
  "closes (setTimer st now ref) = closes st" "nextTimer (setTimer st now ref) = Suc (nextTimer st)"
  "jobs (setTimer st now ref) = jobs st" "deliveries (setTimer st now ref) = deliveries st"
  "occurrences (setTimer st now ref) r =
     (if r = ref then (occurrences st ref)\<lparr>timer := Some (nextTimer st)\<rparr> else occurrences st r)"
  "h \<noteq> nextTimer st \<Longrightarrow> timers (setTimer st now ref) h = timers st h"
  by (simp_all add: setTimer_def Let_def)

lemma setTimer_ticks: "ticking (setTimer st now ref) ref"
  by (rule tickingI [of _ _ "nextTimer st"]) (simp_all add: setTimer_def Let_def)

lemma setTimer_ok:
  assumes ok: "okBut ref st"
  shows "schedulerOk (setTimer st now ref)"
proof -
  let ?st = "setTimer st now ref"
  have a: "armedOk st" and t: "timersOk st" and idle: "\<not> delivering (occurrences st ref)"
    and w: "\<And>k r. closes st = 0 \<Longrightarrow> (k, r) \<in> set (armed st) \<Longrightarrow> \<not> closing st \<and> (r = ref \<or> awake st r)"
    using ok unfolding okBut_def by (blast+)
  note t' = t [unfolded timersOk_def, rule_format]
  have below: "h < nextTimer st" if "r < nextRef st" "timer (occurrences st r) = Some h" for r h
    using t' that by blast
  have key: "keyOf (occurrences ?st r) = keyOf (occurrences st r)" for r
    by (simp add: setTimer_same keyOf_def)
  have "armedOk ?st" using a unfolding armedOk_def setTimer_same(1-8) key .
  moreover have "timersOk ?st" unfolding timersOk_def
  proof (intro allI impI)
    fix r h assume r: "r < nextRef ?st" and h: "timer (occurrences ?st r) = Some h"
    show "h < nextTimer ?st \<and> (\<forall>q < nextRef ?st. timer (occurrences ?st q) = Some h \<longrightarrow> q = r)"
    proof (cases "r = ref")
      case True
      then have "h = nextTimer st" using h by (simp add: setTimer_same)
      then show ?thesis using below True by (fastforce simp: setTimer_same split: if_splits)
    next
      case False
      then have h': "timer (occurrences st r) = Some h" "r < nextRef st" using h r by (simp_all add: setTimer_same)
      then have "h < nextTimer st" using below by blast
      then show ?thesis using t' [OF h'(2,1)] by (auto simp: setTimer_same split: if_splits)
    qed
  qed
  moreover have "\<not> closing ?st \<and> awake ?st r" if c: "closes ?st = 0" "(k, r) \<in> set (armed ?st)" for k r
  proof (cases "r = ref")
    case True
    then show ?thesis using w c idle setTimer_ticks [of st now ref] by (auto simp: awake_def setTimer_same)
  next
    case False
    have o: "\<not> closing st" "awake st r" using w [of k r] c False by (auto simp: setTimer_same)
    have "r < nextRef st" using a c(2) unfolding armedOk_def setTimer_same by blast
    have "ticking ?st r" if "ticking st r"
    proof -
      obtain h d where h: "timer (occurrences st r) = Some h" "timers st h = Some (r, d)"
        using \<open>ticking st r\<close> by (rule tickingE)
      then have "h \<noteq> nextTimer st" using below [OF \<open>r < nextRef st\<close>] by blast
      then show ?thesis using h False by (intro tickingI [of _ _ h d]) (simp_all add: setTimer_same)
    qed
    then show ?thesis using o False by (auto simp: awake_def setTimer_same)
  qed
  ultimately show ?thesis unfolding schedulerOk_def by blast
qed

lemma schedulerOk_okBut:
  assumes "schedulerOk st" "ref < nextRef st" "\<not> delivering (occurrences st ref)"
  shows "okBut ref st"
  using assms unfolding schedulerOk_def okBut_def by blast

text \<open>Adding an occurrence that is neither awake yet nor has a timer.\<close>

lemma addOccurrence_ok:
  assumes ok: "schedulerOk st" and opened: "\<not> closing st"
    and free: "map_of (failures st) (keyOf a) = None" "map_of (armed st) (keyOf a) = None"
    and a: "timer a = None" "\<not> delivering a"
  shows "okBut (nextRef st) (st\<lparr>armed := armed st @ [(keyOf a, nextRef st)],
    occurrences := (occurrences st)(nextRef st := a), nextRef := nextRef st + 1\<rparr>)" (is "okBut _ ?st")
proof -
  note d = schedulerOkD [OF ok]
  have "armedOk ?st" unfolding armedOk_def
  proof (intro conjI allI impI)
    show "distinct (map fst (armed ?st))" using d(1) free(2) by (simp add: map_of_eq_None_iff)
  next
    fix k r assume "(k, r) \<in> set (armed ?st)"
    then have "(k, r) \<in> set (armed st) \<or> k = keyOf a \<and> r = nextRef st" by auto
    then have "(k, r) \<in> set (armed st) \<and> r \<noteq> nextRef st \<or> k = keyOf a \<and> r = nextRef st"
      using d(2) [of k r] by auto
    then show "r < nextRef ?st" "keyOf (occurrences ?st r) = k" "map_of (failures ?st) k = None"
      using d(2-4) [of k r] free(1) by (auto simp del: split_paired_All)
  qed
  moreover have "timersOk ?st" unfolding timersOk_def
  proof (intro allI impI)
    fix r h assume r: "r < nextRef ?st" "timer (occurrences ?st r) = Some h"
    then have r': "r < nextRef st" "timer (occurrences st r) = Some h" using a(1) by (auto simp: less_Suc_eq split: if_splits)
    show "h < nextTimer ?st \<and> (\<forall>q < nextRef ?st. timer (occurrences ?st q) = Some h \<longrightarrow> q = r)"
    proof (intro conjI allI impI)
      show "h < nextTimer ?st" using d(5) [OF r'] by simp
      fix q assume "q < nextRef ?st" "timer (occurrences ?st q) = Some h"
      then have "q < nextRef st" "timer (occurrences st q) = Some h" using a(1) by (auto simp: less_Suc_eq split: if_splits)
      then show "q = r" using d(6) [OF r'(1) _ r'(2)] by blast
    qed
  qed
  moreover have "\<not> closing ?st \<and> (r = nextRef st \<or> awake ?st r)"
    if c: "closes ?st = 0" "(k, r) \<in> set (armed ?st)" for k r
  proof (cases "r = nextRef st")
    case False
    then have m: "(k, r) \<in> set (armed st)" using c(2) by auto
    have "awake st r" using d(8) [OF _ m] c(1) by simp
    moreover have "ticking ?st r" if "ticking st r"
      using that False by (auto elim!: tickingE intro!: tickingI)
    ultimately show ?thesis using False opened by (auto simp: awake_def)
  qed (simp add: opened)
  ultimately show ?thesis unfolding okBut_def using a(2) by simp
qed

lemma arm_ok [invariant_rules]:
  assumes ok: "schedulerOk st" and free: "map_of (failures st) (ws, ruleAlias rule) = None"
  shows "schedulerOk (arm following st now ws rule after)"
proof -
  obtain st1 where st1: "disarm st (ws, ruleAlias rule) = st1" by blast
  have ok1: "schedulerOk st1" using disarm_ok [OF ok, of "(ws, ruleAlias rule)"] unfolding st1 .
  note f = disarm_facts [of st "(ws, ruleAlias rule)", unfolded st1]
  have new: "mapSet (ws, ruleAlias rule) ref (armed st1) = armed st1 @ [((ws, ruleAlias rule), ref)]" for ref
    using f(1) unfolding mapSet_def by (intro if_not_P) (simp add: map_of_eq_None_iff)
  have armed: "schedulerOk (setTimer (st1\<lparr>armed := mapSet (ws, ruleAlias rule) (nextRef st1) (armed st1),
      occurrences := (occurrences st1)(nextRef st1 := \<lparr>armedWorkspace = ws, armedRule = rule, dueMs = due,
        timer = None, delivering = False\<rparr>), nextRef := nextRef st1 + 1\<rparr>) now (nextRef st1))"
    if "\<not> closing st" for due
    unfolding new
    using setTimer_ok [OF addOccurrence_ok [OF ok1, of "\<lparr>armedWorkspace = ws, armedRule = rule, dueMs = due,
        timer = None, delivering = False\<rparr>"], of now] that free f
    by (simp add: keyOf_def)
  show ?thesis unfolding arm_def st1 Let_def
    using ok ok1 armed by (simp split: option.splits)
qed

section \<open>Every step keeps the invariant\<close>

lemma syncArmed_ok:
  assumes "schedulerOk st" "set es \<subseteq> set (armed st)" "distinct (map fst es)"
  shows "schedulerOk (foldl (syncArmed ws rules) st es)"
  using assms
proof (induction es arbitrary: st)
  case (Cons e es)
  obtain k ref where e: "e = (k, ref)" by (cases e)
  have mem: "(k, ref) \<in> set (armed st)" using Cons.prems(2) e by simp
  let ?st = "syncArmed ws rules st e"
  have "schedulerOk ?st"
    using dropArmed_ok [OF Cons.prems(1) mem] Cons.prems(1) by (simp add: syncArmed_def e Let_def)
  moreover have "set es \<subseteq> set (armed ?st)"
  proof
    fix x assume x: "x \<in> set es"
    then have "fst x \<noteq> k" using Cons.prems(3) e by (auto intro: rev_image_eqI)
    moreover have "x \<in> set (armed st)" using x Cons.prems(2) by auto
    ultimately show "x \<in> set (armed ?st)" by (simp add: syncArmed_def e Let_def mapDelete_def)
  qed
  ultimately show ?case using Cons.IH Cons.prems(3) by simp
qed simp

lemma awake_fields [simp]:
  "awake (st\<lparr>failures := y\<rparr>) ref = awake st ref" "awake (st\<lparr>armed := x\<rparr>) ref = awake st ref"
  "awake (st\<lparr>closing := b\<rparr>) ref = awake st ref" "awake (st\<lparr>closes := n\<rparr>) ref = awake st ref"
  "awake (st\<lparr>started := b\<rparr>) ref = awake st ref" "awake (st\<lparr>loopCalls := cs\<rparr>) ref = awake st ref"
  by (simp_all add: awake_def)

lemma awake_mono:
  assumes "awake st r" "occurrences st' r = occurrences st r" "timers st' = timers st"
    "set (jobs st) \<subseteq> set (jobs st')" "deliveries st' r = deliveries st r"
  shows "awake st' r"
proof -
  have "ticking st' r = ticking st r" unfolding ticking_def assms(2,3) ..
  moreover have "list_ex P (jobs st) \<Longrightarrow> list_ex P (jobs st')" for P
    using assms(4) by (auto simp: list_ex_iff)
  ultimately show ?thesis using assms(1) unfolding awake_def assms(2,5) by (auto split: if_splits)
qed

lemma timersOk_cong:
  assumes "occurrences st' = occurrences st" "nextRef st' = nextRef st" "nextTimer st' = nextTimer st"
  shows "timersOk st' = timersOk st"
  unfolding timersOk_def assms ..

lemma filter_lookup: "map_of m k = None \<Longrightarrow> map_of (filter P m) k = None"
  by (auto simp: map_of_eq_None_iff)

lemma failures_filter_ok:
  assumes ok: "schedulerOk st" shows "schedulerOk (st\<lparr>failures := filter P (failures st)\<rparr>)"
  by (rule schedulerOk_mono [OF ok]) (use schedulerOkD(1) [OF ok] in \<open>auto intro: filter_lookup\<close>)

lemma syncRule_ok: "schedulerOk st \<Longrightarrow> schedulerOk (syncRule following now ws admission st rule)"
  by (cases "map_of (failures st) (ws, ruleAlias rule)") (simp_all add: syncRule_def arm_ok)

lemma syncRules_ok: "schedulerOk st \<Longrightarrow> schedulerOk (foldl (syncRule following now ws admission) st rules)"
  by (induction rules arbitrary: st) (simp_all add: syncRule_ok)

lemma runSync_ok [invariant_rules]:
  assumes "schedulerOk st" shows "schedulerOk (runSync following now ws rules admission force st)"
  unfolding runSync_def Let_def
  by (intro syncRules_ok failures_filter_ok syncArmed_ok assms order_refl schedulerOkD(1))

lemma awake_enqueue: "awake st ref \<Longrightarrow> awake (enqueue st job) ref"
  by (auto simp: awake_def enqueue_def)

lemma enqueue_same [simp]:
  "occurrences (enqueue st j) = occurrences st" "nextRef (enqueue st j) = nextRef st"
  "nextTimer (enqueue st j) = nextTimer st" "armed (enqueue st j) = armed st"
  "failures (enqueue st j) = failures st" "closes (enqueue st j) = closes st"
  "closing (enqueue st j) = closing st" "jobs (enqueue st j) = jobs st @ [j]"
  "deliveries (enqueue st j) = deliveries st" "started (enqueue st j) = started st"
  "timers (enqueue st j) = timers st"
  by (simp_all add: enqueue_def)

text \<open>A step that touches neither the maps nor the occurrences and keeps everyone awake.\<close>

lemma schedulerOk_quiet:
  assumes ok: "schedulerOk st"
    and same: "occurrences st' = occurrences st" "nextRef st' = nextRef st" "nextTimer st' = nextTimer st"
      "armed st' = armed st" "failures st' = failures st" "closes st' = closes st" "closing st' = closing st"
    and awake: "\<And>k r. (k, r) \<in> set (armed st) \<Longrightarrow> awake st r \<Longrightarrow> awake st' r"
  shows "schedulerOk st'"
  by (rule schedulerOk_mono [OF ok]) (use schedulerOkD(1) [OF ok] in \<open>simp_all add: same awake\<close>)

lemma enqueue_ok [invariant_rules]: "schedulerOk st \<Longrightarrow> schedulerOk (enqueue st job)"
  by (erule schedulerOk_quiet) (simp_all add: awake_enqueue)

lemma fire_ok [invariant_rules]:
  assumes ok: "schedulerOk st" shows "schedulerOk (fire st h)"
proof (cases "timers st h")
  case None
  then show ?thesis using ok by (simp add: fire_def)
next
  case (Some t)
  obtain ref delay where t: "t = (ref, delay)" by (cases t)
  let ?st = "fire st h"
  have eq: "?st = enqueue (st\<lparr>timers := (timers st)(h := None)\<rparr>) (AdmitJob ref)"
    by (simp add: fire_def Some t)
  show ?thesis
  proof (rule schedulerOk_quiet [OF ok])
    fix k r assume "(k, r) \<in> set (armed st)" and a: "awake st r"
    have "admits ref (AdmitJob ref)" by (simp add: admits_def)
    moreover have "ticking ?st r" if tick: "ticking st r" and ne: "r \<noteq> ref"
    proof -
      obtain i d where i: "timer (occurrences st r) = Some i" "timers st i = Some (r, d)"
        using tick by (rule tickingE)
      then have "i \<noteq> h" using Some t ne by auto
      then show ?thesis using i by (intro tickingI [of _ _ i d]) (simp_all add: eq)
    qed
    ultimately show "awake ?st r" using a by (cases "r = ref") (auto simp: awake_def eq)
  qed (simp_all add: eq)
qed

lemma endDelivery_ok [invariant_rules]:
  assumes ok: "schedulerOk st" shows "schedulerOk (endDelivery st ref result)"
  by (rule schedulerOk_quiet [OF ok])
    (auto simp: endDelivery_def awake_def settles_def ticking_def enqueue_def split: option.splits)

lemma sessionsListed_ok [invariant_rules]:
  assumes ok: "schedulerOk st" shows "schedulerOk (sessionsListed st ref answer)"
proof -
  have "schedulerOk (st\<lparr>deliveries := (deliveries st)(ref \<mapsto> p), loopCalls := cs\<rparr>)" for p cs
    by (rule schedulerOk_quiet [OF ok]) (auto simp: awake_def ticking_def split: option.splits)
  then show ?thesis
    unfolding sessionsListed_def Let_def using ok by (auto intro: endDelivery_ok split: option.splits)
qed

lemma loopEnds_ok [invariant_rules]: "schedulerOk st \<Longrightarrow> schedulerOk (loopEnds st ref ok)"
  by (simp add: loopEnds_def endDelivery_ok)

text \<open>
  Running a job takes it from the queue; the occurrence it is about may have been awake only
  through it, everything else stays awake.
\<close>

definition subject :: "'p Job \<Rightarrow> nat option" where
  "subject job = (case job of AdmitJob r \<Rightarrow> Some r | SettleJob r p \<Rightarrow> Some r | _ \<Rightarrow> None)"

definition okExcept :: "nat option \<Rightarrow> 'p SchedulerState \<Rightarrow> bool" where
  "okExcept s st \<longleftrightarrow> armedOk st \<and> timersOk st
     \<and> (closes st = 0 \<longrightarrow> (\<forall>k r. (k, r) \<in> set (armed st) \<longrightarrow> \<not> closing st \<and> (s = Some r \<or> awake st r)))"

lemma dequeue_ok:
  assumes ok: "schedulerOk st" and jobs: "jobs st = job # rest"
  shows "okExcept (subject job) (st\<lparr>jobs := rest\<rparr>)"
proof -
  have awake: "awake (st\<lparr>jobs := rest\<rparr>) r" if "awake st r" "subject job \<noteq> Some r" for r
  proof -
    have "\<not> admits r job" "\<not> settles r job"
      using that(2) by (cases job; simp add: admits_def settles_def subject_def)+
    then show ?thesis using that(1) unfolding awake_def jobs
      by (cases "delivering (occurrences st r)") simp_all
  qed
  have armed: "armedOk (st\<lparr>jobs := rest\<rparr>)" using ok by (simp add: schedulerOk_def armedOk_def)
  have timers: "timersOk (st\<lparr>jobs := rest\<rparr>)" using ok unfolding schedulerOk_def by (simp add: timersOk_cong [of "st\<lparr>jobs := rest\<rparr>" st])
  show ?thesis unfolding okExcept_def
  proof (intro conjI impI allI)
    fix k r assume c: "closes (st\<lparr>jobs := rest\<rparr>) = 0" "(k, r) \<in> set (armed (st\<lparr>jobs := rest\<rparr>))"
    then have c': "closes st = 0" "(k, r) \<in> set (armed st)" by simp_all
    show "\<not> closing (st\<lparr>jobs := rest\<rparr>)" using schedulerOkD(7) [OF ok c'] by simp
    show "subject job = Some r \<or> awake (st\<lparr>jobs := rest\<rparr>) r" using schedulerOkD(8) [OF ok c'] awake by blast
  qed (rule armed, rule timers)
qed

lemma okExcept_None: "okExcept None st = schedulerOk st"
  by (simp add: okExcept_def schedulerOk_def)

lemma deliveryBegins_ok:
  assumes ok: "okExcept (Some ref) st" and open': "\<not> closing st"
    and occ: "occurrences st' = (occurrences st)(ref := (occurrences st ref)\<lparr>timer := None, delivering := True\<rparr>)"
    and same: "armed st' = armed st" "failures st' = failures st" "nextRef st' = nextRef st"
      "nextTimer st' = nextTimer st" "closes st' = closes st" "closing st' = closing st" "timers st' = timers st"
    and more: "set (jobs st) \<subseteq> set (jobs st')" "\<And>r. r \<noteq> ref \<Longrightarrow> deliveries st' r = deliveries st r"
    and here: "awake st' ref"
  shows "schedulerOk st'"
  unfolding schedulerOk_def
proof (intro conjI allI impI)
  have a: "armedOk st" and t: "timersOk st" using ok unfolding okExcept_def by auto
  have key: "keyOf (occurrences st' r) = keyOf (occurrences st r)" for r by (simp add: occ keyOf_def)
  show "armedOk st'" using a unfolding armedOk_def same key .
  have timer1: "timer (occurrences st' r) = Some h \<Longrightarrow> timer (occurrences st r) = Some h" for r h
    by (simp add: occ split: if_splits)
  show "timersOk st'" unfolding timersOk_def
  proof (intro allI impI)
    fix r h assume "r < nextRef st'" "timer (occurrences st' r) = Some h"
    then have "r < nextRef st" "timer (occurrences st r) = Some h" using timer1 same by simp_all
    note r = t [unfolded timersOk_def, rule_format, OF this]
    show "h < nextTimer st' \<and> (\<forall>q < nextRef st'. timer (occurrences st' q) = Some h \<longrightarrow> q = r)"
      unfolding same using r timer1 by blast
  qed
  fix k r assume c: "closes st' = 0" "(k, r) \<in> set (armed st')"
  show "\<not> closing st'" using open' same by simp
  show "awake st' r"
  proof (cases "r = ref")
    case False
    then have "awake st r" using ok c unfolding okExcept_def same by blast
    then show ?thesis by (rule awake_mono) (simp_all add: occ same more False)
  qed (simp add: here)
qed

lemma admitDelivery_ok:
  assumes ok: "okExcept (Some ref) st"
    and delivering: "\<And>k. closes st = 0 \<Longrightarrow> (k, ref) \<in> set (armed st) \<Longrightarrow> delivering (occurrences st ref) \<Longrightarrow> awake st ref"
  shows "schedulerOk (admitDelivery st now ref)"
proof -
  let ?a = "occurrences st ref"
  have a: "armedOk st" and t: "timersOk st"
    and w: "\<And>k r. closes st = 0 \<Longrightarrow> (k, r) \<in> set (armed st) \<Longrightarrow> \<not> closing st \<and> (ref = r \<or> awake st r)"
    using ok unfolding okExcept_def by auto
  have key: "keyOf (occurrences st r) = k" "r < nextRef st" if "(k, r) \<in> set (armed st)" for k r
    using a that unfolding armedOk_def by blast+
  show ?thesis
  proof (cases "closing st \<or> map_of (armed st) (keyOf ?a) \<noteq> Some ref \<or> delivering ?a")
    case True
    then have "awake st ref" if "closes st = 0" "(k, ref) \<in> set (armed st)" for k
    proof -
      have "map_of (armed st) (keyOf ?a) = Some ref"
        using that(2) a unfolding key(1) [OF that(2)] armedOk_def by (simp add: map_of_eq_Some_iff)
      then show ?thesis using True w [OF that] delivering [OF that] by blast
    qed
    then have "schedulerOk st" unfolding schedulerOk_def using a t w by blast
    then show ?thesis using True by (simp add: admitDelivery_def Let_def)
  next
    case False
    have mem: "(keyOf ?a, ref) \<in> set (armed st)" using False by (auto intro: map_of_SomeD)
    have born: "ref < nextRef st" using key(2) [OF mem] .
    show ?thesis
    proof (cases "now < dueMs ?a")
      case True
      have "okBut ref st" unfolding okBut_def using a t w born False by blast
      then show ?thesis using True False by (simp add: admitDelivery_def Let_def setTimer_ok)
    next
      case late: False
      let ?st1 = "st\<lparr>occurrences := (occurrences st)(ref := ?a\<lparr>timer := None, delivering := True\<rparr>)\<rparr>"
      have o: "\<not> closing st" using False by blast
      have "schedulerOk (?st1\<lparr>deliveries := (deliveries st)(ref \<mapsto> Listing)\<rparr>)"
        by (rule deliveryBegins_ok [OF ok o]) (simp_all add: awake_def)
      moreover have "schedulerOk (endDelivery ?st1 ref result)" for result
        by (rule deliveryBegins_ok [OF ok o]) (auto simp: endDelivery_def awake_def settles_def)
      ultimately show ?thesis using False late by (simp add: admitDelivery_def Let_def)
    qed
  qed
qed

lemma settleDelivery_ok:
  assumes ok: "okExcept (Some ref) st"
    and other: "\<And>k. closes st = 0 \<Longrightarrow> (k, ref) \<in> set (armed st) \<Longrightarrow>
      keyOf (occurrences st ref) = k \<Longrightarrow> map_of (armed st) k \<noteq> Some ref \<Longrightarrow> awake st ref"
  shows "schedulerOk (settleDelivery following st now ref result)"
proof -
  let ?a = "occurrences st ref" and ?k = "keyOf (occurrences st ref)"
  have a: "armedOk st" and t: "timersOk st"
    and w: "\<And>k r. closes st = 0 \<Longrightarrow> (k, r) \<in> set (armed st) \<Longrightarrow> \<not> closing st \<and> (ref = r \<or> awake st r)"
    using ok unfolding okExcept_def by auto
  have key: "keyOf (occurrences st r) = k" if "(k, r) \<in> set (armed st)" for k r
    using a that unfolding armedOk_def by blast
  show ?thesis
  proof (cases "map_of (armed st) ?k = Some ref")
    case False
    have "schedulerOk st" unfolding schedulerOk_def using a t w other key False by blast
    then show ?thesis using False by (simp add: settleDelivery_def Let_def)
  next
    case True
    let ?st1 = "st\<lparr>armed := mapDelete ?k (armed st)\<rparr>"
    have mem: "(?k, ref) \<in> set (armed st)" using True by (rule map_of_SomeD)
    have gone: "r \<noteq> ref" if "(k, r) \<in> set (armed ?st1)" for k r
      using that key [of k ref] by (auto simp: mapDelete_mem)
    have distinct: "distinct (map fst (armed st))" and facts: "\<And>k r. (k, r) \<in> set (armed st) \<Longrightarrow>
        r < nextRef st \<and> keyOf (occurrences st r) = k \<and> map_of (failures st) k = None"
      using a unfolding armedOk_def by blast+
    have ok1: "schedulerOk ?st1" unfolding schedulerOk_def
    proof (intro conjI allI impI)
      show "armedOk ?st1" unfolding armedOk_def
      proof (intro conjI allI impI)
        show "distinct (map fst (armed ?st1))" using mapDelete_ok(1) [OF distinct] by simp
        fix k r assume "(k, r) \<in> set (armed ?st1)"
        then have "(k, r) \<in> set (armed st)" by (simp add: mapDelete_mem)
        from facts [OF this] show "r < nextRef ?st1" "keyOf (occurrences ?st1 r) = k" "map_of (failures ?st1) k = None"
          by simp_all
      qed
      show "timersOk ?st1" using t by (simp add: timersOk_cong [of ?st1 st])
      fix k r assume "closes ?st1 = 0" "(k, r) \<in> set (armed ?st1)"
      then show "\<not> closing ?st1" "awake ?st1 r" using w [of k r] gone [of k r] by (auto simp: mapDelete_mem)
    qed
    have failing: "schedulerOk (?st1\<lparr>failures := mapSet ?k f (failures st)\<rparr>)" for f
      by (rule schedulerOk_mono [OF ok1])
        (use schedulerOkD(1) [OF ok1] in \<open>auto simp: mapSet_lookup mapDelete_mem\<close>)
    have "map_of (failures st) ?k = None" using facts [OF mem] by blast
    then have "schedulerOk (arm following ?st1 now (armedWorkspace ?a) (armedRule ?a) now)"
      by (intro arm_ok [OF ok1]) (simp add: keyOf_def)
    then show ?thesis using True failing by (simp add: settleDelivery_def Let_def split: option.split)
  qed
qed

text \<open>An occurrence that is being delivered is armed until its delivery settles.\<close>

lemma runJob_ok [invariant_rules]:
  assumes ok: "schedulerOk st" shows "schedulerOk (runJob following now st)"
proof (cases "jobs st")
  case Nil
  then show ?thesis using ok by (simp add: runJob_def)
next
  case (Cons job rest)
  note d = dequeue_ok [OF ok Cons]
  have armed: "awake st r" if "closes st = 0" "(k, r) \<in> set (armed st)" for k r
    using schedulerOkD(8) [OF ok that] .
  show ?thesis
  proof (cases job)
    case (SyncJob ws rules admission force)
    then show ?thesis using d by (simp add: runJob_def Cons subject_def okExcept_None runSync_ok)
  next
    case (AdmitJob ref)
    have "schedulerOk (admitDelivery (st\<lparr>jobs := rest\<rparr>) now ref)"
    proof (rule admitDelivery_ok)
      show "okExcept (Some ref) (st\<lparr>jobs := rest\<rparr>)" using d AdmitJob by (simp add: subject_def)
      fix k assume "closes (st\<lparr>jobs := rest\<rparr>) = 0" "(k, ref) \<in> set (armed (st\<lparr>jobs := rest\<rparr>))"
        "delivering (occurrences (st\<lparr>jobs := rest\<rparr>) ref)"
      then show "awake (st\<lparr>jobs := rest\<rparr>) ref"
        using armed [of k ref] by (simp add: awake_def Cons AdmitJob settles_def)
    qed
    then show ?thesis by (simp add: runJob_def Cons AdmitJob)
  next
    case (SettleJob ref result)
    have "schedulerOk (settleDelivery following (st\<lparr>jobs := rest\<rparr>) now ref result)"
    proof (rule settleDelivery_ok)
      show "okExcept (Some ref) (st\<lparr>jobs := rest\<rparr>)" using d SettleJob by (simp add: subject_def)
      fix k assume "(k, ref) \<in> set (armed (st\<lparr>jobs := rest\<rparr>))" "map_of (armed (st\<lparr>jobs := rest\<rparr>)) k \<noteq> Some ref"
      then show "awake (st\<lparr>jobs := rest\<rparr>) ref"
        using schedulerOkD(1) [OF ok] by (simp add: map_of_eq_Some_iff)
    qed
    then show ?thesis by (simp add: runJob_def Cons SettleJob)
  qed
qed

lemma start_ok [invariant_rules]:
  assumes ok: "schedulerOk st" shows "schedulerOk (startScheduler st)"
proof (cases "started st")
  case False
  show ?thesis unfolding startScheduler_def
    by (rule schedulerOk_mono [OF ok]) (use schedulerOkD(1) [OF ok] False in simp_all)
qed (simp add: startScheduler_def ok)

lemma close_ok [invariant_rules]:
  assumes ok: "schedulerOk st" shows "schedulerOk (closeScheduler st)"
  unfolding closeScheduler_def
  by (rule schedulerOk_mono [OF ok]) (use schedulerOkD(1) [OF ok] in simp_all)

lemma ended_ok [invariant_rules]: "schedulerOk st \<Longrightarrow> schedulerOk (st\<lparr>started := b\<rparr>)"
  by (erule schedulerOk_quiet) simp_all

lemma clearTimers_same:
  "occurrences (foldl (\<lambda>s e. clearTimer s (f e)) st es) = occurrences st \<and>
   nextRef (foldl (\<lambda>s e. clearTimer s (f e)) st es) = nextRef st \<and>
   nextTimer (foldl (\<lambda>s e. clearTimer s (f e)) st es) = nextTimer st"
  by (induction es arbitrary: st) simp_all

lemma clearArmed_ok [invariant_rules]: "schedulerOk st \<Longrightarrow> schedulerOk (clearArmed st)"
  unfolding clearArmed_def by (auto elim!: schedulerOk_mono simp: clearTimers_same)

lemma schedulerStep_ok: "schedulerOk st \<Longrightarrow> schedulerOk (schedulerStep following st e)"
  by (cases e) (auto intro: invariant_rules)

interpretation timers: machine "schedulerStep following" idleTimers schedulerOk for following
  by unfold_locales
    (simp_all add: schedulerStep_ok, simp add: schedulerOk_def armedOk_def timersOk_def idleTimers_def)

section \<open>Properties\<close>

text \<open>C19. No scheduled message is forgotten. Whatever is published, fired, delivered, started and closed,
  in whatever order: while no close is under way, every armed occurrence of a rule will be looked
  at again, because its timer runs, its admission or settlement is queued, or its delivery is
  under way; and a rule is never armed and held as failed at once.\<close>

theorem armed_never_forgotten:
  assumes "st = runFrom (schedulerStep following) idleTimers events"
    and "closes st = 0" "map_of (armed st) k = Some ref"
  shows "\<not> closing st \<and> awake st ref \<and> keyOf (occurrences st ref) = k \<and> map_of (failures st) k = None"
proof -
  have ok: "schedulerOk st" unfolding assms(1) by (rule timers.run_holds)
  have mem: "(k, ref) \<in> set (armed st)" using assms(3) by (rule map_of_SomeD)
  show ?thesis using schedulerOkD(3,4) [OF ok mem] schedulerOkD(7,8) [OF ok assms(2) mem] by simp
qed

lemma setTimer_armed: "dueMs (occurrences (setTimer st now ref) r) = dueMs (occurrences st r)"
  by (simp add: setTimer_same)

lemma disarm_other:
  "k' \<noteq> k \<Longrightarrow> map_of (armed (disarm st k)) k' = map_of (armed st) k'"
  by (auto simp: disarm_def mapDelete_lookup split: option.splits)

lemma arm_failures [simp]: "failures (arm following st now ws rule after) = failures st"
  by (simp add: arm_def Let_def setTimer_same disarm_facts split: option.split)

lemma arm_other:
  "k \<noteq> (ws, ruleAlias rule) \<Longrightarrow> map_of (armed (arm following st now ws rule after)) k = map_of (armed st) k"
  by (auto simp: arm_def Let_def setTimer_same mapSet_lookup disarm_other split: option.split)

lemma arm_here:
  assumes "\<not> closing st" "following (parsed rule) after = Some due"
  shows "\<exists>ref. map_of (armed (arm following st now ws rule after)) (ws, ruleAlias rule) = Some ref
    \<and> dueMs (occurrences (arm following st now ws rule after) ref) = due"
  using assms by (auto simp: arm_def Let_def setTimer_same mapSet_lookup setTimer_armed)

lemma arm_exhausted:
  assumes "\<not> closing st" "following (parsed rule) after = None"
  shows "map_of (armed (arm following st now ws rule after)) (ws, ruleAlias rule) = None"
  using assms disarm_facts(1) by (simp add: arm_def Let_def)

text \<open>A delivery has one outcome. If it succeeded, however late, the rule is armed for its first
  occurrence after now, so what was missed is skipped and not made up for, or disarmed when there
  is none; if it failed, the rule is disarmed and its problem is held. Other rules are untouched.\<close>

lemma settlement_arms_ahead:
  assumes following: "\<forall>p t due. following p t = Some due \<longrightarrow> t < due"
    and "map_of (armed st) k = Some ref" "keyOf (occurrences st ref) = k" "\<not> closing st"
    and st': "st' = settleDelivery following st now ref result"
  shows "(result = None \<longrightarrow> (case map_of (armed st') k of
        None \<Rightarrow> following (parsed (armedRule (occurrences st ref))) now = None
      | Some ref' \<Rightarrow> following (parsed (armedRule (occurrences st ref))) now = Some (dueMs (occurrences st' ref'))
          \<and> now < dueMs (occurrences st' ref')))
    \<and> (\<forall>p. result = Some p \<longrightarrow> map_of (armed st') k = None
        \<and> map_of (failures st') k = Some (ruleDefinition (armedRule (occurrences st ref)), p))
    \<and> (\<forall>k'. k' \<noteq> k \<longrightarrow> map_of (armed st') k' = map_of (armed st) k' \<and> map_of (failures st') k' = map_of (failures st) k')"
proof -
  let ?rule = "armedRule (occurrences st ref)" and ?ws = "armedWorkspace (occurrences st ref)"
  let ?st1 = "st\<lparr>armed := mapDelete k (armed st)\<rparr>"
  have k: "k = (?ws, ruleAlias ?rule)" using assms(3) by (simp add: keyOf_def)
  have eq: "st' = (case result of
          Some p \<Rightarrow> ?st1\<lparr>failures := mapSet k (ruleDefinition ?rule, p) (failures ?st1)\<rparr>
        | None \<Rightarrow> arm following ?st1 now ?ws ?rule now)"
    using assms(2,3) by (simp add: st' settleDelivery_def Let_def split: option.split)
  show ?thesis
  proof (cases result)
    case None
    then have st'_arm: "st' = arm following ?st1 now ?ws ?rule now" using eq by simp
    have o: "\<not> closing ?st1" using assms(4) by simp
    have rest: "map_of (armed st') k' = map_of (armed st) k' \<and> map_of (failures st') k' = map_of (failures st) k'"
      if "k' \<noteq> k" for k'
      using that arm_other [of k' ?ws ?rule following ?st1 now now] k
      by (simp add: st'_arm mapDelete_lookup)
    show ?thesis
    proof (cases "following (parsed ?rule) now")
      case None
      then show ?thesis using rest \<open>result = None\<close> arm_exhausted [where following = following and rule = ?rule and after = now, OF o None, of now ?ws]
        by (simp add: k [symmetric] st'_arm [symmetric])
    next
      case (Some due)
      then show ?thesis using rest \<open>result = None\<close> arm_here [where following = following and rule = ?rule and after = now, OF o Some, of now ?ws] following [rule_format, OF Some]
        by (auto simp: k [symmetric] st'_arm [symmetric])
    qed
  next
    case (Some p)
    then show ?thesis unfolding eq by (simp add: mapDelete_lookup mapSet_lookup)
  qed
qed

text \<open>A held failure stays held, and its rule disarmed, while the rule is published unchanged.\<close>

lemma syncArmed_none:
  "map_of (armed st) k = None \<Longrightarrow> map_of (armed (foldl (syncArmed ws rules) st es)) k = None"
  by (induction es arbitrary: st) (simp_all add: syncArmed_def Let_def mapDelete_lookup)

lemma syncArmed_failures: "failures (foldl (syncArmed ws rules) st es) = failures st"
  by (induction es arbitrary: st) (simp_all add: syncArmed_def Let_def)

lemma syncRules_failed:
  "map_of (failures st) k \<noteq> None \<Longrightarrow> map_of (armed st) k = None \<Longrightarrow>
     map_of (armed (foldl (syncRule following now ws admission) st rules)) k = None
     \<and> failures (foldl (syncRule following now ws admission) st rules) = failures st"
proof (induction rules arbitrary: st)
  case (Cons r rules)
  let ?st = "syncRule following now ws admission st r"
  have "failures ?st = failures st" by (simp add: syncRule_def)
  moreover have "map_of (armed ?st) k = None"
  proof (cases "k = (ws, ruleAlias r)")
    case True
    then have "?st = st" using Cons.prems(1) unfolding syncRule_def by (intro if_P) simp
    then show ?thesis using Cons.prems(2) by simp
  next
    case False
    then show ?thesis using Cons.prems(2) by (simp add: syncRule_def arm_other)
  qed
  ultimately show ?case using Cons by simp
qed simp

lemma filter_map_of:
  "map_of m k = Some v \<Longrightarrow> P (k, v) \<Longrightarrow> map_of (filter P m) k = Some v"
  by (induction m) auto

lemma failure_held:
  assumes "map_of (failures st) (ws, alias) = Some (d, p)" "map_of (armed st) (ws, alias) = None"
    and "map_of rules alias = Some r" "ruleDefinition r = d" "Some (ruleAlias r) \<noteq> force"
  shows "map_of (failures (runSync following now ws rules admission force st)) (ws, alias) = Some (d, p)
    \<and> map_of (armed (runSync following now ws rules admission force st)) (ws, alias) = None"
proof -
  let ?st1 = "foldl (syncArmed ws rules) st (armed st)"
  let ?st2 = "?st1\<lparr>failures := filter (keepsFailure ws rules force) (failures ?st1)\<rparr>"
  have "map_of (failures ?st2) (ws, alias) = Some (d, p)"
    using assms by (simp add: syncArmed_failures filter_map_of keepsFailure_def)
  moreover have "map_of (armed ?st2) (ws, alias) = None" using syncArmed_none [OF assms(2)] by simp
  ultimately show ?thesis using syncRules_failed [of ?st2 "(ws, alias)"] by (simp add: runSync_def Let_def)
qed

section \<open>A rule that rings every hour\<close>

definition hourly :: "nat \<Rightarrow> int \<Rightarrow> int option" where
  "hourly p t = Some ((t div 3600000 + 1) * 3600000)"

lemma hourly_after: "\<forall>p t due. hourly p t = Some due \<longrightarrow> t < due"
  by (auto simp: hourly_def)

definition exampleRule :: "nat ScheduledRule" where
  "exampleRule = \<lparr>ruleAlias = js ''standup'',
     ruleDefinition = \<lparr>ruleText = js ''FREQ=HOURLY;COUNT=9'', target = js ''session://main'', prompt = js ''Go''\<rparr>,
     parsed = 0\<rparr>"

definition armedExample :: "nat SchedulerState" where
  "armedExample = runFrom (schedulerStep hourly) idleTimers
     [Starts, Publishes 1 [(js ''standup'', exampleRule)] None None, JobRuns 1000]"

lemma armedExample_facts:
  "map_of (armed armedExample) (1, js ''standup'') = Some 0" "closes armedExample = 0"
  "closing armedExample = False" "keyOf (occurrences armedExample 0) = (1, js ''standup'')"
  "parsed (armedRule (occurrences armedExample 0)) = 0"
  by (simp_all add: armedExample_def idleTimers_def startScheduler_def enqueue_def runJob_def runSync_def
      syncRule_def arm_def hourly_def disarm_def setTimer_def mapSet_def exampleRule_def keyOf_def Let_def)

theorem armed_never_forgotten_witness:
  "\<not> closing armedExample \<and> awake armedExample 0 \<and> map_of (failures armedExample) (1, js ''standup'') = None"
  using armed_never_forgotten [OF armedExample_def armedExample_facts(2,1)] by simp

lemma settlement_arms_ahead_witness:
  "\<exists>ref. map_of (armed (settleDelivery hourly armedExample 8000000 0 None)) (1, js ''standup'') = Some ref
     \<and> dueMs (occurrences (settleDelivery hourly armedExample 8000000 0 None) ref) = 10800000"
proof -
  have "\<not> closing armedExample" using armedExample_facts(3) by simp
  note s = settlement_arms_ahead [OF hourly_after armedExample_facts(1,4) this refl,
      where now = 8000000 and result = None, THEN conjunct1, rule_format, OF refl]
  show ?thesis
    using s by (cases "map_of (armed (settleDelivery hourly armedExample 8000000 0 None)) (1, js ''standup'')")
      (simp_all add: hourly_def)
qed

end
