(* ===== verification/Spec2Isabelle.thy ===== *)
theory Spec2Isabelle
  imports TextCoordinates Slicer SlicerBatch LineAnchors ReceiptChecks EditSequence BodyPreview LineSelection ReadResolve ParserCoordinates PacketBody ScopeSyntax BudgetReadout LogVisibility HttpCache CapabilityAdmission CapabilityResolver StrikeRail ExecScheduler
    Usage Cost Capacity Pool UnifiedDiff TextDiff DiffReadBack TextCsv LeadingReasoning WorkspaceGate Scheduler
begin

text \<open>
  A verification library for the plurnk service, an agent host written in TypeScript. A session
  is a loop of turns: a model is shown a packet of numbered and anchored resource text, answers
  with operations (read, edit, find, run), and the service dispatches them against workspaces,
  files and executors. The library models the parts of the program that decide: where in a text an
  operation applies, what an edit does, who may run when, what is admitted and what it costs.

  Parts, theories and sources (paths are under \<^verbatim>\<open>src/\<close>).

  \<^item> \<open>Prelude\<close>, \<open>JsText\<close>, \<open>JsSearch\<close>: results, integers and fractions of JavaScript, lists, insertion-ordered
    maps, sorting (\<open>locale comparison\<close>), machines and their runs (\<open>locale machine\<close>), UTF-16 strings and
    searches in them.
  \<^item> \<open>TextCoordinates\<close>: \<^verbatim>\<open>plurnk-mimetypes/src/TextCoordinates.ts\<close>. Lines, columns and offsets of a
    text with CR LF, CR and LF terminators and surrogate pairs. \<open>TextRows\<close> holds further facts
    about logical lines for \<open>LineAnchors\<close>.
  \<^item> \<open>Slicer\<close>, \<open>SlicerBatch\<close>: \<^verbatim>\<open>plurnk-schemes/src/Slicer.ts\<close>. Markers, pages and windows; the spans a
    marker denotes; batches of edits with their merging of nested edits and their conflicts.
  \<^item> \<open>LineAnchors\<close>: \<^verbatim>\<open>plurnk-core/src/content/line-anchors.ts\<close>. Anchors of lines by digest, their
    widening, rendering, resolution and the checks that guard an edit.
  \<^item> \<open>EditReceipt\<close>, \<open>ReceiptChecks\<close>: \<^verbatim>\<open>plurnk-core/src/content/edit-receipt.ts\<close>. What a settled edit reports back: where
    each edit landed, what it removed and inserted; the checks and projections of receipts.
  \<^item> \<open>EditSequence\<close>: \<^verbatim>\<open>plurnk-core/src/core/EditSequence.ts\<close>. The snapshots by which the edits of one program
    keep anchors bound to lines that earlier edits moved; an inductive run relation and its invariant.
  \<^item> \<open>BodyPreview\<close>, \<open>LineSelection\<close>, \<open>ReadResolve\<close>: \<^verbatim>\<open>body-preview.ts\<close>, \<^verbatim>\<open>line-selection.ts\<close> and \<^verbatim>\<open>read-resolve.ts\<close> of
    \<^verbatim>\<open>plurnk-core/src/content\<close>. The first and last pages of a body, the lines a filter keeps and the fragments they
    make, and the answer to a READ.
  \<^item> \<open>ParserCoordinates\<close>: \<^verbatim>\<open>plurnk-mimetypes/src/ParserCoordinates.ts\<close>. The offsets and points of parser nodes and tokens,
    located as regions of the text.
  \<^item> \<open>PacketBody\<close>: \<^verbatim>\<open>plurnk-core/src/core/packet-body-format.ts\<close>. What a packet shows of a log body: the lines no fold
    covers, each behind its number, and first pages with the extent they state.
  \<^item> \<open>ScopeSyntax\<close>: \<^verbatim>\<open>plurnk-parser/src/ScopeSyntax.ts\<close>. The scopes an operation is authored with, read as marks;
    its regular expressions are patterns of \<open>JsRegex\<close>. What the service prints as a scope is read back.
  \<^item> \<open>BudgetReadout\<close>: \<^verbatim>\<open>plurnk-core/src/core/BudgetReadout.ts\<close>, \<^verbatim>\<open>TokenCalibration.ts\<close>. The gauge that states the weight
    of the packet it is part of, settled by widening its fields; it reads back as JSON by \<open>JsJson\<close>.
  \<^item> \<open>LogVisibility\<close>: \<^verbatim>\<open>plurnk-core/src/core/LogVisibility.ts\<close>. Which lines of a log body are folded away:
    stored line ranges, the scopes that add to them and the lines left visible.
  \<^item> \<open>HttpDate\<close>: \<^verbatim>\<open>plurnk-schemes-http/src/HttpCache.ts\<close>. The calendar and the formats of HTTP dates.
  \<^item> \<open>HttpCache\<close>: the same file and the header texts of \<^verbatim>\<open>HttpShared.ts\<close>. What a stored response says of
    itself, the origin's policy, freshness, validators, 304 answers and the refreshed header.
  \<^item> \<open>CapabilityAdmission\<close>: \<^verbatim>\<open>plurnk-contracts/src/CapabilityAdmission.ts\<close>. Selectors, policies and their
    normalisation across layers (\<open>locale selector_algebra\<close>).
  \<^item> \<open>CapabilityResolver\<close>: \<^verbatim>\<open>plurnk-core/src/core/CapabilityResolver.ts\<close>. The demands a statement makes, the rings of
    policy that admit or refuse it, and what a session is offered and shown; it stands on \<open>CapabilityAdmission\<close>.
  \<^item> \<open>Operations\<close>, \<open>StrikeRail\<close>: \<^verbatim>\<open>plurnk-contracts/src/types.ts\<close>, \<^verbatim>\<open>plurnk-core/src/core/StrikeRail.ts\<close>.
    Turns are assessed; repetition and errors strike, and strikes in a row end the loop.
  \<^item> \<open>ExecScheduler\<close>: \<^verbatim>\<open>plurnk-core/src/schemes/ExecScheduler.ts\<close>. Slots for executions and their queue.
  \<^item> \<open>WorkspaceGate\<close>: \<^verbatim>\<open>plurnk-core/src/core/WorkspaceGate.ts\<close>. Readers and writers of a workspace, with
    the source's objects, closures and microtasks; an inductive step relation.
  \<^item> \<open>Scheduler\<close>: \<^verbatim>\<open>plurnk-schedule/src/Scheduler.ts\<close>. Timers, deliveries and failures of scheduled
    rules, with the source's queue of mutations.
  \<^item> \<open>Usage\<close>, \<open>Cost\<close>, \<open>Capacity\<close>, \<open>Pool\<close>: \<^verbatim>\<open>usage.ts\<close>, \<^verbatim>\<open>cost.ts\<close>, \<^verbatim>\<open>capacity.ts\<close>, \<^verbatim>\<open>promptTokens.ts\<close> and
    \<^verbatim>\<open>Pool.ts\<close> of \<^verbatim>\<open>plurnk-providers/src\<close>. Reported usage and its exact price; the decision to send a
    request; several backends behind one provider.
  \<^item> \<open>TextCsv\<close>: \<^verbatim>\<open>plurnk-mimetypes-text-csv/src/TextCsv.ts\<close>. The RFC 4180 tokenizer and what reads it.
  \<^item> \<open>LeadingReasoning\<close>: \<^verbatim>\<open>plurnk-providers/src/LeadingReasoning.ts\<close>. Reasoning in a leading envelope,
    split from the content while the response streams in.
  \<^item> \<open>UnifiedDiff\<close>: \<^verbatim>\<open>plurnk-acp/src/diff.ts\<close>. The edit shown to a client.
  \<^item> \<open>TextDiff\<close>: \<^verbatim>\<open>plurnk-mimetypes-text-diff/src/TextDiff.ts\<close>. The scanner of diff documents and its
    projections. \<open>DiffReadBack\<close> shows that it reads what \<open>UnifiedDiff\<close> writes.

  How they interact. \<open>Slicer\<close> stands on \<open>TextCoordinates\<close>, \<open>LineAnchors\<close> on the logical lines of the
  same component; \<open>EditReceipt\<close> on both and on the batches of \<open>SlicerBatch\<close>; \<open>PacketBody\<close> on \<open>LogVisibility\<close> and the pages of
  \<open>BodyPreview\<close>; \<open>Cost\<close>, \<open>Capacity\<close> and \<open>Pool\<close> stand on \<open>Usage\<close> and on one another; \<open>StrikeRail\<close> on the
  operation alphabet. The stateful components (\<open>StrikeRail\<close>, \<open>ExecScheduler\<close>, \<open>Pool\<close>, \<open>Scheduler\<close>) are
  machines and interpret \<open>machine\<close> on their own step function and invariant.

  How the code is modelled. A function is a function of the same name where Isabelle allows it. A
  JavaScript number is an integer where the code has checked it to be one and a \<open>jsnum\<close> before; a
  string is its list of UTF-16 code units. A thrown error or an error result is the left of a sum,
  one constructor per message. An object with methods is a record and a function per method; an
  object that closures keep is a heap cell. Code between two awaits is one step. Loops are
  structural recursions or functions with a measure, so every modelled operation returns. Fuel is used
  in three places: the passes of \<open>BudgetReadout\<close>, whose bound is the source's own and is shown never to be
  reached; the matcher of \<open>JsRegex\<close> and the reader of \<open>JsJson\<close>, where the length of the text bounds the steps.

  What the groups of lemmas show. For the text components: conversions are inverse, results lie in
  the text, reading and editing agree, a batch is one simultaneous replacement. For the anchors:
  they are unique or refused, and rendering loses nothing. For the policies: normalisation is
  lossless and a cascade only restricts. For the machines: invariants over all runs, fairness, and
  that nothing waiting is lost. For the providers: exact sums, sound admission, overflow that
  keeps the bill. Where the code falls short of its comments the theories prove it by a concrete
  run (\<open>WorkspaceGate\<close>, \<open>Pool\<close>, \<open>TextDiff\<close>, \<open>EditReceipt\<close>, \<open>EditSequence\<close>, \<open>ScopeSyntax\<close>,
  \<open>ReadResolve\<close>, \<open>LineSelection\<close>, \<open>PacketBody\<close>).

  Where a property needs a condition on its input, such as a text without carriage returns, its text states it, and where the code
  can be run without it a lemma nearby shows the run that fails (\<open>carriage_return_tears_a_row\<close>, \<open>late_insertion_is_misplaced\<close>,
  \<open>zero_budget_rewrites_path\<close>, \<open>terminators_fuse\<close>, \<open>fused_row_throws\<close>).

  Not modelled. The digest of line anchors, the recurrence library and the answers of providers and
  clients are parameters: their code is not in the repository. Processes, sockets, files and the
  database are I/O around the modelled decisions. The parser's grammar is generated, and
  \<^verbatim>\<open>CodeMode.ts\<close> works on the syntax trees of the TypeScript compiler. The language handlers walk
  trees of parsers outside the repository. ACP and MCP transports adapt external SDKs. Prose of
  messages is left out where it decides nothing.
\<close>

end
